(* ===== verification/Prelude.thy ===== *)
theory Prelude
  imports Main "HOL-Library.Word"
begin

unbundle bit_operations_syntax

text \<open>
  Shared vocabulary of the development: the machine types of the C++ code, the ways a C++
  operation can end other than by returning (\<open>fault\<close>), sequencing of such operations, the
  little-endian byte layout of integers, zero-filled buffers, and the generic lemmas on lists
  and words that the component theories use.
\<close>

section \<open>Machine types and faults\<close>

type_synonym byte = "8 word"
type_synonym u8 = "8 word"
type_synonym u16 = "16 word"
type_synonym u32 = "32 word"
type_synonym u64 = "64 word"

text \<open>
  A C++ operation of the program returns, calls \<open>exit\<close> (or the \<open>exit_group\<close> system call)
  with a status, fails an \<open>assert\<close> (the Makefiles do not define NDEBUG), throws, or runs into
  behaviour the language does not define (a store outside a buffer, a conversion out of range, a
  use of an iterator that is not one).
\<close>

datatype fault =
    Exit int
  | Abort string
  | Throw string
  | Undefined string

type_synonym 'a res = "fault + 'a"

fun bind_res :: "'a res \<Rightarrow> ('a \<Rightarrow> 'b res) \<Rightarrow> 'b res" where
  "bind_res (Inl e) f = Inl e"
| "bind_res (Inr x) f = f x"

definition assert_res :: "string \<Rightarrow> bool \<Rightarrow> 'a \<Rightarrow> 'a res" where
  "assert_res msg b x = (if b then Inr x else Inl (Abort msg))"

text \<open>
  The conversions between C++ integer types of an x86-64 LP64 target: \<open>int\<close> has 32 bits and a
  narrowing conversion wraps (two's complement, as gcc defines it).
\<close>

definition to_i32 :: "int \<Rightarrow> int" where
  "to_i32 x = (x + 2 ^ 31) mod 2 ^ 32 - 2 ^ 31"

section \<open>Little-endian layout\<close>

fun le_bytes :: "nat \<Rightarrow> 'a::len word \<Rightarrow> byte list" where
  "le_bytes 0 w = []"
| "le_bytes (Suc n) w = ucast w # le_bytes n (drop_bit 8 w)"

fun le_word :: "byte list \<Rightarrow> 'a::len word" where
  "le_word [] = 0"
| "le_word (b # bs) = ucast b OR push_bit 8 (le_word bs)"

text \<open>The first \<open>n\<close> bytes of a zero-initialised buffer into which \<open>bs\<close> was written at the start.\<close>

definition buf_take :: "nat \<Rightarrow> byte list \<Rightarrow> byte list" where
  "buf_take n bs = take n bs @ replicate (n - length bs) 0"

section \<open>Collections and shared lemmas\<close>

named_theorems example_defs \<open>the concrete states the witnesses evaluate\<close>

lemma bind_res_Inr_iff [simp]:
  "bind_res r f = Inr y \<longleftrightarrow> (\<exists>x. r = Inr x \<and> f x = Inr y)"
  by (cases r) auto

lemma bind_res_Inl_iff:
  "bind_res r f = Inl e \<longleftrightarrow> r = Inl e \<or> (\<exists>x. r = Inr x \<and> f x = Inl e)"
  by (cases r) auto

lemma assert_res_Inr [simp]: "assert_res m b x = Inr y \<longleftrightarrow> b \<and> y = x"
  by (auto simp: assert_res_def)

lemma assert_res_True [simp]: "assert_res m True x = Inr x"
  by (simp add: assert_res_def)

lemma assert_res_False [simp]: "assert_res m False x = Inl (Abort m)"
  by (simp add: assert_res_def)

lemma to_i32_id: "- (2 ^ 31) \<le> x \<Longrightarrow> x < 2 ^ 31 \<Longrightarrow> to_i32 x = x"
  by (simp add: to_i32_def)

lemma to_i32_bounds: "- (2 ^ 31) \<le> to_i32 x \<and> to_i32 x < 2 ^ 31"
  unfolding to_i32_def by (simp add: pos_mod_bound)

lemma length_le_bytes [simp]: "length (le_bytes n w) = n"
  by (induction n arbitrary: w) auto

lemma le_word_le_bytes: "le_word (le_bytes n w) = take_bit (8 * n) (w :: 'a::len word)"
proof (induction n arbitrary: w)
  case 0
  show ?case by simp
next
  case (Suc n)
  have "ucast (ucast w :: byte) OR push_bit 8 (take_bit (8 * n) (drop_bit 8 w))
      = take_bit (8 * Suc n) w"
    by (rule bit_eqI) (auto simp: bit_simps)
  then show ?case by (simp add: Suc.IH)
qed

lemma le_word_le_bytes_id [simp]:
  assumes "LENGTH('a) \<le> 8 * n"
  shows "le_word (le_bytes n w) = (w :: 'a::len word)"
  using assms by (simp add: le_word_le_bytes take_bit_word_eq_self)

lemma bit_le_word: "bit (le_word bs :: 'a::len word) k \<Longrightarrow> k < 8 * length bs"
proof (induction bs arbitrary: k)
  case (Cons b bs)
  show ?case
  proof (cases "k < 8")
    case False
    then have "\<not> bit (ucast b :: 'a word) k" using bit_imp_le_length [of b k] by (auto simp: bit_unsigned_iff)
    then have "bit (le_word bs :: 'a word) (k - 8)"
      using Cons.prems False by (auto simp: bit_or_iff bit_push_bit_iff)
    then show ?thesis using Cons.IH [of "k - 8"] False by simp
  qed simp
qed simp

lemma le_bytes_le_word: "8 * length bs \<le> LENGTH('a) \<Longrightarrow> le_bytes (length bs) (le_word bs :: 'a::len word) = bs"
proof (induction bs)
  case (Cons b bs)
  let ?w = "le_word bs :: 'a word"
  have "ucast (ucast b OR push_bit 8 ?w) = b"
    by (rule bit_word_eqI) (use Cons.prems in \<open>auto simp: bit_simps\<close>)
  moreover have "drop_bit 8 (ucast b OR push_bit 8 ?w) = ?w"
  proof (rule bit_word_eqI)
    fix k
    assume "k < LENGTH('a)"
    have "k + 8 < LENGTH('a)" if "bit ?w k"
      using bit_le_word [OF that] Cons.prems by simp
    moreover have "\<not> bit b (k + 8)" using bit_imp_le_length [of b "k + 8"] by auto
    ultimately show "bit (drop_bit 8 (ucast b OR push_bit 8 ?w)) k = bit ?w k"
      by (auto simp: bit_simps add.commute)
  qed
  ultimately show ?case using Cons by simp
qed simp

lemma length_buf_take [simp]: "length (buf_take n bs) = n"
  by (simp add: buf_take_def)

lemma buf_take_exact [simp]: "buf_take (length bs) bs = bs"
  by (simp add: buf_take_def)

lemma unat_add_le: "unat (a + b :: 'a::len word) \<le> unat a + unat b"
  by (simp add: unat_word_ariths)

lemma unat_plus_one:
  fixes a b :: "'a::len word"
  assumes "unat a < unat b"
  shows "unat (a + 1) = unat a + 1"
proof -
  have "unat b < 2 ^ LENGTH('a)" by (rule unsigned_less)
  with assms have "unat a + 1 < 2 ^ LENGTH('a)" by linarith
  then show ?thesis by (simp add: unat_word_ariths)
qed

end
