(* ===== verification/Harness_Msgs.thy ===== *)
theory Harness_Msgs
  imports Prelude
begin

unbundle bit_operations_syntax

text \<open>
  The wire format, \<^verbatim>\<open>src/harness/msgs.h\<close>: the structs \<open>Request\<close> and \<open>Response\<close> are sent as
  they lie in memory (x86-64, little endian, eight-byte alignment), a fixed header followed by the
  first \<open>len\<close> bytes of the \<open>data\<close> array. The theory holds the structs, their memory layout and the
  two directions of the round trip between a struct and its header bytes.
\<close>

section \<open>Definitions\<close>

definition MAX_REQ_BYTES :: int where
  "MAX_REQ_BYTES = 2 ^ 20"

definition MAX_RESP_BYTES :: int where
  "MAX_RESP_BYTES = 2 ^ 20"

text \<open>
  \<open>UnnamedType\<close> is a value of the enum's underlying type that no enumerator names; the program
  never builds one, but the bytes of a message can.
\<close>

datatype ResponseType = RESPONSE | ROI_BEGIN | FINISH | UnnamedType u32

fun rtype_code :: "ResponseType \<Rightarrow> u32" where
  "rtype_code RESPONSE = 0"
| "rtype_code ROI_BEGIN = 1"
| "rtype_code FINISH = 2"
| "rtype_code (UnnamedType w) = w"

definition rtype_of_code :: "u32 \<Rightarrow> ResponseType" where
  "rtype_of_code w =
     (if w = 0 then RESPONSE else if w = 1 then ROI_BEGIN else if w = 2 then FINISH
      else UnnamedType w)"

record Request =
  rq_id :: u64
  rq_genNs :: u64
  rq_len :: u64
  rq_late :: bool
  rq_startNs :: u64
  rq_startNs_lock_ad :: u64
  rq_startNs_lock_re :: u64
  rq_sentNs :: u64
  rq_sentNs_lock_ad :: u64
  rq_sentNs_lock_re :: u64
  rq_data :: "byte list"

record Response =
  rs_type :: ResponseType
  rs_id :: u64
  rs_svcNs :: u64
  rs_len :: u64
  rs_recvNs :: u64
  rs_data :: "byte list"

text \<open>
  \<open>new Request()\<close> and \<open>new Response()\<close> value-initialise: every member is zero, and so is the data
  array. The field \<open>rq_data\<close> (\<open>rs_data\<close>) holds the written prefix of the array, the rest is zero.
\<close>

definition new_Request :: Request where
  "new_Request = \<lparr>rq_id = 0, rq_genNs = 0, rq_len = 0, rq_late = False, rq_startNs = 0,
     rq_startNs_lock_ad = 0, rq_startNs_lock_re = 0, rq_sentNs = 0, rq_sentNs_lock_ad = 0,
     rq_sentNs_lock_re = 0, rq_data = []\<rparr>"

definition new_Response :: Response where
  "new_Response = \<lparr>rs_type = RESPONSE, rs_id = 0, rs_svcNs = 0, rs_len = 0, rs_recvNs = 0,
     rs_data = []\<rparr>"

definition sizeof_Request :: int where
  "sizeof_Request = 80 + MAX_REQ_BYTES"

definition sizeof_Response :: int where
  "sizeof_Response = 40 + MAX_RESP_BYTES"

abbreviation pad_bytes :: "nat \<Rightarrow> byte list" where
  "pad_bytes n \<equiv> replicate n 0"

definition bool_byte :: "bool \<Rightarrow> byte" where
  "bool_byte b = (if b then 1 else 0)"

definition request_header :: "Request \<Rightarrow> byte list" where
  "request_header r =
     le_bytes 8 (rq_id r) @ le_bytes 8 (rq_genNs r) @ le_bytes 8 (rq_len r) @
     bool_byte (rq_late r) # pad_bytes 7 @
     le_bytes 8 (rq_startNs r) @ le_bytes 8 (rq_startNs_lock_ad r) @
     le_bytes 8 (rq_startNs_lock_re r) @ le_bytes 8 (rq_sentNs r) @
     le_bytes 8 (rq_sentNs_lock_ad r) @ le_bytes 8 (rq_sentNs_lock_re r)"

definition response_header :: "Response \<Rightarrow> byte list" where
  "response_header r =
     le_bytes 4 (rtype_code (rs_type r)) @ pad_bytes 4 @ le_bytes 8 (rs_id r) @
     le_bytes 8 (rs_svcNs r) @ le_bytes 8 (rs_len r) @ le_bytes 8 (rs_recvNs r)"

text \<open>The object in memory from its first byte: what \<open>reinterpret_cast<const char*>\<close> exposes.\<close>

definition request_bytes :: "Request \<Rightarrow> nat \<Rightarrow> byte list" where
  "request_bytes r n = take n (request_header r @ buf_take (n - 80) (rq_data r))"

definition response_bytes :: "Response \<Rightarrow> nat \<Rightarrow> byte list" where
  "response_bytes r n = take n (response_header r @ buf_take (n - 40) (rs_data r))"

definition u64_at :: "nat \<Rightarrow> byte list \<Rightarrow> u64" where
  "u64_at k bs = le_word (take 8 (drop k bs))"

text \<open>Reading a header into an existing object overwrites its header and leaves \<open>data\<close> alone.\<close>

definition load_request_header :: "byte list \<Rightarrow> Request \<Rightarrow> Request" where
  "load_request_header bs r = r\<lparr>rq_id := u64_at 0 bs, rq_genNs := u64_at 8 bs,
     rq_len := u64_at 16 bs, rq_late := (bs ! 24 \<noteq> 0), rq_startNs := u64_at 32 bs,
     rq_startNs_lock_ad := u64_at 40 bs, rq_startNs_lock_re := u64_at 48 bs,
     rq_sentNs := u64_at 56 bs, rq_sentNs_lock_ad := u64_at 64 bs,
     rq_sentNs_lock_re := u64_at 72 bs\<rparr>"

definition load_response_header :: "byte list \<Rightarrow> Response \<Rightarrow> Response" where
  "load_response_header bs r = r\<lparr>rs_type := rtype_of_code (le_word (take 4 bs)),
     rs_id := u64_at 8 bs, rs_svcNs := u64_at 16 bs, rs_len := u64_at 24 bs,
     rs_recvNs := u64_at 32 bs\<rparr>"

text \<open>Storing \<open>bs\<close> at the start of a data array that held \<open>old\<close>.\<close>

definition store_data :: "byte list \<Rightarrow> byte list \<Rightarrow> byte list" where
  "store_data bs old = bs @ drop (length bs) old"

section \<open>Layout and round trip\<close>

lemma header_sizes:
  "sizeof_Request - MAX_REQ_BYTES = 80" "sizeof_Response - MAX_RESP_BYTES = 40"
  by (simp_all add: sizeof_Request_def sizeof_Response_def)

declare header_sizes [simp]

lemma length_request_header [simp]: "length (request_header r) = 80"
  by (simp add: request_header_def)

lemma length_response_header [simp]: "length (response_header r) = 40"
  by (simp add: response_header_def)

lemma length_request_bytes [simp]: "length (request_bytes r n) = n"
  by (simp add: request_bytes_def min_def)

lemma length_response_bytes [simp]: "length (response_bytes r n) = n"
  by (simp add: response_bytes_def min_def)

lemma request_bytes_split:
  "request_bytes r (80 + n) = request_header r @ buf_take n (rq_data r)"
  by (simp add: request_bytes_def)

lemma response_bytes_split:
  "response_bytes r (40 + n) = response_header r @ buf_take n (rs_data r)"
  by (simp add: response_bytes_def)

lemma rtype_code_inverse:
  assumes "\<And>w. t = UnnamedType w \<Longrightarrow> 2 < w"
  shows "rtype_of_code (rtype_code t) = t"
  using assms by (cases t) (auto simp: rtype_of_code_def)

lemma rtype_code_named [simp]:
  "rtype_of_code 0 = RESPONSE" "rtype_of_code 1 = ROI_BEGIN" "rtype_of_code 2 = FINISH"
  by (simp_all add: rtype_of_code_def)

lemma bool_byte_nonzero [simp]: "bool_byte b \<noteq> 0 \<longleftrightarrow> b"
  by (simp add: bool_byte_def)

lemma load_request_header_inverse:
  "load_request_header (request_header r) r0 = r\<lparr>rq_data := rq_data r0\<rparr>"
  by (cases r; cases r0)
     (simp add: load_request_header_def request_header_def u64_at_def nth_append)

lemma load_response_header_inverse:
  assumes "\<And>w. rs_type r = UnnamedType w \<Longrightarrow> 2 < w"
  shows "load_response_header (response_header r) r0 = r\<lparr>rs_data := rs_data r0\<rparr>"
  using rtype_code_inverse [of "rs_type r"] assms
  by (cases r; cases r0) (simp add: load_response_header_def response_header_def u64_at_def)

lemma load_request_header_data [simp]: "rq_data (load_request_header bs r) = rq_data r"
  by (simp add: load_request_header_def)

lemma load_response_header_data [simp]: "rs_data (load_response_header bs r) = rs_data r"
  by (simp add: load_response_header_def)

lemma store_data_take [simp]: "take (length bs) (store_data bs old) = bs"
  by (simp add: store_data_def)

end
