(* ===== verification/Cpp_Double.thy ===== *)
theory Cpp_Double
  imports Complex_Main Prelude "HOL-Library.Log_Nat"
begin

text \<open>
  The C++ type \<open>double\<close> on x86-64: IEEE 754 binary64 with rounding to nearest, ties to even. A
  finite value is the rational number it denotes; an operation computes the exact result and rounds
  it to 53 significant bits (fewer below \<open>2 ^ -1022\<close>), and a result at or beyond \<open>2 ^ 1024\<close> is an
  infinity. The sign of zero is not kept: a division by zero takes the sign of its dividend.
\<close>

section \<open>Rounding\<close>

definition round_even :: "rat \<Rightarrow> int" where
  "round_even y =
     (let f = \<lfloor>y\<rfloor>; d = y - of_int f
      in if d < 1 / 2 then f else if 1 / 2 < d then f + 1 else if even f then f else f + 1)"

text \<open>The binary exponent of a positive rational, from the bit lengths of its fraction.\<close>

definition ilog2 :: "rat \<Rightarrow> int" where
  "ilog2 x =
     (let (p, q) = quotient_of x;
          k = bitlen p - bitlen q
      in if (if 0 \<le> k then q * 2 ^ nat k \<le> p else q \<le> p * 2 ^ nat (- k)) then k else k - 1)"

definition pow2 :: "int \<Rightarrow> rat" where
  "pow2 e = (if 0 \<le> e then 2 ^ nat e else 1 / 2 ^ nat (- e))"

definition ulp_exp :: "rat \<Rightarrow> int" where
  "ulp_exp x = max (ilog2 \<bar>x\<bar> - 52) (- 1074)"

definition rnd :: "rat \<Rightarrow> rat" where
  "rnd x = (if x = 0 then 0 else of_int (round_even (x / pow2 (ulp_exp x))) * pow2 (ulp_exp x))"

section \<open>Values and operations\<close>

datatype double = Fin rat | PInf | NInf | NaN

definition to_double :: "rat \<Rightarrow> double" where
  "to_double x = (let r = rnd x in if 2 ^ 1024 \<le> r then PInf else if r \<le> - (2 ^ 1024) then NInf
     else Fin r)"

fun neg_double :: "double \<Rightarrow> double" where
  "neg_double (Fin x) = Fin (- x)"
| "neg_double PInf = NInf"
| "neg_double NInf = PInf"
| "neg_double NaN = NaN"

fun add_double :: "double \<Rightarrow> double \<Rightarrow> double" where
  "add_double (Fin x) (Fin y) = to_double (x + y)"
| "add_double NaN _ = NaN"
| "add_double _ NaN = NaN"
| "add_double PInf NInf = NaN"
| "add_double NInf PInf = NaN"
| "add_double PInf _ = PInf"
| "add_double NInf _ = NInf"
| "add_double (Fin _) PInf = PInf"
| "add_double (Fin _) NInf = NInf"

definition inf_signed :: "bool \<Rightarrow> double" where
  "inf_signed neg = (if neg then NInf else PInf)"

fun neg_sign :: "double \<Rightarrow> bool" where
  "neg_sign (Fin x) = (x < 0)"
| "neg_sign NInf = True"
| "neg_sign _ = False"

fun mult_double :: "double \<Rightarrow> double \<Rightarrow> double" where
  "mult_double (Fin x) (Fin y) = to_double (x * y)"
| "mult_double NaN _ = NaN"
| "mult_double _ NaN = NaN"
| "mult_double a b =
     (if a = Fin 0 \<or> b = Fin 0 then NaN else inf_signed (neg_sign a \<noteq> neg_sign b))"

fun div_double :: "double \<Rightarrow> double \<Rightarrow> double" where
  "div_double (Fin x) (Fin y) =
     (if y = 0 then (if x = 0 then NaN else inf_signed (x < 0)) else to_double (x / y))"
| "div_double NaN _ = NaN"
| "div_double _ NaN = NaN"
| "div_double (Fin x) _ = Fin 0"
| "div_double a (Fin y) = inf_signed (neg_sign a \<noteq> (y < 0))"
| "div_double _ _ = NaN"

fun less_double :: "double \<Rightarrow> double \<Rightarrow> bool" where
  "less_double (Fin x) (Fin y) = (x < y)"
| "less_double NaN _ = False"
| "less_double _ NaN = False"
| "less_double NInf b = (b \<noteq> NInf)"
| "less_double a NInf = False"
| "less_double PInf b = False"
| "less_double (Fin _) PInf = True"

definition double_of_int :: "int \<Rightarrow> double" where
  "double_of_int n = to_double (of_int n)"

definition double_of_u64 :: "u64 \<Rightarrow> double" where
  "double_of_u64 w = double_of_int (uint w)"

definition trunc_rat :: "rat \<Rightarrow> int" where
  "trunc_rat x = (if 0 \<le> x then \<lfloor>x\<rfloor> else \<lceil>x\<rceil>)"

text \<open>
  Conversion to an integer type truncates; a truncated value outside the type's range is undefined
  behaviour, and so is the conversion of an infinity or a NaN.
\<close>

fun u64_of_double :: "double \<Rightarrow> u64 res" where
  "u64_of_double (Fin x) =
     (if 0 \<le> trunc_rat x \<and> trunc_rat x < 2 ^ 64 then Inr (word_of_int (trunc_rat x))
      else Inl (Undefined ''double to uint64_t''))"
| "u64_of_double _ = Inl (Undefined ''double to uint64_t'')"

fun i32_of_double :: "double \<Rightarrow> int res" where
  "i32_of_double (Fin x) =
     (if - (2 ^ 31) \<le> trunc_rat x \<and> trunc_rat x < 2 ^ 31 then Inr (trunc_rat x)
      else Inl (Undefined ''double to int''))"
| "i32_of_double _ = Inl (Undefined ''double to int'')"

definition is_double :: "rat \<Rightarrow> bool" where
  "is_double x \<longleftrightarrow> rnd x = x"

section \<open>Powers of two\<close>

lemma pow2_pos [simp]: "0 < pow2 e"
  by (simp add: pow2_def)

lemma pow2_nonzero [simp]: "pow2 e \<noteq> 0"
  using pow2_pos [of e] by linarith

lemma pow2_powi: "pow2 e = 2 powi e"
  by (simp add: pow2_def power_int_def inverse_eq_divide power_one_over)

lemma pow2_0 [simp]: "pow2 0 = 1"
  by (simp add: pow2_def)

lemma pow2_add: "pow2 (a + b) = pow2 a * pow2 b"
  by (simp add: pow2_powi power_int_add)

lemma pow2_diff: "pow2 (a - b) = pow2 a / pow2 b"
  by (simp add: pow2_powi power_int_diff)

lemma pow2_mono: "a \<le> b \<Longrightarrow> pow2 a \<le> pow2 b"
  by (simp add: pow2_powi power_int_increasing)

lemma pow2_less_iff: "pow2 a < pow2 b \<longleftrightarrow> a < b"
proof
  show "a < b" if "pow2 a < pow2 b"
    using pow2_mono [of b a] that by linarith
  show "pow2 a < pow2 b" if "a < b"
    using that by (simp add: pow2_powi power_int_strict_increasing)
qed

lemma pow2_nonneg [simp]: "0 \<le> pow2 e"
  by (simp add: pow2_def)

lemma pow2_scale: "e \<le> k \<Longrightarrow> 2 ^ nat (k - e) * pow2 e = pow2 k"
  using pow2_add [of "k - e" e] by (simp add: pow2_def [of "k - e"])

lemma pow2_nat: "0 \<le> e \<Longrightarrow> pow2 e = of_int (2 ^ nat e)"
  by (simp add: pow2_def)

section \<open>Rounding to an integer\<close>

lemma round_even_near: "\<bar>of_int (round_even y) - y\<bar> \<le> 1 / 2"
proof -
  have "of_int \<lfloor>y\<rfloor> \<le> y \<and> y < of_int \<lfloor>y\<rfloor> + 1"
    using floor_correct [of y] by simp
  then show ?thesis
    by (simp add: round_even_def Let_def)
qed

lemma round_even_of_int [simp]: "round_even (of_int n) = n"
  by (simp add: round_even_def)

lemma round_even_cases: "round_even y = \<lfloor>y\<rfloor> \<or> round_even y = \<lfloor>y\<rfloor> + 1"
  by (simp add: round_even_def Let_def)

lemma round_even_mono:
  assumes "x \<le> y" shows "round_even x \<le> round_even y"
proof (cases "\<lfloor>x\<rfloor> = \<lfloor>y\<rfloor>")
  case True
  with assms show ?thesis by (auto simp: round_even_def Let_def)
next
  case False
  with assms have "\<lfloor>x\<rfloor> + 1 \<le> \<lfloor>y\<rfloor>" using floor_mono [of x y] by linarith
  then show ?thesis using round_even_cases [of x] round_even_cases [of y] by linarith
qed

lemma round_even_le_int: "x \<le> of_int n \<Longrightarrow> round_even x \<le> n"
  using round_even_mono [of x "of_int n"] by simp

lemma round_even_ge_int: "of_int n \<le> x \<Longrightarrow> n \<le> round_even x"
  using round_even_mono [of "of_int n" x] by simp

section \<open>The binary exponent\<close>

lemma bitlen_pow2:
  assumes "0 < n"
  shows "pow2 (bitlen n - 1) \<le> of_int n"
    and "of_int n < pow2 (bitlen n)"
proof -
  define m where "m = floorlog 2 (nat n)"
  have m: "2 ^ (m - 1) \<le> nat n" "nat n < 2 ^ m" "0 < m"
    using floorlog_bounds [of "nat n" 2] assms by (auto simp: m_def floorlog_def)
  then have "(2::int) ^ (m - 1) \<le> n" and "n < 2 ^ m"
    using assms by (simp_all add: le_nat_iff nat_less_iff)
  then have "of_int (2 ^ (m - 1)) \<le> (of_int n :: rat)" and "(of_int n :: rat) < of_int (2 ^ m)"
    by (simp_all only: of_int_le_iff of_int_less_iff)
  then show "pow2 (bitlen n - 1) \<le> of_int n"
    and "of_int n < pow2 (bitlen n)"
    using m(3) by (simp_all add: pow2_def bitlen_def m_def [symmetric] nat_diff_distrib)
qed

lemma ilog2_test:
  assumes "0 < q"
  shows "(if 0 \<le> k then q * 2 ^ nat k \<le> p else q \<le> p * 2 ^ nat (- k)) \<longleftrightarrow>
    pow2 k \<le> of_int p / of_int q"
proof (cases "0 \<le> k")
  case True
  have "q * 2 ^ nat k \<le> p \<longleftrightarrow> (of_int (q * 2 ^ nat k) :: rat) \<le> of_int p"
    by (simp only: of_int_le_iff)
  with True assms show ?thesis by (simp add: pow2_def pos_le_divide_eq mult.commute)
next
  case False
  have "q \<le> p * 2 ^ nat (- k) \<longleftrightarrow> (of_int q :: rat) \<le> of_int (p * 2 ^ nat (- k))"
    by (simp only: of_int_le_iff)
  with False assms show ?thesis by (simp add: pow2_def field_simps)
qed

lemma ilog2_bounds:
  assumes "0 < x"
  shows "pow2 (ilog2 x) \<le> x \<and> x < pow2 (ilog2 x + 1)"
proof -
  obtain p q where pq: "quotient_of x = (p, q)" by (cases "quotient_of x")
  have q: "0 < q" and x: "x = of_int p / of_int q"
    using quotient_of_denom_pos [OF pq] quotient_of_div [OF pq] by auto
  with assms have p: "0 < p" by (simp add: zero_less_divide_iff)
  define a where "a = bitlen p"
  define b where "b = bitlen q"
  note pb = bitlen_pow2 [OF p, folded a_def] and qb = bitlen_pow2 [OF q, folded b_def]
  have qpos: "(0::rat) < of_int q" using q by simp
  have "x < pow2 a / pow2 (b - 1)"
    unfolding x by (rule frac_less) (use pb qb p q in auto)
  then have up: "x < pow2 (a - b + 1)"
    by (simp add: pow2_diff [symmetric] algebra_simps)
  have "pow2 (a - 1) / pow2 b < x"
    unfolding x by (rule frac_less2) (use pb qb p q in auto)
  then have lo: "pow2 (a - b - 1) < x"
    by (simp add: pow2_diff [symmetric] algebra_simps)
  have "ilog2 x = (if pow2 (a - b) \<le> x then a - b else a - b - 1)"
    unfolding ilog2_def pq prod.case Let_def a_def [symmetric] b_def [symmetric]
      ilog2_test [OF q, of "a - b" p] x [symmetric] ..
  with up lo show ?thesis by auto
qed

lemma ilog2_unique:
  assumes "pow2 k \<le> x" and "x < pow2 (k + 1)"
  shows "ilog2 x = k"
proof -
  have "0 < x" using assms(1) pow2_pos [of k] by linarith
  from ilog2_bounds [OF this] assms have "pow2 k < pow2 (ilog2 x + 1)" "pow2 (ilog2 x) < pow2 (k + 1)"
    by linarith+
  then show ?thesis by (simp add: pow2_less_iff)
qed

lemma ilog2_mono:
  assumes "0 < x" "x \<le> y" shows "ilog2 x \<le> ilog2 y"
proof -
  have "pow2 (ilog2 x) < pow2 (ilog2 y + 1)"
    using ilog2_bounds [of x] ilog2_bounds [of y] assms by linarith
  then show ?thesis by (simp add: pow2_less_iff)
qed

section \<open>Rounding to 53 bits\<close>

lemma rnd_0 [simp]: "rnd 0 = 0"
  by (simp add: rnd_def)

lemma rnd_eq: "0 < x \<Longrightarrow> rnd x = of_int (round_even (x / pow2 (ulp_exp x))) * pow2 (ulp_exp x)"
  by (simp add: rnd_def)

lemma ulp_exp_mono: "0 < x \<Longrightarrow> x \<le> y \<Longrightarrow> ulp_exp x \<le> ulp_exp y"
  using ilog2_mono [of x y] by (auto simp: ulp_exp_def)

lemma rnd_nonneg: "0 \<le> x \<Longrightarrow> 0 \<le> rnd x"
proof (cases "x = 0")
  case False
  assume "0 \<le> x"
  then have "of_int 0 \<le> x / pow2 (ulp_exp x)" by (simp add: zero_le_divide_iff)
  then have "0 \<le> round_even (x / pow2 (ulp_exp x))" by (rule round_even_ge_int)
  with False show ?thesis by (simp add: rnd_def)
qed simp

text \<open>A positive value below \<open>2 ^ k\<close> rounds to at most \<open>2 ^ k\<close>, one above to at least \<open>2 ^ k\<close>.\<close>

lemma rnd_le_pow2:
  assumes "0 < x" "x \<le> pow2 k" "ulp_exp x \<le> k"
  shows "rnd x \<le> pow2 k"
proof -
  define e where "e = ulp_exp x"
  have "x / pow2 e \<le> of_int (2 ^ nat (k - e))"
    using assms by (simp add: e_def pos_divide_le_eq pow2_scale)
  then have "round_even (x / pow2 e) \<le> 2 ^ nat (k - e)" by (rule round_even_le_int)
  then have "of_int (round_even (x / pow2 e)) \<le> (of_int (2 ^ nat (k - e)) :: rat)"
    by (simp only: of_int_le_iff)
  then have "of_int (round_even (x / pow2 e)) \<le> pow2 (k - e)"
    using assms(3) by (simp add: pow2_nat e_def)
  then have "of_int (round_even (x / pow2 e)) * pow2 e \<le> pow2 (k - e) * pow2 e"
    by (simp add: mult_right_mono)
  then show ?thesis using assms(1) by (simp add: rnd_eq e_def pow2_add [symmetric])
qed

lemma rnd_ge_pow2:
  assumes "pow2 k \<le> x" "ulp_exp x \<le> k"
  shows "pow2 k \<le> rnd x"
proof -
  have x: "0 < x" using assms(1) pow2_pos [of k] by linarith
  define e where "e = ulp_exp x"
  have "of_int (2 ^ nat (k - e)) \<le> x / pow2 e"
    using assms by (simp add: e_def pos_le_divide_eq pow2_scale)
  then have "2 ^ nat (k - e) \<le> round_even (x / pow2 e)" by (rule round_even_ge_int)
  then have "of_int (2 ^ nat (k - e)) \<le> (of_int (round_even (x / pow2 e)) :: rat)"
    by (simp only: of_int_le_iff)
  then have "pow2 (k - e) \<le> of_int (round_even (x / pow2 e))"
    using assms(2) by (simp add: pow2_nat e_def)
  then have "pow2 (k - e) * pow2 e \<le> of_int (round_even (x / pow2 e)) * pow2 e"
    by (simp add: mult_right_mono)
  then show ?thesis using x by (simp add: rnd_eq e_def pow2_add [symmetric])
qed

lemma rnd_mono_pos:
  assumes "0 < x" "x \<le> y"
  shows "rnd x \<le> rnd y"
proof (cases "ulp_exp x = ulp_exp y")
  case True
  have "x / pow2 (ulp_exp y) \<le> y / pow2 (ulp_exp y)"
    using assms(2) by (intro divide_right_mono) simp_all
  then have "round_even (x / pow2 (ulp_exp y)) \<le> round_even (y / pow2 (ulp_exp y))"
    by (rule round_even_mono)
  with True assms show ?thesis by (simp add: rnd_eq mult_right_mono)
next
  case False
  with ulp_exp_mono [OF assms] have lt: "ulp_exp x < ulp_exp y" by simp
  then have ey: "ulp_exp y = ilog2 y - 52" and xy: "ilog2 x < ilog2 y"
    using assms by (auto simp: ulp_exp_def)
  have "rnd x \<le> pow2 (ilog2 y)"
  proof (rule rnd_le_pow2)
    show "0 < x" by (rule assms(1))
    show "ulp_exp x \<le> ilog2 y" using lt ey by linarith
    show "x \<le> pow2 (ilog2 y)"
      using ilog2_bounds [OF assms(1)] pow2_mono [of "ilog2 x + 1" "ilog2 y"] xy by linarith
  qed
  also have "pow2 (ilog2 y) \<le> rnd y"
    by (rule rnd_ge_pow2) (use ilog2_bounds [of y] assms ey in auto)
  finally show ?thesis .
qed

lemma rnd_mono: "0 \<le> x \<Longrightarrow> x \<le> y \<Longrightarrow> rnd x \<le> rnd y"
  by (cases "x = 0") (simp_all add: rnd_nonneg rnd_mono_pos)

text \<open>A multiple of its own unit in the last place is a double.\<close>

lemma rnd_fixed:
  assumes "x = of_int m * pow2 (ulp_exp x)"
  shows "rnd x = x"
proof (cases "x = 0")
  case False
  from assms have "x / pow2 (ulp_exp x) = of_int m" by (simp add: field_simps)
  with assms False show ?thesis by (simp add: rnd_def)
qed simp

lemma of_int_mult_pow2_div:
  assumes "e' \<le> e"
  shows "of_int m * pow2 e = of_int (m * 2 ^ nat (e - e')) * pow2 e'"
  using pow2_scale [OF assms] by (simp add: mult.assoc)

lemma ulp_exp_pow2_le: "0 < x \<Longrightarrow> x \<le> pow2 k \<Longrightarrow> - 1022 \<le> k \<Longrightarrow> ulp_exp x \<le> k - 52"
proof -
  assume a: "0 < x" "x \<le> pow2 k" "- 1022 \<le> k"
  have "pow2 (ilog2 x) < pow2 (k + 1)"
    using ilog2_bounds [OF a(1)] a(2) pow2_less_iff [of k "k + 1"] by linarith
  then show ?thesis using a by (simp add: pow2_less_iff ulp_exp_def)
qed

lemma rnd_integral:
  assumes "0 \<le> n"
  shows "\<exists>m. rnd (of_int n) = of_int m"
proof (cases "n = 0 \<or> ulp_exp (of_int n) < 0")
  case True
  then show ?thesis
  proof
    assume neg: "ulp_exp (of_int n) < 0"
    have "(of_int n :: rat) = of_int (n * 2 ^ nat (0 - ulp_exp (of_int n))) * pow2 (ulp_exp (of_int n))"
      using of_int_mult_pow2_div [of "ulp_exp (of_int n)" 0 n] neg by simp
    then have "rnd (of_int n) = of_int n" by (rule rnd_fixed)
    then show ?thesis by blast
  qed (auto intro: exI [of _ 0])
next
  case False
  then have "rnd (of_int n) = of_int (round_even (of_int n / pow2 (ulp_exp (of_int n))) *
      2 ^ nat (ulp_exp (of_int n)))"
    by (simp add: rnd_def pow2_def)
  then show ?thesis by blast
qed

lemma rnd_pow2: "- 1074 \<le> k \<Longrightarrow> rnd (pow2 k) = pow2 k"
proof -
  assume k: "- 1074 \<le> k"
  have "ilog2 (pow2 k) = k" by (rule ilog2_unique) (simp_all add: pow2_less_iff)
  then have "ulp_exp (pow2 k) \<le> k" using k by (simp add: ulp_exp_def)
  from of_int_mult_pow2_div [OF this, of 1] show ?thesis
    by (intro rnd_fixed [of _ "2 ^ nat (k - ulp_exp (pow2 k))"]) simp
qed

lemma rnd_idem_pos:
  assumes "0 < x"
  shows "rnd (rnd x) = rnd x"
proof -
  define K where "K = max (ilog2 x + 1) (- 1074)"
  have "x \<le> pow2 K"
    using ilog2_bounds [OF assms] pow2_mono [of "ilog2 x + 1" K] by (simp add: K_def)
  then have le: "rnd x \<le> pow2 K"
    by (rule rnd_le_pow2 [OF assms]) (use assms in \<open>auto simp: K_def ulp_exp_def\<close>)
  consider "rnd x = 0" | "rnd x = pow2 K" | "0 < rnd x" "rnd x < pow2 K"
    using le rnd_nonneg [of x] assms by fastforce
  then show ?thesis
  proof cases
    case 3
    have "ilog2 (rnd x) < K"
      using ilog2_bounds [OF 3(1)] 3(2) pow2_less_iff [of "ilog2 (rnd x)" K] by linarith
    then have "ulp_exp (rnd x) \<le> ulp_exp x"
      using 3(1) assms by (auto simp: ulp_exp_def K_def)
    from of_int_mult_pow2_div [OF this] rnd_eq [OF assms] show ?thesis
      by (metis rnd_fixed)
  qed (simp_all add: rnd_pow2 K_def)
qed

lemma rnd_idem: "0 \<le> x \<Longrightarrow> rnd (rnd x) = rnd x"
  by (cases "x = 0") (simp_all add: rnd_idem_pos)

lemma rnd_small_int:
  assumes "0 \<le> n" "n \<le> 2 ^ 53"
  shows "rnd (of_int n) = of_int n"
proof (cases "n = 0")
  case False
  with assms have pos: "(0::rat) < of_int n" by simp
  consider "n = 2 ^ 53" | "n < 2 ^ 53" using assms by linarith
  then show ?thesis
  proof cases
    case 1
    then show ?thesis using rnd_pow2 [of 53] by (simp add: pow2_def)
  next
    case 2
    then have "(of_int n :: rat) < of_int (2 ^ 53)" by (simp only: of_int_less_iff)
    then have "of_int n < pow2 53" by (simp add: pow2_def)
    then have "ilog2 (of_int n) < 53"
      using ilog2_bounds [OF pos] pow2_less_iff [of "ilog2 (of_int n)" 53] by linarith
    then have "ulp_exp (of_int n) \<le> 0" using pos by (simp add: ulp_exp_def)
    from of_int_mult_pow2_div [OF this, of n] show ?thesis
      by (intro rnd_fixed [of _ "n * 2 ^ nat (0 - ulp_exp (of_int n))"]) simp
  qed
qed simp

text \<open>An integer at or above \<open>2 ^ k\<close> rounds to a multiple of \<open>2 ^ (k - 52)\<close>.\<close>

lemma rnd_coarse:
  assumes x: "0 < x" and ge: "pow2 (int k) \<le> rnd x" and k: "52 \<le> k"
  shows "\<exists>m. rnd x = of_int (m * 2 ^ (k - 52))"
proof (cases "pow2 (int k) \<le> x")
  case True
  then have "pow2 (int k) < pow2 (ilog2 x + 1)" using ilog2_bounds [OF x] by linarith
  then have u: "int k - 52 \<le> ulp_exp x" using x by (simp add: pow2_less_iff ulp_exp_def)
  have "rnd x = of_int (round_even (x / pow2 (ulp_exp x))) * pow2 (ulp_exp x)" by (rule rnd_eq [OF x])
  also have "\<dots> = of_int (round_even (x / pow2 (ulp_exp x)) * 2 ^ nat (ulp_exp x - (int k - 52))) *
      pow2 (int k - 52)"
    by (rule of_int_mult_pow2_div [OF u])
  also have "pow2 (int k - 52) = of_int (2 ^ (k - 52))"
    using k by (simp add: pow2_def nat_diff_distrib)
  finally show ?thesis
    by (intro exI [of _ "round_even (x / pow2 (ulp_exp x)) * 2 ^ nat (ulp_exp x - (int k - 52))"])
       (simp only: of_int_mult)
next
  case False
  then have "rnd x \<le> pow2 (int k)"
    by (intro rnd_le_pow2 [OF x]) (use ulp_exp_pow2_le [OF x, of "int k"] in auto)
  with ge have "rnd x = 2 ^ k" by (simp add: pow2_def)
  moreover have "(2::rat) ^ k = 2 ^ 52 * 2 ^ (k - 52)"
    using k by (metis le_add_diff_inverse power_add)
  ultimately have "rnd x = of_int (2 ^ 52 * 2 ^ (k - 52))" by simp
  then show ?thesis by blast
qed

section \<open>Conversions\<close>

lemma rnd_below_2_64:
  assumes "0 \<le> x" "x \<le> 2 ^ 64"
  shows "rnd x \<le> 2 ^ 64"
  using rnd_mono [OF assms] rnd_pow2 [of 64] by (simp add: pow2_def)

lemma to_double_small:
  assumes "0 \<le> x" "x \<le> 2 ^ 65"
  shows "to_double x = Fin (rnd x)"
proof -
  have "rnd x \<le> 2 ^ 65"
    using rnd_mono [OF assms] rnd_pow2 [of 65] by (simp add: pow2_def)
  moreover have "(2::rat) ^ 65 < 2 ^ 1024" by (rule power_strict_increasing) simp_all
  moreover have "0 \<le> rnd x" using assms(1) by (rule rnd_nonneg)
  moreover have "- ((2::rat) ^ 1024) < 0" by simp
  ultimately show ?thesis unfolding to_double_def Let_def by (smt (verit) le_less_trans not_less)
qed

lemma double_of_u64_Fin: "double_of_u64 w = Fin (rnd (of_int (uint w)))"
proof -
  have "uint w < 2 ^ 64" using uint_bounded [of w] by simp
  then have "(of_int (uint w) :: rat) \<le> of_int (2 ^ 64)" by (simp only: of_int_le_iff less_imp_le)
  moreover have "(0::rat) \<le> of_int (uint w)" by (simp only: of_int_0_le_iff uint_ge_0)
  ultimately show ?thesis
    unfolding double_of_u64_def double_of_int_def by (intro to_double_small) simp_all
qed

text \<open>Integers of up to 53 bits are represented exactly.\<close>

lemma to_double_int:
  assumes "0 \<le> n" "n \<le> 2 ^ 53"
  shows "to_double (of_int n) = Fin (of_int n)"
proof -
  have "(of_int n :: rat) \<le> of_int (2 ^ 53)" using assms(2) by (simp only: of_int_le_iff)
  then have "to_double (of_int n) = Fin (rnd (of_int n))"
    using assms(1) by (intro to_double_small) (simp_all)
  then show ?thesis using rnd_small_int [OF assms] by simp
qed

lemma to_double_numeral: "(numeral k :: int) \<le> 2 ^ 53 \<Longrightarrow> to_double (numeral k) = Fin (numeral k)"
  using to_double_int [of "numeral k"] by simp

end
