(* ===== verification/Harness_Opt.thy ===== *)
theory Harness_Opt
  imports Cpp_Double
begin

text \<open>
  Configuration from the environment: the template \<open>getOpt<T>\<close> of \<^verbatim>\<open>src/harness/helpers.h\<close>. The
  environment is a partial map from names to strings. The extraction \<open>ss >> res\<close> of the C++ library
  is modelled for the four types the harness uses (\<open>int\<close>, \<open>uint64_t\<close>, \<open>double\<close>, \<open>std::string\<close>) in
  the default "C" locale: leading white space is skipped, the longest acceptable prefix is taken, and
  \<open>None\<close> is a stream in the failed state.
\<close>

section \<open>Stream extraction\<close>

type_synonym env = "string \<Rightarrow> string option"

definition is_space :: "char \<Rightarrow> bool" where
  "is_space c \<longleftrightarrow> of_char c \<in> {9, 10, 11, 12, 13, 32 :: nat}"

definition is_digit :: "char \<Rightarrow> bool" where
  "is_digit c \<longleftrightarrow> 48 \<le> (of_char c :: nat) \<and> of_char c \<le> (57 :: nat)"

definition digit_val :: "char \<Rightarrow> int" where
  "digit_val c = int (of_char c) - 48"

definition skip_ws :: "string \<Rightarrow> string" where
  "skip_ws s = dropWhile is_space s"

fun digits_val :: "int \<Rightarrow> string \<Rightarrow> int" where
  "digits_val acc [] = acc"
| "digits_val acc (c # cs) = digits_val (10 * acc + digit_val c) cs"

text \<open>An optional sign: whether it is a minus, and what follows.\<close>

fun take_sign :: "string \<Rightarrow> bool \<times> string" where
  "take_sign [] = (False, [])"
| "take_sign (c # cs) =
     (if c = CHR ''-'' then (True, cs) else if c = CHR ''+'' then (False, cs) else (False, c # cs))"

definition extract_magnitude :: "string \<Rightarrow> (bool \<times> int) option" where
  "extract_magnitude s =
     (let (neg, t) = take_sign (skip_ws s); ds = takeWhile is_digit t
      in if ds = [] then None else Some (neg, digits_val 0 ds))"

text \<open>A signed value outside the type's range sets the failed state.\<close>

definition extract_int :: "string \<Rightarrow> int option" where
  "extract_int s =
     (case extract_magnitude s of
        None \<Rightarrow> None
      | Some (neg, m) \<Rightarrow>
          (let v = (if neg then - m else m)
           in if - (2 ^ 31) \<le> v \<and> v < 2 ^ 31 then Some v else None))"

text \<open>An unsigned value accepts a minus sign and is then negated modulo \<open>2 ^ 64\<close>.\<close>

definition extract_u64 :: "string \<Rightarrow> u64 option" where
  "extract_u64 s =
     (case extract_magnitude s of
        None \<Rightarrow> None
      | Some (neg, m) \<Rightarrow>
          (if m < 2 ^ 64 then Some (word_of_int (if neg then - m else m)) else None))"

text \<open>
  A floating-point value: digits with at most one point, at least one digit, and an optional
  exponent, which must have a digit if its letter is there. A value that rounds to an infinity sets
  the failed state.
\<close>

definition extract_double :: "string \<Rightarrow> double option" where
  "extract_double s =
     (let (neg, t) = take_sign (skip_ws s);
          ip = takeWhile is_digit t; t1 = dropWhile is_digit t;
          (fp, t2) = (case t1 of
             c # r \<Rightarrow> if c = CHR ''.'' then (takeWhile is_digit r, dropWhile is_digit r) else ([], t1)
           | [] \<Rightarrow> ([], []));
          (ex, eneg, ed) = (case t2 of
             c # r \<Rightarrow> if c = CHR ''e'' \<or> c = CHR ''E''
                      then (let (en, r') = take_sign r in (True, en, takeWhile is_digit r'))
                      else (False, False, [])
           | [] \<Rightarrow> (False, False, []))
      in if ip = [] \<and> fp = [] then None
         else if ex \<and> ed = [] then None
         else
           (let m = of_int (digits_val 0 (ip @ fp)) / 10 ^ length fp;
                k = nat (digits_val 0 ed);
                v = (if eneg then m / 10 ^ k else m * 10 ^ k);
                d = to_double (if neg then - v else v)
            in if d = PInf \<or> d = NInf then None else Some d))"

definition extract_string :: "string \<Rightarrow> string option" where
  "extract_string s =
     (let w = takeWhile (\<lambda>c. \<not> is_space c) (skip_ws s) in if w = [] then None else Some w)"

section \<open>getOpt\<close>

definition getOpt :: "(string \<Rightarrow> 'a option) \<Rightarrow> env \<Rightarrow> string \<Rightarrow> 'a \<Rightarrow> 'a" where
  "getOpt extract e name defVal =
     (case e name of
        None \<Rightarrow> defVal
      | Some opt \<Rightarrow>
          (if length opt = 0 then defVal
           else case extract opt of None \<Rightarrow> defVal | Some res \<Rightarrow> res))"

text \<open>
  The first statement of \<open>getOpt\<close> writes \<open>opt\<close> to \<open>std::cout\<close> before the null test. Inserting a null
  \<open>char*\<close> sets the stream's \<open>badbit\<close>, and a stream with that bit set writes nothing more. The
  argument and result say whether \<open>std::cout\<close> is usable.
\<close>

definition getOpt_cout :: "env \<Rightarrow> string \<Rightarrow> bool \<Rightarrow> bool" where
  "getOpt_cout e name good = (good \<and> e name \<noteq> None)"

fun getOpts_cout :: "env \<Rightarrow> string list \<Rightarrow> bool \<Rightarrow> bool" where
  "getOpts_cout e [] good = good"
| "getOpts_cout e (n # ns) good = getOpts_cout e ns (getOpt_cout e n good)"

abbreviation getOpt_int :: "env \<Rightarrow> string \<Rightarrow> int \<Rightarrow> int" where
  "getOpt_int \<equiv> getOpt extract_int"

abbreviation getOpt_u64 :: "env \<Rightarrow> string \<Rightarrow> u64 \<Rightarrow> u64" where
  "getOpt_u64 \<equiv> getOpt extract_u64"

abbreviation getOpt_double :: "env \<Rightarrow> string \<Rightarrow> double \<Rightarrow> double" where
  "getOpt_double \<equiv> getOpt extract_double"

abbreviation getOpt_string :: "env \<Rightarrow> string \<Rightarrow> string \<Rightarrow> string" where
  "getOpt_string \<equiv> getOpt extract_string"

text \<open>
  The decimal form of a number, as \<open>std::to_string\<close> and \<open>operator<<\<close> print it; used for the port
  string, for the file name of the statistics and to state the round trip.
\<close>

fun dec_digits :: "nat \<Rightarrow> string" where
  "dec_digits n = (if n < 10 then [char_of (48 + n)] else dec_digits (n div 10) @ [char_of (48 + n mod 10)])"

declare dec_digits.simps [simp del]

definition dec_int :: "int \<Rightarrow> string" where
  "dec_int n = (if n < 0 then CHR ''-'' # dec_digits (nat (- n)) else dec_digits (nat n))"

section \<open>Lemmas\<close>

lemma getOpt_unset: "e n = None \<Longrightarrow> getOpt x e n d = d"
  by (simp add: getOpt_def)

lemma getOpt_parsed: "e n = Some s \<Longrightarrow> s \<noteq> [] \<Longrightarrow> x s = Some v \<Longrightarrow> getOpt x e n d = v"
  by (simp add: getOpt_def)

lemma getOpts_cout_iff:
  "getOpts_cout e ns good \<longleftrightarrow> good \<and> (\<forall>n \<in> set ns. e n \<noteq> None)"
  by (induction ns arbitrary: good) (auto simp: getOpt_cout_def)

lemma digits_val_append: "digits_val a (s @ t) = digits_val (digits_val a s) t"
  by (induction s arbitrary: a) auto

lemma of_char_digit: "d < 10 \<Longrightarrow> (of_char (char_of (48 + d :: nat)) :: nat) = 48 + d"
  by simp

lemma is_digit_char_of [simp]: "d < 10 \<Longrightarrow> is_digit (char_of (48 + d :: nat))"
  unfolding is_digit_def of_char_digit by simp

lemma digit_val_char_of [simp]: "d < 10 \<Longrightarrow> digit_val (char_of (48 + d :: nat)) = int d"
  unfolding digit_val_def of_char_digit by simp

lemma dec_digits_nonempty [simp]: "dec_digits n \<noteq> []"
  by (subst dec_digits.simps) simp

lemma dec_digits_digits: "\<forall>c \<in> set (dec_digits n). is_digit c"
proof (induction n rule: dec_digits.induct)
  case (1 n)
  then show ?case by (subst dec_digits.simps) (auto)
qed

lemma digits_val_dec_digits: "digits_val 0 (dec_digits n) = int n"
proof (induction n rule: dec_digits.induct)
  case (1 n)
  show ?case
  proof (cases "n < 10")
    case True
    then show ?thesis by (subst dec_digits.simps) simp
  next
    case False
    then have "digits_val 0 (dec_digits (n div 10)) = int (n div 10)" by (rule 1)
    moreover have "int n = 10 * int (n div 10) + int (n mod 10)" by presburger
    ultimately show ?thesis using False
      by (subst dec_digits.simps) (simp add: digits_val_append)
  qed
qed

lemma digit_not_space: "is_digit c \<Longrightarrow> \<not> is_space c"
  by (auto simp: is_digit_def is_space_def)

lemma digit_not_sign: "is_digit c \<Longrightarrow> c \<noteq> CHR ''-'' \<and> c \<noteq> CHR ''+''"
  by (auto simp: is_digit_def)

lemma extract_magnitude_dec_digits: "extract_magnitude (dec_digits n) = Some (False, int n)"
proof -
  obtain c cs where c: "dec_digits n = c # cs" by (cases "dec_digits n") auto
  then have d: "is_digit c" using dec_digits_digits [of n] by simp
  have ws: "skip_ws (dec_digits n) = dec_digits n"
    using d by (simp add: skip_ws_def c digit_not_space)
  have sg: "take_sign (dec_digits n) = (False, dec_digits n)"
    using digit_not_sign [OF d] by (simp add: c)
  have all: "takeWhile is_digit (dec_digits n) = dec_digits n"
    using dec_digits_digits [of n] by (simp add: takeWhile_eq_all_conv)
  show ?thesis
    by (simp add: extract_magnitude_def ws sg all digits_val_dec_digits)
qed

lemma extract_u64_dec: "extract_u64 (dec_digits (unat w)) = Some w"
proof -
  have "int (unat w) < 2 ^ 64" using unsigned_less [of w, where 'a = int] by simp
  then show ?thesis
    by (simp add: extract_u64_def extract_magnitude_dec_digits)
qed

lemma take_sign_minus: "take_sign (CHR ''-'' # s) = (True, s)"
  by simp

lemma extract_magnitude_minus: "extract_magnitude (CHR ''-'' # dec_digits n) = Some (True, int n)"
proof -
  have ws: "skip_ws (CHR ''-'' # dec_digits n) = CHR ''-'' # dec_digits n"
    by (simp add: skip_ws_def is_space_def)
  have all: "takeWhile is_digit (dec_digits n) = dec_digits n"
    using dec_digits_digits [of n] by (simp add: takeWhile_eq_all_conv)
  show ?thesis
    by (simp add: extract_magnitude_def ws all digits_val_dec_digits)
qed

lemma extract_int_dec:
  assumes "- (2 ^ 31) \<le> n" "n < 2 ^ 31"
  shows "extract_int (dec_int n) = Some n"
  using assms
  by (simp add: extract_int_def dec_int_def extract_magnitude_minus extract_magnitude_dec_digits)

end
