(* ===== verification/Harness_Helpers.thy ===== *)
theory Harness_Helpers
  imports Prelude
begin

text \<open>
  Clock, sleep and socket helpers of \<^verbatim>\<open>src/harness/helpers.h\<close>. The operating system is scripted: a
  connection carries the list of what its next \<open>recv\<close> (or \<open>send\<close>) calls will find, and \<open>None\<close> is a
  call that never returns because the script has run out (the peer sends nothing more and does not
  close). Every result therefore holds for every way TCP may cut the byte stream into segments.
\<close>

section \<open>Time\<close>

record timespec =
  tv_sec :: int
  tv_nsec :: int

definition getCurNs :: "timespec \<Rightarrow> u64" where
  "getCurNs ts = word_of_int (tv_sec ts * 1000 * 1000 * 1000 + tv_nsec ts)"

text \<open>
  \<open>sleepUntil\<close> over the successive clock readings: the list of \<open>nanosleep\<close> requests it makes before
  the first reading that is not before the target; \<open>None\<close> if no reading reaches it.
\<close>

fun sleepUntil :: "u64 \<Rightarrow> u64 list \<Rightarrow> timespec list option" where
  "sleepUntil targetNs [] = None"
| "sleepUntil targetNs (curNs # readings) =
     (if curNs < targetNs
      then (let diffNs = targetNs - curNs;
                ts = \<lparr>tv_sec = uint (diffNs div (1000 * 1000 * 1000)),
                      tv_nsec = uint (diffNs mod (1000 * 1000 * 1000))\<rparr>
            in map_option (Cons ts) (sleepUntil targetNs readings))
      else Some [])"

section \<open>Sockets\<close>

datatype rx = RxData "byte list" | RxEof | RxErr
datatype tx = TxOk nat | TxErr

text \<open>
  POSIX \<open>recv\<close> on a stream socket: at most \<open>n\<close> bytes of the next segment, 0 at end of file (and from
  then on), -1 on an error.
\<close>

fun os_recv :: "nat \<Rightarrow> rx list \<Rightarrow> (int \<times> byte list \<times> rx list) option" where
  "os_recv n [] = None"
| "os_recv n (RxData c # s) =
     (if n < length c then Some (int n, take n c, RxData (drop n c) # s)
      else Some (int (length c), c, s))"
| "os_recv n (RxEof # s) = Some (0, [], RxEof # s)"
| "os_recv n (RxErr # s) = Some (- 1, [], s)"

text \<open>\<open>send\<close>: the number of bytes taken, at most \<open>n\<close>, or -1.\<close>

fun os_send :: "nat \<Rightarrow> tx list \<Rightarrow> (int \<times> tx list) option" where
  "os_send n [] = None"
| "os_send n (TxOk k # s) = Some (int (min k n), s)"
| "os_send n (TxErr # s) = Some (- 1, s)"

text \<open>The loop of \<open>sendfull\<close>: what is still to send, the rest of the message, the bytes sent so far.\<close>

fun sendfull_loop :: "int \<Rightarrow> byte list \<Rightarrow> byte list \<Rightarrow> tx list \<Rightarrow> (int \<times> byte list \<times> tx list) option" where
  "sendfull_loop remaining cur acc [] =
     (if 0 < remaining then None else Some (remaining, acc, []))"
| "sendfull_loop remaining cur acc (t # s) =
     (if 0 < remaining
      then (case os_send (nat remaining) (t # s) of
              None \<Rightarrow> None
            | Some (sent, s') \<Rightarrow>
                (if sent = - 1 then Some (remaining, acc, s)
                 else sendfull_loop (remaining - sent) (drop (nat sent) cur)
                        (acc @ take (nat sent) cur) s))
      else Some (remaining, acc, t # s))"

definition sendfull :: "byte list \<Rightarrow> int \<Rightarrow> tx list \<Rightarrow> (int \<times> byte list \<times> tx list) option" where
  "sendfull msg len s =
     (case sendfull_loop len msg [] s of
        None \<Rightarrow> None
      | Some (remaining, out, s') \<Rightarrow> Some (len - remaining, out, s'))"

lemma os_recv_range:
  "os_recv n s = Some (k, bs, s') \<Longrightarrow> k = - 1 \<or> (0 \<le> k \<and> k \<le> int n \<and> int (length bs) = k)"
  by (cases s rule: list.exhaust; simp split: if_splits rx.splits; cases "hd s"; auto split: if_splits)

function recvfull_loop :: "int \<Rightarrow> byte list \<Rightarrow> rx list \<Rightarrow> (int \<times> byte list \<times> rx list) option" where
  "recvfull_loop remaining acc s =
     (if 0 < remaining
      then (case os_recv (nat remaining) s of
              None \<Rightarrow> None
            | Some (recvd, bs, s') \<Rightarrow>
                (if recvd = - 1 \<or> recvd = 0 then Some (remaining, acc, s')
                 else recvfull_loop (remaining - recvd) (acc @ bs) s'))
      else Some (remaining, acc, s))"
  by pat_completeness auto

termination
  by (relation "measure (\<lambda>(remaining, acc, s). nat remaining)") (auto dest: os_recv_range)

declare recvfull_loop.simps [simp del]

definition recvfull :: "int \<Rightarrow> rx list \<Rightarrow> (int \<times> byte list \<times> rx list) option" where
  "recvfull len s =
     (case recvfull_loop len [] s of
        None \<Rightarrow> None
      | Some (remaining, got, s') \<Rightarrow> Some (len - remaining, got, s'))"

text \<open>The bytes a script delivers before its first end of file or error.\<close>

fun rx_bytes :: "rx list \<Rightarrow> byte list" where
  "rx_bytes (RxData c # s) = (if c = [] then [] else c @ rx_bytes s)"
| "rx_bytes _ = []"

text \<open>How many bytes a script of \<open>send\<close> results takes before its first error.\<close>

fun tx_room :: "tx list \<Rightarrow> nat" where
  "tx_room (TxOk k # s) = k + tx_room s"
| "tx_room _ = 0"

section \<open>Lemmas\<close>

lemma getCurNs_uint:
  assumes "0 \<le> tv_sec ts" "0 \<le> tv_nsec ts" "tv_sec ts * 10 ^ 9 + tv_nsec ts < 2 ^ 64"
  shows "uint (getCurNs ts) = tv_sec ts * 10 ^ 9 + tv_nsec ts"
proof -
  have "take_bit 64 (tv_sec ts * 10 ^ 9 + tv_nsec ts) = tv_sec ts * 10 ^ 9 + tv_nsec ts"
    using assms by (intro take_bit_int_eq_self) auto
  then show ?thesis unfolding getCurNs_def uint_word_of_int_eq by (simp add: mult.commute)
qed

lemma sleepUntil_request:
  assumes "cur < (target :: u64)"
  shows "uint ((target - cur) div (1000 * 1000 * 1000)) * 10 ^ 9
       + uint ((target - cur) mod (1000 * 1000 * 1000)) = uint target - uint cur"
    and "uint ((target - cur) mod (1000 * 1000 * 1000)) < 10 ^ 9"
proof -
  have "uint (target - cur) = uint target - uint cur"
    using assms uint_sub_lem [of cur target] by (simp add: word_less_def)
  then show "uint ((target - cur) div (1000 * 1000 * 1000)) * 10 ^ 9
       + uint ((target - cur) mod (1000 * 1000 * 1000)) = uint target - uint cur"
    by (simp add: uint_div uint_mod)
  show "uint ((target - cur) mod (1000 * 1000 * 1000)) < 10 ^ 9"
    by (simp add: uint_mod)
qed

lemma sleepUntil_reaches:
  "sleepUntil target rs = Some ws \<Longrightarrow> length ws < length rs \<and> target \<le> rs ! length ws \<and>
     (\<forall>i < length ws. rs ! i < target)"
proof (induction rs arbitrary: ws)
  case (Cons r rs)
  show ?case
  proof (cases "r < target")
    case True
    with Cons.prems obtain w ws' where "ws = w # ws'" "sleepUntil target rs = Some ws'"
      by (auto simp: Let_def)
    with Cons.IH [of ws'] True show ?thesis
      by (auto simp: nth_Cons split: nat.splits)
  qed (use Cons.prems in auto)
qed simp

lemma sleepUntil_returns: "\<exists>r \<in> set rs. target \<le> r \<Longrightarrow> \<exists>ws. sleepUntil target rs = Some ws"
  by (induction rs) (auto simp: Let_def)

lemma recvfull_loop_take:
  "recvfull_loop rem acc s = Some (rem', got, s') \<Longrightarrow>
     got = acc @ take (nat rem) (rx_bytes s) \<and> rem' \<le> rem \<and>
     rem - rem' = int (length (take (nat rem) (rx_bytes s)))"
proof (induction rem acc s rule: recvfull_loop.induct)
  case (1 rem acc s)
  show ?case
  proof (cases "0 < rem")
    case False
    with "1.prems" show ?thesis by (simp add: recvfull_loop.simps)
  next
    case True
    then obtain k bs t where o: "os_recv (nat rem) s = Some (k, bs, t)"
      using "1.prems" by (subst (asm) recvfull_loop.simps) (auto split: option.splits)
    show ?thesis
    proof (cases "k = - 1 \<or> k = 0")
      case True
      with "1.prems" o \<open>0 < rem\<close> show ?thesis
        by (cases s rule: rx_bytes.cases)
           (auto simp: recvfull_loop.simps [of rem] split: if_splits)
    next
      case False
      with "1.prems" o \<open>0 < rem\<close> have "recvfull_loop (rem - k) (acc @ bs) t = Some (rem', got, s')"
        by (simp add: recvfull_loop.simps [of rem])
      from "1.IH" [OF \<open>0 < rem\<close> o refl refl False this] o False \<open>0 < rem\<close> show ?thesis
        by (cases s rule: rx_bytes.cases)
           (auto simp: take_Cons' nat_diff_distrib split: if_splits)
    qed
  qed
qed

text \<open>What \<open>recvfull\<close> returns: as many of the asked bytes as the stream holds, in order.\<close>

lemma recvfull_result:
  "recvfull len s = Some (k, got, s') \<Longrightarrow>
     got = take (nat len) (rx_bytes s) \<and> k = int (length got)"
  unfolding recvfull_def by (auto split: option.splits dest!: recvfull_loop_take)

lemma recvfull_loop_complete:
  "int (length (rx_bytes s)) \<ge> rem \<Longrightarrow>
     \<exists>s'. recvfull_loop rem acc s = Some (min rem 0, acc @ take (nat rem) (rx_bytes s), s') \<and>
          rx_bytes s' = drop (nat rem) (rx_bytes s)"
proof (induction s arbitrary: rem acc)
  case Nil
  then show ?case by (simp add: recvfull_loop.simps min_def)
next
  case (Cons e s)
  show ?case
  proof (cases "0 < rem")
    case False
    then show ?thesis by (simp add: recvfull_loop.simps min_def)
  next
    case True
    with Cons.prems obtain c where e: "e = RxData c" and c: "c \<noteq> []"
      by (cases e) (auto split: if_splits)
    show ?thesis
    proof (cases "nat rem < length c")
      case True
      with e c \<open>0 < rem\<close> show ?thesis
        by (simp add: recvfull_loop.simps [of rem] recvfull_loop.simps [of 0])
    next
      case False
      with e c \<open>0 < rem\<close> have step: "recvfull_loop rem acc (e # s) =
          recvfull_loop (rem - int (length c)) (acc @ c) s"
        by (simp add: recvfull_loop.simps [of rem])
      have "rem - int (length c) \<le> int (length (rx_bytes s))"
        using Cons.prems e c by simp
      from Cons.IH [OF this, of "acc @ c"] step e c False \<open>0 < rem\<close> show ?thesis
        by (auto simp: nat_diff_distrib min_def)
    qed
  qed
qed

lemma recvfull_complete:
  assumes "n \<le> length (rx_bytes s)"
  obtains s' where "recvfull (int n) s = Some (int n, take n (rx_bytes s), s')"
    and "rx_bytes s' = drop n (rx_bytes s)"
proof -
  from recvfull_loop_complete [of "int n" s "[]"] assms obtain s' where
    "recvfull_loop (int n) [] s = Some (0, take n (rx_bytes s), s')"
    "rx_bytes s' = drop n (rx_bytes s)" by auto
  then show thesis by (intro that) (simp_all add: recvfull_def)
qed

lemma sendfull_loop_prefix:
  "sendfull_loop rem cur acc s = Some (rem', out, s') \<Longrightarrow> rem \<le> int (length cur) \<Longrightarrow>
     rem' \<le> rem \<and> (0 \<le> rem \<longrightarrow> 0 \<le> rem') \<and> out = acc @ take (nat (rem - rem')) cur"
proof (induction s arbitrary: rem cur acc)
  case (Cons t s)
  show ?case
  proof (cases "0 < rem")
    case True
    show ?thesis
    proof (cases t)
      case (TxOk k)
      define j where "j = min k (nat rem)"
      have j: "int j \<le> rem" using True by (simp add: j_def)
      have "sendfull_loop (rem - int j) (drop j cur) (acc @ take j cur) s = Some (rem', out, s')"
        using Cons.prems(1) True TxOk by (simp add: j_def)
      from Cons.IH [OF this] Cons.prems(2) j
      have ih: "rem' \<le> rem - int j" "0 \<le> rem'"
        "out = (acc @ take j cur) @ take (nat (rem - int j - rem')) (drop j cur)" by auto
      have "nat (rem - rem') = j + nat (rem - int j - rem')" using ih j by linarith
      with ih show ?thesis by (simp add: take_add)
    next
      case TxErr
      with True Cons.prems show ?thesis by simp
    qed
  qed (use Cons.prems in auto)
qed (auto split: if_splits)

lemma sendfull_result:
  assumes "sendfull msg len s = Some (k, out, s')" "0 \<le> len" "len \<le> int (length msg)"
  shows "0 \<le> k \<and> k \<le> len \<and> out = take (nat k) msg"
  using assms unfolding sendfull_def
  by (auto split: option.splits dest!: sendfull_loop_prefix)

lemma sendfull_loop_complete:
  "rem \<le> int (tx_room s) \<Longrightarrow> rem \<le> int (length cur) \<Longrightarrow> 0 \<le> rem \<Longrightarrow>
     \<exists>s'. sendfull_loop rem cur acc s = Some (0, acc @ take (nat rem) cur, s')"
proof (induction s arbitrary: rem cur acc)
  case (Cons t s)
  show ?case
  proof (cases "0 < rem")
    case True
    with Cons.prems obtain k where t: "t = TxOk k" by (cases t) auto
    define j where "j = min k (nat rem)"
    have j: "int j \<le> rem" and nj: "nat rem = j + nat (rem - int j)" using True by (auto simp: j_def)
    have "rem - int j \<le> int (tx_room s)" using Cons.prems(1) t by (simp add: j_def)
    with Cons.IH [of "rem - int j" "drop j cur" "acc @ take j cur"] Cons.prems j
    obtain s' where "sendfull_loop (rem - int j) (drop j cur) (acc @ take j cur) s =
        Some (0, (acc @ take j cur) @ take (nat (rem - int j)) (drop j cur), s')" by auto
    moreover have "acc @ take (nat rem) cur = (acc @ take j cur) @ take (nat (rem - int j)) (drop j cur)"
      unfolding nj by (simp add: take_add)
    ultimately show ?thesis using True t by (simp add: j_def)
  qed (use Cons.prems in auto)
qed simp

lemma sendfull_complete:
  assumes "len \<le> int (tx_room s)" "len \<le> int (length msg)" "0 \<le> len"
  obtains s' where "sendfull msg len s = Some (len, take (nat len) msg, s')"
  using sendfull_loop_complete [of len s msg "[]"] assms
  by (auto simp: sendfull_def intro: that)

end
