(* ===== verification/Harness_Dist.thy ===== *)
theory Harness_Dist
  imports Cpp_Double
begin

text \<open>
  The arrival process, \<^verbatim>\<open>src/harness/dist.h\<close>. The random engine and the exponential distribution
  are the C++ library's and differ between implementations: they are the parameter \<open>smp\<close>, the
  \<open>k\<close>-th draw of an engine seeded with \<open>seed\<close> from the distribution of rate \<open>lambda\<close>. What the
  code relies on is that a draw is a finite non-negative number (\<open>sampler_ok\<close>).
\<close>

section \<open>Definitions\<close>

type_synonym sampler = "u64 \<Rightarrow> double \<Rightarrow> nat \<Rightarrow> double"

record ExpDist =
  ed_lambda :: double
  ed_seed :: u64
  ed_draws :: nat
  ed_curNs :: u64

definition new_ExpDist :: "double \<Rightarrow> u64 \<Rightarrow> u64 \<Rightarrow> ExpDist" where
  "new_ExpDist lambda seed startNs =
     \<lparr>ed_lambda = lambda, ed_seed = seed, ed_draws = 0, ed_curNs = startNs\<rparr>"

text \<open>
  \<open>curNs += d(g)\<close>: the sum is computed in \<open>double\<close> and converted back to \<open>uint64_t\<close>.
\<close>

definition nextArrivalNs :: "sampler \<Rightarrow> ExpDist \<Rightarrow> (u64 \<times> ExpDist) res" where
  "nextArrivalNs smp d =
     bind_res (u64_of_double (add_double (double_of_u64 (ed_curNs d))
                                         (smp (ed_seed d) (ed_lambda d) (ed_draws d))))
       (\<lambda>c. Inr (c, d\<lparr>ed_curNs := c, ed_draws := Suc (ed_draws d)\<rparr>))"

fun arrivals :: "sampler \<Rightarrow> nat \<Rightarrow> ExpDist \<Rightarrow> (u64 list \<times> ExpDist) res" where
  "arrivals smp 0 d = Inr ([], d)"
| "arrivals smp (Suc n) d =
     bind_res (nextArrivalNs smp d) (\<lambda>(t, d').
       bind_res (arrivals smp n d') (\<lambda>(ts, d''). Inr (t # ts, d'')))"

definition sampler_ok :: "sampler \<Rightarrow> bool" where
  "sampler_ok smp \<longleftrightarrow> (\<forall>s l k. \<exists>x. smp s l k = Fin x \<and> 0 \<le> x)"

text \<open>The time an \<open>ExpDist\<close> stands at is exactly a \<open>double\<close>.\<close>

definition settled :: "ExpDist \<Rightarrow> bool" where
  "settled d \<longleftrightarrow> is_double (of_int (uint (ed_curNs d)))"

section \<open>The contract of an arrival process\<close>

locale arrival_process =
  fixes nxt :: "'d \<Rightarrow> (u64 \<times> 'd) res"
    and now :: "'d \<Rightarrow> u64"
    and source_ok :: "'d \<Rightarrow> bool"
    and steady :: "'d \<Rightarrow> bool"
  assumes nxt_now: "nxt d = Inr (t, d') \<Longrightarrow> now d' = t"
    and nxt_source: "source_ok d \<Longrightarrow> nxt d = Inr (t, d') \<Longrightarrow> source_ok d'"
    and nxt_steady: "source_ok d \<Longrightarrow> nxt d = Inr (t, d') \<Longrightarrow> steady d'"
    and nxt_mono: "source_ok d \<Longrightarrow> steady d \<Longrightarrow> nxt d = Inr (t, d') \<Longrightarrow> now d \<le> t"
begin

inductive runs :: "'d \<Rightarrow> u64 list \<Rightarrow> 'd \<Rightarrow> bool" where
  runs_Nil: "runs d [] d"
| runs_Cons: "nxt d = Inr (t, d1) \<Longrightarrow> runs d1 ts d2 \<Longrightarrow> runs d (t # ts) d2"

lemma runs_sorted_steady:
  "runs d ts d' \<Longrightarrow> source_ok d \<Longrightarrow> steady d \<Longrightarrow> sorted ts \<and> (\<forall>t \<in> set ts. now d \<le> t)"
proof (induction rule: runs.induct)
  case (runs_Cons d t d1 ts d2)
  have t: "now d \<le> t" "now d1 = t" using runs_Cons by (auto intro: nxt_mono nxt_now)
  have "sorted ts \<and> (\<forall>u \<in> set ts. now d1 \<le> u)"
    using runs_Cons nxt_source nxt_steady by blast
  with t show ?case by auto
qed simp

lemma runs_sorted:
  assumes "runs d ts d'" and "source_ok d"
  shows "sorted ts"
  using assms(1)
proof (cases rule: runs.cases)
  case (runs_Cons t d1 us)
  have "source_ok d1" "steady d1" "now d1 = t"
    using runs_Cons assms(2) by (auto intro: nxt_source nxt_steady nxt_now)
  with runs_sorted_steady [OF runs_Cons(3)] runs_Cons(1) show ?thesis by simp
qed simp

lemma runs_length_source: "runs d ts d' \<Longrightarrow> source_ok d \<Longrightarrow> source_ok d'"
  by (induction rule: runs.induct) (auto intro: nxt_source)

end

section \<open>One arrival\<close>

declare of_int_uint [simp del]

lemma sampler_okE:
  assumes "sampler_ok smp" obtains x where "smp s l k = Fin x" "0 \<le> x"
  using assms unfolding sampler_ok_def by blast

text \<open>The sum in \<open>double\<close> that an arrival is truncated from.\<close>

definition arrival_sum :: "u64 \<Rightarrow> rat \<Rightarrow> rat" where
  "arrival_sum c x = rnd (rnd (of_int (uint c)) + x)"

lemma uint_rat_nonneg: "(0::rat) \<le> of_int (uint (c :: u64))"
  by (simp only: of_int_0_le_iff uint_ge_0)

lemma arrival_sum_nonneg: "0 \<le> x \<Longrightarrow> 0 \<le> arrival_sum c x"
  unfolding arrival_sum_def by (intro rnd_nonneg add_nonneg_nonneg rnd_nonneg uint_rat_nonneg)

lemma floor_is_double:
  assumes "0 \<le> x"
  shows "is_double (of_int \<lfloor>rnd x\<rfloor>)"
proof (cases "rnd x < 2 ^ 53")
  case True
  then have "\<lfloor>rnd x\<rfloor> \<le> 2 ^ 53" by (simp add: floor_le_iff)
  moreover have "0 \<le> \<lfloor>rnd x\<rfloor>" using rnd_nonneg [OF assms] by simp
  ultimately show ?thesis unfolding is_double_def by (intro rnd_small_int)
next
  case False
  then have x: "0 < x" using assms by (cases "x = 0") auto
  from False have "pow2 (int 53) \<le> rnd x" by (simp add: pow2_def)
  then obtain m where m: "rnd x = of_int (m * 2 ^ (53 - 52))" using rnd_coarse [OF x, of 53] by auto
  then have e: "of_int \<lfloor>rnd x\<rfloor> = rnd x" by (metis floor_of_int)
  show ?thesis unfolding is_double_def e by (rule rnd_idem [OF assms])
qed

lemma nextArrivalNs_cases:
  assumes "smp (ed_seed d) (ed_lambda d) (ed_draws d) = Fin x" "0 \<le> x"
    and "nextArrivalNs smp d = Inr (t, d')"
  shows "uint t = \<lfloor>arrival_sum (ed_curNs d) x\<rfloor>"
    and "d' = d\<lparr>ed_curNs := t, ed_draws := Suc (ed_draws d)\<rparr>"
proof -
  have nn: "0 \<le> arrival_sum (ed_curNs d) x" by (rule arrival_sum_nonneg [OF assms(2)])
  show "d' = d\<lparr>ed_curNs := t, ed_draws := Suc (ed_draws d)\<rparr>"
    using assms(3) by (auto simp: nextArrivalNs_def)
  have "u64_of_double (to_double (rnd (of_int (uint (ed_curNs d))) + x)) = Inr t"
    using assms unfolding nextArrivalNs_def double_of_u64_Fin by auto
  then have "to_double (rnd (of_int (uint (ed_curNs d))) + x) = Fin (arrival_sum (ed_curNs d) x)"
    and t: "t = word_of_int \<lfloor>arrival_sum (ed_curNs d) x\<rfloor>"
    and "\<lfloor>arrival_sum (ed_curNs d) x\<rfloor> < 2 ^ 64"
    using nn by (auto simp: to_double_def Let_def arrival_sum_def [symmetric] trunc_rat_def split: if_splits)
  with nn show "uint t = \<lfloor>arrival_sum (ed_curNs d) x\<rfloor>"
    by (simp add: uint_word_of_int_eq take_bit_int_eq_self)
qed

lemma nextArrivalNs_settles:
  assumes "sampler_ok smp" "nextArrivalNs smp d = Inr (t, d')"
  shows "settled d'"
proof -
  obtain x where x: "smp (ed_seed d) (ed_lambda d) (ed_draws d) = Fin x" "0 \<le> x"
    by (rule sampler_okE [OF assms(1)])
  note c = nextArrivalNs_cases [OF x assms(2)]
  have "is_double (of_int \<lfloor>arrival_sum (ed_curNs d) x\<rfloor>)"
    unfolding arrival_sum_def
    by (intro floor_is_double add_nonneg_nonneg rnd_nonneg uint_rat_nonneg x(2))
  then show ?thesis using c by (simp add: settled_def)
qed

lemma nextArrivalNs_mono:
  assumes "sampler_ok smp" "settled d" "nextArrivalNs smp d = Inr (t, d')"
  shows "ed_curNs d \<le> t"
proof -
  obtain x where x: "smp (ed_seed d) (ed_lambda d) (ed_draws d) = Fin x" "0 \<le> x"
    by (rule sampler_okE [OF assms(1)])
  define c :: rat where "c = of_int (uint (ed_curNs d))"
  have "rnd c = c" using assms(2) by (simp add: settled_def is_double_def c_def)
  moreover have "rnd c \<le> rnd (c + x)"
    by (rule rnd_mono) (use x uint_rat_nonneg in \<open>simp_all add: c_def\<close>)
  ultimately have "c \<le> arrival_sum (ed_curNs d) x"
    by (simp add: arrival_sum_def c_def)
  then have "uint (ed_curNs d) \<le> uint t"
    using nextArrivalNs_cases(1) [OF x assms(3)] by (simp add: c_def le_floor_iff)
  then show ?thesis by (simp add: word_le_def)
qed

interpretation expdist: arrival_process "nextArrivalNs smp" ed_curNs "\<lambda>d. sampler_ok smp" settled
  for smp
proof
  fix d t d'
  show "ed_curNs d' = t" if "nextArrivalNs smp d = Inr (t, d')"
    using that by (auto simp: nextArrivalNs_def)
  show "settled d'" if "sampler_ok smp" "nextArrivalNs smp d = Inr (t, d')"
    using that by (rule nextArrivalNs_settles)
  show "ed_curNs d \<le> t" if "sampler_ok smp" "settled d" "nextArrivalNs smp d = Inr (t, d')"
    using that by (rule nextArrivalNs_mono)
qed

lemma arrivals_runs: "arrivals smp n d = Inr (ts, d') \<Longrightarrow> expdist.runs smp d ts d' \<and> length ts = n"
proof (induction n arbitrary: d ts)
  case 0
  then show ?case by (auto intro: expdist.runs_Nil)
next
  case (Suc n)
  then obtain t d1 us where "nextArrivalNs smp d = Inr (t, d1)" "arrivals smp n d1 = Inr (us, d')"
    "ts = t # us" by auto
  with Suc.IH show ?case by (auto intro: expdist.runs_Cons)
qed

end
