(* ===== verification/Harness_Client.thy ===== *)
theory Harness_Client
  imports Harness_Msgs Harness_Opt Harness_Helpers Harness_Dist
begin

text \<open>
  The load generator's request bookkeeping: class \<open>Client\<close> of \<^verbatim>\<open>src/harness/client.h\<close> and
  \<^verbatim>\<open>src/harness/client.cpp\<close>. The object's state is the record \<open>Client\<close>; a request object is shared
  between the sender thread and \<open>inFlightReqs\<close>, so it lives in that map and the id stands for the
  pointer. Each call of \<open>getCurNs\<close> is an argument, in program order; the request an application
  generates is an argument too. Members that the constructor leaves uninitialised take the arbitrary
  values of the record \<open>Uninit\<close>. Output to stderr is not modelled.
\<close>

section \<open>State\<close>

datatype ClientStatus = INIT | WARMUP | ROI | FINISHED

record Client =
  status :: ClientStatus
  nthreads :: int
  client_id :: int
  warmupreqs :: u64
  maxreqs :: u64
  numReqsSent :: u64
  numReqsCompleted :: u64
  minSleepNs :: u64
  seed :: u64
  qpsVar :: int
  qpsIni :: double
  qpsInterval :: int
  qpsStep :: double
  qpsCounter :: int
  listQPS :: "double list"
  idxListQPS :: u64
  lambda :: double
  dist :: "ExpDist option"
  startedReqs :: u64
  inFlightReqs :: "u64 \<rightharpoonup> Request"
  svcTimes :: "u64 list"
  queueTimes :: "u64 list"
  sjrnTimes :: "u64 list"
  requestDate :: "u64 list"
  NicSjrnTimes :: "u64 list"
  gen_requests :: u64
  timely_gen_requests :: u64
  sent_requests :: u64
  gen_req_ns :: u64
  send_req_ns :: u64
  total_req_ns :: u64
  total_sleep_ns :: u64
  roi_start_ns :: u64
  qps_error :: int

record Uninit =
  u_qpsIni :: double
  u_qpsInterval :: int
  u_qpsStep :: double
  u_qpsCounter :: int
  u_idxListQPS :: u64
  u_roi_start_ns :: u64

section \<open>Constructor\<close>

definition nano :: double where
  "nano = to_double (1 / 10 ^ 9)"

definition qps_opt :: "env \<Rightarrow> string \<Rightarrow> double" where
  "qps_opt e name = mult_double (getOpt_double e name (Fin 1000)) nano"

definition add_i32 :: "int \<Rightarrow> int \<Rightarrow> int res" where
  "add_i32 a b = (if - (2 ^ 31) \<le> a + b \<and> a + b < 2 ^ 31 then Inr (a + b)
     else Inl (Undefined ''signed overflow''))"

definition new_Client :: "Uninit \<Rightarrow> env \<Rightarrow> int \<Rightarrow> int \<Rightarrow> u64 \<Rightarrow> u64 \<Rightarrow> Client res" where
  "new_Client u e nthr cid warmupreq maxreq =
     bind_res (add_i32 (getOpt_int e ''TBENCH_RANDSEED'' 0) cid) (\<lambda>sd.
       (let var = getOpt_int e ''TBENCH_VARQPS'' 0;
            ini = qps_opt e ''TBENCH_INIQPS'';
            c = \<lparr>status = INIT, nthreads = nthr, client_id = cid,
              warmupreqs = warmupreq, maxreqs = maxreq, numReqsSent = 0, numReqsCompleted = 0,
              minSleepNs = word_of_int (getOpt_int e ''TBENCH_MINSLEEPNS'' 0),
              seed = word_of_int sd,
              qpsVar = var, qpsIni = u_qpsIni u, qpsInterval = u_qpsInterval u,
              qpsStep = u_qpsStep u, qpsCounter = u_qpsCounter u,
              listQPS = [], idxListQPS = u_idxListQPS u,
              lambda = qps_opt e ''TBENCH_QPS'', dist = None,
              startedReqs = 0, inFlightReqs = Map.empty,
              svcTimes = [], queueTimes = [], sjrnTimes = [], requestDate = [], NicSjrnTimes = [],
              gen_requests = 0, timely_gen_requests = 0, sent_requests = 0,
              gen_req_ns = 0, send_req_ns = 0, total_req_ns = 0, total_sleep_ns = 0,
              roi_start_ns = u_roi_start_ns u, qps_error = 0\<rparr>
        in Inr (if var = 1
             then c\<lparr>qpsIni := ini, qpsInterval := getOpt_int e ''TBENCH_INTERVALQPS'' 0,
                    qpsStep := qps_opt e ''TBENCH_STEPQPS''\<rparr>
             else if var = 2
             then c\<lparr>qpsIni := ini, qpsInterval := getOpt_int e ''TBENCH_INTERVALQPS'' 0,
                    listQPS := [ini, qps_opt e ''TBENCH_QPS_1'', qps_opt e ''TBENCH_QPS_2'',
                                qps_opt e ''TBENCH_QPS_3'', qps_opt e ''TBENCH_QPS_4''],
                    idxListQPS := 1\<rparr>
             else c)))"

section \<open>startReq\<close>

text \<open>Under \<open>lock\<close>, after the start-up barrier: the first thread creates the arrival process.\<close>

definition startReq_init :: "u64 \<Rightarrow> Client \<Rightarrow> Client" where
  "startReq_init curNs c =
     (if dist c = None
      then c\<lparr>dist := Some (new_ExpDist (if qpsVar c = 0 then lambda c else qpsIni c) (seed c) curNs),
             status := WARMUP\<rparr>
      else c)"

text \<open>
  Under \<open>lock\<close>: the rate change at the end of an interval. \<open>qpsInterval*ratio\<close> is computed in
  \<open>double\<close> and truncated to \<open>int\<close>.
\<close>

definition scaled_interval :: "int \<Rightarrow> double \<Rightarrow> double \<Rightarrow> int res" where
  "scaled_interval interval newqps oldqps =
     bind_res (i32_of_double (mult_double (double_of_int interval) (div_double newqps oldqps)))
       (\<lambda>k. if less_double newqps oldqps then add_i32 k 1 else Inr k)"

definition change_qps :: "Client \<Rightarrow> Client res" where
  "change_qps c =
     (if qpsVar c = 1 then Inr (c\<lparr>qpsIni := add_double (qpsIni c) (qpsStep c)\<rparr>)
      else if qpsVar c = 2
      then (if listQPS c = [] then Inl (Undefined ''modulo by zero'')
            else (let newqps = listQPS c ! (unat (idxListQPS c) mod length (listQPS c))
                  in bind_res (scaled_interval (qpsInterval c) newqps (qpsIni c)) (\<lambda>k.
                       Inr (c\<lparr>qpsInterval := k, qpsIni := newqps, idxListQPS := idxListQPS c + 1\<rparr>))))
      else Inr c)"

definition startReq_qps :: "u64 \<Rightarrow> Client \<Rightarrow> Client res" where
  "startReq_qps curNs c =
     (if status c = ROI \<and> qpsVar c \<noteq> 0
      then (if qpsCounter c = qpsInterval c
            then bind_res (change_qps (c\<lparr>qpsCounter := 0\<rparr>)) (\<lambda>c'.
                   Inr (c'\<lparr>dist := Some (new_ExpDist (qpsIni c') (seed c') curNs)\<rparr>))
            else bind_res (add_i32 (qpsCounter c) 1) (\<lambda>k. Inr (c\<lparr>qpsCounter := k\<rparr>)))
      else Inr c)"

text \<open>
  Under \<open>lock\<close>: the application fills the data array (\<open>data\<close>, \<open>len\<close>), the request gets the next id
  and its arrival time and is entered in \<open>inFlightReqs\<close>.
\<close>

definition startReq_gen ::
    "sampler \<Rightarrow> u64 \<Rightarrow> u64 \<Rightarrow> u64 \<Rightarrow> byte list \<Rightarrow> u64 \<Rightarrow> Client \<Rightarrow> (u64 \<times> Client) res" where
  "startReq_gen smp startNs lock_ad lock_re data len c =
     (if int (length data) > MAX_REQ_BYTES then Inl (Undefined ''Request::data overrun'')
      else case dist c of
        None \<Rightarrow> Inl (Undefined ''null dist'')
      | Some d \<Rightarrow> bind_res (nextArrivalNs smp d) (\<lambda>(g, d').
          (let rid = startedReqs c;
               req = new_Request\<lparr>rq_startNs := startNs, rq_startNs_lock_ad := lock_ad,
                       rq_data := data, rq_len := len, rq_id := rid, rq_genNs := g,
                       rq_startNs_lock_re := lock_re\<rparr>
           in Inr (rid, c\<lparr>startedReqs := rid + 1, dist := Some d',
                inFlightReqs := (inFlightReqs c)(rid \<mapsto> req),
                gen_requests := gen_requests c + 1,
                timely_gen_requests := timely_gen_requests c + (if startNs < g then 1 else 0),
                gen_req_ns := gen_req_ns c + (lock_re - lock_ad)\<rparr>))))"

text \<open>
  After the lock is released: the \<open>late\<close> flag, then the sleep until the arrival time. \<open>wake\<close> are the
  clock readings of the sleep loop; \<open>None\<close> is a sleep that does not end.
\<close>

definition upd_req :: "u64 \<Rightarrow> (Request \<Rightarrow> Request) \<Rightarrow> Client \<Rightarrow> Client" where
  "upd_req rid f c = c\<lparr>inFlightReqs := (inFlightReqs c)(rid := map_option f (inFlightReqs c rid))\<rparr>"

definition startReq_late :: "u64 \<Rightarrow> Client \<Rightarrow> Client" where
  "startReq_late rid c = upd_req rid (\<lambda>r. r\<lparr>rq_late := (rq_genNs r < rq_startNs r)\<rparr>) c"

definition startReq_sleep :: "u64 \<Rightarrow> u64 \<Rightarrow> u64 list \<Rightarrow> Client \<Rightarrow> Client option" where
  "startReq_sleep rid curNs wake c =
     (case inFlightReqs c rid of
        None \<Rightarrow> Some c
      | Some r \<Rightarrow>
          (if curNs < rq_genNs r
           then map_option (\<lambda>_. c\<lparr>total_sleep_ns :=
                    total_sleep_ns c + max (rq_genNs r - curNs) (minSleepNs c)\<rparr>)
                  (sleepUntil (max (rq_genNs r) (curNs + minSleepNs c)) wake)
           else Some c))"

record sr_input =
  sr_startNs :: u64
  sr_initNs :: u64
  sr_qpsNs :: u64
  sr_lock_ad :: u64
  sr_data :: "byte list"
  sr_len :: u64
  sr_lock_re :: u64
  sr_curNs :: u64
  sr_wake :: "u64 list"

definition startReq :: "sampler \<Rightarrow> sr_input \<Rightarrow> Client \<Rightarrow> (u64 \<times> Client) res option" where
  "startReq smp i c =
     (let c1 = (if status c = INIT then startReq_init (sr_initNs i) c else c)
      in case bind_res (startReq_qps (sr_qpsNs i) c1)
                (startReq_gen smp (sr_startNs i) (sr_lock_ad i) (sr_lock_re i) (sr_data i) (sr_len i)) of
           Inl f \<Rightarrow> Some (Inl f)
         | Inr (rid, c2) \<Rightarrow>
             map_option (\<lambda>c3. Inr (rid, c3))
               (startReq_sleep rid (sr_curNs i) (sr_wake i) (startReq_late rid c2)))"

section \<open>finiReq\<close>

text \<open>Sojourn, queueing and NIC-to-NIC time of a completed request.\<close>

definition fini_sjrn :: "Request \<Rightarrow> u64 \<Rightarrow> u64" where
  "fini_sjrn req curNs = (if \<not> rq_late req then curNs - rq_genNs req else curNs - rq_startNs req)"

definition fini_qtime :: "Response \<Rightarrow> u64 \<Rightarrow> u64" where
  "fini_qtime resp sjrn = (if rs_svcNs resp > sjrn then 0 else sjrn - rs_svcNs resp)"

definition fini_record :: "Request \<Rightarrow> Response \<Rightarrow> u64 \<Rightarrow> Client \<Rightarrow> Client" where
  "fini_record req resp curNs c =
     (if status c = ROI
      then c\<lparr>requestDate := requestDate c @ [if \<not> rq_late req then rq_genNs req else rq_startNs req],
             queueTimes := queueTimes c @ [fini_qtime resp (fini_sjrn req curNs)],
             svcTimes := svcTimes c @ [rs_svcNs resp],
             sjrnTimes := sjrnTimes c @ [fini_sjrn req curNs],
             NicSjrnTimes := NicSjrnTimes c @ [curNs - rq_sentNs_lock_ad req]\<rparr>
      else c)"

definition startRoi_unlocked :: "u64 \<Rightarrow> Client \<Rightarrow> Client res" where
  "startRoi_unlocked curNs c =
     (if status c \<noteq> WARMUP then Inl (Abort ''status == WARMUP'')
      else Inr (c\<lparr>status := ROI, qpsCounter := 0, requestDate := [], queueTimes := [],
             svcTimes := [], sjrnTimes := [], NicSjrnTimes := [], gen_requests := 0,
             timely_gen_requests := 0, sent_requests := 0, gen_req_ns := 0, send_req_ns := 0,
             total_req_ns := 0, total_sleep_ns := 0, roi_start_ns := curNs\<rparr>))"

text \<open>\<open>startRoi\<close> is \<open>_startRoi\<close> between lock and unlock.\<close>

definition startRoi :: "u64 \<Rightarrow> Client \<Rightarrow> Client res" where
  "startRoi curNs c = startRoi_unlocked curNs c"

record Stats =
  st_file :: string
  st_bytes :: "byte list"
  st_perc_timely :: double
  st_broken :: bool
  st_requested_qps :: double
  st_effective_qps :: double

fun dump_rows :: "u64 list \<Rightarrow> u64 list \<Rightarrow> u64 list \<Rightarrow> u64 list \<Rightarrow> u64 list \<Rightarrow> nat \<Rightarrow> nat \<Rightarrow> byte list res" where
  "dump_rows q s j d n r 0 = Inr []"
| "dump_rows q s j d n r (Suc k) =
     (if r < length q \<and> r < length s \<and> r < length j \<and> r < length d \<and> r < length n
      then bind_res (dump_rows q s j d n (Suc r) k) (\<lambda>rest.
             Inr (le_bytes 8 (q ! r) @ le_bytes 8 (s ! r) @ le_bytes 8 (j ! r) @ le_bytes 8 (d ! r) @
                  le_bytes 8 (n ! r) @ rest))
      else Inl (Undefined ''vector index''))"

definition dumpStats :: "u64 \<Rightarrow> Client \<Rightarrow> (Client \<times> Stats) res" where
  "dumpStats fiNs c =
     (let reqs = to_i32 (int (length (sjrnTimes c)))
      in bind_res (dump_rows (queueTimes c) (svcTimes c) (sjrnTimes c) (requestDate c)
                     (NicSjrnTimes c) 0 (nat reqs)) (\<lambda>bytes.
           (let c' = c\<lparr>gen_requests := numReqsCompleted c - warmupreqs c\<rparr>;
                perc = div_double (double_of_u64 (timely_gen_requests c'))
                                  (double_of_u64 (gen_requests c'))
            in Inr (c', \<lparr>st_file = ''lats_'' @ dec_int (client_id c) @ ''.bin'',
                   st_bytes = bytes, st_perc_timely = perc,
                   st_broken = less_double perc (to_double (975 / 1000)),
                   st_requested_qps = mult_double (lambda c) (Fin (10 ^ 9)),
                   st_effective_qps = div_double (double_of_u64 (sent_requests c))
                     (div_double (double_of_u64 (fiNs - roi_start_ns c)) (Fin (10 ^ 9)))\<rparr>))))"

text \<open>
  \<open>finiReq\<close> either returns or, when the last request is complete, dumps the statistics and ends the
  process.
\<close>

datatype fini = FiniReturn Client | FiniExit Client Stats

definition finiReq_end :: "u64 \<Rightarrow> u64 \<Rightarrow> Client \<Rightarrow> fini res" where
  "finiReq_end roiNs fiNs c =
     (let c1 = c\<lparr>numReqsCompleted := numReqsCompleted c + 1\<rparr>
      in if numReqsCompleted c1 = warmupreqs c1 \<or> warmupreqs c1 = 0
         then bind_res (startRoi_unlocked roiNs c1) (\<lambda>c2. Inr (FiniReturn c2))
         else if warmupreqs c1 + maxreqs c1 \<le> numReqsCompleted c1
         then bind_res (dumpStats fiNs c1) (\<lambda>(c2, st). Inr (FiniExit c2 st))
         else Inr (FiniReturn c1))"

definition finiReq :: "Response \<Rightarrow> u64 \<Rightarrow> u64 \<Rightarrow> u64 \<Rightarrow> Client \<Rightarrow> fini res" where
  "finiReq resp curNs roiNs fiNs c =
     (case inFlightReqs c (rs_id resp) of
        None \<Rightarrow> Inl (Abort ''it != inFlightReqs.end()'')
      | Some req \<Rightarrow>
          (if \<not> rq_genNs req < curNs then Inl (Abort ''curNs > req->genNs'')
           else finiReq_end roiNs fiNs
                  ((fini_record req resp curNs c)\<lparr>inFlightReqs :=
                     (inFlightReqs c)(rs_id resp := None)\<rparr>)))"

section \<open>Accessors\<close>

definition get_warmupreq :: "Client \<Rightarrow> u64" where
  "get_warmupreq c = warmupreqs c"

definition get_maxreq :: "Client \<Rightarrow> u64" where
  "get_maxreq c = maxreqs c"

definition get_reqsSent :: "Client \<Rightarrow> u64" where
  "get_reqsSent c = numReqsSent c"

definition get_reqsCompleted :: "Client \<Rightarrow> u64" where
  "get_reqsCompleted c = numReqsCompleted c"

section \<open>Invariant\<close>

text \<open>
  What holds between operations of a running client whose configuration is valid (\<open>client_cfg\<close>, the
  check of \<open>main\<close>): ids are handed out in order and not reused, every started request is either in
  flight or completed, the five result vectors have one entry per request completed in the region of
  interest, and the phase agrees with the number of completed requests.
\<close>

definition client_cfg :: "Client \<Rightarrow> bool" where
  "client_cfg c \<longleftrightarrow> 0 < unat (warmupreqs c) \<and> 0 < unat (maxreqs c) \<and>
     unat (warmupreqs c) + unat (maxreqs c) < 2 ^ 31"

definition inflight_inv :: "Client \<Rightarrow> bool" where
  "inflight_inv c \<longleftrightarrow> finite (dom (inFlightReqs c)) \<and>
     (\<forall>i r. inFlightReqs c i = Some r \<longrightarrow> rq_id r = i \<and> i < startedReqs c) \<and>
     unat (numReqsCompleted c) + card (dom (inFlightReqs c)) = unat (startedReqs c)"

definition vectors_inv :: "Client \<Rightarrow> bool" where
  "vectors_inv c \<longleftrightarrow> length (queueTimes c) = length (sjrnTimes c) \<and>
     length (svcTimes c) = length (sjrnTimes c) \<and> length (requestDate c) = length (sjrnTimes c) \<and>
     length (NicSjrnTimes c) = length (sjrnTimes c)"

definition phase_inv :: "Client \<Rightarrow> bool" where
  "phase_inv c \<longleftrightarrow>
     (case status c of
        INIT \<Rightarrow> dist c = None \<and> startedReqs c = 0 \<and> sjrnTimes c = []
      | WARMUP \<Rightarrow> dist c \<noteq> None \<and> unat (numReqsCompleted c) < unat (warmupreqs c) \<and> sjrnTimes c = []
      | ROI \<Rightarrow> dist c \<noteq> None \<and>
          unat (numReqsCompleted c) = unat (warmupreqs c) + length (sjrnTimes c) \<and>
          length (sjrnTimes c) < unat (maxreqs c)
      | FINISHED \<Rightarrow> False)"

definition client_inv :: "Client \<Rightarrow> bool" where
  "client_inv c \<longleftrightarrow> client_cfg c \<and> inflight_inv c \<and> vectors_inv c \<and> phase_inv c"

lemmas client_inv_defs = client_inv_def client_cfg_def inflight_inv_def vectors_inv_def phase_inv_def

text \<open>The part of the state the rate change and the sleep can touch is outside the invariant.\<close>

lemma new_Client_fields:
  assumes "new_Client u e nt cid w m = Inr c"
  shows "status c = INIT" "dist c = None" "startedReqs c = 0" "inFlightReqs c = Map.empty"
    "warmupreqs c = w" "maxreqs c = m" "numReqsCompleted c = 0" "numReqsSent c = 0"
    "sjrnTimes c = []" "queueTimes c = []" "svcTimes c = []" "requestDate c = []"
    "NicSjrnTimes c = []" "sent_requests c = 0" "client_id c = cid" "nthreads c = nt"
    "qpsVar c = getOpt_int e ''TBENCH_VARQPS'' 0"
  using assms by (auto simp: new_Client_def Let_def split: if_splits)

lemma new_Client_inv:
  assumes "new_Client u e nt cid w m = Inr c" "w \<noteq> 0" "m \<noteq> 0" "unat w + unat m < 2 ^ 31"
  shows "client_inv c"
  using assms new_Client_fields [OF assms(1)]
  by (simp add: client_inv_defs unat_gt_0)

lemma startReq_init_inv:
  "client_inv c \<Longrightarrow> status c = INIT \<Longrightarrow>
     client_inv (startReq_init t c) \<and> status (startReq_init t c) = WARMUP"
  by (auto simp: client_inv_defs startReq_init_def)

lemma change_qps_frame:
  "change_qps c = Inr c' \<Longrightarrow>
     \<exists>ini itv idx. c' = c\<lparr>qpsIni := ini, qpsInterval := itv, idxListQPS := idx\<rparr>"
proof -
  assume "change_qps c = Inr c'"
  then have "c' = c\<lparr>qpsIni := qpsIni c', qpsInterval := qpsInterval c', idxListQPS := idxListQPS c'\<rparr>"
    by (auto simp: change_qps_def Let_def split: if_splits)
  then show ?thesis by blast
qed

lemma startReq_qps_frame:
  "startReq_qps t c = Inr c' \<Longrightarrow>
     \<exists>ini itv idx k d. c' = c\<lparr>qpsIni := ini, qpsInterval := itv, idxListQPS := idx, qpsCounter := k,
       dist := d\<rparr> \<and> (d = None \<longrightarrow> dist c = None) \<and> (status c \<noteq> ROI \<longrightarrow> d = dist c)"
proof (cases "status c = ROI \<and> qpsVar c \<noteq> 0 \<and> qpsCounter c = qpsInterval c")
  case True
  assume "startReq_qps t c = Inr c'"
  with True obtain c1 where "change_qps (c\<lparr>qpsCounter := 0\<rparr>) = Inr c1"
    "c' = c1\<lparr>dist := Some (new_ExpDist (qpsIni c1) (seed c1) t)\<rparr>"
    by (auto simp: startReq_qps_def)
  moreover then obtain ini itv idx where
    "c1 = (c\<lparr>qpsCounter := 0\<rparr>)\<lparr>qpsIni := ini, qpsInterval := itv, idxListQPS := idx\<rparr>"
    using change_qps_frame by blast
  ultimately have "c' = c\<lparr>qpsIni := ini, qpsInterval := itv, idxListQPS := idx, qpsCounter := 0,
      dist := Some (new_ExpDist (qpsIni c1) (seed c1) t)\<rparr>" by simp
  with True show ?thesis by blast
next
  case False
  assume "startReq_qps t c = Inr c'"
  with False have "c' = c\<lparr>qpsIni := qpsIni c, qpsInterval := qpsInterval c,
      idxListQPS := idxListQPS c, qpsCounter := qpsCounter c', dist := dist c\<rparr>"
    by (auto simp: startReq_qps_def split: if_splits)
  then show ?thesis by blast
qed

lemma startReq_qps_inv:
  assumes "client_inv c" "startReq_qps t c = Inr c'"
  shows "client_inv c' \<and> status c' = status c \<and> startedReqs c' = startedReqs c \<and>
    inFlightReqs c' = inFlightReqs c \<and> numReqsCompleted c' = numReqsCompleted c \<and>
    (status c \<noteq> INIT \<longrightarrow> dist c' \<noteq> None)"
proof -
  obtain ini itv idx k d where c': "c' = c\<lparr>qpsIni := ini, qpsInterval := itv, idxListQPS := idx,
      qpsCounter := k, dist := d\<rparr>" and d: "d = None \<longrightarrow> dist c = None" "status c \<noteq> ROI \<longrightarrow> d = dist c"
    using startReq_qps_frame [OF assms(2)] by blast
  then show ?thesis using assms(1)
    by (cases "status c") (auto simp: client_inv_defs)
qed

lemma upd_req_inv:
  assumes "client_inv c" "\<And>r. rq_id (f r) = rq_id r"
  shows "client_inv (upd_req rid f c)"
proof -
  have "dom (inFlightReqs (upd_req rid f c)) = dom (inFlightReqs c)"
    by (auto simp: upd_req_def split: if_splits)
  with assms show ?thesis
    by (cases "status c") (auto simp: client_inv_defs upd_req_def split: if_splits)
qed

lemma startReq_gen_spec:
  assumes "startReq_gen smp st ad re data len c = Inr (rid, c')"
  obtains d g d' r where "dist c = Some d" "nextArrivalNs smp d = Inr (g, d')"
    "rid = startedReqs c" "int (length data) \<le> MAX_REQ_BYTES"
    "r = new_Request\<lparr>rq_startNs := st, rq_startNs_lock_ad := ad, rq_data := data, rq_len := len,
       rq_id := rid, rq_genNs := g, rq_startNs_lock_re := re\<rparr>"
    "c' = c\<lparr>startedReqs := rid + 1, dist := Some d', inFlightReqs := (inFlightReqs c)(rid \<mapsto> r),
       gen_requests := gen_requests c + 1,
       timely_gen_requests := timely_gen_requests c + (if st < g then 1 else 0),
       gen_req_ns := gen_req_ns c + (re - ad)\<rparr>"
proof -
  have le: "int (length data) \<le> MAX_REQ_BYTES"
    by (rule ccontr) (use assms in \<open>simp add: startReq_gen_def\<close>)
  obtain d where d: "dist c = Some d"
    using assms le by (cases "dist c") (simp_all add: startReq_gen_def)
  obtain g d' where n: "nextArrivalNs smp d = Inr (g, d')"
    using assms le d by (cases "nextArrivalNs smp d") (auto simp: startReq_gen_def)
  from assms le d n show thesis
    by (intro that [OF d n _ le refl]) (auto simp: startReq_gen_def Let_def split del: if_split)
qed

lemma inflight_insert:
  fixes c :: Client
  assumes "inflight_inv c" "unat (startedReqs c) + 1 < 2 ^ 64"
    and "inFlightReqs c' = (inFlightReqs c)(startedReqs c \<mapsto> r)" "startedReqs c' = startedReqs c + 1"
    and "rq_id r = startedReqs c" "numReqsCompleted c' = numReqsCompleted c"
  shows "inflight_inv c'"
proof -
  have new: "startedReqs c \<notin> dom (inFlightReqs c)"
    using assms(1) by (auto simp: inflight_inv_def)
  have n: "unat (startedReqs c + 1) = unat (startedReqs c) + 1"
    using assms(2) by (simp add: unat_word_ariths)
  have "i < startedReqs c + 1" if "i < startedReqs c \<or> i = startedReqs c" for i
    using that n by (auto simp: word_less_nat_alt)
  with assms new n show ?thesis
    by (auto simp: inflight_inv_def split: if_splits)
qed

lemma startReq_gen_inv:
  assumes "client_inv c" "status c \<noteq> INIT" "unat (startedReqs c) + 1 < 2 ^ 64"
    and gen: "startReq_gen smp st ad re data len c = Inr (rid, c')"
  shows "client_inv c'"
proof -
  obtain d g d' r where "dist c = Some d" and r: "r = new_Request\<lparr>rq_startNs := st,
      rq_startNs_lock_ad := ad, rq_data := data, rq_len := len, rq_id := rid, rq_genNs := g,
      rq_startNs_lock_re := re\<rparr>" and rid: "rid = startedReqs c"
    and c': "c' = c\<lparr>startedReqs := rid + 1, dist := Some d', inFlightReqs := (inFlightReqs c)(rid \<mapsto> r),
       gen_requests := gen_requests c + 1,
       timely_gen_requests := timely_gen_requests c + (if st < g then 1 else 0),
       gen_req_ns := gen_req_ns c + (re - ad)\<rparr>"
    by (rule startReq_gen_spec [OF gen])
  have "inflight_inv c'"
    by (rule inflight_insert [of c _ r]) (use assms c' r rid in \<open>auto simp: client_inv_def\<close>)
  with assms c' show ?thesis
    by (cases "status c") (auto simp: client_inv_def client_cfg_def vectors_inv_def phase_inv_def)
qed

lemma startReq_sleep_frame:
  "startReq_sleep rid t ws c = Some c' \<Longrightarrow> \<exists>n. c' = c\<lparr>total_sleep_ns := n\<rparr>"
  by (cases "inFlightReqs c rid") (auto simp: startReq_sleep_def split: if_splits intro: exI [of _ "total_sleep_ns c"])

lemma total_sleep_inv: "client_inv (c\<lparr>total_sleep_ns := n\<rparr>) = client_inv c"
  by (cases "status c") (simp_all add: client_inv_defs)

lemma startReq_late_inv: "client_inv c \<Longrightarrow> client_inv (startReq_late rid c)"
  unfolding startReq_late_def by (rule upd_req_inv) auto

text \<open>The first two sections of \<open>startReq\<close>, up to the generation of the request.\<close>

definition startReq_front :: "sr_input \<Rightarrow> Client \<Rightarrow> Client res" where
  "startReq_front i c =
     startReq_qps (sr_qpsNs i) (if status c = INIT then startReq_init (sr_initNs i) c else c)"

lemma startReq_front_inv:
  assumes "client_inv c" "startReq_front i c = Inr c1"
  shows "client_inv c1 \<and> status c1 \<noteq> INIT \<and> startedReqs c1 = startedReqs c \<and>
    inFlightReqs c1 = inFlightReqs c \<and> numReqsCompleted c1 = numReqsCompleted c"
proof -
  define c0 where "c0 = (if status c = INIT then startReq_init (sr_initNs i) c else c)"
  have "client_inv c0 \<and> status c0 \<noteq> INIT \<and> startedReqs c0 = startedReqs c \<and>
      inFlightReqs c0 = inFlightReqs c \<and> numReqsCompleted c0 = numReqsCompleted c"
    using assms(1) startReq_init_inv [of c "sr_initNs i"] by (auto simp: c0_def startReq_init_def)
  moreover have "startReq_qps (sr_qpsNs i) c0 = Inr c1"
    using assms(2) by (simp add: startReq_front_def c0_def)
  ultimately show ?thesis using startReq_qps_inv [of c0 "sr_qpsNs i" c1] by auto
qed

lemma startReq_decompose:
  assumes "startReq smp i c = Some (Inr (rid, c'))"
  obtains c1 c2 n where "startReq_front i c = Inr c1"
    "startReq_gen smp (sr_startNs i) (sr_lock_ad i) (sr_lock_re i) (sr_data i) (sr_len i) c1 = Inr (rid, c2)"
    "c' = (startReq_late rid c2)\<lparr>total_sleep_ns := n\<rparr>"
    "startReq_sleep rid (sr_curNs i) (sr_wake i) (startReq_late rid c2) = Some c'"
proof -
  obtain c1 where c1: "startReq_front i c = Inr c1"
    using assms by (cases "startReq_front i c") (auto simp: startReq_def startReq_front_def Let_def)
  obtain r2 c2 where g: "startReq_gen smp (sr_startNs i) (sr_lock_ad i) (sr_lock_re i) (sr_data i)
      (sr_len i) c1 = Inr (r2, c2)"
    using assms c1
    by (cases "startReq_gen smp (sr_startNs i) (sr_lock_ad i) (sr_lock_re i) (sr_data i) (sr_len i) c1")
       (auto simp: startReq_def startReq_front_def Let_def)
  have "r2 = rid" and sl: "startReq_sleep rid (sr_curNs i) (sr_wake i) (startReq_late rid c2) = Some c'"
    using assms c1 g by (auto simp: startReq_def startReq_front_def Let_def)
  then show thesis using that [OF c1 _ _ sl] g startReq_sleep_frame [OF sl] by auto
qed

lemma startReq_inv:
  assumes "client_inv c" "unat (startedReqs c) + 1 < 2 ^ 64"
    and "startReq smp i c = Some (Inr (rid, c'))"
  shows "client_inv c'"
proof -
  obtain c1 c2 n where f: "startReq_front i c = Inr c1"
    and g: "startReq_gen smp (sr_startNs i) (sr_lock_ad i) (sr_lock_re i) (sr_data i) (sr_len i) c1
      = Inr (rid, c2)" and c': "c' = (startReq_late rid c2)\<lparr>total_sleep_ns := n\<rparr>"
    by (rule startReq_decompose [OF assms(3)])
  have "client_inv c2"
    using startReq_front_inv [OF assms(1) f] assms(2) by (intro startReq_gen_inv [OF _ _ _ g]) auto
  then show ?thesis unfolding c' total_sleep_inv by (rule startReq_late_inv)
qed

section \<open>Completion\<close>

lemma dump_rows_ok:
  assumes "length s = length q" "length j = length q" "length d = length q" "length n = length q"
    and "r + k \<le> length q"
  shows "dump_rows q s j d n r k = Inr (concat (map (\<lambda>i. concat (map (le_bytes 8)
           [q ! i, s ! i, j ! i, d ! i, n ! i])) [r ..< r + k]))"
  using assms(5)
proof (induction k arbitrary: r)
  case (Suc k)
  then have "[r ..< r + Suc k] = r # [Suc r ..< Suc r + k]" by (simp add: upt_rec)
  with Suc assms(1-4) show ?case by simp
qed simp

text \<open>The rows of the result vectors, oldest first.\<close>

definition result_rows :: "Client \<Rightarrow> u64 list list" where
  "result_rows c = map (\<lambda>i. [queueTimes c ! i, svcTimes c ! i, sjrnTimes c ! i, requestDate c ! i,
     NicSjrnTimes c ! i]) [0 ..< length (sjrnTimes c)]"

lemma dumpStats_ok:
  assumes "vectors_inv c" "length (sjrnTimes c) < 2 ^ 31"
  obtains c' st where "dumpStats t c = Inr (c', st)"
    "st_bytes st = concat (map (\<lambda>row. concat (map (le_bytes 8) row)) (result_rows c))"
    "c' = c\<lparr>gen_requests := numReqsCompleted c - warmupreqs c\<rparr>"
proof -
  have "to_i32 (int (length (sjrnTimes c))) = int (length (sjrnTimes c))"
    using assms(2) by (intro to_i32_id) auto
  moreover have "dump_rows (queueTimes c) (svcTimes c) (sjrnTimes c) (requestDate c) (NicSjrnTimes c) 0
      (length (sjrnTimes c)) = Inr (concat (map (\<lambda>row. concat (map (le_bytes 8) row)) (result_rows c)))"
    using assms(1) by (subst dump_rows_ok) (auto simp: vectors_inv_def result_rows_def o_def)
  ultimately show thesis by (intro that) (auto simp: dumpStats_def Let_def)
qed

lemma length_rows_bytes: "length (concat (map (\<lambda>row. concat (map (le_bytes 8) row)) (result_rows c)))
    = 40 * length (sjrnTimes c)"
  by (simp add: result_rows_def length_concat o_def sum_list_triv)

text \<open>The client after the bookkeeping of \<open>finiReq\<close>, before the phase decision.\<close>

definition fini_state :: "Request \<Rightarrow> Response \<Rightarrow> u64 \<Rightarrow> Client \<Rightarrow> Client" where
  "fini_state req resp curNs c =
     (fini_record req resp curNs c)\<lparr>inFlightReqs := (inFlightReqs c)(rs_id resp := None)\<rparr>"

lemma finiReq_found:
  "inFlightReqs c (rs_id resp) = Some req \<Longrightarrow> rq_genNs req < curNs \<Longrightarrow>
     finiReq resp curNs roiNs fiNs c = finiReq_end roiNs fiNs (fini_state req resp curNs c)"
  by (simp add: finiReq_def fini_state_def)

lemma fini_state_fields [simp]:
  "status (fini_state req resp t c) = status c"
  "warmupreqs (fini_state req resp t c) = warmupreqs c"
  "maxreqs (fini_state req resp t c) = maxreqs c"
  "numReqsCompleted (fini_state req resp t c) = numReqsCompleted c"
  "startedReqs (fini_state req resp t c) = startedReqs c"
  "dist (fini_state req resp t c) = dist c"
  "numReqsSent (fini_state req resp t c) = numReqsSent c"
  "inFlightReqs (fini_state req resp t c) = (inFlightReqs c)(rs_id resp := None)"
  "length (sjrnTimes (fini_state req resp t c)) =
     length (sjrnTimes c) + (if status c = ROI then 1 else 0)"
  by (simp_all add: fini_state_def fini_record_def)

lemma fini_state_vectors: "vectors_inv c \<Longrightarrow> vectors_inv (fini_state req resp t c)"
  by (simp add: vectors_inv_def fini_state_def fini_record_def)

lemma cfg_sum:
  assumes "client_cfg c"
  shows "unat (warmupreqs c + maxreqs c) = unat (warmupreqs c) + unat (maxreqs c)"
  using assms by (simp add: client_cfg_def unat_word_ariths)

lemma inflight_remove:
  assumes "inflight_inv c" "inFlightReqs c rid = Some r"
    and "inFlightReqs c' = (inFlightReqs c)(rid := None)" "startedReqs c' = startedReqs c"
    and "numReqsCompleted c' = numReqsCompleted c + 1"
  shows "inflight_inv c' \<and> unat (numReqsCompleted c + 1) = unat (numReqsCompleted c) + 1"
proof -
  have rid: "rid \<in> dom (inFlightReqs c)" using assms(2) by auto
  have fin: "finite (dom (inFlightReqs c))" using assms(1) by (simp add: inflight_inv_def)
  have card: "card (dom (inFlightReqs c)) = Suc (card (dom (inFlightReqs c) - {rid}))"
    using card.remove [OF fin rid] by simp
  then have "unat (numReqsCompleted c) < unat (startedReqs c)"
    using assms(1) by (simp add: inflight_inv_def)
  then have n: "unat (numReqsCompleted c + 1) = unat (numReqsCompleted c) + 1" by (rule unat_plus_one)
  with assms card fin show ?thesis by (auto simp: inflight_inv_def)
qed

lemma unat_eq_iff_word: "(a :: u64) = b \<longleftrightarrow> unat a = unat b"
  by (simp add: word_unat_eq_iff)

lemma not_init_if_inflight: "client_inv c \<Longrightarrow> inFlightReqs c rid = Some r \<Longrightarrow> status c = WARMUP \<or> status c = ROI"
  by (cases "status c") (auto simp: client_inv_defs)

lemma finiReq_warmup:
  assumes inv: "client_inv c" and found: "inFlightReqs c (rs_id resp) = Some req"
    and time: "rq_genNs req < curNs" and st: "status c = WARMUP"
  shows "\<exists>c'. finiReq resp curNs roiNs fiNs c = Inr (FiniReturn c') \<and> client_inv c' \<and>
    numReqsCompleted c' = numReqsCompleted c + 1 \<and>
    inFlightReqs c' = (inFlightReqs c)(rs_id resp := None) \<and>
    status c' = (if unat (numReqsCompleted c) + 1 = unat (warmupreqs c) then ROI else WARMUP)"
proof -
  define c1 where "c1 = (fini_state req resp curNs c)\<lparr>numReqsCompleted := numReqsCompleted c + 1\<rparr>"
  have ii: "inflight_inv c1" and n: "unat (numReqsCompleted c + 1) = unat (numReqsCompleted c) + 1"
    using inflight_remove [of c "rs_id resp" req c1] inv found by (auto simp: c1_def client_inv_def)
  have vi: "vectors_inv c1" and sj: "sjrnTimes c1 = []" and ph: "unat (numReqsCompleted c) < unat (warmupreqs c)"
    using inv st fini_state_vectors [of c req resp curNs]
    by (auto simp: client_inv_def c1_def vectors_inv_def phase_inv_def fini_state_def fini_record_def)
  have fields: "status c1 = WARMUP" "warmupreqs c1 = warmupreqs c" "maxreqs c1 = maxreqs c" "dist c1 = dist c"
    "numReqsCompleted c1 = numReqsCompleted c + 1" "inFlightReqs c1 = (inFlightReqs c)(rs_id resp := None)"
    using st by (simp_all add: c1_def)
  have cfg: "client_cfg c" "client_cfg c1" and di: "dist c \<noteq> None"
    using inv fields st by (auto simp: client_inv_def client_cfg_def phase_inv_def)
  have eq: "finiReq resp curNs roiNs fiNs c = finiReq_end roiNs fiNs (fini_state req resp curNs c)"
    by (rule finiReq_found [OF found time])
  show ?thesis
  proof (cases "unat (numReqsCompleted c) + 1 = unat (warmupreqs c)")
    case True
    define c2 where "c2 = c1\<lparr>status := ROI, qpsCounter := 0, requestDate := [], queueTimes := [],
             svcTimes := [], sjrnTimes := [], NicSjrnTimes := [], gen_requests := 0,
             timely_gen_requests := 0, sent_requests := 0, gen_req_ns := 0, send_req_ns := 0,
             total_req_ns := 0, total_sleep_ns := 0, roi_start_ns := roiNs\<rparr>"
    have "finiReq resp curNs roiNs fiNs c = Inr (FiniReturn c2)"
      unfolding eq using True n fields(1)
      by (simp add: finiReq_end_def Let_def c1_def [symmetric] startRoi_unlocked_def c2_def unat_eq_iff_word fields)
    moreover have "client_inv c2"
      using ii cfg(2) di True n fields
      by (simp add: client_inv_def inflight_inv_def client_cfg_def vectors_inv_def phase_inv_def c2_def)
    ultimately show ?thesis using True fields by (simp add: c2_def)
  next
    case False
    have "finiReq resp curNs roiNs fiNs c = Inr (FiniReturn c1)"
      unfolding eq using False n ph cfg_sum [OF cfg(1)] cfg(1)
      by (auto simp: finiReq_end_def Let_def c1_def [symmetric] unat_eq_iff_word fields word_le_nat_alt client_cfg_def)
    moreover have "client_inv c1"
      using ii vi sj cfg(2) di ph False n fields
      by (simp add: client_inv_def phase_inv_def)
    ultimately show ?thesis using False fields by simp
  qed
qed

lemma finiReq_roi:
  assumes inv: "client_inv c" and found: "inFlightReqs c (rs_id resp) = Some req"
    and time: "rq_genNs req < curNs" and st: "status c = ROI"
  shows "if Suc (length (sjrnTimes c)) < unat (maxreqs c)
    then \<exists>c'. finiReq resp curNs roiNs fiNs c = Inr (FiniReturn c') \<and> client_inv c' \<and> status c' = ROI \<and>
      numReqsCompleted c' = numReqsCompleted c + 1 \<and>
      inFlightReqs c' = (inFlightReqs c)(rs_id resp := None)
    else \<exists>c' stats. finiReq resp curNs roiNs fiNs c = Inr (FiniExit c' stats) \<and>
      st_bytes stats = concat (map (\<lambda>row. concat (map (le_bytes 8) row))
        (result_rows (fini_state req resp curNs c))) \<and>
      length (sjrnTimes (fini_state req resp curNs c)) = unat (maxreqs c)"
proof -
  define c1 where "c1 = (fini_state req resp curNs c)\<lparr>numReqsCompleted := numReqsCompleted c + 1\<rparr>"
  have ii: "inflight_inv c1" and n: "unat (numReqsCompleted c + 1) = unat (numReqsCompleted c) + 1"
    using inflight_remove [of c "rs_id resp" req c1] inv found by (auto simp: c1_def client_inv_def)
  have vi: "vectors_inv c1"
    using inv fini_state_vectors [of c req resp curNs]
    by (auto simp: client_inv_def c1_def vectors_inv_def)
  have fields: "status c1 = ROI" "warmupreqs c1 = warmupreqs c" "maxreqs c1 = maxreqs c" "dist c1 = dist c"
    "numReqsCompleted c1 = numReqsCompleted c + 1" "inFlightReqs c1 = (inFlightReqs c)(rs_id resp := None)"
    "length (sjrnTimes c1) = Suc (length (sjrnTimes c))"
    using st by (simp_all add: c1_def)
  have cfg: "client_cfg c" "client_cfg c1" and di: "dist c \<noteq> None"
    and ph: "unat (numReqsCompleted c) = unat (warmupreqs c) + length (sjrnTimes c)"
      "length (sjrnTimes c) < unat (maxreqs c)"
    using inv fields st by (auto simp: client_inv_def client_cfg_def phase_inv_def)
  have eq: "finiReq resp curNs roiNs fiNs c = finiReq_end roiNs fiNs (fini_state req resp curNs c)"
    by (rule finiReq_found [OF found time])
  have nw: "numReqsCompleted c + 1 \<noteq> warmupreqs c" "warmupreqs c \<noteq> 0"
    using n ph cfg(1) by (auto simp: unat_eq_iff_word client_cfg_def)
  have fin: "warmupreqs c + maxreqs c \<le> numReqsCompleted c + 1 \<longleftrightarrow>
      \<not> Suc (length (sjrnTimes c)) < unat (maxreqs c)"
    using n ph cfg_sum [OF cfg(1)] by (auto simp: word_le_nat_alt)
  show ?thesis
  proof (cases "Suc (length (sjrnTimes c)) < unat (maxreqs c)")
    case True
    have "finiReq resp curNs roiNs fiNs c = Inr (FiniReturn c1)"
      unfolding eq using True nw fin by (simp add: finiReq_end_def Let_def c1_def [symmetric] fields)
    moreover have "client_inv c1"
      using ii vi cfg(2) di ph n fields True by (simp add: client_inv_def phase_inv_def)
    ultimately show ?thesis using True fields by simp
  next
    case False
    have "length (sjrnTimes c1) < 2 ^ 31" using fields(7) ph(2) cfg(1) by (simp add: client_cfg_def)
    then obtain c2 stats where d: "dumpStats fiNs c1 = Inr (c2, stats)" and
      b: "st_bytes stats = concat (map (\<lambda>row. concat (map (le_bytes 8) row)) (result_rows c1))"
      using dumpStats_ok [OF vi, of fiNs] by metis
    have "result_rows c1 = result_rows (fini_state req resp curNs c)"
      by (simp add: result_rows_def c1_def)
    moreover have "finiReq resp curNs roiNs fiNs c = Inr (FiniExit c2 stats)"
      unfolding eq using False nw fin d by (simp add: finiReq_end_def Let_def c1_def [symmetric] fields)
    moreover have "Suc (length (sjrnTimes c)) = unat (maxreqs c)" using False ph(2) by simp
    ultimately show ?thesis using False b st by simp
  qed
qed

end
