(* ===== verification/Harness_NetClient.thy ===== *)
theory Harness_NetClient
  imports Harness_Client
begin

text \<open>
  The networked client: class \<open>NetworkedClient\<close> of \<^verbatim>\<open>src/harness/client.cpp\<close> and the thread bodies
  and \<open>main\<close> of \<^verbatim>\<open>src/harness/tbench_client_networked.cpp\<close>. The results of the socket calls are
  arguments. \<open>recvLock\<close> is part of the state because \<open>recv\<close> can return while holding it; \<open>None\<close> is a
  call that never returns.
\<close>

section \<open>NetworkedClient\<close>

record NetworkedClient =
  base :: Client
  serverFd :: int
  error :: string
  recvLock_held :: bool

record net_setup =
  gai_status :: int
  socket_fd :: int
  connect_rc :: int
  nodelay_rc :: int

definition new_NetworkedClient ::
    "Uninit \<Rightarrow> env \<Rightarrow> net_setup \<Rightarrow> int \<Rightarrow> int \<Rightarrow> u64 \<Rightarrow> u64 \<Rightarrow> NetworkedClient res" where
  "new_NetworkedClient u e net nthr cid warmupreq maxreq =
     bind_res (new_Client u e nthr cid warmupreq maxreq) (\<lambda>c.
       if gai_status net \<noteq> 0 then Inl (Exit (- 1))
       else if socket_fd net = - 1 then Inl (Exit (- 1))
       else if connect_rc net = - 1 then Inl (Exit (- 1))
       else if nodelay_rc net = - 1 then Inl (Exit (- 1))
       else Inr \<lparr>base = c, serverFd = socket_fd net, error = [], recvLock_held = False\<rparr>)"

definition wire_len :: "u64 \<Rightarrow> int" where
  "wire_len len = to_i32 (uint (word_of_int (sizeof_Request - MAX_REQ_BYTES) + len))"

text \<open>
  \<open>send\<close>: the result, the bytes handed to the socket, and the rest of the socket's script. Under
  \<open>sendLock\<close> nothing is sent once \<open>warmupreqs + maxreqs\<close> requests have been. The request object is
  written before the bytes leave and not touched afterwards.
\<close>

definition send_locked ::
    "Request \<Rightarrow> string \<Rightarrow> tx list \<Rightarrow> NetworkedClient \<Rightarrow>
       (bool \<times> byte list \<times> tx list \<times> NetworkedClient) res option" where
  "send_locked req errstr s nc =
     (let c = base nc; len = wire_len (rq_len req)
      in if numReqsSent c \<noteq> warmupreqs c + maxreqs c
         then (if len > sizeof_Request then Some (Inl (Undefined ''read past Request''))
               else (case sendfull (request_bytes req (nat len)) len s of
                       None \<Rightarrow> None
                     | Some (sent, out, s') \<Rightarrow>
                         Some (Inr (sent = len, out, s',
                           nc\<lparr>base := c\<lparr>numReqsSent := numReqsSent c + 1,
                                          sent_requests := sent_requests c + 1\<rparr>,
                              error := (if sent \<noteq> len then errstr else error nc)\<rparr>))))
         else Some (Inr (True, [], s, nc)))"

definition send ::
    "u64 \<Rightarrow> u64 \<Rightarrow> u64 \<Rightarrow> string \<Rightarrow> tx list \<Rightarrow> NetworkedClient \<Rightarrow>
       (bool \<times> byte list \<times> tx list \<times> NetworkedClient) res option" where
  "send rid sentNs lock_ad errstr s nc =
     (let c1 = upd_req rid (\<lambda>r. r\<lparr>rq_sentNs := sentNs, rq_sentNs_lock_ad := lock_ad\<rparr>) (base nc)
      in case inFlightReqs c1 rid of
           None \<Rightarrow> Some (Inl (Undefined ''deleted Request''))
         | Some req \<Rightarrow> send_locked req errstr s (nc\<lparr>base := c1\<rparr>))"

text \<open>
  \<open>recv\<close>: a failed read returns \<open>false\<close> without releasing \<open>recvLock\<close>. On a failure the contents of
  \<open>resp\<close> are not specified further (the caller does not read them).
\<close>

definition recv_body ::
    "u64 \<Rightarrow> u64 \<Rightarrow> string \<Rightarrow> Response \<Rightarrow> rx list \<Rightarrow> NetworkedClient \<Rightarrow>
       (bool \<times> Response \<times> rx list \<times> NetworkedClient) res option" where
  "recv_body s1 endNs errstr resp s nc =
     (if rs_type resp = RESPONSE
      then (case recvfull (to_i32 (uint (rs_len resp))) s of
              None \<Rightarrow> None
            | Some (recvd, got, s') \<Rightarrow>
                (if int (length got) > MAX_RESP_BYTES then Some (Inl (Undefined ''Response::data overrun''))
                 else if word_of_int recvd \<noteq> rs_len resp
                 then Some (Inr (False, resp, s', nc\<lparr>error := errstr\<rparr>))
                 else Some (Inr (True, resp\<lparr>rs_data := store_data got (rs_data resp),
                                            rs_recvNs := endNs - s1\<rparr>, s', nc\<lparr>recvLock_held := False\<rparr>))))
      else Some (Inr (True, resp\<lparr>rs_recvNs := endNs - s1\<rparr>, s, nc\<lparr>recvLock_held := False\<rparr>)))"

definition recv ::
    "u64 \<Rightarrow> u64 \<Rightarrow> string \<Rightarrow> Response \<Rightarrow> rx list \<Rightarrow> NetworkedClient \<Rightarrow>
       (bool \<times> Response \<times> rx list \<times> NetworkedClient) res option" where
  "recv s1 endNs errstr resp s nc =
     (if recvLock_held nc then None
      else (let nc1 = nc\<lparr>recvLock_held := True\<rparr>; len = sizeof_Response - MAX_RESP_BYTES
            in case recvfull len s of
                 None \<Rightarrow> None
               | Some (recvd, got, s') \<Rightarrow>
                   (if recvd \<noteq> len then Some (Inr (False, resp, s', nc1\<lparr>error := errstr\<rparr>))
                    else recv_body s1 endNs errstr (load_response_header got resp) s' nc1)))"

definition errmsg :: "NetworkedClient \<Rightarrow> string" where
  "errmsg nc = error nc"

section \<open>Thread bodies\<close>

text \<open>One round of the sender thread \<open>send\<close> and of the receiver thread \<open>recv\<close>.\<close>

datatype 'a thread_step = ThreadExit 'a | ThreadContinue 'a

definition sender_round ::
    "sampler \<Rightarrow> sr_input \<Rightarrow> u64 \<Rightarrow> u64 \<Rightarrow> string \<Rightarrow> tx list \<Rightarrow> NetworkedClient \<Rightarrow>
       (NetworkedClient \<times> byte list \<times> tx list) thread_step res option" where
  "sender_round smp i sentNs lock_ad errstr s nc =
     (if get_warmupreq (base nc) + get_maxreq (base nc) \<le> get_reqsSent (base nc)
      then Some (Inr (ThreadExit (nc, [], s)))
      else (case startReq smp i (base nc) of
              None \<Rightarrow> None
            | Some (Inl f) \<Rightarrow> Some (Inl f)
            | Some (Inr (rid, c)) \<Rightarrow>
                (case send rid sentNs lock_ad errstr s (nc\<lparr>base := c\<rparr>) of
                   None \<Rightarrow> None
                 | Some (Inl f) \<Rightarrow> Some (Inl f)
                 | Some (Inr (ok, out, s', nc')) \<Rightarrow>
                     Some (Inr (if ok then ThreadContinue (nc', out, s') else ThreadExit (nc', out, s'))))))"

datatype recv_end =
    RecvContinue NetworkedClient Response "rx list"
  | RecvThreadEnd NetworkedClient "rx list"
  | RecvProcessExit Client Stats

definition receiver_round ::
    "u64 \<Rightarrow> u64 \<Rightarrow> string \<Rightarrow> u64 \<Rightarrow> u64 \<Rightarrow> u64 \<Rightarrow> Response \<Rightarrow> rx list \<Rightarrow> NetworkedClient \<Rightarrow>
       recv_end res option" where
  "receiver_round s1 endNs errstr curNs roiNs fiNs resp s nc =
     (case recv s1 endNs errstr resp s nc of
        None \<Rightarrow> None
      | Some (Inl f) \<Rightarrow> Some (Inl f)
      | Some (Inr (ok, resp', s', nc')) \<Rightarrow>
          (if \<not> ok then Some (Inr (RecvThreadEnd nc' s'))
           else if rs_type resp' = RESPONSE
           then (case finiReq resp' curNs roiNs fiNs (base nc') of
                   Inl f \<Rightarrow> Some (Inl f)
                 | Inr (FiniReturn c) \<Rightarrow> Some (Inr (RecvContinue (nc'\<lparr>base := c\<rparr>) resp' s'))
                 | Inr (FiniExit c st) \<Rightarrow> Some (Inr (RecvProcessExit c st)))
           else Some (Inr (RecvThreadEnd nc' s'))))"

section \<open>main\<close>

text \<open>
  \<open>main\<close> up to the creation of the threads: the options, the configuration check and the client;
  \<open>Inr None\<close> is the early \<open>return 0\<close>. A negative thread count makes the vectors' constructors throw.
\<close>

definition client_main ::
    "Uninit \<Rightarrow> env \<Rightarrow> net_setup \<Rightarrow> (NetworkedClient \<times> nat) option res" where
  "client_main u e net =
     (let nthr = getOpt_int e ''TBENCH_CLIENT_THREADS'' 1;
          cid = getOpt_int e ''TBENCH_ID'' 0;
          warmup = getOpt_u64 e ''TBENCH_WARMUPREQS'' 10;
          maxreq = getOpt_u64 e ''TBENCH_MAXREQS'' 100
      in if warmup = 0 \<or> maxreq = 0 then Inr None
         else bind_res (new_NetworkedClient u e net nthr cid warmup maxreq) (\<lambda>nc.
                if nthr < 0 then Inl (Throw ''std::length_error'')
                else Inr (Some (nc, nat nthr))))"

section \<open>Lemmas\<close>

lemma wire_len_small:
  assumes "unat len \<le> 2 ^ 20"
  shows "wire_len len = 80 + int (unat len)"
proof -
  have "int (unat len) \<le> int (2 ^ 20)" using assms by (simp only: of_nat_le_iff)
  then have "uint len \<le> 2 ^ 20" by simp
  then have "uint (80 + len) = 80 + uint len"
    by (simp add: uint_word_ariths)
  then show ?thesis
    using \<open>uint len \<le> 2 ^ 20\<close> unfolding wire_len_def header_sizes by (simp add: to_i32_id)
qed

lemma upd_req_fields [simp]:
  "numReqsSent (upd_req rid f c) = numReqsSent c" "warmupreqs (upd_req rid f c) = warmupreqs c"
  "maxreqs (upd_req rid f c) = maxreqs c" "numReqsCompleted (upd_req rid f c) = numReqsCompleted c"
  "status (upd_req rid f c) = status c" "startedReqs (upd_req rid f c) = startedReqs c"
  "inFlightReqs (upd_req rid f c) rid' =
     (if rid' = rid then map_option f (inFlightReqs c rid) else inFlightReqs c rid')"
  "dom (inFlightReqs (upd_req rid f c)) = dom (inFlightReqs c)"
  by (auto simp: upd_req_def split: if_splits)

text \<open>The request object a \<open>send\<close> transmits.\<close>

definition stamped :: "u64 \<Rightarrow> u64 \<Rightarrow> Request \<Rightarrow> Request" where
  "stamped sentNs lock_ad r = r\<lparr>rq_sentNs := sentNs, rq_sentNs_lock_ad := lock_ad\<rparr>"

lemma send_decompose:
  assumes "send rid t1 t2 err s nc = Some (Inr (ok, out, s', nc'))"
  obtains r where "inFlightReqs (base nc) rid = Some r"
    and "send_locked (stamped t1 t2 r) err s (nc\<lparr>base := upd_req rid (stamped t1 t2) (base nc)\<rparr>)
      = Some (Inr (ok, out, s', nc'))"
proof (cases "inFlightReqs (base nc) rid")
  case None
  then show thesis using assms by (simp add: send_def)
next
  case (Some r)
  have eta: "(\<lambda>r. r\<lparr>rq_sentNs := t1, rq_sentNs_lock_ad := t2\<rparr>) = stamped t1 t2"
    by (simp add: stamped_def fun_eq_iff)
  show thesis
    by (rule that [OF Some]) (use assms Some in \<open>simp add: send_def Let_def eta\<close>)
qed

lemma send_counts:
  assumes "send rid t1 t2 err s nc = Some (Inr (ok, out, s', nc'))"
  shows "numReqsSent (base nc') = (if numReqsSent (base nc) \<noteq> warmupreqs (base nc) + maxreqs (base nc)
      then numReqsSent (base nc) + 1 else numReqsSent (base nc))"
    and "\<exists>n k. base nc' = (upd_req rid (stamped t1 t2) (base nc))\<lparr>numReqsSent := n, sent_requests := k\<rparr>"
proof -
  obtain r where sl: "send_locked (stamped t1 t2 r) err s
      (nc\<lparr>base := upd_req rid (stamped t1 t2) (base nc)\<rparr>) = Some (Inr (ok, out, s', nc'))"
    by (rule send_decompose [OF assms])
  show "numReqsSent (base nc') = (if numReqsSent (base nc) \<noteq> warmupreqs (base nc) + maxreqs (base nc)
      then numReqsSent (base nc) + 1 else numReqsSent (base nc))"
    using sl by (auto simp: send_locked_def Let_def split: if_splits option.splits)
  define c where "c = upd_req rid (stamped t1 t2) (base nc)"
  have "base nc' = c\<lparr>numReqsSent := numReqsSent (base nc'), sent_requests := sent_requests (base nc')\<rparr>"
    using sl unfolding c_def [symmetric]
    by (auto simp: send_locked_def Let_def split: if_splits option.splits)
  then show "\<exists>n k. base nc' = (upd_req rid (stamped t1 t2) (base nc))\<lparr>numReqsSent := n, sent_requests := k\<rparr>"
    unfolding c_def by blast
qed

lemma send_client_inv:
  assumes "client_inv (base nc)" "send rid t1 t2 err s nc = Some (Inr (ok, out, s', nc'))"
  shows "client_inv (base nc')"
proof -
  obtain n k where b: "base nc' = (upd_req rid (stamped t1 t2) (base nc))\<lparr>numReqsSent := n, sent_requests := k\<rparr>"
    using send_counts(2) [OF assms(2)] by blast
  have "client_inv (upd_req rid (stamped t1 t2) (base nc))"
    using assms(1) by (rule upd_req_inv) (simp add: stamped_def)
  then show ?thesis unfolding b
    by (cases "status (base nc)") (auto simp: client_inv_defs)
qed

text \<open>A successful \<open>send\<close> below the limit puts exactly the header and the payload on the wire.\<close>

lemma send_bytes:
  assumes "send rid t1 t2 err s nc = Some (Inr (True, out, s', nc'))"
    and "inFlightReqs (base nc) rid = Some r" "unat (rq_len r) \<le> 2 ^ 20"
    and "numReqsSent (base nc) \<noteq> warmupreqs (base nc) + maxreqs (base nc)"
  shows "out = request_header (stamped t1 t2 r) @ buf_take (unat (rq_len r)) (rq_data r)"
proof -
  obtain r' where "inFlightReqs (base nc) rid = Some r'" and sl: "send_locked (stamped t1 t2 r') err s
      (nc\<lparr>base := upd_req rid (stamped t1 t2) (base nc)\<rparr>) = Some (Inr (True, out, s', nc'))"
    by (rule send_decompose [OF assms(1)])
  then have r': "r' = r" using assms(2) by simp
  define msg where "msg = request_bytes (stamped t1 t2 r) (80 + unat (rq_len r))"
  have len: "wire_len (rq_len (stamped t1 t2 r)) = 80 + int (unat (rq_len r))"
    using wire_len_small [OF assms(3)] by (simp add: stamped_def)
  have n: "nat (80 + int (unat (rq_len r))) = 80 + unat (rq_len r)" by (simp add: nat_add_distrib)
  have "\<exists>s'. sendfull msg (80 + int (unat (rq_len r))) s = Some (80 + int (unat (rq_len r)), out, s')"
    using sl assms(4) unfolding r' send_locked_def Let_def len n
    by (auto simp: msg_def split: if_splits option.splits)
  then obtain s'' where sf: "sendfull msg (80 + int (unat (rq_len r))) s =
      Some (80 + int (unat (rq_len r)), out, s'')" by blast
  have "out = take (nat (80 + int (unat (rq_len r)))) msg"
    using sendfull_result [OF sf] by (simp add: msg_def)
  then have "out = msg" unfolding n by (simp add: msg_def)
  then show ?thesis by (simp add: msg_def request_bytes_split stamped_def)
qed

text \<open>A failed \<open>recv\<close> returns with \<open>recvLock\<close> held.\<close>

lemma recv_false_locked:
  assumes "recv s1 t err resp s nc = Some (Inr (False, resp', s', nc'))"
  shows "recvLock_held nc'"
  using assms
  by (auto simp: recv_def recv_body_def Let_def split: if_splits option.splits)

lemma recv_true_unlocked:
  assumes "recv s1 t err resp s nc = Some (Inr (True, resp', s', nc'))"
  shows "nc' = nc\<lparr>recvLock_held := False\<rparr>"
  using assms
  by (auto simp: recv_def recv_body_def Let_def split: if_splits option.splits)

text \<open>Reading back a response whose bytes stand at the front of the stream.\<close>

lemma recv_roundtrip:
  assumes free: "\<not> recvLock_held nc"
    and bytes: "rx_bytes s = response_header r @ data @ rest"
    and ty: "rs_type r = RESPONSE" and len: "rs_len r = of_nat (length data)" "length data \<le> 2 ^ 20"
  shows "\<exists>s' resp'. recv s1 t err resp s nc = Some (Inr (True, resp', s', nc\<lparr>recvLock_held := False\<rparr>)) \<and>
    rx_bytes s' = rest \<and> rs_type resp' = RESPONSE \<and> rs_id resp' = rs_id r \<and> rs_svcNs resp' = rs_svcNs r \<and>
    rs_len resp' = rs_len r \<and> take (length data) (rs_data resp') = data"
proof -
  obtain s1' where h: "recvfull (int 40) s = Some (int 40, take 40 (rx_bytes s), s1')"
    and b1: "rx_bytes s1' = drop 40 (rx_bytes s)"
    by (rule recvfull_complete [of 40 s]) (simp add: bytes)
  have ul: "uint (rs_len r) = int (length data)"
    using len by (simp add: unsigned_of_nat take_bit_nat_eq_self)
  obtain s2 where d: "recvfull (int (length data)) s1' = Some (int (length data), data, s2)"
    and b2: "rx_bytes s2 = rest"
    by (rule recvfull_complete [of "length data" s1']) (auto simp: b1 bytes)
  have ld: "load_response_header (take 40 (rx_bytes s)) resp = r\<lparr>rs_data := rs_data resp\<rparr>"
    using load_response_header_inverse [of r resp] ty by (simp add: bytes)
  have i32: "to_i32 (int (length data)) = int (length data)"
    using len by (intro to_i32_id) auto
  have nov: "\<not> MAX_RESP_BYTES < int (length data)" using len(2) by (simp add: MAX_RESP_BYTES_def)
  have "recv s1 t err resp s nc = Some (Inr (True, (r\<lparr>rs_data := rs_data resp\<rparr>)\<lparr>rs_data :=
      store_data data (rs_data resp), rs_recvNs := t - s1\<rparr>, s2, nc\<lparr>recvLock_held := False\<rparr>))"
    using free ty nov
    by (simp add: recv_def Let_def h [simplified] ld recv_body_def ul i32 d len(1) [symmetric])
  then show ?thesis using b2 ty by simp
qed

end
