(* ===== verification/Harness_Concurrent.thy ===== *)
theory Harness_Concurrent
  imports Harness_NetClient
begin

text \<open>
  The threads of the networked client together. Every sender thread runs the loop of \<open>send\<close> in
  \<^verbatim>\<open>src/harness/tbench_client_networked.cpp\<close>, whose calls of \<open>Client::startReq\<close> and
  \<open>NetworkedClient::send\<close> are broken up at the points where a lock is taken or released and at the two
  start-up barriers; the receiver threads complete requests with \<open>Client::finiReq\<close>. A step relation
  interleaves these sections. The server answers a request that was put on the wire at most once, in
  any order; a send can fail. The clock \<open>now\<close> advances with every reading.
\<close>

section \<open>State\<close>

text \<open>
  Where a sender stands: at the head of its loop; before the test of \<open>status\<close>, with \<open>startNs\<close> read;
  at the first barrier; before the creation of the arrival process; at the second barrier; before the
  rate change; before the generation; before the sleep, and before \<open>send\<close>, with the request; finished.
\<close>

datatype pc =
    PTop
  | PStart u64
  | PBar1 u64
  | PInit u64
  | PBar2 u64
  | PQps u64
  | PGen u64
  | PSleep u64
  | PSend u64
  | PDone

text \<open>
  \<open>wire\<close> holds the ids of the requests that were sent and not yet completed, \<open>lost\<close> counts the sends
  that failed, \<open>ended\<close> is the end of the process: a fault, or the regular exit with its statistics.
\<close>

record csys =
  nclient :: NetworkedClient
  now :: nat
  pcs :: "pc list"
  wire :: "u64 set"
  lost :: nat
  ended :: "Stats res option"

abbreviation cl :: "csys \<Rightarrow> Client" where
  "cl s \<equiv> base (nclient s)"

abbreviation sent :: "csys \<Rightarrow> nat" where
  "sent s \<equiv> unat (numReqsSent (cl s))"

abbreviation limit :: "csys \<Rightarrow> nat" where
  "limit s \<equiv> unat (warmupreqs (cl s)) + unat (maxreqs (cl s))"

definition set_cl :: "Client \<Rightarrow> csys \<Rightarrow> csys" where
  "set_cl c s = s\<lparr>nclient := (nclient s)\<lparr>base := c\<rparr>\<rparr>"

definition goto :: "nat \<Rightarrow> pc \<Rightarrow> csys \<Rightarrow> csys" where
  "goto i p s = s\<lparr>pcs := (pcs s)[i := p]\<rparr>"

definition thread_at :: "csys \<Rightarrow> nat \<Rightarrow> pc \<Rightarrow> bool" where
  "thread_at s i p \<longleftrightarrow> ended s = None \<and> i < length (pcs s) \<and> pcs s ! i = p"

text \<open>The readings of the clock in a section, in order: each later than the one before.\<close>

definition ticks :: "csys \<Rightarrow> u64 list \<Rightarrow> bool" where
  "ticks s ts \<longleftrightarrow> ts \<noteq> [] \<and> sorted_wrt (<) (now s # map unat ts)"

definition tick :: "u64 list \<Rightarrow> csys \<Rightarrow> csys" where
  "tick ts s = s\<lparr>now := unat (last ts)\<rparr>"

definition init_csys :: "NetworkedClient \<Rightarrow> nat \<Rightarrow> csys" where
  "init_csys nc n = \<lparr>nclient = nc, now = 0, pcs = replicate n PTop, wire = {}, lost = 0, ended = None\<rparr>"

section \<open>Steps\<close>

text \<open>What \<open>NetworkedClient::send\<close> of thread \<open>i\<close> leaves behind.\<close>

definition after_send :: "nat \<Rightarrow> u64 \<Rightarrow> bool \<Rightarrow> NetworkedClient \<Rightarrow> csys \<Rightarrow> csys" where
  "after_send i rid ok nc s =
     s\<lparr>nclient := nc,
       pcs := (pcs s)[i := if ok then PTop else PDone],
       wire := (if ok \<and> numReqsSent (cl s) \<noteq> warmupreqs (cl s) + maxreqs (cl s)
                then insert rid (wire s) else wire s),
       lost := (if ok then lost s else Suc (lost s))\<rparr>"

definition after_fini :: "u64 \<Rightarrow> fini res \<Rightarrow> csys \<Rightarrow> csys" where
  "after_fini rid r s =
     (case r of
        Inl f \<Rightarrow> s\<lparr>ended := Some (Inl f)\<rparr>
      | Inr (FiniReturn c) \<Rightarrow> (set_cl c s)\<lparr>wire := wire s - {rid}\<rparr>
      | Inr (FiniExit c st) \<Rightarrow> (set_cl c s)\<lparr>wire := wire s - {rid}, ended := Some (Inr st)\<rparr>)"

inductive cstep :: "sampler \<Rightarrow> csys \<Rightarrow> csys \<Rightarrow> bool" for smp where
  top_done: "thread_at s i PTop \<Longrightarrow> warmupreqs (cl s) + maxreqs (cl s) \<le> numReqsSent (cl s) \<Longrightarrow>
    cstep smp s (goto i PDone s)"
| top_start: "thread_at s i PTop \<Longrightarrow> \<not> warmupreqs (cl s) + maxreqs (cl s) \<le> numReqsSent (cl s) \<Longrightarrow>
    ticks s [t] \<Longrightarrow> cstep smp s (tick [t] (goto i (PStart t) s))"
| start_test: "thread_at s i (PStart t) \<Longrightarrow>
    cstep smp s (goto i (if status (cl s) = INIT then PBar1 t else PQps t) s)"
| barrier1: "ended s = None \<Longrightarrow> pcs s \<noteq> [] \<Longrightarrow> \<forall>p \<in> set (pcs s). \<exists>t. p = PBar1 t \<Longrightarrow>
    cstep smp s (s\<lparr>pcs := map (\<lambda>p. case p of PBar1 t \<Rightarrow> PInit t | _ \<Rightarrow> p) (pcs s)\<rparr>)"
| init_dist: "thread_at s i (PInit t) \<Longrightarrow> ticks s [t1] \<Longrightarrow>
    cstep smp s (tick [t1] (goto i (PBar2 t) (set_cl (startReq_init t1 (cl s)) s)))"
| barrier2: "ended s = None \<Longrightarrow> pcs s \<noteq> [] \<Longrightarrow> \<forall>p \<in> set (pcs s). \<exists>t. p = PBar2 t \<Longrightarrow>
    cstep smp s (s\<lparr>pcs := map (\<lambda>p. case p of PBar2 t \<Rightarrow> PQps t | _ \<Rightarrow> p) (pcs s)\<rparr>)"
| qps: "thread_at s i (PQps t) \<Longrightarrow> ticks s [t1] \<Longrightarrow> startReq_qps t1 (cl s) = Inr c \<Longrightarrow>
    cstep smp s (tick [t1] (goto i (PGen t) (set_cl c s)))"
| qps_fault: "thread_at s i (PQps t) \<Longrightarrow> startReq_qps t1 (cl s) = Inl f \<Longrightarrow>
    cstep smp s (s\<lparr>ended := Some (Inl f)\<rparr>)"
| gen: "thread_at s i (PGen t) \<Longrightarrow> ticks s [ad, re] \<Longrightarrow>
    startReq_gen smp t ad re data len (cl s) = Inr (rid, c) \<Longrightarrow>
    cstep smp s (tick [ad, re] (goto i (PSleep rid) (set_cl c s)))"
| gen_fault: "thread_at s i (PGen t) \<Longrightarrow> startReq_gen smp t ad re data len (cl s) = Inl f \<Longrightarrow>
    cstep smp s (s\<lparr>ended := Some (Inl f)\<rparr>)"
| wake: "thread_at s i (PSleep rid) \<Longrightarrow> ticks s (cur # ws) \<Longrightarrow>
    startReq_sleep rid cur ws (startReq_late rid (cl s)) = Some c \<Longrightarrow>
    cstep smp s (tick (cur # ws) (goto i (PSend rid) (set_cl c s)))"
| send: "thread_at s i (PSend rid) \<Longrightarrow> ticks s [t1, t2] \<Longrightarrow>
    send rid t1 t2 err tx (nclient s) = Some (Inr (ok, out, tx', nc)) \<Longrightarrow>
    cstep smp s (tick [t1, t2] (after_send i rid ok nc s))"
| send_fault: "thread_at s i (PSend rid) \<Longrightarrow> send rid t1 t2 err tx (nclient s) = Some (Inl f) \<Longrightarrow>
    cstep smp s (s\<lparr>ended := Some (Inl f)\<rparr>)"
| complete: "ended s = None \<Longrightarrow> rs_id resp \<in> wire s \<Longrightarrow> ticks s [t1, t2, t3] \<Longrightarrow>
    cstep smp s (tick [t1, t2, t3] (after_fini (rs_id resp) (finiReq resp t1 t2 t3 (cl s)) s))"

section \<open>Invariant\<close>

text \<open>The request a sender holds between its generation and its hand-over to the socket.\<close>

fun held :: "pc \<Rightarrow> u64 option" where
  "held (PSleep rid) = Some rid"
| "held (PSend rid) = Some rid"
| "held _ = None"

definition held_inv :: "csys \<Rightarrow> bool" where
  "held_inv s \<longleftrightarrow>
     (\<forall>i < length (pcs s). \<forall>rid. held (pcs s ! i) = Some rid \<longrightarrow>
        rid \<in> dom (inFlightReqs (cl s)) \<and> rid \<notin> wire s) \<and>
     (\<forall>i < length (pcs s). \<forall>j < length (pcs s). held (pcs s ! i) \<noteq> None \<longrightarrow>
        held (pcs s ! i) = held (pcs s ! j) \<longrightarrow> i = j)"

text \<open>Requests about to be sent or on the wire have arrival times in the past.\<close>

definition due :: "csys \<Rightarrow> u64 \<Rightarrow> bool" where
  "due s rid \<longleftrightarrow> (\<forall>r. inFlightReqs (cl s) rid = Some r \<longrightarrow> unat (rq_genNs r) \<le> now s)"

definition wire_inv :: "csys \<Rightarrow> bool" where
  "wire_inv s \<longleftrightarrow> wire s \<subseteq> dom (inFlightReqs (cl s)) \<and> (\<forall>rid \<in> wire s. due s rid) \<and>
     (\<forall>rid. PSend rid \<in> set (pcs s) \<longrightarrow> due s rid)"

text \<open>
  Requests that were started and not sent: the one a sender holds, and the one it may have dropped
  when it found the limit reached, after which it leaves its loop.
\<close>

definition slack :: "bool \<Rightarrow> pc \<Rightarrow> nat" where
  "slack full p = (if held p \<noteq> None \<or> p = PDone \<or> (full \<and> p = PTop) then 1 else 0)"

definition count_inv :: "csys \<Rightarrow> bool" where
  "count_inv s \<longleftrightarrow> sent s \<le> limit s \<and>
     unat (startedReqs (cl s)) \<le> sent s + sum_list (map (slack (sent s = limit s)) (pcs s)) \<and>
     unat (numReqsCompleted (cl s)) + card (wire s) + lost s = sent s \<and>
     (PDone \<in> set (pcs s) \<longrightarrow> sent s = limit s \<or> 0 < lost s)"

text \<open>No sender misses a barrier: all read \<open>INIT\<close> before any can change it.\<close>

fun early :: "pc \<Rightarrow> bool" where
  "early (PStart t) = True"
| "early (PBar1 t) = True"
| "early p = (p = PTop)"

fun midway :: "pc \<Rightarrow> bool" where
  "midway (PInit t) = True"
| "midway (PBar2 t) = True"
| "midway p = False"

fun late :: "pc \<Rightarrow> bool" where
  "late (PBar1 t) = False"
| "late p = (\<not> midway p)"

definition barrier_inv :: "csys \<Rightarrow> bool" where
  "barrier_inv s \<longleftrightarrow> (status (cl s) = INIT \<longrightarrow> sent s = 0) \<and>
     (status (cl s) = INIT \<and> list_all early (pcs s) \<or>
      list_all midway (pcs s) \<and> (status (cl s) = INIT \<longleftrightarrow> (\<forall>p \<in> set (pcs s). \<exists>t. p = PInit t)) \<or>
      status (cl s) \<noteq> INIT \<and> list_all late (pcs s))"

text \<open>While the process runs; and how it can end.\<close>

definition run_inv :: "csys \<Rightarrow> bool" where
  "run_inv s \<longleftrightarrow> client_inv (cl s) \<and> held_inv s \<and> wire_inv s \<and> count_inv s \<and> barrier_inv s \<and>
     pcs s \<noteq> [] \<and> length (pcs s) < 2 ^ 31"

definition end_ok :: "csys \<Rightarrow> Stats res \<Rightarrow> bool" where
  "end_ok s r \<longleftrightarrow>
     (case r of
        Inr st \<Rightarrow> length (st_bytes st) = 40 * unat (maxreqs (cl s))
      | Inl (Abort m) \<Rightarrow> False
      | Inl (Exit k) \<Rightarrow> False
      | Inl (Throw m) \<Rightarrow> False
      | Inl (Undefined m) \<Rightarrow> m \<notin> {''deleted Request'', ''null dist'', ''vector index''})"

definition csys_inv :: "csys \<Rightarrow> bool" where
  "csys_inv s \<longleftrightarrow> (case ended s of None \<Rightarrow> run_inv s | Some r \<Rightarrow> end_ok s r)"

section \<open>Moving one thread\<close>

lemma set_cl_sel [simp]:
  "cl (set_cl c s) = c" "now (set_cl c s) = now s" "pcs (set_cl c s) = pcs s" "wire (set_cl c s) = wire s"
  "lost (set_cl c s) = lost s" "ended (set_cl c s) = ended s"
  by (simp_all add: set_cl_def)

lemma goto_sel [simp]:
  "nclient (goto i p s) = nclient s" "now (goto i p s) = now s" "pcs (goto i p s) = (pcs s)[i := p]"
  "wire (goto i p s) = wire s" "lost (goto i p s) = lost s" "ended (goto i p s) = ended s"
  by (simp_all add: goto_def)

lemma tick_sel [simp]:
  "nclient (tick ts s) = nclient s" "now (tick ts s) = unat (last ts)" "pcs (tick ts s) = pcs s"
  "wire (tick ts s) = wire s" "lost (tick ts s) = lost s" "ended (tick ts s) = ended s"
  by (simp_all add: tick_def)

lemma ticks_all: "ticks s ts \<Longrightarrow> t \<in> set ts \<Longrightarrow> now s < unat t \<and> unat t \<le> unat (last ts)"
proof -
  assume t: "ticks s ts" "t \<in> set ts"
  then have srt: "sorted_wrt (<) (map unat ts)" and n: "now s < unat t" by (auto simp: ticks_def)
  obtain i where i: "i < length ts" "ts ! i = t" using t(2) by (auto simp: in_set_conv_nth)
  show ?thesis
  proof (cases "i = length ts - 1")
    case True
    then show ?thesis using i n t(1) by (simp add: last_conv_nth ticks_def)
  next
    case False
    then have "unat (ts ! i) < unat (ts ! (length ts - 1))"
      using srt i by (auto simp: sorted_wrt_iff_nth_less)
    then show ?thesis using i n t(1) by (simp add: last_conv_nth ticks_def)
  qed
qed

lemma ticks_now: "ticks s ts \<Longrightarrow> now s < unat (last ts)"
  using ticks_all [of s ts "last ts"] by (simp add: ticks_def)

lemma sum_map_update:
  "i < length xs \<Longrightarrow> sum_list (map f (xs[i := p])) + f (xs ! i) = sum_list (map f xs) + (f p :: nat)"
  by (induction xs arbitrary: i) (auto split: nat.splits)

lemma held_invD:
  "held_inv s \<Longrightarrow> j < length (pcs s) \<Longrightarrow> held (pcs s ! j) = Some rid \<Longrightarrow>
     rid \<in> dom (inFlightReqs (cl s)) \<and> rid \<notin> wire s"
  by (simp add: held_inv_def)

lemma held_inv_inj:
  "held_inv s \<Longrightarrow> j < length (pcs s) \<Longrightarrow> k < length (pcs s) \<Longrightarrow> held (pcs s ! j) = Some rid \<Longrightarrow>
     held (pcs s ! k) = Some rid \<Longrightarrow> j = k"
  unfolding held_inv_def by (metis option.distinct(1))

lemma held_sendD:
  assumes "held_inv s" "PSend rid \<in> set (pcs s)"
  shows "rid \<in> dom (inFlightReqs (cl s))"
  using assms held_invD [OF assms(1)] by (force simp: in_set_conv_nth)

lemma held_inv_move:
  assumes "held_inv s" "dom (inFlightReqs (cl s')) = dom (inFlightReqs (cl s))" "wire s' = wire s"
    and "pcs s' = (pcs s)[i := p]" "i < length (pcs s)" "held p = None \<or> held p = held (pcs s ! i)"
  shows "held_inv s'"
proof -
  have old: "held (pcs s ! j) = held (pcs s' ! j)" if "j < length (pcs s)" "held (pcs s' ! j) \<noteq> None" for j
    using that assms(4-) by (auto simp: nth_list_update split: if_splits)
  have len: "length (pcs s') = length (pcs s)" using assms(4) by simp
  show ?thesis unfolding held_inv_def assms(2,3) len
  proof (intro conjI allI impI)
    fix j rid assume "j < length (pcs s)" "held (pcs s' ! j) = Some rid"
    then show "rid \<in> dom (inFlightReqs (cl s))" "rid \<notin> wire s"
      using old [of j] assms(1) by (auto simp: held_inv_def)
  next
    fix j k assume "j < length (pcs s)" "k < length (pcs s)" "held (pcs s' ! j) \<noteq> None"
      "held (pcs s' ! j) = held (pcs s' ! k)"
    then show "j = k" using old [of j] old [of k] assms(1) by (auto simp: held_inv_def)
  qed
qed

lemma due_mono:
  assumes "due s rid" "now s \<le> now s'"
    and "map_option rq_genNs (inFlightReqs (cl s') rid) = map_option rq_genNs (inFlightReqs (cl s) rid)"
  shows "due s' rid"
  using assms by (cases "inFlightReqs (cl s) rid") (auto simp: due_def)

lemma wire_inv_move:
  assumes inv: "wire_inv s" and w: "wire s' = wire s" and n: "now s \<le> now s'"
    and g: "\<And>rid. map_option rq_genNs (inFlightReqs (cl s') rid) = map_option rq_genNs (inFlightReqs (cl s) rid)"
    and p: "pcs s' = (pcs s)[i := p]" "\<And>rid. p = PSend rid \<Longrightarrow> due s' rid"
  shows "wire_inv s'"
proof -
  have d: "due s rid \<Longrightarrow> due s' rid" for rid by (rule due_mono [OF _ n g])
  have "dom (inFlightReqs (cl s')) = dom (inFlightReqs (cl s))"
    using g by (metis (no_types, lifting) domIff map_option_is_None subsetI subset_antisym)
  moreover have "PSend rid \<in> set (pcs s) \<or> p = PSend rid" if "PSend rid \<in> set (pcs s')" for rid
    using that p(1) set_update_subset_insert [of "pcs s" i p] by auto
  ultimately show ?thesis using inv w p(2) d unfolding wire_inv_def by metis
qed

lemma count_inv_move:
  assumes inv: "count_inv s" and c: "numReqsSent (cl s') = numReqsSent (cl s)" "warmupreqs (cl s') = warmupreqs (cl s)"
    "maxreqs (cl s') = maxreqs (cl s)" "startedReqs (cl s') = startedReqs (cl s)"
    "numReqsCompleted (cl s') = numReqsCompleted (cl s)" "wire s' = wire s" "lost s' = lost s"
    and p: "pcs s' = (pcs s)[i := p]" "i < length (pcs s)"
      "slack (sent s = limit s) (pcs s ! i) \<le> slack (sent s = limit s) p"
      "p = PDone \<Longrightarrow> sent s = limit s"
  shows "count_inv s'"
proof -
  have "sum_list (map (slack (sent s = limit s)) (pcs s)) \<le> sum_list (map (slack (sent s = limit s)) (pcs s'))"
    using sum_map_update [OF p(2), of "slack (sent s = limit s)" p] p(1,3) by simp
  moreover have "PDone \<in> set (pcs s) \<or> p = PDone" if "PDone \<in> set (pcs s')"
    using that p(1) set_update_subset_insert [of "pcs s" i p] by auto
  ultimately show ?thesis using inv c p(4) by (auto simp: count_inv_def)
qed

text \<open>A move between two places that hold no request and count no slack.\<close>

definition quiet :: "pc \<Rightarrow> bool" where
  "quiet p \<longleftrightarrow> held p = None \<and> p \<noteq> PDone"

definition same_counts :: "Client \<Rightarrow> Client \<Rightarrow> bool" where
  "same_counts c c' \<longleftrightarrow> numReqsSent c' = numReqsSent c \<and> warmupreqs c' = warmupreqs c \<and>
     maxreqs c' = maxreqs c \<and> startedReqs c' = startedReqs c \<and>
     numReqsCompleted c' = numReqsCompleted c \<and> inFlightReqs c' = inFlightReqs c"

lemma quiet_move:
  assumes inv: "run_inv s" and at: "i < length (pcs s)" "quiet (pcs s ! i)" "quiet p"
      "slack (sent s = limit s) (pcs s ! i) = 0"
    and s': "same_counts (cl s) (cl s')" "pcs s' = (pcs s)[i := p]" "wire s' = wire s" "lost s' = lost s"
      "now s \<le> now s'"
    and keep: "client_inv (cl s')" "barrier_inv s'"
  shows "run_inv s'"
proof -
  have "held_inv s'"
    by (rule held_inv_move [of s _ i p]) (use inv s' at in \<open>auto simp: run_inv_def same_counts_def quiet_def\<close>)
  moreover have "wire_inv s'"
    by (rule wire_inv_move [of s _ i p]) (use inv s' at in \<open>auto simp: run_inv_def same_counts_def quiet_def\<close>)
  moreover have "count_inv s'"
    by (rule count_inv_move [of s _ i p]) (use inv s' at in \<open>auto simp: run_inv_def same_counts_def quiet_def\<close>)
  ultimately show ?thesis using keep inv s' by (simp add: run_inv_def)
qed

text \<open>All threads pass a barrier.\<close>

lemma barrier_move:
  assumes inv: "run_inv s" and q: "\<And>p. p \<in> set (pcs s) \<Longrightarrow> quiet p \<and> p \<noteq> PTop \<and> quiet (f p) \<and> f p \<noteq> PTop"
    and s': "s' = s\<lparr>pcs := map f (pcs s)\<rparr>" and keep: "barrier_inv s'"
  shows "run_inv s'"
proof -
  have none: "held (pcs s' ! i) = None" if "i < length (pcs s')" for i
    using that q s' by (simp add: quiet_def)
  have nset: "held p = None \<and> p \<noteq> PDone" if "p \<in> set (pcs s')" for p
    using that q s' by (auto simp: quiet_def)
  have "map (slack b \<circ> f) (pcs s) = map (slack b) (pcs s)" for b
    using q by (auto simp: slack_def quiet_def)
  then have sl: "sum_list (map (slack b \<circ> f) (pcs s)) = sum_list (map (slack b) (pcs s))" for b
    by (rule arg_cong)
  have "PDone \<notin> f ` set (pcs s)" using nset s' by auto
  then have "count_inv s'" using inv s' by (simp add: run_inv_def count_inv_def sl)
  moreover have "held_inv s'" using none by (auto simp: held_inv_def)
  moreover have "PSend rid \<notin> set (pcs s')" for rid using nset [of "PSend rid"] by auto
  then have "wire_inv s'" using inv s' by (simp add: run_inv_def wire_inv_def due_def)
  ultimately show ?thesis using inv keep s' by (simp add: run_inv_def)
qed

section \<open>Every step keeps the invariant\<close>

lemma thread_atD: "thread_at s i p \<Longrightarrow> ended s = None \<and> i < length (pcs s) \<and> pcs s ! i = p \<and> p \<in> set (pcs s)"
  by (auto simp: thread_at_def)

lemma thread_at_running: "thread_at s i p \<Longrightarrow> ended s = None"
  by (simp add: thread_at_def)

lemma barrier_late:
  assumes "barrier_inv s" "p \<in> set (pcs s)" "\<not> early p" "\<not> midway p"
  shows "status (cl s) \<noteq> INIT \<and> list_all late (pcs s)"
  using assms by (auto simp: barrier_inv_def list_all_iff)

lemma barrier_late_move:
  assumes "status (cl s) \<noteq> INIT \<and> list_all late (pcs s)" "status (cl s') \<noteq> INIT"
    "pcs s' = (pcs s)[i := p]" "late p"
  shows "barrier_inv s'"
  using assms set_update_subset_insert [of "pcs s" i p] by (auto simp: barrier_inv_def list_all_iff)

lemma barrier_same:
  assumes "barrier_inv s" "p \<in> set (pcs s)" "early p" "late p" "status (cl s') = status (cl s)" "sent s' = sent s"
    and "pcs s' = (pcs s)[i := p']" "late p'" "status (cl s) = INIT \<Longrightarrow> early p'"
  shows "barrier_inv s'"
proof -
  have "\<not> midway p" using assms(4) by (cases p) auto
  then have "status (cl s) = INIT \<and> list_all early (pcs s) \<or> status (cl s) \<noteq> INIT \<and> list_all late (pcs s)"
    using assms(1,2) by (auto simp: barrier_inv_def list_all_iff)
  then show ?thesis using assms(1,5-) set_update_subset_insert [of "pcs s" i p']
    by (auto simp: barrier_inv_def list_all_iff)
qed

lemma step_top_done:
  assumes inv: "run_inv s" and at: "thread_at s i PTop"
    and full: "warmupreqs (cl s) + maxreqs (cl s) \<le> numReqsSent (cl s)"
  shows "run_inv (goto i PDone s)"
proof -
  note a = thread_atD [OF at]
  have "sent s = limit s"
    using full inv cfg_sum [of "cl s"] by (simp add: run_inv_def count_inv_def client_inv_def word_le_nat_alt)
  have "count_inv (goto i PDone s)"
    by (rule count_inv_move [of s _ i PDone]) (use inv a \<open>sent s = limit s\<close> in \<open>auto simp: run_inv_def slack_def\<close>)
  moreover have "held_inv (goto i PDone s)"
    by (rule held_inv_move [of s _ i PDone]) (use inv a in \<open>auto simp: run_inv_def\<close>)
  moreover have "wire_inv (goto i PDone s)"
    by (rule wire_inv_move [of s _ i PDone]) (use inv a in \<open>auto simp: run_inv_def\<close>)
  moreover
  have "status (cl s) \<noteq> INIT"
    using \<open>sent s = limit s\<close> inv by (auto simp: run_inv_def barrier_inv_def client_inv_def client_cfg_def)
  then have "barrier_inv (goto i PDone s)"
    by (intro barrier_same [of s PTop "goto i PDone s" i PDone]) (use inv a in \<open>auto simp: run_inv_def\<close>)
  ultimately show ?thesis using inv by (simp add: run_inv_def)
qed

lemma step_top_start:
  assumes inv: "run_inv s" and at: "thread_at s i PTop" and tk: "ticks s [t]"
    and nf: "\<not> warmupreqs (cl s) + maxreqs (cl s) \<le> numReqsSent (cl s)"
  shows "run_inv (tick [t] (goto i (PStart t) s))"
proof -
  note a = thread_atD [OF at]
  have "sent s \<noteq> limit s"
    using nf inv cfg_sum [of "cl s"] by (simp add: run_inv_def client_inv_def word_le_nat_alt)
  moreover have "barrier_inv (tick [t] (goto i (PStart t) s))"
    by (rule barrier_same [of s PTop _ i "PStart t"]) (use inv a in \<open>auto simp: run_inv_def\<close>)
  ultimately show ?thesis
    by (intro quiet_move [of s i "PStart t" "tick [t] (goto i (PStart t) s)"])
       (use inv a ticks_now [OF tk] in \<open>auto simp: quiet_def slack_def same_counts_def run_inv_def\<close>)
qed

lemma step_start_test:
  assumes inv: "run_inv s" and at: "thread_at s i (PStart t)"
  shows "run_inv (goto i (if status (cl s) = INIT then PBar1 t else PQps t) s)"
    (is "run_inv ?s'")
proof -
  note a = thread_atD [OF at]
  have "barrier_inv ?s'"
  proof (cases "status (cl s) = INIT")
    case True
    then have "list_all early (pcs s)" using inv a by (auto simp: run_inv_def barrier_inv_def list_all_iff)
    then show ?thesis using True inv set_update_subset_insert [of "pcs s" i "PBar1 t"]
      by (auto simp: barrier_inv_def list_all_iff run_inv_def)
  next
    case False
    then have "list_all late (pcs s)" using inv a by (auto simp: run_inv_def barrier_inv_def list_all_iff)
    then show ?thesis using False by (intro barrier_late_move [of s _ i "PQps t"]) auto
  qed
  then show ?thesis
    by (intro quiet_move [of s i "if status (cl s) = INIT then PBar1 t else PQps t" ?s'])
       (use inv a in \<open>auto simp: quiet_def slack_def same_counts_def run_inv_def\<close>)
qed

lemma step_barrier1:
  assumes inv: "run_inv s" and all: "\<forall>p \<in> set (pcs s). \<exists>t. p = PBar1 t"
  shows "run_inv (s\<lparr>pcs := map (\<lambda>p. case p of PBar1 t \<Rightarrow> PInit t | _ \<Rightarrow> p) (pcs s)\<rparr>)"
proof -
  obtain p where "p \<in> set (pcs s)" using inv by (cases "pcs s") (auto simp: run_inv_def)
  with all have "status (cl s) = INIT" "sent s = 0" using inv
    by (fastforce simp: run_inv_def barrier_inv_def list_all_iff)+
  then have "barrier_inv (s\<lparr>pcs := map (\<lambda>p. case p of PBar1 t \<Rightarrow> PInit t | _ \<Rightarrow> p) (pcs s)\<rparr>)"
    using all by (fastforce simp: barrier_inv_def list_all_iff)
  then show ?thesis
    by (intro barrier_move [OF inv _ refl]) (use all in \<open>fastforce simp: quiet_def\<close>)+
qed

lemma step_barrier2:
  assumes inv: "run_inv s" and all: "\<forall>p \<in> set (pcs s). \<exists>t. p = PBar2 t"
  shows "run_inv (s\<lparr>pcs := map (\<lambda>p. case p of PBar2 t \<Rightarrow> PQps t | _ \<Rightarrow> p) (pcs s)\<rparr>)"
proof -
  obtain p where "p \<in> set (pcs s)" using inv by (cases "pcs s") (auto simp: run_inv_def)
  with all have "status (cl s) \<noteq> INIT" using inv
    by (fastforce simp: run_inv_def barrier_inv_def list_all_iff)
  then have "barrier_inv (s\<lparr>pcs := map (\<lambda>p. case p of PBar2 t \<Rightarrow> PQps t | _ \<Rightarrow> p) (pcs s)\<rparr>)"
    using all by (fastforce simp: barrier_inv_def list_all_iff)
  then show ?thesis
    by (intro barrier_move [OF inv _ refl]) (use all in \<open>fastforce simp: quiet_def\<close>)+
qed

lemma step_init:
  assumes inv: "run_inv s" and at: "thread_at s i (PInit t)" and tk: "ticks s [t1]"
  shows "run_inv (tick [t1] (goto i (PBar2 t) (set_cl (startReq_init t1 (cl s)) s)))" (is "run_inv ?s'")
proof -
  note a = thread_atD [OF at]
  have mid: "list_all midway (pcs s)" using inv a by (auto simp: run_inv_def barrier_inv_def list_all_iff)
  have c: "client_inv (startReq_init t1 (cl s)) \<and> status (startReq_init t1 (cl s)) \<noteq> INIT"
  proof (cases "status (cl s) = INIT")
    case True
    then show ?thesis using inv startReq_init_inv [of "cl s" t1] by (simp add: run_inv_def)
  next
    case False
    then have "dist (cl s) \<noteq> None" using inv by (cases "status (cl s)") (auto simp: run_inv_def client_inv_defs)
    then have "startReq_init t1 (cl s) = cl s" by (auto simp: startReq_init_def)
    then show ?thesis using False inv by (simp add: run_inv_def)
  qed
  have "PBar2 t \<in> set (pcs ?s')" using a by (simp add: set_update_memI)
  then have "\<not> (\<forall>p \<in> set (pcs ?s'). \<exists>t. p = PInit t)" by auto
  then have "barrier_inv ?s'"
    using c mid set_update_subset_insert [of "pcs s" i "PBar2 t"]
    by (auto simp: barrier_inv_def list_all_iff)
  then show ?thesis
    by (intro quiet_move [of s i "PBar2 t" ?s'])
       (use inv a c ticks_now [OF tk] in \<open>auto simp: quiet_def slack_def same_counts_def startReq_init_def\<close>)
qed

lemma step_qps:
  assumes inv: "run_inv s" and at: "thread_at s i (PQps t)" and tk: "ticks s [t1]"
    and q: "startReq_qps t1 (cl s) = Inr c"
  shows "run_inv (tick [t1] (goto i (PGen t) (set_cl c s)))"
proof -
  note a = thread_atD [OF at]
  have late: "status (cl s) \<noteq> INIT \<and> list_all late (pcs s)"
    by (rule barrier_late [of s "PQps t"]) (use inv a in \<open>auto simp: run_inv_def\<close>)
  have c: "client_inv c" "status c = status (cl s)"
    using startReq_qps_inv [OF _ q] inv by (auto simp: run_inv_def)
  have "same_counts (cl s) c" using startReq_qps_frame [OF q] by (auto simp: same_counts_def)
  moreover have "barrier_inv (tick [t1] (goto i (PGen t) (set_cl c s)))"
    by (rule barrier_late_move [OF late]) (use c late in auto)
  ultimately show ?thesis
    by (intro quiet_move [of s i "PGen t" "tick [t1] (goto i (PGen t) (set_cl c s))"])
       (use inv a c ticks_now [OF tk] in \<open>auto simp: quiet_def slack_def\<close>)
qed

lemma slack_le: "slack f p \<le> 1"
  by (simp add: slack_def)

lemma sum_slack: "sum_list (map (slack f) ps) \<le> length ps"
  by (induction ps) (auto intro: add_mono [of _ "Suc 0", simplified] simp: slack_def)

lemma started_bound: "run_inv s \<Longrightarrow> unat (startedReqs (cl s)) \<le> limit s + length (pcs s)"
  using sum_slack [of "sent s = limit s" "pcs s"] by (auto simp: run_inv_def count_inv_def)

lemma step_gen:
  assumes inv: "run_inv s" and at: "thread_at s i (PGen t)" and tk: "ticks s [ad, re]"
    and g: "startReq_gen smp t ad re data len (cl s) = Inr (rid, c)"
  shows "run_inv (tick [ad, re] (goto i (PSleep rid) (set_cl c s)))" (is "run_inv ?s'")
proof -
  note a = thread_atD [OF at]
  have late: "status (cl s) \<noteq> INIT \<and> list_all late (pcs s)"
    by (rule barrier_late [of s "PGen t"]) (use inv a in \<open>auto simp: run_inv_def\<close>)
  have lim: "limit s < 2 ^ 31" "length (pcs s) < 2 ^ 31"
    using inv by (auto simp: run_inv_def client_inv_def client_cfg_def)
  then have st: "unat (startedReqs (cl s)) + 1 < 2 ^ 64" using started_bound [OF inv] by simp
  obtain d' r g' where rid: "rid = startedReqs (cl s)" and c: "c = (cl s)\<lparr>startedReqs := rid + 1, dist := Some d',
       inFlightReqs := (inFlightReqs (cl s))(rid \<mapsto> r), gen_requests := gen_requests (cl s) + 1,
       timely_gen_requests := timely_gen_requests (cl s) + (if t < g' then 1 else 0),
       gen_req_ns := gen_req_ns (cl s) + (re - ad)\<rparr>"
    by (rule startReq_gen_spec [OF g])
  have ci: "client_inv c" by (rule startReq_gen_inv [OF _ _ st g]) (use inv late in \<open>auto simp: run_inv_def\<close>)
  have fresh: "rid \<notin> dom (inFlightReqs (cl s))"
    using inv by (auto simp: run_inv_def client_inv_def inflight_inv_def rid)
  have hi: "held_inv s" and wi: "wire_inv s" using inv by (simp_all add: run_inv_def)
  have old: "held (pcs s ! j) = held (pcs ?s' ! j)" "held (pcs s ! j) \<noteq> Some rid" if "j < length (pcs s)" "j \<noteq> i" for j
    using that held_invD [OF hi, of j rid] fresh by auto
  have new: "held (pcs ?s' ! i) = Some rid" using a by simp
  have "held_inv ?s'" unfolding held_inv_def
  proof (intro conjI allI impI)
    fix j x assume j: "j < length (pcs ?s')" "held (pcs ?s' ! j) = Some x"
    have "x = rid \<or> x \<in> dom (inFlightReqs (cl s)) \<and> x \<notin> wire s"
    proof (cases "j = i")
      case False
      then have "held (pcs s ! j) = Some x" using j by simp
      from held_invD [OF hi _ this] j show ?thesis by simp
    qed (use j new in simp)
    then show "x \<in> dom (inFlightReqs (cl ?s'))" "x \<notin> wire ?s'"
      using wi fresh by (auto simp: wire_inv_def c)
  next
    fix j k assume jk: "j < length (pcs ?s')" "k < length (pcs ?s')" "held (pcs ?s' ! j) \<noteq> None"
      "held (pcs ?s' ! j) = held (pcs ?s' ! k)"
    show "j = k"
    proof (cases "j = i \<or> k = i")
      case True
      then show ?thesis using jk new old(2) [of j] old(2) [of k] old(1) [of j] old(1) [of k]
        by (metis goto_sel(3) length_list_update set_cl_sel(3) tick_sel(3))
    next
      case False
      then obtain x where "held (pcs s ! j) = Some x" "held (pcs s ! k) = Some x"
        using jk by (auto simp: nth_list_update)
      then show ?thesis using held_inv_inj [OF hi, of j k x] jk(1,2) by simp
    qed
  qed
  moreover
  have "due s x \<Longrightarrow> x \<noteq> rid \<Longrightarrow> due ?s' x" for x
    using ticks_now [OF tk] by (auto simp: due_def c intro: order_trans [OF _ less_imp_le])
  then have d: "due s x \<Longrightarrow> x \<in> dom (inFlightReqs (cl s)) \<Longrightarrow> due ?s' x" for x using fresh by metis
  have "wire_inv ?s'" unfolding wire_inv_def
  proof (intro conjI ballI allI impI)
    show "wire ?s' \<subseteq> dom (inFlightReqs (cl ?s'))" using wi by (auto simp: wire_inv_def c)
  next
    fix x assume "x \<in> wire ?s'"
    then show "due ?s' x" using wi by (intro d) (auto simp: wire_inv_def)
  next
    fix x assume "PSend x \<in> set (pcs ?s')"
    then have "PSend x \<in> set (pcs s)"
      using set_update_subset_insert [of "pcs s" i "PSleep rid"] by auto
    then show "due ?s' x" using wi held_sendD [OF hi] by (intro d) (auto simp: wire_inv_def)
  qed
  moreover have "count_inv ?s'"
  proof -
    have "sum_list (map (slack f) ((pcs s)[i := PSleep rid])) = sum_list (map (slack f) (pcs s)) + 1" for f
      using sum_map_update [of i "pcs s" "slack f" "PSleep rid"] a by (simp add: slack_def)
    moreover have "unat (startedReqs (cl s) + 1) = unat (startedReqs (cl s)) + 1"
      using st by (simp add: unat_word_ariths)
    moreover have "PDone \<in> set ((pcs s)[i := PSleep rid]) \<Longrightarrow> PDone \<in> set (pcs s)"
      using set_update_subset_insert [of "pcs s" i "PSleep rid"] by auto
    ultimately show ?thesis using inv by (auto simp: run_inv_def count_inv_def c rid)
  qed
  moreover have "barrier_inv ?s'" by (rule barrier_late_move [OF late]) (use late c in auto)
  ultimately show ?thesis using inv ci by (simp add: run_inv_def)
qed

lemma startReq_sleep_due:
  assumes "startReq_sleep rid cur ws c = Some c'" "inFlightReqs c rid = Some r"
  shows "\<exists>t \<in> set (cur # ws). rq_genNs r \<le> t"
proof (cases "cur < rq_genNs r")
  case True
  with assms obtain ts where "sleepUntil (max (rq_genNs r) (cur + minSleepNs c)) ws = Some ts"
    by (auto simp: startReq_sleep_def)
  from sleepUntil_reaches [OF this] have "length ts < length ws" "rq_genNs r \<le> ws ! length ts" by auto
  then show ?thesis by (metis nth_mem list.set_intros(2))
qed auto

lemma step_wake:
  assumes inv: "run_inv s" and at: "thread_at s i (PSleep rid)" and tk: "ticks s (cur # ws)"
    and w: "startReq_sleep rid cur ws (startReq_late rid (cl s)) = Some c"
  shows "run_inv (tick (cur # ws) (goto i (PSend rid) (set_cl c s)))" (is "run_inv ?s'")
proof -
  note a = thread_atD [OF at]
  have late: "status (cl s) \<noteq> INIT \<and> list_all late (pcs s)"
    by (rule barrier_late [of s "PSleep rid"]) (use inv a in \<open>auto simp: run_inv_def\<close>)
  obtain n where c: "c = (startReq_late rid (cl s))\<lparr>total_sleep_ns := n\<rparr>"
    using startReq_sleep_frame [OF w] by blast
  have fl: "map_option rq_genNs (inFlightReqs c x) = map_option rq_genNs (inFlightReqs (cl s) x)" for x
    by (cases "inFlightReqs (cl s) x") (auto simp: c startReq_late_def upd_req_def)
  have "due ?s' rid"
  proof -
    { fix r assume r: "inFlightReqs c rid = Some r"
      then have "inFlightReqs (startReq_late rid (cl s)) rid = Some r" by (simp add: c)
      from startReq_sleep_due [OF w this] obtain t where "t \<in> set (cur # ws)" "rq_genNs r \<le> t" by blast
      then have "unat (rq_genNs r) \<le> now ?s'"
        using ticks_all [OF tk, of t] by (simp add: word_le_nat_alt) }
    then show ?thesis by (simp add: due_def)
  qed
  then have "wire_inv ?s'"
    by (intro wire_inv_move [of s ?s' i "PSend rid"]) (use inv fl ticks_now [OF tk] in \<open>auto simp: run_inv_def\<close>)
  moreover have "held_inv ?s'"
    by (rule held_inv_move [of s _ i "PSend rid"])
       (use inv a in \<open>auto simp: run_inv_def c startReq_late_def\<close>)
  moreover have "count_inv ?s'"
    by (rule count_inv_move [of s _ i "PSend rid"])
       (use inv a in \<open>auto simp: run_inv_def c startReq_late_def slack_def\<close>)
  moreover have "barrier_inv ?s'"
    by (rule barrier_late_move [OF late]) (use late c in \<open>auto simp: startReq_late_def\<close>)
  moreover have "client_inv c"
    using inv startReq_late_inv by (simp add: c total_sleep_inv run_inv_def)
  ultimately show ?thesis using inv by (simp add: run_inv_def)
qed

lemma after_send_sel [simp]:
  "nclient (after_send i rid ok nc s) = nc" "now (after_send i rid ok nc s) = now s"
  "ended (after_send i rid ok nc s) = ended s"
  by (simp_all add: after_send_def)

text \<open>The three outcomes of \<open>send\<close>: nothing sent at the limit, sent, failed.\<close>

lemma send_full_ok:
  assumes "send rid t1 t2 err tx nc = Some (Inr (ok, out, tx', nc'))"
    and "numReqsSent (base nc) = warmupreqs (base nc) + maxreqs (base nc)"
  shows "ok"
proof -
  obtain r where "send_locked (stamped t1 t2 r) err tx
      (nc\<lparr>base := upd_req rid (stamped t1 t2) (base nc)\<rparr>) = Some (Inr (ok, out, tx', nc'))"
    by (rule send_decompose [OF assms(1)])
  then show ?thesis using assms(2) by (simp add: send_locked_def Let_def)
qed

lemma sent_full_iff:
  assumes "run_inv s"
  shows "numReqsSent (cl s) = warmupreqs (cl s) + maxreqs (cl s) \<longleftrightarrow> sent s = limit s"
  using assms cfg_sum [of "cl s"] by (simp add: run_inv_def client_inv_def unat_eq_iff_word)

lemma send_held:
  assumes hi: "held_inv s" and a: "i < length (pcs s)" "pcs s ! i = PSend rid" and p: "held p = None"
    and s': "pcs s' = (pcs s)[i := p]" "dom (inFlightReqs (cl s')) = dom (inFlightReqs (cl s))"
      "wire s' \<subseteq> insert rid (wire s)"
  shows "held_inv s'"
proof -
  have old: "j \<noteq> i" "held (pcs s ! j) = held (pcs s' ! j)" if "j < length (pcs s)" "held (pcs s' ! j) \<noteq> None" for j
    using that a p s'(1) by (auto simp: nth_list_update split: if_splits)
  have nr: "held (pcs s ! j) \<noteq> Some rid" if "j < length (pcs s)" "j \<noteq> i" for j
  proof
    assume "held (pcs s ! j) = Some rid"
    then have "held (pcs s ! j) = held (pcs s ! i)" "held (pcs s ! j) \<noteq> None" using a(2) by auto
    then show False using hi that a(1) by (auto simp: held_inv_def)
  qed
  have len: "length (pcs s') = length (pcs s)" using s'(1) by simp
  show ?thesis unfolding held_inv_def s'(2) len
  proof (intro conjI allI impI)
    fix j x assume j: "j < length (pcs s)" "held (pcs s' ! j) = Some x"
    then have "j \<noteq> i" "held (pcs s ! j) = Some x" using old [of j] by auto
    then show "x \<in> dom (inFlightReqs (cl s))" "x \<notin> wire s'"
      using nr [of j] hi j s'(3) by (auto simp: held_inv_def)
  next
    fix j k assume "j < length (pcs s)" "k < length (pcs s)" "held (pcs s' ! j) \<noteq> None"
      "held (pcs s' ! j) = held (pcs s' ! k)"
    then show "j = k" using old [of j] old [of k] hi by (auto simp: held_inv_def)
  qed
qed

lemma slack_full: "slack f p \<le> slack True p"
  by (simp add: slack_def)

lemma sum_slack_full: "sum_list (map (slack f) ps) \<le> sum_list (map (slack True) ps)"
  by (induction ps) (auto intro: add_mono slack_full)

lemma send_count:
  assumes inv: "run_inv s" and a: "i < length (pcs s)" "pcs s ! i = PSend rid"
    and s': "pcs s' = (pcs s)[i := if ok then PTop else PDone]"
      "wire s' = (if ok \<and> \<not> full then insert rid (wire s) else wire s)"
      "lost s' = (if ok then lost s else Suc (lost s))"
    and c: "startedReqs (cl s') = startedReqs (cl s)" "limit s' = limit s"
      "numReqsCompleted (cl s') = numReqsCompleted (cl s)" "sent s' = (if full then sent s else sent s + 1)"
    and full: "full \<longleftrightarrow> sent s = limit s" "full \<Longrightarrow> ok"
  shows "count_inv s'"
proof -
  have ci: "count_inv s" and hi: "held_inv s" and wi: "wire_inv s" and fin: "finite (dom (inFlightReqs (cl s)))"
    using inv by (simp_all add: run_inv_def client_inv_def inflight_inv_def)
  have rid: "rid \<notin> wire s" using hi a by (auto simp: held_inv_def)
  have finw: "finite (wire s)" using wi fin by (auto simp: wire_inv_def intro: finite_subset)
  let ?p = "if ok then PTop else PDone" and ?b' = "sent s' = limit s'" and ?b = "sent s = limit s"
  have upd: "sum_list (map (slack f) (pcs s')) + 1 = sum_list (map (slack f) (pcs s)) + slack f ?p" for f
    using sum_map_update [OF a(1), of "slack f" ?p] s'(1) a(2) by (simp add: slack_def)
  have mono: "sum_list (map (slack ?b) (pcs s)) \<le> sum_list (map (slack ?b') (pcs s))"
    using sum_slack_full [of ?b "pcs s"] c(2,4) ci full by (cases ?b') (auto simp: count_inv_def)
  have "unat (startedReqs (cl s')) \<le> sent s' + sum_list (map (slack ?b') (pcs s'))"
  proof (cases full)
    case True
    then have "slack ?b' ?p = 1" using full c by (simp add: slack_def)
    then show ?thesis using upd [of ?b'] mono ci True c by (simp add: count_inv_def)
  next
    case False
    then show ?thesis using upd [of ?b'] mono ci c by (simp add: count_inv_def)
  qed
  moreover have "unat (numReqsCompleted (cl s')) + card (wire s') + lost s' = sent s'"
    using ci c s'(2,3) full(2) rid finw by (auto simp: count_inv_def)
  moreover have "PDone \<in> set (pcs s') \<Longrightarrow> sent s' = limit s' \<or> 0 < lost s'"
    using ci c s' set_update_subset_insert [of "pcs s" i ?p] full by (auto simp: count_inv_def split: if_splits)
  moreover have "sent s' \<le> limit s'" using ci c full by (auto simp: count_inv_def)
  ultimately show ?thesis by (simp add: count_inv_def)
qed

lemma step_send:
  assumes inv: "run_inv s" and at: "thread_at s i (PSend rid)" and tk: "ticks s [t1, t2]"
    and snd: "send rid t1 t2 err tx (nclient s) = Some (Inr (ok, out, tx', nc))"
  shows "run_inv (tick [t1, t2] (after_send i rid ok nc s))" (is "run_inv ?s'")
proof -
  note a = thread_atD [OF at]
  define full where "full \<longleftrightarrow> numReqsSent (cl s) = warmupreqs (cl s) + maxreqs (cl s)"
  have full: "full \<longleftrightarrow> sent s = limit s" "full \<Longrightarrow> ok"
    using sent_full_iff [OF inv] send_full_ok [OF snd] by (auto simp: full_def)
  have late: "status (cl s) \<noteq> INIT \<and> list_all late (pcs s)"
    by (rule barrier_late [of s "PSend rid"]) (use inv a in \<open>auto simp: run_inv_def\<close>)
  obtain n k where b: "base nc = (upd_req rid (stamped t1 t2) (cl s))\<lparr>numReqsSent := n, sent_requests := k\<rparr>"
    using send_counts(2) [OF snd] by blast
  have sel: "cl ?s' = base nc" "wire ?s' = (if ok \<and> \<not> full then insert rid (wire s) else wire s)"
    "pcs ?s' = (pcs s)[i := if ok then PTop else PDone]" "lost ?s' = (if ok then lost s else Suc (lost s))"
    by (simp_all add: after_send_def full_def)
  have lim: "sent s < limit s" if "\<not> full" using that full inv by (simp add: run_inv_def count_inv_def)
  have "unat (numReqsSent (cl s) + 1) = sent s + 1" if "\<not> full"
    using lim [OF that] cfg_sum [of "cl s"] inv
    by (intro unat_plus_one [of _ "warmupreqs (cl s) + maxreqs (cl s)"]) (simp add: run_inv_def client_inv_def)
  then have snt: "sent ?s' = (if full then sent s else sent s + 1)"
    using send_counts(1) [OF snd] by (simp add: sel full_def)
  have fl: "map_option rq_genNs (inFlightReqs (cl ?s') x) = map_option rq_genNs (inFlightReqs (cl s) x)" for x
    by (cases "inFlightReqs (cl s) x") (auto simp: sel b stamped_def)
  have wi: "wire_inv s" using inv by (simp add: run_inv_def)
  have due: "due s x \<Longrightarrow> due ?s' x" for x
    by (rule due_mono [OF _ _ fl]) (use ticks_now [OF tk] in auto)
  have rid: "rid \<in> dom (inFlightReqs (cl s))" "due s rid"
    using inv a by (auto simp: run_inv_def held_inv_def wire_inv_def)
  have dm: "dom (inFlightReqs (cl ?s')) = dom (inFlightReqs (cl s))" by (simp add: sel b)
  have "PSend x \<in> set (pcs s)" if "PSend x \<in> set (pcs ?s')" for x
    using that set_update_subset_insert [of "pcs s" i "if ok then PTop else PDone"] unfolding sel
    by (auto split: if_splits)
  then have "wire_inv ?s'"
    using wi due rid dm unfolding wire_inv_def sel(2) by (auto split: if_splits)
  moreover have "held_inv ?s'"
    by (rule send_held [of s i rid "if ok then PTop else PDone"])
       (use inv a dm sel in \<open>auto simp: run_inv_def\<close>)
  moreover have "count_inv ?s'"
    by (rule send_count [OF inv _ _ sel(3,2,4) _ _ _ snt full]) (use a in \<open>auto simp: sel b\<close>)
  moreover have "barrier_inv ?s'"
    by (rule barrier_late_move [OF late _ sel(3)]) (use late b in \<open>auto simp: sel\<close>)
  moreover have "client_inv (cl ?s')"
    using send_client_inv [OF _ snd] inv by (simp add: sel run_inv_def)
  ultimately show ?thesis using inv by (simp add: run_inv_def after_send_def)
qed

text \<open>Completion of a request leaves the counters of the senders alone.\<close>

definition fini_same :: "Client \<Rightarrow> Client \<Rightarrow> bool" where
  "fini_same c c' \<longleftrightarrow> numReqsSent c' = numReqsSent c \<and> startedReqs c' = startedReqs c \<and>
     warmupreqs c' = warmupreqs c \<and> maxreqs c' = maxreqs c"

lemma fini_same_trans: "fini_same a b \<Longrightarrow> fini_same b c \<Longrightarrow> fini_same a c"
  by (simp add: fini_same_def)

lemma finiReq_end_same:
  "finiReq_end t2 t3 c = Inr r \<Longrightarrow> (case r of FiniReturn c' \<Rightarrow> fini_same c c' | FiniExit c' st \<Rightarrow> fini_same c c')"
  by (auto simp: finiReq_end_def Let_def fini_same_def startRoi_unlocked_def dumpStats_def split: if_splits)

lemma finiReq_same:
  assumes "finiReq resp t1 t2 t3 c = Inr r"
  shows "case r of FiniReturn c' \<Rightarrow> fini_same c c' | FiniExit c' st \<Rightarrow> fini_same c c'"
proof -
  obtain req where e: "finiReq_end t2 t3 (fini_state req resp t1 c) = Inr r"
    using assms by (auto simp: finiReq_def fini_state_def split: option.splits if_splits)
  have "fini_same c (fini_state req resp t1 c)" by (simp add: fini_same_def)
  with finiReq_end_same [OF e] show ?thesis by (cases r) (auto intro: fini_same_trans)
qed

text \<open>The outcome of a completion in terms of the client alone.\<close>

lemma finiReq_outcome:
  assumes inv: "client_inv c" and found: "inFlightReqs c (rs_id resp) = Some req" and time: "rq_genNs req < t1"
  shows "(\<exists>c'. finiReq resp t1 t2 t3 c = Inr (FiniReturn c') \<and> client_inv c' \<and> status c' \<noteq> INIT \<and>
      fini_same c c' \<and> numReqsCompleted c' = numReqsCompleted c + 1 \<and>
      inFlightReqs c' = (inFlightReqs c)(rs_id resp := None)) \<or>
    (\<exists>c' st. finiReq resp t1 t2 t3 c = Inr (FiniExit c' st) \<and> fini_same c c' \<and>
      length (st_bytes st) = 40 * unat (maxreqs c))"
proof -
  from not_init_if_inflight [OF inv found] consider "status c = WARMUP" | "status c = ROI" by blast
  then show ?thesis
  proof cases
    case 1
    from finiReq_warmup [OF inv found time 1, of t2 t3] obtain c' where f: "finiReq resp t1 t2 t3 c = Inr (FiniReturn c')"
      and c': "client_inv c'" "numReqsCompleted c' = numReqsCompleted c + 1"
        "inFlightReqs c' = (inFlightReqs c)(rs_id resp := None)"
        "status c' = (if unat (numReqsCompleted c) + 1 = unat (warmupreqs c) then ROI else WARMUP)" by blast
    then have "status c' \<noteq> INIT" by simp
    with f c' finiReq_same [OF f] show ?thesis by simp
  next
    case 2
    note roi = finiReq_roi [OF inv found time 2, of t2 t3]
    show ?thesis
    proof (cases "Suc (length (sjrnTimes c)) < unat (maxreqs c)")
      case True
      with roi obtain c' where f: "finiReq resp t1 t2 t3 c = Inr (FiniReturn c')"
        and c': "client_inv c'" "status c' = ROI" "numReqsCompleted c' = numReqsCompleted c + 1"
          "inFlightReqs c' = (inFlightReqs c)(rs_id resp := None)" by auto
      with finiReq_same [OF f] show ?thesis by simp
    next
      case False
      with roi obtain c' st where f: "finiReq resp t1 t2 t3 c = Inr (FiniExit c' st)"
        and b: "st_bytes st = concat (map (\<lambda>row. concat (map (le_bytes 8) row)) (result_rows (fini_state req resp t1 c)))"
          "length (sjrnTimes (fini_state req resp t1 c)) = unat (maxreqs c)" by auto
      have "length (st_bytes st) = 40 * unat (maxreqs c)" unfolding b(1) length_rows_bytes b(2) ..
      with finiReq_same [OF f] f show ?thesis by simp
    qed
  qed
qed

lemma step_complete:
  assumes inv: "run_inv s" "ended s = None" and w: "rs_id resp \<in> wire s" and tk: "ticks s [t1, t2, t3]"
  shows "csys_inv (tick [t1, t2, t3] (after_fini (rs_id resp) (finiReq resp t1 t2 t3 (cl s)) s))" (is "csys_inv ?s'")
proof -
  have ci: "client_inv (cl s)" and wi: "wire_inv s" and hi: "held_inv s" and co: "count_inv s" and bi: "barrier_inv s"
    using inv by (simp_all add: run_inv_def)
  obtain req where found: "inFlightReqs (cl s) (rs_id resp) = Some req" using wi w by (auto simp: wire_inv_def)
  have "unat (rq_genNs req) \<le> now s" using wi w found by (auto simp: wire_inv_def due_def)
  moreover have "now s < unat t1" using ticks_all [OF tk, of t1] by simp
  ultimately have time: "rq_genNs req < t1" by (simp add: word_less_nat_alt)
  have ni: "status (cl s) \<noteq> INIT" using not_init_if_inflight [OF ci found] by auto
  from finiReq_outcome [OF ci found time, of t2 t3] show ?thesis
  proof (elim disjE exE conjE)
    fix c' st assume f: "finiReq resp t1 t2 t3 (cl s) = Inr (FiniExit c' st)" "fini_same (cl s) c'"
      "length (st_bytes st) = 40 * unat (maxreqs (cl s))"
    then show ?thesis by (simp add: csys_inv_def after_fini_def end_ok_def fini_same_def)
  next
    fix c' assume f: "finiReq resp t1 t2 t3 (cl s) = Inr (FiniReturn c')" and c': "client_inv c'"
      "status c' \<noteq> INIT" "fini_same (cl s) c'" "numReqsCompleted c' = numReqsCompleted (cl s) + 1"
      "inFlightReqs c' = (inFlightReqs (cl s))(rs_id resp := None)"
    define s' where "s' = ?s'"
    have sel: "cl s' = c'" "pcs s' = pcs s" "wire s' = wire s - {rs_id resp}" "lost s' = lost s" "now s' = unat t3"
      "ended s' = None" using inv f by (simp_all add: after_fini_def s'_def)
    have nh: "held (pcs s ! j) \<noteq> Some (rs_id resp)" if "j < length (pcs s)" for j
      using held_invD [OF hi that] w by auto
    have "held_inv s'" unfolding held_inv_def sel c'(5)
    proof (intro conjI allI impI)
      fix j rid assume "j < length (pcs s)" "held (pcs s ! j) = Some rid"
      then show "rid \<in> dom ((inFlightReqs (cl s))(rs_id resp := None))" "rid \<notin> wire s - {rs_id resp}"
        using held_invD [OF hi, of j rid] nh [of j] by auto
    next
      fix j k assume "j < length (pcs s)" "k < length (pcs s)" "held (pcs s ! j) \<noteq> None"
        "held (pcs s ! j) = held (pcs s ! k)"
      then show "j = k" using hi by (auto simp: held_inv_def)
    qed
    moreover have "due s rid \<Longrightarrow> due s' rid" for rid
      using ticks_now [OF tk] unfolding due_def sel c'(5) by (auto split: if_splits)
    then have "wire_inv s'" using wi by (auto simp: wire_inv_def sel c')
    moreover have "count_inv s'"
    proof -
      have "wire s \<subseteq> dom (inFlightReqs (cl s))" "finite (dom (inFlightReqs (cl s)))"
        using wi ci by (simp_all add: wire_inv_def client_inv_def inflight_inv_def)
      then have "finite (wire s)" by (rule finite_subset)
      then have "Suc (card (wire s - {rs_id resp})) = card (wire s)" using w by (rule card_Suc_Diff1)
      moreover have "unat (numReqsCompleted (cl s) + 1) = unat (numReqsCompleted (cl s)) + 1"
        using inflight_remove [of "cl s" "rs_id resp" req c'] ci found c' by (simp add: client_inv_def fini_same_def)
      ultimately show ?thesis using co c' by (simp add: count_inv_def sel fini_same_def)
    qed
    moreover have "barrier_inv s'"
      using bi ni c'(2) by (auto simp: barrier_inv_def sel list_all_iff)
    ultimately show ?thesis using inv c' unfolding s'_def [symmetric] by (simp add: csys_inv_def run_inv_def sel)
  qed
qed

section \<open>Faults\<close>

lemma startReq_qps_fault:
  "startReq_qps t c = Inl f \<Longrightarrow> end_ok s (Inl f)"
proof -
  have i32: "i32_of_double d = Inl f \<Longrightarrow> f = Undefined ''double to int''" for d
    by (cases d) (auto split: if_splits)
  have add: "add_i32 a b = Inl f \<Longrightarrow> f = Undefined ''signed overflow''" for a b
    by (auto simp: add_i32_def split: if_splits)
  have sc: "scaled_interval a b d = Inl f \<Longrightarrow> f = Undefined ''double to int'' \<or> f = Undefined ''signed overflow''" for a b d
    by (auto simp: scaled_interval_def bind_res_Inl_iff split: if_splits dest: i32 add)
  assume "startReq_qps t c = Inl f"
  then have "f = Undefined ''double to int'' \<or> f = Undefined ''signed overflow'' \<or> f = Undefined ''modulo by zero''"
    by (auto simp: startReq_qps_def change_qps_def Let_def bind_res_Inl_iff split: if_splits dest: sc add)
  then show ?thesis by (auto simp: end_ok_def)
qed

lemma startReq_gen_fault:
  assumes "startReq_gen smp t ad re data len c = Inl f" "dist c \<noteq> None"
  shows "end_ok s (Inl f)"
proof -
  have "u64_of_double d = Inl f \<Longrightarrow> f = Undefined ''double to uint64_t''" for d
    by (cases d) (auto split: if_splits)
  then have "f = Undefined ''Request::data overrun'' \<or> f = Undefined ''double to uint64_t''"
    using assms by (auto simp: startReq_gen_def nextArrivalNs_def bind_res_Inl_iff Let_def split: if_splits)
  then show ?thesis by (auto simp: end_ok_def)
qed

lemma send_fault_cases:
  assumes "send rid t1 t2 err tx nc = Some (Inl f)" "rid \<in> dom (inFlightReqs (base nc))"
  shows "end_ok s (Inl f)"
proof -
  have "f = Undefined ''read past Request''"
    using assms by (auto simp: send_def send_locked_def Let_def split: if_splits option.splits)
  then show ?thesis by (simp add: end_ok_def)
qed

section \<open>Reachable states\<close>

lemma cstep_inv:
  assumes "cstep smp s s'" "csys_inv s"
  shows "csys_inv s'"
  using assms
proof (induction rule: cstep.induct)
  case (gen_fault s i t ad re data len f)
  note a = thread_atD [OF gen_fault.hyps(1)]
  then have inv: "run_inv s" using gen_fault.prems by (simp add: csys_inv_def)
  have "status (cl s) \<noteq> INIT"
    using barrier_late [of s "PGen t"] inv a by (auto simp: run_inv_def)
  then have "dist (cl s) \<noteq> None" using inv by (cases "status (cl s)") (auto simp: run_inv_def client_inv_defs)
  then show ?case using startReq_gen_fault [OF gen_fault.hyps(2)] by (simp add: csys_inv_def)
next
  case (send_fault s i rid t1 t2 err tx f)
  note a = thread_atD [OF send_fault.hyps(1)]
  then have inv: "run_inv s" using send_fault.prems by (simp add: csys_inv_def)
  have "rid \<in> dom (inFlightReqs (cl s))" using inv a by (auto simp: run_inv_def dest: held_sendD)
  then show ?case using send_fault_cases [OF send_fault.hyps(2)] by (simp add: csys_inv_def)
next
  case (complete s resp t1 t2 t3)
  then show ?case using step_complete by (simp add: csys_inv_def)
qed (auto simp: csys_inv_def startReq_qps_fault thread_at_running step_top_done step_top_start
      step_start_test step_barrier1 step_barrier2 step_init step_qps step_gen step_wake step_send
      dest: thread_at_running)

text \<open>The states a client can reach from its start.\<close>

definition reachable :: "sampler \<Rightarrow> NetworkedClient \<Rightarrow> nat \<Rightarrow> csys \<Rightarrow> bool" where
  "reachable smp nc n s \<longleftrightarrow> (cstep smp)\<^sup>*\<^sup>* (init_csys nc n) s"

lemma init_csys_inv:
  assumes "new_NetworkedClient u e net nt cid w m = Inr nc" "w \<noteq> 0" "m \<noteq> 0" "unat w + unat m < 2 ^ 31"
    and "0 < n" "n < 2 ^ 31"
  shows "csys_inv (init_csys nc n)"
proof -
  have c: "new_Client u e nt cid w m = Inr (base nc)"
    using assms(1) by (auto simp: new_NetworkedClient_def split: if_splits)
  note f = new_Client_fields [OF c]
  have "run_inv (init_csys nc n)"
    using new_Client_inv [OF c assms(2-4)] assms(5,6) f
    by (auto simp: run_inv_def init_csys_def held_inv_def wire_inv_def count_inv_def barrier_inv_def
        list_all_iff)
  then show ?thesis by (simp add: csys_inv_def init_csys_def)
qed

lemma reachable_inv:
  assumes "csys_inv (init_csys nc n)" "reachable smp nc n s"
  shows "csys_inv s"
  using assms(2) unfolding reachable_def
  by (induction rule: rtranclp_induct) (auto intro: assms(1) cstep_inv)

lemma cstep_length: "cstep smp s s' \<Longrightarrow> length (pcs s') = length (pcs s)"
  by (induction rule: cstep.induct)
     (auto simp: after_send_def after_fini_def split: sum.splits fini.splits)

lemma reachable_length:
  assumes "reachable smp nc n s"
  shows "length (pcs s) = n"
  using assms unfolding reachable_def
  by (induction rule: rtranclp_induct) (auto simp: init_csys_def dest: cstep_length)

text \<open>The configuration does not change.\<close>

lemma send_config:
  assumes "send rid t1 t2 err tx nc = Some (Inr (ok, out, tx', nc'))"
  shows "warmupreqs (base nc') = warmupreqs (base nc) \<and> maxreqs (base nc') = maxreqs (base nc)"
  using send_counts(2) [OF assms] by auto

lemma after_fini_config:
  "warmupreqs (cl (after_fini rid (finiReq resp t1 t2 t3 (cl s)) s)) = warmupreqs (cl s) \<and>
   maxreqs (cl (after_fini rid (finiReq resp t1 t2 t3 (cl s)) s)) = maxreqs (cl s)"
proof (cases "finiReq resp t1 t2 t3 (cl s)")
  case (Inr r)
  from finiReq_same [OF this] show ?thesis by (cases r) (simp_all add: after_fini_def Inr fini_same_def)
qed (simp add: after_fini_def)

lemma cstep_config:
  "cstep smp s s' \<Longrightarrow> warmupreqs (cl s') = warmupreqs (cl s) \<and> maxreqs (cl s') = maxreqs (cl s)"
proof (induction rule: cstep.induct)
  case (send s i rid t1 t2 err tx ok out tx' nc)
  then show ?case using send_config by simp
next
  case (complete s resp t1 t2 t3)
  show ?case using after_fini_config by simp
next
  case (gen s i t ad re data len rid c)
  then show ?case by (auto elim: startReq_gen_spec)
next
  case (wake s i rid cur ws c)
  then show ?case by (auto dest!: startReq_sleep_frame simp: startReq_late_def)
qed (auto simp: startReq_init_def dest!: startReq_qps_frame)

lemma reachable_config:
  assumes "reachable smp nc n s"
  shows "warmupreqs (cl s) = warmupreqs (base nc) \<and> maxreqs (cl s) = maxreqs (base nc)"
  using assms unfolding reachable_def
  by (induction rule: rtranclp_induct) (auto simp: init_csys_def dest: cstep_config)

text \<open>
  When no sender can go on, no response is outstanding and no send has failed, the process has ended:
  a client does not hang with all its answers received.
\<close>

lemma all_done_ended:
  assumes "csys_inv s" "pcs s \<noteq> []" "\<forall>p \<in> set (pcs s). p = PDone" "wire s = {}" "lost s = 0"
  shows "ended s \<noteq> None"
proof
  assume "ended s = None"
  then have r: "run_inv s" using assms(1) by (simp add: csys_inv_def)
  have "PDone \<in> set (pcs s)" using assms(2,3) by (cases "pcs s") auto
  then have "unat (numReqsCompleted (cl s)) = limit s"
    using r assms(4,5) by (auto simp: run_inv_def count_inv_def)
  then show False using r
    by (cases "status (cl s)") (auto simp: run_inv_def client_inv_defs count_inv_def)
qed

end
