(* ===== verification/Harness_ServerApi.thy ===== *)
theory Harness_ServerApi
  imports Harness_Msgs
begin

text \<open>
  The contract of the virtual functions \<open>recvReq\<close> and \<open>sendResp\<close> of class \<open>Server\<close>
  (\<^verbatim>\<open>src/harness/server.h\<close>), which both servers implement and every application calls through
  \<open>tBenchRecvReq\<close> and \<open>tBenchSendResp\<close>. Each thread has an entry in \<open>reqInfo\<close> that \<open>recvReq\<close> fills and
  \<open>sendResp\<close> reads; nothing but the thread's own \<open>recvReq\<close> writes it. What follows for the responses
  under any interleaving with the other threads is proved once, here.
\<close>

locale server_api =
  fixes info :: "'s \<Rightarrow> nat \<Rightarrow> u64 \<times> u64 \<times> 'c"
    and recvs :: "nat \<Rightarrow> u64 \<Rightarrow> u64 \<Rightarrow> 'c \<Rightarrow> 's \<Rightarrow> 's \<Rightarrow> bool"
    and sends :: "nat \<Rightarrow> Response \<Rightarrow> u64 \<Rightarrow> 'c \<Rightarrow> 's \<Rightarrow> 's \<Rightarrow> bool"
  assumes recv_info: "recvs i rid t ch s s' \<Longrightarrow> info s' i = (rid, t, ch)"
    and recv_other: "recvs i rid t ch s s' \<Longrightarrow> j \<noteq> i \<Longrightarrow> info s' j = info s j"
    and send_info: "sends i resp t ch s s' \<Longrightarrow> info s' j = info s j"
    and send_resp: "sends i resp t ch s s' \<Longrightarrow> info s i = (rid, t0, ch0) \<Longrightarrow>
      rs_id resp = rid \<and> rs_svcNs resp = t - t0 \<and> t0 < t \<and> ch = ch0"
begin

definition acts :: "nat \<Rightarrow> 's \<Rightarrow> 's \<Rightarrow> bool" where
  "acts i s s' \<longleftrightarrow> (\<exists>rid t ch. recvs i rid t ch s s') \<or> (\<exists>resp t ch. sends i resp t ch s s')"

definition others :: "nat \<Rightarrow> 's \<Rightarrow> 's \<Rightarrow> bool" where
  "others i s s' \<longleftrightarrow> (\<exists>j. j \<noteq> i \<and> acts j s s')"

lemma acts_other: "acts j s s' \<Longrightarrow> j \<noteq> i \<Longrightarrow> info s' i = info s i"
  by (auto simp: acts_def recv_other send_info)

lemma others_info: "(others i)\<^sup>*\<^sup>* s s' \<Longrightarrow> info s' i = info s i"
  by (induction rule: rtranclp_induct) (auto simp: others_def dest: acts_other)

lemma response_matches_recv:
  assumes "recvs i rid t0 ch0 s s1" "(others i)\<^sup>*\<^sup>* s1 s2" "sends i resp t ch s2 s3"
  shows "rs_id resp = rid \<and> rs_svcNs resp = t - t0 \<and> t0 < t \<and> ch = ch0"
  using recv_info [OF assms(1)] others_info [OF assms(2)] send_resp [OF assms(3)] by simp

lemma info_written_only_by_own_recv:
  assumes "acts j s s'" "info s' i \<noteq> info s i"
  shows "j = i \<and> (\<exists>rid t ch. recvs i rid t ch s s')"
proof -
  have "j = i" using acts_other [OF assms(1)] assms(2) by blast
  moreover have "\<not> (\<exists>resp t ch. sends j resp t ch s s')" using send_info assms(2) by metis
  ultimately show ?thesis using assms(1) by (auto simp: acts_def)
qed

end

end
