(* ===== verification/Harness_NetServer.thy ===== *)
theory Harness_NetServer
  imports Harness_ServerApi Harness_Opt Harness_Helpers
begin

text \<open>
  The networked server: classes \<open>Server\<close> and \<open>NetworkedServer\<close> of \<^verbatim>\<open>src/harness/server.h\<close> and
  \<^verbatim>\<open>src/harness/tbench_server_networked.cpp\<close>. The operating system is the record \<open>netenv\<close>: what the
  next \<open>select\<close> calls report (\<open>None\<close> is -1), what the next \<open>accept\<close> calls return with the result of
  \<open>setsockopt\<close>, and what each connection will deliver. \<open>recvReq\<close> runs under \<open>recvLock\<close> and \<open>sendResp\<close>
  and \<open>finish\<close> under \<open>sendLock\<close>; every path that leaves early ends the process.
\<close>

section \<open>State\<close>

record ReqInfo =
  ri_id :: u64
  ri_startNs :: u64

record NetworkedServer =
  finishedReqs :: u64
  maxReqs :: u64
  warmupReqs :: u64
  start_file :: bool
  start_file_name :: string
  reqInfo :: "ReqInfo list"
  reqbuf :: "Request list"
  clientFds :: "int list"
  activeFds :: "int list"
  recvClientHead :: nat
  listenFd :: int

record netenv =
  selects :: "int list option list"
  accepts :: "(int \<times> bool) list"
  conns :: "int \<Rightarrow> rx list"

section \<open>Constructor\<close>

record server_setup =
  ss_gai :: int
  ss_socket :: int
  ss_reuseaddr :: int
  ss_bind :: int
  ss_listen :: int

text \<open>
  \<open>reqInfo.resize\<close> and \<open>activeFds.resize\<close> value-initialise their elements; a negative thread count is
  converted to a huge size and the allocation throws. \<open>new Request[nthreads]\<close> leaves the buffers
  uninitialised: their contents are the argument \<open>bufs\<close>.
\<close>

definition new_NetworkedServer ::
    "Request list \<Rightarrow> env \<Rightarrow> server_setup \<Rightarrow> int \<Rightarrow> string \<Rightarrow> NetworkedServer res" where
  "new_NetworkedServer bufs e ss nthr fname =
     (if nthr < 0 then Inl (Throw ''std::length_error'')
      else if ss_gai ss \<noteq> 0 then Inl (Exit (- 1))
      else if ss_socket ss = - 1 then Inl (Exit (- 1))
      else if ss_reuseaddr ss = - 1 then Inl (Exit (- 1))
      else if ss_bind ss = - 1 then Inl (Exit (- 1))
      else if ss_listen ss = - 1 then Inl (Exit (- 1))
      else Inr \<lparr>finishedReqs = 0,
             maxReqs = word_of_int (getOpt_int e ''TBENCH_MAXREQS'' 0),
             warmupReqs = word_of_int (getOpt_int e ''TBENCH_WARMUPREQS'' 0),
             start_file = False, start_file_name = fname,
             reqInfo = replicate (nat nthr) \<lparr>ri_id = 0, ri_startNs = 0\<rparr>,
             reqbuf = take (nat nthr) (bufs @ replicate (nat nthr) new_Request),
             clientFds = [], activeFds = replicate (nat nthr) 0,
             recvClientHead = 0, listenFd = ss_socket ss\<rparr>)"

section \<open>Connections\<close>

text \<open>\<open>FD_SET\<close> on a descriptor outside \<open>0 .. FD_SETSIZE - 1\<close> writes outside the set.\<close>

definition FD_SETSIZE :: int where
  "FD_SETSIZE = 1024"

definition fd_ok :: "int \<Rightarrow> bool" where
  "fd_ok f \<longleftrightarrow> 0 \<le> f \<and> f < FD_SETSIZE"

text \<open>
  \<open>select\<close> on a set of descriptors: \<open>None\<close> blocks for ever, \<open>Inl\<close> is the failure, otherwise the
  members of the set that are ready.
\<close>

definition os_select :: "int list \<Rightarrow> netenv \<Rightarrow> (int list res \<times> netenv) option" where
  "os_select fds e =
     (if \<not> list_all fd_ok fds then Some (Inl (Undefined ''FD_SET''), e)
      else case selects e of
        [] \<Rightarrow> None
      | None # r \<Rightarrow> Some (Inl (Exit (- 1)), e\<lparr>selects := r\<rparr>)
      | Some ready # r \<Rightarrow> Some (Inr (filter (\<lambda>f. f \<in> set ready) fds), e\<lparr>selects := r\<rparr>))"

definition removeClient :: "int \<Rightarrow> NetworkedServer \<Rightarrow> NetworkedServer res" where
  "removeClient fd sv =
     (if fd \<in> set (clientFds sv) then Inr (sv\<lparr>clientFds := remove1 fd (clientFds sv)\<rparr>)
      else Inl (Undefined ''erase(end())''))"

definition checkRecv :: "int \<Rightarrow> int \<Rightarrow> int \<Rightarrow> NetworkedServer \<Rightarrow> (bool \<times> NetworkedServer) res" where
  "checkRecv recvd expected fd sv =
     (if recvd = 0 then bind_res (removeClient fd sv) (\<lambda>sv'. Inr (False, sv'))
      else if recvd = - 1 then Inl (Exit (- 1))
      else if recvd \<noteq> expected then Inl (Exit (- 1))
      else Inr (True, sv))"

text \<open>\<open>None\<close>: \<open>accept\<close> blocks because no connection is pending.\<close>

definition checkNewClient ::
    "int list \<Rightarrow> NetworkedServer \<Rightarrow> netenv \<Rightarrow> (bool \<times> NetworkedServer \<times> netenv) option" where
  "checkNewClient fdSet sv e =
     (if listenFd sv \<in> set fdSet
      then (case accepts e of
              [] \<Rightarrow> None
            | (clientFd, nodelay_ok) # r \<Rightarrow>
                (if clientFd = - 1 then Some (False, sv, e\<lparr>accepts := r\<rparr>)
                 else if \<not> nodelay_ok then Some (False, sv, e\<lparr>accepts := r\<rparr>)
                 else Some (True, sv\<lparr>clientFds := clientFds sv @ [clientFd]\<rparr>, e\<lparr>accepts := r\<rparr>)))
      else Some (False, sv, e))"

section \<open>recvReq\<close>

text \<open>The order in which the ready clients are looked at, and the one picked (-1 for none).\<close>

definition scan_order :: "int list \<Rightarrow> nat \<Rightarrow> int list" where
  "scan_order fds head = map (\<lambda>i. fds ! ((head + i) mod length fds)) [0 ..< length fds]"

definition pick_fd :: "int list \<Rightarrow> int list \<Rightarrow> nat \<Rightarrow> int" where
  "pick_fd ready fds head =
     (case find (\<lambda>f. f \<in> set ready) (scan_order fds head) of None \<Rightarrow> - 1 | Some f \<Rightarrow> f)"

datatype 'a iter = Again NetworkedServer netenv | Stop 'a NetworkedServer netenv | Fail fault

text \<open>Reading one request from a connection into the buffer of thread \<open>i\<close>.\<close>

definition read_body :: "nat \<Rightarrow> int \<Rightarrow> NetworkedServer \<Rightarrow> netenv \<Rightarrow> int iter option" where
  "read_body i fd sv e =
     (let req = reqbuf sv ! i; len = to_i32 (uint (rq_len req))
      in case recvfull len (conns e fd) of
           None \<Rightarrow> None
         | Some (recvd, got, s) \<Rightarrow>
             (if int (length got) > MAX_REQ_BYTES then Some (Fail (Undefined ''Request::data overrun''))
              else (let sv1 = sv\<lparr>reqbuf := (reqbuf sv)[i := req\<lparr>rq_data := store_data got (rq_data req)\<rparr>]\<rparr>;
                        e1 = e\<lparr>conns := (conns e)(fd := s)\<rparr>
                    in case checkRecv recvd len fd sv1 of
                         Inl f \<Rightarrow> Some (Fail f)
                       | Inr (True, sv2) \<Rightarrow> Some (Stop fd sv2 e1)
                       | Inr (False, sv2) \<Rightarrow> Some (Again sv2 e1))))"

definition read_request :: "nat \<Rightarrow> int \<Rightarrow> NetworkedServer \<Rightarrow> netenv \<Rightarrow> int iter option" where
  "read_request i fd sv e =
     (let len = sizeof_Request - MAX_REQ_BYTES
      in if \<not> i < length (reqbuf sv) then Some (Fail (Undefined ''reqbuf index''))
         else case recvfull len (conns e fd) of
           None \<Rightarrow> None
         | Some (recvd, got, s) \<Rightarrow>
             (case checkRecv recvd len fd sv of
                Inl f \<Rightarrow> Some (Fail f)
              | Inr (False, sv2) \<Rightarrow> Some (Again sv2 (e\<lparr>conns := (conns e)(fd := s)\<rparr>))
              | Inr (True, sv2) \<Rightarrow>
                  read_body i fd
                    (sv2\<lparr>reqbuf := (reqbuf sv2)[i := load_request_header got (reqbuf sv2 ! i)]\<rparr>)
                    (e\<lparr>conns := (conns e)(fd := s)\<rparr>)))"

text \<open>Serving the ready descriptors: pick one in turn, advance the head, read its request.\<close>

definition serve_ready :: "nat \<Rightarrow> int list \<Rightarrow> NetworkedServer \<Rightarrow> netenv \<Rightarrow> int iter option" where
  "serve_ready i readSet sv e =
     (let fd = pick_fd readSet (clientFds sv) (recvClientHead sv);
          sv1 = sv\<lparr>recvClientHead := (recvClientHead sv + 1) mod length (clientFds sv)\<rparr>
      in if fd = - 1 then Some (Again sv1 e) else read_request i fd sv1 e)"

definition recvReq_iter :: "nat \<Rightarrow> NetworkedServer \<Rightarrow> netenv \<Rightarrow> int iter option" where
  "recvReq_iter i sv e =
     (if clientFds sv = []
      then (case os_select [listenFd sv] e of
              None \<Rightarrow> None
            | Some (Inl f, _) \<Rightarrow> Some (Fail f)
            | Some (Inr readSet, e1) \<Rightarrow>
                (case checkNewClient readSet sv e1 of
                   None \<Rightarrow> None
                 | Some (new, sv1, e2) \<Rightarrow>
                     Some (Again (if new then sv1\<lparr>recvClientHead := 0\<rparr> else sv1) e2)))
      else (case os_select (listenFd sv # clientFds sv) e of
              None \<Rightarrow> None
            | Some (Inl f, _) \<Rightarrow> Some (Fail f)
            | Some (Inr readSet, e1) \<Rightarrow>
                (case checkNewClient readSet sv e1 of
                   None \<Rightarrow> None
                 | Some (False, sv1, e2) \<Rightarrow> serve_ready i readSet sv1 e2
                 | Some (True, sv1, e2) \<Rightarrow>
                     (case os_select (clientFds sv1) e2 of
                        None \<Rightarrow> None
                      | Some (Inl f, _) \<Rightarrow> Some (Fail f)
                      | Some (Inr readSet2, e3) \<Rightarrow> serve_ready i readSet2 sv1 e3))))"

text \<open>Every round of the loop that is repeated has consumed a \<open>select\<close> result, so the loop ends or blocks.\<close>

lemma os_select_consumes:
  "os_select fds e = Some (Inr rs, e') \<Longrightarrow> length (selects e') < length (selects e)"
  by (auto simp: os_select_def split: if_splits list.splits option.splits)

lemma checkNewClient_selects: "checkNewClient fdSet sv e = Some (b, sv', e') \<Longrightarrow> selects e' = selects e"
  by (auto simp: checkNewClient_def split: if_splits list.splits)

lemma read_body_selects: "read_body i fd sv e = Some (Again sv' e') \<Longrightarrow> selects e' = selects e"
  by (auto simp: read_body_def Let_def split: option.splits if_splits sum.splits bool.splits)

lemma read_request_selects: "read_request i fd sv e = Some (Again sv' e') \<Longrightarrow> selects e' = selects e"
  by (auto simp: read_request_def Let_def split: option.splits if_splits sum.splits bool.splits
        dest!: read_body_selects)

lemma serve_ready_selects: "serve_ready i rs sv e = Some (Again sv' e') \<Longrightarrow> selects e' = selects e"
  by (auto simp: serve_ready_def Let_def split: if_splits dest: read_request_selects)

lemma recvReq_iter_consumes:
  assumes "recvReq_iter i sv e = Some (Again sv' e')"
  shows "length (selects e') < length (selects e)"
proof (cases "clientFds sv = []")
  case True
  with assms show ?thesis
    by (auto simp: recvReq_iter_def split: option.splits sum.splits if_splits
          dest!: os_select_consumes checkNewClient_selects)
next
  case False
  with assms show ?thesis
    by (auto simp: recvReq_iter_def split: option.splits sum.splits bool.splits
          dest!: os_select_consumes checkNewClient_selects serve_ready_selects)
qed

function recvReq_loop :: "nat \<Rightarrow> NetworkedServer \<Rightarrow> netenv \<Rightarrow> (int \<times> NetworkedServer \<times> netenv) res option" where
  "recvReq_loop i sv e =
     (case recvReq_iter i sv e of
        None \<Rightarrow> None
      | Some (Fail f) \<Rightarrow> Some (Inl f)
      | Some (Stop fd sv' e') \<Rightarrow> Some (Inr (fd, sv', e'))
      | Some (Again sv' e') \<Rightarrow> recvReq_loop i sv' e')"
  by pat_completeness auto

termination
  by (relation "measure (\<lambda>(i, sv, e). length (selects e))") (auto dest: recvReq_iter_consumes)

declare recvReq_loop.simps [simp del]

text \<open>
  \<open>recvReq\<close>: the length it returns, the data array the caller is pointed to, and the start file it
  creates, if any.
\<close>

definition recvReq ::
    "nat \<Rightarrow> u64 \<Rightarrow> NetworkedServer \<Rightarrow> netenv \<Rightarrow>
       (u64 \<times> byte list \<times> string option \<times> NetworkedServer \<times> netenv) res option" where
  "recvReq i curNs sv e =
     (case recvReq_loop i sv e of
        None \<Rightarrow> None
      | Some (Inl f) \<Rightarrow> Some (Inl f)
      | Some (Inr (fd, sv1, e1)) \<Rightarrow>
          (if \<not> (i < length (reqInfo sv1) \<and> i < length (activeFds sv1))
           then Some (Inl (Undefined ''vector index''))
           else (let req = reqbuf sv1 ! i;
                     sv2 = sv1\<lparr>reqInfo := (reqInfo sv1)[i := \<lparr>ri_id = rq_id req, ri_startNs = curNs\<rparr>],
                               activeFds := (activeFds sv1)[i := fd], start_file := True\<rparr>;
                     created = (if \<not> start_file sv1 \<and> start_file_name sv1 \<noteq> []
                                then Some (start_file_name sv1) else None)
                 in Some (Inr (rq_len req, rq_data req, created, sv2, e1)))))"

section \<open>sendResp and finish\<close>

text \<open>
  \<open>sendResp\<close>: the descriptor and the bytes that go to it. The number of bytes \<open>sendfull\<close> managed to
  send is not looked at.
\<close>

definition make_resp :: "ReqInfo \<Rightarrow> byte list \<Rightarrow> u64 \<Rightarrow> u64 \<Rightarrow> Response" where
  "make_resp info data len curNs =
     new_Response\<lparr>rs_type := RESPONSE, rs_id := ri_id info, rs_len := len,
       rs_data := take (unat len) data, rs_svcNs := curNs - ri_startNs info\<rparr>"

definition resp_wire_len :: "u64 \<Rightarrow> int" where
  "resp_wire_len len = to_i32 (uint (word_of_int (sizeof_Response - MAX_RESP_BYTES) + len))"

definition sendResp ::
    "nat \<Rightarrow> byte list \<Rightarrow> u64 \<Rightarrow> u64 \<Rightarrow> (int \<Rightarrow> tx list) \<Rightarrow> NetworkedServer \<Rightarrow>
       (int \<times> byte list \<times> (int \<Rightarrow> tx list) \<times> NetworkedServer) res option" where
  "sendResp i data len curNs outs sv =
     (if \<not> (i < length (reqInfo sv) \<and> i < length (activeFds sv))
      then Some (Inl (Undefined ''vector index''))
      else if int (unat len) > MAX_RESP_BYTES then Some (Inl (Undefined ''Response::data overrun''))
      else if length data < unat len then Some (Inl (Undefined ''read past data''))
      else if \<not> ri_startNs (reqInfo sv ! i) < curNs
      then Some (Inl (Abort ''curNs > reqInfo[id].startNs''))
      else (let resp = make_resp (reqInfo sv ! i) data len curNs;
                fd = activeFds sv ! i;
                totalLen = resp_wire_len len
            in case sendfull (response_bytes resp (nat totalLen)) totalLen (outs fd) of
                 None \<Rightarrow> None
               | Some (sent, out, s) \<Rightarrow>
                   Some (Inr (fd, out, outs(fd := s), sv\<lparr>finishedReqs := finishedReqs sv + 1\<rparr>))))"

fun finish_loop ::
    "int list \<Rightarrow> Response \<Rightarrow> (int \<Rightarrow> tx list) \<Rightarrow> ((int \<times> byte list) list \<times> (int \<Rightarrow> tx list)) res option" where
  "finish_loop [] resp outs = Some (Inr ([], outs))"
| "finish_loop (fd # fds) resp outs =
     (let len = sizeof_Response - MAX_RESP_BYTES
      in case sendfull (response_bytes resp (nat len)) len (outs fd) of
           None \<Rightarrow> None
         | Some (sent, out, s) \<Rightarrow>
             (if sent \<noteq> len then Some (Inl (Abort ''sent == len''))
              else case finish_loop fds resp (outs(fd := s)) of
                None \<Rightarrow> None
              | Some (Inl f) \<Rightarrow> Some (Inl f)
              | Some (Inr (sents, outs')) \<Rightarrow> Some (Inr ((fd, out) # sents, outs'))))"

definition finish ::
    "(int \<Rightarrow> tx list) \<Rightarrow> NetworkedServer \<Rightarrow> ((int \<times> byte list) list \<times> (int \<Rightarrow> tx list)) res option" where
  "finish outs sv = finish_loop (clientFds sv) (new_Response\<lparr>rs_type := FINISH\<rparr>) outs"

section \<open>C interface\<close>

definition tBenchServerInit ::
    "Request list \<Rightarrow> env \<Rightarrow> server_setup \<Rightarrow> int \<Rightarrow> (int \<times> NetworkedServer) res" where
  "tBenchServerInit bufs e ss nthr =
     bind_res (new_NetworkedServer bufs e ss nthr (getOpt_string e ''TBENCH_START_FILE'' []))
       (\<lambda>sv. Inr (0, sv))"

text \<open>\<open>tid = curTid++\<close>: the thread's own id and the next one.\<close>

definition tBenchServerThreadStart :: "int \<Rightarrow> int \<times> int" where
  "tBenchServerThreadStart curTid = (curTid, to_i32 (curTid + 1))"

fun start_threads :: "nat \<Rightarrow> int \<Rightarrow> int list" where
  "start_threads 0 cur = []"
| "start_threads (Suc n) cur =
     (let (tid, cur') = tBenchServerThreadStart cur in tid # start_threads n cur')"

section \<open>Round robin\<close>

lemma scan_order_rotate: "fds \<noteq> [] \<Longrightarrow> scan_order fds head = rotate head fds"
  by (rule nth_equalityI) (simp_all add: scan_order_def nth_rotate)

lemma set_scan_order [simp]: "set (scan_order fds head) = set fds"
  by (cases "fds = []") (simp_all add: scan_order_rotate, simp add: scan_order_def)

lemma find_in_set: "find P xs = Some x \<Longrightarrow> x \<in> set xs \<and> P x"
  by (induction xs) (auto split: if_splits)

lemma pick_fd_cases:
  "pick_fd ready fds head = - 1 \<or> (pick_fd ready fds head \<in> set fds \<and> pick_fd ready fds head \<in> set ready)"
proof (cases "find (\<lambda>f. f \<in> set ready) (scan_order fds head)")
  case (Some f)
  from find_in_set [OF this] Some show ?thesis by (simp add: pick_fd_def)
qed (simp add: pick_fd_def)

lemma pick_fd_none:
  assumes "- 1 \<notin> set fds"
  shows "pick_fd ready fds head = - 1 \<longleftrightarrow> set fds \<inter> set ready = {}"
proof (cases "find (\<lambda>f. f \<in> set ready) (scan_order fds head)")
  case None
  then have "set fds \<inter> set ready = {}" by (auto simp: find_None_iff)
  with None show ?thesis by (simp add: pick_fd_def)
next
  case (Some f)
  from find_in_set [OF this] Some assms show ?thesis by (auto simp: pick_fd_def)
qed

lemma pick_fd_head:
  assumes "fds \<noteq> []" "fds ! (head mod length fds) \<in> set ready"
  shows "pick_fd ready fds head = fds ! (head mod length fds)"
proof -
  have "scan_order fds head = fds ! (head mod length fds) # tl (scan_order fds head)"
    using assms(1) by (cases fds) (simp_all add: scan_order_def upt_rec)
  then show ?thesis using assms(2) unfolding pick_fd_def
    by (metis find.simps(2) option.simps(5))
qed

text \<open>The head after \<open>j\<close> rounds over an unchanged list of clients.\<close>

lemma head_iterate:
  assumes "0 < n"
  shows "((\<lambda>h. (h + 1) mod n) ^^ j) h mod n = (h + j) mod n"
proof (induction j)
  case (Suc j)
  then show ?case using mod_Suc_eq [of "((\<lambda>h. (h + 1) mod n) ^^ j) h" n] mod_Suc_eq [of "h + j" n]
    by simp
qed simp

lemma head_reaches:
  fixes n k h :: nat
  assumes "k < n"
  shows "\<exists>j < n. (h + j) mod n = k"
proof -
  let ?j = "(k + n - h mod n) mod n"
  have "h mod n < n" using assms by simp
  then have "h mod n + (k + n - h mod n) = k + n" by linarith
  then have "(h mod n + (k + n - h mod n)) mod n = k" using assms by simp
  then have "(h + ?j) mod n = k" by (metis mod_add_eq mod_mod_trivial)
  moreover have "?j < n" using assms by simp
  ultimately show ?thesis by blast
qed

section \<open>Reading a request\<close>

lemma checkRecv_full: "0 < n \<Longrightarrow> checkRecv n n fd sv = Inr (True, sv)"
  by (simp add: checkRecv_def)

lemma read_request_roundtrip:
  assumes i: "i < length (reqbuf sv)"
    and bytes: "rx_bytes (conns e fd) = request_header r @ data @ rest"
    and len: "rq_len r = of_nat (length data)" "0 < length data" "length data \<le> 2 ^ 20"
  shows "\<exists>sv' e'. read_request i fd sv e = Some (Stop fd sv' e') \<and>
    reqbuf sv' ! i = r\<lparr>rq_data := store_data data (rq_data (reqbuf sv ! i))\<rparr> \<and>
    sv' = sv\<lparr>reqbuf := reqbuf sv'\<rparr> \<and> length (reqbuf sv') = length (reqbuf sv) \<and>
    rx_bytes (conns e' fd) = rest \<and> (\<forall>g. g \<noteq> fd \<longrightarrow> conns e' g = conns e g) \<and> selects e' = selects e"
proof -
  obtain s1 where h: "recvfull (int 80) (conns e fd) = Some (int 80, take 80 (rx_bytes (conns e fd)), s1)"
    and b1: "rx_bytes s1 = drop 80 (rx_bytes (conns e fd))"
    by (rule recvfull_complete [of 80 "conns e fd"]) (simp add: bytes)
  obtain s2 where d: "recvfull (int (length data)) s1 = Some (int (length data), data, s2)"
    and b2: "rx_bytes s2 = rest"
    by (rule recvfull_complete [of "length data" s1]) (auto simp: b1 bytes)
  have ld: "load_request_header (take 80 (rx_bytes (conns e fd))) (reqbuf sv ! i) =
      r\<lparr>rq_data := rq_data (reqbuf sv ! i)\<rparr>"
    using load_request_header_inverse [of r] by (simp add: bytes)
  have ul: "to_i32 (uint (rq_len r)) = int (length data)"
    using len by (simp add: unsigned_of_nat take_bit_nat_eq_self to_i32_id)
  have nov: "\<not> MAX_REQ_BYTES < int (length data)" using len(3) by (simp add: MAX_REQ_BYTES_def)
  have c80: "checkRecv 80 80 fd sv = Inr (True, sv)" by (simp add: checkRecv_full)
  have "read_request i fd sv e = Some (Stop fd
      (sv\<lparr>reqbuf := (reqbuf sv)[i := r\<lparr>rq_data := store_data data (rq_data (reqbuf sv ! i))\<rparr>]\<rparr>)
      (e\<lparr>conns := (conns e)(fd := s2)\<rparr>))"
    using i nov len(2)
    by (simp add: read_request_def Let_def h [simplified] c80 ld read_body_def ul d checkRecv_full)
  then show ?thesis using i b2 by simp
qed

text \<open>The connection at end of file before a header: the client is dropped.\<close>

lemma read_request_eof:
  assumes "i < length (reqbuf sv)" "conns e fd = RxEof # t" "fd \<in> set (clientFds sv)"
  shows "read_request i fd sv e = Some (Again (sv\<lparr>clientFds := remove1 fd (clientFds sv)\<rparr>) e)"
proof -
  have "recvfull 80 (conns e fd) = Some (0, [], RxEof # t)"
    by (simp add: recvfull_def assms(2) recvfull_loop.simps)
  with assms show ?thesis
    by (simp add: read_request_def checkRecv_def removeClient_def flip: assms(2))
qed

text \<open>A request with an empty payload is taken for a closed connection.\<close>

lemma read_request_empty_payload:
  assumes i: "i < length (reqbuf sv)" and fd: "fd \<in> set (clientFds sv)"
    and bytes: "rx_bytes (conns e fd) = request_header r @ rest" and len: "rq_len r = 0"
  shows "\<exists>sv' e'. read_request i fd sv e = Some (Again sv' e') \<and>
    clientFds sv' = remove1 fd (clientFds sv)"
proof -
  obtain s1 where h: "recvfull (int 80) (conns e fd) = Some (int 80, take 80 (rx_bytes (conns e fd)), s1)"
    by (rule recvfull_complete [of 80 "conns e fd"]) (simp add: bytes)
  have ld: "load_request_header (take 80 (rx_bytes (conns e fd))) (reqbuf sv ! i) =
      r\<lparr>rq_data := rq_data (reqbuf sv ! i)\<rparr>"
    using load_request_header_inverse [of r] by (simp add: bytes)
  have z: "recvfull 0 s1 = Some (0, [], s1)" by (simp add: recvfull_def recvfull_loop.simps)
  have c80: "checkRecv 80 80 fd sv = Inr (True, sv)" by (simp add: checkRecv_full)
  have nov: "\<not> MAX_REQ_BYTES < 0" by (simp add: MAX_REQ_BYTES_def)
  show ?thesis using i fd len
    by (simp add: read_request_def Let_def h [simplified] c80 ld read_body_def z to_i32_def
          checkRecv_def [of 0] removeClient_def nov)
qed

section \<open>Sending a response\<close>

lemma resp_wire_len_small:
  assumes "unat len \<le> 2 ^ 20"
  shows "resp_wire_len len = 40 + int (unat len)"
proof -
  have "int (unat len) \<le> int (2 ^ 20)" using assms by (simp only: of_nat_le_iff)
  then have "uint len \<le> 2 ^ 20" by simp
  then have "uint (40 + len) = 40 + uint len" by (simp add: uint_word_ariths)
  then show ?thesis
    using \<open>uint len \<le> 2 ^ 20\<close> unfolding resp_wire_len_def header_sizes by (simp add: to_i32_id)
qed

lemma sendResp_spec:
  assumes "sendResp i data len t outs sv = Some (Inr (fd, out, outs', sv'))"
  shows "i < length (reqInfo sv)" "i < length (activeFds sv)" "unat len \<le> 2 ^ 20" "unat len \<le> length data"
    "ri_startNs (reqInfo sv ! i) < t" "fd = activeFds sv ! i"
    "sv' = sv\<lparr>finishedReqs := finishedReqs sv + 1\<rparr>"
proof -
  have g: "i < length (reqInfo sv) \<and> i < length (activeFds sv)" "\<not> MAX_RESP_BYTES < int (unat len)"
    "\<not> length data < unat len" "ri_startNs (reqInfo sv ! i) < t"
    using assms by (auto simp: sendResp_def split: if_splits)
  then show "i < length (reqInfo sv)" "i < length (activeFds sv)" "unat len \<le> length data"
    "ri_startNs (reqInfo sv ! i) < t" by auto
  have "int (unat len) \<le> int (2 ^ 20)" using g(2) by (simp add: MAX_RESP_BYTES_def)
  then show "unat len \<le> 2 ^ 20" by (simp only: of_nat_le_iff)
  show "fd = activeFds sv ! i" "sv' = sv\<lparr>finishedReqs := finishedReqs sv + 1\<rparr>"
    using assms g by (auto simp: sendResp_def Let_def split: option.splits)
qed

text \<open>With a socket that takes all of it, the whole response goes out.\<close>

lemma sendResp_complete:
  assumes "i < length (reqInfo sv)" "i < length (activeFds sv)" "unat len \<le> 2 ^ 20"
    and "unat len \<le> length data" "ri_startNs (reqInfo sv ! i) < t"
    and room: "40 + unat len \<le> tx_room (outs (activeFds sv ! i))"
  shows "\<exists>s. sendResp i data len t outs sv = Some (Inr (activeFds sv ! i,
    response_header (make_resp (reqInfo sv ! i) data len t) @ take (unat len) data,
    outs(activeFds sv ! i := s), sv\<lparr>finishedReqs := finishedReqs sv + 1\<rparr>))"
proof -
  define resp where "resp = make_resp (reqInfo sv ! i) data len t"
  define msg where "msg = response_bytes resp (40 + unat len)"
  have msg: "msg = response_header resp @ take (unat len) data"
    using assms(4) by (simp add: msg_def response_bytes_split resp_def make_resp_def buf_take_def min_absorb2)
  have wl: "resp_wire_len len = 40 + int (unat len)" by (rule resp_wire_len_small [OF assms(3)])
  have n: "nat (40 + int (unat len)) = 40 + unat len" by (simp add: nat_add_distrib)
  have "int (40 + unat len) \<le> int (tx_room (outs (activeFds sv ! i)))"
    using room by (simp only: of_nat_le_iff)
  then have room': "40 + int (unat len) \<le> int (tx_room (outs (activeFds sv ! i)))"
    by (simp only: of_nat_add of_nat_numeral)
  obtain s where "sendfull msg (40 + int (unat len)) (outs (activeFds sv ! i)) =
      Some (40 + int (unat len), take (nat (40 + int (unat len))) msg, s)"
    by (rule sendfull_complete [of "40 + int (unat len)" "outs (activeFds sv ! i)" msg])
       (use room' in \<open>simp_all add: msg_def\<close>)
  then have sf: "sendfull msg (40 + int (unat len)) (outs (activeFds sv ! i)) =
      Some (40 + int (unat len), msg, s)"
    unfolding n by (simp add: msg_def)
  have nov: "\<not> MAX_RESP_BYTES < int (unat len)" 
  proof -
    have "int (unat len) \<le> int (2 ^ 20)" using assms(3) by (simp only: of_nat_le_iff)
    then show ?thesis by (simp add: MAX_RESP_BYTES_def)
  qed
  have "sendResp i data len t outs sv = Some (Inr (activeFds sv ! i, msg,
    outs(activeFds sv ! i := s), sv\<lparr>finishedReqs := finishedReqs sv + 1\<rparr>))"
    using assms nov sf
    unfolding sendResp_def Let_def wl n resp_def [symmetric] msg_def [symmetric] by simp
  then show ?thesis unfolding msg resp_def by blast
qed

section \<open>The receive loop\<close>

text \<open>What a round of the loop leaves alone, and where the descriptors it keeps come from.\<close>

definition srv_frame :: "nat \<Rightarrow> NetworkedServer \<Rightarrow> NetworkedServer \<Rightarrow> bool" where
  "srv_frame i sv sv' \<longleftrightarrow> reqInfo sv' = reqInfo sv \<and> activeFds sv' = activeFds sv \<and>
     length (reqbuf sv') = length (reqbuf sv) \<and>
     (\<forall>j. j \<noteq> i \<longrightarrow> reqbuf sv' ! j = reqbuf sv ! j) \<and> listenFd sv' = listenFd sv \<and>
     start_file sv' = start_file sv \<and> start_file_name sv' = start_file_name sv \<and>
     finishedReqs sv' = finishedReqs sv \<and> (- 1 \<notin> set (clientFds sv) \<longrightarrow> - 1 \<notin> set (clientFds sv'))"

definition iter_frame :: "nat \<Rightarrow> NetworkedServer \<Rightarrow> int iter option \<Rightarrow> bool" where
  "iter_frame i sv r \<longleftrightarrow>
     (case r of
        Some (Again sv' e') \<Rightarrow> srv_frame i sv sv'
      | Some (Stop fd sv' e') \<Rightarrow> srv_frame i sv sv' \<and> fd \<in> set (clientFds sv')
      | Some (Fail f) \<Rightarrow> f \<noteq> Undefined ''erase(end())''
      | None \<Rightarrow> True)"

lemma srv_frame_refl: "srv_frame i sv sv"
  by (simp add: srv_frame_def)

lemma srv_frame_trans: "srv_frame i a b \<Longrightarrow> srv_frame i b c \<Longrightarrow> srv_frame i a c"
  by (simp add: srv_frame_def)

lemma iter_frame_trans: "srv_frame i a b \<Longrightarrow> iter_frame i b r \<Longrightarrow> iter_frame i a r"
  by (auto simp: iter_frame_def split: option.splits iter.splits intro: srv_frame_trans)

lemma checkRecv_cases:
  assumes "fd \<in> set (clientFds sv)"
  shows "checkRecv k n fd sv = Inr (True, sv) \<or> checkRecv k n fd sv = Inl (Exit (- 1)) \<or>
    checkRecv k n fd sv = Inr (False, sv\<lparr>clientFds := remove1 fd (clientFds sv)\<rparr>)"
  using assms by (simp add: checkRecv_def removeClient_def)

lemma srv_frame_remove: "srv_frame i sv (sv\<lparr>clientFds := remove1 fd (clientFds sv)\<rparr>)"
  by (auto simp: srv_frame_def dest: notin_set_remove1)

lemma srv_frame_reqbuf: "srv_frame i sv (sv\<lparr>reqbuf := (reqbuf sv)[i := r]\<rparr>)"
  by (simp add: srv_frame_def)

lemma srv_frame_head: "srv_frame i sv (sv\<lparr>recvClientHead := h\<rparr>)"
  by (simp add: srv_frame_def)

lemma read_body_frame:
  assumes "fd \<in> set (clientFds sv)"
  shows "iter_frame i sv (read_body i fd sv e)"
proof (cases "recvfull (to_i32 (uint (rq_len (reqbuf sv ! i)))) (conns e fd)")
  case (Some x)
  obtain k got s where x: "x = (k, got, s)" by (cases x)
  define sv1 where "sv1 = sv\<lparr>reqbuf := (reqbuf sv)[i := (reqbuf sv ! i)\<lparr>rq_data :=
    store_data got (rq_data (reqbuf sv ! i))\<rparr>]\<rparr>"
  have f: "srv_frame i sv sv1" "fd \<in> set (clientFds sv1)"
    using assms by (simp_all add: sv1_def srv_frame_reqbuf)
  from checkRecv_cases [OF f(2), of k "to_i32 (uint (rq_len (reqbuf sv ! i)))"] show ?thesis
    using f srv_frame_trans [OF f(1) srv_frame_remove]
    by (auto simp: read_body_def Let_def Some x sv1_def [symmetric] iter_frame_def)
qed (simp add: read_body_def iter_frame_def)

lemma read_request_frame:
  assumes "fd \<in> set (clientFds sv)"
  shows "iter_frame i sv (read_request i fd sv e)"
proof (cases "i < length (reqbuf sv) \<and> recvfull 80 (conns e fd) \<noteq> None")
  case True
  then obtain k got s where r: "recvfull 80 (conns e fd) = Some (k, got, s)" and i: "i < length (reqbuf sv)"
    by auto
  define sv1 where "sv1 = sv\<lparr>reqbuf := (reqbuf sv)[i := load_request_header got (reqbuf sv ! i)]\<rparr>"
  define e1 where "e1 = e\<lparr>conns := (conns e)(fd := s)\<rparr>"
  have f: "srv_frame i sv sv1" "fd \<in> set (clientFds sv1)"
    using assms by (simp_all add: sv1_def srv_frame_reqbuf)
  have body: "iter_frame i sv (read_body i fd sv1 e1)"
    by (rule iter_frame_trans [OF f(1) read_body_frame [OF f(2)]])
  from checkRecv_cases [OF assms, of k 80] show ?thesis
  proof (elim disjE)
    assume "checkRecv k 80 fd sv = Inr (True, sv)"
    with body i r show ?thesis by (simp add: read_request_def sv1_def e1_def)
  next
    assume "checkRecv k 80 fd sv = Inl (Exit (- 1))"
    with i r show ?thesis by (simp add: read_request_def iter_frame_def)
  next
    assume "checkRecv k 80 fd sv = Inr (False, sv\<lparr>clientFds := remove1 fd (clientFds sv)\<rparr>)"
    with i r srv_frame_remove show ?thesis by (simp add: read_request_def iter_frame_def)
  qed
next
  case False
  then show ?thesis
    by (cases "recvfull 80 (conns e fd)") (auto simp: read_request_def iter_frame_def)
qed

lemma serve_ready_frame: "iter_frame i sv (serve_ready i rs sv e)"
proof -
  define sv1 where "sv1 = sv\<lparr>recvClientHead := (recvClientHead sv + 1) mod length (clientFds sv)\<rparr>"
  define fd where "fd = pick_fd rs (clientFds sv) (recvClientHead sv)"
  have f: "srv_frame i sv sv1" by (simp add: sv1_def srv_frame_head)
  have eq: "serve_ready i rs sv e = (if fd = - 1 then Some (Again sv1 e) else read_request i fd sv1 e)"
    by (simp add: serve_ready_def Let_def sv1_def fd_def)
  show ?thesis
  proof (cases "fd = - 1")
    case True
    with f eq show ?thesis by (simp add: iter_frame_def)
  next
    case False
    then have "fd \<in> set (clientFds sv1)"
      using pick_fd_cases [of rs "clientFds sv" "recvClientHead sv"] by (simp add: fd_def sv1_def)
    from iter_frame_trans [OF f read_request_frame [OF this]] False eq show ?thesis by simp
  qed
qed

lemma checkNewClient_frame: "checkNewClient fdSet sv e = Some (b, sv', e') \<Longrightarrow> srv_frame i sv sv'"
  by (auto simp: checkNewClient_def srv_frame_def split: if_splits list.splits)

lemma os_select_no_erase: "os_select fds e = Some (Inl f, e') \<Longrightarrow> f \<noteq> Undefined ''erase(end())''"
  by (auto simp: os_select_def split: if_splits list.splits option.splits)

lemma recvReq_iter_frame: "iter_frame i sv (recvReq_iter i sv e)"
proof (cases "clientFds sv = []")
  case True
  then show ?thesis
    by (auto simp: recvReq_iter_def iter_frame_def split: option.splits sum.splits
          dest: checkNewClient_frame os_select_no_erase intro: srv_frame_trans srv_frame_head)
next
  case False
  then show ?thesis
    by (auto simp: recvReq_iter_def split: option.splits sum.splits bool.splits
          dest: checkNewClient_frame os_select_no_erase
          intro: serve_ready_frame iter_frame_trans simp: iter_frame_def [of _ _ None] iter_frame_def [of _ _ "Some (Fail _)"])
qed

lemma recvReq_loop_frame:
  "recvReq_loop i sv e = Some (Inr (fd, sv', e')) \<Longrightarrow> srv_frame i sv sv' \<and> fd \<in> set (clientFds sv')"
proof (induction i sv e rule: recvReq_loop.induct)
  case (1 i sv e)
  note fr = recvReq_iter_frame [of i sv e]
  from "1.prems" show ?case
    using "1.IH" fr
    by (subst (asm) recvReq_loop.simps)
       (auto simp: iter_frame_def split: option.splits iter.splits intro: srv_frame_trans)
qed

lemma recvReq_loop_no_erase:
  "recvReq_loop i sv e = Some (Inl f) \<Longrightarrow> f \<noteq> Undefined ''erase(end())''"
proof (induction i sv e rule: recvReq_loop.induct)
  case (1 i sv e)
  note fr = recvReq_iter_frame [of i sv e]
  from "1.prems" show ?case
    using "1.IH" fr
    by (subst (asm) recvReq_loop.simps) (auto simp: iter_frame_def split: option.splits iter.splits)
qed

lemma recvReq_spec:
  assumes "recvReq i t sv e = Some (Inr (len, dat, cr, sv', e'))"
  shows "i < length (reqInfo sv)" "i < length (activeFds sv)"
    "reqInfo sv' = (reqInfo sv)[i := \<lparr>ri_id = rq_id (reqbuf sv' ! i), ri_startNs = t\<rparr>]"
    "activeFds sv' = (activeFds sv)[i := activeFds sv' ! i]"
    "activeFds sv' ! i \<in> set (clientFds sv')"
    "len = rq_len (reqbuf sv' ! i)" "dat = rq_data (reqbuf sv' ! i)" "start_file sv'"
    "\<forall>j. j \<noteq> i \<longrightarrow> reqbuf sv' ! j = reqbuf sv ! j"
    "cr = (if \<not> start_file sv \<and> start_file_name sv \<noteq> [] then Some (start_file_name sv) else None)"
proof -
  obtain fd sv1 e1 where l: "recvReq_loop i sv e = Some (Inr (fd, sv1, e1))"
    using assms by (auto simp: recvReq_def split: option.splits sum.splits)
  note fr = recvReq_loop_frame [OF l]
  have g: "i < length (reqInfo sv1)" "i < length (activeFds sv1)"
    using assms l by (auto simp: recvReq_def split: if_splits)
  with fr show "i < length (reqInfo sv)" "i < length (activeFds sv)" by (simp_all add: srv_frame_def)
  have sv': "sv' = sv1\<lparr>reqInfo := (reqInfo sv1)[i := \<lparr>ri_id = rq_id (reqbuf sv1 ! i), ri_startNs = t\<rparr>],
      activeFds := (activeFds sv1)[i := fd], start_file := True\<rparr>"
    and o: "len = rq_len (reqbuf sv1 ! i)" "dat = rq_data (reqbuf sv1 ! i)"
      "cr = (if \<not> start_file sv1 \<and> start_file_name sv1 \<noteq> [] then Some (start_file_name sv1) else None)"
    using assms l g by (auto simp: recvReq_def Let_def split del: if_split)
  then show "reqInfo sv' = (reqInfo sv)[i := \<lparr>ri_id = rq_id (reqbuf sv' ! i), ri_startNs = t\<rparr>]"
    "activeFds sv' = (activeFds sv)[i := activeFds sv' ! i]"
    "activeFds sv' ! i \<in> set (clientFds sv')"
    "len = rq_len (reqbuf sv' ! i)" "dat = rq_data (reqbuf sv' ! i)" "start_file sv'"
    "\<forall>j. j \<noteq> i \<longrightarrow> reqbuf sv' ! j = reqbuf sv ! j"
    using fr g by (simp_all add: srv_frame_def split del: if_split)
  from o(3) fr show "cr = (if \<not> start_file sv \<and> start_file_name sv \<noteq> [] then Some (start_file_name sv) else None)"
    by (simp add: srv_frame_def)
qed

section \<open>The contract of the server\<close>

text \<open>
  The calls of the networked server as steps of its threads: a \<open>recvReq\<close> that returned, with the id
  of the request, the time it was handed over and the descriptor it came from; a \<open>sendResp\<close> that
  returned, with the response, the time it was built and the descriptor it went to.
\<close>

definition net_info :: "NetworkedServer \<Rightarrow> nat \<Rightarrow> u64 \<times> u64 \<times> int" where
  "net_info sv i = (ri_id (reqInfo sv ! i), ri_startNs (reqInfo sv ! i), activeFds sv ! i)"

definition net_recvs :: "nat \<Rightarrow> u64 \<Rightarrow> u64 \<Rightarrow> int \<Rightarrow> NetworkedServer \<Rightarrow> NetworkedServer \<Rightarrow> bool" where
  "net_recvs i rid t fd sv sv' \<longleftrightarrow>
     (\<exists>e len dat cr e'. recvReq i t sv e = Some (Inr (len, dat, cr, sv', e')) \<and>
        rid = rq_id (reqbuf sv' ! i) \<and> fd = activeFds sv' ! i)"

definition net_sends :: "nat \<Rightarrow> Response \<Rightarrow> u64 \<Rightarrow> int \<Rightarrow> NetworkedServer \<Rightarrow> NetworkedServer \<Rightarrow> bool" where
  "net_sends i resp t fd sv sv' \<longleftrightarrow>
     (\<exists>data len outs out outs'. sendResp i data len t outs sv = Some (Inr (fd, out, outs', sv')) \<and>
        resp = make_resp (reqInfo sv ! i) data len t)"

interpretation net: server_api net_info net_recvs net_sends
proof
  fix i rid t ch s s'
  assume "net_recvs i rid t ch s s'"
  then obtain e len dat cr e' where r: "recvReq i t s e = Some (Inr (len, dat, cr, s', e'))"
    and o: "rid = rq_id (reqbuf s' ! i)" "ch = activeFds s' ! i" by (auto simp: net_recvs_def)
  note sp = recvReq_spec [OF r]
  show "net_info s' i = (rid, t, ch)" using sp o by (simp add: net_info_def)
  fix j assume "j \<noteq> i"
  then have "reqInfo s' ! j = reqInfo s ! j" "activeFds s' ! j = activeFds s ! j"
    using sp(3,4) nth_list_update_neq by metis+
  then show "net_info s' j = net_info s j" by (simp add: net_info_def)
next
  fix i resp t ch s s' j
  assume "net_sends i resp t ch s s'"
  then show "net_info s' j = net_info s j"
    by (auto simp: net_sends_def net_info_def dest!: sendResp_spec(7))
next
  fix i resp t ch s s' rid t0 ch0
  assume "net_sends i resp t ch s s'" "net_info s i = (rid, t0, ch0)"
  then show "rs_id resp = rid \<and> rs_svcNs resp = t - t0 \<and> t0 < t \<and> ch = ch0"
    using sendResp_spec(5,6) by (auto simp: net_sends_def net_info_def make_resp_def)
qed

text \<open>The request buffer a thread works on is not written by the calls of other threads.\<close>

lemma others_reqbuf: "net.others i sv sv' \<Longrightarrow> reqbuf sv' ! i = reqbuf sv ! i"
  by (auto simp: net.others_def net.acts_def net_recvs_def net_sends_def
        dest!: recvReq_spec(9) sendResp_spec(7))

lemma others_reqbuf_star: "(net.others i)\<^sup>*\<^sup>* sv sv' \<Longrightarrow> reqbuf sv' ! i = reqbuf sv ! i"
  by (induction rule: rtranclp_induct) (auto dest: others_reqbuf)

text \<open>A step of one thread, as the calls that returned.\<close>

definition net_step :: "nat \<Rightarrow> NetworkedServer \<Rightarrow> NetworkedServer \<Rightarrow> bool" where
  "net_step i sv sv' \<longleftrightarrow>
     (\<exists>t e len dat cr e'. recvReq i t sv e = Some (Inr (len, dat, cr, sv', e'))) \<or>
     (\<exists>data len t outs fd out outs'. sendResp i data len t outs sv = Some (Inr (fd, out, outs', sv')))"

lemma net_step_acts: "net_step i sv sv' \<longleftrightarrow> net.acts i sv sv'"
  unfolding net_step_def net.acts_def net_recvs_def net_sends_def by blast

definition other_steps :: "nat \<Rightarrow> NetworkedServer \<Rightarrow> NetworkedServer \<Rightarrow> bool" where
  "other_steps i sv sv' \<longleftrightarrow> (\<lambda>a b. \<exists>j. j \<noteq> i \<and> net_step j a b)\<^sup>*\<^sup>* sv sv'"

lemma other_steps_others: "other_steps i sv sv' \<longleftrightarrow> (net.others i)\<^sup>*\<^sup>* sv sv'"
proof -
  have "(\<lambda>a b. \<exists>j. j \<noteq> i \<and> net_step j a b) = net.others i"
    by (intro ext) (simp add: net.others_def net_step_acts)
  then show ?thesis by (simp add: other_steps_def)
qed

text \<open>A ready client whose request is complete is delivered by the next round of the loop.\<close>

lemma recvReq_delivers:
  assumes i: "i < length (reqbuf sv)" "i < length (reqInfo sv)" "i < length (activeFds sv)"
    and sel: "selects e = Some ready # sels" "list_all fd_ok (listenFd sv # clientFds sv)"
      "listenFd sv \<notin> set ready" "clientFds sv \<noteq> []"
    and fd: "fd = pick_fd (filter (\<lambda>f. f \<in> set ready) (listenFd sv # clientFds sv)) (clientFds sv) (recvClientHead sv)"
      "fd \<noteq> - 1"
    and bytes: "rx_bytes (conns e fd) = request_header r @ data @ rest"
    and len: "rq_len r = of_nat (length data)" "0 < length data" "length data \<le> 2 ^ 20"
  shows "\<exists>cr sv' e'. recvReq i t sv e = Some (Inr (rq_len r, store_data data (rq_data (reqbuf sv ! i)), cr, sv', e')) \<and>
    reqbuf sv' ! i = r\<lparr>rq_data := store_data data (rq_data (reqbuf sv ! i))\<rparr> \<and> activeFds sv' ! i = fd \<and>
    reqInfo sv' ! i = \<lparr>ri_id = rq_id r, ri_startNs = t\<rparr> \<and> length (reqInfo sv') = length (reqInfo sv) \<and>
    length (activeFds sv') = length (activeFds sv) \<and> rx_bytes (conns e' fd) = rest"
proof -
  define sv1 where "sv1 = sv\<lparr>recvClientHead := (recvClientHead sv + 1) mod length (clientFds sv)\<rparr>"
  define e1 where "e1 = e\<lparr>selects := sels\<rparr>"
  have i1: "i < length (reqbuf sv1)" using i by (simp add: sv1_def)
  have b1: "rx_bytes (conns e1 fd) = request_header r @ data @ rest" using bytes by (simp add: e1_def)
  obtain sv2 e2 where rr: "read_request i fd sv1 e1 = Some (Stop fd sv2 e2)"
    and sv2: "reqbuf sv2 ! i = r\<lparr>rq_data := store_data data (rq_data (reqbuf sv1 ! i))\<rparr>" "sv2 = sv1\<lparr>reqbuf := reqbuf sv2\<rparr>"
      "rx_bytes (conns e2 fd) = rest"
    using read_request_roundtrip [OF i1 b1 len] by blast
  have it: "recvReq_iter i sv e = Some (Stop fd sv2 e2)"
  proof -
    have os: "os_select (listenFd sv # clientFds sv) e =
        Some (Inr (filter (\<lambda>f. f \<in> set ready) (listenFd sv # clientFds sv)), e1)"
      using sel(1,2) by (simp add: os_select_def e1_def)
    have nc: "checkNewClient (filter (\<lambda>f. f \<in> set ready) (listenFd sv # clientFds sv)) sv e1 = Some (False, sv, e1)"
      using sel(3) by (simp add: checkNewClient_def)
    have "serve_ready i (filter (\<lambda>f. f \<in> set ready) (listenFd sv # clientFds sv)) sv e1 = Some (Stop fd sv2 e2)"
      unfolding serve_ready_def Let_def fd(1) [symmetric] sv1_def [symmetric] using fd(2) rr by simp
    then show ?thesis unfolding recvReq_iter_def os using sel(4) nc by simp
  qed
  have sel2: "reqInfo sv2 = reqInfo sv" "activeFds sv2 = activeFds sv" "rq_data (reqbuf sv1 ! i) = rq_data (reqbuf sv ! i)"
    using arg_cong [OF sv2(2), of reqInfo] arg_cong [OF sv2(2), of activeFds] by (simp_all add: sv1_def)
  have "recvReq_loop i sv e = Some (Inr (fd, sv2, e2))" by (subst recvReq_loop.simps) (simp add: it)
  then show ?thesis using i sv2(1,3) sel2 by (simp add: recvReq_def Let_def)
qed

end
