(* ===== verification/Harness_Integrated.thy ===== *)
theory Harness_Integrated
  imports Harness_Client Harness_NetServer
begin

text \<open>
  The integrated server, \<^verbatim>\<open>src/harness/tbench_server_integrated.cpp\<close>: one object that is both
  \<open>Server\<close> and \<open>Client\<close>, so that an application calls the load generator directly, and the JNI
  bridge \<^verbatim>\<open>src/harness/tbench_jni.cpp\<close> by which the Java application calls either server. The theory
  shows that the integrated server implements the contract of the server interface, and that it
  cannot complete more than one request.
\<close>

section \<open>IntegratedServer\<close>

record IntegratedServer =
  is_client :: Client
  is_finishedReqs :: u64
  is_maxReqs :: u64
  is_warmupReqs :: u64
  is_start_file :: bool
  is_reqInfo :: "ReqInfo list"

definition new_IntegratedServer :: "Uninit \<Rightarrow> env \<Rightarrow> int \<Rightarrow> IntegratedServer res" where
  "new_IntegratedServer u e nthr =
     (if nthr < 0 then Inl (Throw ''std::length_error'')
      else bind_res (new_Client u e nthr 0 0 0) (\<lambda>c.
        Inr \<lparr>is_client = c, is_finishedReqs = 0,
             is_maxReqs = word_of_int (getOpt_int e ''TBENCH_MAXREQS'' 0),
             is_warmupReqs = word_of_int (getOpt_int e ''TBENCH_WARMUPREQS'' 0),
             is_start_file = False,
             is_reqInfo = replicate (nat nthr) \<lparr>ri_id = 0, ri_startNs = 0\<rparr>\<rparr>))"

text \<open>The id stands for the request object whose data array the caller is pointed to.\<close>

definition int_recvReq ::
    "sampler \<Rightarrow> nat \<Rightarrow> sr_input \<Rightarrow> u64 \<Rightarrow> IntegratedServer \<Rightarrow> (u64 \<times> u64 \<times> IntegratedServer) res option" where
  "int_recvReq smp i inp curNs s =
     (case startReq smp inp (is_client s) of
        None \<Rightarrow> None
      | Some (Inl f) \<Rightarrow> Some (Inl f)
      | Some (Inr (rid, c)) \<Rightarrow>
          (case inFlightReqs c rid of
             None \<Rightarrow> Some (Inl (Undefined ''deleted Request''))
           | Some req \<Rightarrow>
               (if \<not> i < length (is_reqInfo s) then Some (Inl (Undefined ''vector index''))
                else Some (Inr (rid, rq_len req,
                  s\<lparr>is_client := c, is_reqInfo := (is_reqInfo s)[i :=
                       \<lparr>ri_id = rq_id req, ri_startNs = curNs\<rparr>]\<rparr>)))))"

datatype int_end = IntReturn IntegratedServer | IntExit IntegratedServer Stats

definition int_finish :: "u64 \<Rightarrow> u64 \<Rightarrow> IntegratedServer \<Rightarrow> int_end res" where
  "int_finish roiNs fiNs s =
     (let s1 = s\<lparr>is_finishedReqs := is_finishedReqs s + 1\<rparr>
      in if is_finishedReqs s1 = is_warmupReqs s1
         then bind_res (startRoi_unlocked roiNs (is_client s1)) (\<lambda>c. Inr (IntReturn (s1\<lparr>is_client := c\<rparr>)))
         else if is_finishedReqs s1 = is_warmupReqs s1 + is_maxReqs s1
         then bind_res (dumpStats fiNs (is_client s1)) (\<lambda>(c, st). Inr (IntExit (s1\<lparr>is_client := c\<rparr>) st))
         else Inr (IntReturn s1))"

text \<open>The clock readings: the response's, \<open>finiReq\<close>'s three, and those of the second phase decision.\<close>

record is_times =
  it_resp :: u64
  it_fini :: u64
  it_roi :: u64
  it_dump :: u64
  it_roi2 :: u64
  it_dump2 :: u64

definition int_sendResp :: "nat \<Rightarrow> byte list \<Rightarrow> u64 \<Rightarrow> is_times \<Rightarrow> IntegratedServer \<Rightarrow> int_end res" where
  "int_sendResp i data len tm s =
     (if \<not> i < length (is_reqInfo s) then Inl (Undefined ''vector index'')
      else if int (unat len) > MAX_RESP_BYTES then Inl (Undefined ''Response::data overrun'')
      else if length data < unat len then Inl (Undefined ''read past data'')
      else if \<not> ri_startNs (is_reqInfo s ! i) < it_resp tm
      then Inl (Abort ''curNs > reqInfo[id].startNs'')
      else bind_res (finiReq (make_resp (is_reqInfo s ! i) data len (it_resp tm))
                       (it_fini tm) (it_roi tm) (it_dump tm) (is_client s)) (\<lambda>r.
             case r of
               FiniExit c st \<Rightarrow> Inr (IntExit (s\<lparr>is_client := c\<rparr>) st)
             | FiniReturn c \<Rightarrow> int_finish (it_roi2 tm) (it_dump2 tm) (s\<lparr>is_client := c\<rparr>)))"

definition int_tBenchServerInit :: "Uninit \<Rightarrow> env \<Rightarrow> int \<Rightarrow> (int \<times> IntegratedServer) res" where
  "int_tBenchServerInit u e nthr = bind_res (new_IntegratedServer u e nthr) (\<lambda>s. Inr (0, s))"

definition int_tBenchServerFinish :: "u64 \<Rightarrow> IntegratedServer \<Rightarrow> (IntegratedServer \<times> Stats) res" where
  "int_tBenchServerFinish fiNs s =
     bind_res (dumpStats fiNs (is_client s)) (\<lambda>(c, st). Inr (s\<lparr>is_client := c\<rparr>, st))"

section \<open>JNI bridge\<close>

text \<open>
  \<open>jni_recvReq\<close> is the part of \<open>tBenchRecvReq\<close> after the native call: it copies the \<open>len\<close> bytes with
  an \<open>int\<close> counter into a Java array of that length.
  \<open>jni_sendResp\<close> gives the native call the whole array; its \<open>sz\<close> argument is not used.
\<close>

definition jni_recvReq :: "u64 \<Rightarrow> byte list \<Rightarrow> byte list res" where
  "jni_recvReq len cdata =
     (if length cdata < unat len then Inl (Undefined ''read past data'')
      else if 2 ^ 31 \<le> unat len then Inl (Undefined ''signed overflow'')
      else Inr (take (unat len) cdata))"

definition jni_sendResp :: "byte list \<Rightarrow> int \<Rightarrow> byte list \<times> u64" where
  "jni_sendResp arr sz = (arr, of_nat (length arr))"

section \<open>The contract\<close>

definition int_info :: "IntegratedServer \<Rightarrow> nat \<Rightarrow> u64 \<times> u64 \<times> unit" where
  "int_info s i = (ri_id (is_reqInfo s ! i), ri_startNs (is_reqInfo s ! i), ())"

definition int_recvs ::
    "sampler \<Rightarrow> nat \<Rightarrow> u64 \<Rightarrow> u64 \<Rightarrow> unit \<Rightarrow> IntegratedServer \<Rightarrow> IntegratedServer \<Rightarrow> bool" where
  "int_recvs smp i rid t ch s s' \<longleftrightarrow>
     (\<exists>inp rid0 len req. int_recvReq smp i inp t s = Some (Inr (rid0, len, s')) \<and>
        inFlightReqs (is_client s') rid0 = Some req \<and> rid = rq_id req)"

definition int_sends ::
    "nat \<Rightarrow> Response \<Rightarrow> u64 \<Rightarrow> unit \<Rightarrow> IntegratedServer \<Rightarrow> IntegratedServer \<Rightarrow> bool" where
  "int_sends i resp t ch s s' \<longleftrightarrow>
     (\<exists>data len tm. int_sendResp i data len tm s = Inr (IntReturn s') \<and> t = it_resp tm \<and>
        resp = make_resp (is_reqInfo s ! i) data len t)"

lemma int_recvReq_spec:
  assumes "int_recvReq smp i inp t s = Some (Inr (rid, len, s'))"
  obtains req c where "startReq smp inp (is_client s) = Some (Inr (rid, c))" "inFlightReqs c rid = Some req"
    "i < length (is_reqInfo s)" "len = rq_len req"
    "s' = s\<lparr>is_client := c, is_reqInfo := (is_reqInfo s)[i := \<lparr>ri_id = rq_id req, ri_startNs = t\<rparr>]\<rparr>"
  using assms by (auto simp: int_recvReq_def split: option.splits sum.splits prod.splits if_splits)

lemma int_finish_frame:
  "int_finish t1 t2 s = Inr (IntReturn s') \<Longrightarrow> is_reqInfo s' = is_reqInfo s \<and>
     (is_client s' = is_client s \<or> startRoi_unlocked t1 (is_client s) = Inr (is_client s'))"
  by (auto simp: int_finish_def Let_def split: if_splits)

lemma int_sendResp_spec:
  assumes "int_sendResp i data len tm s = Inr (IntReturn s')"
  obtains c where "i < length (is_reqInfo s)" "ri_startNs (is_reqInfo s ! i) < it_resp tm"
    "finiReq (make_resp (is_reqInfo s ! i) data len (it_resp tm)) (it_fini tm) (it_roi tm) (it_dump tm)
       (is_client s) = Inr (FiniReturn c)"
    "int_finish (it_roi2 tm) (it_dump2 tm) (s\<lparr>is_client := c\<rparr>) = Inr (IntReturn s')"
proof -
  obtain r where g: "i < length (is_reqInfo s)" "ri_startNs (is_reqInfo s ! i) < it_resp tm" and
    r: "finiReq (make_resp (is_reqInfo s ! i) data len (it_resp tm)) (it_fini tm) (it_roi tm) (it_dump tm)
       (is_client s) = Inr r" "(case r of FiniExit c st \<Rightarrow> Inr (IntExit (s\<lparr>is_client := c\<rparr>) st)
             | FiniReturn c \<Rightarrow> int_finish (it_roi2 tm) (it_dump2 tm) (s\<lparr>is_client := c\<rparr>)) = Inr (IntReturn s')"
    using assms unfolding int_sendResp_def bind_res_Inr_iff by (auto split: if_splits)
  then show thesis using that by (cases r) auto
qed

interpretation integrated: server_api int_info "int_recvs smp" int_sends for smp
proof
  fix i rid t ch s s'
  assume "int_recvs smp i rid t ch s s'"
  then obtain inp rid0 len req where r: "int_recvReq smp i inp t s = Some (Inr (rid0, len, s'))"
    and o: "inFlightReqs (is_client s') rid0 = Some req" "rid = rq_id req" by (auto simp: int_recvs_def)
  from r obtain req' c where "inFlightReqs c rid0 = Some req'" "i < length (is_reqInfo s)"
    "s' = s\<lparr>is_client := c, is_reqInfo := (is_reqInfo s)[i := \<lparr>ri_id = rq_id req', ri_startNs = t\<rparr>]\<rparr>"
    by (rule int_recvReq_spec)
  with o show "int_info s' i = (rid, t, ch)" "\<And>j. j \<noteq> i \<Longrightarrow> int_info s' j = int_info s j"
    by (simp_all add: int_info_def)
next
  fix i resp t ch s s' j
  assume "int_sends i resp t ch s s'"
  then have "is_reqInfo s' = is_reqInfo s"
    by (auto simp: int_sends_def elim!: int_sendResp_spec dest!: int_finish_frame)
  then show "int_info s' j = int_info s j" by (simp add: int_info_def)
next
  fix i resp t ch s s' rid t0 ch0
  assume "int_sends i resp t ch s s'" "int_info s i = (rid, t0, ch0)"
  then show "rs_id resp = rid \<and> rs_svcNs resp = t - t0 \<and> t0 < t \<and> ch = ch0"
    by (auto simp: int_sends_def int_info_def make_resp_def elim: int_sendResp_spec)
qed

section \<open>The second response\<close>

text \<open>
  The base class is constructed with \<open>warmupreqs = 0\<close>, and \<open>finiReq\<close> starts the region of interest
  on every completed request when \<open>warmupreqs\<close> is zero; \<open>_startRoi\<close> asserts that it has not started.
\<close>

lemma startRoi_unlocked_status:
  "startRoi_unlocked t c = Inr c' \<Longrightarrow> status c = WARMUP \<and> status c' = ROI \<and> warmupreqs c' = warmupreqs c"
  by (auto simp: startRoi_unlocked_def split: if_splits)

lemma finiReq_no_warmup:
  assumes "warmupreqs c = 0" "finiReq resp t1 t2 t3 c = Inr r"
  obtains c' where "r = FiniReturn c'" "status c = WARMUP" "status c' = ROI" "warmupreqs c' = 0"
proof -
  obtain req where "finiReq_end t2 t3 ((fini_record req resp t1 c)\<lparr>inFlightReqs :=
      (inFlightReqs c)(rs_id resp := None)\<rparr>) = Inr r"
    using assms(2) by (auto simp: finiReq_def split: option.splits if_splits)
  then obtain c1 c' where "startRoi_unlocked t2 c1 = Inr c'" "r = FiniReturn c'"
    "status c1 = status c" "warmupreqs c1 = 0"
    using assms(1) by (auto simp: finiReq_end_def Let_def fini_record_def split: if_splits)
  with startRoi_unlocked_status [of t2 c1 c'] that show thesis by auto
qed

lemma startReq_front_status:
  "startReq_front i c = Inr c1 \<Longrightarrow> warmupreqs c1 = warmupreqs c \<and> (status c = ROI \<longrightarrow> status c1 = ROI)"
  by (auto simp: startReq_front_def startReq_init_def split: if_splits dest!: startReq_qps_frame)

lemma startReq_gen_status:
  "startReq_gen smp a b d dat len c = Inr (rid, c') \<Longrightarrow> warmupreqs c' = warmupreqs c \<and> status c' = status c"
  by (erule startReq_gen_spec) simp

lemma startReq_status:
  assumes "startReq smp i c = Some (Inr (rid, c'))"
  shows "warmupreqs c' = warmupreqs c \<and> (status c = ROI \<longrightarrow> status c' = ROI)"
proof -
  obtain c1 c2 n where f: "startReq_front i c = Inr c1"
    and g: "startReq_gen smp (sr_startNs i) (sr_lock_ad i) (sr_lock_re i) (sr_data i) (sr_len i) c1 = Inr (rid, c2)"
    and c': "c' = (startReq_late rid c2)\<lparr>total_sleep_ns := n\<rparr>"
    by (rule startReq_decompose [OF assms])
  show ?thesis using startReq_front_status [OF f] startReq_gen_status [OF g]
    by (simp add: c' startReq_late_def upd_req_def)
qed

datatype int_op =
    OpRecv nat sr_input u64
  | OpSend nat "byte list" u64 is_times

text \<open>A sequence of calls that all returned, with the number of responses among them.\<close>

inductive int_runs :: "sampler \<Rightarrow> int_op list \<Rightarrow> IntegratedServer \<Rightarrow> IntegratedServer \<Rightarrow> bool"
  for smp where
  run_nil: "int_runs smp [] s s"
| run_recv: "int_recvReq smp i inp t s = Some (Inr (rid, len, s1)) \<Longrightarrow> int_runs smp ops s1 s' \<Longrightarrow>
    int_runs smp (OpRecv i inp t # ops) s s'"
| run_send: "int_sendResp i data len tm s = Inr (IntReturn s1) \<Longrightarrow> int_runs smp ops s1 s' \<Longrightarrow>
    int_runs smp (OpSend i data len tm # ops) s s'"

inductive_cases int_runs_nilE: "int_runs smp [] s s'"
inductive_cases int_runs_sendE: "int_runs smp (OpSend i data len tm # ops) s s'"

fun is_send :: "int_op \<Rightarrow> bool" where
  "is_send (OpRecv i inp t) = False"
| "is_send (OpSend i data len tm) = True"

lemma int_sendResp_no_warmup:
  assumes "warmupreqs (is_client s) = 0" "int_sendResp i data len tm s = Inr (IntReturn s')"
  shows "status (is_client s) = WARMUP \<and> status (is_client s') = ROI \<and> warmupreqs (is_client s') = 0"
proof -
  obtain c where f: "finiReq (make_resp (is_reqInfo s ! i) data len (it_resp tm)) (it_fini tm)
      (it_roi tm) (it_dump tm) (is_client s) = Inr (FiniReturn c)"
    and g: "int_finish (it_roi2 tm) (it_dump2 tm) (s\<lparr>is_client := c\<rparr>) = Inr (IntReturn s')"
    by (rule int_sendResp_spec [OF assms(2)])
  from finiReq_no_warmup [OF assms(1) f]
  have c: "status (is_client s) = WARMUP" "status c = ROI" "warmupreqs c = 0" by auto
  then show ?thesis using int_finish_frame [OF g] startRoi_unlocked_status by auto
qed

lemma int_recvReq_client:
  assumes "int_recvReq smp i inp t s = Some (Inr (rid, len, s'))"
  shows "warmupreqs (is_client s') = warmupreqs (is_client s) \<and>
    (status (is_client s) = ROI \<longrightarrow> status (is_client s') = ROI)"
  using assms by (rule int_recvReq_spec) (auto dest: startReq_status)

lemma int_runs_roi:
  "int_runs smp ops s s' \<Longrightarrow> warmupreqs (is_client s) = 0 \<Longrightarrow> status (is_client s) = ROI \<Longrightarrow>
     \<not> list_ex is_send ops"
proof (induction rule: int_runs.induct)
  case (run_recv i inp t s rid len s1 ops s')
  with int_recvReq_client [OF run_recv.hyps(1)] show ?case by simp
next
  case (run_send i data len tm s s1 ops s')
  with int_sendResp_no_warmup [OF run_send.prems(1) run_send.hyps(1)] show ?case by simp
qed simp

lemma int_runs_sends:
  "int_runs smp ops s s' \<Longrightarrow> warmupreqs (is_client s) = 0 \<Longrightarrow> length (filter is_send ops) \<le> 1"
proof (induction rule: int_runs.induct)
  case (run_recv i inp t s rid len s1 ops s')
  with int_recvReq_client [OF run_recv.hyps(1)] show ?case by simp
next
  case (run_send i data len tm s s1 ops s')
  note n = int_sendResp_no_warmup [OF run_send.prems(1) run_send.hyps(1)]
  with int_runs_roi [OF run_send.hyps(2)] have "filter is_send ops = []"
    by (simp add: list_ex_iff filter_empty_conv)
  then show ?case by simp
qed simp

lemma new_IntegratedServer_warmup:
  "new_IntegratedServer u e nthr = Inr s \<Longrightarrow> warmupreqs (is_client s) = 0"
  by (auto simp: new_IntegratedServer_def split: if_splits dest!: new_Client_fields(5))

lemma int_runs_warmup:
  "int_runs smp ops s s' \<Longrightarrow> warmupreqs (is_client s) = 0 \<Longrightarrow> warmupreqs (is_client s') = 0"
proof (induction rule: int_runs.induct)
  case (run_recv i inp t s rid len s1 ops s')
  with int_recvReq_client [OF run_recv.hyps(1)] show ?case by simp
next
  case (run_send i data len tm s s1 ops s')
  with int_sendResp_no_warmup [OF run_send.prems(1) run_send.hyps(1)] show ?case by simp
qed simp

end
