(* ===== verification/Harness_Theorems.thy ===== *)
theory Harness_Theorems
  imports Harness_Concurrent Harness_Integrated
begin

text \<open>
  The properties of the harness that rest on one component or on the threads of one process, each
  with a concrete instance. The example values are a client with no options set and one thread.
\<close>

section \<open>Example values\<close>

definition ex_uninit :: Uninit where
  "ex_uninit = \<lparr>u_qpsIni = Fin 0, u_qpsInterval = 0, u_qpsStep = Fin 0, u_qpsCounter = 0,
     u_idxListQPS = 0, u_roi_start_ns = 0\<rparr>"

definition ex_env :: env where
  "ex_env = (\<lambda>_. None)"

definition ex_net :: net_setup where [example_defs]:
  "ex_net = \<lparr>gai_status = 0, socket_fd = 3, connect_rc = 0, nodelay_rc = 0\<rparr>"

definition ex_client :: Client where
  "ex_client = projr (new_Client ex_uninit ex_env 1 0 1 1)"

definition ex_nclient :: NetworkedClient where [example_defs]:
  "ex_nclient = projr (new_NetworkedClient ex_uninit ex_env ex_net 1 0 1 1)"

lemma ex_client_new: "new_Client ex_uninit ex_env 1 0 1 1 = Inr ex_client"
  by (simp add: ex_client_def new_Client_def ex_env_def getOpt_def add_i32_def Let_def)

lemma ex_nclient_new: "new_NetworkedClient ex_uninit ex_env ex_net 1 0 1 1 = Inr ex_nclient"
  using ex_client_new by (simp add: example_defs new_NetworkedClient_def)

lemma ex_base: "base ex_nclient = ex_client"
  using ex_client_new by (simp add: example_defs new_NetworkedClient_def)

lemmas ex_fields = new_Client_fields [OF ex_client_new]

lemma ex_client_inv: "client_inv ex_client"
  by (rule new_Client_inv [OF ex_client_new]) simp_all

text \<open>One request in flight, in each of the two phases.\<close>

definition ex_request :: Request where [example_defs]:
  "ex_request = new_Request\<lparr>rq_id := 0, rq_genNs := 10, rq_len := 2, rq_data := [7, 9]\<rparr>"

definition ex_dist :: ExpDist where
  "ex_dist = new_ExpDist (Fin 1) 0 0"

definition ex_warm :: Client where [example_defs]:
  "ex_warm = ex_client\<lparr>status := WARMUP, dist := Some ex_dist, startedReqs := 1,
     inFlightReqs := [0 \<mapsto> ex_request]\<rparr>"

definition ex_roi :: Client where [example_defs]:
  "ex_roi = ex_client\<lparr>status := ROI, dist := Some ex_dist, startedReqs := 2, numReqsCompleted := 1,
     inFlightReqs := [1 \<mapsto> ex_request\<lparr>rq_id := 1\<rparr>]\<rparr>"

lemma ex_warm_inv: "client_inv ex_warm"
  by (simp add: example_defs client_inv_defs ex_fields new_Request_def)

lemma ex_roi_inv: "client_inv ex_roi"
  by (simp add: example_defs client_inv_defs ex_fields new_Request_def)

definition ex_sampler :: sampler where
  "ex_sampler = (\<lambda>s l k. Fin 5)"

lemma ex_sampler_ok: "sampler_ok ex_sampler"
  by (simp add: sampler_ok_def ex_sampler_def)

section \<open>The threads of a client\<close>





section \<open>Bookkeeping\<close>



text \<open>
  C4. \<open>startReq\<close> keeps the invariant and hands out a request that no earlier call returned: its id is
  the next one, it is entered under it, and it carries the data the application generated, marked late
  exactly when its arrival time had passed before the call.
\<close>

theorem startReq_fresh:
  assumes "client_inv c" "unat (startedReqs c) + 1 < 2 ^ 64" "startReq smp i c = Some (Inr (rid, c'))"
  shows "client_inv c' \<and> rid = startedReqs c \<and> inFlightReqs c rid = None \<and>
    startedReqs c' = startedReqs c + 1 \<and>
    (\<exists>r. inFlightReqs c' = (inFlightReqs c)(rid \<mapsto> r) \<and> rq_id r = rid \<and> rq_data r = sr_data i \<and>
       rq_len r = sr_len i \<and> rq_startNs r = sr_startNs i \<and>
       rq_late r = (rq_genNs r < sr_startNs i))"
proof -
  obtain c1 c2 n where f: "startReq_front i c = Inr c1"
    and g: "startReq_gen smp (sr_startNs i) (sr_lock_ad i) (sr_lock_re i) (sr_data i) (sr_len i) c1 = Inr (rid, c2)"
    and c': "c' = (startReq_late rid c2)\<lparr>total_sleep_ns := n\<rparr>"
    by (rule startReq_decompose [OF assms(3)])
  note fr = startReq_front_inv [OF assms(1) f]
  obtain gn d' r where rid: "rid = startedReqs c1" and r: "r = new_Request\<lparr>rq_startNs := sr_startNs i,
      rq_startNs_lock_ad := sr_lock_ad i, rq_data := sr_data i, rq_len := sr_len i, rq_id := rid,
      rq_genNs := gn, rq_startNs_lock_re := sr_lock_re i\<rparr>"
    and c2: "c2 = c1\<lparr>startedReqs := rid + 1, dist := Some d', inFlightReqs := (inFlightReqs c1)(rid \<mapsto> r),
       gen_requests := gen_requests c1 + 1,
       timely_gen_requests := timely_gen_requests c1 + (if sr_startNs i < gn then 1 else 0),
       gen_req_ns := gen_req_ns c1 + (sr_lock_re i - sr_lock_ad i)\<rparr>"
    by (rule startReq_gen_spec [OF g])
  have "inFlightReqs c rid = None"
    using assms(1) fr rid by (cases "inFlightReqs c rid") (auto simp: client_inv_def inflight_inv_def)
  moreover have "inFlightReqs c' = (inFlightReqs c)(rid \<mapsto> r\<lparr>rq_late := gn < sr_startNs i\<rparr>)"
    using fr by (simp add: c' c2 startReq_late_def upd_req_def r)
  moreover have "startedReqs c' = startedReqs c + 1" using fr by (simp add: c' c2 startReq_late_def rid)
  ultimately show ?thesis using startReq_inv [OF assms] fr rid
    by (intro conjI exI [of _ "r\<lparr>rq_late := gn < sr_startNs i\<rparr>"]) (simp_all add: r)
qed

definition ex_input :: sr_input where [example_defs]:
  "ex_input = \<lparr>sr_startNs = 8, sr_initNs = 9, sr_qpsNs = 9, sr_lock_ad = 10, sr_data = [7, 9], sr_len = 2,
     sr_lock_re = 11, sr_curNs = 12, sr_wake = [13, 20]\<rparr>"

lemma ex_arrival: "nextArrivalNs ex_sampler (new_ExpDist l 0 9) =
    Inr (14, \<lparr>ed_lambda = l, ed_seed = 0, ed_draws = 1, ed_curNs = 14\<rparr>)"
proof -
  have "u64_of_double (add_double (double_of_u64 9) (Fin 5)) = Inr 14"
    by (simp add: double_of_u64_def double_of_int_def to_double_numeral trunc_rat_def)
  then show ?thesis by (simp add: nextArrivalNs_def new_ExpDist_def ex_sampler_def)
qed

lemma ex_seed: "seed ex_client = 0" "qpsVar ex_client = 0" "minSleepNs ex_client = 0"
  by (simp_all add: ex_client_def new_Client_def ex_env_def getOpt_def add_i32_def Let_def)

lemma ex_startReq: "\<exists>c'. startReq ex_sampler ex_input ex_client = Some (Inr (0, c'))"
  by (simp add: startReq_def Let_def ex_input_def ex_fields startReq_init_def startReq_qps_def ex_seed
      startReq_gen_def MAX_REQ_BYTES_def ex_arrival startReq_late_def upd_req_def startReq_sleep_def new_Request_def)

theorem startReq_fresh_witness:
  "\<exists>c'. startReq ex_sampler ex_input ex_client = Some (Inr (0, c')) \<and> client_inv c' \<and> startedReqs c' = 1"
proof -
  obtain c' where c': "startReq ex_sampler ex_input ex_client = Some (Inr (0, c'))" using ex_startReq by blast
  with startReq_fresh [OF ex_client_inv _ c'] show ?thesis by (simp add: ex_fields)
qed

text \<open>
  C5. The results file can be read back: cutting it into eight-byte little-endian words gives the rows
  of the five result vectors in order.
\<close>

fun words_of_bytes :: "nat \<Rightarrow> byte list \<Rightarrow> u64 list" where
  "words_of_bytes 0 bs = []"
| "words_of_bytes (Suc n) bs = le_word (take 8 bs) # words_of_bytes n (drop 8 bs)"

lemma words_of_bytes_concat: "words_of_bytes (length ws) (concat (map (le_bytes 8) ws)) = ws"
  by (induction ws) simp_all

lemma concat_rows: "concat (map (\<lambda>row. concat (map (le_bytes 8) row)) rows) = concat (map (le_bytes 8) (concat rows))"
  by (induction rows) simp_all

theorem dumpStats_roundtrip:
  assumes "vectors_inv c" "length (sjrnTimes c) < 2 ^ 31" "dumpStats t c = Inr (c', st)"
  shows "words_of_bytes (5 * length (sjrnTimes c)) (st_bytes st) =
    concat (map (\<lambda>i. [queueTimes c ! i, svcTimes c ! i, sjrnTimes c ! i, requestDate c ! i,
      NicSjrnTimes c ! i]) [0 ..< length (sjrnTimes c)])"
proof -
  obtain c'' st' where d: "dumpStats t c = Inr (c'', st')"
    and b: "st_bytes st' = concat (map (\<lambda>row. concat (map (le_bytes 8) row)) (result_rows c))"
    using dumpStats_ok [OF assms(1,2)] by metis
  have n: "length (concat (result_rows c)) = 5 * length (sjrnTimes c)"
    by (simp add: result_rows_def length_concat o_def sum_list_triv)
  have "words_of_bytes (length (concat (result_rows c))) (st_bytes st') = concat (result_rows c)"
    unfolding b concat_rows by (rule words_of_bytes_concat)
  then have "words_of_bytes (5 * length (sjrnTimes c)) (st_bytes st') = concat (result_rows c)"
    unfolding n .
  moreover have "st' = st" using d assms(3) by simp
  ultimately show ?thesis by (simp only: result_rows_def)
qed

definition ex_results :: Client where [example_defs]:
  "ex_results = ex_client\<lparr>queueTimes := [1], svcTimes := [2], sjrnTimes := [3], requestDate := [4],
     NicSjrnTimes := [5], numReqsCompleted := 2\<rparr>"

theorem dumpStats_roundtrip_witness:
  "\<exists>c' st. dumpStats 9 ex_results = Inr (c', st) \<and> words_of_bytes 5 (st_bytes st) = [1, 2, 3, 4, 5]"
proof -
  have v: "vectors_inv ex_results" "length (sjrnTimes ex_results) < 2 ^ 31"
    by (simp_all add: ex_results_def vectors_inv_def)
  obtain c' st where d: "dumpStats 9 ex_results = Inr (c', st)" using dumpStats_ok [OF v] by metis
  from dumpStats_roundtrip [OF v d] d show ?thesis by (simp add: ex_results_def)
qed

section \<open>Rate changes\<close>

text \<open>
  In the list mode (\<open>TBENCH_VARQPS=2\<close>) the rate cycles through the five configured values: after
  \<open>k\<close> changes the rate is entry \<open>k mod 5\<close> of the list, and every change creates a new arrival process
  at that rate that starts at the time of the change.
\<close>

definition list_mode :: "nat \<Rightarrow> Client \<Rightarrow> bool" where
  "list_mode k c \<longleftrightarrow> qpsVar c = 2 \<and> length (listQPS c) = 5 \<and> unat (idxListQPS c) = Suc k \<and>
     qpsIni c = listQPS c ! (k mod 5)"

lemma new_Client_list_mode:
  assumes "new_Client u e nt cid w m = Inr c" "getOpt_int e ''TBENCH_VARQPS'' 0 = 2"
  shows "list_mode 0 c"
  using assms by (auto simp: new_Client_def Let_def list_mode_def)

lemma change_qps_cycles:
  assumes "list_mode k c" "k < 2 ^ 32" "status c = ROI" "qpsCounter c = qpsInterval c"
    and "startReq_qps t c = Inr c'"
  shows "list_mode (Suc k) c' \<and> qpsCounter c' = 0 \<and>
    dist c' = Some (new_ExpDist (listQPS c ! (Suc k mod 5)) (seed c) t)"
proof -
  have n: "unat (idxListQPS c + 1) = unat (idxListQPS c) + 1"
    using assms(1,2) by (simp add: list_mode_def unat_word_ariths)
  have ne: "listQPS c \<noteq> []" using assms(1) by (auto simp: list_mode_def)
  from assms ne obtain iv where "c' = c\<lparr>qpsCounter := 0, qpsInterval := iv, qpsIni := listQPS c ! (Suc k mod 5),
      idxListQPS := idxListQPS c + 1, dist := Some (new_ExpDist (listQPS c ! (Suc k mod 5)) (seed c) t)\<rparr>"
    by (auto simp: startReq_qps_def change_qps_def list_mode_def Let_def)
  with assms(1) n show ?thesis by (simp add: list_mode_def)
qed

definition ex_list :: Client where [example_defs]:
  "ex_list = ex_client\<lparr>status := ROI, qpsVar := 2, qpsInterval := 4, qpsCounter := 4, idxListQPS := 1,
     qpsIni := Fin 2, listQPS := [Fin 2, Fin 4, Fin 2, Fin 2, Fin 2]\<rparr>"

lemma change_qps_cycles_witness:
  "\<exists>c'. startReq_qps 7 ex_list = Inr c' \<and> list_mode 1 c' \<and> dist c' = Some (new_ExpDist (Fin 4) 0 7)"
proof -
  have k: "scaled_interval 4 (Fin 4) (Fin 2) = Inr 8"
    by (simp add: scaled_interval_def double_of_int_def to_double_numeral trunc_rat_def)
  have m: "list_mode 0 ex_list" by (simp add: list_mode_def ex_list_def)
  have "\<exists>c'. startReq_qps 7 ex_list = Inr c'"
    by (simp add: startReq_qps_def change_qps_def ex_list_def Let_def k)
  then obtain c' where c': "startReq_qps 7 ex_list = Inr c'" by blast
  with change_qps_cycles [OF m _ _ _ c'] show ?thesis by (simp add: ex_list_def ex_seed)
qed

section \<open>Arrival times\<close>

text \<open>
  C7. The arrival times that one arrival process hands out never decrease, whatever non-negative gaps
  the random source draws and although the sum is rounded to a \<open>double\<close> each time.
\<close>

theorem arrivals_sorted:
  assumes "sampler_ok smp" "arrivals smp n d = Inr (ts, d')"
  shows "sorted ts \<and> length ts = n"
  using arrivals_runs [OF assms(2)] expdist.runs_sorted assms(1) by blast

theorem arrivals_sorted_witness:
  "\<exists>ts d'. arrivals ex_sampler 1 (new_ExpDist (Fin 1) 0 9) = Inr (ts, d') \<and> sorted ts \<and> length ts = 1"
proof -
  have a: "arrivals ex_sampler 1 (new_ExpDist (Fin 1) 0 9) =
      Inr ([14], \<lparr>ed_lambda = Fin 1, ed_seed = 0, ed_draws = 1, ed_curNs = 14\<rparr>)"
    using ex_arrival by simp
  from arrivals_sorted [OF ex_sampler_ok a] a show ?thesis by blast
qed

text \<open>
  From \<open>2 ^ 60\<close> ns on, which the realtime clock passed in 2006, an arrival time is a multiple of 256
  ns: the increments of the exponential distribution are rounded away below that.
\<close>

lemma arrivals_coarse:
  assumes "sampler_ok smp" "nextArrivalNs smp d = Inr (t, d')" "2 ^ 60 \<le> uint t"
  shows "256 dvd uint t"
proof -
  obtain x where x: "smp (ed_seed d) (ed_lambda d) (ed_draws d) = Fin x" "0 \<le> x"
    by (rule sampler_okE [OF assms(1)])
  define y where "y = rnd (of_int (uint (ed_curNs d))) + x"
  have t: "uint t = \<lfloor>rnd y\<rfloor>"
    using nextArrivalNs_cases(1) [OF x assms(2)] by (simp add: arrival_sum_def y_def)
  have "of_int (2 ^ 60) \<le> rnd y" using assms(3) t by (simp only: le_floor_iff)
  then have big: "pow2 (int 60) \<le> rnd y" by (simp add: pow2_def)
  have "0 \<le> y" unfolding y_def by (intro add_nonneg_nonneg rnd_nonneg uint_rat_nonneg x(2))
  moreover have "y \<noteq> 0" using big by (auto simp: rnd_def pow2_def)
  ultimately obtain m where "rnd y = of_int (m * 2 ^ (60 - 52))" using rnd_coarse [of y 60] big by auto
  then have "uint t = m * 256" using t by (simp del: of_int_mult of_int_power)
  then show ?thesis by simp
qed

lemma ex_late_arrival:
  "nextArrivalNs ex_sampler (new_ExpDist (Fin 1) 0 (2 ^ 60)) = Inr (2 ^ 60,
     \<lparr>ed_lambda = Fin 1, ed_seed = 0, ed_draws = 1, ed_curNs = 2 ^ 60\<rparr>)"
proof -
  have r: "rnd 1152921504606846976 = 1152921504606846976" "rnd 1152921504606846981 = 1152921504606846976"
    by code_simp+
  have "to_double 1152921504606846981 = Fin (rnd 1152921504606846981)" by (rule to_double_small) simp_all
  then have "u64_of_double (add_double (double_of_u64 (2 ^ 60)) (Fin 5)) = Inr (2 ^ 60)"
    by (simp add: double_of_u64_Fin r trunc_rat_def)
  then show ?thesis by (simp add: nextArrivalNs_def new_ExpDist_def ex_sampler_def)
qed

lemma arrivals_coarse_witness:
  "nextArrivalNs ex_sampler (new_ExpDist (Fin 1) 0 (2 ^ 60)) = Inr (2 ^ 60,
     \<lparr>ed_lambda = Fin 1, ed_seed = 0, ed_draws = 1, ed_curNs = 2 ^ 60\<rparr>) \<and> (256 :: int) dvd uint (2 ^ 60 :: u64)"
  using arrivals_coarse [OF ex_sampler_ok ex_late_arrival] ex_late_arrival by simp

section \<open>Sockets\<close>

text \<open>
  C9. However the network cuts the stream into segments, \<open>recvfull\<close> returns exactly the next \<open>len\<close> bytes
  when that many arrive and leaves the rest; when it returns less it has read all there was before an
  end of file or an error, and it never returns -1.
\<close>

theorem recvfull_exact:
  "(n \<le> length (rx_bytes s) \<longrightarrow> (\<exists>s'. recvfull (int n) s = Some (int n, take n (rx_bytes s), s') \<and>
      rx_bytes s' = drop n (rx_bytes s))) \<and>
   (recvfull (int n) s = Some (k, got, s') \<longrightarrow> got = take n (rx_bytes s) \<and> k = int (length got) \<and> k \<noteq> - 1)"
proof (intro conjI impI)
  assume "n \<le> length (rx_bytes s)"
  then show "\<exists>s'. recvfull (int n) s = Some (int n, take n (rx_bytes s), s') \<and> rx_bytes s' = drop n (rx_bytes s)"
    by (rule recvfull_complete) blast
next
  assume "recvfull (int n) s = Some (k, got, s')"
  from recvfull_result [OF this] show "got = take n (rx_bytes s)" "k = int (length got)" "k \<noteq> - 1" by auto
qed

theorem recvfull_exact_witness:
  "\<exists>s'. recvfull 3 [RxData [1, 2], RxData [3, 4], RxEof] = Some (3, [1, 2, 3], s') \<and> rx_bytes s' = [4]"
  using recvfull_exact [of 3 "[RxData [1, 2], RxData [3, 4], RxEof]"] by simp

text \<open>
  \<open>sendfull\<close> puts a prefix of the message on the wire and returns its length, and with a socket
  that takes enough bytes without an error, in whatever portions, it sends all of it.
\<close>

theorem sendfull_exact:
  assumes "n \<le> length msg"
  shows "(n \<le> tx_room s \<longrightarrow> (\<exists>s'. sendfull msg (int n) s = Some (int n, take n msg, s'))) \<and>
    (sendfull msg (int n) s = Some (k, out, s') \<longrightarrow> 0 \<le> k \<and> k \<le> int n \<and> out = take (nat k) msg)"
proof (intro conjI impI)
  assume "n \<le> tx_room s"
  then have "int n \<le> int (tx_room s)" by simp
  then obtain s' where "sendfull msg (int n) s = Some (int n, take (nat (int n)) msg, s')"
    by (rule sendfull_complete) (use assms in auto)
  then show "\<exists>s'. sendfull msg (int n) s = Some (int n, take n msg, s')" by simp
next
  assume "sendfull msg (int n) s = Some (k, out, s')"
  from sendfull_result [OF this] assms show "0 \<le> k" "k \<le> int n" "out = take (nat k) msg" by auto
qed

theorem sendfull_exact_witness:
  "\<exists>s'. sendfull [1, 2, 3, 4] 3 [TxOk 1, TxOk 0, TxOk 9] = Some (3, [1, 2, 3], s')"
  using sendfull_exact [of 3 "[1, 2, 3, 4]" "[TxOk 1, TxOk 0, TxOk 9]"] by simp

text \<open>
  C11. \<open>send\<close> transmits the stamped header and the first \<open>len\<close> bytes of the payload while fewer than
  \<open>warmupreqs + maxreqs\<close> requests have been sent, and nothing after that; it counts what it sends and
  keeps the invariant.
\<close>

theorem send_transmits:
  assumes "send rid t1 t2 err s nc = Some (Inr (True, out, s', nc'))"
    and "inFlightReqs (base nc) rid = Some r" "unat (rq_len r) \<le> 2 ^ 20" "client_inv (base nc)"
  shows "client_inv (base nc') \<and>
    (if numReqsSent (base nc) = warmupreqs (base nc) + maxreqs (base nc)
     then out = [] \<and> numReqsSent (base nc') = numReqsSent (base nc)
     else out = request_header (stamped t1 t2 r) @ buf_take (unat (rq_len r)) (rq_data r) \<and>
       numReqsSent (base nc') = numReqsSent (base nc) + 1)"
proof (cases "numReqsSent (base nc) = warmupreqs (base nc) + maxreqs (base nc)")
  case True
  obtain r' where "send_locked (stamped t1 t2 r') err s (nc\<lparr>base := upd_req rid (stamped t1 t2) (base nc)\<rparr>)
      = Some (Inr (True, out, s', nc'))"
    by (rule send_decompose [OF assms(1)])
  then have "out = []" using True by (simp add: send_locked_def Let_def)
  then show ?thesis using True send_counts(1) [OF assms(1)] send_client_inv [OF assms(4,1)] by simp
next
  case False
  then show ?thesis
    using send_bytes [OF assms(1-3)] send_counts(1) [OF assms(1)] send_client_inv [OF assms(4,1)] by simp
qed

definition ex_warm_nc :: NetworkedClient where [example_defs]:
  "ex_warm_nc = ex_nclient\<lparr>base := ex_warm\<rparr>"

lemma ex_send: "\<exists>out s' nc'. send 0 11 12 [] [TxOk 200] ex_warm_nc = Some (Inr (True, out, s', nc'))"
proof -
  have w: "wire_len 2 = 82" by (simp add: wire_len_def to_i32_def)
  have "82 \<le> int (tx_room [TxOk 200])" by simp
  then obtain s' where sf: "sendfull (request_bytes (stamped 11 12 ex_request) 82) 82 [TxOk 200] =
      Some (82, take (nat 82) (request_bytes (stamped 11 12 ex_request) 82), s')"
    by (rule sendfull_complete [where msg = "request_bytes (stamped 11 12 ex_request) 82"]) simp_all
  have st: "ex_request\<lparr>rq_sentNs := 11, rq_sentNs_lock_ad := 12\<rparr> = stamped 11 12 ex_request"
    by (simp add: stamped_def)
  have l: "rq_len (stamped 11 12 ex_request) = 2" by (simp add: stamped_def ex_request_def)
  show ?thesis
    by (simp add: send_def send_locked_def Let_def ex_warm_nc_def ex_warm_def upd_req_def st l w ex_fields
        sizeof_Request_def MAX_REQ_BYTES_def sf)
qed

theorem send_transmits_witness:
  "\<exists>out s' nc'. send 0 11 12 [] [TxOk 200] ex_warm_nc = Some (Inr (True, out, s', nc')) \<and>
     out = request_header (stamped 11 12 ex_request) @ [7, 9]"
proof -
  obtain out s' nc' where e: "send 0 11 12 [] [TxOk 200] ex_warm_nc = Some (Inr (True, out, s', nc'))"
    using ex_send by blast
  have f: "inFlightReqs (base ex_warm_nc) 0 = Some ex_request" "unat (rq_len ex_request) \<le> 2 ^ 20"
    "client_inv (base ex_warm_nc)" "numReqsSent (base ex_warm_nc) = 0" "warmupreqs (base ex_warm_nc) = 1"
    "maxreqs (base ex_warm_nc) = 1"
    using ex_warm_inv by (simp_all add: example_defs ex_fields)
  from send_transmits [OF e f(1-3)] e f(4-6) show ?thesis by (auto simp: ex_request_def buf_take_def)
qed

text \<open>
  A \<open>recv\<close> that fails returns with \<open>recvLock\<close> held, so that no later \<open>recv\<close> of any receiver thread
  ever returns.
\<close>

theorem recv_failure_blocks:
  assumes "recv s1 t1 err1 resp1 s nc = Some (Inr (False, resp', s', nc'))"
  shows "recv s2 t2 err2 resp2 s'' nc' = None"
  using recv_false_locked [OF assms] by (simp add: recv_def)

theorem recv_failure_blocks_witness:
  "\<exists>nc'. recv 1 2 ''err'' new_Response [RxEof] ex_nclient = Some (Inr (False, new_Response, [RxEof], nc')) \<and>
     recv 3 4 [] new_Response [RxEof] nc' = None"
proof -
  have u: "\<not> recvLock_held ex_nclient"
    using ex_client_new by (simp add: example_defs new_NetworkedClient_def)
  have "\<exists>nc'. recv 1 2 ''err'' new_Response [RxEof] ex_nclient = Some (Inr (False, new_Response, [RxEof], nc'))"
    by (simp add: recv_def u recvfull_def recvfull_loop.simps)
  with recv_failure_blocks show ?thesis by blast
qed

section \<open>The servers\<close>

text \<open>
  A server with one thread and one client, on descriptor 5, that has sent one request of two bytes in
  two segments.
\<close>

definition ex_server :: NetworkedServer where [example_defs]:
  "ex_server = \<lparr>finishedReqs = 0, maxReqs = 0, warmupReqs = 0, start_file = False, start_file_name = [],
     reqInfo = [\<lparr>ri_id = 0, ri_startNs = 0\<rparr>], reqbuf = [new_Request], clientFds = [5], activeFds = [0],
     recvClientHead = 0, listenFd = 4\<rparr>"

definition ex_netenv :: netenv where [example_defs]:
  "ex_netenv = \<lparr>selects = [Some [5]], accepts = [],
     conns = (\<lambda>_. [])(5 := [RxData (request_header ex_request), RxData [7, 9]])\<rparr>"

lemma ex_header_nonempty: "request_header r \<noteq> []"
  by (simp add: request_header_def)

lemma ex_pick: "pick_fd (filter (\<lambda>f. f \<in> set [5]) (listenFd ex_server # clientFds ex_server))
    (clientFds ex_server) (recvClientHead ex_server) = 5"
  by (simp add: ex_server_def pick_fd_def scan_order_def)

lemma ex_recvReq:
  "\<exists>cr sv' e'. recvReq 0 100 ex_server ex_netenv = Some (Inr (2, [7, 9], cr, sv', e')) \<and>
     activeFds sv' = [5] \<and> reqInfo sv' = [\<lparr>ri_id = 0, ri_startNs = 100\<rparr>]"
proof -
  have b: "rx_bytes (conns ex_netenv 5) = request_header ex_request @ [7, 9] @ []"
    by (simp add: ex_netenv_def ex_header_nonempty)
  have "\<exists>cr sv' e'. recvReq 0 100 ex_server ex_netenv = Some (Inr (rq_len ex_request,
      store_data [7, 9] (rq_data (reqbuf ex_server ! 0)), cr, sv', e')) \<and>
    reqbuf sv' ! 0 = ex_request\<lparr>rq_data := store_data [7, 9] (rq_data (reqbuf ex_server ! 0))\<rparr> \<and>
    activeFds sv' ! 0 = 5 \<and> reqInfo sv' ! 0 = \<lparr>ri_id = rq_id ex_request, ri_startNs = 100\<rparr> \<and>
    length (reqInfo sv') = length (reqInfo ex_server) \<and> length (activeFds sv') = length (activeFds ex_server) \<and>
    rx_bytes (conns e' 5) = []"
    by (rule recvReq_delivers [OF _ _ _ _ _ _ _ ex_pick [symmetric] _ b])
       (simp_all add: example_defs fd_ok_def FD_SETSIZE_def)
  then obtain cr sv' e' where r: "recvReq 0 100 ex_server ex_netenv = Some (Inr (2, [7, 9], cr, sv', e'))"
    "activeFds sv' ! 0 = 5" "reqInfo sv' ! 0 = \<lparr>ri_id = 0, ri_startNs = 100\<rparr>"
    "length (reqInfo sv') = 1" "length (activeFds sv') = 1"
    by (auto simp: example_defs new_Request_def store_data_def)
  then have "activeFds sv' = [5]" "reqInfo sv' = [\<lparr>ri_id = 0, ri_startNs = 100\<rparr>]"
    by (auto simp: length_Suc_conv)
  with r(1) show ?thesis by blast
qed



text \<open>
  C14. \<open>removeClient\<close> is only called for a connected client: the receive loop never erases the end
  iterator of \<open>clientFds\<close>, and a request it delivers came from a client that is still connected.
\<close>

theorem recvReq_descriptors:
  "(recvReq_loop i sv e = Some (Inl f) \<longrightarrow> f \<noteq> Undefined ''erase(end())'') \<and>
   (recvReq_loop i sv e = Some (Inr (fd, sv', e')) \<longrightarrow> fd \<in> set (clientFds sv') \<and>
      reqInfo sv' = reqInfo sv \<and> activeFds sv' = activeFds sv)"
  using recvReq_loop_no_erase [of i sv e f] recvReq_loop_frame [of i sv e fd sv' e']
  by (auto simp: srv_frame_def)

theorem recvReq_descriptors_witness:
  "recvReq_loop 0 ex_server (ex_netenv\<lparr>selects := [None]\<rparr>) = Some (Inl (Exit (- 1))) \<and>
   Exit (- 1) \<noteq> Undefined ''erase(end())''"
  using recvReq_descriptors [of 0 ex_server "ex_netenv\<lparr>selects := [None]\<rparr>" "Exit (- 1)"]
  by (simp add: recvReq_loop.simps recvReq_iter_def os_select_def example_defs fd_ok_def FD_SETSIZE_def)



text \<open>
  A request whose payload is empty is taken for a client that left: the connection is dropped
  although it is open, and the request is not delivered.
\<close>

theorem empty_request_drops_client:
  assumes "i < length (reqbuf sv)" "fd \<in> set (clientFds sv)" "distinct (clientFds sv)"
    and "rx_bytes (conns e fd) = request_header r @ rest" "rq_len r = 0"
  shows "\<exists>sv' e'. read_request i fd sv e = Some (Again sv' e') \<and> fd \<notin> set (clientFds sv')"
  using read_request_empty_payload [OF assms(1,2,4,5)] assms(3) by fastforce

theorem empty_request_drops_client_witness:
  "\<exists>sv' e'. read_request 0 5 ex_server (ex_netenv\<lparr>conns := \<lambda>_. [RxData (request_header new_Request)]\<rparr>)
      = Some (Again sv' e') \<and> 5 \<notin> set (clientFds sv')"
  by (rule empty_request_drops_client [where r = new_Request and rest = "[]"])
     (simp_all add: ex_server_def ex_header_nonempty new_Request_def)



text \<open>
  The threads of a server get the distinct ids 0, 1, 2, ... in the order in which they start, the
  indices of their entries in the per-thread tables.
\<close>

theorem thread_ids:
  assumes "n < 2 ^ 31"
  shows "start_threads n 0 = map int [0 ..< n]"
proof -
  have "k + n < 2 ^ 31 \<Longrightarrow> start_threads n (int k) = map int [k ..< k + n]" for k
  proof (induction n arbitrary: k)
    case (Suc n)
    have "int k + 1 < 2 ^ 31" using Suc.prems by simp
    then have "to_i32 (int k + 1) = int (Suc k)" by (subst to_i32_id) auto
    then have "start_threads (Suc n) (int k) = int k # start_threads n (int (Suc k))"
      by (simp add: tBenchServerThreadStart_def)
    moreover have "start_threads n (int (Suc k)) = map int [Suc k ..< Suc k + n]"
      using Suc.prems by (intro Suc.IH) simp
    moreover have "[k ..< k + Suc n] = k # [Suc k ..< Suc k + n]" by (simp add: upt_conv_Cons del: upt_Suc)
    ultimately show ?case by simp
  qed simp
  from this [of 0] assms show ?thesis by simp
qed

theorem thread_ids_witness: "start_threads 3 0 = [0, 1, 2]"
proof -
  have "[0 ..< 3] = [0, 1, 2 :: nat]" by code_simp
  then show ?thesis using thread_ids [of 3] by simp
qed

section \<open>Options and time\<close>

text \<open>
  An option written in decimal is read back: \<open>getOpt<int>\<close> for every \<open>int\<close>, \<open>getOpt<uint64_t>\<close> for
  every \<open>uint64_t\<close>, and an unset option gives the default.
\<close>

theorem getOpt_decimal:
  assumes "- (2 ^ 31) \<le> n" "n < 2 ^ 31"
  shows "getOpt_int (\<lambda>x. if x = name then Some (dec_int n) else None) name d = n \<and>
    getOpt_u64 (\<lambda>x. if x = name then Some (dec_digits (unat w)) else None) name d' = w \<and>
    getOpt_int (\<lambda>x. None) name d = d"
proof -
  have "dec_int n \<noteq> []" by (simp add: dec_int_def)
  then show ?thesis by (simp add: getOpt_def extract_int_dec [OF assms] extract_u64_dec)
qed

theorem getOpt_decimal_witness:
  "getOpt_int (\<lambda>x. if x = ''TBENCH_ID'' then Some (dec_int (- 12)) else None) ''TBENCH_ID'' 0 = - 12"
  using getOpt_decimal [of "- 12" "''TBENCH_ID''" 0] by simp

text \<open>
  \<open>sleepUntil\<close> returns only when the clock has reached the target, and it does return when some
  reading of the clock has.
\<close>

theorem sleepUntil_target:
  "(sleepUntil target rs = Some ws \<longrightarrow> (\<exists>k < length rs. target \<le> rs ! k \<and> (\<forall>i < k. rs ! i < target))) \<and>
   ((\<exists>r \<in> set rs. target \<le> r) \<longrightarrow> (\<exists>ws. sleepUntil target rs = Some ws))"
  using sleepUntil_reaches [of target rs ws] sleepUntil_returns [of rs target] by blast

theorem sleepUntil_target_witness: "\<exists>ws. sleepUntil 10 [3, 8, 12] = Some ws"
  using sleepUntil_target [of 10 "[3, 8, 12]"] by simp

text \<open>
  The first option that is not set ends the program's output on \<open>std::cout\<close>: \<open>getOpt\<close> inserts the
  null pointer \<open>getenv\<close> returned, which sets the stream's bad bit, so the messages of later calls are
  lost.
\<close>

theorem getOpt_silences_cout:
  assumes "n \<in> set ns" "e n = None"
  shows "\<not> getOpts_cout e ns good"
  using assms by (auto simp: getOpts_cout_iff)

theorem getOpt_silences_cout_witness: "\<not> getOpts_cout ex_env [''TBENCH_CLIENT_THREADS''] True"
  using getOpt_silences_cout [of "''TBENCH_CLIENT_THREADS''" "[''TBENCH_CLIENT_THREADS'']" ex_env True]
  by (simp add: ex_env_def)

end
