(* ===== verification/App_Source.thy ===== *)
theory App_Source
  imports Harness_Client
begin

text \<open>
  What the load generator expects of an application: \<open>tBenchClientGenReq\<close> fills the \<open>data\<close> array of a
  request and returns the number of bytes, at most \<open>MAX_REQ_BYTES\<close>. The contract is the locale
  \<open>request_source\<close>; the theories of the applications interpret it on their clients. The clients of
  moses (\<^verbatim>\<open>src/moses/moses-cmd/Client.cpp\<close>), specjbb (\<^verbatim>\<open>src/specjbb/client.cpp\<close>) and shore
  (\<^verbatim>\<open>src/shore/shore-kits/src/sm/shore/tbench_client.cpp\<close>) send a constant request and are
  here, with the \<open>getOpt\<close> the applications share and the standard library's \<open>getline\<close>.
\<close>

section \<open>Definitions\<close>

type_synonym bytes = "byte list"

definition char_byte :: "char \<Rightarrow> byte" where
  "char_byte c = of_nat (of_char c)"

text \<open>The array \<open>c_str()\<close> points to.\<close>

definition c_str :: "string \<Rightarrow> bytes" where
  "c_str s = map char_byte s @ [0]"

text \<open>The string a NUL-terminated array holds, as \<open>std::string(const char*)\<close> reads it.\<close>

definition str_of :: "bytes \<Rightarrow> bytes" where
  "str_of bs = takeWhile (\<lambda>b. b \<noteq> 0) bs"

definition getOpt_app :: "(string \<Rightarrow> 'a option) \<Rightarrow> env \<Rightarrow> string \<Rightarrow> 'a \<Rightarrow> 'a" where
  "getOpt_app extract e name defVal =
     (case e name of
        None \<Rightarrow> defVal
      | Some opt \<Rightarrow> (if length opt = 0 then defVal
                     else case extract opt of None \<Rightarrow> defVal | Some res \<Rightarrow> res))"

definition moses_genReq :: bytes where
  "moses_genReq = (let sentence = ''Hello World''; len = length sentence + 1 in take len (c_str sentence))"

definition specjbb_genReq :: bytes where
  "specjbb_genReq = (let str = ''Dummy Req''; len = length str + 1 in take len (c_str str))"

text \<open>The request of shore has one member, \<open>int xctType\<close>.\<close>

definition shore_genReq :: bytes where
  "shore_genReq = le_bytes 4 (0 :: u32)"

text \<open>
  \<open>atoi\<close> and \<open>atol\<close>: the value \<open>strtol\<close> gives, clamped to the range of \<open>long\<close>; \<open>atoi\<close> then converts
  to \<open>int\<close>. In the applications' \<open>main\<close> functions \<open>getopt\<close> delivers the options as pairs of a letter and
  its argument, \<open>''?''\<close> for an option it does not know.
\<close>

definition atol :: "string \<Rightarrow> int" where
  "atol s = (case extract_magnitude s of None \<Rightarrow> 0
     | Some (neg, m) \<Rightarrow> max (- (2 ^ 63)) (min (2 ^ 63 - 1) (if neg then - m else m)))"

definition atoi :: "string \<Rightarrow> int" where
  "atoi s = to_i32 (atol s)"

section \<open>The contract of a request source\<close>

text \<open>
  \<open>gen r s\<close> is one call of \<open>tBenchClientGenReq\<close> with the random draws \<open>r\<close> in the application's state
  \<open>s\<close>; \<open>draw r s\<close> says that the draws are in the range the source asks its generator for.
\<close>

locale request_source =
  fixes gen :: "'r \<Rightarrow> 's \<Rightarrow> (bytes \<times> 's) res"
    and valid :: "'s \<Rightarrow> bool"
    and draw :: "'r \<Rightarrow> 's \<Rightarrow> bool"
  assumes gen_total: "valid s \<Longrightarrow> draw r s \<Longrightarrow> \<exists>d s'. gen r s = Inr (d, s') \<and> valid s' \<and>
      d \<noteq> [] \<and> int (length d) \<le> MAX_REQ_BYTES"
begin

definition gen_step :: "'s \<Rightarrow> bytes \<Rightarrow> 's \<Rightarrow> bool" where
  "gen_step s d s' \<longleftrightarrow> (\<exists>r. draw r s \<and> gen r s = Inr (d, s'))"

inductive gens :: "'s \<Rightarrow> bytes list \<Rightarrow> 's \<Rightarrow> bool" where
  none: "gens s [] s"
| next_req: "gen_step s d s' \<Longrightarrow> gens s' ds s'' \<Longrightarrow> gens s (d # ds) s''"

lemma gen_step_ok:
  assumes "valid s" "gen_step s d s'"
  shows "valid s' \<and> d \<noteq> [] \<and> int (length d) \<le> MAX_REQ_BYTES"
proof -
  obtain r where r: "draw r s" "gen r s = Inr (d, s')" using assms(2) by (auto simp: gen_step_def)
  then show ?thesis using gen_total [OF assms(1) r(1)] by auto
qed

lemma gens_ok:
  "gens s ds s' \<Longrightarrow> valid s \<Longrightarrow> valid s' \<and> (\<forall>d \<in> set ds. d \<noteq> [] \<and> int (length d) \<le> MAX_REQ_BYTES)"
  by (induction rule: gens.induct) (auto dest: gen_step_ok)

text \<open>
  With such a source \<open>startReq\<close> never overruns the request's data array, and the request it enters in
  \<open>inFlightReqs\<close> has exactly the generated bytes as its payload.
\<close>

lemma startReq_accepts:
  assumes "valid s" "draw r s" "dist c = Some d" "nextArrivalNs smp d = Inr (g, d')"
  shows "\<exists>data s' c'. gen r s = Inr (data, s') \<and> valid s' \<and>
    startReq_gen smp st ad re data (of_nat (length data)) c = Inr (startedReqs c, c') \<and>
    (\<exists>rq. inFlightReqs c' (startedReqs c) = Some rq \<and> rq_data rq = data \<and>
       unat (rq_len rq) = length data \<and> 0 < unat (rq_len rq))"
proof -
  obtain data s' where g: "gen r s = Inr (data, s')" "valid s'" "data \<noteq> []" "int (length data) \<le> MAX_REQ_BYTES"
    using gen_total [OF assms(1,2)] by blast
  then have "length data < 2 ^ 64" by (simp add: MAX_REQ_BYTES_def)
  then have "unat (of_nat (length data) :: u64) = length data"
    by (simp add: unat_of_nat take_bit_nat_eq_self)
  then show ?thesis using g assms(3,4)
    by (intro exI [of _ data] exI [of _ s']) (auto simp: startReq_gen_def Let_def)
qed

end

lemma const_source:
  assumes "d \<noteq> []" "int (length d) \<le> MAX_REQ_BYTES"
  shows "request_source (\<lambda>(_ :: unit) (s :: unit). Inr (d, s)) (\<lambda>_. True) (\<lambda>_ _. True)"
  by unfold_locales (use assms in auto)

interpretation moses_src: request_source "\<lambda>(_ :: unit) (s :: unit). Inr (moses_genReq, s)" "\<lambda>_. True" "\<lambda>_ _. True"
  by (rule const_source) (simp_all add: moses_genReq_def c_str_def MAX_REQ_BYTES_def)

interpretation specjbb_src: request_source "\<lambda>(_ :: unit) (s :: unit). Inr (specjbb_genReq, s)" "\<lambda>_. True" "\<lambda>_ _. True"
  by (rule const_source) (simp_all add: specjbb_genReq_def c_str_def MAX_REQ_BYTES_def)

interpretation shore_src: request_source "\<lambda>(_ :: unit) (s :: unit). Inr (shore_genReq, s)" "\<lambda>_. True" "\<lambda>_ _. True"
  by (rule const_source) (simp_all add: shore_genReq_def MAX_REQ_BYTES_def eval_nat_numeral)

section \<open>Lemmas\<close>

lemma length_c_str [simp]: "length (c_str s) = length s + 1"
  by (simp add: c_str_def)

lemma unat_char_byte: "unat (char_byte c) = of_char c"
  unfolding char_byte_def by (simp add: unat_of_nat take_bit_nat_eq_self)

lemma char_byte_0: "char_byte c = 0 \<longleftrightarrow> c = CHR 0x00"
proof -
  have "char_byte c = 0 \<longleftrightarrow> (of_char c :: nat) = of_char (CHR 0x00)"
    using unat_char_byte [of c] unat_eq_zero [of "char_byte c"] by simp
  then show ?thesis by (simp only: of_char_eq_iff)
qed

lemma str_of_c_str: "CHR 0x00 \<notin> set s \<Longrightarrow> str_of (c_str s) = map char_byte s"
  unfolding str_of_def c_str_def by (subst takeWhile_append2) (auto simp: char_byte_0)

lemma count_list_update:
  "i < length xs \<Longrightarrow>
     count_list (xs[i := y]) a + (if xs ! i = a then 1 else 0) = count_list xs a + (if y = a then 1 else 0)"
proof (induction xs arbitrary: i)
  case (Cons x xs)
  show ?case
  proof (cases i)
    case (Suc j)
    then show ?thesis using Cons.IH [of j] Cons.prems by (auto split: if_splits)
  qed simp
qed simp

lemma sum_list_map_update:
  "i < length xs \<Longrightarrow> sum_list (map f (xs[i := y])) + f (xs ! i) = sum_list (map f xs) + (f y :: nat)"
  by (induction xs arbitrary: i) (auto split: nat.splits)

end
