(* ===== verification/App_Xapian.thy ===== *)
theory App_Xapian
  imports App_Source
begin

text \<open>
  The search benchmark, \<^verbatim>\<open>src/xapian\<close>: \<open>genTerms.cpp\<close>, which writes the file of query terms,
  \<open>client.cpp\<close>, which loads it and draws terms from it, \<open>server.cpp\<close> and \<open>main.cpp\<close>, which answer
  the queries. The Xapian library is a parameter: the number of documents a term matches, and the
  descriptions of the documents a query returns.
\<close>

section \<open>The input stream\<close>

text \<open>
  An \<open>ifstream\<close> open for reading: the unread bytes, the state bits and the count of the last
  unformatted read. \<open>getline\<close> follows the standard: a stream that is not good fails without reading;
  otherwise characters are stored until the end of the file (\<open>eofbit\<close>), the delimiter, which is
  extracted and counted but not stored, or a full buffer (\<open>failbit\<close>), tested in this order; a call
  that extracts nothing fails. A NUL is stored in every case.
\<close>

record istream =
  unread :: bytes
  eofbit :: bool
  failbit :: bool
  gcount :: nat

fun getline_chars :: "nat \<Rightarrow> bytes \<Rightarrow> bytes \<times> bytes \<times> nat \<times> bool \<times> bool" where
  "getline_chars k [] = ([], [], 0, True, False)"
| "getline_chars k (b # bs) =
     (if b = 10 then ([], bs, 1, False, False)
      else if k = 0 then ([], b # bs, 0, False, True)
      else (let (s, r, n, e, f) = getline_chars (k - 1) bs in (b # s, r, n + 1, e, f)))"

definition getline :: "nat \<Rightarrow> istream \<Rightarrow> bytes \<times> istream" where
  "getline n st =
     (if eofbit st \<or> failbit st then ([0], st\<lparr>failbit := True, gcount := 0\<rparr>)
      else (let (s, r, g, e, f) = getline_chars (n - 1) (unread st)
            in (s @ [0], st\<lparr>unread := r, eofbit := e, failbit := (f \<or> g = 0), gcount := g\<rparr>)))"

definition open_stream :: "bytes \<Rightarrow> istream" where
  "open_stream bs = \<lparr>unread = bs, eofbit = False, failbit = False, gcount = 0\<rparr>"

section \<open>client.cpp\<close>

text \<open>The loop of the constructor of \<open>TermSet\<close>; \<open>None\<close> is a loop that does not end.\<close>

partial_function (option) load_terms :: "istream \<Rightarrow> bytes list \<Rightarrow> u64 \<Rightarrow> (bytes list \<times> u64) res option" where
  "load_terms fin terms termCount =
     (let (term, fin') = getline 128 fin
      in if eofbit fin' then Some (Inr (terms, termCount))
         else if failbit fin' \<and> gcount fin' = 128 then Some (Inl (Exit (- 1)))
         else load_terms fin' (terms @ [str_of term]) (termCount + 1))"

text \<open>\<open>term_max\<close> is the upper bound of the distribution \<open>termGen\<close>.\<close>

record TermSet =
  terms :: "bytes list"
  term_max :: u64

definition new_TermSet :: "bytes option \<Rightarrow> TermSet res option" where
  "new_TermSet file =
     (case file of
        None \<Rightarrow> Some (Inl (Exit (- 1)))
      | Some bs \<Rightarrow> map_option (\<lambda>r. bind_res r (\<lambda>(ts, n). Inr \<lparr>terms = ts, term_max = n - 1\<rparr>))
                     (load_terms (open_stream bs) [] 0))"

definition getTerm :: "u64 \<Rightarrow> TermSet \<Rightarrow> bytes res" where
  "getTerm idx ts =
     (if unat idx < length (terms ts) then Inr (terms ts ! unat idx) else Inl (Undefined ''terms[idx]''))"

definition xapian_clientInit :: "env \<Rightarrow> (string \<Rightarrow> bytes option) \<Rightarrow> TermSet res option" where
  "xapian_clientInit e fs = new_TermSet (fs (getOpt_app extract_string e ''TBENCH_TERMS_FILE'' ''terms.in''))"

definition xapian_genReq :: "u64 \<Rightarrow> TermSet \<Rightarrow> (bytes \<times> TermSet) res" where
  "xapian_genReq idx ts = bind_res (getTerm idx ts) (\<lambda>term. Inr (term @ [0], ts))"

section \<open>server.cpp\<close>

text \<open>
  The response buffer is a local array that nothing initialises: \<open>None\<close> is an indeterminate byte.
  \<open>descs\<close> are the descriptions of the documents of the match set.
\<close>

definition MAX_RES_LEN :: nat where
  "MAX_RES_LEN = 2 ^ 20"

definition poke :: "nat \<Rightarrow> bytes \<Rightarrow> byte option list \<Rightarrow> byte option list" where
  "poke k bs res = take k res @ map Some bs @ drop (k + length bs) res"

fun fill_res :: "bytes list \<Rightarrow> nat \<Rightarrow> u32 \<Rightarrow> byte option list \<Rightarrow> (u32 \<times> byte option list) res" where
  "fill_res [] doccount resLen res = Inr (resLen, res)"
| "fill_res (desc # descs) doccount resLen res =
     (let resLen' = resLen + of_nat (length desc)
      in if unat resLen' > MAX_RES_LEN then Inl (Abort ''resLen <= MAX_RES_LEN'')
         else if unat resLen' + length desc > MAX_RES_LEN then Inl (Undefined ''res overrun'')
         else if doccount + 1 = 25 then Inr (resLen', poke (unat resLen') desc res)
         else fill_res descs (doccount + 1) resLen' (poke (unat resLen') desc res))"

definition processRequest :: "(bytes \<Rightarrow> bytes list) \<Rightarrow> bytes \<Rightarrow> byte option list res" where
  "processRequest search req =
     (if length req \<ge> 256 then Inl (Undefined ''term overrun'')
      else bind_res (fill_res (search (str_of (req @ [0]))) 0 0 (replicate MAX_RES_LEN None)) (\<lambda>(resLen, res).
             Inr (take (unat resLen) res)))"

text \<open>
  \<open>_run\<close>: each thread tests the shared counter, processes a request and increments the counter; the
  test and the increment are separate atomic operations.
\<close>

datatype runpc = AtTest | InRequest | Returned

record runstate =
  processed :: u64
  pcs :: "runpc list"

definition run_init :: "nat \<Rightarrow> runstate" where
  "run_init n = \<lparr>processed = 0, pcs = replicate n AtTest\<rparr>"

inductive run_step :: "u64 \<Rightarrow> runstate \<Rightarrow> runstate \<Rightarrow> bool" for numReqs where
  enter: "i < length (pcs s) \<Longrightarrow> pcs s ! i = AtTest \<Longrightarrow> processed s < numReqs \<Longrightarrow>
    run_step numReqs s (s\<lparr>pcs := (pcs s)[i := InRequest]\<rparr>)"
| leave: "i < length (pcs s) \<Longrightarrow> pcs s ! i = AtTest \<Longrightarrow> \<not> processed s < numReqs \<Longrightarrow>
    run_step numReqs s (s\<lparr>pcs := (pcs s)[i := Returned]\<rparr>)"
| count: "i < length (pcs s) \<Longrightarrow> pcs s ! i = InRequest \<Longrightarrow>
    run_step numReqs s (s\<lparr>processed := processed s + 1, pcs := (pcs s)[i := AtTest]\<rparr>)"

section \<open>main.cpp\<close>

record xapian_cfg =
  numServers :: u32
  dbPath :: string
  numReqsToProcess :: u64

fun xapian_opts :: "(char \<times> string) list \<Rightarrow> xapian_cfg \<Rightarrow> xapian_cfg res" where
  "xapian_opts [] cfg = Inr cfg"
| "xapian_opts ((c, optarg) # os) cfg =
     (if c = CHR ''n''
      then (if optarg = ''?'' then Inl (Exit (- 1)) else xapian_opts os (cfg\<lparr>numServers := word_of_int (atoi optarg)\<rparr>))
      else if c = CHR ''d''
      then (if optarg = ''?'' then Inl (Exit (- 1)) else xapian_opts os (cfg\<lparr>dbPath := optarg\<rparr>))
      else if c = CHR ''r''
      then (if optarg = ''?'' then Inl (Exit (- 1)) else xapian_opts os (cfg\<lparr>numReqsToProcess := word_of_int (atol optarg)\<rparr>))
      else Inl (Exit (- 1)))"

text \<open>
  The threads \<open>main\<close> starts, each with its server, and the state in which they start. With no server,
  \<open>servers[numServers - 1]\<close> is outside the array.
\<close>

definition xapian_main :: "(char \<times> string) list \<Rightarrow> (xapian_cfg \<times> nat list \<times> nat \<times> runstate) res" where
  "xapian_main os =
     bind_res (xapian_opts os \<lparr>numServers = 4, dbPath = ''db'', numReqsToProcess = 1000\<rparr>) (\<lambda>cfg.
       (let n = unat (numServers cfg)
        in if n = 0 then Inl (Undefined ''servers[numServers - 1]'')
           else Inr (cfg, if 1 < n then [0..<n - 1] else [], n - 1, run_init n)))"

section \<open>genTerms.cpp\<close>

definition lowercase :: bytes where
  "lowercase = map char_byte ''abcdefghijklmnopqrstuvwxyz''"

definition find_first_of :: "bytes \<Rightarrow> bytes \<Rightarrow> nat option" where
  "find_first_of cs s = (let n = length (takeWhile (\<lambda>b. b \<notin> set cs) s) in if n < length s then Some n else None)"

definition find_first_not_of :: "bytes \<Rightarrow> bytes \<Rightarrow> nat option" where
  "find_first_not_of cs s = (let n = length (takeWhile (\<lambda>b. b \<in> set cs) s) in if n < length s then Some n else None)"

text \<open>\<open>hits\<close> is the number of documents a term's query matches; the match set is cut at \<open>MSET_SIZE\<close>.\<close>

definition term_selected :: "(bytes \<Rightarrow> nat) \<Rightarrow> bytes \<Rightarrow> bool" where
  "term_selected hits term \<longleftrightarrow>
     find_first_of lowercase term = Some 0 \<and> find_first_not_of lowercase term = None \<and>
     (let mset_size = min (hits term) (1000 + 1) in 100 \<le> mset_size \<and> mset_size \<le> 1000)"

fun write_terms :: "(bytes \<Rightarrow> nat) \<Rightarrow> bytes list \<Rightarrow> bytes" where
  "write_terms hits [] = []"
| "write_terms hits (t # ts) = (if term_selected hits t then t @ [10] else []) @ write_terms hits ts"

fun genTerms_opts :: "(char \<times> string) list \<Rightarrow> string option \<times> string \<Rightarrow> (string option \<times> string) res" where
  "genTerms_opts [] cfg = Inr cfg"
| "genTerms_opts ((c, optarg) # os) (db, f) =
     (if c = CHR ''d'' then (if optarg = ''?'' then Inl (Exit (- 1)) else genTerms_opts os (Some optarg, f))
      else if c = CHR ''f'' then (if optarg = ''?'' then Inl (Exit (- 1)) else genTerms_opts os (db, optarg))
      else Inl (Exit (- 1)))"

text \<open>
  \<open>can_write\<close> says which files can be opened for writing and \<open>open_db\<close> which databases open, with
  their terms in order; the result is the name of the written file and its contents.
\<close>

definition genTerms_main ::
    "(string \<Rightarrow> bool) \<Rightarrow> (string \<Rightarrow> bytes list option) \<Rightarrow> (bytes \<Rightarrow> nat) \<Rightarrow> int \<Rightarrow> (char \<times> string) list \<Rightarrow> (string \<times> bytes) res" where
  "genTerms_main can_write open_db hits argc os =
     (if argc \<noteq> 3 \<and> argc \<noteq> 5 then Inl (Exit (- 1))
      else bind_res (genTerms_opts os (None, ''terms.in'')) (\<lambda>(db, f).
        if \<not> can_write f then Inl (Exit (- 1))
        else case db of
          None \<Rightarrow> Inl (Undefined ''null database path'')
        | Some d \<Rightarrow> (case open_db d of None \<Rightarrow> Inl (Exit (- 1)) | Some ts \<Rightarrow> Inr (f, write_terms hits ts))))"

section \<open>Loading the terms\<close>

lemma getline_chars_line:
  "10 \<notin> set l \<Longrightarrow> length l \<le> k \<Longrightarrow> getline_chars k (l @ 10 # r) = (l, r, length l + 1, False, False)"
  by (induction l arbitrary: k) auto

lemma getline_chars_eof:
  "10 \<notin> set l \<Longrightarrow> length l \<le> k \<Longrightarrow> getline_chars k l = (l, [], length l, True, False)"
  by (induction l arbitrary: k) auto

lemma getline_chars_full:
  "10 \<notin> set l \<Longrightarrow> k < length l \<Longrightarrow> getline_chars k (l @ r) = (take k l, drop k l @ r, k, False, True)"
proof (induction l arbitrary: k)
  case (Cons b l)
  then show ?case by (cases k) auto
qed simp

abbreviation good :: "bytes \<Rightarrow> nat \<Rightarrow> istream" where
  "good bs g \<equiv> \<lparr>unread = bs, eofbit = False, failbit = False, gcount = g\<rparr>"

lemma load_line:
  assumes "10 \<notin> set l" "length l \<le> 127"
  shows "load_terms (good (l @ 10 # r) g) ts n = load_terms (good r (length l + 1)) (ts @ [str_of (l @ [0])]) (n + 1)"
  using getline_chars_line [OF assms]
  by (subst load_terms.simps) (simp add: getline_def)

lemma load_eof:
  assumes "10 \<notin> set l" "length l \<le> 127"
  shows "load_terms (good l g) ts n = Some (Inr (ts, n))"
  using getline_chars_eof [OF assms]
  by (subst load_terms.simps) (simp add: getline_def)

lemma str_of_stored: "str_of (l @ [0]) = str_of l"
  by (simp add: str_of_def takeWhile_tail)

lemma load_lines:
  assumes "\<forall>l \<in> set ls. 10 \<notin> set l \<and> length l \<le> 127"
  shows "\<exists>g'. load_terms (good (concat (map (\<lambda>l. l @ [10]) ls) @ r) g) ts n =
    load_terms (good r g') (ts @ map str_of ls) (n + of_nat (length ls))"
  using assms
proof (induction ls arbitrary: g ts n)
  case Nil
  show ?case by auto
next
  case (Cons l ls)
  then show ?case
    using load_line [of l "concat (map (\<lambda>l. l @ [10]) ls) @ r" g ts n]
      Cons.IH [of "length l + 1" "ts @ [str_of l]" "n + 1"]
    by (auto simp: str_of_stored algebra_simps)
qed

lemma load_stuck: "load_terms st ts n = Some y \<Longrightarrow> failbit st \<longrightarrow> eofbit st"
proof (rule load_terms.raw_induct [where P = "\<lambda>st ts n y. failbit st \<longrightarrow> eofbit st"])
  fix f and st :: istream and ts n y
  assume IH: "\<And>st ts n y. f st ts n = Some y \<Longrightarrow> failbit st \<longrightarrow> eofbit st"
    and eq: "(let (term, fin') = getline 128 st
      in if eofbit fin' then Some (Inr (ts, n))
         else if failbit fin' \<and> gcount fin' = 128 then Some (Inl (Exit (- 1)))
         else f fin' (ts @ [str_of term]) (n + 1)) = Some y"
  show "failbit st \<longrightarrow> eofbit st"
  proof (rule ccontr)
    assume "\<not> (failbit st \<longrightarrow> eofbit st)"
    then have "getline 128 st = ([0], st\<lparr>gcount := 0\<rparr>)" "failbit st" "\<not> eofbit st"
      by (auto simp: getline_def)
    then show False using eq IH [of "st\<lparr>gcount := 0\<rparr>"] by auto
  qed
qed

lemma load_long:
  assumes "10 \<notin> set l" "127 < length l"
  shows "load_terms (good (l @ r) g) ts n = None"
proof -
  have "load_terms (good (l @ r) g) ts n =
      load_terms \<lparr>unread = drop 127 l @ r, eofbit = False, failbit = True, gcount = 127\<rparr>
        (ts @ [str_of (take 127 l @ [0])]) (n + 1)"
    using getline_chars_full [OF assms, of r]
    by (subst load_terms.simps) (simp add: getline_def)
  also have "\<dots> = None" using load_stuck by fastforce
  finally show ?thesis .
qed

lemma str_of_NUL_free: "0 \<notin> set l \<Longrightarrow> str_of l = l"
  by (auto simp: str_of_def takeWhile_eq_all_conv)

lemma str_of_set: "set (str_of l) \<subseteq> set l" "0 \<notin> set (str_of l)" "length (str_of l) \<le> length l"
  by (auto simp: str_of_def dest: set_takeWhileD intro: length_takeWhile_le)

section \<open>The term set as a request source\<close>

definition termset_valid :: "TermSet \<Rightarrow> bool" where
  "termset_valid ts \<longleftrightarrow> terms ts \<noteq> [] \<and> unat (term_max ts) < length (terms ts) \<and>
     (\<forall>t \<in> set (terms ts). length t \<le> 127 \<and> 0 \<notin> set t)"

interpretation xapian_src: request_source xapian_genReq termset_valid "\<lambda>idx ts. idx \<le> term_max ts"
proof
  fix ts :: TermSet and idx
  assume v: "termset_valid ts" and d: "idx \<le> term_max ts"
  then have i: "unat idx < length (terms ts)" by (auto simp: termset_valid_def word_le_nat_alt)
  then have "length (terms ts ! unat idx) \<le> 127" using v nth_mem by (auto simp: termset_valid_def)
  then show "\<exists>d s'. xapian_genReq idx ts = Inr (d, s') \<and> termset_valid s' \<and> d \<noteq> [] \<and> int (length d) \<le> MAX_REQ_BYTES"
    using i v by (simp add: xapian_genReq_def getTerm_def MAX_REQ_BYTES_def)
qed

lemma new_TermSet_lines:
  assumes "\<forall>l \<in> set ls. 10 \<notin> set l \<and> length l \<le> 127" "10 \<notin> set r" "length r \<le> 127"
  shows "new_TermSet (Some (concat (map (\<lambda>l. l @ [10]) ls) @ r)) =
    Some (Inr \<lparr>terms = map str_of ls, term_max = of_nat (length ls) - 1\<rparr>)"
proof -
  obtain g' where "load_terms (open_stream (concat (map (\<lambda>l. l @ [10]) ls) @ r)) [] 0 =
      load_terms (good r g') ([] @ map str_of ls) (0 + of_nat (length ls))"
    using load_lines [OF assms(1), of r 0 "[]" 0] by (auto simp: open_stream_def)
  then show ?thesis using load_eof [OF assms(2,3)] by (simp add: new_TermSet_def)
qed

section \<open>Writing the terms\<close>

lemma write_terms_eq: "write_terms hits ts = concat (map (\<lambda>l. l @ [10]) (filter (term_selected hits) ts))"
  by (induction ts) auto

lemma lowercase_range: "b \<in> set lowercase \<longleftrightarrow> 97 \<le> unat b \<and> unat b \<le> 122"
proof -
  have "lowercase = map of_nat [97..<123]" by code_simp
  then have "set lowercase = set (map of_nat [97..<123])" by (rule arg_cong)
  also have "\<dots> = of_nat ` {97..<123}" unfolding list.set_map set_upt ..
  finally have "b \<in> set lowercase \<longleftrightarrow> b \<in> of_nat ` {97..<123}" by (rule arg_cong)
  also have "\<dots> \<longleftrightarrow> 97 \<le> unat b \<and> unat b \<le> 122"
  proof
    assume "b \<in> of_nat ` {97..<123}"
    then obtain n where "b = of_nat n" "97 \<le> n" "n < 123" by auto
    then show "97 \<le> unat b \<and> unat b \<le> 122" by (simp add: unat_of_nat take_bit_nat_eq_self)
  next
    assume "97 \<le> unat b \<and> unat b \<le> 122"
    then have "unat b \<in> {97..<123}" by auto
    then have "of_nat (unat b) \<in> (of_nat ` {97..<123} :: byte set)" by (rule imageI)
    then show "b \<in> of_nat ` {97..<123}" by simp
  qed
  finally show ?thesis .
qed

lemma takeWhile_length_less: "length (takeWhile P s) < length s \<longleftrightarrow> \<not> (\<forall>x \<in> set s. P x)"
  by (induction s) auto

lemma term_selected_iff:
  "term_selected hits t \<longleftrightarrow> t \<noteq> [] \<and> set t \<subseteq> set lowercase \<and> 100 \<le> hits t \<and> hits t \<le> 1000"
proof -
  have "find_first_not_of lowercase t = None \<longleftrightarrow> set t \<subseteq> set lowercase"
    using takeWhile_length_less [of "\<lambda>b. b \<in> set lowercase" t] by (auto simp: find_first_not_of_def Let_def)
  moreover have "find_first_of lowercase t = Some 0 \<longleftrightarrow> t \<noteq> [] \<and> hd t \<in> set lowercase"
    by (cases t) (auto simp: find_first_of_def Let_def)
  moreover have "t \<noteq> [] \<Longrightarrow> set t \<subseteq> set lowercase \<Longrightarrow> hd t \<in> set lowercase" by auto
  ultimately show ?thesis by (auto simp: term_selected_def Let_def)
qed

section \<open>The response\<close>

lemma length_poke: "k + length bs \<le> length res \<Longrightarrow> length (poke k bs res) = length res"
  by (simp add: poke_def)

lemma poke_nth:
  "k + length bs \<le> length res \<Longrightarrow> j < length res \<Longrightarrow>
     poke k bs res ! j = (if k \<le> j \<and> j < k + length bs then Some (bs ! (j - k)) else res ! j)"
  by (auto simp: poke_def nth_append)

text \<open>Every description, written behind the place its size leads to, stays inside the buffer.\<close>

primrec res_ok :: "bytes list \<Rightarrow> nat \<Rightarrow> bool" where
  "res_ok [] l = True"
| "res_ok (d # ds) l = (l + length d + length d \<le> MAX_RES_LEN \<and> res_ok ds (l + length d))"

lemma fill_res_last:
  assumes "fill_res ds c l res = Inr (l1, res1)" "c + length ds < 25"
    "unat (l1 + of_nat (length d)) + length d \<le> MAX_RES_LEN"
  shows "fill_res (ds @ [d]) c l res = Inr (l1 + of_nat (length d), poke (unat (l1 + of_nat (length d))) d res1)"
  using assms
proof (induction ds arbitrary: c l res)
  case (Cons x ds)
  then show ?case by (auto simp: Let_def split: if_splits)
qed (simp add: Let_def)

text \<open>
  The loop on at most 25 documents whose writes stay inside the buffer: the length is the sum of the
  sizes, nothing below the first write is touched, and the last document is written beyond the end of
  what is sent.
\<close>

lemma fill_res_spec:
  assumes "res_ok ds (unat l)" "c + length ds \<le> 25" "length res = MAX_RES_LEN"
  shows "\<exists>l' res'. fill_res ds c l res = Inr (l', res') \<and> unat l' = unat l + sum_list (map length ds) \<and>
    length res' = MAX_RES_LEN \<and>
    (\<forall>j < MAX_RES_LEN. j < unat l + length (hd ds) \<longrightarrow> ds \<noteq> [] \<longrightarrow> res' ! j = res ! j)"
  using assms
proof (induction ds arbitrary: c l res)
  case Nil
  then show ?case by simp
next
  case (Cons d ds)
  have b: "unat l + length d + length d \<le> 2 ^ 20" using Cons.prems(1) by (simp add: MAX_RES_LEN_def)
  then have u: "unat (l + of_nat (length d)) = unat l + length d"
    by (simp add: unat_word_ariths unat_of_nat take_bit_nat_eq_self)
  have p: "length (poke (unat l + length d) d res) = MAX_RES_LEN"
    using b Cons.prems(3) by (simp add: length_poke MAX_RES_LEN_def)
  show ?case
  proof (cases "c + 1 = 25")
    case True
    then have "ds = []" using Cons.prems(2) by simp
    then show ?thesis using True b u p Cons.prems(3)
      by (auto simp: Let_def MAX_RES_LEN_def poke_nth)
  next
    case False
    obtain l' res' where r: "fill_res ds (c + 1) (l + of_nat (length d)) (poke (unat l + length d) d res) = Inr (l', res')"
      "unat l' = unat l + length d + sum_list (map length ds)" "length res' = MAX_RES_LEN"
      "\<forall>j < MAX_RES_LEN. j < unat l + length d + length (hd ds) \<longrightarrow> ds \<noteq> [] \<longrightarrow> res' ! j = poke (unat l + length d) d res ! j"
      using Cons.IH [of "l + of_nat (length d)" "c + 1" "poke (unat l + length d) d res"] Cons.prems p u
      by auto
    then show ?thesis using False b u Cons.prems(3)
      by (cases "ds = []") (auto simp: Let_def MAX_RES_LEN_def poke_nth)
  qed
qed

lemma res_ok_append: "res_ok (ds @ es) l \<longleftrightarrow> res_ok ds l \<and> res_ok es (l + sum_list (map length ds))"
  by (induction ds arbitrary: l) (auto simp: add.assoc)

section \<open>The request loop\<close>

abbreviation in_request :: "runstate \<Rightarrow> nat" where
  "in_request s \<equiv> count_list (pcs s) InRequest"

fun pc_weight :: "runpc \<Rightarrow> nat" where
  "pc_weight AtTest = 2"
| "pc_weight InRequest = 1"
| "pc_weight Returned = 0"

definition run_measure :: "nat \<Rightarrow> runstate \<Rightarrow> nat" where
  "run_measure B s = 3 * (B - unat (processed s)) + sum_list (map pc_weight (pcs s))"

text \<open>
  The requests done and under way exceed the target by less than the number of threads, and a thread
  that has returned saw the target reached.
\<close>

definition run_inv :: "u64 \<Rightarrow> nat \<Rightarrow> runstate \<Rightarrow> bool" where
  "run_inv N n s \<longleftrightarrow> length (pcs s) = n \<and> unat (processed s) + in_request s \<le> unat N + n - 1 \<and>
     (Returned \<in> set (pcs s) \<longrightarrow> unat N \<le> unat (processed s))"

lemma count_list_room: "i < length xs \<Longrightarrow> xs ! i \<noteq> a \<Longrightarrow> count_list xs a < length xs"
proof (induction xs arbitrary: i)
  case (Cons x xs)
  then show ?case using count_le_length [of xs a] by (cases i) auto
qed simp

lemma run_init_inv: "run_inv N n (run_init n)"
proof -
  have "count_list (replicate n AtTest) InRequest = 0" by (induction n) auto
  then show ?thesis by (auto simp: run_inv_def run_init_def)
qed

lemma run_step_inv:
  assumes "run_step N s s'" "run_inv N n s" "unat N + n < 2 ^ 64"
  shows "run_inv N n s' \<and> run_measure (unat N + n) s' < run_measure (unat N + n) s"
  using assms(1)
proof (cases rule: run_step.cases)
  case (enter i)
  then show ?thesis
    using assms(2) count_list_update [OF enter(2), of InRequest InRequest]
      sum_list_map_update [OF enter(2), of pc_weight InRequest] count_list_room [OF enter(2), of InRequest]
      set_update_subset_insert [of "pcs s" i InRequest]
    by (auto simp: run_inv_def run_measure_def word_less_nat_alt)
next
  case (leave i)
  then show ?thesis
    using assms(2) count_list_update [OF leave(2), of Returned InRequest]
      sum_list_map_update [OF leave(2), of pc_weight Returned]
    by (auto simp: run_inv_def run_measure_def word_less_nat_alt)
next
  case (count i)
  have c: "count_list ((pcs s)[i := AtTest]) InRequest + 1 = in_request s"
    using count_list_update [OF count(2), of AtTest InRequest] count(3) by simp
  have le: "unat (processed s) + in_request s \<le> unat N + n - 1" using assms(2) by (simp add: run_inv_def)
  then have u: "unat (processed s + 1) = unat (processed s) + 1" using c assms(3) by (simp add: unat_word_ariths)
  show ?thesis
    using count assms(2) c le u sum_list_map_update [OF count(2), of pc_weight AtTest]
      set_update_subset_insert [of "pcs s" i AtTest]
    by (auto simp: run_inv_def run_measure_def)
qed

lemma run_steps:
  assumes "(run_step N ^^ k) (run_init n) s" "unat N + n < 2 ^ 64"
  shows "run_inv N n s \<and> k + run_measure (unat N + n) s \<le> 3 * (unat N + n) + 2 * n"
  using assms(1)
proof (induction k arbitrary: s)
  case 0
  have "sum_list (map pc_weight (replicate n AtTest)) = 2 * n" by (induction n) auto
  then show ?case using 0 run_init_inv by (auto simp: run_measure_def run_init_def)
next
  case (Suc k)
  then obtain t where t: "(run_step N ^^ k) (run_init n) t" "run_step N t s" by auto
  from run_step_inv [OF t(2)] Suc.IH [OF t(1)] assms(2) show ?case by fastforce
qed

lemma run_progress:
  assumes "\<forall>s'. \<not> run_step N s s'" "i < length (pcs s)"
  shows "pcs s ! i = Returned"
proof (cases "pcs s ! i")
  case AtTest
  then show ?thesis using assms enter [of i s N] leave [of i s N] by blast
next
  case InRequest
  then show ?thesis using assms count [of i s N] by blast
qed

section \<open>Properties\<close>

text \<open>
  The file \<open>genTerms\<close> writes is read back by the client: the loader ends and the term set holds
  the selected terms in order, as long as no selected term exceeds 127 characters; the selected terms
  are the non-empty lower-case ones with 100 to 1000 matches.
\<close>

lemma xapian_terms_roundtrip:
  assumes "genTerms_main can_write open_db hits argc os = Inr (f, bs)"
    "open_db d = Some ts" "genTerms_opts os (None, ''terms.in'') = Inr (Some d, f)"
    "\<forall>t \<in> set ts. length t \<le> 127"
  shows "\<exists>sel. new_TermSet (Some bs) = Some (Inr \<lparr>terms = sel, term_max = of_nat (length sel) - 1\<rparr>) \<and>
    sel = filter (\<lambda>t. t \<noteq> [] \<and> (\<forall>b \<in> set t. 97 \<le> unat b \<and> unat b \<le> 122) \<and> 100 \<le> hits t \<and> hits t \<le> 1000) ts"
proof -
  let ?sel = "filter (term_selected hits) ts"
  have bs: "bs = concat (map (\<lambda>l. l @ [10]) ?sel) @ []"
    using assms(1-3) by (auto simp: genTerms_main_def write_terms_eq split: if_splits)
  have low: "97 \<le> unat b" if "t \<in> set ?sel" "b \<in> set t" for t b
    using that by (auto simp: term_selected_iff lowercase_range)
  then have nl: "10 \<notin> set t \<and> 0 \<notin> set t" if "t \<in> set ?sel" for t
    using that by fastforce
  then have "new_TermSet (Some bs) = Some (Inr \<lparr>terms = map str_of ?sel, term_max = of_nat (length ?sel) - 1\<rparr>)"
    unfolding bs by (intro new_TermSet_lines) (use assms(4) nl in auto)
  moreover have "map str_of ?sel = ?sel" by (intro map_idI str_of_NUL_free) (use nl in blast)
  moreover have "?sel = filter (\<lambda>t. t \<noteq> [] \<and> (\<forall>b \<in> set t. 97 \<le> unat b \<and> unat b \<le> 122) \<and> 100 \<le> hits t \<and> hits t \<le> 1000) ts"
    by (rule filter_cong) (auto simp: term_selected_iff lowercase_range)
  ultimately show ?thesis by auto
qed

lemma xapian_terms_roundtrip_witness:
  "genTerms_main (\<lambda>_. True) (\<lambda>_. Some [[97, 98], [65]]) (\<lambda>_. 500) 3 [(CHR ''d'', ''x'')] = Inr (''terms.in'', [97, 98, 10]) \<and>
   new_TermSet (Some [97, 98, 10]) = Some (Inr \<lparr>terms = [[97, 98]], term_max = 0\<rparr>)"
proof -
  have s: "term_selected (\<lambda>_. 500) [97, 98]" "\<not> term_selected (\<lambda>_. 500) [65]"
    by (simp_all add: term_selected_iff lowercase_range)
  have g: "genTerms_main (\<lambda>_. True) (\<lambda>_. Some [[97, 98], [65]]) (\<lambda>_. 500) 3 [(CHR ''d'', ''x'')] = Inr (''terms.in'', [97, 98, 10])"
    by (simp add: genTerms_main_def s)
  then show ?thesis using xapian_terms_roundtrip [OF g, where d = "''x''"] by simp
qed

text \<open>
  C32. A line of 128 or more characters makes the constructor of \<open>TermSet\<close> loop for ever, whatever
  precedes and follows it: the test for a term that is too big needs a count of 128, but a full buffer
  leaves a count of 127, and the failed stream never reaches the end of the file.
\<close>

theorem xapian_long_term_diverges:
  assumes "\<forall>l \<in> set ls. 10 \<notin> set l \<and> length l \<le> 127" "10 \<notin> set l" "128 \<le> length l"
  shows "new_TermSet (Some (concat (map (\<lambda>l. l @ [10]) ls) @ l @ rest)) = None"
proof -
  obtain g' where "load_terms (open_stream (concat (map (\<lambda>l. l @ [10]) ls) @ l @ rest)) [] 0 =
      load_terms (good (l @ rest) g') ([] @ map str_of ls) (0 + of_nat (length ls))"
    using load_lines [OF assms(1), of "l @ rest" 0 "[]" 0] by (auto simp: open_stream_def)
  then show ?thesis using load_long [OF assms(2)] assms(3) by (simp add: new_TermSet_def)
qed

theorem xapian_long_term_diverges_witness:
  "new_TermSet (Some (concat (map (\<lambda>l. l @ [10]) [[97]]) @ replicate 128 98 @ [10])) = None"
  by (rule xapian_long_term_diverges) simp_all

text \<open>
  The response of the search server, for a result page that fits: its length is the total size of
  the descriptions, but the bytes below the size of the first one are indeterminate, and the last
  description is not in it at all, since each is copied behind its place.
\<close>

lemma xapian_response:
  assumes "search (str_of (req @ [0])) = ds @ [d]" "length req < 256" "length ds < 25" "res_ok (ds @ [d]) 0"
  shows "\<exists>sent. processRequest search req = Inr sent \<and>
    length sent = sum_list (map length (ds @ [d])) \<and> (\<forall>j < length (hd (ds @ [d])). sent ! j = None) \<and>
    (\<forall>search' d'. length d' = length d \<and> search' (str_of (req @ [0])) = ds @ [d'] \<longrightarrow>
       processRequest search' req = Inr sent)"
proof -
  let ?R = "replicate MAX_RES_LEN (None :: byte option)"
  have ok: "res_ok ds 0" and b: "sum_list (map length ds) + length d + length d \<le> MAX_RES_LEN"
    using assms(4) by (simp_all add: res_ok_append)
  obtain l1 res1 where r: "fill_res ds 0 0 ?R = Inr (l1, res1)" "unat l1 = sum_list (map length ds)"
    "length res1 = MAX_RES_LEN" "\<forall>j < MAX_RES_LEN. j < length (hd ds) \<longrightarrow> ds \<noteq> [] \<longrightarrow> res1 ! j = None"
    using fill_res_spec [of ds 0 0 ?R] ok assms(3) by auto
  let ?l = "l1 + of_nat (length d)"
  have u: "unat ?l = sum_list (map length ds) + length d"
    using b r(2) by (simp add: MAX_RES_LEN_def unat_word_ariths unat_of_nat take_bit_nat_eq_self)
  have p: "processRequest search' req = Inr (take (unat ?l) res1)"
    if "length d' = length d" "search' (str_of (req @ [0])) = ds @ [d']" for search' d'
  proof -
    have "fill_res (ds @ [d']) 0 0 ?R = Inr (?l, poke (unat ?l) d' res1)"
      using fill_res_last [OF r(1), of d'] assms(3) u b that(1) by simp
    moreover have "take (unat ?l) (poke (unat ?l) d' res1) = take (unat ?l) res1"
      using u b r(3) by (simp add: poke_def)
    ultimately show ?thesis using that assms(2) by (simp add: processRequest_def)
  qed
  have n: "res1 ! j = None" if "j < length (hd (ds @ [d]))" for j
  proof (cases "ds = []")
    case True
    then show ?thesis using r(1) that b by (auto simp: nth_replicate)
  next
    case False
    then have "length (hd ds) \<le> sum_list (map length ds)" by (cases ds) auto
    then show ?thesis using r(4) that False b by simp
  qed
  have "length (hd (ds @ [d])) \<le> unat ?l" using u by (cases ds) auto
  then show ?thesis using p [of d search, OF refl assms(1)] p n r(3) u b
    by (intro exI [of _ "take (unat ?l) res1"]) auto
qed

lemma xapian_response_witness:
  "\<exists>sent. processRequest (\<lambda>_. [[1, 2], [3]]) [104] = Inr sent \<and> length sent = 3 \<and> sent ! 0 = None \<and>
     processRequest (\<lambda>_. [[1, 2], [9]]) [104] = Inr sent"
  using xapian_response [of "\<lambda>_. [[1, 2], [3]]" "[104]" "[[1, 2]]" "[3]"] by (fastforce simp: MAX_RES_LEN_def)

text \<open>
  The request loop of the search server's threads ends after boundedly many steps, whatever the
  interleaving, and then at least the requested number of requests was processed and fewer than one
  extra per additional thread: the test and the increment of the counter are separate.
\<close>

lemma xapian_run_counts:
  assumes "(run_step N ^^ k) (run_init n) s" "unat N + n < 2 ^ 64" "0 < n"
  shows "k \<le> 3 * unat N + 5 * n \<and>
    ((\<forall>s'. \<not> run_step N s s') \<longrightarrow> unat N \<le> unat (processed s) \<and> unat (processed s) \<le> unat N + n - 1)"
proof -
  have i: "run_inv N n s" "k \<le> 3 * (unat N + n) + 2 * n" using run_steps [OF assms(1,2)] by simp_all
  moreover have "unat N \<le> unat (processed s)" if "\<forall>s'. \<not> run_step N s s'"
  proof -
    have "0 < length (pcs s)" using i(1) assms(3) by (simp add: run_inv_def)
    then have "Returned \<in> set (pcs s)" using run_progress [OF that] nth_mem by metis
    then show ?thesis using i(1) by (simp add: run_inv_def)
  qed
  ultimately show ?thesis by (auto simp: run_inv_def)
qed

lemma xapian_run_counts_witness:
  "(run_step 0 ^^ 1) (run_init 1) \<lparr>processed = 0, pcs = [Returned]\<rparr> \<and>
   (\<forall>s'. \<not> run_step 0 \<lparr>processed = 0, pcs = [Returned]\<rparr> s') \<and> unat (0 :: u64) \<le> 0 + 1 - 1"
proof -
  let ?s = "\<lparr>processed = 0, pcs = [Returned]\<rparr>"
  have 1: "(run_step 0 ^^ 1) (run_init 1) ?s"
    using leave [of 0 "run_init 1" 0] by (auto simp: run_init_def relcompp_apply)
  moreover have "\<forall>s'. \<not> run_step 0 ?s s'" by (auto elim!: run_step.cases)
  ultimately show ?thesis using xapian_run_counts [OF 1] by simp
qed

end
