(* ===== verification/App_ImgDnn.thy ===== *)
theory App_ImgDnn
  imports App_Source
begin

text \<open>
  The handwriting-recognition benchmark, \<^verbatim>\<open>src/img-dnn\<close>: the MNIST reader and the serialised matrix of
  \<open>common.cpp\<close> and \<open>common.h\<close>, the request generator of \<open>client.cpp\<close>, and the network evaluation,
  worker threads and \<open>main\<close> of \<open>img-dnn.cpp\<close>. A \<open>cv::Mat\<close> of one channel is its size and its
  elements in row-major order, read and written as \<open>at\<close> does; OpenCV's matrix arithmetic and file
  storage are parameters (\<open>cv_ops\<close>, \<open>cv_fs\<close>).
\<close>

section \<open>Matrices\<close>

record 'a Mat =
  m_rows :: nat
  m_cols :: nat
  m_data :: "'a list"

definition zeros :: "'a \<Rightarrow> nat \<Rightarrow> nat \<Rightarrow> 'a Mat" where
  "zeros z r c = \<lparr>m_rows = r, m_cols = c, m_data = replicate (r * c) z\<rparr>"

text \<open>An access outside the matrix is not checked in a release build of OpenCV.\<close>

definition mat_get :: "'a Mat \<Rightarrow> nat \<Rightarrow> nat \<Rightarrow> 'a res" where
  "mat_get m r c = (if r < m_rows m \<and> c < m_cols m then Inr (m_data m ! (r * m_cols m + c))
     else Inl (Undefined ''Mat::at''))"

definition mat_set :: "'a Mat \<Rightarrow> nat \<Rightarrow> nat \<Rightarrow> 'a \<Rightarrow> 'a Mat res" where
  "mat_set m r c x = (if r < m_rows m \<and> c < m_cols m
     then Inr (m\<lparr>m_data := (m_data m)[r * m_cols m + c := x]\<rparr>) else Inl (Undefined ''Mat::at''))"

section \<open>common.h\<close>

definition sm_rows :: nat where
  "sm_rows = 28 * 28"

definition sm_cols :: nat where
  "sm_cols = 1"

definition SparseAutoencoderLayers :: nat where
  "SparseAutoencoderLayers = 2"

definition nclasses :: nat where
  "nclasses = 10"

record 'm SA =
  W1 :: 'm
  W2 :: 'm
  b1 :: 'm
  b2 :: 'm
  W1grad :: 'm
  W2grad :: 'm
  b1grad :: 'm
  b2grad :: 'm
  sa_cost :: double

record 'm SMR =
  Weight :: 'm
  Wgrad :: 'm
  smr_cost :: double

text \<open>
  A serialised matrix holds the elements as they lie in memory; here an element is the 64-bit
  pattern of a \<open>double\<close>. The loops run over the positions in row-major order.
\<close>

fun serialize_loop :: "u64 Mat \<Rightarrow> (nat \<times> nat) list \<Rightarrow> u64 list res" where
  "serialize_loop m [] = Inr []"
| "serialize_loop m ((r, c) # ps) =
     bind_res (mat_get m r c) (\<lambda>x. bind_res (serialize_loop m ps) (\<lambda>xs. Inr (x # xs)))"

definition sm_positions :: "(nat \<times> nat) list" where
  "sm_positions = List.product [0..<sm_rows] [0..<sm_cols]"

definition serialize :: "u64 Mat \<Rightarrow> u64 list res" where
  "serialize m = serialize_loop m sm_positions"

fun deserialize_loop :: "(nat \<times> nat) list \<Rightarrow> u64 list \<Rightarrow> u64 Mat \<Rightarrow> u64 Mat res" where
  "deserialize_loop [] ptr m = Inr m"
| "deserialize_loop ((r, c) # ps) ptr m =
     (case ptr of [] \<Rightarrow> Inl (Undefined ''ptr'')
      | x # xs \<Rightarrow> bind_res (mat_set m r c x) (\<lambda>m'. deserialize_loop ps xs m'))"

definition deserialize :: "u64 list \<Rightarrow> u64 Mat res" where
  "deserialize ds = deserialize_loop sm_positions ds (zeros 0 sm_rows sm_cols)"

text \<open>The object in memory: its elements one after the other.\<close>

definition smat_bytes :: "u64 list \<Rightarrow> bytes" where
  "smat_bytes ds = concat (map (le_bytes 8) ds)"

fun smat_of_bytes :: "nat \<Rightarrow> bytes \<Rightarrow> u64 list" where
  "smat_of_bytes 0 bs = []"
| "smat_of_bytes (Suc n) bs = le_word (take 8 bs) # smat_of_bytes n (drop 8 bs)"

section \<open>common.cpp\<close>

definition ReverseInt :: "u32 \<Rightarrow> u32" where
  "ReverseInt i =
     (let ch1 = i AND 255; ch2 = drop_bit 8 i AND 255; ch3 = drop_bit 16 i AND 255; ch4 = drop_bit 24 i AND 255
      in push_bit 24 ch1 + push_bit 16 ch2 + push_bit 8 ch3 + ch4)"

text \<open>
  \<open>file.read(p, n)\<close> on a binary \<open>ifstream\<close>: a stream that is not good stores nothing; a short read
  stores what is there and fails. \<open>old\<close> is what the variable held.
\<close>

record bstream =
  bs_unread :: bytes
  bs_good :: bool

definition read_n :: "nat \<Rightarrow> bytes \<Rightarrow> bstream \<Rightarrow> bytes \<times> bstream" where
  "read_n n old st =
     (if \<not> bs_good st then (old, st)
      else if n \<le> length (bs_unread st) then (take n (bs_unread st), st\<lparr>bs_unread := drop n (bs_unread st)\<rparr>)
      else (bs_unread st @ drop (length (bs_unread st)) old, \<lparr>bs_unread = [], bs_good = False\<rparr>))"

definition read_int :: "bstream \<Rightarrow> u32 \<times> bstream" where
  "read_int st = (let (bs, st') = read_n 4 (le_bytes 4 (0 :: u32)) st in (ReverseInt (le_word bs), st'))"

definition read_uchar :: "bstream \<Rightarrow> byte \<times> bstream" where
  "read_uchar st = (let (bs, st') = read_n 1 [0] st in (hd bs, st'))"

fun read_pixels :: "nat \<Rightarrow> bstream \<Rightarrow> bytes \<times> bstream" where
  "read_pixels 0 st = ([], st)"
| "read_pixels (Suc n) st =
     (let (p, st1) = read_uchar st; (ps, st2) = read_pixels n st1 in (p # ps, st2))"

text \<open>An \<open>int\<close> loop bound: a negative one gives no iterations.\<close>

definition loop_count :: "u32 \<Rightarrow> nat" where
  "loop_count w = nat (sint w)"

text \<open>The two inner loops fill the \<open>n_rows\<close> by \<open>n_cols\<close> matrix in row-major order.\<close>

fun read_images :: "nat \<Rightarrow> nat \<Rightarrow> nat \<Rightarrow> bstream \<Rightarrow> byte Mat list \<times> bstream" where
  "read_images 0 r c st = ([], st)"
| "read_images (Suc n) r c st =
     (let (ps, st1) = read_pixels (r * c) st; (ms, st2) = read_images n r c st1
      in (\<lparr>m_rows = r, m_cols = c, m_data = ps\<rparr> # ms, st2))"

definition read_Mnist :: "bytes option \<Rightarrow> byte Mat list res" where
  "read_Mnist file =
     (case file of
        None \<Rightarrow> Inl (Exit (- 1))
      | Some bs \<Rightarrow>
          (let (magic_number, s1) = read_int \<lparr>bs_unread = bs, bs_good = True\<rparr>;
               (number_of_images, s2) = read_int s1;
               (n_rows, s3) = read_int s2;
               (n_cols, s4) = read_int s3
           in if 0 < loop_count number_of_images \<and> (sint n_rows < 0 \<or> sint n_cols < 0)
              then Inl (Throw ''cv::Mat::zeros'')
              else Inr (fst (read_images (loop_count number_of_images) (loop_count n_rows) (loop_count n_cols) s4))))"

fun read_labels :: "nat \<Rightarrow> nat \<Rightarrow> bstream \<Rightarrow> double Mat \<Rightarrow> double Mat res" where
  "read_labels i 0 st m = Inr m"
| "read_labels i (Suc n) st m =
     (let (t, st') = read_uchar st
      in bind_res (mat_set m 0 i (Fin (of_nat (unat t)))) (read_labels (Suc i) n st'))"

definition read_Mnist_Label :: "bytes option \<Rightarrow> double Mat \<Rightarrow> double Mat res" where
  "read_Mnist_Label file m =
     (case file of
        None \<Rightarrow> Inr m
      | Some bs \<Rightarrow>
          (let (magic_number, s1) = read_int \<lparr>bs_unread = bs, bs_good = True\<rparr>;
               (number_of_images, s2) = read_int s1
           in read_labels 0 (loop_count number_of_images) s2 m))"

text \<open>
  \<open>concatenateMat\<close>: the column \<open>i\<close> of the result is image \<open>i\<close>, reshaped to one column, copied into
  the sub-matrix \<open>Rect(i, 0, 1, rows)\<close>; at the end every element is divided by 255.
\<close>

fun copy_column :: "nat \<Rightarrow> nat \<Rightarrow> 'a list \<Rightarrow> 'a Mat \<Rightarrow> 'a Mat res" where
  "copy_column r i [] m = Inr m"
| "copy_column r i (x # xs) m = bind_res (mat_set m r i x) (copy_column (Suc r) i xs)"

fun concat_loop :: "nat \<Rightarrow> byte Mat list \<Rightarrow> double Mat \<Rightarrow> double Mat res" where
  "concat_loop i [] m = Inr m"
| "concat_loop i (v # vs) m =
     bind_res (copy_column 0 i (map (\<lambda>b. Fin (of_nat (unat b))) (m_data v)) m) (concat_loop (Suc i) vs)"

definition concatenateMat :: "byte Mat list \<Rightarrow> double Mat res" where
  "concatenateMat vec =
     (case vec of
        [] \<Rightarrow> Inl (Undefined ''vec[0]'')
      | v # _ \<Rightarrow>
          (if int (m_rows v * m_cols v) \<ge> 2 ^ 31 then Inl (Undefined ''height * width'')
           else bind_res (concat_loop 0 vec (zeros (Fin 0) (m_rows v * m_cols v) (length vec))) (\<lambda>res.
                  Inr (res\<lparr>m_data := map (\<lambda>x. div_double x (Fin 255)) (m_data res)\<rparr>))))"

definition readData :: "bytes option \<Rightarrow> bytes option \<Rightarrow> nat \<Rightarrow> (double Mat \<times> double Mat) res" where
  "readData xfile yfile number_of_images =
     bind_res (read_Mnist xfile) (\<lambda>vec.
       bind_res (read_Mnist_Label yfile (zeros (Fin 0) 1 number_of_images)) (\<lambda>y.
         bind_res (concatenateMat vec) (\<lambda>x. Inr (x, y))))"

section \<open>client.cpp\<close>

definition totalImgs :: int where
  "totalImgs = 10000"

text \<open>\<open>bits\<close> gives the pattern of a \<open>double\<close>; \<open>fs\<close> the contents of a file, if it can be opened.\<close>

definition imgdnn_clientInit :: "(double \<Rightarrow> u64) \<Rightarrow> env \<Rightarrow> (string \<Rightarrow> bytes option) \<Rightarrow> u64 Mat res" where
  "imgdnn_clientInit bits e fs =
     (let dir = getOpt_app extract_string e ''TBENCH_MNIST_DIR'' ''''
      in bind_res (readData (fs (dir @ ''/t10k-images-idx3-ubyte'')) (fs (dir @ ''/t10k-labels-idx1-ubyte''))
                     (nat totalImgs))
           (\<lambda>(x, y). Inr \<lparr>m_rows = m_rows x, m_cols = m_cols x, m_data = map bits (m_data x)\<rparr>))"

text \<open>\<open>testX(Rect(req, 0, 1, testX.rows))\<close>; OpenCV throws when the rectangle is not inside the matrix.\<close>

definition column :: "nat \<Rightarrow> 'a Mat \<Rightarrow> 'a Mat res" where
  "column i m =
     (if i < m_cols m then Inr \<lparr>m_rows = m_rows m, m_cols = 1, m_data = map (\<lambda>r. m_data m ! (r * m_cols m + i)) [0..<m_rows m]\<rparr>
      else Inl (Throw ''cv::Exception''))"

definition imgdnn_get :: "int \<Rightarrow> u64 Mat \<Rightarrow> (bytes \<times> u64 Mat) res" where
  "imgdnn_get req testX =
     (if \<not> req < totalImgs then Inl (Abort ''req < totalImgs'')
      else bind_res (column (nat req) testX) (\<lambda>single.
             bind_res (serialize single) (\<lambda>smat. Inr (smat_bytes smat, testX))))"

section \<open>img-dnn.cpp\<close>

text \<open>
  The operations of OpenCV that \<open>sigmoid\<close> and \<open>resultProdict\<close> call, in the order they appear: negation,
  element-wise exponential, addition of and division by a scalar, product, sum, \<open>repeat\<close>, the two
  reductions, element-wise quotient and logarithm.
\<close>

record 'm cv_ops =
  cv_neg :: "'m \<Rightarrow> 'm"
  cv_exp :: "'m \<Rightarrow> 'm"
  cv_add1 :: "'m \<Rightarrow> 'm"
  cv_recip :: "'m \<Rightarrow> 'm"
  cv_mul :: "'m \<Rightarrow> 'm \<Rightarrow> 'm"
  cv_add :: "'m \<Rightarrow> 'm \<Rightarrow> 'm"
  cv_repeat :: "'m \<Rightarrow> nat \<Rightarrow> nat \<Rightarrow> 'm"
  cv_reduce_max :: "'m \<Rightarrow> 'm"
  cv_reduce_sum :: "'m \<Rightarrow> 'm"
  cv_divide :: "'m \<Rightarrow> 'm \<Rightarrow> 'm"
  cv_log :: "'m \<Rightarrow> 'm"

definition sigmoid :: "'m cv_ops \<Rightarrow> 'm \<Rightarrow> 'm" where
  "sigmoid cv m = cv_recip cv (cv_add1 cv (cv_exp cv (cv_neg cv m)))"

fun activations ::
    "(double Mat) cv_ops \<Rightarrow> (double Mat) SA list \<Rightarrow> nat \<Rightarrow> nat \<Rightarrow> nat \<Rightarrow> double Mat \<Rightarrow> double Mat res" where
  "activations cv hLayers x_cols i 0 a = Inr a"
| "activations cv hLayers x_cols i (Suc k) a =
     (if i < length hLayers
      then (let l = hLayers ! i
            in activations cv hLayers x_cols (Suc i) k
                 (sigmoid cv (cv_add cv (cv_mul cv (W1 l) a) (cv_repeat cv (b1 l) 1 x_cols))))
      else Inl (Undefined ''hLayers[i - 1]''))"

fun argmax_loop :: "double list \<Rightarrow> nat \<Rightarrow> double \<Rightarrow> nat \<Rightarrow> nat" where
  "argmax_loop [] j maxele which = which"
| "argmax_loop (x # xs) j maxele which =
     (if less_double maxele x then argmax_loop xs (Suc j) x j else argmax_loop xs (Suc j) maxele which)"

definition log_softmax :: "(double Mat) cv_ops \<Rightarrow> double Mat \<Rightarrow> double Mat" where
  "log_softmax cv m =
     (let m' = cv_add cv m (cv_repeat cv (cv_reduce_max cv m) (m_rows m) 1);
          p = cv_exp cv m';
          q = cv_divide cv p (cv_repeat cv (cv_reduce_sum cv p) (m_rows p) 1)
      in cv_log cv q)"

definition mat_column :: "'a Mat \<Rightarrow> nat \<Rightarrow> 'a list" where
  "mat_column m i = map (\<lambda>j. m_data m ! (j * m_cols m + i)) [0..<m_rows m]"

text \<open>
  The result row: for each column of the log-probabilities the class the loop finds. An empty column
  would be read at row 0.
\<close>

fun column_class :: "double list \<Rightarrow> nat res" where
  "column_class [] = Inl (Undefined ''Mat::at'')"
| "column_class (x # xs) = Inr (argmax_loop xs 1 x 0)"

fun classes :: "double Mat \<Rightarrow> nat list \<Rightarrow> nat list res" where
  "classes m [] = Inr []"
| "classes m (i # is) = bind_res (column_class (mat_column m i)) (\<lambda>k. bind_res (classes m is) (\<lambda>ks. Inr (k # ks)))"

definition resultProdict :: "(double Mat) cv_ops \<Rightarrow> double Mat \<Rightarrow> (double Mat) SA list \<Rightarrow> (double Mat) SMR \<Rightarrow> nat list res" where
  "resultProdict cv x hLayers smr =
     bind_res (activations cv hLayers (m_cols x) 0 SparseAutoencoderLayers x) (\<lambda>a.
       (let tmp = log_softmax cv (cv_mul cv (Weight smr) a) in classes tmp [0..<m_cols tmp]))"

text \<open>File storage: members of a node by name, and the elements of a sequence.\<close>

record ('n, 'm) cv_fs =
  fs_node :: "'n \<Rightarrow> string \<Rightarrow> 'n"
  fs_mat :: "'n \<Rightarrow> string \<Rightarrow> 'm"
  fs_real :: "'n \<Rightarrow> string \<Rightarrow> double"
  fs_items :: "'n \<Rightarrow> 'n list"

definition load_SA :: "('n, 'm) cv_fs \<Rightarrow> 'n \<Rightarrow> 'm SA" where
  "load_SA fs n = \<lparr>W1 = fs_mat fs n ''W1'', W2 = fs_mat fs n ''W2'', b1 = fs_mat fs n ''b1'', b2 = fs_mat fs n ''b2'',
     W1grad = fs_mat fs n ''W1grad'', W2grad = fs_mat fs n ''W2grad'', b1grad = fs_mat fs n ''b1grad'',
     b2grad = fs_mat fs n ''b2grad'', sa_cost = fs_real fs n ''cost''\<rparr>"

definition loadModel :: "('n, 'm) cv_fs \<Rightarrow> 'n \<Rightarrow> 'm SMR \<times> 'm SA list" where
  "loadModel fs rt =
     (let smrNode = fs_node fs rt ''smr''
      in (\<lparr>Weight = fs_mat fs smrNode ''Weight'', Wgrad = fs_mat fs smrNode ''Wgrad'', smr_cost = fs_real fs smrNode ''cost''\<rparr>,
          map (load_SA fs) (fs_items fs (fs_node fs rt ''HiddenLayers''))))"

text \<open>
  One pass of the worker's loop after a request arrived in \<open>buf\<close>: the matrix is read from the buffer,
  classified, and the class is sent as an \<open>int\<close>. \<open>val\<close> gives the number a bit pattern stands for.
\<close>

definition worker_request ::
    "(u64 \<Rightarrow> double) \<Rightarrow> (double Mat) cv_ops \<Rightarrow> (double Mat) SA list \<Rightarrow> (double Mat) SMR \<Rightarrow> bytes \<Rightarrow> bytes res" where
  "worker_request val cv hLayers smr buf =
     bind_res (deserialize (smat_of_bytes (sm_rows * sm_cols) buf)) (\<lambda>m.
       bind_res (resultProdict cv \<lparr>m_rows = m_rows m, m_cols = m_cols m, m_data = map val (m_data m)\<rparr> hLayers smr) (\<lambda>ks.
         case ks of [] \<Rightarrow> Inl (Undefined ''Mat::at'') | k # _ \<Rightarrow> Inr (le_bytes 4 (of_nat k :: u32))))"

text \<open>
  The workers' loop: \<open>++nReqsTotal <= maxReqs\<close> is one atomic increment whose result the thread tests.
  \<open>w_reqs\<close> are the threads' own counters.
\<close>

datatype wpc = AtLoop | Serving | Ended

record wstate =
  nReqsTotal :: int
  wpcs :: "wpc list"
  w_reqs :: "nat list"

definition workers_init :: "nat \<Rightarrow> wstate" where
  "workers_init n = \<lparr>nReqsTotal = 0, wpcs = replicate n AtLoop, w_reqs = replicate n 0\<rparr>"

inductive worker_step :: "int \<Rightarrow> wstate \<Rightarrow> wstate \<Rightarrow> bool" for maxReqs where
  take_req: "t < length (wpcs s) \<Longrightarrow> wpcs s ! t = AtLoop \<Longrightarrow> nReqsTotal s + 1 \<le> maxReqs \<Longrightarrow>
    worker_step maxReqs s (s\<lparr>nReqsTotal := nReqsTotal s + 1, wpcs := (wpcs s)[t := Serving],
      w_reqs := (w_reqs s)[t := w_reqs s ! t + 1]\<rparr>)"
| stop: "t < length (wpcs s) \<Longrightarrow> wpcs s ! t = AtLoop \<Longrightarrow> \<not> nReqsTotal s + 1 \<le> maxReqs \<Longrightarrow>
    worker_step maxReqs s (s\<lparr>nReqsTotal := nReqsTotal s + 1, wpcs := (wpcs s)[t := Ended]\<rparr>)"
| respond: "t < length (wpcs s) \<Longrightarrow> wpcs s ! t = Serving \<Longrightarrow>
    worker_step maxReqs s (s\<lparr>wpcs := (wpcs s)[t := AtLoop]\<rparr>)"

record imgdnn_cfg =
  modelFile :: string
  maxReqs :: int
  nThreads :: int

text \<open>\<open>main\<close>'s options; the result says whether the program goes on (\<open>Inr\<close>) or returns a status.\<close>

fun imgdnn_opts :: "(char \<times> string) list \<Rightarrow> imgdnn_cfg \<Rightarrow> imgdnn_cfg res" where
  "imgdnn_opts [] cfg = Inr cfg"
| "imgdnn_opts ((c, optarg) # os) cfg =
     (if c = CHR ''f'' then imgdnn_opts os (cfg\<lparr>modelFile := optarg\<rparr>)
      else if c = CHR ''n'' then imgdnn_opts os (cfg\<lparr>maxReqs := atoi optarg\<rparr>)
      else if c = CHR ''r'' then imgdnn_opts os (cfg\<lparr>nThreads := atoi optarg\<rparr>)
      else if c = CHR ''h'' then Inl (Exit 0)
      else if c = CHR ''?'' then Inl (Exit (- 1))
      else imgdnn_opts os cfg)"

definition imgdnn_main :: "(char \<times> string) list \<Rightarrow> (imgdnn_cfg \<times> wstate) res" where
  "imgdnn_main os =
     bind_res (imgdnn_opts os \<lparr>modelFile = ''model.xml'', maxReqs = 6000, nThreads = 1\<rparr>) (\<lambda>cfg.
       Inr (cfg, workers_init (nat (nThreads cfg))))"

section \<open>Byte order\<close>

lemma and_255: "(i :: u32) AND 255 = take_bit 8 i"
  by (simp add: take_bit_eq_mask mask_eq_exp_minus_1)

lemma ReverseInt_or:
  "ReverseInt i = push_bit 24 (take_bit 8 i) OR push_bit 16 (take_bit 8 (drop_bit 8 i)) OR
     push_bit 8 (take_bit 8 (drop_bit 16 i)) OR take_bit 8 (drop_bit 24 i)"
proof -
  let ?a = "push_bit 24 (take_bit 8 i)" let ?b = "push_bit 16 (take_bit 8 (drop_bit 8 i))"
  let ?c = "push_bit 8 (take_bit 8 (drop_bit 16 i))" let ?d = "take_bit 8 (drop_bit 24 i)"
  have "?a + ?b = ?a OR ?b" by (rule disjunctive_add) (auto simp: bit_simps)
  moreover have "(?a OR ?b) + ?c = (?a OR ?b) OR ?c" by (rule disjunctive_add) (auto simp: bit_simps)
  moreover have "((?a OR ?b) OR ?c) + ?d = ((?a OR ?b) OR ?c) OR ?d"
    by (rule disjunctive_add) (auto simp: bit_simps)
  ultimately show ?thesis by (simp add: ReverseInt_def and_255 or.assoc)
qed

lemma bit_ReverseInt:
  "bit (ReverseInt i) k \<longleftrightarrow> k < 32 \<and> bit i (24 - 8 * (k div 8) + k mod 8)"
proof -
  consider "k < 8" | "8 \<le> k" "k < 16" | "16 \<le> k" "k < 24" | "24 \<le> k" "k < 32" | "32 \<le> k" by linarith
  then show ?thesis
  proof cases
    case 1
    then have "k div 8 = 0" "k mod 8 = k" by auto
    with 1 show ?thesis by (simp add: ReverseInt_or bit_simps add.commute)
  next
    case 2
    then have "k div 8 = 1" "k mod 8 = k - 8" by presburger+
    moreover have "16 + (k - 8) = 8 + k" using 2 by simp
    ultimately show ?thesis using 2 by (auto simp: ReverseInt_or bit_simps add.commute)
  next
    case 3
    then have "k div 8 = 2" "k mod 8 = k - 16" by presburger+
    moreover have "8 + (k - 16) = k - 8" using 3 by simp
    ultimately show ?thesis using 3 by (auto simp: ReverseInt_or bit_simps add.commute)
  next
    case 4
    then have "k div 8 = 3" "k mod 8 = k - 24" by presburger+
    then show ?thesis using 4 by (auto simp: ReverseInt_or bit_simps)
  next
    case 5
    then show ?thesis using bit_imp_le_length [of "ReverseInt i" k] by auto
  qed
qed

lemma ReverseInt_involution: "ReverseInt (ReverseInt i) = i"
proof (rule bit_word_eqI)
  fix k :: nat
  assume k: "k < LENGTH(32)"
  let ?j = "24 - 8 * (k div 8) + k mod 8"
  have q: "k div 8 \<le> 3" using k by simp
  have e: "?j = 8 * (3 - k div 8) + k mod 8" using q by simp
  then have d: "?j div 8 = 3 - k div 8" "?j mod 8 = k mod 8" by simp_all
  have "?j < 32" "24 - 8 * (3 - k div 8) + k mod 8 = k" unfolding e using q by presburger+
  then have "?j < 32" "24 - 8 * (?j div 8) + ?j mod 8 = k" unfolding d by simp_all
  then show "bit (ReverseInt (ReverseInt i)) k = bit i k"
    using k bit_ReverseInt [of "ReverseInt i" k] bit_ReverseInt [of i ?j] by (simp only: len_num1 len_bit0) simp
qed

definition be_int :: "u32 \<Rightarrow> bytes" where
  "be_int w = le_bytes 4 (ReverseInt w)"

section \<open>Reading MNIST\<close>

lemma read_int_be: "read_int \<lparr>bs_unread = be_int w @ r, bs_good = True\<rparr> = (w, \<lparr>bs_unread = r, bs_good = True\<rparr>)"
  by (simp add: read_int_def read_n_def be_int_def ReverseInt_involution)

text \<open>Reading pixels: what is in the file, then zeros.\<close>

definition after_read :: "nat \<Rightarrow> bytes \<Rightarrow> bool \<Rightarrow> bstream" where
  "after_read n bs g = (if n \<le> length bs then \<lparr>bs_unread = drop n bs, bs_good = g\<rparr> else \<lparr>bs_unread = [], bs_good = False\<rparr>)"

lemma read_pixels_bad: "read_pixels n \<lparr>bs_unread = [], bs_good = False\<rparr> = (replicate n 0, \<lparr>bs_unread = [], bs_good = False\<rparr>)"
  by (induction n) (auto simp: read_uchar_def read_n_def)

lemma read_pixels_good:
  "read_pixels n \<lparr>bs_unread = bs, bs_good = True\<rparr> = (take n (bs @ replicate n 0), after_read n bs True)"
proof (induction n arbitrary: bs)
  case 0
  show ?case by (simp add: after_read_def)
next
  case (Suc n)
  show ?case
  proof (cases bs)
    case Nil
    then show ?thesis by (simp add: read_uchar_def read_n_def read_pixels_bad after_read_def)
  next
    case (Cons b bs')
    then show ?thesis using Suc.IH [of bs'] by (simp add: read_uchar_def read_n_def after_read_def del: replicate.simps(2))
  qed
qed

definition image_at :: "nat \<Rightarrow> nat \<Rightarrow> bytes \<Rightarrow> nat \<Rightarrow> byte Mat" where
  "image_at r c body i = \<lparr>m_rows = r, m_cols = c, m_data = take (r * c) (drop (i * (r * c)) body @ replicate (r * c) 0)\<rparr>"

lemma read_images_bad:
  "fst (read_images n r c \<lparr>bs_unread = [], bs_good = False\<rparr>) = replicate n \<lparr>m_rows = r, m_cols = c, m_data = replicate (r * c) 0\<rparr>"
  by (induction n) (auto simp: read_pixels_bad split: prod.splits)

lemma read_images_good:
  "fst (read_images n r c \<lparr>bs_unread = bs, bs_good = True\<rparr>) = map (image_at r c bs) [0..<n]"
proof (induction n arbitrary: bs)
  case 0
  show ?case by simp
next
  case (Suc n)
  have shift: "map (image_at r c bs) [0..<Suc n] = image_at r c bs 0 # map (image_at r c (drop (r * c) bs)) [0..<n]"
    unfolding map_upt_Suc by (simp add: image_at_def add.commute)
  show ?case
  proof (cases "r * c \<le> length bs")
    case True
    then show ?thesis using Suc.IH [of "drop (r * c) bs"] unfolding shift
      by (simp add: read_pixels_good after_read_def split_beta) (simp add: image_at_def)
  next
    case False
    moreover have "image_at r c [] = (\<lambda>_. \<lparr>m_rows = r, m_cols = c, m_data = replicate (r * c) 0\<rparr>)"
      by (simp add: image_at_def fun_eq_iff)
    ultimately show ?thesis unfolding shift
      by (simp add: read_pixels_good after_read_def split_beta read_images_bad map_replicate_const image_at_def [of r c bs])
  qed
qed

section \<open>Serialisation\<close>

lemma sm_positions_eq: "sm_positions = map (\<lambda>r. (r, 0)) [0..<sm_rows]"
proof -
  have "List.product xs [0..<1] = map (\<lambda>r. (r, 0)) xs" for xs :: "nat list" by (induction xs) auto
  then show ?thesis by (simp add: sm_positions_def sm_cols_def)
qed

lemma serialize_loop_column:
  assumes "m_cols m = 1" "\<forall>r \<in> set rs. r < m_rows m"
  shows "serialize_loop m (map (\<lambda>r. (r, 0)) rs) = Inr (map (\<lambda>r. m_data m ! r) rs)"
  using assms(2) by (induction rs) (auto simp: mat_get_def assms(1))

lemma deserialize_loop_column:
  assumes "k + length xs = n" "length d = n"
  shows "deserialize_loop (map (\<lambda>r. (r, 0)) [k..<n]) xs \<lparr>m_rows = n, m_cols = 1, m_data = d\<rparr> =
    Inr \<lparr>m_rows = n, m_cols = 1, m_data = take k d @ xs\<rparr>"
  using assms
proof (induction xs arbitrary: k d)
  case Nil
  then show ?case by simp
next
  case (Cons x xs)
  then have "[k..<n] = k # [Suc k..<n]" by (simp add: upt_conv_Cons)
  then show ?case using Cons.IH [of "Suc k" "d[k := x]"] Cons.prems
    by (simp add: mat_set_def take_Suc_conv_app_nth)
qed

lemma deserialize_eq:
  "length ds = sm_rows \<Longrightarrow> deserialize ds = Inr \<lparr>m_rows = sm_rows, m_cols = 1, m_data = ds\<rparr>"
  using deserialize_loop_column [of 0 ds sm_rows "replicate (sm_rows * 1) 0"]
  by (simp add: deserialize_def sm_positions_eq zeros_def sm_cols_def)

lemma smat_of_bytes_bytes: "length ds = n \<Longrightarrow> smat_of_bytes n (smat_bytes ds @ rest) = ds"
proof (induction ds arbitrary: n)
  case (Cons d ds)
  then show ?case by (cases n) (simp_all add: smat_bytes_def)
qed (simp add: smat_bytes_def)

lemma length_smat_bytes: "length (smat_bytes ds) = 8 * length ds"
  by (induction ds) (auto simp: smat_bytes_def)

lemma imgdnn_get_eq:
  assumes "m_rows x = sm_rows" "0 \<le> req" "req < totalImgs" "nat req < m_cols x"
  shows "imgdnn_get req x = Inr (smat_bytes (map (\<lambda>r. m_data x ! (r * m_cols x + nat req)) [0..<sm_rows]), x)"
proof -
  let ?m = "\<lparr>m_rows = m_rows x, m_cols = 1, m_data = map (\<lambda>r. m_data x ! (r * m_cols x + nat req)) [0..<m_rows x]\<rparr>"
  have "serialize ?m = Inr (map (\<lambda>r. m_data ?m ! r) [0..<sm_rows])"
    unfolding serialize_def sm_positions_eq using assms(1) by (intro serialize_loop_column) auto
  also have "map (\<lambda>r. m_data ?m ! r) [0..<sm_rows] = map (\<lambda>r. m_data x ! (r * m_cols x + nat req)) [0..<sm_rows]"
    using assms(1) by simp
  finally show ?thesis using assms by (simp add: imgdnn_get_def column_def)
qed

definition testX_valid :: "u64 Mat \<Rightarrow> bool" where
  "testX_valid x \<longleftrightarrow> m_rows x = sm_rows \<and> nat totalImgs \<le> m_cols x"

interpretation imgdnn_src: request_source imgdnn_get testX_valid "\<lambda>req x. 0 \<le> req \<and> req < totalImgs"
proof
  fix x :: "u64 Mat" and req
  assume "testX_valid x" "0 \<le> req \<and> req < totalImgs"
  then have "m_rows x = sm_rows" "0 \<le> req" "req < totalImgs" "nat req < m_cols x"
    by (auto simp: testX_valid_def)
  note g = imgdnn_get_eq [OF this]
  let ?d = "smat_bytes (map (\<lambda>r. m_data x ! (r * m_cols x + nat req)) [0..<sm_rows])"
  have l: "length ?d = 6272" by (simp add: length_smat_bytes sm_rows_def)
  then have "?d \<noteq> []" by (metis length_0_conv zero_neq_numeral)
  moreover have "int (length ?d) \<le> MAX_REQ_BYTES" unfolding l MAX_REQ_BYTES_def by simp
  ultimately show "\<exists>d s'. imgdnn_get req x = Inr (d, s') \<and> testX_valid s' \<and> d \<noteq> [] \<and> int (length d) \<le> MAX_REQ_BYTES"
    using g \<open>testX_valid x\<close> by blast
qed

section \<open>The class of a column\<close>

lemma less_double_trans: "less_double a b \<Longrightarrow> less_double b c \<Longrightarrow> less_double a c"
  by (cases a; cases b; cases c) auto

lemma less_double_le_trans: "c \<noteq> NaN \<Longrightarrow> a \<noteq> NaN \<Longrightarrow> less_double a b \<Longrightarrow> \<not> less_double c b \<Longrightarrow> less_double a c"
  by (cases a; cases b; cases c) auto

lemma less_double_irrefl: "\<not> less_double a a"
  by (cases a) auto

lemma not_less_double_trans:
  "a \<noteq> NaN \<Longrightarrow> b \<noteq> NaN \<Longrightarrow> c \<noteq> NaN \<Longrightarrow> \<not> less_double a b \<Longrightarrow> \<not> less_double b c \<Longrightarrow> \<not> less_double a c"
  by (cases a; cases b; cases c) auto

definition first_max :: "double list \<Rightarrow> nat \<Rightarrow> bool" where
  "first_max xs k \<longleftrightarrow> k < length xs \<and> (\<forall>j < length xs. \<not> less_double (xs ! k) (xs ! j)) \<and>
     (\<forall>j < k. less_double (xs ! j) (xs ! k))"

lemma first_max_snoc:
  assumes "first_max ys k" "NaN \<notin> set ys" "x \<noteq> NaN"
  shows "first_max (ys @ [x]) (if less_double (ys ! k) x then length ys else k)"
proof -
  have n: "ys ! j \<noteq> NaN" if "j < length ys" for j using that assms(2) nth_mem by metis
  have "k < length ys" using assms(1) by (simp add: first_max_def)
  then have k: "k < length ys" "ys ! k \<noteq> NaN" using n by blast+
  show ?thesis
  proof (cases "less_double (ys ! k) x")
    case True
    have l: "less_double (ys ! j) x" if "j < length ys" for j
    proof (rule ccontr)
      assume "\<not> less_double (ys ! j) x"
      then have "less_double (ys ! k) (ys ! j)" using less_double_le_trans True n that k(2) by blast
      then show False using assms(1) that by (simp add: first_max_def)
    qed
    then have "\<not> less_double x (ys ! j)" if "j < length ys" for j
      using that less_double_trans less_double_irrefl by blast
    with l True show ?thesis by (auto simp: first_max_def nth_append less_Suc_eq less_double_irrefl)
  next
    case False
    then show ?thesis using assms(1) k by (auto simp: first_max_def nth_append less_Suc_eq)
  qed
qed

lemma argmax_loop_first_max:
  assumes "NaN \<notin> set (ys @ xs)" "first_max ys k"
  shows "first_max (ys @ xs) (argmax_loop xs (length ys) (ys ! k) k)"
  using assms
proof (induction xs arbitrary: ys k)
  case (Cons x xs)
  have f: "first_max (ys @ [x]) (if less_double (ys ! k) x then length ys else k)"
    by (rule first_max_snoc) (use Cons.prems in auto)
  have "k < length ys" using Cons.prems(2) by (simp add: first_max_def)
  then show ?case using Cons.IH [of "ys @ [x]", OF _ f] Cons.prems(1) by (auto simp: nth_append split: if_splits)
qed simp

lemma column_class_first_max:
  assumes "NaN \<notin> set xs" "column_class xs = Inr k"
  shows "first_max xs k"
proof (cases xs)
  case (Cons y ys)
  have "first_max [y] 0" by (simp add: first_max_def less_double_irrefl)
  then show ?thesis using argmax_loop_first_max [of "[y]" ys 0] assms Cons by simp
qed (use assms in simp)

lemma classes_nth: "classes m is = Inr ks \<Longrightarrow> length ks = length is \<and> (\<forall>i < length is. column_class (mat_column m (is ! i)) = Inr (ks ! i))"
proof (induction "is" arbitrary: ks)
  case (Cons a "is")
  then show ?case by (auto simp: nth_Cons split: nat.splits)
qed simp

section \<open>The workers\<close>

fun wpc_weight :: "wpc \<Rightarrow> nat" where
  "wpc_weight AtLoop = 1"
| "wpc_weight Serving = 2"
| "wpc_weight Ended = 0"

definition workers_measure :: "int \<Rightarrow> wstate \<Rightarrow> nat" where
  "workers_measure M s = 3 * (nat M - sum_list (w_reqs s)) + sum_list (map wpc_weight (wpcs s))"

definition workers_inv :: "int \<Rightarrow> nat \<Rightarrow> wstate \<Rightarrow> bool" where
  "workers_inv M n s \<longleftrightarrow> length (wpcs s) = n \<and> length (w_reqs s) = n \<and>
     nReqsTotal s = int (sum_list (w_reqs s)) + int (count_list (wpcs s) Ended) \<and>
     sum_list (w_reqs s) \<le> nat M \<and> (Ended \<in> set (wpcs s) \<longrightarrow> nat M \<le> sum_list (w_reqs s))"

lemma sum_list_increment: "t < length xs \<Longrightarrow> sum_list (xs[t := xs ! t + 1]) = sum_list xs + (1 :: nat)"
  using sum_list_map_update [of t xs "\<lambda>x. x" "xs ! t + 1"] by simp

lemma workers_step_inv:
  assumes "worker_step M s s'" "workers_inv M n s"
  shows "workers_inv M n s' \<and> workers_measure M s' < workers_measure M s"
  using assms(1)
proof (cases rule: worker_step.cases)
  case (take_req t)
  have "t < length (w_reqs s)" using take_req(2) assms(2) by (simp add: workers_inv_def)
  note this [THEN sum_list_increment]
  moreover have "count_list ((wpcs s)[t := Serving]) Ended = count_list (wpcs s) Ended"
    using count_list_update [OF take_req(2), of Serving Ended] take_req(3) by simp
  ultimately show ?thesis
    using take_req assms(2) sum_list_map_update [OF take_req(2), of wpc_weight Serving]
      set_update_subset_insert [of "wpcs s" t Serving]
    by (auto simp: workers_inv_def workers_measure_def)
next
  case (stop t)
  have e: "count_list ((wpcs s)[t := Ended]) Ended = count_list (wpcs s) Ended + 1"
    using count_list_update [OF stop(2), of Ended Ended] stop(3) by simp
  have "nat M \<le> sum_list (w_reqs s)"
  proof (cases "Ended \<in> set (wpcs s)")
    case False
    then have "count_list (wpcs s) Ended = 0" by simp
    then show ?thesis using stop(4) assms(2) by (simp add: workers_inv_def)
  qed (use assms(2) in \<open>simp add: workers_inv_def\<close>)
  then show ?thesis
    using stop assms(2) e sum_list_map_update [OF stop(2), of wpc_weight Ended]
    by (auto simp: workers_inv_def workers_measure_def)
next
  case (respond t)
  have "count_list ((wpcs s)[t := AtLoop]) Ended = count_list (wpcs s) Ended"
    using count_list_update [OF respond(2), of AtLoop Ended] respond(3) by simp
  then show ?thesis
    using respond assms(2) sum_list_map_update [OF respond(2), of wpc_weight AtLoop]
      set_update_subset_insert [of "wpcs s" t AtLoop]
    by (auto simp: workers_inv_def workers_measure_def)
qed

lemma workers_init_inv: "workers_inv M n (workers_init n)"
proof -
  have "count_list (replicate n AtLoop) Ended = 0" "Ended \<notin> set (replicate n AtLoop)" by (induction n) auto
  then show ?thesis by (simp add: workers_inv_def workers_init_def sum_list_replicate)
qed

lemma workers_steps:
  "(worker_step M ^^ k) (workers_init n) s \<Longrightarrow> workers_inv M n s \<and> k + workers_measure M s \<le> 3 * nat M + n"
proof (induction k arbitrary: s)
  case 0
  have "sum_list (map wpc_weight (replicate n AtLoop)) = n" "sum_list (replicate n (0 :: nat)) = 0"
    by (induction n) auto
  then show ?case using 0 workers_init_inv by (auto simp: workers_measure_def workers_init_def)
next
  case (Suc k)
  then obtain t where t: "(worker_step M ^^ k) (workers_init n) t" "worker_step M t s" by auto
  from workers_step_inv [OF t(2)] Suc.IH [OF t(1)] show ?case by fastforce
qed

lemma workers_progress:
  assumes "\<forall>s'. \<not> worker_step M s s'" "t < length (wpcs s)"
  shows "wpcs s ! t = Ended"
proof (cases "wpcs s ! t")
  case AtLoop
  then show ?thesis using assms take_req [of t s M] stop [of t s M] by blast
next
  case Serving
  then show ?thesis using assms respond [of t s M] by blast
qed

section \<open>Properties\<close>

text \<open>
  The request the client sends for image \<open>req\<close> is 6272 bytes long, and the matrix the server
  reads back from the request buffer is column \<open>req\<close> of the test set, bit for bit.
\<close>

theorem imgdnn_request_roundtrip:
  assumes "testX_valid x" "0 \<le> req" "req < totalImgs"
  shows "\<exists>buf. imgdnn_get req x = Inr (buf, x) \<and> length buf = 6272 \<and>
    (\<forall>rest. deserialize (smat_of_bytes (sm_rows * sm_cols) (buf @ rest)) = column (nat req) x)"
proof -
  let ?c = "map (\<lambda>r. m_data x ! (r * m_cols x + nat req)) [0..<sm_rows]"
  have v: "m_rows x = sm_rows" "nat req < m_cols x" using assms by (auto simp: testX_valid_def)
  have l: "length ?c = sm_rows * sm_cols" "length ?c = sm_rows" by (simp_all add: sm_cols_def)
  have "deserialize (smat_of_bytes (sm_rows * sm_cols) (smat_bytes ?c @ rest)) = column (nat req) x" for rest
    unfolding smat_of_bytes_bytes [OF l(1)] deserialize_eq [OF l(2)] column_def using v by simp
  moreover have "length (smat_bytes ?c) = 6272" by (simp add: length_smat_bytes sm_rows_def)
  ultimately show ?thesis using imgdnn_get_eq [OF v(1) assms(2,3) v(2)] by blast
qed

theorem imgdnn_request_roundtrip_witness:
  "testX_valid (zeros 0 sm_rows 10000) \<and>
   (\<exists>buf. imgdnn_get 7 (zeros 0 sm_rows 10000) = Inr (buf, zeros 0 sm_rows 10000) \<and> length buf = 6272)"
proof -
  have "testX_valid (zeros 0 sm_rows 10000)" by (simp add: testX_valid_def zeros_def totalImgs_def)
  then show ?thesis using imgdnn_request_roundtrip [of "zeros 0 sm_rows 10000" 7] by (auto simp: totalImgs_def)
qed

text \<open>
  \<open>read_Mnist\<close> reads the big-endian header and then every image in order, row by row; a file
  that ends early is not noticed, its missing pixels are zero.
\<close>

theorem mnist_read:
  assumes "0 \<le> sint n" "0 \<le> sint r" "0 \<le> sint c"
  shows "read_Mnist (Some (be_int magic @ be_int n @ be_int r @ be_int c @ body)) =
    Inr (map (\<lambda>i. \<lparr>m_rows = nat (sint r), m_cols = nat (sint c),
       m_data = take (nat (sint r) * nat (sint c))
         (drop (i * (nat (sint r) * nat (sint c))) body @ replicate (nat (sint r) * nat (sint c)) 0)\<rparr>) [0..<nat (sint n)])"
proof -
  let ?f = "image_at (nat (sint r)) (nat (sint c)) body"
  have "read_Mnist (Some (be_int magic @ be_int n @ be_int r @ be_int c @ body)) = Inr (map ?f [0..<nat (sint n)])"
    using assms by (simp add: read_Mnist_def read_int_be read_images_good loop_count_def)
  then show ?thesis by (simp add: image_at_def)
qed

theorem mnist_read_witness:
  "read_Mnist (Some (be_int 2051 @ be_int 2 @ be_int 1 @ be_int 2 @ [5, 6, 7])) =
     Inr [\<lparr>m_rows = 1, m_cols = 2, m_data = [5, 6]\<rparr>, \<lparr>m_rows = 1, m_cols = 2, m_data = [7, 0]\<rparr>]"
proof -
  have i: "sint (1 :: u32) = 1" "sint (2 :: u32) = 2" by simp_all
  have u: "[0..<nat 2] = [0, 1]" by code_simp
  show ?thesis using mnist_read [of 2 1 2 2051 "[5, 6, 7]"] unfolding i u by (simp add: numeral_2_eq_2)
qed

text \<open>
  The class \<open>resultProdict\<close> gives for a column is the first index at which the column of
  log-probabilities is largest, when the column has no NaN; with fewer hidden layers than the two the
  network has, the code reads outside the vector.
\<close>

theorem imgdnn_predict:
  "(length hLayers < 2 \<longrightarrow> (\<exists>e. resultProdict cv x hLayers smr = Inl e)) \<and>
   (resultProdict cv x hLayers smr = Inr ks \<longrightarrow>
     (\<exists>a. activations cv hLayers (m_cols x) 0 2 x = Inr a \<and>
       (let tmp = log_softmax cv (cv_mul cv (Weight smr) a)
        in length ks = m_cols tmp \<and>
           (\<forall>i < m_cols tmp. NaN \<notin> set (mat_column tmp i) \<longrightarrow> first_max (mat_column tmp i) (ks ! i)))))"
proof -
  have two: "SparseAutoencoderLayers = Suc (Suc 0)" by (simp add: SparseAutoencoderLayers_def)
  have "\<exists>e. resultProdict cv x hLayers smr = Inl e" if "length hLayers < 2"
    using that unfolding resultProdict_def two by (cases hLayers) (auto simp: Let_def)
  moreover have "\<exists>a. activations cv hLayers (m_cols x) 0 2 x = Inr a \<and>
       (let tmp = log_softmax cv (cv_mul cv (Weight smr) a)
        in length ks = m_cols tmp \<and>
           (\<forall>i < m_cols tmp. NaN \<notin> set (mat_column tmp i) \<longrightarrow> first_max (mat_column tmp i) (ks ! i)))"
    if r: "resultProdict cv x hLayers smr = Inr ks"
  proof -
    obtain a where a: "activations cv hLayers (m_cols x) 0 2 x = Inr a"
      and c: "classes (log_softmax cv (cv_mul cv (Weight smr) a)) [0..<m_cols (log_softmax cv (cv_mul cv (Weight smr) a))] = Inr ks"
      using r by (auto simp: resultProdict_def SparseAutoencoderLayers_def Let_def)
    show ?thesis using a classes_nth [OF c] column_class_first_max by (auto simp: Let_def)
  qed
  ultimately show ?thesis by blast
qed

text \<open>Matrix operations under which the network passes its input on.\<close>

definition ex_cv :: "'m cv_ops" where
  "ex_cv = \<lparr>cv_neg = (\<lambda>m. m), cv_exp = (\<lambda>m. m), cv_add1 = (\<lambda>m. m), cv_recip = (\<lambda>m. m), cv_mul = (\<lambda>_ m. m),
     cv_add = (\<lambda>m _. m), cv_repeat = (\<lambda>m _ _. m), cv_reduce_max = (\<lambda>m. m), cv_reduce_sum = (\<lambda>m. m),
     cv_divide = (\<lambda>m _. m), cv_log = (\<lambda>m. m)\<rparr>"

definition ex_column :: "double Mat" where
  "ex_column = \<lparr>m_rows = 2, m_cols = 1, m_data = [Fin 1, Fin 3]\<rparr>"

definition ex_layer :: "(double Mat) SA" where
  "ex_layer = \<lparr>W1 = ex_column, W2 = ex_column, b1 = ex_column, b2 = ex_column, W1grad = ex_column,
     W2grad = ex_column, b1grad = ex_column, b2grad = ex_column, sa_cost = Fin 0\<rparr>"

definition ex_smr :: "(double Mat) SMR" where
  "ex_smr = \<lparr>Weight = ex_column, Wgrad = ex_column, smr_cost = Fin 0\<rparr>"

theorem imgdnn_predict_witness:
  "resultProdict ex_cv ex_column [ex_layer, ex_layer] ex_smr = Inr [1] \<and> first_max [Fin 1, Fin 3] 1 \<and>
   (\<exists>e. resultProdict ex_cv ex_column [ex_layer] ex_smr = Inl e)"
proof -
  have c: "mat_column ex_column 0 = [Fin 1, Fin 3]" by (simp add: mat_column_def ex_column_def numeral_2_eq_2)
  have a: "activations ex_cv [ex_layer, ex_layer] 1 0 2 ex_column = Inr ex_column"
    by (simp add: numeral_2_eq_2 sigmoid_def ex_cv_def)
  have s: "log_softmax ex_cv (cv_mul ex_cv (Weight ex_smr) ex_column) = ex_column"
    by (simp add: log_softmax_def ex_cv_def)
  have m: "m_cols ex_column = 1" by (simp add: ex_column_def)
  have r: "resultProdict ex_cv ex_column [ex_layer, ex_layer] ex_smr = Inr [1]"
    unfolding resultProdict_def SparseAutoencoderLayers_def m a bind_res.simps Let_def s by (simp add: c)
  have "length [ex_layer] < 2" by simp
  moreover have "first_max [Fin 1, Fin 3] 1"
    using imgdnn_predict [of "[ex_layer, ex_layer]" ex_cv ex_column ex_smr "[1]"] r a s c m by (auto simp: Let_def)
  ultimately show ?thesis using r imgdnn_predict [of "[ex_layer]" ex_cv ex_column ex_smr "[]"] by blast
qed

text \<open>
  C38. The workers' loop ends after boundedly many steps, whatever the interleaving, and then exactly
  \<open>maxReqs\<close> requests were served over all threads (none when it is negative).
\<close>

theorem imgdnn_workers_serve_exactly:
  assumes "(worker_step M ^^ k) (workers_init n) s" "0 < n"
  shows "k \<le> 3 * nat M + n \<and> sum_list (w_reqs s) \<le> nat M \<and>
    ((\<forall>s'. \<not> worker_step M s s') \<longrightarrow> sum_list (w_reqs s) = nat M \<and> nReqsTotal s = int (nat M) + int n)"
proof -
  have i: "workers_inv M n s" "k \<le> 3 * nat M + n" using workers_steps [OF assms(1)] by simp_all
  moreover have "sum_list (w_reqs s) = nat M \<and> nReqsTotal s = int (nat M) + int n" if "\<forall>s'. \<not> worker_step M s s'"
  proof -
    have all: "wpcs s = replicate n Ended"
      using workers_progress [OF that] i(1) by (intro nth_equalityI) (auto simp: workers_inv_def)
    moreover have "count_list (replicate n Ended) Ended = n" by (induction n) auto
    ultimately have "sum_list (w_reqs s) = nat M" "nReqsTotal s = int (sum_list (w_reqs s)) + int n"
      using i(1) assms(2) by (auto simp: workers_inv_def)
    then show ?thesis by simp
  qed
  ultimately show ?thesis by (auto simp: workers_inv_def)
qed

theorem imgdnn_workers_serve_exactly_witness:
  "(worker_step 0 ^^ 1) (workers_init 1) \<lparr>nReqsTotal = 1, wpcs = [Ended], w_reqs = [0]\<rparr> \<and>
   (\<forall>s'. \<not> worker_step 0 \<lparr>nReqsTotal = 1, wpcs = [Ended], w_reqs = [0]\<rparr> s') \<and>
   sum_list (w_reqs \<lparr>nReqsTotal = 1, wpcs = [Ended], w_reqs = [0]\<rparr>) = 0"
proof -
  let ?s = "\<lparr>nReqsTotal = 1, wpcs = [Ended], w_reqs = [0]\<rparr>"
  have 1: "(worker_step 0 ^^ 1) (workers_init 1) ?s"
    using stop [of 0 "workers_init 1" 0] by (auto simp: workers_init_def relcompp_apply)
  moreover have "\<forall>s'. \<not> worker_step 0 ?s s'" by (auto elim!: worker_step.cases)
  ultimately show ?thesis using imgdnn_workers_serve_exactly [OF 1] by simp
qed

end
