(* ===== verification/App_Masstree.thy ===== *)
theory App_Masstree
  imports App_Source
begin

unbundle bit_operations_syntax

text \<open>
  The key-value benchmark, \<^verbatim>\<open>src/masstree\<close>: the random generators of \<open>kvrandom.hh\<close>, the
  request format and key generator of \<open>mttest.hh\<close>, the request table of \<open>kvclient.cc\<close> and the request
  loop \<open>kvtest_mycsba\<close> of \<open>kvtest.hh\<close>. The store the server drives is a parameter (\<open>kv_ops\<close>).
\<close>

section \<open>kvrandom.hh\<close>

type_synonym lcg = u32

definition lcg_simple_new :: lcg where
  "lcg_simple_new = 819234718"

definition lcg_reset :: "u32 \<Rightarrow> lcg" where
  "lcg_reset sd = sd"

definition lcg_simple_next :: "lcg \<Rightarrow> u32 \<times> lcg" where
  "lcg_simple_next sd = (let sd' = sd * 1664525 + 1013904223 in (sd', sd'))"

text \<open>The result is converted to \<open>int32_t\<close>.\<close>

definition lcg_next :: "lcg \<Rightarrow> int \<times> lcg" where
  "lcg_next s =
     (let (x0, s0) = lcg_simple_next s; (x1, s1) = lcg_simple_next s0
      in (sint (drop_bit 15 x0 OR push_bit 16 (x1 AND 0x7FFE)), s1))"

section \<open>mttest.hh\<close>

definition mycsbaAggrFactor :: nat where
  "mycsbaAggrFactor = 256"

definition mycsbaSeed :: u32 where
  "mycsbaSeed = 3242323423"

definition mycsbaDbSize :: nat where
  "mycsbaDbSize = 1000000"

definition mycsbaKeySize :: nat where
  "mycsbaKeySize = 4 + 18 + 1"

definition mycsbaValSize :: nat where
  "mycsbaValSize = 12"

datatype kv_type = GET | PUT | OtherType u32

fun kv_type_code :: "kv_type \<Rightarrow> u32" where
  "kv_type_code GET = 0"
| "kv_type_code PUT = 1"
| "kv_type_code (OtherType w) = w"

definition kv_type_of :: "u32 \<Rightarrow> kv_type" where
  "kv_type_of w = (if w = 0 then GET else if w = 1 then PUT else OtherType w)"

record kv_request =
  kv_type :: kv_type
  kv_key :: bytes
  kv_val :: bytes

text \<open>The struct in memory: 4 + 23 + 12 bytes and one of padding, whose value is \<open>pad\<close>.\<close>

definition sizeof_kv_request :: nat where
  "sizeof_kv_request = 40"

definition kv_bytes :: "byte \<Rightarrow> kv_request \<Rightarrow> bytes" where
  "kv_bytes pad r = le_bytes 4 (kv_type_code (kv_type r)) @ kv_key r @ kv_val r @ [pad]"

text \<open>
  \<open>genKeyVal\<close>: eighteen random digits after \<open>user\<close>, and a random number in decimal. \<open>'0' + x % 10\<close>
  is stored in a \<open>char\<close>; \<open>sprintf\<close> writes the digits and a NUL over the start of \<open>val\<close>.
\<close>

fun gen_digits :: "nat \<Rightarrow> lcg \<Rightarrow> bytes \<times> lcg" where
  "gen_digits 0 s = ([], s)"
| "gen_digits (Suc n) s =
     (let (x, s1) = lcg_next s; (ds, s2) = gen_digits n s1
      in (word_of_int (48 + (if x < 0 then - ((- x) mod 10) else x mod 10)) # ds, s2))"

definition put_string :: "bytes \<Rightarrow> bytes \<Rightarrow> bytes res" where
  "put_string bs buf = (if length bs < length buf then Inr (bs @ [0] @ drop (length bs + 1) buf)
     else Inl (Undefined ''char array overrun''))"

definition genKeyVal :: "lcg \<Rightarrow> bytes \<Rightarrow> bytes \<Rightarrow> (bytes \<times> bytes \<times> lcg) res" where
  "genKeyVal s key val =
     (let (ds, s1) = gen_digits 18 s; (value, s2) = lcg_next s1
      in bind_res (put_string (map char_byte ''user'' @ ds) key) (\<lambda>key'.
           bind_res (put_string (map char_byte (dec_int value)) val) (\<lambda>val'.
             Inr (key', val', s2))))"

section \<open>kvclient.cc\<close>

text \<open>
  The loop of the constructor: one \<open>Request\<close> object is refilled and copied, so bytes behind a value's
  NUL keep what an earlier, longer value left there.
\<close>

fun kv_table :: "nat \<Rightarrow> nat \<Rightarrow> lcg \<Rightarrow> bytes \<Rightarrow> bytes \<Rightarrow> kv_request list res" where
  "kv_table n 0 s key val = Inr []"
| "kv_table n (Suc k) s key val =
     bind_res (genKeyVal s key val) (\<lambda>(key', val', s').
       bind_res (kv_table (Suc n) k s' key' val') (\<lambda>rest.
         Inr (\<lparr>kv_type = (if n mod 2 = 0 then GET else PUT), kv_key = key', kv_val = val'\<rparr> # rest)))"

record kv_client =
  kv_reqs :: "kv_request list"
  kv_cur :: nat

text \<open>\<open>key0\<close> and \<open>val0\<close> are the indeterminate bytes of the fresh object.\<close>

definition kv_client_new :: "bytes \<Rightarrow> bytes \<Rightarrow> kv_client res" where
  "kv_client_new key0 val0 =
     bind_res (kv_table 0 mycsbaDbSize (lcg_reset mycsbaSeed) key0 val0) (\<lambda>rs. Inr \<lparr>kv_reqs = rs, kv_cur = 0\<rparr>)"

definition kv_getReq :: "kv_client \<Rightarrow> (kv_request \<times> kv_client) res" where
  "kv_getReq c =
     (if kv_cur c < length (kv_reqs c)
      then (let nxt = kv_cur c + 1
            in Inr (kv_reqs c ! kv_cur c, c\<lparr>kv_cur := (if nxt = length (kv_reqs c) then 0 else nxt)\<rparr>))
      else Inl (Undefined ''*cur''))"

fun kv_fill :: "byte \<Rightarrow> nat \<Rightarrow> kv_client \<Rightarrow> (bytes \<times> kv_client) res" where
  "kv_fill pad 0 c = Inr ([], c)"
| "kv_fill pad (Suc k) c =
     bind_res (kv_getReq c) (\<lambda>(r, c').
       bind_res (kv_fill pad k c') (\<lambda>(bs, c''). Inr (kv_bytes pad r @ bs, c'')))"

definition kv_genReq :: "byte \<Rightarrow> kv_client \<Rightarrow> (bytes \<times> kv_client) res" where
  "kv_genReq pad c = kv_fill pad mycsbaAggrFactor c"

section \<open>kvtest.hh: the server's request loop\<close>

record 's kv_ops =
  kv_get :: "bytes \<Rightarrow> 's \<Rightarrow> 's"
  kv_put :: "bytes \<Rightarrow> bytes \<Rightarrow> 's \<Rightarrow> 's"

text \<open>The population of the store with the same keys and values the client asks for.\<close>

fun kv_populate :: "'s kv_ops \<Rightarrow> nat \<Rightarrow> lcg \<Rightarrow> bytes \<Rightarrow> bytes \<Rightarrow> 's \<Rightarrow> 's res" where
  "kv_populate ops 0 s key val st = Inr st"
| "kv_populate ops (Suc k) s key val st =
     bind_res (genKeyVal s key val) (\<lambda>(key', val', s').
       kv_populate ops k s' key' val' (kv_put ops (str_of key') (str_of val') st))"

text \<open>The operations of one request, read from the buffer at offset \<open>40 * op\<close>.\<close>

fun kv_serve_ops :: "'s kv_ops \<Rightarrow> nat \<Rightarrow> bytes \<Rightarrow> 's \<Rightarrow> 's res" where
  "kv_serve_ops ops 0 buf st = Inr st"
| "kv_serve_ops ops (Suc k) buf st =
     (let key = str_of (drop 4 buf); val = str_of (drop (4 + mycsbaKeySize) buf); rest = drop sizeof_kv_request buf
      in case kv_type_of (le_word (take 4 buf)) of
           GET \<Rightarrow> kv_serve_ops ops k rest (kv_get ops key st)
         | PUT \<Rightarrow> kv_serve_ops ops k rest (kv_put ops key val st)
         | OtherType w \<Rightarrow> Inl (Exit (- 1)))"

text \<open>One pass of the loop; the response is the status \<open>SUCCESS\<close>.\<close>

definition kv_serve :: "'s kv_ops \<Rightarrow> nat \<Rightarrow> bytes \<Rightarrow> 's \<Rightarrow> (bytes \<times> 's) res" where
  "kv_serve ops len buf st =
     (if len \<noteq> sizeof_kv_request * mycsbaAggrFactor then Inl (Abort ''len == sizeof(Request) * mycsbaAggrFactor'')
      else bind_res (kv_serve_ops ops mycsbaAggrFactor buf st) (\<lambda>st'. Inr (le_bytes 4 (0 :: u32), st')))"

section \<open>The random numbers are not negative\<close>

lemma sint_nonneg_u32:
  assumes "\<not> bit (w :: u32) 31"
  shows "sint w = uint w \<and> uint w < 2 ^ 31"
proof -
  have "take_bit 31 w = w"
  proof (rule bit_word_eqI)
    fix n :: nat
    assume "n < LENGTH(32)"
    then have "n < 31 \<or> n = 31" by auto
    then show "bit (take_bit 31 w) n = bit w n" using assms by (auto simp: bit_take_bit_iff)
  qed
  then have "uint w = uint (take_bit 31 w)" by simp
  also have "\<dots> = take_bit 31 (uint w)" by (rule unsigned_take_bit_eq)
  finally have lt: "uint w < 2 ^ 31" using take_bit_int_less_exp [of 31 "uint w"] by simp
  moreover have "signed_take_bit 31 (uint w) = uint w"
    by (rule signed_take_bit_int_eq_self) (use lt in \<open>simp_all add: order.trans [OF _ uint_ge_0]\<close>)
  ultimately show ?thesis by (simp add: sint_uint)
qed

lemma lcg_next_range: "0 \<le> fst (lcg_next s) \<and> fst (lcg_next s) < 2 ^ 31"
proof -
  obtain x0 x1 where v: "fst (lcg_next s) = sint (drop_bit 15 x0 OR push_bit 16 (x1 AND 0x7FFE) :: u32)"
    by (auto simp: lcg_next_def Let_def lcg_simple_next_def)
  have m: "\<not> bit (0x7FFE :: u32) 15" by simp
  have "\<not> bit (drop_bit 15 x0 OR push_bit 16 (x1 AND 0x7FFE) :: u32) 31"
    using m bit_imp_le_length [of x0 46]
    by (simp only: bit_or_iff bit_drop_bit_eq bit_push_bit_iff bit_and_iff) auto
  then show ?thesis using v sint_nonneg_u32 by simp
qed

section \<open>Keys and values fit their arrays\<close>

definition digit_byte :: "byte \<Rightarrow> bool" where
  "digit_byte b \<longleftrightarrow> 48 \<le> unat b \<and> unat b \<le> 57"

lemma digit_byte_mod: "digit_byte (word_of_int (48 + x mod 10))"
proof -
  have "0 \<le> x mod 10" "x mod 10 < 10" by simp_all
  then have "uint (word_of_int (48 + x mod 10) :: byte) = 48 + x mod 10"
    by (simp only: uint_word_of_int) simp
  then have "unat (word_of_int (48 + x mod 10) :: byte) = nat (48 + x mod 10)"
    by (metis nat_uint_eq)
  moreover have "48 \<le> nat (48 + x mod 10)" "nat (48 + x mod 10) \<le> 57"
    using \<open>0 \<le> x mod 10\<close> \<open>x mod 10 < 10\<close> by linarith+
  ultimately show ?thesis unfolding digit_byte_def by simp
qed

lemma gen_digits_ok: "length (fst (gen_digits n s)) = n \<and> (\<forall>b \<in> set (fst (gen_digits n s)). digit_byte b)"
proof (induction n arbitrary: s)
  case (Suc n)
  obtain x s1 where x: "lcg_next s = (x, s1)" by (cases "lcg_next s")
  then have "0 \<le> x" using lcg_next_range [of s] by simp
  then show ?case using Suc.IH [of s1] digit_byte_mod [of x] by (auto simp: x split_beta)
qed simp

lemma digit_byte_of_digit: "is_digit c \<Longrightarrow> digit_byte (char_byte c)"
  by (simp add: digit_byte_def is_digit_def unat_char_byte)

lemma dec_digits_length: "n < 10 ^ k \<Longrightarrow> 0 < k \<Longrightarrow> length (dec_digits n) \<le> k"
proof (induction k arbitrary: n)
  case (Suc k)
  show ?case
  proof (cases "n < 10")
    case True
    then show ?thesis by (subst dec_digits.simps) simp
  next
    case False
    then have k: "0 < k" using Suc.prems(1) by (cases k) auto
    have "n div 10 < 10 ^ k" using Suc.prems(1) by (simp add: less_mult_imp_div_less mult.commute)
    then show ?thesis using Suc.IH [of "n div 10"] k False by (subst dec_digits.simps) simp
  qed
qed simp

definition kv_wf :: "bytes \<Rightarrow> bytes \<Rightarrow> bool" where
  "kv_wf key val \<longleftrightarrow> length key = mycsbaKeySize \<and> length val = mycsbaValSize \<and>
     (\<exists>ds. length ds = 18 \<and> (\<forall>b \<in> set ds. digit_byte b) \<and> key = map char_byte ''user'' @ ds @ [0]) \<and>
     (\<exists>v. 0 \<le> v \<and> v < 2 ^ 31 \<and> length (dec_int v) \<le> 10 \<and> take (length (dec_int v) + 1) val = c_str (dec_int v))"

lemma genKeyVal_ok:
  assumes "length key = mycsbaKeySize" "length val = mycsbaValSize"
  shows "\<exists>key' val' s'. genKeyVal s key val = Inr (key', val', s') \<and> kv_wf key' val'"
proof -
  obtain ds s1 where d: "gen_digits 18 s = (ds, s1)" by (cases "gen_digits 18 s")
  obtain v s2 where v: "lcg_next s1 = (v, s2)" by (cases "lcg_next s1")
  have r: "0 \<le> v" "v < 2 ^ 31" using lcg_next_range [of s1] v by auto
  have ds: "length ds = 18" "\<forall>b \<in> set ds. digit_byte b" using gen_digits_ok [of 18 s] d by auto
  have "nat v < 10 ^ 10" using r by simp
  then have l: "length (dec_int v) \<le> 10" using dec_digits_length [of "nat v" 10] r by (simp add: dec_int_def)
  let ?key' = "map char_byte ''user'' @ ds @ [0]"
  let ?val' = "map char_byte (dec_int v) @ [0] @ drop (length (dec_int v) + 1) val"
  have "genKeyVal s key val = Inr (?key', ?val', s2)"
    using assms ds(1) l by (simp add: genKeyVal_def d v put_string_def mycsbaKeySize_def mycsbaValSize_def)
  moreover have "kv_wf ?key' ?val'"
    unfolding kv_wf_def using assms ds r l
    by (auto simp: mycsbaKeySize_def mycsbaValSize_def c_str_def intro!: exI [of _ ds] exI [of _ v])
  ultimately show ?thesis by blast
qed

lemma kv_table_ok:
  assumes "length key = mycsbaKeySize" "length val = mycsbaValSize"
  shows "\<exists>rs. kv_table n k s key val = Inr rs \<and> length rs = k \<and>
    (\<forall>i < k. kv_wf (kv_key (rs ! i)) (kv_val (rs ! i)) \<and> kv_type (rs ! i) = (if (n + i) mod 2 = 0 then GET else PUT))"
  using assms
proof (induction k arbitrary: n s key val)
  case 0
  show ?case by simp
next
  case (Suc k)
  obtain key' val' s' where g: "genKeyVal s key val = Inr (key', val', s')" "kv_wf key' val'"
    using genKeyVal_ok [OF Suc.prems] by blast
  then obtain rs where "kv_table (Suc n) k s' key' val' = Inr rs" "length rs = k"
    "\<forall>i < k. kv_wf (kv_key (rs ! i)) (kv_val (rs ! i)) \<and> kv_type (rs ! i) = (if (Suc n + i) mod 2 = 0 then GET else PUT)"
    using Suc.IH [of key' val' "Suc n" s'] by (auto simp: kv_wf_def)
  then show ?case using g by (auto simp: nth_Cons split: nat.splits)
qed

section \<open>The table as a request source\<close>

definition kv_client_valid :: "kv_client \<Rightarrow> bool" where
  "kv_client_valid c \<longleftrightarrow> kv_cur c < length (kv_reqs c) \<and>
     (\<forall>r \<in> set (kv_reqs c). kv_wf (kv_key r) (kv_val r) \<and> (kv_type r = GET \<or> kv_type r = PUT))"

lemma kv_client_new_valid:
  assumes "length key0 = mycsbaKeySize" "length val0 = mycsbaValSize"
  shows "\<exists>c. kv_client_new key0 val0 = Inr c \<and> kv_client_valid c \<and> kv_cur c = 0 \<and> length (kv_reqs c) = mycsbaDbSize"
proof -
  obtain rs where r: "kv_table 0 mycsbaDbSize (lcg_reset mycsbaSeed) key0 val0 = Inr rs" "length rs = mycsbaDbSize"
    "\<forall>i < mycsbaDbSize. kv_wf (kv_key (rs ! i)) (kv_val (rs ! i)) \<and> kv_type (rs ! i) = (if (0 + i) mod 2 = 0 then GET else PUT)"
    using kv_table_ok [OF assms, of 0 mycsbaDbSize "lcg_reset mycsbaSeed"] by blast
  have "0 < mycsbaDbSize" by (simp add: mycsbaDbSize_def)
  moreover have "kv_wf (kv_key (rs ! i)) (kv_val (rs ! i)) \<and> (kv_type (rs ! i) = GET \<or> kv_type (rs ! i) = PUT)"
    if "i < mycsbaDbSize" for i using r(3) that by simp
  ultimately have "kv_client_valid \<lparr>kv_reqs = rs, kv_cur = 0\<rparr>"
    using r(2) unfolding kv_client_valid_def by (auto simp: in_set_conv_nth) blast
  then show ?thesis using r(1,2) by (simp add: kv_client_new_def)
qed

text \<open>The requests a client hands out next: the table read cyclically from its position.\<close>

definition kv_next :: "kv_client \<Rightarrow> nat \<Rightarrow> kv_request list" where
  "kv_next c k = map (\<lambda>i. kv_reqs c ! ((kv_cur c + i) mod length (kv_reqs c))) [0..<k]"

lemma kv_getReq_eq:
  assumes "kv_client_valid c"
  shows "kv_getReq c = Inr (kv_reqs c ! kv_cur c, c\<lparr>kv_cur := (kv_cur c + 1) mod length (kv_reqs c)\<rparr>)"
proof -
  have l: "kv_cur c < length (kv_reqs c)" using assms by (simp add: kv_client_valid_def)
  then have "(if kv_cur c + 1 = length (kv_reqs c) then 0 else kv_cur c + 1) = (kv_cur c + 1) mod length (kv_reqs c)"
    by auto
  then show ?thesis using l by (simp add: kv_getReq_def Let_def)
qed

lemma kv_fill_eq:
  assumes "kv_client_valid c"
  shows "kv_fill pad k c = Inr (concat (map (kv_bytes pad) (kv_next c k)),
           c\<lparr>kv_cur := (kv_cur c + k) mod length (kv_reqs c)\<rparr>)"
  using assms
proof (induction k arbitrary: c)
  case 0
  then show ?case by (simp add: kv_next_def kv_client_valid_def)
next
  case (Suc k)
  let ?c' = "c\<lparr>kv_cur := (kv_cur c + 1) mod length (kv_reqs c)\<rparr>"
  have l: "kv_cur c < length (kv_reqs c)" using Suc.prems by (simp add: kv_client_valid_def)
  then have "0 < length (kv_reqs c)" by linarith
  then have v: "kv_client_valid ?c'" using Suc.prems by (simp add: kv_client_valid_def)
  have "kv_next c (Suc k) = kv_reqs c ! kv_cur c # kv_next ?c' k"
    unfolding kv_next_def map_upt_Suc using l by (simp add: mod_add_left_eq)
  then show ?case using Suc.IH [OF v] kv_getReq_eq [OF Suc.prems] by (simp add: mod_add_left_eq)
qed

lemma length_kv_bytes: "kv_wf (kv_key r) (kv_val r) \<Longrightarrow> length (kv_bytes pad r) = sizeof_kv_request"
  by (simp add: kv_bytes_def kv_wf_def mycsbaKeySize_def mycsbaValSize_def sizeof_kv_request_def)

lemma kv_next_wf:
  assumes "kv_client_valid c" "r \<in> set (kv_next c k)"
  shows "kv_wf (kv_key r) (kv_val r) \<and> (kv_type r = GET \<or> kv_type r = PUT)"
proof -
  obtain i where "r = kv_reqs c ! ((kv_cur c + i) mod length (kv_reqs c))" using assms(2) by (auto simp: kv_next_def)
  moreover have "0 < length (kv_reqs c)" using assms(1) by (auto simp: kv_client_valid_def)
  ultimately have "r \<in> set (kv_reqs c)" by simp
  then show ?thesis using assms(1) by (simp add: kv_client_valid_def)
qed

lemma length_concat_kv: "\<forall>r \<in> set rs. kv_wf (kv_key r) (kv_val r) \<Longrightarrow>
    length (concat (map (kv_bytes pad) rs)) = sizeof_kv_request * length rs"
  by (induction rs) (auto simp: length_kv_bytes)

interpretation kv_src: request_source kv_genReq kv_client_valid "\<lambda>_ _. True"
proof
  fix c :: kv_client and pad
  assume v: "kv_client_valid c"
  let ?d = "concat (map (kv_bytes pad) (kv_next c mycsbaAggrFactor))"
  have "length ?d = sizeof_kv_request * length (kv_next c mycsbaAggrFactor)"
    by (rule length_concat_kv) (use kv_next_wf [OF v] in blast)
  then have l: "length ?d = 10240" by (simp add: kv_next_def sizeof_kv_request_def mycsbaAggrFactor_def)
  then have "?d \<noteq> []" by (metis length_0_conv zero_neq_numeral)
  moreover have "int (length ?d) \<le> MAX_REQ_BYTES" unfolding l MAX_REQ_BYTES_def by simp
  moreover have "0 < length (kv_reqs c)" using v by (auto simp: kv_client_valid_def)
  then have "kv_client_valid (c\<lparr>kv_cur := (kv_cur c + mycsbaAggrFactor) mod length (kv_reqs c)\<rparr>)"
    using v by (simp add: kv_client_valid_def)
  ultimately show "\<exists>d s'. kv_genReq pad c = Inr (d, s') \<and> kv_client_valid s' \<and> d \<noteq> [] \<and> int (length d) \<le> MAX_REQ_BYTES"
    using kv_fill_eq [OF v] by (auto simp: kv_genReq_def)
qed

section \<open>Serving\<close>

text \<open>What a request does to the store.\<close>

definition kv_apply :: "'s kv_ops \<Rightarrow> kv_request \<Rightarrow> 's \<Rightarrow> 's" where
  "kv_apply ops r st = (if kv_type r = GET then kv_get ops (str_of (kv_key r)) st
     else kv_put ops (str_of (kv_key r)) (str_of (kv_val r)) st)"

lemma str_of_prefix: "0 \<in> set a \<Longrightarrow> str_of (a @ b) = str_of a"
  by (auto simp: str_of_def intro: takeWhile_append1)

lemma kv_wf_NUL: "kv_wf key val \<Longrightarrow> 0 \<in> set key \<and> 0 \<in> set val"
proof -
  assume w: "kv_wf key val"
  then obtain v where "take (length (dec_int v) + 1) val = c_str (dec_int v)" by (auto simp: kv_wf_def)
  then have "0 \<in> set (take (length (dec_int v) + 1) val)" by (simp add: c_str_def)
  then show ?thesis using w by (auto simp: kv_wf_def dest: in_set_takeD)
qed

lemma kv_serve_ops_eq:
  assumes "\<forall>r \<in> set rs. kv_wf (kv_key r) (kv_val r) \<and> (kv_type r = GET \<or> kv_type r = PUT)"
  shows "kv_serve_ops ops (length rs) (concat (map (kv_bytes pad) rs) @ rest) st = Inr (fold (kv_apply ops) rs st)"
  using assms
proof (induction rs arbitrary: st)
  case (Cons r rs)
  let ?buf = "kv_bytes pad r @ concat (map (kv_bytes pad) rs) @ rest"
  have w: "kv_wf (kv_key r) (kv_val r)" and t: "kv_type r = GET \<or> kv_type r = PUT" using Cons.prems by auto
  have k: "length (kv_key r) = mycsbaKeySize" using w by (simp add: kv_wf_def)
  have n: "0 \<in> set (kv_key r)" "0 \<in> set (kv_val r)" using kv_wf_NUL [OF w] by auto
  have b: "take 4 ?buf = le_bytes 4 (kv_type_code (kv_type r))"
    "drop 4 ?buf = kv_key r @ kv_val r @ [pad] @ concat (map (kv_bytes pad) rs) @ rest"
    by (simp_all add: kv_bytes_def)
  have "drop (4 + mycsbaKeySize) ?buf = drop mycsbaKeySize (drop 4 ?buf)" unfolding drop_drop by (simp only: add.commute)
  then have v: "drop (4 + mycsbaKeySize) ?buf = kv_val r @ [pad] @ concat (map (kv_bytes pad) rs) @ rest"
    unfolding b using k by simp
  have d: "drop sizeof_kv_request ?buf = concat (map (kv_bytes pad) rs) @ rest"
    using length_kv_bytes [OF w] by simp
  have "kv_serve_ops ops (Suc (length rs)) ?buf st = kv_serve_ops ops (length rs) (concat (map (kv_bytes pad) rs) @ rest) (kv_apply ops r st)"
    unfolding kv_serve_ops.simps Let_def b v d using t n
    by (auto simp: str_of_prefix kv_type_of_def kv_apply_def)
  then show ?case using Cons.IH Cons.prems by simp
qed simp

section \<open>Properties\<close>

text \<open>
  C18. Every request of the client's table is well formed, whatever the memory held before: the key is
  \<open>user\<close> followed by eighteen digits and a NUL and fills its array exactly, the value is a number of at
  most ten digits with its NUL, and reads and writes alternate.
\<close>

theorem kv_table_wellformed:
  assumes "length key0 = mycsbaKeySize" "length val0 = mycsbaValSize"
  shows "\<exists>c. kv_client_new key0 val0 = Inr c \<and> length (kv_reqs c) = mycsbaDbSize \<and>
    (\<forall>i < mycsbaDbSize. kv_wf (kv_key (kv_reqs c ! i)) (kv_val (kv_reqs c ! i)) \<and>
       kv_type (kv_reqs c ! i) = (if even i then GET else PUT))"
  using kv_table_ok [OF assms, of 0 mycsbaDbSize "lcg_reset mycsbaSeed"]
  by (auto simp: kv_client_new_def even_iff_mod_2_eq_zero)

theorem kv_table_wellformed_witness:
  "\<exists>c. kv_client_new (replicate 23 7) (replicate 12 7) = Inr c \<and> length (kv_reqs c) = mycsbaDbSize"
  using kv_table_wellformed [of "replicate 23 7" "replicate 12 7"]
  by (auto simp: mycsbaKeySize_def mycsbaValSize_def)

text \<open>
  C39. The server executes exactly the next 256 requests of the client's table, read cyclically, in
  order and with the keys and values of the table, and answers with success; neither its assertion on
  the length nor its exit on an unknown type is reached.
\<close>

theorem kv_request_served:
  assumes "kv_client_valid c"
  shows "\<exists>data c'. kv_genReq pad c = Inr (data, c') \<and> kv_client_valid c' \<and>
    kv_serve ops (length data) (data @ rest) st =
      Inr (le_bytes 4 (0 :: u32), fold (kv_apply ops) (kv_next c mycsbaAggrFactor) st)"
proof -
  let ?rs = "kv_next c mycsbaAggrFactor"
  let ?d = "concat (map (kv_bytes pad) ?rs)"
  have w: "\<forall>r \<in> set ?rs. kv_wf (kv_key r) (kv_val r) \<and> (kv_type r = GET \<or> kv_type r = PUT)"
    using kv_next_wf [OF assms] by blast
  have n: "length ?rs = mycsbaAggrFactor" by (simp add: kv_next_def)
  have "length ?d = sizeof_kv_request * mycsbaAggrFactor" using length_concat_kv [of ?rs pad] w n by simp
  then have s: "kv_serve ops (length ?d) (?d @ rest) st = Inr (le_bytes 4 (0 :: u32), fold (kv_apply ops) ?rs st)"
    using kv_serve_ops_eq [OF w, of ops pad rest st] n by (simp add: kv_serve_def)
  obtain data c' where g: "kv_genReq pad c = Inr (data, c')" "kv_client_valid c'"
    using kv_src.gen_total [OF assms, of pad] by auto
  then have "data = ?d" using kv_fill_eq [OF assms] by (simp add: kv_genReq_def)
  then show ?thesis using g s by blast
qed

definition ex_kv_client :: kv_client where
  "ex_kv_client = \<lparr>kv_reqs = [\<lparr>kv_type = PUT, kv_key = map char_byte ''user'' @ replicate 18 48 @ [0],
     kv_val = 53 # replicate 11 0\<rparr>], kv_cur = 0\<rparr>"

theorem kv_request_served_witness:
  "kv_client_valid ex_kv_client \<and>
   (\<exists>data c' log. kv_genReq 0 ex_kv_client = Inr (data, c') \<and>
      kv_serve \<lparr>kv_get = (\<lambda>k s. s), kv_put = (\<lambda>k v s. (k, v) # s)\<rparr> (length data) (data @ []) [] = Inr ([0, 0, 0, 0], log))"
proof -
  have "dec_int 5 = ''5''" by code_simp
  then have "length (dec_int 5) \<le> 10 \<and> take (length (dec_int 5) + 1) (53 # replicate 11 0) = c_str (dec_int 5)"
    by (simp add: c_str_def char_byte_def)
  then have "\<exists>v. 0 \<le> v \<and> v < 2 ^ 31 \<and> length (dec_int v) \<le> 10 \<and>
      take (length (dec_int v) + 1) (53 # replicate 11 0) = c_str (dec_int v)"
    by (intro exI [of _ 5] conjI) auto
  moreover have "\<forall>b \<in> set (replicate 18 (48 :: byte)). digit_byte b" by (simp add: digit_byte_def)
  ultimately have v: "kv_client_valid ex_kv_client"
    unfolding kv_client_valid_def kv_wf_def ex_kv_client_def mycsbaKeySize_def mycsbaValSize_def
    by (auto intro!: exI [of _ "replicate 18 48"])
  have "le_bytes 4 (0 :: u32) = [0, 0, 0, 0]" by code_simp
  then show ?thesis
    using v kv_request_served [OF v, of 0 "\<lparr>kv_get = (\<lambda>k s. s), kv_put = (\<lambda>k v s. (k, v) # s)\<rparr>" "[]" "[]"] by auto
qed

end
