(* ===== verification/App_Sphinx.thy ===== *)
theory App_Sphinx
  imports App_Source
begin

text \<open>
  The speech-recognition benchmark, \<^verbatim>\<open>src/sphinx\<close>: the sample list and request generator of
  \<open>client.cpp\<close> and the decoder loop and \<open>main\<close> of \<open>decoder.cpp\<close>. The pocketsphinx library is a
  parameter (\<open>ps_ops\<close>): starting and ending an utterance, processing a block of samples, and the
  hypothesis, which may be absent.
\<close>

section \<open>client.cpp\<close>

text \<open>
  The loop over \<open>std::getline(fd, line)\<close>: a line ends at a newline or at the end of the file, and the
  call fails when nothing is left. The test of \<open>fd.fail()\<close> inside the loop never holds, since the
  loop's condition is its negation.
\<close>

function getlines :: "bytes \<Rightarrow> bytes list" where
  "getlines bs =
     (if bs = [] then []
      else takeWhile (\<lambda>b. b \<noteq> 10) bs # getlines (drop 1 (dropWhile (\<lambda>b. b \<noteq> 10) bs)))"
  by pat_completeness auto

termination
proof (relation "measure length")
  fix bs :: bytes
  assume "bs \<noteq> []"
  then have "length (drop 1 (dropWhile (\<lambda>b. b \<noteq> 10) bs)) < length bs"
    using length_dropWhile_le [of "\<lambda>b. b \<noteq> 10" bs] by (cases bs) (auto simp: less_Suc_eq_le)
  then show "(drop 1 (dropWhile (\<lambda>b. b \<noteq> 10) bs), bs) \<in> measure length" by simp
qed simp

declare getlines.simps [simp del]

text \<open>A file that cannot be opened gives an empty list.\<close>

definition loadSamples :: "bytes \<Rightarrow> bytes option \<Rightarrow> bytes list" where
  "loadSamples an4Corpus file =
     (case file of None \<Rightarrow> []
      | Some bs \<Rightarrow> map (\<lambda>line. an4Corpus @ [char_byte (CHR ''/'')] @ line) (getlines bs))"

definition audio_get :: "nat \<Rightarrow> bytes list \<Rightarrow> bytes res" where
  "audio_get idx samples = (if idx < length samples then Inr (samples ! idx) else Inl (Undefined ''samples[idx]''))"

definition sphinx_clientInit :: "env \<Rightarrow> (string \<Rightarrow> bytes option) \<Rightarrow> bytes list" where
  "sphinx_clientInit e fs =
     loadSamples (map char_byte (getOpt_app extract_string e ''TBENCH_AN4_CORPUS'' ''.''))
       (fs (getOpt_app extract_string e ''TBENCH_AUDIO_SAMPLES'' ''audio_samples''))"

text \<open>
  The file is read into the request's data array; its size is what \<open>seekg\<close> and \<open>tellg\<close> report. The
  state is the sample list together with the files.
\<close>

definition sphinx_genReq ::
    "nat \<Rightarrow> bytes list \<times> (bytes \<Rightarrow> bytes option) \<Rightarrow> (bytes \<times> bytes list \<times> (bytes \<Rightarrow> bytes option)) res" where
  "sphinx_genReq idx = (\<lambda>(samples, files).
     bind_res (audio_get idx samples) (\<lambda>sample.
       case files sample of
         None \<Rightarrow> Inl (Exit (- 1))
       | Some content \<Rightarrow>
           (if int (length content) > MAX_REQ_BYTES then Inl (Undefined ''Request::data overrun'')
            else Inr (content, samples, files))))"

section \<open>decoder.cpp\<close>

type_synonym i16 = "16 word"

record 'p ps_ops =
  ps_start_utt :: "'p \<Rightarrow> int \<times> 'p"
  ps_process_raw :: "i16 list \<Rightarrow> 'p \<Rightarrow> 'p"
  ps_end_utt :: "'p \<Rightarrow> int \<times> 'p"
  ps_get_hyp :: "'p \<Rightarrow> bytes option"

definition bufsize :: nat where
  "bufsize = 1024 * 1024"

text \<open>The buffer as an array of \<open>int16\<close>; a last odd byte is not part of it.\<close>

fun samples_of :: "bytes \<Rightarrow> i16 list" where
  "samples_of (a # b # bs) = le_word [a, b] # samples_of bs"
| "samples_of _ = []"

function process_blocks :: "'p ps_ops \<Rightarrow> i16 list \<Rightarrow> 'p \<Rightarrow> 'p" where
  "process_blocks ops cur ps =
     (if cur = [] then ps
      else (let nsamp = min (length cur) bufsize
            in process_blocks ops (drop nsamp cur) (ps_process_raw ops (take nsamp cur) ps)))"
  by pat_completeness auto

termination
  by (relation "measure (\<lambda>(ops, cur, ps). length cur)") (auto simp: bufsize_def)

declare process_blocks.simps [simp del]

text \<open>
  One pass of the loop of \<open>doAsr\<close>. When there is no hypothesis the exception is built but not thrown,
  and \<open>strlen\<close> is called on the null pointer.
\<close>

definition asr_request :: "'p ps_ops \<Rightarrow> bytes \<Rightarrow> 'p \<Rightarrow> (bytes \<times> 'p) res" where
  "asr_request ops buf ps =
     (let (rv, ps1) = ps_start_utt ops ps
      in if rv < 0 then Inl (Throw ''Could not start utterance'')
         else (let ps2 = process_blocks ops (samples_of buf) ps1;
                   (rv', ps3) = ps_end_utt ops ps2
               in if rv' < 0 then Inl (Throw ''Could not end utterance'')
                  else case ps_get_hyp ops ps3 of
                    None \<Rightarrow> Inl (Undefined ''strlen(NULL)'')
                  | Some hyp \<Rightarrow> Inr (hyp, ps3)))"

text \<open>The endless loop over the requests a thread receives, until one of them ends it.\<close>

fun doAsr :: "'p ps_ops \<Rightarrow> bytes list \<Rightarrow> 'p \<Rightarrow> bytes list \<times> fault option" where
  "doAsr ops [] ps = ([], None)"
| "doAsr ops (buf # bufs) ps =
     (case asr_request ops buf ps of
        Inl e \<Rightarrow> ([], Some e)
      | Inr (hyp, ps') \<Rightarrow> (let (out, e) = doAsr ops bufs ps' in (hyp # out, e)))"

text \<open>Initialisation of a thread: the configuration and the decoder may fail to be created.\<close>

definition doAsr_thread :: "'p ps_ops \<Rightarrow> 'c option \<Rightarrow> ('c \<Rightarrow> 'p option) \<Rightarrow> bytes list \<Rightarrow> bytes list \<times> fault option" where
  "doAsr_thread ops config ps_init bufs =
     (case config of
        None \<Rightarrow> ([], Some (Throw ''Could not init config''))
      | Some c \<Rightarrow> (case ps_init c of
            None \<Rightarrow> ([], Some (Throw ''Could not init pocketsphinx''))
          | Some ps \<Rightarrow> doAsr ops bufs ps))"

fun decoder_opts :: "(char \<times> string) list \<Rightarrow> int \<Rightarrow> int res" where
  "decoder_opts [] nthr = Inr nthr"
| "decoder_opts ((c, optarg) # os) nthr =
     (if c = CHR ''t'' then decoder_opts os (atoi optarg)
      else if c = CHR ''?'' then Inl (Exit (- 1))
      else decoder_opts os nthr)"

definition decoder_main :: "(char \<times> string) list \<Rightarrow> nat list res" where
  "decoder_main os = bind_res (decoder_opts os 1) (\<lambda>nthr. Inr [0..<nat nthr])"

section \<open>Lemmas\<close>

lemma getlines_Nil [simp]: "getlines [] = []"
  by (simp add: getlines.simps)

lemma getlines_line: "10 \<notin> set l \<Longrightarrow> getlines (l @ 10 # bs) = l # getlines bs"
proof -
  assume l: "10 \<notin> set l"
  have "takeWhile (\<lambda>b. b \<noteq> 10) (l @ 10 # bs) = l" "dropWhile (\<lambda>b. b \<noteq> 10) (l @ 10 # bs) = 10 # bs"
    using l by (auto simp: takeWhile_tail dropWhile_append3 takeWhile_append2 dropWhile_append2 intro!: takeWhile_append2)
  then show ?thesis by (subst getlines.simps) simp
qed

lemma getlines_last: "10 \<notin> set l \<Longrightarrow> l \<noteq> [] \<Longrightarrow> getlines l = [l]"
proof -
  assume l: "10 \<notin> set l" "l \<noteq> []"
  have "takeWhile (\<lambda>b. b \<noteq> 10) l = l" "dropWhile (\<lambda>b. b \<noteq> 10) l = []"
    using l(1) by (auto simp: takeWhile_eq_all_conv dropWhile_eq_Nil_conv)
  then show ?thesis using l(2)
    by (subst getlines.simps) (simp del: takeWhile_eq_all_conv dropWhile_eq_Nil_conv)
qed

text \<open>Every line of the file becomes a sample, the last one even without a newline.\<close>

lemma getlines_lines:
  "\<forall>l \<in> set ls. 10 \<notin> set l \<Longrightarrow> 10 \<notin> set r \<Longrightarrow>
     getlines (concat (map (\<lambda>l. l @ [10]) ls) @ r) = ls @ (if r = [] then [] else [r])"
  by (induction ls) (auto simp: getlines_line getlines_last)

definition sphinx_valid :: "bytes list \<times> (bytes \<Rightarrow> bytes option) \<Rightarrow> bool" where
  "sphinx_valid = (\<lambda>(samples, files). \<forall>s \<in> set samples. \<exists>c. files s = Some c \<and> c \<noteq> [] \<and> int (length c) \<le> MAX_REQ_BYTES)"

interpretation sphinx_src: request_source sphinx_genReq sphinx_valid "\<lambda>idx (samples, files). idx < length samples"
proof
  fix s :: "bytes list \<times> (bytes \<Rightarrow> bytes option)" and idx
  assume v: "sphinx_valid s" and d: "case s of (samples, files) \<Rightarrow> idx < length samples"
  obtain samples files where s: "s = (samples, files)" by (cases s)
  then have "idx < length samples" using d by simp
  then have "samples ! idx \<in> set samples" by simp
  then obtain c where "files (samples ! idx) = Some c" "c \<noteq> []" "int (length c) \<le> MAX_REQ_BYTES"
    using v s by (auto simp: sphinx_valid_def)
  then show "\<exists>d s'. sphinx_genReq idx s = Inr (d, s') \<and> sphinx_valid s' \<and> d \<noteq> [] \<and> int (length d) \<le> MAX_REQ_BYTES"
    using s v \<open>idx < length samples\<close> by (simp add: sphinx_genReq_def audio_get_def)
qed

lemma length_samples_of: "length (samples_of bs) = length bs div 2"
  by (induction bs rule: samples_of.induct) auto

lemma process_blocks_short:
  assumes "length cur \<le> bufsize"
  shows "process_blocks ops cur ps = (if cur = [] then ps else ps_process_raw ops cur ps)"
  using assms by (subst process_blocks.simps) (simp add: process_blocks.simps [of ops "[]"])

text \<open>
  Block by block or at once: a decoder for which processing two blocks is processing their
  concatenation, as pocketsphinx promises for one utterance, sees the whole buffer.
\<close>

lemma process_blocks_whole:
  assumes "\<And>a b p. ps_process_raw ops b (ps_process_raw ops a p) = ps_process_raw ops (a @ b) p"
    and "cur \<noteq> []"
  shows "process_blocks ops cur ps = ps_process_raw ops cur ps"
  using assms(2)
proof (induction "length cur" arbitrary: cur ps rule: less_induct)
  case less
  let ?n = "min (length cur) bufsize"
  have step: "process_blocks ops cur ps = process_blocks ops (drop ?n cur) (ps_process_raw ops (take ?n cur) ps)"
    using less.prems by (subst process_blocks.simps) (simp add: Let_def)
  show ?case
  proof (cases "drop ?n cur = []")
    case True
    then show ?thesis using step by (simp add: process_blocks.simps [of ops "[]"])
  next
    case False
    have "length (drop ?n cur) < length cur" using less.prems by (simp add: bufsize_def)
    then show ?thesis using step less.hyps [OF _ False] assms(1) by simp
  qed
qed

section \<open>Properties\<close>

text \<open>
  A request the harness can deliver (at most \<open>MAX_REQ_BYTES\<close> bytes) is decoded in a single block
  holding all its samples; when the decoder has no hypothesis for it, the code passes the null pointer
  to \<open>strlen\<close> instead of throwing.
\<close>

theorem sphinx_request:
  assumes "2 \<le> length buf" "int (length buf) \<le> MAX_REQ_BYTES"
    "ps_start_utt ops ps = (0, ps1)" "ps_end_utt ops (ps_process_raw ops (samples_of buf) ps1) = (0, ps2)"
  shows "asr_request ops buf ps =
    (case ps_get_hyp ops ps2 of None \<Rightarrow> Inl (Undefined ''strlen(NULL)'') | Some hyp \<Rightarrow> Inr (hyp, ps2))"
proof -
  have "length (samples_of buf) \<le> bufsize" using assms(2) by (simp add: length_samples_of bufsize_def MAX_REQ_BYTES_def)
  moreover have "samples_of buf \<noteq> []" using assms(1) length_samples_of [of buf] by (cases "samples_of buf") auto
  ultimately show ?thesis using assms by (simp add: asr_request_def process_blocks_short)
qed

theorem sphinx_request_witness:
  "asr_request \<lparr>ps_start_utt = (\<lambda>p. (0, p)), ps_process_raw = (\<lambda>a p. p @ a), ps_end_utt = (\<lambda>p. (0, p)),
       ps_get_hyp = (\<lambda>p. if p = [513] then None else Some [])\<rparr> [1, 2] [] = Inl (Undefined ''strlen(NULL)'')"
proof -
  have s: "samples_of [1, 2] = [513]" by code_simp
  show ?thesis
    by (subst sphinx_request [where ?ps1.0 = "[]" and ?ps2.0 = "[513]"]) (simp_all add: s MAX_REQ_BYTES_def)
qed

end
