(* ===== verification/Silo_Util.thy ===== *)
theory Silo_Util
  imports Cpp_Double
begin

unbundle bit_operations_syntax

text \<open>
  The utility functions of silo, \<^verbatim>\<open>src/silo/util.h\<close>, that the benchmark's keys, buffers and random
  choices rest on: byte-order transforms, hexadecimal output, rounding, the 48-bit linear congruential
  generator, string helpers and the field mask. The templates are modelled at the word types they are
  used with.
\<close>

section \<open>Byte order\<close>

text \<open>\<open>be16toh\<close>, \<open>htobe16\<close> and their wider forms reverse the bytes on a little-endian machine.\<close>

definition host_endian_trfm :: "nat \<Rightarrow> 'a::len word \<Rightarrow> 'a word" where
  "host_endian_trfm bytes t = le_word (rev (le_bytes bytes t))"

definition big_endian_trfm :: "nat \<Rightarrow> 'a::len word \<Rightarrow> 'a word" where
  "big_endian_trfm bytes t = le_word (rev (le_bytes bytes t))"

section \<open>Hexadecimal\<close>

definition hex_lut :: string where
  "hex_lut = ''0123456789ABCDEF''"

fun hexify_buf :: "byte list \<Rightarrow> string" where
  "hexify_buf [] = []"
| "hexify_buf (c # cs) = hex_lut ! unat (drop_bit 4 c) # hex_lut ! unat (c AND 15) # hexify_buf cs"

section \<open>Rounding\<close>

definition mask_value :: "nat \<Rightarrow> 'a::len word" where
  "mask_value lgbase = push_bit lgbase 1 - 1"

definition round_up :: "nat \<Rightarrow> 'a::len word \<Rightarrow> 'a word" where
  "round_up lgbase t = (t + mask_value lgbase) AND NOT (mask_value lgbase)"

definition round_down :: "nat \<Rightarrow> 'a::len word \<Rightarrow> 'a word" where
  "round_down lgbase t = t AND NOT (mask_value lgbase)"

definition iceil :: "'a::len word \<Rightarrow> 'a word \<Rightarrow> 'a word" where
  "iceil x y = (let m = x mod y in x + (if m \<noteq> 0 then y - m else 0))"

definition slow_round_up :: "'a::len word \<Rightarrow> 'a word \<Rightarrow> 'a word" where
  "slow_round_up x q = (let r = x mod q in if r = 0 then x else x + (q - r))"

definition slow_round_down :: "'a::len word \<Rightarrow> 'a word \<Rightarrow> 'a word" where
  "slow_round_down x q = (let r = x mod q in if r = 0 then x else x - r)"

section \<open>fast_random\<close>

type_synonym fast_random = u64

definition set_seed0 :: "u64 \<Rightarrow> fast_random" where
  "set_seed0 sd = (sd XOR 0x5DEECE66D) AND (push_bit 48 1 - 1)"

definition new_fast_random :: "u64 \<Rightarrow> fast_random" where
  "new_fast_random sd = set_seed0 sd"

definition next_bits :: "nat \<Rightarrow> fast_random \<Rightarrow> u64 \<times> fast_random" where
  "next_bits bits sd = (let sd' = (sd * 0x5DEECE66D + 0xB) AND (push_bit 48 1 - 1) in (drop_bit (48 - bits) sd', sd'))"

definition next_ulong :: "fast_random \<Rightarrow> u64 \<times> fast_random" where
  "next_ulong s = (let (a, s1) = next_bits 32 s; (b, s2) = next_bits 32 s1 in (push_bit 32 a + b, s2))"

definition next_u32 :: "fast_random \<Rightarrow> u32 \<times> fast_random" where
  "next_u32 s = (let (a, s1) = next_bits 32 s in (ucast a, s1))"

definition next_u16 :: "fast_random \<Rightarrow> u16 \<times> fast_random" where
  "next_u16 s = (let (a, s1) = next_bits 16 s in (ucast a, s1))"

definition next_uniform :: "fast_random \<Rightarrow> double \<times> fast_random" where
  "next_uniform s =
     (let (a, s1) = next_bits 26 s; (b, s2) = next_bits 27 s1
      in (div_double (double_of_u64 (push_bit 27 a + b)) (double_of_int (2 ^ 53)), s2))"

definition next_char :: "fast_random \<Rightarrow> byte \<times> fast_random" where
  "next_char s = (let (a, s1) = next_bits 8 s in (ucast (a mod 256), s1))"

definition readables :: string where
  "readables = ''0123456789@ABCDEFGHIJKLMNOPQRSTUVWXYZ_abcdefghijklmnopqrstuvwxyz''"

definition next_readable_char :: "fast_random \<Rightarrow> char res \<times> fast_random" where
  "next_readable_char s =
     (let (a, s1) = next_bits 6 s
      in (if unat a < length readables then Inr (readables ! unat a) else Inl (Undefined ''readables[next(6)]''), s1))"

fun next_string :: "nat \<Rightarrow> fast_random \<Rightarrow> byte list \<times> fast_random" where
  "next_string 0 s = ([], s)"
| "next_string (Suc n) s = (let (c, s1) = next_char s; (cs, s2) = next_string n s1 in (c # cs, s2))"

fun next_readable_string :: "nat \<Rightarrow> fast_random \<Rightarrow> string res \<times> fast_random" where
  "next_readable_string 0 s = (Inr [], s)"
| "next_readable_string (Suc n) s =
     (let (c, s1) = next_readable_char s; (cs, s2) = next_readable_string n s1
      in (bind_res c (\<lambda>x. bind_res cs (\<lambda>xs. Inr (x # xs))), s2))"

definition get_seed :: "fast_random \<Rightarrow> u64" where
  "get_seed s = s"

definition set_seed :: "u64 \<Rightarrow> fast_random" where
  "set_seed sd = sd"

section \<open>Strings, timers and masks\<close>

fun format_elems :: "bool \<Rightarrow> string list \<Rightarrow> string" where
  "format_elems first [] = []"
| "format_elems first (x # xs) = (if first then [] else '', '') @ x @ format_elems False xs"

definition format_list :: "string list \<Rightarrow> string" where
  "format_list xs = ''['' @ format_elems True xs @ '']''"

text \<open>
  The loop of \<open>first_pos_diff\<close> advances \<open>n\<close> but tests the pointers themselves, which do not move: once
  both strings are non-empty only a differing byte ends it, and it reads on behind their ends.
\<close>

fun first_pos_diff_loop :: "byte list \<Rightarrow> byte list \<Rightarrow> nat \<Rightarrow> nat res" where
  "first_pos_diff_loop (a # as) (b # bs) n = (if a = b then first_pos_diff_loop as bs (n + 1) else Inr n)"
| "first_pos_diff_loop as bs n = Inl (Undefined ''p0[n] == p1[n]'')"

definition first_pos_diff :: "byte list \<Rightarrow> byte list \<Rightarrow> nat res" where
  "first_pos_diff p0 p1 = (if p0 = [] \<or> p1 = [] then Inr 0 else first_pos_diff_loop p0 p1 0)"

text \<open>\<open>cur_usec\<close> from the two fields of a \<open>timeval\<close>, and \<open>lap\<close>, which returns the time since the last one.\<close>

definition cur_usec :: "u64 \<Rightarrow> u64 \<Rightarrow> u64" where
  "cur_usec tv_sec tv_usec = tv_sec * 1000000 + tv_usec"

definition lap :: "u64 \<Rightarrow> u64 \<Rightarrow> u64 \<times> u64" where
  "lap now start = (now - start, now)"

definition next_key :: "byte list \<Rightarrow> byte list" where
  "next_key s = s @ [0]"

text \<open>\<open>std::getline\<close> with a delimiter on a \<open>stringstream\<close>: it fails when nothing is left.\<close>

function split_str :: "byte \<Rightarrow> byte list \<Rightarrow> byte list list" where
  "split_str delim s =
     (if s = [] then []
      else takeWhile (\<lambda>b. b \<noteq> delim) s # split_str delim (drop 1 (dropWhile (\<lambda>b. b \<noteq> delim) s)))"
  by pat_completeness auto

termination
proof (relation "measure (\<lambda>(d, s). length s)")
  fix delim :: byte and s :: "byte list"
  assume "s \<noteq> []"
  then have "length (drop 1 (dropWhile (\<lambda>b. b \<noteq> delim) s)) < length s"
    using length_dropWhile_le [of "\<lambda>b. b \<noteq> delim" s] by (cases s) (auto simp: less_Suc_eq_le)
  then show "((delim, drop 1 (dropWhile (\<lambda>b. b \<noteq> delim) s)), (delim, s)) \<in> measure (\<lambda>(d, s). length s)" by simp
qed simp

declare split_str.simps [simp del]

fun compute_fields_mask :: "nat list \<Rightarrow> u64" where
  "compute_fields_mask [] = 0"
| "compute_fields_mask (f # rest) = push_bit f 1 OR compute_fields_mask rest"

section \<open>Lemmas on byte order\<close>

lemma big_endian_bytes:
  "LENGTH('a) = 8 * n \<Longrightarrow> le_bytes n (big_endian_trfm n w) = rev (le_bytes n (w :: 'a::len word))"
  using le_bytes_le_word [of "rev (le_bytes n w)", where 'a = 'a] by (simp add: big_endian_trfm_def)

lemma endian_roundtrip:
  "LENGTH('a) = 8 * n \<Longrightarrow> host_endian_trfm n (big_endian_trfm n w) = (w :: 'a::len word)"
  unfolding host_endian_trfm_def by (simp add: big_endian_bytes)

section \<open>Lemmas on rounding\<close>

lemma mask_value_mask: "mask_value k = (mask k :: 'a::len word)"
  by (simp add: mask_value_def mask_eq_exp_minus_1 push_bit_of_1)

lemma and_not_mask: "t AND NOT (mask k) = push_bit k (drop_bit k (t :: 'a::len word))"
  by (rule bit_word_eqI) (auto simp: bit_simps)

lemma unat_round_down: "unat (round_down k t) = unat t div 2 ^ k * 2 ^ k" for t :: "'a::len word"
proof -
  have "round_down k t = t - take_bit k t"
    unfolding round_down_def mask_value_mask and_not_mask
    using bits_ident [of k t] by (simp add: algebra_simps)
  moreover have "take_bit k t \<le> t" by (simp add: word_le_nat_alt unsigned_take_bit_eq take_bit_nat_less_eq_self)
  ultimately have "unat (round_down k t) = unat t - unat t mod 2 ^ k"
    by (simp add: unat_sub unsigned_take_bit_eq take_bit_nat_def)
  then show ?thesis by (simp add: minus_mod_eq_div_mult)
qed

lemma unat_round_up:
  assumes "unat t + 2 ^ k - 1 < 2 ^ LENGTH('a)"
  shows "unat (round_up k (t :: 'a::len word)) = (unat t + 2 ^ k - 1) div 2 ^ k * 2 ^ k"
proof -
  have k: "k \<le> LENGTH('a)"
  proof (rule ccontr)
    assume "\<not> k \<le> LENGTH('a)"
    then have "(2 :: nat) ^ Suc LENGTH('a) \<le> 2 ^ k" by (intro power_increasing) auto
    then show False using assms zero_less_power [of "2 :: nat" "LENGTH('a)"] by simp
  qed
  have m: "unat (mask k :: 'a word) = 2 ^ k - 1"
  proof -
    have "(mask k :: 'a word) = of_nat (2 ^ k - 1)" by (simp add: mask_eq_exp_minus_1 of_nat_diff)
    moreover have "(2 :: nat) ^ k \<le> 2 ^ LENGTH('a)" using k by (intro power_increasing) auto
    then have "(2 :: nat) ^ k - 1 < 2 ^ LENGTH('a)" using zero_less_power [of "2 :: nat" "LENGTH('a)"] by linarith
    ultimately show ?thesis by (simp add: unat_of_nat del: of_nat_diff)
  qed
  have "round_up k t = round_down k (t + mask k)"
    by (simp add: round_up_def round_down_def mask_value_mask)
  moreover have "unat (t + mask k) = unat t + 2 ^ k - 1"
    using assms by (simp add: unat_word_ariths m)
  ultimately show ?thesis by (simp add: unat_round_down)
qed

text \<open>The shift-and-mask rounding is the rounding by division for a power of two.\<close>

lemma ceil_mult:
  assumes "0 < (d :: nat)"
  shows "(n + d - 1) div d * d = (if n mod d = 0 then n else n + (d - n mod d))"
proof -
  let ?q = "n div d" let ?r = "n mod d"
  have n: "n = ?q * d + ?r" by simp
  have r: "?r < d" using assms by simp
  show ?thesis
  proof (cases "?r = 0")
    case True
    then have "n + d - 1 = d - 1 + ?q * d" using n assms by linarith
    then have "(n + d - 1) div d = ?q" using assms by (simp only: div_mult_self1) simp
    then show ?thesis using True n by simp
  next
    case False
    moreover have qd: "(?q + 1) * d = ?q * d + d" by simp
    ultimately have "n + d - 1 = (?r - 1) + (?q + 1) * d" using n by linarith
    moreover have "(?r - 1) div d = 0" using r by (intro div_less) linarith
    ultimately have "(n + d - 1) div d = ?q + 1" using assms by (simp only: div_mult_self1)
    moreover have "(?q + 1) * d = n + (d - ?r)" using n r qd by linarith
    ultimately show ?thesis using False by simp
  qed
qed

lemma round_up_slow:
  assumes "unat t + 2 ^ k - 1 < 2 ^ LENGTH('a)" "k < LENGTH('a)"
  shows "round_up k t = slow_round_up t (push_bit k (1 :: 'a::len word))"
proof -
  let ?q = "push_bit k (1 :: 'a word)"
  have "(?q :: 'a word) = of_nat (2 ^ k)" by (simp add: push_bit_of_1)
  then have q: "unat ?q = 2 ^ k" using assms(2) by (simp only: unat_of_nat) simp
  have r: "unat (t mod ?q) = unat t mod 2 ^ k" by (simp only: unat_mod q)
  have up: "unat (round_up k t) = (if unat t mod 2 ^ k = 0 then unat t else unat t + (2 ^ k - unat t mod 2 ^ k))"
    using unat_round_up [OF assms(1)] ceil_mult [of "2 ^ k" "unat t"] by simp
  have z: "t mod ?q = 0 \<longleftrightarrow> unat t mod 2 ^ k = 0" using r by (metis unat_0 unat_eq_zero)
  show ?thesis
  proof (cases "unat t mod 2 ^ k = 0")
    case True
    then show ?thesis using up z by (simp add: slow_round_up_def word_unat_eq_iff)
  next
    case False
    have "unat t mod 2 ^ k < 2 ^ k" by simp
    then have "unat (?q - t mod ?q) = 2 ^ k - unat t mod 2 ^ k"
      using q r by (subst unat_sub) (simp_all add: word_le_nat_alt)
    moreover have "unat t + (2 ^ k - unat t mod 2 ^ k) < 2 ^ LENGTH('a)"
    proof -
      have "0 < unat t mod 2 ^ k" using False by simp
      then show ?thesis using assms(1) \<open>unat t mod 2 ^ k < 2 ^ k\<close> by linarith
    qed
    ultimately have "unat (t + (?q - t mod ?q)) = unat t + (2 ^ k - unat t mod 2 ^ k)" by (simp add: unat_word_ariths)
    then show ?thesis using up z False by (simp add: slow_round_up_def word_unat_eq_iff Let_def)
  qed
qed

section \<open>Lemmas on the generator\<close>

lemma next_bits_range:
  assumes "bits \<le> 48"
  shows "unat (fst (next_bits bits s)) < 2 ^ bits"
proof -
  let ?w = "s * 0x5DEECE66D + 0xB :: u64"
  have m: "(push_bit 48 1 - 1 :: u64) = mask 48" by (simp add: mask_eq_exp_minus_1 push_bit_of_1)
  have "fst (next_bits bits s) = drop_bit (48 - bits) (take_bit 48 ?w)"
    unfolding next_bits_def Let_def m take_bit_eq_mask by simp
  then have "unat (fst (next_bits bits s)) = take_bit 48 (unat ?w) div 2 ^ (48 - bits)"
    by (simp add: unsigned_drop_bit_eq unsigned_take_bit_eq drop_bit_nat_def)
  moreover have "take_bit 48 (unat ?w) < 2 ^ (48 - bits) * 2 ^ bits"
    using take_bit_nat_less_exp [of 48 "unat ?w"] assms by (simp flip: power_add)
  ultimately show ?thesis by (simp add: less_mult_imp_div_less mult.commute)
qed

lemma next_readable_char_ok: "\<exists>c s'. next_readable_char s = (Inr c, s') \<and> c \<in> set readables"
proof -
  obtain a s1 where n: "next_bits 6 s = (a, s1)" by (cases "next_bits 6 s")
  then have "unat a < 64" using next_bits_range [of 6 s] by simp
  moreover have "length readables = 64" by (simp add: readables_def)
  ultimately show ?thesis using n by (auto simp: next_readable_char_def)
qed

lemma next_readable_string_ok:
  "\<exists>cs s'. next_readable_string n s = (Inr cs, s') \<and> length cs = n \<and> set cs \<subseteq> set readables"
proof (induction n arbitrary: s)
  case (Suc n)
  obtain c s1 where c: "next_readable_char s = (Inr c, s1)" "c \<in> set readables" using next_readable_char_ok by blast
  obtain cs s2 where "next_readable_string n s1 = (Inr cs, s2)" "length cs = n" "set cs \<subseteq> set readables"
    using Suc.IH by blast
  then show ?case using c by auto
qed simp

text \<open>A multiple of \<open>2 ^ -53\<close> below one is a double.\<close>

lemma rnd_unit: "0 \<le> n \<Longrightarrow> n < 2 ^ 53 \<Longrightarrow> rnd (of_int n / 2 ^ 53) = of_int n / 2 ^ 53"
proof (cases "n = 0")
  case False
  assume n: "0 \<le> n" "n < 2 ^ 53"
  let ?x = "of_int n * pow2 (- 53)"
  have p: "pow2 (- 53) = 1 / 2 ^ 53" by (simp add: pow2_def)
  have "0 < ?x" using n False by simp
  have "(of_int n :: rat) < of_int (2 ^ 53)" using n by (simp only: of_int_less_iff)
  then have "?x < pow2 0" by (simp add: p)
  then have "ilog2 ?x < 0"
    using ilog2_bounds [OF \<open>0 < ?x\<close>] pow2_less_iff [of "ilog2 ?x" 0] by linarith
  then have "ulp_exp ?x \<le> - 53" using \<open>0 < ?x\<close> by (simp add: ulp_exp_def)
  from of_int_mult_pow2_div [OF this, of n] have "rnd ?x = ?x"
    by (intro rnd_fixed [of _ "n * 2 ^ nat (- 53 - ulp_exp ?x)"])
  then show ?thesis by (simp add: p)
qed simp

lemma next_uniform_unit: "\<exists>x s'. next_uniform s = (Fin x, s') \<and> 0 \<le> x \<and> x < 1"
proof -
  obtain a s1 where a: "next_bits 26 s = (a, s1)" by (cases "next_bits 26 s")
  obtain b s2 where b: "next_bits 27 s1 = (b, s2)" by (cases "next_bits 27 s1")
  have ab: "unat a < 2 ^ 26" "unat b < 2 ^ 27"
    using next_bits_range [of 26 s] next_bits_range [of 27 s1] a b by simp_all
  define w where "w = push_bit 27 a + b"
  have "push_bit 27 a = a * of_nat (2 ^ 27)" by (simp add: push_bit_eq_mult)
  then have "w = of_nat (unat a * 2 ^ 27 + unat b)" by (simp add: w_def)
  then have "unat w = (unat a * 2 ^ 27 + unat b) mod 2 ^ 64" by (simp only: unat_of_nat) simp
  moreover have lt: "unat a * 2 ^ 27 + unat b < 2 ^ 53" using ab by simp
  ultimately have "unat w < 2 ^ 53" by simp
  then have "int (unat w) < int (2 ^ 53)" by (simp only: of_nat_less_iff)
  then have u: "0 \<le> uint w" "uint w < 2 ^ 53" unfolding uint_nat by simp_all
  have d: "double_of_u64 w = Fin (of_int (uint w))" "double_of_int (2 ^ 53) = Fin (2 ^ 53)"
    using to_double_int [of "uint w"] to_double_int [of "2 ^ 53"] u
    by (simp_all add: double_of_u64_def double_of_int_def)
  let ?x = "of_int (uint w) / 2 ^ 53 :: rat"
  have "(of_int (uint w) :: rat) < of_int (2 ^ 53)" using u(2) by (simp only: of_int_less_iff)
  then have x1: "?x < 1" by simp
  have "(0 :: rat) \<le> of_int (uint w)" using u(1) by (simp only: of_int_0_le_iff)
  then have x: "0 \<le> ?x" "?x < 1" using x1 by (auto intro: divide_nonneg_nonneg)
  have "to_double ?x = Fin ?x" using to_double_small [of ?x] rnd_unit [OF u] x by simp
  then have "next_uniform s = (Fin ?x, s2)" using d by (simp add: next_uniform_def a b w_def [symmetric])
  then show ?thesis using x by blast
qed

section \<open>Lemmas on strings and masks\<close>

lemma length_hexify_buf: "length (hexify_buf bs) = 2 * length bs"
  by (induction bs) auto

lemma first_pos_diff_loop_eq:
  "first_pos_diff_loop p0 p1 n = Inr m \<longleftrightarrow>
     (\<exists>i < min (length p0) (length p1). m = n + i \<and> p0 ! i \<noteq> p1 ! i \<and> (\<forall>j < i. p0 ! j = p1 ! j))"
proof (induction p0 p1 n rule: first_pos_diff_loop.induct)
  case (1 a as b bs n)
  show ?case
  proof (cases "a = b")
    case True
    have "(\<exists>i < min (length (a # as)) (length (b # bs)). m = n + i \<and> (a # as) ! i \<noteq> (b # bs) ! i \<and>
            (\<forall>j < i. (a # as) ! j = (b # bs) ! j)) \<longleftrightarrow>
          (\<exists>i < min (length as) (length bs). m = (n + 1) + i \<and> as ! i \<noteq> bs ! i \<and> (\<forall>j < i. as ! j = bs ! j))"
      (is "?L \<longleftrightarrow> ?R")
    proof
      assume ?L
      then obtain i where i: "i < Suc (min (length as) (length bs))" "m = n + i" "(a # as) ! i \<noteq> (b # bs) ! i"
        "\<forall>j < i. (a # as) ! j = (b # bs) ! j" by auto
      then obtain i' where "i = Suc i'" using True by (cases i) auto
      then show ?R using i by (intro exI [of _ i']) (auto dest: spec [of _ "Suc _"])
    next
      assume ?R
      then obtain i where "i < min (length as) (length bs)" "m = (n + 1) + i" "as ! i \<noteq> bs ! i"
        "\<forall>j < i. as ! j = bs ! j" by auto
      then show ?L using True by (intro exI [of _ "Suc i"]) (auto simp: nth_Cons split: nat.splits)
    qed
    then show ?thesis using 1 [OF True] True by simp
  next
    case False
    then show ?thesis by (auto simp: gr0_conv_Suc intro: exI [of _ 0] dest: spec [of _ 0])
  qed
qed simp_all

lemma compute_fields_mask_bit: "bit (compute_fields_mask fs) k \<longleftrightarrow> k < 64 \<and> k \<in> set fs"
  by (induction fs) (auto simp: bit_or_iff push_bit_of_1 bit_exp_iff)

end
