(* ===== verification/App_Silo.thy ===== *)
theory App_Silo
  imports App_Source Silo_Util
begin

text \<open>
  The transaction benchmark, \<^verbatim>\<open>src/silo/benchmarks\<close>: the request generator of \<open>client.cc\<close>, which draws a
  TPC-C transaction type from the workload mix, and the loop \<open>bench_worker::run\<close> of \<open>bench.cc\<close>, which
  executes the transaction of each request, retries it when it aborts and answers. The transactions
  themselves are a parameter: the results of the successive attempts.
\<close>

section \<open>request.h and client.cc\<close>

datatype silo_type = NEW_ORDER | PAYMENT | DELIVERY | ORDER_STATUS | STOCK_LEVEL

definition silo_types :: "silo_type list" where
  "silo_types = [NEW_ORDER, PAYMENT, DELIVERY, ORDER_STATUS, STOCK_LEVEL]"

definition g_txn_workload_mix :: "int list" where
  "g_txn_workload_mix = [45, 43, 4, 4, 4]"

definition silo_seed :: u64 where
  "silo_seed = 23984543"

record silo_client =
  sc_workload :: "double list"
  sc_randgen :: fast_random

definition new_silo_client :: silo_client where
  "new_silo_client =
     \<lparr>sc_workload = map (\<lambda>m. div_double (double_of_int m) (Fin 100)) g_txn_workload_mix,
      sc_randgen = new_fast_random silo_seed\<rparr>"

text \<open>The loop of \<open>getReq\<close>; an empty workload would leave the type unset.\<close>

fun silo_pick :: "double \<Rightarrow> double list \<Rightarrow> nat \<Rightarrow> nat res" where
  "silo_pick d [] i = Inl (Undefined ''req.type'')"
| "silo_pick d (f # fs) i =
     (if fs = [] \<or> less_double d f then Inr i else silo_pick (add_double d (neg_double f)) fs (i + 1))"

definition silo_getReq :: "silo_client \<Rightarrow> (nat \<times> silo_client) res" where
  "silo_getReq c =
     (let (d, r) = next_uniform (sc_randgen c)
      in bind_res (silo_pick d (sc_workload c) 0) (\<lambda>i. Inr (i, c\<lparr>sc_randgen := r\<rparr>)))"

definition silo_genReq :: "unit \<Rightarrow> silo_client \<Rightarrow> (bytes \<times> silo_client) res" where
  "silo_genReq u c = bind_res (silo_getReq c) (\<lambda>(i, c'). Inr (le_bytes 4 (of_nat i :: u32), c'))"

section \<open>bench.cc\<close>

record bench_worker =
  ntxn_commits :: u64
  ntxn_aborts :: u64
  latency_numer_us :: u64
  backoff_shifts :: nat
  size_delta :: int
  txn_counts :: "nat list"

definition new_bench_worker :: "nat \<Rightarrow> bench_worker" where
  "new_bench_worker workload_size =
     \<lparr>ntxn_commits = 0, ntxn_aborts = 0, latency_numer_us = 0, backoff_shifts = 0, size_delta = 0,
      txn_counts = replicate workload_size 0\<rparr>"

text \<open>
  One attempt of a transaction: whether it committed, the change in size it reports, the time it took
  and whether \<open>running\<close> still holds when it has ended.
\<close>

record attempt =
  at_commit :: bool
  at_size :: int
  at_lap :: u64
  at_running :: bool

definition backoff_spins :: "nat \<Rightarrow> u64" where
  "backoff_spins shifts = push_bit shifts 1 * 100"

text \<open>
  From \<open>retry:\<close> to the end of the loop body. The result says whether a response was sent and what the
  last attempt reported; \<open>None\<close> is a transaction that is still being retried.
\<close>

fun bench_txn :: "bool \<Rightarrow> bool \<Rightarrow> attempt list \<Rightarrow> bench_worker \<Rightarrow> (bool \<times> int \<times> bench_worker) option" where
  "bench_txn retry backoff [] w = None"
| "bench_txn retry backoff (a # as) w =
     (if at_commit a
      then Some (True, at_size a,
             w\<lparr>ntxn_commits := ntxn_commits w + 1, latency_numer_us := latency_numer_us w + at_lap a,
               backoff_shifts := backoff_shifts w div 2\<rparr>)
      else (let w1 = w\<lparr>ntxn_aborts := ntxn_aborts w + 1\<rparr>
            in if retry \<and> at_running a
               then bench_txn retry backoff as
                      (if backoff then w1\<lparr>backoff_shifts := (if backoff_shifts w1 < 63 then backoff_shifts w1 + 1 else backoff_shifts w1)\<rparr>
                       else w1)
               else Some (False, at_size a, w1)))"

definition bench_request :: "bool \<Rightarrow> bool \<Rightarrow> nat \<Rightarrow> attempt list \<Rightarrow> bench_worker \<Rightarrow> (bool \<times> bench_worker) res option" where
  "bench_request retry backoff ty as w =
     (if ty < length (txn_counts w)
      then map_option (\<lambda>(sent, sz, w'). Inr (sent, w'\<lparr>size_delta := size_delta w' + sz,
             txn_counts := (txn_counts w')[ty := txn_counts w' ! ty + 1]\<rparr>)) (bench_txn retry backoff as w)
      else Some (Inl (Undefined ''workload[req->type]'')))"

text \<open>
  The loop over requests, each with its type, the attempts at it and the value of \<open>running\<close> at the
  loop's test; \<open>by_ops\<close> is the run mode that stops after \<open>ops_per_worker\<close> commits.
\<close>

fun bench_run ::
    "bool \<Rightarrow> bool \<Rightarrow> bool \<Rightarrow> u64 \<Rightarrow> (bool \<times> nat \<times> attempt list) list \<Rightarrow> bench_worker \<Rightarrow> (bool list \<times> bench_worker) res option" where
  "bench_run retry backoff by_ops ops [] w = Some (Inr ([], w))"
| "bench_run retry backoff by_ops ops ((running, ty, as) # rs) w =
     (if running \<and> (\<not> by_ops \<or> ntxn_commits w < ops)
      then case bench_request retry backoff ty as w of
             None \<Rightarrow> None
           | Some (Inl e) \<Rightarrow> Some (Inl e)
           | Some (Inr (sent, w')) \<Rightarrow>
               map_option (\<lambda>r. bind_res r (\<lambda>(sents, w''). Inr (sent # sents, w''))) (bench_run retry backoff by_ops ops rs w')
      else Some (Inr ([], w)))"

section \<open>Lemmas\<close>

lemma silo_pick_range: "fs \<noteq> [] \<Longrightarrow> \<exists>i. silo_pick d fs k = Inr i \<and> k \<le> i \<and> i < k + length fs"
proof (induction fs arbitrary: d k)
  case (Cons f fs)
  show ?case
  proof (cases "fs = [] \<or> less_double d f")
    case False
    then show ?thesis using Cons.IH [of "add_double d (neg_double f)" "k + 1"] by auto
  qed auto
qed simp

text \<open>Which type is drawn, for a draw in the unit interval compared with the sums of the mix.\<close>

lemma silo_pick_first: "less_double d f \<Longrightarrow> silo_pick d (f # fs) i = Inr i"
  by simp

definition silo_valid :: "silo_client \<Rightarrow> bool" where
  "silo_valid c \<longleftrightarrow> length (sc_workload c) = 5"

lemma new_silo_client_valid: "silo_valid new_silo_client"
  by (simp add: silo_valid_def new_silo_client_def g_txn_workload_mix_def)

lemma silo_getReq_ok:
  assumes "silo_valid c"
  shows "\<exists>i c'. silo_getReq c = Inr (i, c') \<and> i < length silo_types \<and> silo_valid c'"
proof -
  obtain d r where n: "next_uniform (sc_randgen c) = (d, r)" by (cases "next_uniform (sc_randgen c)")
  have w: "sc_workload c \<noteq> []" "length (sc_workload c) = 5" using assms by (auto simp: silo_valid_def)
  obtain i where "silo_pick d (sc_workload c) 0 = Inr i" "i < 5" using silo_pick_range [OF w(1), of d 0] w(2) by auto
  then show ?thesis using n w by (simp add: silo_getReq_def silo_types_def silo_valid_def)
qed

interpretation silo_src: request_source silo_genReq silo_valid "\<lambda>_ _. True"
proof
  fix c :: silo_client and u :: unit
  assume "silo_valid c"
  then obtain i c' where "silo_getReq c = Inr (i, c')" "silo_valid c'" using silo_getReq_ok by blast
  moreover have "le_bytes 4 (of_nat i :: u32) \<noteq> []" by (metis length_le_bytes length_0_conv zero_neq_numeral)
  ultimately show "\<exists>d s'. silo_genReq u c = Inr (d, s') \<and> silo_valid s' \<and> d \<noteq> [] \<and> int (length d) \<le> MAX_REQ_BYTES"
    by (simp add: silo_genReq_def MAX_REQ_BYTES_def)
qed

text \<open>The back-off shift stays below the width of the word that is shifted.\<close>

lemma bench_txn_backoff:
  "bench_txn retry backoff as w = Some (sent, sz, w') \<Longrightarrow> backoff_shifts w \<le> 63 \<Longrightarrow> backoff_shifts w' \<le> 63"
  by (induction as arbitrary: w) (auto simp: Let_def split: if_splits)

text \<open>
  With retries, a transaction that aborts \<open>k\<close> times and then commits is answered once; without them
  the first abort ends the request and nothing is sent.
\<close>

lemma bench_txn_retries:
  assumes "\<forall>a \<in> set as. \<not> at_commit a \<and> at_running a" "at_commit c"
  shows "\<exists>w'. bench_txn True backoff (as @ c # bs) w = Some (True, at_size c, w') \<and>
    ntxn_commits w' = ntxn_commits w + 1 \<and> ntxn_aborts w' = ntxn_aborts w + of_nat (length as)"
  using assms(1)
proof (induction as arbitrary: w)
  case Nil
  then show ?case using assms(2) by simp
next
  case (Cons a as)
  let ?w1 = "w\<lparr>ntxn_aborts := ntxn_aborts w + 1\<rparr>"
  let ?w2 = "if backoff then ?w1\<lparr>backoff_shifts := (if backoff_shifts ?w1 < 63 then backoff_shifts ?w1 + 1 else backoff_shifts ?w1)\<rparr> else ?w1"
  have "bench_txn True backoff ((a # as) @ c # bs) w = bench_txn True backoff (as @ c # bs) ?w2"
    using Cons.prems by (simp add: Let_def)
  moreover have "ntxn_commits ?w2 = ntxn_commits w" "ntxn_aborts ?w2 = ntxn_aborts w + 1" by simp_all
  ultimately show ?case using Cons.IH [of ?w2] Cons.prems by (auto simp: algebra_simps)
qed

lemma bench_txn_no_retry:
  "\<not> at_commit a \<Longrightarrow> \<exists>w'. bench_txn False backoff (a # as) w = Some (False, at_size a, w')"
  by (simp add: Let_def)

end
