(* ===== verification/Masstree_Permuter.thy ===== *)
theory Masstree_Permuter
  imports Prelude "HOL-Library.Multiset"
begin

unbundle bit_operations_syntax

text \<open>
  The permutation word of a Masstree leaf, class \<open>kpermuter\<close> of \<^verbatim>\<open>src/masstree/kpermuter.hh\<close>, in its
  64-bit form (\<open>sized_kpermuter_info<2>\<close>, widths 8 to 15): the low four bits hold the number of keys,
  each following group of four bits the slot of the next key in key order, then the free slots. The
  operations are the shift-and-mask expressions of the code; each is shown to be an operation on the
  list of slots, so that the word stays a permutation of the slots.
\<close>

section \<open>Definitions\<close>

definition initial_value :: u64 where
  "initial_value = 0x0123456789ABCDE0"

definition full_value :: u64 where
  "full_value = 0xEDCBA98765432100"

definition max_width :: nat where
  "max_width = 15"

definition make_empty :: "nat \<Rightarrow> u64" where
  "make_empty width = drop_bit ((max_width - width) * 4) initial_value AND NOT 15"

definition make_sorted :: "nat \<Rightarrow> nat \<Rightarrow> u64" where
  "make_sorted width n =
     (let m = (if n = width then 0 else push_bit (n * 4) 16) - 1
      in push_bit (n * 4) (make_empty width) OR (full_value AND m) OR of_nat n)"

definition kp_size :: "u64 \<Rightarrow> nat" where
  "kp_size x = unat (x AND 15)"

definition kp_nth :: "u64 \<Rightarrow> nat \<Rightarrow> u64" where
  "kp_nth x i = drop_bit (i * 4 + 4) x AND 15"

definition kp_back :: "nat \<Rightarrow> u64 \<Rightarrow> u64" where
  "kp_back width x = kp_nth x (width - 1)"

definition value_from :: "u64 \<Rightarrow> nat \<Rightarrow> u64" where
  "value_from x i = drop_bit ((i + 1) * 4) x"

definition set_size :: "nat \<Rightarrow> u64 \<Rightarrow> u64" where
  "set_size n x = (x AND NOT 15) OR of_nat n"

definition insert_from_back :: "nat \<Rightarrow> nat \<Rightarrow> u64 \<Rightarrow> u64 \<times> u64" where
  "insert_from_back width i x =
     (let v = kp_back width x
      in (v, ((x + 1) AND (push_bit (i * 4) 16 - 1))
             OR push_bit (i * 4 + 4) v
             OR (push_bit 4 x AND NOT (push_bit (i * 4) 256 - 1))))"

definition insert_selected :: "nat \<Rightarrow> nat \<Rightarrow> u64 \<Rightarrow> u64" where
  "insert_selected di si x =
     (let v = kp_nth x si; m = push_bit (si * 4) 256 - 1
      in ((x + 1) AND (push_bit (di * 4) 16 - 1))
         OR push_bit (di * 4 + 4) v
         OR (push_bit 4 x AND m AND NOT (push_bit (di * 4) 256 - 1))
         OR (x AND NOT m))"

definition kp_remove :: "nat \<Rightarrow> u64 \<Rightarrow> u64" where
  "kp_remove i x =
     (if kp_size x = i + 1 then x - 1
      else (let rot_amount = (kp_size x - i - 1) * 4;
                rot_mask = push_bit ((i + 1) * 4) (push_bit rot_amount 16 - 1)
            in ((x - 1) AND NOT rot_mask)
               OR (drop_bit 4 (x AND rot_mask) AND rot_mask)
               OR (push_bit rot_amount (x AND rot_mask) AND rot_mask)))"

definition remove_to_back :: "nat \<Rightarrow> nat \<Rightarrow> u64 \<Rightarrow> u64" where
  "remove_to_back width i x0 =
     (let m = NOT (push_bit (i * 4) 16 - 1); x = x0 AND (push_bit (width * 4) 16 - 1)
      in ((x - 1) AND NOT m)
         OR (drop_bit 4 x AND m)
         OR push_bit ((width - i - 1) * 4) (x AND m))"

definition kp_rotate :: "nat \<Rightarrow> nat \<Rightarrow> nat \<Rightarrow> u64 \<Rightarrow> u64" where
  "kp_rotate width i j x0 =
     (let m = (if i = width then 0 else push_bit (i * 4) 16) - 1;
          x = x0 AND (push_bit (width * 4) 16 - 1)
      in (x AND m) OR (drop_bit ((j - i) * 4) x AND NOT m)
         OR push_bit ((width - j) * 4) (x AND NOT m))"

definition exchange :: "nat \<Rightarrow> nat \<Rightarrow> u64 \<Rightarrow> u64" where
  "exchange i j x =
     (let diff = (drop_bit (i * 4) x XOR drop_bit (j * 4) x) AND 240
      in x XOR (push_bit (i * 4) diff OR push_bit (j * 4) diff))"

fun exchange_diff :: "nat \<Rightarrow> nat \<Rightarrow> u64 \<Rightarrow> u64 \<Rightarrow> u64 \<Rightarrow> u64 \<Rightarrow> u64" where
  "exchange_diff width 0 x y diff p = diff"
| "exchange_diff width (Suc k) x y diff p =
     (let v = drop_bit (width * 4) p AND 15;
          d = diff XOR (if v = x \<or> v = y then x XOR y else 0)
      in exchange_diff width k x y (push_bit 4 d) (push_bit 4 p))"

definition exchange_values :: "nat \<Rightarrow> u64 \<Rightarrow> u64 \<Rightarrow> u64 \<Rightarrow> u64" where
  "exchange_values width x y x0 = x0 XOR exchange_diff width width x y 0 x0"

text \<open>The slots of a permuter in order.\<close>

definition slots :: "nat \<Rightarrow> u64 \<Rightarrow> u64 list" where
  "slots width x = map (kp_nth x) [0 ..< width]"

section \<open>Bits\<close>

lemma mask_16: "push_bit k (16 :: u64) - 1 = mask (k + 4)"
proof -
  have "push_bit k (16 :: u64) = 2 ^ (k + 4)" by (simp add: push_bit_eq_mult power_add)
  then show ?thesis by (simp add: mask_eq_exp_minus_1)
qed

lemma mask_256: "push_bit k (256 :: u64) - 1 = mask (k + 8)"
proof -
  have "push_bit k (256 :: u64) = 2 ^ (k + 8)" by (simp add: push_bit_eq_mult power_add)
  then show ?thesis by (simp add: mask_eq_exp_minus_1)
qed

lemma mask_15: "(15 :: u64) = mask 4"
  by (simp add: mask_eq_exp_minus_1)

lemma bit_kp_nth [bit_simps]: "bit (kp_nth x i) n \<longleftrightarrow> n < 4 \<and> bit x (i * 4 + 4 + n)"
  by (auto simp: kp_nth_def mask_15 bit_simps)

lemma kp_nth_eqI:
  assumes "\<And>n. n < 4 \<Longrightarrow> bit x (i * 4 + 4 + n) = bit y (j * 4 + 4 + n)"
  shows "kp_nth x i = kp_nth y j"
  by (rule bit_word_eqI) (auto simp: bit_kp_nth assms)

text \<open>The size field is incremented and decremented without a carry into the slots.\<close>

lemma low_high: "x = (x AND NOT 15) OR (x AND 15 :: u64)"
  by (rule bit_word_eqI) (auto simp: bit_simps)

lemma split_low:
  fixes x :: u64
  shows "x = push_bit 4 (drop_bit 4 x) + (x AND 15)"
proof -
  have "push_bit 4 (drop_bit 4 x) + (x AND 15) = push_bit 4 (drop_bit 4 x) OR (x AND 15)"
    by (rule disjunctive_add) (auto simp: bit_simps mask_15)
  also have "\<dots> = x" by (rule bit_word_eqI) (auto simp: bit_simps mask_15)
  finally show ?thesis by simp
qed

lemma kp_size_word: "x AND 15 = of_nat (kp_size x)"
  by (simp add: kp_size_def)

lemma low_nibble_of_nat: "n < 16 \<Longrightarrow> (of_nat n :: u64) AND 15 = of_nat n"
  by (simp add: mask_15 flip: take_bit_eq_mask) (simp add: take_bit_of_nat take_bit_nat_eq_self)

lemma high_plus_low:
  assumes "n < 16"
  shows "push_bit 4 y + of_nat n AND 15 = (of_nat n :: u64)" "drop_bit 4 (push_bit 4 y + of_nat n :: u64) = drop_bit 4 (push_bit 4 y)"
proof -
  have "take_bit 4 n = n" using assms by (simp add: take_bit_nat_eq_self)
  then have lo: "bit n k \<Longrightarrow> k < 4" for k by (metis bit_take_bit_iff)
  have s: "push_bit 4 y + of_nat n = push_bit 4 y OR (of_nat n :: u64)"
    by (rule disjunctive_add) (auto simp: bit_simps dest: lo)
  show "push_bit 4 y + of_nat n AND 15 = (of_nat n :: u64)" unfolding s
    by (rule bit_word_eqI) (auto simp: bit_simps mask_15 dest: lo)
  show "drop_bit 4 (push_bit 4 y + of_nat n :: u64) = drop_bit 4 (push_bit 4 y)" unfolding s
    by (rule bit_word_eqI) (auto simp: bit_simps dest: lo)
qed

lemma kp_size_less: "kp_size x < 16"
proof -
  have "x AND 15 \<le> 15" by (rule word_and_le1)
  then have "unat (x AND 15) \<le> unat (15 :: u64)" by (simp only: word_le_nat_alt)
  then show ?thesis by (simp add: kp_size_def)
qed

lemma size_change:
  assumes "y = push_bit 4 (drop_bit 4 x) + of_nat n" "n < 16"
  shows "kp_size y = n" "4 \<le> k \<Longrightarrow> bit y k = bit (x :: u64) k"
proof -
  note h = high_plus_low [OF assms(2), of "drop_bit 4 x", folded assms(1)]
  show "kp_size y = n" using h(1) assms(2) by (simp add: kp_size_def unat_of_nat)
  have e: "drop_bit 4 y = drop_bit 4 x"
    unfolding h(2) by (rule bit_word_eqI) (auto simp: bit_simps dest: bit_imp_le_length)
  assume "4 \<le> k"
  then have "bit (drop_bit 4 y) (k - 4) = bit y k" "bit (drop_bit 4 x) (k - 4) = bit x k"
    by (simp_all add: bit_simps)
  with e show "bit y k = bit x k" by simp
qed

lemma size_inc:
  assumes "kp_size x < 15"
  shows "kp_size (x + 1) = kp_size x + 1" "4 \<le> k \<Longrightarrow> bit (x + 1) k = bit x k"
proof -
  have "x + 1 = push_bit 4 (drop_bit 4 x) + of_nat (kp_size x + 1)"
    by (subst split_low [of x]) (simp add: kp_size_word)
  note c = size_change [OF this]
  show "kp_size (x + 1) = kp_size x + 1" "4 \<le> k \<Longrightarrow> bit (x + 1) k = bit x k"
    using c assms by simp_all
qed

lemma size_dec:
  assumes "0 < kp_size x"
  shows "kp_size (x - 1) = kp_size x - 1" "4 \<le> k \<Longrightarrow> bit (x - 1) k = bit x k"
proof -
  have "of_nat (kp_size x) - 1 = (of_nat (kp_size x - 1) :: u64)" using assms by (simp add: of_nat_diff)
  then have "x - 1 = push_bit 4 (drop_bit 4 x) + of_nat (kp_size x - 1)"
    by (subst split_low [of x]) (simp add: kp_size_word add_diff_eq [symmetric])
  note c = size_change [OF this]
  show "kp_size (x - 1) = kp_size x - 1" "4 \<le> k \<Longrightarrow> bit (x - 1) k = bit x k"
    using c kp_size_less [of x] by simp_all
qed

lemma kp_size_eqI:
  assumes "\<And>k. k < 4 \<Longrightarrow> bit x k = bit y k"
  shows "kp_size x = kp_size y"
proof -
  have "x AND 15 = y AND 15" by (rule bit_word_eqI) (use assms in \<open>auto simp: mask_15 bit_simps\<close>)
  then show ?thesis by (simp add: kp_size_def)
qed

section \<open>The operations slot by slot\<close>

lemma insert_from_back_spec:
  assumes "kp_size x < 15" "i < width" "width \<le> 15" "insert_from_back width i x = (v, q)"
  shows "v = kp_nth x (width - 1)" "kp_size q = kp_size x + 1"
    "j < width \<Longrightarrow> kp_nth q j = (if j < i then kp_nth x j else if j = i then v else kp_nth x (j - 1))"
proof -
  show v: "v = kp_nth x (width - 1)" using assms(4) by (simp add: insert_from_back_def kp_back_def Let_def)
  have q: "q = ((x + 1) AND mask (i * 4 + 4)) OR push_bit (i * 4 + 4) v OR (push_bit 4 x AND NOT (mask (i * 4 + 8)))"
    using assms(4) by (auto simp: insert_from_back_def Let_def mask_16 mask_256)
  have bq: "bit q n \<longleftrightarrow> (if n < i * 4 + 4 then bit (x + 1) n else if n < i * 4 + 8 then bit v (n - (i * 4 + 4))
      else bit x (n - 4))" if "n < 64" for n
    using that assms(2,3) by (auto simp: q bit_simps v)
  show "kp_size q = kp_size x + 1"
    unfolding size_inc(1) [OF assms(1), symmetric] by (rule kp_size_eqI) (simp add: bq)
  assume j: "j < width"
  consider "j < i" | "j = i" | "i < j" by linarith
  then show "kp_nth q j = (if j < i then kp_nth x j else if j = i then v else kp_nth x (j - 1))"
  proof cases
    case 1
    have "kp_nth q j = kp_nth x j"
      by (rule kp_nth_eqI) (use 1 j assms(3) size_inc(2) [OF assms(1)] in \<open>auto simp: bq\<close>)
    with 1 show ?thesis by simp
  next
    case 2
    have "kp_nth q j = v"
      by (rule bit_word_eqI) (use 2 j assms(3) in \<open>auto simp: bit_kp_nth bq v\<close>)
    with 2 show ?thesis by simp
  next
    case 3
    have "kp_nth q j = kp_nth x (j - 1)"
      by (rule kp_nth_eqI) (use 3 j assms(3) in \<open>auto simp: bq algebra_simps\<close>)
    with 3 show ?thesis by simp
  qed
qed

lemma insert_selected_spec:
  assumes "kp_size x < 15" "di \<le> si" "si < width" "width \<le> 15"
  shows "kp_size (insert_selected di si x) = kp_size x + 1"
    "j < width \<Longrightarrow> kp_nth (insert_selected di si x) j =
      (if j < di then kp_nth x j else if j = di then kp_nth x si else if j \<le> si then kp_nth x (j - 1) else kp_nth x j)"
proof -
  let ?q = "insert_selected di si x"
  have bq: "bit ?q n \<longleftrightarrow> (if n < di * 4 + 4 then bit (x + 1) n else if n < di * 4 + 8 then bit (kp_nth x si) (n - (di * 4 + 4))
      else if n < si * 4 + 8 then bit x (n - 4) else bit x n)" if "n < 64" for n
    using that assms(2-) by (auto simp: insert_selected_def Let_def mask_16 mask_256 bit_simps)
  show "kp_size ?q = kp_size x + 1"
    unfolding size_inc(1) [OF assms(1), symmetric] by (rule kp_size_eqI) (simp add: bq)
  assume j: "j < width"
  consider "j < di" | "j = di" | "di < j" "j \<le> si" | "si < j" by linarith
  then show "kp_nth ?q j =
      (if j < di then kp_nth x j else if j = di then kp_nth x si else if j \<le> si then kp_nth x (j - 1) else kp_nth x j)"
  proof cases
    case 1
    have "kp_nth ?q j = kp_nth x j"
      by (rule kp_nth_eqI) (use 1 j assms size_inc(2) [OF assms(1)] in \<open>auto simp: bq\<close>)
    with 1 show ?thesis by simp
  next
    case 2
    have "kp_nth ?q j = kp_nth x si"
      by (rule bit_word_eqI) (use 2 j assms in \<open>auto simp: bit_kp_nth bq\<close>)
    with 2 show ?thesis by simp
  next
    case 3
    have "kp_nth ?q j = kp_nth x (j - 1)"
      by (rule kp_nth_eqI) (use 3 j assms in \<open>auto simp: bq algebra_simps\<close>)
    with 3 show ?thesis by simp
  next
    case 4
    have "kp_nth ?q j = kp_nth x j"
      by (rule kp_nth_eqI) (use 4 j assms in \<open>auto simp: bq\<close>)
    with 4 assms(2) show ?thesis by simp
  qed
qed

lemma kp_remove_spec:
  assumes "i < kp_size x" "kp_size x \<le> width" "width \<le> 15"
  shows "kp_size (kp_remove i x) = kp_size x - 1"
    "j < width \<Longrightarrow> kp_nth (kp_remove i x) j =
      (if i \<le> j \<and> j + 1 < kp_size x then kp_nth x (j + 1) else if j + 1 = kp_size x then kp_nth x i else kp_nth x j)"
proof -
  let ?s = "kp_size x" and ?q = "kp_remove i x"
  have pos: "0 < ?s" using assms(1) by simp
  note dec = size_dec(2) [OF pos]
  have "kp_size ?q = ?s - 1 \<and> (j < width \<longrightarrow> kp_nth ?q j =
      (if i \<le> j \<and> j + 1 < ?s then kp_nth x (j + 1) else if j + 1 = ?s then kp_nth x i else kp_nth x j))"
  proof (cases "?s = i + 1")
    case True
    have "kp_nth (x - 1) j = kp_nth x j" by (rule kp_nth_eqI) (simp add: dec)
    with True size_dec(1) [OF pos] show ?thesis by (auto simp: kp_remove_def)
  next
    case False
    then have lt: "i + 1 < ?s" using assms(1) by linarith
    define rot where "rot = (?s - i - 1) * 4"
    have rot: "(i + 1) * 4 + rot + 4 = ?s * 4 + 4" using lt by (simp add: rot_def algebra_simps)
    have bq: "bit ?q n \<longleftrightarrow> (if n < (i + 1) * 4 \<or> ?s * 4 + 4 \<le> n then bit (x - 1) n
        else if n + 4 < ?s * 4 + 4 then bit x (n + 4) else bit x (n - rot))" if "n < 64" for n
    proof -
      define M :: u64 where "M = push_bit ((i + 1) * 4) (mask (rot + 4))"
      have q: "?q = ((x - 1) AND NOT M) OR (drop_bit 4 (x AND M) AND M) OR (push_bit rot (x AND M) AND M)"
        using False unfolding kp_remove_def Let_def rot_def [symmetric] mask_16 M_def by simp
      have bM: "bit M k \<longleftrightarrow> (i + 1) * 4 \<le> k \<and> k < ?s * 4 + 4" for k
        using rot assms(2,3) by (auto simp: M_def bit_simps)
      have "4 \<le> rot" using lt by (simp add: rot_def)
      then show ?thesis using that rot lt
        by (simp add: q bit_simps bM) (auto simp: bit_simps bM add.commute dest: bit_imp_le_length)
    qed
    have "kp_size ?q = kp_size (x - 1)" by (rule kp_size_eqI) (simp add: bq)
    moreover have "kp_nth ?q j = (if i \<le> j \<and> j + 1 < ?s then kp_nth x (j + 1) else if j + 1 = ?s then kp_nth x i else kp_nth x j)"
      if j: "j < width"
    proof -
      consider "j < i \<or> ?s \<le> j" | "i \<le> j" "j + 1 < ?s" | "j + 1 = ?s" by linarith
      then show ?thesis
      proof cases
        case 1
        have "kp_nth ?q j = kp_nth x j"
          by (rule kp_nth_eqI) (use 1 j assms(3) dec in \<open>auto simp: bq\<close>)
        with 1 lt show ?thesis by auto
      next
        case 2
        have "kp_nth ?q j = kp_nth x (j + 1)"
          by (rule kp_nth_eqI) (use 2 j assms(3) in \<open>auto simp: bq algebra_simps\<close>)
        with 2 show ?thesis by simp
      next
        case 3
        have "kp_nth ?q j = kp_nth x i"
        proof (rule kp_nth_eqI)
          fix n :: nat assume n: "n < 4"
          have "j * 4 + 4 = i * 4 + 4 + rot" using rot 3 by simp
          then have "j * 4 + 4 + n - rot = i * 4 + 4 + n" by simp
          then show "bit ?q (j * 4 + 4 + n) = bit x (i * 4 + 4 + n)" using 3 n j assms(3) lt by (auto simp: bq)
        qed
        with 3 show ?thesis by simp
      qed
    qed
    ultimately show ?thesis using size_dec(1) [OF pos] by simp
  qed
  then show "kp_size ?q = ?s - 1" "j < width \<Longrightarrow> kp_nth ?q j =
      (if i \<le> j \<and> j + 1 < ?s then kp_nth x (j + 1) else if j + 1 = ?s then kp_nth x i else kp_nth x j)" by blast+
qed

lemma clear_unused:
  assumes "width \<le> 15" "x = x0 AND (push_bit (width * 4) 16 - 1)"
  shows "kp_size x = kp_size x0" "j < width \<Longrightarrow> kp_nth x j = kp_nth x0 j" "width * 4 + 4 \<le> n \<Longrightarrow> \<not> bit x n"
proof -
  have b: "bit x n \<longleftrightarrow> n < width * 4 + 4 \<and> bit x0 n" for n
    using assms by (auto simp: mask_16 bit_simps dest: bit_imp_le_length)
  show "kp_size x = kp_size x0" by (rule kp_size_eqI) (simp add: b)
  show "j < width \<Longrightarrow> kp_nth x j = kp_nth x0 j" by (rule kp_nth_eqI) (auto simp: b)
  show "width * 4 + 4 \<le> n \<Longrightarrow> \<not> bit x n" by (simp add: b)
qed

lemma remove_to_back_spec:
  assumes "i < width" "width \<le> 15" "0 < kp_size x0"
  shows "kp_size (remove_to_back width i x0) = kp_size x0 - 1"
    "j < width \<Longrightarrow> kp_nth (remove_to_back width i x0) j =
      (if j < i then kp_nth x0 j else if j + 1 < width then kp_nth x0 (j + 1) else kp_nth x0 i)"
proof -
  let ?q = "remove_to_back width i x0"
  define x where "x = x0 AND (push_bit (width * 4) 16 - 1)"
  note cl = clear_unused [OF assms(2) x_def]
  have pos: "0 < kp_size x" using assms(3) cl(1) by simp
  note dec = size_dec(2) [OF pos]
  define sh where "sh = (width - i - 1) * 4"
  have sh: "i * 4 + 4 + sh = width * 4" using assms(1) by (simp add: sh_def algebra_simps)
  have bq: "bit ?q n \<longleftrightarrow> (if n < i * 4 + 4 then bit (x - 1) n else if n < width * 4 then bit x (n + 4) else bit x (n - sh))"
    if "n < width * 4 + 4" for n
  proof -
    have q: "?q = ((x - 1) AND mask (i * 4 + 4)) OR (drop_bit 4 x AND NOT (mask (i * 4 + 4)))
        OR push_bit sh (x AND NOT (mask (i * 4 + 4)))"
      unfolding remove_to_back_def Let_def unfolding x_def [symmetric] sh_def [symmetric] unfolding mask_16 by simp
    show ?thesis using that assms(1,2) sh cl(3) [of "n + 4"]
      by (simp add: q bit_simps) (auto simp: add.commute dest: bit_imp_le_length)
  qed
  show "kp_size ?q = kp_size x0 - 1"
    unfolding cl(1) [symmetric] size_dec(1) [OF pos, symmetric] by (rule kp_size_eqI) (simp add: bq)
  assume j: "j < width"
  consider "j < i" | "i \<le> j" "j + 1 < width" | "i \<le> j" "j + 1 = width" using j by linarith
  then show "kp_nth ?q j = (if j < i then kp_nth x0 j else if j + 1 < width then kp_nth x0 (j + 1) else kp_nth x0 i)"
  proof cases
    case 1
    have "kp_nth ?q j = kp_nth x j" by (rule kp_nth_eqI) (use 1 j dec in \<open>auto simp: bq\<close>)
    with 1 j cl(2) show ?thesis by simp
  next
    case 2
    have "kp_nth ?q j = kp_nth x (j + 1)" by (rule kp_nth_eqI) (use 2 in \<open>auto simp: bq algebra_simps\<close>)
    with 2 cl(2) show ?thesis by simp
  next
    case 3
    have "kp_nth ?q j = kp_nth x i"
    proof (rule kp_nth_eqI)
      fix n :: nat assume n: "n < 4"
      have "j * 4 + 4 + n - sh = i * 4 + 4 + n" using sh 3 by linarith
      then show "bit ?q (j * 4 + 4 + n) = bit x (i * 4 + 4 + n)" using 3 n sh by (auto simp: bq)
    qed
    with 3 assms(1) cl(2) show ?thesis by simp
  qed
qed

lemma kp_rotate_spec:
  assumes "i \<le> j" "j \<le> width" "i < width" "width \<le> 15" "k < width"
  shows "kp_size (kp_rotate width i j x0) = kp_size x0"
    "kp_nth (kp_rotate width i j x0) k =
      (if k < i then kp_nth x0 k else if k + (j - i) < width then kp_nth x0 (k + (j - i))
       else kp_nth x0 (k - (width - j)))"
proof -
  let ?q = "kp_rotate width i j x0"
  define x where "x = x0 AND (push_bit (width * 4) 16 - 1)"
  note cl = clear_unused [OF assms(4) x_def]
  define r where "r = (j - i) * 4"
  define sh where "sh = (width - j) * 4"
  have q: "?q = (x AND mask (i * 4 + 4)) OR (drop_bit r x AND NOT (mask (i * 4 + 4)))
      OR push_bit sh (x AND NOT (mask (i * 4 + 4)))"
    using assms(3) unfolding kp_rotate_def Let_def unfolding x_def [symmetric] r_def [symmetric] sh_def [symmetric]
    unfolding mask_16 by (simp add: mask_16)
  have sums: "i * 4 + r = j * 4" "j * 4 + sh = width * 4"
    using assms(1,2) by (simp_all add: r_def sh_def algebra_simps)
  have bq: "bit ?q n \<longleftrightarrow> (if n < i * 4 + 4 then bit x n else if n + r < width * 4 + 4 then bit x (n + r) else bit x (n - sh))"
    if "n < width * 4 + 4" for n
    using that assms sums cl(3) [of "n + r"]
    by (simp add: q bit_simps) (auto simp: add.commute dest: bit_imp_le_length)
  show "kp_size ?q = kp_size x0" unfolding cl(1) [symmetric] by (rule kp_size_eqI) (simp add: bq)
  consider "k < i" | "i \<le> k" "k + (j - i) < width" | "i \<le> k" "width \<le> k + (j - i)" by linarith
  then show "kp_nth ?q k = (if k < i then kp_nth x0 k else if k + (j - i) < width then kp_nth x0 (k + (j - i))
       else kp_nth x0 (k - (width - j)))"
  proof cases
    case 1
    have "kp_nth ?q k = kp_nth x k" by (rule kp_nth_eqI) (use 1 assms in \<open>auto simp: bq\<close>)
    with 1 assms cl(2) show ?thesis by simp
  next
    case 2
    have "kp_nth ?q k = kp_nth x (k + (j - i))"
    proof (rule kp_nth_eqI)
      fix n :: nat assume n: "n < 4"
      have e: "k * 4 + 4 + n + r = (k + (j - i)) * 4 + 4 + n" by (simp add: r_def)
      have "k * 4 + 4 + n + r < width * 4 + 4" using 2(2) n by (simp add: r_def)
      then show "bit ?q (k * 4 + 4 + n) = bit x ((k + (j - i)) * 4 + 4 + n)"
        unfolding e [symmetric] using 2 n bq [of "k * 4 + 4 + n"] by simp
    qed
    with 2 cl(2) show ?thesis by simp
  next
    case 3
    have "kp_nth ?q k = kp_nth x (k - (width - j))"
    proof (rule kp_nth_eqI)
      fix n :: nat assume n: "n < 4"
      have "k * 4 + 4 + n - sh = (k - (width - j)) * 4 + 4 + n" using 3 assms by (simp add: sh_def diff_mult_distrib)
      moreover have "\<not> k * 4 + 4 + n + r < width * 4 + 4" using 3(2) by (simp add: r_def)
      ultimately show "bit ?q (k * 4 + 4 + n) = bit x ((k - (width - j)) * 4 + 4 + n)"
        using 3 n assms(5) by (simp add: bq)
    qed
    with 3 assms cl(2) show ?thesis by simp
  qed
qed

lemma exchange_spec:
  assumes "i < width" "j < width" "width \<le> 15"
  shows "kp_size (exchange i j x) = kp_size x"
    "k < width \<Longrightarrow> kp_nth (exchange i j x) k = (if k = i then kp_nth x j else if k = j then kp_nth x i else kp_nth x k)"
proof -
  let ?q = "exchange i j x"
  have m: "(240 :: u64) = push_bit 4 (mask 4)" by (simp add: mask_eq_exp_minus_1 push_bit_eq_mult)
  have bq: "bit ?q n \<longleftrightarrow> bit x n \<noteq> (i * 4 + 4 \<le> n \<and> n < i * 4 + 8 \<and> (bit x n \<noteq> bit x (n - i * 4 + j * 4)) \<or>
      j * 4 + 4 \<le> n \<and> n < j * 4 + 8 \<and> (bit x (n - j * 4 + i * 4) \<noteq> bit x n))" if "n < 64" for n
    using that assms by (auto simp: exchange_def Let_def m bit_simps add.commute)
  show "kp_size ?q = kp_size x" by (rule kp_size_eqI) (simp add: bq)
  assume k: "k < width"
  have same: "?q = x" if "i = j" using that by (simp add: exchange_def Let_def)
  consider "i = j" | "i \<noteq> j" "k = i" | "i \<noteq> j" "k \<noteq> i" "k = j" | "k \<noteq> i" "k \<noteq> j" by blast
  then show "kp_nth ?q k = (if k = i then kp_nth x j else if k = j then kp_nth x i else kp_nth x k)"
  proof cases
    case 1
    with same show ?thesis by simp
  next
    case 2
    have "kp_nth ?q k = kp_nth x j"
    proof (rule kp_nth_eqI)
      fix n :: nat assume "n < 4"
      then have "\<not> (j * 4 + 4 \<le> k * 4 + 4 + n \<and> k * 4 + 4 + n < j * 4 + 8)" using 2 by arith
      with \<open>n < 4\<close> show "bit ?q (k * 4 + 4 + n) = bit x (j * 4 + 4 + n)"
        using 2 k assms bq [of "k * 4 + 4 + n"] by (auto simp: ac_simps)
    qed
    with 2 show ?thesis by simp
  next
    case 3
    have "kp_nth ?q k = kp_nth x i"
    proof (rule kp_nth_eqI)
      fix n :: nat assume "n < 4"
      then have "\<not> (i * 4 + 4 \<le> k * 4 + 4 + n \<and> k * 4 + 4 + n < i * 4 + 8)" using 3 by arith
      with \<open>n < 4\<close> show "bit ?q (k * 4 + 4 + n) = bit x (i * 4 + 4 + n)"
        using 3 k assms bq [of "k * 4 + 4 + n"] by (auto simp: ac_simps)
    qed
    with 3 show ?thesis by simp
  next
    case 4
    have "kp_nth ?q k = kp_nth x k"
      by (rule kp_nth_eqI) (use 4 k assms in \<open>auto simp: bq\<close>)
    with 4 show ?thesis by simp
  qed
qed

section \<open>The operations on the list of slots\<close>

lemma length_slots [simp]: "length (slots width x) = width"
  by (simp add: slots_def)

lemma nth_slots [simp]: "j < width \<Longrightarrow> slots width x ! j = kp_nth x j"
  by (simp add: slots_def)

lemma insert_from_back_slots:
  assumes "kp_size x < 15" "i < width" "width \<le> 15" "insert_from_back width i x = (v, q)"
  shows "slots width q = take i (slots width x) @ last (slots width x) # drop i (butlast (slots width x))"
proof (rule nth_equalityI)
  fix j assume "j < length (slots width q)"
  then have j: "j < width" by simp
  have ne: "slots width x \<noteq> []" using assms(2) by (auto simp flip: length_0_conv)
  show "slots width q ! j = (take i (slots width x) @ last (slots width x) # drop i (butlast (slots width x))) ! j"
    using insert_from_back_spec(1,3) [OF assms] j assms(2) ne
    by (auto simp: nth_append nth_Cons' nth_butlast last_conv_nth)
qed (use assms(2) in simp)

lemma kp_remove_slots:
  assumes "i < kp_size x" "kp_size x \<le> width" "width \<le> 15"
  shows "slots width (kp_remove i x) = take i (slots width x) @ drop (Suc i) (take (kp_size x) (slots width x)) @
    slots width x ! i # drop (kp_size x) (slots width x)"
proof (rule nth_equalityI)
  fix j assume "j < length (slots width (kp_remove i x))"
  then have j: "j < width" by simp
  consider "j < i" | "i \<le> j" "j + 1 < kp_size x" | "j + 1 = kp_size x" | "kp_size x \<le> j" by linarith
  then show "slots width (kp_remove i x) ! j = (take i (slots width x) @ drop (Suc i) (take (kp_size x) (slots width x)) @
    slots width x ! i # drop (kp_size x) (slots width x)) ! j"
    using kp_remove_spec(2) [OF assms j] j assms by cases (auto simp: nth_append nth_Cons')
qed (use assms in simp)

lemma remove_to_back_slots:
  assumes "i < width" "width \<le> 15" "0 < kp_size x"
  shows "slots width (remove_to_back width i x) =
    take i (slots width x) @ drop (Suc i) (slots width x) @ [slots width x ! i]"
proof (rule nth_equalityI)
  fix j assume "j < length (slots width (remove_to_back width i x))"
  then have j: "j < width" by simp
  show "slots width (remove_to_back width i x) ! j =
      (take i (slots width x) @ drop (Suc i) (slots width x) @ [slots width x ! i]) ! j"
    using remove_to_back_spec(2) [OF assms j] j assms by (auto simp: nth_append)
qed (use assms in simp)

lemma exchange_slots:
  assumes "i < width" "j < width" "width \<le> 15"
  shows "slots width (exchange i j x) = (slots width x)[i := slots width x ! j, j := slots width x ! i]"
  by (rule nth_equalityI) (use assms exchange_spec(2) [OF assms] in \<open>auto simp: nth_list_update\<close>)

lemma kp_rotate_slots:
  assumes "i \<le> j" "j \<le> width" "i < width" "width \<le> 15"
  shows "slots width (kp_rotate width i j x) = take i (slots width x) @ rotate (j - i) (drop i (slots width x))"
proof (rule nth_equalityI)
  fix k assume "k < length (slots width (kp_rotate width i j x))"
  then have k: "k < width" by simp
  have m: "(k - i + (j - i)) mod (width - i) = (if k + (j - i) < width then k - i + (j - i) else k - i + (j - i) - (width - i))"
    if "i \<le> k"
  proof (cases "k + (j - i) < width")
    case False
    have "k - i + (j - i) - (width - i) < width - i" using False that k assms by arith
    then show ?thesis using False that k assms by (simp add: le_mod_geq)
  qed (use that in simp)
  show "slots width (kp_rotate width i j x) ! k = (take i (slots width x) @ rotate (j - i) (drop i (slots width x))) ! k"
    using kp_rotate_spec(2) [OF assms k] k assms m by (auto simp: nth_append nth_rotate add.commute)
qed (use assms in simp)

section \<open>The invariant\<close>

text \<open>A permuter of a given width: at most that many keys, and every slot named exactly once.\<close>

definition permuter_ok :: "nat \<Rightarrow> u64 \<Rightarrow> bool" where
  "permuter_ok width x \<longleftrightarrow> kp_size x \<le> width \<and> width \<le> 15 \<and>
     mset (slots width x) = mset (map of_nat [0 ..< width])"

lemma mset_insert_back:
  assumes "xs \<noteq> []" "i < length xs"
  shows "mset (take i xs @ last xs # drop i (butlast xs)) = mset xs"
proof -
  have "mset (take i xs @ drop i (butlast xs)) = mset (butlast xs)"
  proof -
    have "take i xs = take i (butlast xs)" using assms by (simp add: take_butlast)
    then show ?thesis by (metis append_take_drop_id mset_append)
  qed
  moreover have "mset xs = add_mset (last xs) (mset (butlast xs))"
    using assms(1) by (metis append_butlast_last_id mset.simps mset_append add_mset_add_single)
  ultimately show ?thesis by simp
qed

lemma mset_rotate: "mset (rotate n xs) = mset xs"
  by (metis append_take_drop_id mset_append rotate_drop_take union_commute)

lemma mset_remove_at:
  assumes "i < n" "n \<le> length xs"
  shows "mset (take i xs @ drop (Suc i) (take n xs) @ xs ! i # drop n xs) = mset xs"
proof -
  have "take n xs = take i xs @ xs ! i # drop (Suc i) (take n xs)"
    using id_take_nth_drop [of i "take n xs"] assms by (simp add: min_def)
  then have "mset (take n xs) = mset (take i xs) + add_mset (xs ! i) (mset (drop (Suc i) (take n xs)))"
    by (metis mset.simps(2) mset_append)
  moreover have "mset xs = mset (take n xs) + mset (drop n xs)" by (metis append_take_drop_id mset_append)
  ultimately show ?thesis by simp
qed

lemma set_slots: "permuter_ok width x \<Longrightarrow> distinct (slots width x) \<and> set (slots width x) = of_nat ` {0 ..< width}"
proof -
  assume ok: "permuter_ok width x"
  have "distinct (map of_nat [0 ..< width] :: u64 list)"
    using ok by (auto simp: permuter_ok_def distinct_map inj_on_def unsigned_of_nat
        dest!: arg_cong [where f = unat] simp: take_bit_nat_eq_self)
  moreover have m: "mset (slots width x) = mset (map of_nat [0 ..< width])" using ok by (simp add: permuter_ok_def)
  ultimately show ?thesis using mset_eq_imp_distinct_iff [OF m] mset_eq_setD [OF m] by simp
qed

lemma permuter_ok_insert:
  assumes "permuter_ok width x" "kp_size x < width" "i < width" "insert_from_back width i x = (v, q)"
  shows "permuter_ok width q"
proof -
  have w: "kp_size x < 15" "width \<le> 15" using assms(1,2) by (auto simp: permuter_ok_def)
  have ne: "slots width x \<noteq> []" using assms(3) by (auto simp flip: length_0_conv)
  show ?thesis
    using insert_from_back_slots [OF w(1) assms(3) w(2) assms(4)] insert_from_back_spec(2) [OF w(1) assms(3) w(2) assms(4)]
      mset_insert_back [OF ne, of i] assms by (simp add: permuter_ok_def)
qed

lemma permuter_ok_remove:
  assumes "permuter_ok width x" "i < kp_size x"
  shows "permuter_ok width (kp_remove i x)"
proof -
  have w: "kp_size x \<le> width" "width \<le> 15" using assms(1) by (auto simp: permuter_ok_def)
  show ?thesis
    using kp_remove_slots [OF assms(2) w] kp_remove_spec(1) [OF assms(2) w]
      mset_remove_at [OF assms(2), of "slots width x"] assms w by (simp add: permuter_ok_def)
qed

section \<open>The contract of a slot store\<close>

text \<open>
  What a Masstree leaf needs of its permuter: an ordered list of the slots in use, without
  repetition, into which a free slot can be inserted at a position and from which a position can be
  removed.
\<close>

locale slot_store =
  fixes ok :: "'s \<Rightarrow> bool"
    and cap :: nat
    and used :: "'s \<Rightarrow> 'v list"
    and alloc :: "nat \<Rightarrow> 's \<Rightarrow> 'v \<times> 's"
    and release :: "nat \<Rightarrow> 's \<Rightarrow> 's"
  assumes used_distinct: "ok s \<Longrightarrow> distinct (used s)"
    and alloc_ok: "ok s \<Longrightarrow> length (used s) < cap \<Longrightarrow> i \<le> length (used s) \<Longrightarrow> ok (snd (alloc i s))"
    and alloc_used: "ok s \<Longrightarrow> length (used s) < cap \<Longrightarrow> i \<le> length (used s) \<Longrightarrow>
      used (snd (alloc i s)) = take i (used s) @ fst (alloc i s) # drop i (used s)"
    and release_ok: "ok s \<Longrightarrow> i < length (used s) \<Longrightarrow> ok (release i s)"
    and release_used: "ok s \<Longrightarrow> i < length (used s) \<Longrightarrow>
      used (release i s) = take i (used s) @ drop (Suc i) (used s)"
begin

lemma alloc_fresh:
  assumes "ok s" "length (used s) < cap" "i \<le> length (used s)"
  shows "fst (alloc i s) \<notin> set (used s)"
proof -
  have "distinct (take i (used s) @ fst (alloc i s) # drop i (used s))"
    using used_distinct [OF alloc_ok [OF assms]] alloc_used [OF assms] by simp
  then have "fst (alloc i s) \<notin> set (take i (used s)) \<union> set (drop i (used s))" by simp
  then show ?thesis by (metis append_take_drop_id set_append)
qed

lemma alloc_release:
  assumes "ok s" "length (used s) < cap" "i \<le> length (used s)"
  shows "used (release i (snd (alloc i s))) = used s"
proof -
  have l: "i < length (used (snd (alloc i s)))" using alloc_used [OF assms] assms(3) by simp
  show ?thesis using release_used [OF alloc_ok [OF assms] l] alloc_used [OF assms] assms(3)
    by (simp add: min_absorb2)
qed

end

abbreviation kp_used :: "nat \<Rightarrow> u64 \<Rightarrow> u64 list" where
  "kp_used width x \<equiv> take (kp_size x) (slots width x)"

lemma insert_used:
  assumes "permuter_ok width x" "kp_size x < width" "i \<le> kp_size x"
  shows "kp_used width (snd (insert_from_back width i x)) =
    take i (kp_used width x) @ fst (insert_from_back width i x) # drop i (kp_used width x)"
proof -
  obtain v q where q: "insert_from_back width i x = (v, q)" by (cases "insert_from_back width i x")
  have w: "kp_size x < 15" "i < width" "width \<le> 15" using assms by (auto simp: permuter_ok_def)
  note sp = insert_from_back_spec [OF w q] and sl = insert_from_back_slots [OF w q]
  have ne: "slots width x \<noteq> []" using w(2) by (auto simp flip: length_0_conv)
  have v: "last (slots width x) = v" using sp(1) ne w(2) by (simp add: last_conv_nth)
  have "take (kp_size x - i) (drop i (butlast (slots width x))) = drop i (kp_used width x)"
    using assms(2) by (simp add: drop_take take_butlast butlast_conv_take)
  then show ?thesis using sl sp(2) v assms(3) w(2) by (simp add: q take_Cons' min_absorb1 min_absorb2 Suc_diff_le)
qed

lemma remove_used:
  assumes "permuter_ok width x" "i < kp_size x"
  shows "kp_used width (kp_remove i x) = take i (kp_used width x) @ drop (Suc i) (kp_used width x)"
proof -
  have w: "kp_size x \<le> width" "width \<le> 15" using assms(1) by (auto simp: permuter_ok_def)
  show ?thesis using kp_remove_slots [OF assms(2) w] kp_remove_spec(1) [OF assms(2) w] assms(2) w
    by (simp add: min_absorb1 min_absorb2)
qed

interpretation kp: slot_store "permuter_ok width" width "kp_used width" "insert_from_back width" kp_remove
  for width
proof
  fix s i
  show "permuter_ok width s \<Longrightarrow> distinct (kp_used width s)" using set_slots by simp
  assume ok: "permuter_ok width s"
  then have l: "length (kp_used width s) = kp_size s" by (simp add: permuter_ok_def min_absorb2)
  show "permuter_ok width (snd (insert_from_back width i s))"
    if "length (kp_used width s) < width" "i \<le> length (kp_used width s)"
    using permuter_ok_insert [OF ok _ _ prod.collapse [symmetric], of i] that l by simp
  show "kp_used width (snd (insert_from_back width i s)) =
      take i (kp_used width s) @ fst (insert_from_back width i s) # drop i (kp_used width s)"
    if "length (kp_used width s) < width" "i \<le> length (kp_used width s)"
    using insert_used [OF ok] that l by simp
  show "permuter_ok width (kp_remove i s)" if "i < length (kp_used width s)"
    using permuter_ok_remove [OF ok] that l by simp
  show "kp_used width (kp_remove i s) = take i (kp_used width s) @ drop (Suc i) (kp_used width s)"
    if "i < length (kp_used width s)"
    using remove_used [OF ok] that l by simp
qed

section \<open>Construction\<close>

lemma make_empty_slots:
  assumes "8 \<le> width" "width \<le> 15"
  shows "slots width (make_empty width) = rev (map of_nat [0 ..< width])" "kp_size (make_empty width) = 0"
proof -
  from assms consider "width = 8" | "width = 9" | "width = 10" | "width = 11" | "width = 12" | "width = 13"
    | "width = 14" | "width = 15" by linarith
  then show "slots width (make_empty width) = rev (map of_nat [0 ..< width])" "kp_size (make_empty width) = 0"
    by (cases; hypsubst; code_simp)+
qed

lemma make_empty_ok:
  assumes "8 \<le> width" "width \<le> 15"
  shows "permuter_ok width (make_empty width)"
  using make_empty_slots [OF assms] assms by (simp add: permuter_ok_def del: map_append)

lemma full_value_nth: "j < 15 \<Longrightarrow> kp_nth full_value j = of_nat j"
proof -
  have "slots 15 full_value = map of_nat [0 ..< 15]" by code_simp
  moreover assume "j < 15"
  ultimately show ?thesis using nth_slots [of j 15 full_value] by simp
qed

lemma make_sorted_nth:
  assumes "8 \<le> width" "width \<le> 15" "n \<le> width"
  shows "kp_size (make_sorted width n) = n"
    "j < width \<Longrightarrow> kp_nth (make_sorted width n) j = of_nat (if j < n then j else width - 1 - (j - n))"
proof -
  let ?q = "make_sorted width n" and ?e = "make_empty width"
  have n: "n < 16" using assms by simp
  have lo: "bit (of_nat n :: u64) k \<Longrightarrow> k < 4" for k
    using low_nibble_of_nat [OF n] by (metis bit_and_iff bit_mask_iff mask_15)
  have e0: "\<not> bit ?e k" if "k < 4" for k using that by (simp add: make_empty_def mask_15 bit_simps)
  have fv: "full_value = push_bit 4 0xEDCBA9876543210" by (simp add: full_value_def push_bit_eq_mult)
  have f0: "\<not> bit full_value k" if "k < 4" for k unfolding fv bit_push_bit_iff using that by simp
  have q: "?q = push_bit (n * 4) ?e OR (full_value AND (if n = width then - 1 else mask (n * 4 + 4))) OR of_nat n"
    by (simp add: make_sorted_def Let_def mask_16)
  have low: "bit ?q k = bit (of_nat n :: u64) k" if "k < 4" for k
    using that e0 f0 by (auto simp: q bit_or_iff bit_and_iff bit_push_bit_iff)
  have "kp_size ?q = kp_size (of_nat n)" by (rule kp_size_eqI) (rule low)
  then show "kp_size ?q = n" using low_nibble_of_nat [OF n] n by (simp add: kp_size_def unat_of_nat)
  assume j: "j < width"
  show "kp_nth ?q j = of_nat (if j < n then j else width - 1 - (j - n))"
  proof (cases "j < n")
    case True
    have "kp_nth ?q j = kp_nth full_value j"
    proof (rule kp_nth_eqI)
      fix k :: nat assume k: "k < 4"
      have "\<not> bit (of_nat n :: u64) (j * 4 + 4 + k)" using lo [of "j * 4 + 4 + k"] by auto
      moreover have "\<not> bit (push_bit (n * 4) ?e) (j * 4 + 4 + k)"
        using True k e0 [of "j * 4 + 4 + k - n * 4"] by (auto simp: bit_push_bit_iff)
      ultimately show "bit ?q (j * 4 + 4 + k) = bit full_value (j * 4 + 4 + k)"
        using True k j assms by (simp add: q bit_or_iff bit_and_iff bit_mask_iff)
    qed
    then show ?thesis using True full_value_nth [of j] j assms by simp
  next
    case False
    have "kp_nth ?q j = kp_nth ?e (j - n)"
    proof (rule kp_nth_eqI)
      fix k :: nat assume k: "k < 4"
      have i: "j * 4 + 4 + k - n * 4 = (j - n) * 4 + 4 + k" using False by (simp add: diff_mult_distrib)
      show "bit ?q (j * 4 + 4 + k) = bit ?e ((j - n) * 4 + 4 + k)"
        unfolding i [symmetric] using False assms j k
        by (auto simp: q bit_or_iff bit_and_iff bit_push_bit_iff bit_mask_iff dest: lo)
    qed
    also have "\<dots> = rev (map of_nat [0 ..< width]) ! (j - n)"
      using make_empty_slots(1) [OF assms(1,2)] nth_slots [of "j - n" width ?e] False j by simp
    also have "\<dots> = of_nat (width - 1 - (j - n))" using False j by (simp add: rev_nth)
    finally show ?thesis using False by simp
  qed
qed

section \<open>Properties\<close>

text \<open>
  C24. Inserting a key's slot at position \<open>i\<close> and removing position \<open>i\<close> are, on the packed word, list
  insertion of a slot that was free and list removal: the word stays a permutation of the slots, the
  slots in use stay distinct, and removing what was inserted gives back the same order.
\<close>

theorem permuter_insert_remove:
  assumes "permuter_ok width x" "kp_size x < width" "i \<le> kp_size x" "insert_from_back width i x = (v, q)"
  shows "permuter_ok width q \<and> kp_size q = kp_size x + 1 \<and> v \<notin> set (kp_used width x) \<and>
    kp_used width q = take i (kp_used width x) @ v # drop i (kp_used width x) \<and> distinct (kp_used width q) \<and>
    permuter_ok width (kp_remove i q) \<and> kp_used width (kp_remove i q) = kp_used width x"
proof -
  have l: "length (kp_used width x) = kp_size x" using assms(1) by (simp add: permuter_ok_def min_absorb2)
  have g: "length (kp_used width x) < width" "i \<le> length (kp_used width x)" using l assms by auto
  have q: "snd (insert_from_back width i x) = q" "fst (insert_from_back width i x) = v" using assms(4) by auto
  note ok = kp.alloc_ok [OF assms(1) g, unfolded q]
  have sz: "kp_size q = kp_size x + 1"
    using insert_from_back_spec(2) [OF _ _ _ assms(4)] assms by (simp add: permuter_ok_def)
  then have "i < length (kp_used width q)" using ok assms(3) by (simp add: permuter_ok_def min_absorb2)
  from kp.release_ok [OF ok this] show ?thesis
    using ok sz kp.alloc_fresh [OF assms(1) g] kp.alloc_used [OF assms(1) g] kp.alloc_release [OF assms(1) g]
      kp.used_distinct [OF ok] q by simp
qed

theorem permuter_insert_remove_witness:
  "insert_from_back 15 0 (make_empty 15) = (0, 0x123456789ABCDE01) \<and> permuter_ok 15 0x123456789ABCDE01"
proof -
  have e: "insert_from_back 15 0 (make_empty 15) = (0, 0x123456789ABCDE01)" by code_simp
  have "permuter_ok 15 (make_empty 15)" by (rule make_empty_ok) simp_all
  from permuter_insert_remove [OF this _ _ e] e make_empty_slots(2) [of 15] show ?thesis by simp
qed

text \<open>
  \<open>make_empty\<close> and \<open>make_sorted\<close> build what their comments say: \<open>n\<close> keys in slots \<open>0 .. n - 1\<close> in order,
  and the free slots behind them so that \<open>n, n + 1, ...\<close> are handed out next.
\<close>

theorem permuter_make_sorted:
  assumes "8 \<le> width" "width \<le> 15" "n \<le> width"
  shows "kp_used width (make_sorted width n) = map of_nat [0 ..< n] \<and>
    (n < width \<longrightarrow> fst (insert_from_back width i (make_sorted width n)) = of_nat n) \<and>
    permuter_ok width (make_empty width)"
proof (intro conjI impI)
  note s = make_sorted_nth [OF assms]
  show "kp_used width (make_sorted width n) = map of_nat [0 ..< n]"
    by (rule nth_equalityI) (use s assms(3) in \<open>auto simp: min_absorb2\<close>)
  show "fst (insert_from_back width i (make_sorted width n)) = of_nat n" if "n < width"
  proof -
    have "\<not> width - 1 < n" "width - 1 < width" "width - 1 - (width - 1 - n) = n" using that by arith+
    then show ?thesis using s(2) [of "width - 1"] by (simp add: insert_from_back_def kp_back_def Let_def)
  qed
  show "permuter_ok width (make_empty width)" by (rule make_empty_ok [OF assms(1,2)])
qed

theorem permuter_make_sorted_witness: "kp_used 15 (make_sorted 15 2) = [0, 1]"
proof -
  have "[0 ..< 2] = [0, 1 :: nat]" by code_simp
  then show ?thesis using permuter_make_sorted [of 15 2] by simp
qed

text \<open>
  \<open>rotate(i, j)\<close> rotates all elements from position \<open>i\<close> to the full width by \<open>j - i\<close> places, free slots
  included; its comment says that it rotates those between \<open>i\<close> and \<open>size()\<close>. \<open>exchange\<close> swaps two positions and
  \<open>remove_to_back\<close> moves one to the end; none of them loses a slot.
\<close>

theorem permuter_rotate:
  assumes "permuter_ok width x" "i \<le> j" "j \<le> width" "i < width"
  shows "slots width (kp_rotate width i j x) = take i (slots width x) @ rotate (j - i) (drop i (slots width x)) \<and>
    permuter_ok width (kp_rotate width i j x) \<and> permuter_ok width (exchange i (width - 1) x) \<and>
    (0 < kp_size x \<longrightarrow> slots width (remove_to_back width i x) =
       take i (slots width x) @ drop (Suc i) (slots width x) @ [slots width x ! i] \<and>
       permuter_ok width (remove_to_back width i x))"
proof (intro conjI impI)
  have w: "width \<le> 15" "kp_size x \<le> width" and m: "mset (slots width x) = mset (map of_nat [0 ..< width])"
    using assms(1) by (simp_all add: permuter_ok_def)
  show r: "slots width (kp_rotate width i j x) = take i (slots width x) @ rotate (j - i) (drop i (slots width x))"
    by (rule kp_rotate_slots [OF assms(2-4) w(1)])
  have "mset (take i (slots width x)) + mset (drop i (slots width x)) = mset (slots width x)"
    by (metis append_take_drop_id mset_append)
  then have "mset (take i (slots width x)) + mset (rotate (j - i) (drop i (slots width x))) = mset (slots width x)"
    by (simp only: mset_rotate)
  then show "permuter_ok width (kp_rotate width i j x)"
    using kp_rotate_spec(1) [OF assms(2-4) w(1) assms(4)] w m by (simp add: permuter_ok_def r)
  have "mset ((slots width x)[i := slots width x ! (width - 1), width - 1 := slots width x ! i]) = mset (slots width x)"
    by (rule mset_swap) (use assms(4) in simp_all)
  then show "permuter_ok width (exchange i (width - 1) x)"
    using exchange_slots [of i width "width - 1" x] exchange_spec(1) [of i width "width - 1" x] assms(4) w m
    by (simp add: permuter_ok_def)
  assume "0 < kp_size x"
  note b = remove_to_back_slots [OF assms(4) w(1) this] remove_to_back_spec(1) [OF assms(4) w(1) this]
  show "slots width (remove_to_back width i x) = take i (slots width x) @ drop (Suc i) (slots width x) @ [slots width x ! i]"
    by (rule b(1))
  show "permuter_ok width (remove_to_back width i x)"
    using b mset_remove_at [of i width "slots width x"] assms(4) w m by (simp add: permuter_ok_def)
qed

theorem permuter_rotate_witness:
  "slots 15 (kp_rotate 15 1 2 (make_sorted 15 3)) = [0, 2, 14, 13, 12, 11, 10, 9, 8, 7, 6, 5, 4, 3, 1] \<and>
   kp_size (make_sorted 15 3) = 3"
proof -
  have ok: "permuter_ok 15 (make_sorted 15 3)"
  proof -
    have "slots 15 (make_sorted 15 3) = [0, 1, 2, 14, 13, 12, 11, 10, 9, 8, 7, 6, 5, 4, 3]" by code_simp
    moreover have "[0 ..< 15] = [0, 1, 2, 3, 4, 5, 6, 7, 8, 9, 10, 11, 12, 13, 14 :: nat]" by code_simp
    moreover have "kp_size (make_sorted 15 3) = 3" by code_simp
    ultimately show ?thesis by (simp add: permuter_ok_def)
  qed
  have s: "slots 15 (make_sorted 15 3) = [0, 1, 2, 14, 13, 12, 11, 10, 9, 8, 7, 6, 5, 4, 3]" by code_simp
  have r: "rotate 1 [1, 2, 14, 13, 12, 11, 10, 9, 8, 7, 6, 5, 4, 3 :: u64] = [2, 14, 13, 12, 11, 10, 9, 8, 7, 6, 5, 4, 3, 1]"
    by (simp add: rotate1_def)
  have k: "kp_size (make_sorted 15 3) = 3" by code_simp
  have d: "(2 :: nat) - 1 = 1" by simp
  show ?thesis using permuter_rotate [OF ok, of 1 2] k r unfolding s d by simp
qed

end
