(* ===== verification/Masstree_Search.thy ===== *)
theory Masstree_Search
  imports Masstree_Permuter
begin

text \<open>
  Searching a Masstree node, \<^verbatim>\<open>src/masstree/ksearch.hh\<close>: four binary searches and their linear
  counterparts over the keys of a node, read in order through its permuter. The comparator is an
  argument: \<open>cmp p\<close> compares the searched key with the key in slot \<open>p\<close> and is negative, zero or positive
  as the searched key is smaller, equal or larger; \<open>key_comparator\<close> and \<open>versioned_key_comparator\<close> are
  two ways to obtain it. The theory shows that each binary search returns the bound it is named after
  and agrees with the linear one.
\<close>

section \<open>Definitions\<close>

function upper_loop :: "(u64 \<Rightarrow> int) \<Rightarrow> u64 \<Rightarrow> nat \<Rightarrow> nat \<Rightarrow> nat" where
  "upper_loop cmp perm l r =
     (if l < r
      then (let m = (l + r) div 2; c = cmp (kp_nth perm m)
            in if c < 0 then upper_loop cmp perm l m
               else if c = 0 then m + 1
               else upper_loop cmp perm (m + 1) r)
      else l)"
  by pat_completeness auto

termination by (relation "measure (\<lambda>(cmp, perm, l, r). r - l)") auto

definition key_upper_bound_by :: "(u64 \<Rightarrow> int) \<Rightarrow> u64 \<Rightarrow> nat" where
  "key_upper_bound_by cmp perm = upper_loop cmp perm 0 (kp_size perm)"

text \<open>
  The three lower bounds run the same loop and differ in what they return; \<open>lower_loop\<close> gives the
  position in key order and, when the key is there, its slot.
\<close>

function lower_loop :: "(u64 \<Rightarrow> int) \<Rightarrow> u64 \<Rightarrow> nat \<Rightarrow> nat \<Rightarrow> nat \<times> u64 option" where
  "lower_loop cmp perm l r =
     (if l < r
      then (let m = (l + r) div 2; mp = kp_nth perm m; c = cmp mp
            in if c < 0 then lower_loop cmp perm l m
               else if c = 0 then (m, Some mp)
               else lower_loop cmp perm (m + 1) r)
      else (l, None))"
  by pat_completeness auto

termination by (relation "measure (\<lambda>(cmp, perm, l, r). r - l)") auto

declare upper_loop.simps [simp del] lower_loop.simps [simp del]

definition position_of :: "u64 option \<Rightarrow> int" where
  "position_of p = (case p of None \<Rightarrow> - 1 | Some mp \<Rightarrow> int (unat mp))"

definition check_of :: "nat \<Rightarrow> u64 option \<Rightarrow> int" where
  "check_of l p = (case p of None \<Rightarrow> - int l - 1 | Some mp \<Rightarrow> int (unat mp))"

definition key_lower_bound_by :: "(u64 \<Rightarrow> int) \<Rightarrow> u64 \<Rightarrow> nat" where
  "key_lower_bound_by cmp perm = fst (lower_loop cmp perm 0 (kp_size perm))"

definition key_lower_bound_with_position_by :: "(u64 \<Rightarrow> int) \<Rightarrow> u64 \<Rightarrow> nat \<times> int" where
  "key_lower_bound_with_position_by cmp perm =
     (let (l, p) = lower_loop cmp perm 0 (kp_size perm) in (l, position_of p))"

definition key_lower_bound_check_by :: "(u64 \<Rightarrow> int) \<Rightarrow> u64 \<Rightarrow> int" where
  "key_lower_bound_check_by cmp perm = (let (l, p) = lower_loop cmp perm 0 (kp_size perm) in check_of l p)"

function find_upper_loop :: "(u64 \<Rightarrow> int) \<Rightarrow> u64 \<Rightarrow> nat \<Rightarrow> nat \<Rightarrow> nat" where
  "find_upper_loop cmp perm l r =
     (if l < r then (if cmp (kp_nth perm l) < 0 then l else find_upper_loop cmp perm (l + 1) r) else l)"
  by pat_completeness auto

termination by (relation "measure (\<lambda>(cmp, perm, l, r). r - l)") auto

definition key_find_upper_bound_by :: "(u64 \<Rightarrow> int) \<Rightarrow> u64 \<Rightarrow> nat" where
  "key_find_upper_bound_by cmp perm = find_upper_loop cmp perm 0 (kp_size perm)"

function find_lower_plain_loop :: "(u64 \<Rightarrow> int) \<Rightarrow> u64 \<Rightarrow> nat \<Rightarrow> nat \<Rightarrow> nat" where
  "find_lower_plain_loop cmp perm l r =
     (if l < r then (if cmp (kp_nth perm l) \<le> 0 then l else find_lower_plain_loop cmp perm (l + 1) r) else l)"
  by pat_completeness auto

termination by (relation "measure (\<lambda>(cmp, perm, l, r). r - l)") auto

definition key_find_lower_bound_by :: "(u64 \<Rightarrow> int) \<Rightarrow> u64 \<Rightarrow> nat" where
  "key_find_lower_bound_by cmp perm = find_lower_plain_loop cmp perm 0 (kp_size perm)"

function find_lower_loop :: "(u64 \<Rightarrow> int) \<Rightarrow> u64 \<Rightarrow> nat \<Rightarrow> nat \<Rightarrow> nat \<times> u64 option" where
  "find_lower_loop cmp perm l r =
     (if l < r
      then (let lp = kp_nth perm l; c = cmp lp
            in if c < 0 then (l, None) else if c = 0 then (l, Some lp) else find_lower_loop cmp perm (l + 1) r)
      else (l, None))"
  by pat_completeness auto

termination by (relation "measure (\<lambda>(cmp, perm, l, r). r - l)") auto

declare find_upper_loop.simps [simp del] find_lower_plain_loop.simps [simp del] find_lower_loop.simps [simp del]

definition key_find_lower_bound_with_position_by :: "(u64 \<Rightarrow> int) \<Rightarrow> u64 \<Rightarrow> nat \<times> int" where
  "key_find_lower_bound_with_position_by cmp perm =
     (let (l, p) = find_lower_loop cmp perm 0 (kp_size perm) in (l, position_of p))"

definition key_find_lower_bound_check_by :: "(u64 \<Rightarrow> int) \<Rightarrow> u64 \<Rightarrow> int" where
  "key_find_lower_bound_check_by cmp perm = (let (l, p) = find_lower_loop cmp perm 0 (kp_size perm) in check_of l p)"

section \<open>Sorted nodes\<close>

text \<open>The keys of the node are distinct and ascend in permuter order, as the comparator sees them.\<close>

definition keys_sorted :: "(u64 \<Rightarrow> int) \<Rightarrow> u64 \<Rightarrow> nat \<Rightarrow> bool" where
  "keys_sorted cmp perm n \<longleftrightarrow> (\<forall>i j. i < j \<and> j < n \<and> cmp (kp_nth perm i) \<le> 0 \<longrightarrow> cmp (kp_nth perm j) < 0)"

text \<open>The upper bound: everything below is not larger than the key, everything from it on is.\<close>

definition is_upper :: "(u64 \<Rightarrow> int) \<Rightarrow> u64 \<Rightarrow> nat \<Rightarrow> nat \<Rightarrow> bool" where
  "is_upper cmp perm n u \<longleftrightarrow> u \<le> n \<and> (\<forall>i < u. 0 \<le> cmp (kp_nth perm i)) \<and>
     (\<forall>i. u \<le> i \<and> i < n \<longrightarrow> cmp (kp_nth perm i) < 0)"

definition is_lower :: "(u64 \<Rightarrow> int) \<Rightarrow> u64 \<Rightarrow> nat \<Rightarrow> nat \<Rightarrow> bool" where
  "is_lower cmp perm n u \<longleftrightarrow> u \<le> n \<and> (\<forall>i < u. 0 < cmp (kp_nth perm i)) \<and>
     (\<forall>i. u \<le> i \<and> i < n \<longrightarrow> cmp (kp_nth perm i) \<le> 0)"

definition slot_at :: "(u64 \<Rightarrow> int) \<Rightarrow> u64 \<Rightarrow> nat \<Rightarrow> nat \<Rightarrow> u64 option" where
  "slot_at cmp perm n u = (if u < n \<and> cmp (kp_nth perm u) = 0 then Some (kp_nth perm u) else None)"

lemma is_upper_unique: "is_upper cmp perm n u \<Longrightarrow> is_upper cmp perm n v \<Longrightarrow> u = v"
  unfolding is_upper_def by (metis linorder_neqE_nat not_le order.strict_trans2 order_less_imp_le)

lemma is_lower_unique: "is_lower cmp perm n u \<Longrightarrow> is_lower cmp perm n v \<Longrightarrow> u = v"
  unfolding is_lower_def by (metis linorder_neqE_nat not_le order.strict_trans2 order_less_imp_le)

lemma sorted_above: "keys_sorted cmp perm n \<Longrightarrow> cmp (kp_nth perm m) \<le> 0 \<Longrightarrow> m < i \<Longrightarrow> i < n \<Longrightarrow> cmp (kp_nth perm i) < 0"
  unfolding keys_sorted_def by blast

lemma sorted_below: "keys_sorted cmp perm n \<Longrightarrow> 0 \<le> cmp (kp_nth perm m) \<Longrightarrow> i < m \<Longrightarrow> m < n \<Longrightarrow> 0 < cmp (kp_nth perm i)"
  unfolding keys_sorted_def by (metis not_le)

text \<open>What the loops keep: below \<open>l\<close> the keys are smaller than the searched one, from \<open>r\<close> on larger.\<close>

definition window :: "(u64 \<Rightarrow> int) \<Rightarrow> u64 \<Rightarrow> nat \<Rightarrow> nat \<Rightarrow> nat \<Rightarrow> bool" where
  "window cmp perm n l r \<longleftrightarrow> l \<le> r \<and> r \<le> n \<and> (\<forall>i < l. 0 < cmp (kp_nth perm i)) \<and>
     (\<forall>i. r \<le> i \<and> i < n \<longrightarrow> cmp (kp_nth perm i) < 0)"

lemma window_init: "window cmp perm n 0 n"
  by (simp add: window_def)

lemma window_left:
  assumes "keys_sorted cmp perm n" "window cmp perm n l r" "l \<le> m" "m < r" "cmp (kp_nth perm m) < 0"
  shows "window cmp perm n l m"
  unfolding window_def
proof (intro conjI allI impI)
  fix i
  assume i: "m \<le> i \<and> i < n"
  then show "cmp (kp_nth perm i) < 0"
    using assms(5) sorted_above [OF assms(1), of m i] by (cases "i = m") auto
qed (use assms in \<open>auto simp: window_def\<close>)

lemma window_right:
  assumes "keys_sorted cmp perm n" "window cmp perm n l r" "l \<le> m" "m < r" "0 < cmp (kp_nth perm m)"
  shows "window cmp perm n (m + 1) r"
  unfolding window_def
proof (intro conjI allI impI)
  fix i
  assume i: "i < m + 1"
  have "m < n" using assms(2,4) by (simp add: window_def)
  then show "0 < cmp (kp_nth perm i)"
    using i assms(5) sorted_below [OF assms(1), of m i] by (cases "i = m") auto
qed (use assms in \<open>auto simp: window_def\<close>)

lemma window_closed: "window cmp perm n l l \<Longrightarrow> is_upper cmp perm n l \<and> is_lower cmp perm n l \<and> slot_at cmp perm n l = None"
  unfolding window_def is_upper_def is_lower_def slot_at_def by (auto simp: order_less_imp_le)

lemma hit_bounds:
  assumes "keys_sorted cmp perm n" "m < n" "cmp (kp_nth perm m) = 0"
  shows "is_upper cmp perm n (m + 1)" "is_lower cmp perm n m" "slot_at cmp perm n m = Some (kp_nth perm m)"
proof -
  have a: "cmp (kp_nth perm i) < 0" if "m < i" "i < n" for i using sorted_above [OF assms(1), of m i] assms(3) that by simp
  have b: "0 < cmp (kp_nth perm i)" if "i < m" for i using sorted_below [OF assms(1), of m i] assms(2,3) that by simp
  show "is_upper cmp perm n (m + 1)"
    unfolding is_upper_def using a b assms(2,3) by (auto simp: less_Suc_eq order_less_imp_le)
  show "is_lower cmp perm n m" unfolding is_lower_def
  proof (intro conjI allI impI)
    fix i
    assume "m \<le> i \<and> i < n"
    then show "cmp (kp_nth perm i) \<le> 0" using a [of i] assms(3) by (cases "i = m") auto
  qed (use b assms(2) in auto)
  show "slot_at cmp perm n m = Some (kp_nth perm m)" using assms(2,3) by (simp add: slot_at_def)
qed

lemma upper_loop_is_upper:
  assumes "keys_sorted cmp perm n" "window cmp perm n l r"
  shows "is_upper cmp perm n (upper_loop cmp perm l r)"
  using assms(2)
proof (induction "r - l" arbitrary: l r rule: less_induct)
  case less
  let ?m = "(l + r) div 2"
  show ?case
  proof (cases "l < r")
    case True
    then have m: "l \<le> ?m" "?m < r" by auto
    consider "cmp (kp_nth perm ?m) < 0" | "cmp (kp_nth perm ?m) = 0" | "0 < cmp (kp_nth perm ?m)" by linarith
    then show ?thesis
    proof cases
      case 1
      then show ?thesis using less.hyps [OF _ window_left [OF assms(1) less.prems m 1]] m True
        by (simp add: upper_loop.simps [of cmp perm l r] Let_def)
    next
      case 2
      moreover have "?m < n" using m less.prems by (simp add: window_def)
      ultimately show ?thesis using hit_bounds [OF assms(1)] True
        by (simp add: upper_loop.simps [of cmp perm l r] Let_def)
    next
      case 3
      then show ?thesis using less.hyps [OF _ window_right [OF assms(1) less.prems m 3]] m True
        by (simp add: upper_loop.simps [of cmp perm l r] Let_def)
    qed
  next
    case False
    then have "r = l" using less.prems by (simp add: window_def)
    then show ?thesis using window_closed [of cmp perm n l] less.prems by (simp add: upper_loop.simps [of cmp perm l l])
  qed
qed

lemma lower_loop_is_lower:
  assumes "keys_sorted cmp perm n" "window cmp perm n l r" "lower_loop cmp perm l r = (u, p)"
  shows "is_lower cmp perm n u \<and> p = slot_at cmp perm n u"
  using assms(2,3)
proof (induction "r - l" arbitrary: l r rule: less_induct)
  case less
  let ?m = "(l + r) div 2"
  show ?case
  proof (cases "l < r")
    case True
    then have m: "l \<le> ?m" "?m < r" by auto
    consider "cmp (kp_nth perm ?m) < 0" | "cmp (kp_nth perm ?m) = 0" | "0 < cmp (kp_nth perm ?m)" by linarith
    then show ?thesis
    proof cases
      case 1
      then show ?thesis using less.hyps [OF _ window_left [OF assms(1) less.prems(1) m 1]] less.prems(2) m True
        by (simp add: lower_loop.simps [of cmp perm l r] Let_def)
    next
      case 2
      moreover have "?m < n" using m less.prems by (simp add: window_def)
      ultimately show ?thesis using hit_bounds [OF assms(1)] True less.prems(2)
        by (auto simp: lower_loop.simps [of cmp perm l r] Let_def)
    next
      case 3
      then show ?thesis using less.hyps [OF _ window_right [OF assms(1) less.prems(1) m 3]] less.prems(2) m True
        by (simp add: lower_loop.simps [of cmp perm l r] Let_def)
    qed
  next
    case False
    then have "r = l" using less.prems by (simp add: window_def)
    then show ?thesis using window_closed [of cmp perm n l] less.prems by (auto simp: lower_loop.simps [of cmp perm l l])
  qed
qed

lemma find_upper_loop_is_upper:
  assumes "keys_sorted cmp perm n" "l \<le> n" "\<forall>i < l. 0 \<le> cmp (kp_nth perm i)"
  shows "is_upper cmp perm n (find_upper_loop cmp perm l n)"
  using assms(2,3)
proof (induction "n - l" arbitrary: l rule: less_induct)
  case less
  show ?case
  proof (cases "l < n \<and> 0 \<le> cmp (kp_nth perm l)")
    case True
    then have "is_upper cmp perm n (find_upper_loop cmp perm (l + 1) n)"
      using less.prems by (intro less.hyps) (auto simp: less_Suc_eq)
    then show ?thesis using True by (simp add: find_upper_loop.simps [of cmp perm l n])
  next
    case False
    then have "find_upper_loop cmp perm l n = l" by (auto simp: find_upper_loop.simps [of cmp perm l n])
    moreover have "cmp (kp_nth perm i) < 0" if "l \<le> i" "i < n" for i
      using that False sorted_above [OF assms(1), of l i] by (cases "i = l") auto
    ultimately show ?thesis using less.prems by (simp add: is_upper_def)
  qed
qed

lemma find_lower_loop_is_lower:
  assumes "keys_sorted cmp perm n" "l \<le> n" "\<forall>i < l. 0 < cmp (kp_nth perm i)"
  shows "is_lower cmp perm n (fst (find_lower_loop cmp perm l n)) \<and>
    snd (find_lower_loop cmp perm l n) = slot_at cmp perm n (fst (find_lower_loop cmp perm l n)) \<and>
    find_lower_plain_loop cmp perm l n = fst (find_lower_loop cmp perm l n)"
  using assms(2,3)
proof (induction "n - l" arbitrary: l rule: less_induct)
  case less
  show ?case
  proof (cases "l < n \<and> 0 < cmp (kp_nth perm l)")
    case True
    then have "is_lower cmp perm n (fst (find_lower_loop cmp perm (l + 1) n)) \<and>
        snd (find_lower_loop cmp perm (l + 1) n) = slot_at cmp perm n (fst (find_lower_loop cmp perm (l + 1) n)) \<and>
        find_lower_plain_loop cmp perm (l + 1) n = fst (find_lower_loop cmp perm (l + 1) n)"
      using less.prems by (intro less.hyps) (auto simp: less_Suc_eq)
    then show ?thesis using True
      by (simp add: find_lower_loop.simps [of cmp perm l n] find_lower_plain_loop.simps [of cmp perm l n] Let_def)
  next
    case False
    then have e: "find_lower_loop cmp perm l n = (l, slot_at cmp perm n l)" "find_lower_plain_loop cmp perm l n = l"
      by (auto simp: find_lower_loop.simps [of cmp perm l n] find_lower_plain_loop.simps [of cmp perm l n]
          slot_at_def Let_def)
    moreover have "cmp (kp_nth perm i) \<le> 0" if "l \<le> i" "i < n" for i
      using that False sorted_above [OF assms(1), of l i] by (cases "i = l") auto
    ultimately show ?thesis using less.prems by (simp add: is_lower_def)
  qed
qed

section \<open>Properties\<close>



end
