(* ===== verification/Masstree_Circular.thy ===== *)
theory Masstree_Circular
  imports Prelude
begin

unbundle bit_operations_syntax

text \<open>
  Circular integers, \<^verbatim>\<open>src/masstree/circular_int.hh\<close>: the epochs of Masstree's log and garbage
  collection. They wrap around, and one is less than another when the difference, read as a signed
  number, is negative. The class is modelled at any word length; \<open>kvepoch_t\<close> is its 64-bit instance.
\<close>

section \<open>Definitions\<close>

type_synonym kvepoch = u64

definition ci_inc :: "'a::len word \<Rightarrow> 'a word" where
  "ci_inc v = v + 1"

text \<open>The postfix operators return the old value beside the new state.\<close>

definition ci_post_inc :: "'a::len word \<Rightarrow> 'a word \<times> 'a word" where
  "ci_post_inc v = (let v' = v + 1 in (v' - 1, v'))"

definition ci_dec :: "'a::len word \<Rightarrow> 'a word" where
  "ci_dec v = v - 1"

definition ci_post_dec :: "'a::len word \<Rightarrow> 'a word \<times> 'a word" where
  "ci_post_dec v = (let v' = v - 1 in (v' + 1, v'))"

definition ci_add_unsigned :: "'a::len word \<Rightarrow> u32 \<Rightarrow> 'a word" where
  "ci_add_unsigned v x = v + ucast x"

definition ci_add_int :: "'a::len word \<Rightarrow> int \<Rightarrow> 'a word" where
  "ci_add_int v x = v + word_of_int x"

definition ci_sub_unsigned :: "'a::len word \<Rightarrow> u32 \<Rightarrow> 'a word" where
  "ci_sub_unsigned v x = v - ucast x"

definition ci_sub_int :: "'a::len word \<Rightarrow> int \<Rightarrow> 'a word" where
  "ci_sub_int v x = v - word_of_int x"

text \<open>An atomic compare-and-exchange: the value found, and the value left.\<close>

definition ci_cmpxchg :: "'a::len word \<Rightarrow> 'a word \<Rightarrow> 'a word \<Rightarrow> 'a word \<times> 'a word" where
  "ci_cmpxchg v expected desired = (v, if v = expected then desired else v)"

definition ci_bool :: "'a::len word \<Rightarrow> bool" where
  "ci_bool v \<longleftrightarrow> v \<noteq> 0"

definition ci_next_nonzero :: "'a::len word \<Rightarrow> 'a word" where
  "ci_next_nonzero v = (let v' = v + 1 in v' + (if v' = 0 then 1 else 0))"

definition ci_diff :: "'a::len word \<Rightarrow> 'a word \<Rightarrow> int" where
  "ci_diff v x = sint (v - x)"

definition ci_eq :: "'a::len word \<Rightarrow> 'a word \<Rightarrow> bool" where
  "ci_eq v x \<longleftrightarrow> v = x"

definition ci_less :: "'a::len word \<Rightarrow> 'a word \<Rightarrow> bool" where
  "ci_less a b \<longleftrightarrow> sint (a - b) < 0"

definition ci_less_equal :: "'a::len word \<Rightarrow> 'a word \<Rightarrow> bool" where
  "ci_less_equal a b \<longleftrightarrow> sint (a - b) \<le> 0"

definition ci_lt :: "'a::len word \<Rightarrow> 'a word \<Rightarrow> bool" where
  "ci_lt v x \<longleftrightarrow> ci_less v x"

definition ci_le :: "'a::len word \<Rightarrow> 'a word \<Rightarrow> bool" where
  "ci_le v x \<longleftrightarrow> \<not> ci_less x v"

definition ci_ge :: "'a::len word \<Rightarrow> 'a word \<Rightarrow> bool" where
  "ci_ge v x \<longleftrightarrow> \<not> ci_less v x"

definition ci_gt :: "'a::len word \<Rightarrow> 'a word \<Rightarrow> bool" where
  "ci_gt v x \<longleftrightarrow> ci_less x v"

section \<open>Order across the wrap-around\<close>

lemma sint_of_nat_u64:
  assumes "d < 2 ^ 63"
  shows "sint (of_nat d :: u64) = int d" "sint (- of_nat d :: u64) = - int d"
proof -
  have d: "int d < 2 ^ 63" using assms by (metis of_nat_less_iff of_nat_numeral of_nat_power)
  have s: "sint (word_of_int k :: u64) = k" if "- (2 ^ 63) \<le> k" "k < 2 ^ 63" for k
    using that signed_take_bit_int_eq_self [of 63 k] by (simp add: sint_sbintrunc')
  show "sint (of_nat d :: u64) = int d" using s [of "int d"] d by simp
  show "sint (- of_nat d :: u64) = - int d" using s [of "- int d"] d by simp
qed

text \<open>
  Two epochs less than \<open>2 ^ 63\<close> steps apart are ordered as they were counted, also when the counter
  wrapped between them, and their difference is the number of steps.
\<close>

lemma epoch_order:
  assumes "0 < d" "d < 2 ^ 63"
  shows "ci_lt (e :: kvepoch) (e + of_nat d)" "\<not> ci_lt (e + of_nat d) e" "ci_le e (e + of_nat d)"
    "ci_less_equal e (e + of_nat d)" "ci_diff (e + of_nat d) e = int d"
  using sint_of_nat_u64 [OF assms(2)] assms(1)
  by (simp_all add: ci_lt_def ci_le_def ci_less_def ci_less_equal_def ci_diff_def)

text \<open>Exactly half the range apart, the operator and the static function disagree.\<close>

lemma half_range_disagrees: "ci_less_equal (2 ^ 63 :: kvepoch) 0" "\<not> ci_le (2 ^ 63 :: kvepoch) 0"
  by (simp_all add: ci_less_equal_def ci_le_def ci_less_def)

lemma next_nonzero: "ci_next_nonzero v \<noteq> 0"
  by (simp add: ci_next_nonzero_def Let_def)

lemma next_nonzero_steps: "ci_next_nonzero v = v + 1 \<or> v = - 1 \<and> ci_next_nonzero v = 1"
  by (auto simp: ci_next_nonzero_def Let_def eq_neg_iff_add_eq_0)

end
