(* ===== verification/Masstree_Version.thy ===== *)
theory Masstree_Version
  imports Prelude
begin

unbundle bit_operations_syntax

text \<open>
  The version word of a Masstree node, \<^verbatim>\<open>src/masstree/nodeversion.hh\<close>: a lock bit, two dirty bits, a
  change counter in two parts and three flags packed in one word, which writers lock, mark and
  unlock and which readers compare before and after an optimistic read. The template's parameter
  class is the record \<open>nvparams\<close>; memory fences have no effect on the sequentially consistent model. The
  theory shows that the lock is exclusive, that the assertions of the class hold, and what a reader
  may conclude from an unchanged version.
\<close>

section \<open>Definitions\<close>

record 'v nvparams =
  lock_bit :: 'v
  inserting_shift :: nat
  inserting_bit :: 'v
  splitting_bit :: 'v
  dirty_mask :: 'v
  vinsert_lowbit :: 'v
  vsplit_lowbit :: 'v
  unused1_bit :: 'v
  deleted_bit :: 'v
  root_bit :: 'v
  isleaf_bit :: 'v
  split_unlock_mask :: 'v
  unlock_mask :: 'v

definition nodeversion32_parameters :: "u32 nvparams" where
  "nodeversion32_parameters =
     \<lparr>lock_bit = 1, inserting_shift = 1, inserting_bit = 2, splitting_bit = 4, dirty_mask = 2 OR 4,
      vinsert_lowbit = 8, vsplit_lowbit = 512, unused1_bit = 2 ^ 28, deleted_bit = 2 ^ 29,
      root_bit = 2 ^ 30, isleaf_bit = 2 ^ 31,
      split_unlock_mask = NOT (2 ^ 30 OR 2 ^ 28 OR (512 - 1)),
      unlock_mask = NOT (2 ^ 28 OR (8 - 1))\<rparr>"

definition nodeversion64_parameters :: "u64 nvparams" where
  "nodeversion64_parameters =
     \<lparr>lock_bit = 2 ^ 8, inserting_shift = 9, inserting_bit = 2 ^ 9, splitting_bit = 2 ^ 10,
      dirty_mask = 2 ^ 9 OR 2 ^ 10, vinsert_lowbit = 2 ^ 11, vsplit_lowbit = 2 ^ 27,
      unused1_bit = 2 ^ 60, deleted_bit = 2 ^ 61, root_bit = 2 ^ 62, isleaf_bit = 2 ^ 63,
      split_unlock_mask = NOT (2 ^ 62 OR 2 ^ 60 OR (2 ^ 27 - 1)),
      unlock_mask = NOT (2 ^ 60 OR (2 ^ 11 - 1))\<rparr>"

subsection \<open>basic_nodeversion\<close>

definition nv_new :: "'a::len word nvparams \<Rightarrow> bool \<Rightarrow> 'a word" where
  "nv_new P isleaf = (if isleaf then isleaf_bit P else 0)"

definition nv_isleaf :: "'a::len word nvparams \<Rightarrow> 'a word \<Rightarrow> bool" where
  "nv_isleaf P v \<longleftrightarrow> v AND isleaf_bit P \<noteq> 0"

definition nv_locked :: "'a::len word nvparams \<Rightarrow> 'a word \<Rightarrow> bool" where
  "nv_locked P v \<longleftrightarrow> v AND lock_bit P \<noteq> 0"

definition nv_inserting :: "'a::len word nvparams \<Rightarrow> 'a word \<Rightarrow> bool" where
  "nv_inserting P v \<longleftrightarrow> v AND inserting_bit P \<noteq> 0"

definition nv_splitting :: "'a::len word nvparams \<Rightarrow> 'a word \<Rightarrow> bool" where
  "nv_splitting P v \<longleftrightarrow> v AND splitting_bit P \<noteq> 0"

definition nv_deleted :: "'a::len word nvparams \<Rightarrow> 'a word \<Rightarrow> bool" where
  "nv_deleted P v \<longleftrightarrow> v AND deleted_bit P \<noteq> 0"

definition nv_has_changed :: "'a::len word nvparams \<Rightarrow> 'a word \<Rightarrow> 'a word \<Rightarrow> bool" where
  "nv_has_changed P v x \<longleftrightarrow> lock_bit P < x XOR v"

definition nv_has_split_root :: "'a::len word nvparams \<Rightarrow> 'a word \<Rightarrow> bool" where
  "nv_has_split_root P v \<longleftrightarrow> v AND root_bit P = 0"

definition nv_has_split :: "'a::len word nvparams \<Rightarrow> 'a word \<Rightarrow> 'a word \<Rightarrow> bool" where
  "nv_has_split P v x \<longleftrightarrow> vsplit_lowbit P \<le> x XOR v"

definition nv_simple_has_split :: "'a::len word nvparams \<Rightarrow> 'a word \<Rightarrow> 'a word \<Rightarrow> bool" where
  "nv_simple_has_split P v x \<longleftrightarrow> vsplit_lowbit P \<le> x XOR v"

text \<open>
  \<open>stable\<close> spins over successive readings of the word; \<open>None\<close> while they are all dirty. The second
  component is what \<open>stable_annotated\<close> passed to its spin function.
\<close>

fun nv_stable :: "'a::len word nvparams \<Rightarrow> 'a word list \<Rightarrow> ('a word \<times> 'a word list) option" where
  "nv_stable P [] = None"
| "nv_stable P (x # xs) =
     (if x AND dirty_mask P \<noteq> 0 then map_option (\<lambda>(r, ys). (r, x # ys)) (nv_stable P xs)
      else Some (x, []))"

text \<open>
  One attempt of the loop of \<open>lock\<close>: \<open>Inr\<close> the new memory word and the returned version when the
  compare-and-exchange succeeds, \<open>Inl\<close> the value to expect next.
\<close>

definition nv_lock_try :: "'a::len word nvparams \<Rightarrow> 'a word \<Rightarrow> 'a word \<Rightarrow> 'a word + 'a word \<times> 'a word res" where
  "nv_lock_try P v expected =
     (if expected AND lock_bit P = 0 \<and> v = expected
      then Inr (expected OR lock_bit P,
             (if expected AND dirty_mask P = 0 then Inr (expected OR lock_bit P)
              else Inl (Abort ''!(expected.v_ & P::dirty_mask)'')))
      else Inl v)"

definition nv_unlock :: "'a::len word nvparams \<Rightarrow> 'a word \<Rightarrow> 'a word \<Rightarrow> 'a word res" where
  "nv_unlock P v x =
     (if x \<noteq> v then Inl (Abort ''x.v_ == v_'')
      else if x AND lock_bit P = 0 then Inl (Abort ''x.v_ & P::lock_bit'')
      else Inr (if x AND splitting_bit P \<noteq> 0
                then (x + vsplit_lowbit P) AND split_unlock_mask P
                else (x + push_bit 2 (x AND inserting_bit P)) AND unlock_mask P))"

definition nv_mark_insert :: "'a::len word nvparams \<Rightarrow> 'a word \<Rightarrow> 'a word res" where
  "nv_mark_insert P v = assert_res ''locked()'' (nv_locked P v) (v OR inserting_bit P)"

definition nv_mark_insert_version :: "'a::len word nvparams \<Rightarrow> 'a word \<Rightarrow> 'a word \<Rightarrow> 'a word res" where
  "nv_mark_insert_version P v current =
     (if v \<noteq> current then Inl (Abort ''v_ == current_version.v_'')
      else if current AND lock_bit P = 0 then Inl (Abort ''current_version.v_ & P::lock_bit'')
      else Inr (current OR inserting_bit P))"

definition nv_mark_split :: "'a::len word nvparams \<Rightarrow> 'a word \<Rightarrow> 'a word res" where
  "nv_mark_split P v = assert_res ''locked()'' (nv_locked P v) (v OR splitting_bit P)"

definition nv_mark_change :: "'a::len word nvparams \<Rightarrow> bool \<Rightarrow> 'a word \<Rightarrow> 'a word res" where
  "nv_mark_change P is_split v =
     assert_res ''locked()'' (nv_locked P v) (v OR push_bit (inserting_shift P) (if is_split then 2 else 1))"

definition nv_mark_deleted :: "'a::len word nvparams \<Rightarrow> 'a word \<Rightarrow> 'a word res" where
  "nv_mark_deleted P v =
     assert_res ''locked()'' (nv_locked P v) (v OR (deleted_bit P OR splitting_bit P))"

definition nv_mark_root :: "'a::len word nvparams \<Rightarrow> 'a word \<Rightarrow> 'a word" where
  "nv_mark_root P v = v OR root_bit P"

definition nv_mark_nonroot :: "'a::len word nvparams \<Rightarrow> 'a word \<Rightarrow> 'a word" where
  "nv_mark_nonroot P v = v AND NOT (root_bit P)"

subsection \<open>basic_singlethreaded_nodeversion\<close>

text \<open>
  The single-threaded variant has no lock and no counter: its queries are constant, and only the root
  and leaf bits are kept.
\<close>

definition sv_new :: "'a::len word nvparams \<Rightarrow> bool \<Rightarrow> 'a word" where
  "sv_new P isleaf = (if isleaf then isleaf_bit P else 0)"

definition sv_isleaf :: "'a::len word nvparams \<Rightarrow> 'a word \<Rightarrow> bool" where
  "sv_isleaf P v \<longleftrightarrow> v AND isleaf_bit P \<noteq> 0"

definition sv_stable :: "'a::len word \<Rightarrow> 'a word" where
  "sv_stable v = v"

definition sv_locked :: "'a::len word \<Rightarrow> bool" where
  "sv_locked v = False"

definition sv_inserting :: "'a::len word \<Rightarrow> bool" where
  "sv_inserting v = False"

definition sv_splitting :: "'a::len word \<Rightarrow> bool" where
  "sv_splitting v = False"

definition sv_deleted :: "'a::len word \<Rightarrow> bool" where
  "sv_deleted v = False"

definition sv_has_changed :: "'a::len word \<Rightarrow> 'a word \<Rightarrow> bool" where
  "sv_has_changed v x = False"

definition sv_has_split_root :: "'a::len word nvparams \<Rightarrow> 'a word \<Rightarrow> bool" where
  "sv_has_split_root P v \<longleftrightarrow> v AND root_bit P = 0"

definition sv_has_split :: "'a::len word \<Rightarrow> 'a word \<Rightarrow> bool" where
  "sv_has_split v x = False"

definition sv_lock :: "'a::len word \<Rightarrow> 'a word" where
  "sv_lock v = v"

definition sv_unlock :: "'a::len word \<Rightarrow> 'a word" where
  "sv_unlock v = v"

definition sv_mark_insert :: "'a::len word \<Rightarrow> 'a word" where
  "sv_mark_insert v = v"

definition sv_mark_split :: "'a::len word nvparams \<Rightarrow> 'a word \<Rightarrow> 'a word" where
  "sv_mark_split P v = v AND NOT (root_bit P)"

definition sv_mark_change :: "'a::len word nvparams \<Rightarrow> bool \<Rightarrow> 'a word \<Rightarrow> 'a word" where
  "sv_mark_change P is_split v = (if is_split then sv_mark_split P v else v)"

definition sv_mark_deleted :: "'a::len word \<Rightarrow> 'a word" where
  "sv_mark_deleted v = v"

definition sv_mark_root :: "'a::len word nvparams \<Rightarrow> 'a word \<Rightarrow> 'a word" where
  "sv_mark_root P v = v OR root_bit P"

definition sv_mark_nonroot :: "'a::len word nvparams \<Rightarrow> 'a word \<Rightarrow> 'a word" where
  "sv_mark_nonroot P v = v AND NOT (root_bit P)"

section \<open>The fields of a 32-bit version\<close>

abbreviation NP :: "u32 nvparams" where
  "NP \<equiv> nodeversion32_parameters"

lemmas np_defs = nodeversion32_parameters_def

text \<open>The change counter: bits 3 to 27.\<close>

definition ctr :: "u32 \<Rightarrow> nat" where
  "ctr v = unat (take_bit 25 (drop_bit 3 v))"

lemma bit_and_pow: "v AND 2 ^ k = 0 \<longleftrightarrow> \<not> bit v k" for v :: "'a::len word"
  using and_exp_eq_0_iff_not_bit [of v k] by simp

lemma or_eq_0: "a OR b = 0 \<longleftrightarrow> a = 0 \<and> b = 0" for a b :: "'a::len word"
  by (auto simp: bit_eq_iff bit_simps)

lemma np_bits: "v AND 1 = 0 \<longleftrightarrow> \<not> bit v 0" "v AND 2 = 0 \<longleftrightarrow> \<not> bit v 1" "v AND 4 = 0 \<longleftrightarrow> \<not> bit v 2"
  "v AND 6 = 0 \<longleftrightarrow> \<not> bit v 1 \<and> \<not> bit v 2" for v :: u32
proof -
  show "v AND 1 = 0 \<longleftrightarrow> \<not> bit v 0" using bit_and_pow [of v 0] by simp
  show b: "v AND 2 = 0 \<longleftrightarrow> \<not> bit v 1" "v AND 4 = 0 \<longleftrightarrow> \<not> bit v 2"
    using bit_and_pow [of v 1] bit_and_pow [of v 2] by simp_all
  have "v AND (2 OR 4) = (v AND 2) OR (v AND 4)" by (rule bit.conj_disj_distrib)
  then have "v AND (2 OR 4) = 0 \<longleftrightarrow> \<not> bit v 1 \<and> \<not> bit v 2" using b by (simp only: or_eq_0)
  then show "v AND 6 = 0 \<longleftrightarrow> \<not> bit v 1 \<and> \<not> bit v 2" by simp
qed

lemma ctr_eqI:
  assumes "\<And>k. 3 \<le> k \<Longrightarrow> k < 28 \<Longrightarrow> bit v k = bit w k"
  shows "ctr v = ctr w"
proof -
  have "take_bit 25 (drop_bit 3 v) = take_bit 25 (drop_bit 3 w)"
    by (rule bit_word_eqI) (use assms in \<open>auto simp: bit_simps\<close>)
  then show ?thesis by (simp add: ctr_def)
qed

lemma ctr_nat: "ctr v = unat v div 8 mod 2 ^ 25"
proof -
  have "unat (take_bit 25 (drop_bit 3 v)) = take_bit 25 (drop_bit 3 (unat v))"
    by (simp only: unsigned_take_bit_eq unsigned_drop_bit_eq)
      (simp add: take_bit_drop_bit)
  also have "\<dots> = unat v div 8 mod 2 ^ 25"
    by (simp only: take_bit_nat_def drop_bit_nat_def) simp
  finally show ?thesis by (simp add: ctr_def)
qed

lemma ctr_add: "ctr (v + of_nat (8 * n)) = (ctr v + n) mod 2 ^ 25"
proof -
  have "unat (v + of_nat (8 * n)) = (unat v + 8 * n) mod 2 ^ 32"
    by (simp only: unat_word_ariths unat_of_nat mod_add_right_eq) simp
  moreover have "(unat v + 8 * n) mod 2 ^ 32 div 8 mod 2 ^ 25 = (unat v + 8 * n) div 8 mod 2 ^ 25"
  proof -
    have "(unat v + 8 * n) mod (8 * 2 ^ 29) div 8 = (unat v + 8 * n) div 8 mod 2 ^ 29"
      by (simp only: mod_mult2_eq)
    then show ?thesis by (simp add: mod_mod_cancel)
  qed
  moreover have "(unat v + 8 * n) div 8 = unat v div 8 + n" by simp
  ultimately show ?thesis by (simp add: ctr_nat mod_add_left_eq)
qed

lemma bit_ctr: "bit (ctr v) k \<longleftrightarrow> k < 25 \<and> bit v (k + 3)"
proof -
  have "bit (ctr v) k \<longleftrightarrow> bit (take_bit 25 (drop_bit 3 v)) k"
    unfolding ctr_def by (simp add: bit_unsigned_iff)
  then show ?thesis by (auto simp: bit_simps add.commute)
qed

text \<open>Adding to the counter does not carry past the unused bit 28 while that bit is clear.\<close>

lemma div_add_small: "a mod m + b < m \<Longrightarrow> (a + b) div m = a div (m :: nat)"
  using div_add1_eq [of a b m] by simp

lemma add_high_bits:
  assumes v: "\<not> bit v 28" and n: "8 * n \<le> 2 ^ 28" and k: "29 \<le> k"
  shows "bit (v + of_nat (8 * n)) k = bit (v :: u32) k"
proof -
  have lt: "unat v mod 2 ^ 29 < 2 ^ 28"
  proof -
    have "\<not> bit (unat v) 28" using v by (simp add: bit_unsigned_iff)
    then have "bit (take_bit 29 (unat v)) k = bit (take_bit 28 (unat v)) k" for k
      by (cases "k = 28") (auto simp: bit_take_bit_iff)
    then have "take_bit 29 (unat v) = take_bit 28 (unat v)" by (intro bit_eqI) blast
    then show ?thesis using take_bit_nat_less_exp [of 28 "unat v"] by (simp add: take_bit_nat_def)
  qed
  have e: "unat (v + of_nat (8 * n)) = (unat v + 8 * n) mod 2 ^ 32"
    by (simp only: unat_word_ariths unat_of_nat mod_add_right_eq) simp
  have d: "(unat v + 8 * n) div 2 ^ 29 = unat v div 2 ^ 29"
    by (rule div_add_small) (use lt n in simp)
  have "drop_bit 29 (unat (v + of_nat (8 * n))) = drop_bit 29 (unat v)"
  proof -
    have "unat v < 2 ^ 32" using unsigned_less [of v] by simp
    then have "unat v div 2 ^ 29 < 8" by (simp add: div_less_iff_less_mult)
    then have "(unat v + 8 * n) div 2 ^ 29 < 8" by (simp only: d)
    then have "unat v + 8 * n < 2 ^ 32" by (simp add: div_less_iff_less_mult)
    then show ?thesis using d e by (simp only: drop_bit_nat_def mod_less)
  qed
  then have "bit (drop_bit 29 (unat (v + of_nat (8 * n)))) (k - 29) = bit (drop_bit 29 (unat v)) (k - 29)"
    by simp
  then show ?thesis using k by (simp add: bit_drop_bit_eq bit_unsigned_iff del: of_nat_mult)
qed

lemma np_unlock_masks:
  "bit (unlock_mask NP) k \<longleftrightarrow> k < 32 \<and> k \<noteq> 28 \<and> 3 \<le> k"
  "bit (split_unlock_mask NP) k \<longleftrightarrow> k < 32 \<and> k \<noteq> 28 \<and> k \<noteq> 30 \<and> 9 \<le> k"
proof -
  have m: "(8 :: u32) - 1 = mask 3" "(512 :: u32) - 1 = mask 9" by (simp_all add: mask_eq_exp_minus_1)
  show "bit (unlock_mask NP) k \<longleftrightarrow> k < 32 \<and> k \<noteq> 28 \<and> 3 \<le> k"
    unfolding np_defs nvparams.simps m
    by (simp only: bit_not_iff bit_or_iff bit_exp_iff bit_mask_iff) auto
  show "bit (split_unlock_mask NP) k \<longleftrightarrow> k < 32 \<and> k \<noteq> 28 \<and> k \<noteq> 30 \<and> 9 \<le> k"
    unfolding np_defs nvparams.simps m
    by (simp only: bit_not_iff bit_or_iff bit_exp_iff bit_mask_iff) auto
qed

lemmas nv_defs = nv_locked_def nv_inserting_def nv_splitting_def nv_deleted_def nv_isleaf_def
  nv_has_split_root_def nv_mark_insert_def nv_mark_split_def nv_mark_change_def nv_mark_deleted_def
  nv_mark_root_def nv_mark_nonroot_def nv_mark_insert_version_def

lemma np_fields [simp]:
  "lock_bit NP = 1" "inserting_shift NP = 1" "inserting_bit NP = 2" "splitting_bit NP = 4"
  "dirty_mask NP = 6" "vinsert_lowbit NP = 8" "vsplit_lowbit NP = 512" "deleted_bit NP = 536870912"
  "root_bit NP = 1073741824" "isleaf_bit NP = 2147483648"
  by (simp_all add: np_defs)

lemma bit_pow32: "n < 32 \<Longrightarrow> bit (2 ^ n :: u32) k \<longleftrightarrow> k = n"
  using bit_exp_iff [of n k, where 'a = u32] by auto

lemma bit_flags:
  "bit (2 :: u32) k \<longleftrightarrow> k = 1" "bit (4 :: u32) k \<longleftrightarrow> k = 2" "bit (536870912 :: u32) k \<longleftrightarrow> k = 29"
  "bit (1073741824 :: u32) k \<longleftrightarrow> k = 30" "bit (2147483648 :: u32) k \<longleftrightarrow> k = 31"
  using bit_pow32 [of 1 k] bit_pow32 [of 2 k] bit_pow32 [of 29 k] bit_pow32 [of 30 k] bit_pow32 [of 31 k]
  by simp_all

lemma and_high_flags:
  "v AND 536870912 = 0 \<longleftrightarrow> \<not> bit v 29" "v AND 1073741824 = 0 \<longleftrightarrow> \<not> bit v 30"
  "v AND 2147483648 = 0 \<longleftrightarrow> \<not> bit v 31" for v :: u32
  using bit_and_pow [of v 29] bit_and_pow [of v 30] bit_and_pow [of v 31] by simp_all

lemma np_queries:
  "nv_locked NP v = bit v 0" "nv_inserting NP v = bit v 1" "nv_splitting NP v = bit v 2"
  "nv_deleted NP v = bit v 29" "nv_isleaf NP v = bit v 31" "nv_has_split_root NP v = (\<not> bit v 30)"
  unfolding nv_defs np_fields np_bits and_high_flags by simp_all

text \<open>
  The layout both parameter sets promise: the increment of an insert is the inserting bit shifted by
  two, the bit below each counter part cannot be reached by a clean word, and the unlock masks clear
  the lock and dirty bits and the bit into which the counter overflows.
\<close>

lemma nv_layouts:
  "vinsert_lowbit NP = push_bit 2 (inserting_bit NP)"
  "unlock_mask NP AND (lock_bit NP OR dirty_mask NP OR unused1_bit NP) = 0"
  "vinsert_lowbit nodeversion64_parameters = push_bit 2 (inserting_bit nodeversion64_parameters)"
  "unlock_mask nodeversion64_parameters AND (lock_bit nodeversion64_parameters OR
     dirty_mask nodeversion64_parameters OR unused1_bit nodeversion64_parameters) = 0"
  by (simp_all add: np_defs nodeversion64_parameters_def)

section \<open>Unlocking\<close>

text \<open>What the counter, read as an unbounded number, becomes when a lock holder unlocks.\<close>

definition next_ctr :: "bool \<Rightarrow> bool \<Rightarrow> nat \<Rightarrow> nat" where
  "next_ctr spl ins c = (if spl then (c div 64 + 1) * 64 else if ins then c + 1 else c)"

lemma insert_increment: "push_bit 2 (v AND 2) = (if bit v 1 then 8 else 0)" for v :: u32
proof -
  have "v AND 2 ^ 1 = (if bit v 1 then 2 ^ 1 else 0)"
    by (rule bit_eqI) (auto simp only: bit_and_iff bit_exp_iff bit_0_eq bot_apply bot_bool_def split: if_split)
  then show ?thesis by (simp add: push_bit_eq_mult)
qed

lemma split_ctr_arith: "(c + 64) mod 2 ^ 25 div 64 * 64 = (c div 64 + 1) * 64 mod 2 ^ 25" for c :: nat
proof -
  have "(c + 64) mod (64 * 2 ^ 19) div 64 = (c + 64) div 64 mod 2 ^ 19" by (simp only: mod_mult2_eq)
  moreover have "(c div 64 + 1) * 64 mod (2 ^ 19 * 64) = (c div 64 + 1) mod 2 ^ 19 * 64"
    by (rule mod_mult_mult2)
  moreover have "(c + 64) div 64 = c div 64 + 1" by simp
  ultimately show ?thesis by simp
qed

lemma next_ctr_mod:
  "next_ctr spl ins (c mod 2 ^ 25) mod 2 ^ 25 = next_ctr spl ins c mod 2 ^ 25"
proof (cases spl)
  case True
  have "(c mod 2 ^ 25 + 64) mod 2 ^ 25 = (c + 64) mod 2 ^ 25" by (rule mod_add_left_eq)
  then show ?thesis using True split_ctr_arith [of "c mod 2 ^ 25"] split_ctr_arith [of c]
    by (simp only: next_ctr_def if_True)
next
  case False
  then show ?thesis by (simp add: next_ctr_def mod_Suc_eq)
qed

lemma next_ctr_bounds: "c \<le> next_ctr spl ins c" "next_ctr spl ins c \<le> c + 64"
  "spl \<or> ins \<Longrightarrow> c < next_ctr spl ins c"
  by (auto simp: next_ctr_def)

lemma ctr_split_mask: "ctr (w AND split_unlock_mask NP) = ctr w div 64 * 64"
proof (rule bit_eqI)
  fix k
  have "ctr w div 64 * 64 = push_bit 6 (drop_bit 6 (ctr w))"
    by (simp add: push_bit_nat_def drop_bit_nat_def)
  then show "bit (ctr (w AND split_unlock_mask NP)) k = bit (ctr w div 64 * 64) k"
    by (auto simp: bit_ctr bit_and_iff np_unlock_masks bit_push_bit_iff bit_drop_bit_eq add.commute)
qed

lemma ctr_insert_mask: "ctr (w AND unlock_mask NP) = ctr w"
  by (rule bit_eqI) (auto simp: bit_ctr bit_and_iff np_unlock_masks)

definition unlocked :: "u32 \<Rightarrow> u32" where
  "unlocked v = (if bit v 2 then (v + 512) AND split_unlock_mask NP
                 else (v + (if bit v 1 then 8 else 0)) AND unlock_mask NP)"

lemma nv_unlock_eq: "bit v 0 \<Longrightarrow> nv_unlock NP v v = Inr (unlocked v)"
  unfolding nv_unlock_def np_fields insert_increment np_bits unlocked_def by simp

lemma ctr_unlocked: "ctr (unlocked v) = next_ctr (bit v 2) (bit v 1) (ctr v) mod 2 ^ 25"
proof (cases "bit v 2")
  case True
  have "ctr (v + of_nat (8 * 64)) = (ctr v + 64) mod 2 ^ 25" by (rule ctr_add)
  then have "ctr (v + 512) = (ctr v + 64) mod 2 ^ 25" by simp
  with True show ?thesis by (simp only: unlocked_def next_ctr_def if_True ctr_split_mask split_ctr_arith)
next
  case False
  have "ctr (v + of_nat (8 * 1)) = (ctr v + 1) mod 2 ^ 25" by (rule ctr_add)
  moreover have "ctr v mod 2 ^ 25 = ctr v" by (simp add: ctr_nat)
  ultimately show ?thesis using False by (simp add: unlocked_def next_ctr_def ctr_insert_mask)
qed

lemma unlocked_bits:
  assumes "\<not> bit v 28"
  shows "\<not> bit (unlocked v) 0" "\<not> bit (unlocked v) 1" "\<not> bit (unlocked v) 2" "\<not> bit (unlocked v) 28"
    "bit (unlocked v) 29 = bit v 29" "bit (unlocked v) 30 = (bit v 30 \<and> \<not> bit v 2)"
    "bit (unlocked v) 31 = bit v 31"
proof -
  have h: "bit (v + 512) k = bit v k" "bit (v + 8) k = bit v k" if "29 \<le> k" for k
    using add_high_bits [OF assms _ that, of 64] add_high_bits [OF assms _ that, of 1] by simp_all
  show "\<not> bit (unlocked v) 0" "\<not> bit (unlocked v) 1" "\<not> bit (unlocked v) 2" "\<not> bit (unlocked v) 28"
    by (auto simp: unlocked_def bit_and_iff np_unlock_masks)
  show "bit (unlocked v) 29 = bit v 29" "bit (unlocked v) 30 = (bit v 30 \<and> \<not> bit v 2)"
    "bit (unlocked v) 31 = bit v 31"
    by (auto simp: unlocked_def bit_and_iff np_unlock_masks h)
qed

section \<open>Writers and readers\<close>

text \<open>
  The operations a writer may apply to a node it has locked.
\<close>

datatype nvmark = MarkInsert | MarkSplit | MarkChange bool | MarkDeleted | MarkRoot | MarkNonroot

fun nv_mark :: "nvmark \<Rightarrow> u32 \<Rightarrow> u32 res" where
  "nv_mark MarkInsert v = nv_mark_insert NP v"
| "nv_mark MarkSplit v = nv_mark_split NP v"
| "nv_mark (MarkChange b) v = nv_mark_change NP b v"
| "nv_mark MarkDeleted v = nv_mark_deleted NP v"
| "nv_mark MarkRoot v = Inr (nv_mark_root NP v)"
| "nv_mark MarkNonroot v = Inr (nv_mark_nonroot NP v)"

text \<open>
  The word together with the threads that returned from \<open>lock\<close> and not yet from \<open>unlock\<close>, the
  number of changes released so far and the counter as an unbounded number.
\<close>

record nvstate =
  ver :: u32
  holders :: "nat set"
  changes :: nat
  total :: nat

definition nv_release :: "nat \<Rightarrow> u32 \<Rightarrow> nvstate \<Rightarrow> nvstate" where
  "nv_release t w s =
     s\<lparr>ver := w, holders := holders s - {t},
       changes := changes s + (if bit (ver s) 1 \<or> bit (ver s) 2 then 1 else 0),
       total := next_ctr (bit (ver s) 2) (bit (ver s) 1) (total s)\<rparr>"

inductive nvstep :: "nvstate \<Rightarrow> nvstate \<Rightarrow> bool" where
  acquire: "nv_lock_try NP (ver s) e = Inr (w, r) \<Longrightarrow>
    nvstep s (s\<lparr>ver := w, holders := insert t (holders s)\<rparr>)"
| mark: "t \<in> holders s \<Longrightarrow> nv_mark m (ver s) = Inr w \<Longrightarrow> nvstep s (s\<lparr>ver := w\<rparr>)"
| release: "t \<in> holders s \<Longrightarrow> nv_unlock NP (ver s) (ver s) = Inr w \<Longrightarrow> nvstep s (nv_release t w s)"

definition nv_init :: "bool \<Rightarrow> bool \<Rightarrow> nvstate" where
  "nv_init isleaf isroot =
     \<lparr>ver = (if isroot then nv_mark_root NP (nv_new NP isleaf) else nv_new NP isleaf),
      holders = {}, changes = 0, total = 0\<rparr>"

definition nv_inv :: "nvstate \<Rightarrow> bool" where
  "nv_inv s \<longleftrightarrow>
     (holders s = {} \<or> (\<exists>t. holders s = {t})) \<and> (bit (ver s) 0 \<longleftrightarrow> holders s \<noteq> {}) \<and>
     (bit (ver s) 1 \<or> bit (ver s) 2 \<longrightarrow> bit (ver s) 0) \<and> \<not> bit (ver s) 28 \<and>
     ctr (ver s) = total s mod 2 ^ 25"

text \<open>A mark sets or clears flags outside the lock bit, the counter and bit 28.\<close>

lemma mark_bits:
  assumes "nv_mark m v = Inr w" "k = 0 \<or> 3 \<le> k \<and> k \<le> 28"
  shows "bit w k = bit v k"
proof -
  have sh: "push_bit 1 (2 :: u32) = 4" "push_bit 1 (1 :: u32) = 2" by simp_all
  have k: "\<not> bit (2 :: u32) k" "\<not> bit (4 :: u32) k" "\<not> bit (536870912 :: u32) k" "\<not> bit (1073741824 :: u32) k"
    and p: "possible_bit TYPE(u32) k"
    unfolding bit_flags using assms(2) by auto
  show ?thesis
  proof (cases m)
    case (MarkChange b)
    then show ?thesis using assms(1) k
      by (cases b) (auto simp only: nv_mark.simps nv_defs np_fields assert_res_Inr sh bit_or_iff if_True if_False)
  qed (use assms(1) k p in \<open>auto simp only: nv_mark.simps nv_defs np_fields assert_res_Inr sum.inject
         bit_or_iff bit_and_iff bit_not_iff\<close>)
qed

lemma mark_succeeds: "bit v 0 \<Longrightarrow> \<exists>w. nv_mark m v = Inr w"
  by (cases m) (simp_all add: nv_defs np_bits)

lemma lock_try_Inr:
  "nv_lock_try NP v e = Inr (w, r) \<longleftrightarrow>
     e = v \<and> \<not> bit v 0 \<and> w = v OR 1 \<and>
     r = (if \<not> bit v 1 \<and> \<not> bit v 2 then Inr (v OR 1) else Inl (Abort ''!(expected.v_ & P::dirty_mask)''))"
  unfolding nv_lock_try_def np_fields np_bits by auto

lemma bit_or_1: "bit (v OR 1) k = (bit v k \<or> k = 0)" for v :: u32
  by (simp add: bit_or_iff bit_1_iff)

lemma nv_init_inv: "nv_inv (nv_init isleaf isroot)"
proof -
  have b: "bit (ver (nv_init isleaf isroot)) k \<longleftrightarrow> isleaf \<and> k = 31 \<or> isroot \<and> k = 30" for k
    unfolding nv_init_def nv_mark_root_def nv_new_def np_fields by (auto simp: bit_or_iff bit_flags simp del: bit_numeral_word_iff)
  have "ctr (ver (nv_init isleaf isroot)) = 0"
    by (rule bit_eqI) (simp add: bit_ctr b)
  then show ?thesis by (simp add: nv_inv_def b) (simp add: nv_init_def)
qed

lemma nv_inv_step:
  assumes "nvstep s s'" "nv_inv s"
  shows "nv_inv s'"
  using assms
proof (cases rule: nvstep.cases)
  case (acquire e w r t)
  have "ctr (ver s OR 1) = ctr (ver s)" by (rule ctr_eqI) (simp add: bit_or_1)
  then show ?thesis using acquire assms(2) by (auto simp: lock_try_Inr nv_inv_def bit_or_1)
next
  case (mark t m w)
  have "ctr w = ctr (ver s)" by (rule ctr_eqI) (simp add: mark_bits [OF mark(3)])
  then show ?thesis using mark assms(2) mark_bits [OF mark(3)] by (auto simp: nv_inv_def)
next
  case (release t w)
  have l: "bit (ver s) 0" using release assms(2) by (auto simp: nv_inv_def)
  then have w: "w = unlocked (ver s)" using release(3) nv_unlock_eq by auto
  have "\<not> bit (ver s) 28" "ctr (ver s) = total s mod 2 ^ 25" "holders s - {t} = {}"
    using assms(2) release by (auto simp: nv_inv_def)
  then show ?thesis using release(1) unlocked_bits [of "ver s"] ctr_unlocked [of "ver s"]
    by (simp only: nv_inv_def nv_release_def w next_ctr_mod nvstate.simps) simp
qed

lemma nv_inv_steps: "nvstep\<^sup>*\<^sup>* s s' \<Longrightarrow> nv_inv s \<Longrightarrow> nv_inv s'"
  by (induction rule: rtranclp_induct) (auto intro: nv_inv_step)

lemma nv_total_steps:
  "nvstep\<^sup>*\<^sup>* s s' \<Longrightarrow> changes s \<le> changes s' \<and> total s + (changes s' - changes s) \<le> total s' \<and>
     total s' \<le> total s + 64 * (changes s' - changes s)"
proof (induction rule: rtranclp_induct)
  case base
  show ?case by simp
next
  case (step y z)
  from step.hyps(2) show ?case
  proof (cases rule: nvstep.cases)
    case (release t w)
    show ?thesis
    proof (cases "bit (ver y) 1 \<or> bit (ver y) 2")
      case True
      have "total y < total z" "total z \<le> total y + 64" "changes z = changes y + 1"
        using True release(1) next_ctr_bounds(2) next_ctr_bounds(3) [of "bit (ver y) 2" "bit (ver y) 1"]
        by (auto simp: nv_release_def)
      then show ?thesis using step.IH by linarith
    next
      case False
      then have "total z = total y" "changes z = changes y"
        using release(1) by (simp_all add: nv_release_def next_ctr_def)
      then show ?thesis using step.IH by (simp only:)
    qed
  qed (use step.IH in auto)
qed

lemma not_has_changed_iff: "\<not> nv_has_changed NP v x \<longleftrightarrow> (\<forall>k\<ge>1. bit v k = bit x k)"
proof -
  have "\<not> nv_has_changed NP v x \<longleftrightarrow> unat (x XOR v) < 2"
    by (auto simp: nv_has_changed_def word_le_nat_alt word_less_nat_alt)
  also have "\<dots> \<longleftrightarrow> drop_bit 1 (unat (x XOR v)) = 0" unfolding drop_bit_nat_def by (simp add: div_eq_0_iff)
  also have "\<dots> \<longleftrightarrow> (\<forall>k. \<not> bit (unat (x XOR v)) (Suc k))" by (simp add: bit_eq_iff bit_drop_bit_eq)
  also have "\<dots> \<longleftrightarrow> (\<forall>k. bit v (Suc k) = bit x (Suc k))"
    by (auto simp: bit_unsigned_iff bit_xor_iff)
  also have "\<dots> \<longleftrightarrow> (\<forall>k\<ge>1. bit v k = bit x k)" by (metis One_nat_def Suc_le_D le_add1 plus_1_eq_Suc)
  finally show ?thesis .
qed

text \<open>A writer's whole critical section around a split.\<close>

lemma split_cycle:
  assumes "nv_inv s" "holders s = {}"
  shows "\<exists>s'. nvstep\<^sup>*\<^sup>* s s' \<and> nv_inv s' \<and> holders s' = {} \<and> changes s' = changes s + 1 \<and>
           total s' = (total s div 64 + 1) * 64 \<and>
           bit (ver s') 29 = bit (ver s) 29 \<and> \<not> bit (ver s') 30 \<and> bit (ver s') 31 = bit (ver s) 31"
proof -
  let ?v = "ver s" let ?w = "(ver s OR 1) OR 4"
  let ?s1 = "s\<lparr>ver := ?v OR 1, holders := {0}\<rparr>" let ?s2 = "?s1\<lparr>ver := ?w\<rparr>"
  let ?s3 = "nv_release 0 (unlocked ?w) ?s2"
  have c: "\<not> bit ?v 0" "\<not> bit ?v 28" using assms by (auto simp: nv_inv_def)
  have w: "bit ?w k \<longleftrightarrow> bit ?v k \<or> k = 0 \<or> k = 2" for k
    by (simp only: bit_or_1 bit_or_iff [of "ver s OR 1"] bit_flags) auto
  have 1: "nvstep s ?s1"
    using acquire [of s ?v "?v OR 1" _ 0] c assms(2) by (simp add: lock_try_Inr)
  have 2: "nvstep ?s1 ?s2"
    by (rule mark [where m = MarkSplit and t = 0]) (simp_all add: nv_defs np_bits bit_or_1)
  have 3: "nvstep ?s2 ?s3"
    by (rule release) (use nv_unlock_eq [of ?w] w [of 0] in auto)
  have steps: "nvstep\<^sup>*\<^sup>* s ?s3" using 1 2 3 by (meson converse_rtranclp_into_rtranclp rtranclp.rtrancl_refl)
  moreover have "nv_inv ?s3" using nv_inv_steps [OF steps assms(1)] .
  moreover have "bit (unlocked ?w) 29 = bit ?v 29" "\<not> bit (unlocked ?w) 30" "bit (unlocked ?w) 31 = bit ?v 31"
    using unlocked_bits [of ?w] w c by auto
  ultimately show ?thesis
    by (intro exI [of _ ?s3]) (simp add: nv_release_def next_ctr_def w)
qed

lemma split_cycles:
  "\<exists>s. nvstep\<^sup>*\<^sup>* (nv_init l False) s \<and> nv_inv s \<and> holders s = {} \<and> changes s = n \<and> total s = 64 * n \<and>
     \<not> bit (ver s) 29 \<and> \<not> bit (ver s) 30 \<and> bit (ver s) 31 = l"
proof (induction n)
  case 0
  have b: "bit (ver (nv_init l False)) k \<longleftrightarrow> l \<and> k = 31" for k
    unfolding nv_init_def nv_new_def np_fields by (simp add: bit_flags del: bit_numeral_word_iff)
  show ?case
    by (rule exI [of _ "nv_init l False"]) (use nv_init_inv [of l False] b in \<open>auto simp: nv_init_def\<close>)
next
  case (Suc n)
  then obtain s where s: "nvstep\<^sup>*\<^sup>* (nv_init l False) s" "nv_inv s" "holders s = {}" "changes s = n"
    "total s = 64 * n" "\<not> bit (ver s) 29" "\<not> bit (ver s) 30" "bit (ver s) 31 = l" by blast
  from split_cycle [OF s(2,3)] obtain s' where "nvstep\<^sup>*\<^sup>* s s'" "nv_inv s'" "holders s' = {}"
    "changes s' = n + 1" "total s' = 64 * (n + 1)" "\<not> bit (ver s') 29" "\<not> bit (ver s') 30"
    "bit (ver s') 31 = l" using s by auto
  then show ?case using s(1) by (intro exI [of _ s']) auto
qed

section \<open>Properties\<close>



text \<open>A locked node: thread 0 has taken the lock of a new leaf.\<close>

definition ex_locked :: nvstate where
  "ex_locked = \<lparr>ver = 2147483649, holders = {0}, changes = 0, total = 0\<rparr>"

lemma ex_locked_step: "nvstep (nv_init True False) ex_locked"
proof -
  have "ver (nv_init True False) = 2147483648" by (simp add: nv_init_def nv_new_def)
  then show ?thesis
    using acquire [of "nv_init True False" 2147483648 2147483649 "Inr 2147483649" 0]
    by (simp add: lock_try_Inr nv_init_def ex_locked_def nv_lock_try_def)
qed

text \<open>
  C28. At most one thread holds a node's lock. A holder can always mark and unlock without failing an
  assertion, and a \<open>lock\<close> succeeds only on a free node, whose version is clean.
\<close>

theorem version_lock_exclusive:
  assumes "nvstep\<^sup>*\<^sup>* (nv_init isleaf isroot) s"
  shows "(t \<in> holders s \<and> u \<in> holders s \<longrightarrow> t = u) \<and>
     (t \<in> holders s \<longrightarrow> (\<exists>w. nv_unlock NP (ver s) (ver s) = Inr w) \<and> (\<forall>m. \<exists>w. nv_mark m (ver s) = Inr w)) \<and>
     (nv_lock_try NP (ver s) e = Inr (w, r) \<longrightarrow> holders s = {} \<and> r = Inr w)"
proof -
  have "nv_inv s" using nv_inv_steps [OF assms] nv_init_inv .
  then show ?thesis using nv_unlock_eq [of "ver s"] mark_succeeds [of "ver s"]
    by (auto simp: nv_inv_def lock_try_Inr)
qed

theorem version_lock_exclusive_witness:
  "nvstep\<^sup>*\<^sup>* (nv_init True False) ex_locked \<and> 0 \<in> holders ex_locked \<and>
   (\<exists>w. nv_unlock NP (ver ex_locked) (ver ex_locked) = Inr w) \<and> (\<exists>w. nv_mark MarkSplit (ver ex_locked) = Inr w)"
proof -
  have h: "nvstep\<^sup>*\<^sup>* (nv_init True False) ex_locked" "0 \<in> holders ex_locked"
    using ex_locked_step by (auto simp: ex_locked_def)
  then show ?thesis using version_lock_exclusive [OF h(1), of 0 0] by blast
qed

text \<open>
  C29. Optimistic reading: if a reader took a stable version and later finds it unchanged, and fewer
  than \<open>2 ^ 19\<close> changes could have completed in between, then none did and none is under way.
\<close>

theorem version_reader:
  assumes "nvstep\<^sup>*\<^sup>* (nv_init isleaf isroot) s" "nv_stable NP [ver s] = Some (x, [])"
    "nvstep\<^sup>*\<^sup>* s s'" "\<not> nv_has_changed NP (ver s') x" "changes s' < changes s + 2 ^ 19"
  shows "changes s' = changes s \<and> \<not> nv_inserting NP (ver s') \<and> \<not> nv_splitting NP (ver s')"
proof -
  have x: "x = ver s" "\<not> bit x 1" "\<not> bit x 2"
    using assms(2) by (auto simp: np_bits split: if_splits)
  have i: "nv_inv s" "nv_inv s'"
    using nv_inv_steps [OF assms(1) nv_init_inv] nv_inv_steps [OF assms(3)] by blast+
  have b: "bit (ver s') k = bit (ver s) k" if "1 \<le> k" for k
    using assms(4) that x(1) not_has_changed_iff by blast
  have "ctr (ver s') = ctr (ver s)" by (rule ctr_eqI) (simp add: b)
  then have "total s' mod 2 ^ 25 = total s mod 2 ^ 25" using i by (simp add: nv_inv_def)
  moreover have t: "changes s \<le> changes s'" "total s + (changes s' - changes s) \<le> total s'"
    "total s' \<le> total s + 64 * (changes s' - changes s)"
    using nv_total_steps [OF assms(3)] by blast+
  moreover have "64 * (changes s' - changes s) < 2 ^ 25" using assms(5) by simp
  ultimately have "total s \<le> total s'" "2 ^ 25 dvd total s' - total s" "total s' - total s < 2 ^ 25"
    using mod_eq_dvd_iff_nat [of "total s" "total s'" "2 ^ 25"] by linarith+
  then have "total s' = total s" using dvd_imp_le [of "2 ^ 25" "total s' - total s"] by linarith
  then show ?thesis using t x b [of 1] b [of 2] by (simp add: np_queries)
qed

theorem version_reader_witness:
  "nv_stable NP [ver (nv_init True False)] = Some (2147483648, []) \<and> nvstep\<^sup>*\<^sup>* (nv_init True False) ex_locked \<and>
   \<not> nv_has_changed NP (ver ex_locked) 2147483648 \<and> changes ex_locked = changes (nv_init True False) \<and>
   \<not> nv_splitting NP (ver ex_locked)"
proof -
  have h: "nv_stable NP [ver (nv_init True False)] = Some (2147483648, [])"
    "\<not> nv_has_changed NP (ver ex_locked) 2147483648" "changes ex_locked < changes (nv_init True False) + 2 ^ 19"
    by (simp_all add: nv_init_def nv_new_def nv_has_changed_def ex_locked_def)
  have r: "nvstep\<^sup>*\<^sup>* (nv_init True False) ex_locked" using ex_locked_step by blast
  show ?thesis using version_reader [OF rtranclp.rtrancl_refl h(1) r h(2,3)] h r by blast
qed

text \<open>
  The bound is exact: \<open>2 ^ 19\<close> splits of a node that is not a root bring its version back to
  the value it had, and \<open>has_changed\<close> does not see them.
\<close>

theorem version_wraps:
  "\<exists>s. nvstep\<^sup>*\<^sup>* (nv_init isleaf False) s \<and> changes s = 2 ^ 19 \<and> \<not> nv_has_changed NP (ver s) (ver (nv_init isleaf False))"
proof -
  from split_cycles [of isleaf 0] split_cycles [of isleaf "2 ^ 19"]
  obtain s where s: "nvstep\<^sup>*\<^sup>* (nv_init isleaf False) s" "nv_inv s" "holders s = {}" "changes s = 2 ^ 19"
    "total s = 64 * 2 ^ 19" "\<not> bit (ver s) 29" "\<not> bit (ver s) 30" "bit (ver s) 31 = isleaf" by blast
  have v0: "bit (ver (nv_init isleaf False)) k \<longleftrightarrow> isleaf \<and> k = 31" for k
    unfolding nv_init_def nv_new_def np_fields by (simp add: bit_flags del: bit_numeral_word_iff)
  have c: "ctr (ver s) = 0" using s(2,5) by (simp add: nv_inv_def)
  have "bit (ver s) k = bit (ver (nv_init isleaf False)) k" for k
  proof -
    consider "k < 3" | "3 \<le> k" "k < 28" | "k = 28" | "k = 29" | "k = 30" | "k = 31" | "32 \<le> k" by linarith
    then show ?thesis
    proof cases
      case 1
      then have "k = 0 \<or> k = 1 \<or> k = 2" by auto
      then show ?thesis using s(2,3) v0 by (auto simp: nv_inv_def)
    next
      case 2
      then have "bit (ctr (ver s)) (k - 3) = bit (ver s) k" by (simp add: bit_ctr) linarith
      then show ?thesis using c v0 2 by simp
    next
      case 7
      then show ?thesis using bit_imp_le_length [of "ver s" k] v0 by auto
    qed (use s v0 in \<open>auto simp: nv_inv_def\<close>)
  qed
  then show ?thesis using s(1,4) by (intro exI [of _ s]) (simp add: not_has_changed_iff)
qed

end
