(* ===== verification/Masstree_Internode.thy ===== *)
theory Masstree_Internode
  imports Masstree_Version
begin

text \<open>
  Internal nodes of the Masstree B+-tree: class \<open>internode\<close> of \<^verbatim>\<open>src/masstree/masstree_struct.hh\<close> and
  \<open>internode_split\<close> of \<^verbatim>\<open>src/masstree/masstree_split.hh\<close>, with the part of \<open>finish_split\<close> that inserts
  into a parent. A node is an address; the arrays are lists whose length is the declared one, and an
  access outside is undefined behaviour. Parent pointers live in the children, so they are a map from
  nodes to their parents. The theory shows that splitting while inserting is list insertion followed by
  cutting the lists at the middle.
\<close>

section \<open>Definitions\<close>

type_synonym node = nat

type_synonym parents = "node \<Rightarrow> node option"

record internode =
  in_ver :: u32
  nkeys :: nat
  ikeys :: "u64 list"
  children :: "node list"

definition in_size :: "internode \<Rightarrow> nat" where
  "in_size n = nkeys n"

text \<open>\<open>memcpy\<close> between two arrays and \<open>memmove\<close> within one.\<close>

definition blit :: "'a list \<Rightarrow> nat \<Rightarrow> 'a list \<Rightarrow> nat \<Rightarrow> nat \<Rightarrow> 'a list res" where
  "blit dst p src xp n =
     (if p + n \<le> length dst \<and> xp + n \<le> length src
      then Inr (take p dst @ take n (drop xp src) @ drop (p + n) dst)
      else Inl (Undefined ''array bounds''))"

definition put :: "nat \<Rightarrow> 'a \<Rightarrow> 'a list \<Rightarrow> 'a list res" where
  "put i x xs = (if i < length xs then Inr (xs[i := x]) else Inl (Undefined ''array bounds''))"

definition at :: "'a list \<Rightarrow> nat \<Rightarrow> 'a res" where
  "at xs i = (if i < length xs then Inr (xs ! i) else Inl (Undefined ''array bounds''))"

definition in_assign :: "node \<Rightarrow> nat \<Rightarrow> u64 \<Rightarrow> node \<Rightarrow> internode \<times> parents \<Rightarrow> (internode \<times> parents) res" where
  "in_assign self p ikey c = (\<lambda>(n, par).
     bind_res (put (p + 1) c (children n)) (\<lambda>cs.
     bind_res (put p ikey (ikeys n)) (\<lambda>iks.
       Inr (n\<lparr>children := cs, ikeys := iks\<rparr>, par(c \<mapsto> self)))))"

definition shift_from :: "nat \<Rightarrow> internode \<Rightarrow> nat \<Rightarrow> nat \<Rightarrow> internode \<Rightarrow> internode res" where
  "shift_from p x xp n this =
     (if n \<noteq> 0
      then bind_res (blit (ikeys this) p (ikeys x) xp n) (\<lambda>iks.
           bind_res (blit (children this) (p + 1) (children x) (xp + 1) n) (\<lambda>cs.
             Inr (this\<lparr>ikeys := iks, children := cs\<rparr>)))
      else Inr this)"

text \<open>The loops over the children of \<open>shift_up\<close>, from the last one, and \<open>shift_down\<close>, from the first one.\<close>

fun up_loop :: "nat \<Rightarrow> nat \<Rightarrow> nat \<Rightarrow> 'a list \<Rightarrow> 'a list res" where
  "up_loop a b 0 cs = Inr cs"
| "up_loop a b (Suc n) cs = bind_res (at cs (b + Suc n)) (\<lambda>c. bind_res (put (a + Suc n) c cs) (up_loop a b n))"

fun down_loop :: "nat \<Rightarrow> nat \<Rightarrow> nat \<Rightarrow> 'a list \<Rightarrow> 'a list res" where
  "down_loop a b 0 cs = Inr cs"
| "down_loop a b (Suc n) cs = bind_res (at cs b) (\<lambda>c. bind_res (put a c cs) (down_loop (Suc a) (Suc b) n))"

definition shift_up :: "nat \<Rightarrow> nat \<Rightarrow> nat \<Rightarrow> internode \<Rightarrow> internode res" where
  "shift_up p xp n this =
     bind_res (blit (ikeys this) p (ikeys this) xp n) (\<lambda>iks.
     bind_res (up_loop p xp n (children this)) (\<lambda>cs. Inr (this\<lparr>ikeys := iks, children := cs\<rparr>)))"

definition shift_down :: "nat \<Rightarrow> nat \<Rightarrow> nat \<Rightarrow> internode \<Rightarrow> internode res" where
  "shift_down p xp n this =
     bind_res (blit (ikeys this) p (ikeys this) xp n) (\<lambda>iks.
     bind_res (down_loop (p + 1) (xp + 1) n (children this)) (\<lambda>cs. Inr (this\<lparr>ikeys := iks, children := cs\<rparr>)))"

text \<open>\<open>internode_split\<close>: the two nodes, the key that goes up, the position left to insert at, the parents.\<close>

definition split_mid :: "nat \<Rightarrow> nat \<Rightarrow> nat" where
  "split_mid width split_type = (if split_type = 2 then width else (width + 1) div 2)"

definition split_right ::
    "nat \<Rightarrow> nat \<Rightarrow> internode \<Rightarrow> node \<Rightarrow> internode \<Rightarrow> nat \<Rightarrow> u64 \<Rightarrow> node \<Rightarrow> parents \<Rightarrow> (internode \<times> parents \<times> u64) res" where
  "split_right width mid nl nr_id nr p ka value par =
     (if p < mid
      then bind_res (at (children nl) mid) (\<lambda>c. bind_res (put 0 c (children nr)) (\<lambda>cs.
           bind_res (shift_from 0 nl mid (width - mid) (nr\<lparr>children := cs\<rparr>)) (\<lambda>nr'.
           bind_res (at (ikeys nl) (mid - 1)) (\<lambda>k. Inr (nr', par, k)))))
      else if p = mid
      then bind_res (put 0 value (children nr)) (\<lambda>cs.
           bind_res (shift_from 0 nl mid (width - mid) (nr\<lparr>children := cs\<rparr>)) (\<lambda>nr'. Inr (nr', par, ka)))
      else bind_res (at (children nl) (mid + 1)) (\<lambda>c. bind_res (put 0 c (children nr)) (\<lambda>cs.
           bind_res (shift_from 0 nl (mid + 1) (p - (mid + 1)) (nr\<lparr>children := cs\<rparr>)) (\<lambda>nr1.
           bind_res (in_assign nr_id (p - (mid + 1)) ka value (nr1, par)) (\<lambda>(nr2, par').
           bind_res (shift_from (p + 1 - (mid + 1)) nl p (width - p) nr2) (\<lambda>nr3.
           bind_res (at (ikeys nl) mid) (\<lambda>k. Inr (nr3, par', k))))))))"

definition set_parents :: "node \<Rightarrow> node list \<Rightarrow> parents \<Rightarrow> parents" where
  "set_parents self cs par = fold (\<lambda>c q. q(c \<mapsto> self)) cs par"

definition internode_split ::
    "nat \<Rightarrow> internode \<Rightarrow> node \<Rightarrow> internode \<Rightarrow> nat \<Rightarrow> u64 \<Rightarrow> node \<Rightarrow> nat \<Rightarrow> parents \<Rightarrow>
       (internode \<times> internode \<times> u64 \<times> int \<times> parents) res" where
  "internode_split width nl nr_id nr p ka value split_type par =
     (if \<not> (nv_locked NP (in_ver nl) \<and> nv_locked NP (in_ver nr)) then Inl (Abort ''locked()'')
      else (let mid = split_mid width split_type; nr0 = nr\<lparr>nkeys := width + 1 - (mid + 1)\<rparr>
            in bind_res (split_right width mid nl nr_id nr0 p ka value par) (\<lambda>(nr1, par1, split_ikey).
               let par2 = set_parents nr_id (take (nkeys nr1 + 1) (children nr1)) par1
               in bind_res (nv_mark_split NP (in_ver nl)) (\<lambda>v.
                  Inr (nl\<lparr>in_ver := v, nkeys := (if p < mid then mid - 1 else mid)\<rparr>, nr1, split_ikey,
                       if p < mid then int p else - 1, par2)))))"

text \<open>The insertion into a parent with room, as \<open>finish_split\<close> makes it.\<close>

definition internode_insert ::
    "node \<Rightarrow> nat \<Rightarrow> u64 \<Rightarrow> node \<Rightarrow> internode \<times> parents \<Rightarrow> (internode \<times> parents) res" where
  "internode_insert self kp ikey c = (\<lambda>(p, par).
     bind_res (shift_up (kp + 1) kp (in_size p - kp) p) (\<lambda>p1.
     bind_res (in_assign self kp ikey c (p1, par)) (\<lambda>(p2, par').
       Inr (p2\<lparr>nkeys := nkeys p2 + 1\<rparr>, par'))))"

text \<open>
  The whole step of \<open>finish_split\<close> at a locked parent \<open>p\<close>, for the position \<open>kp\<close> found by the search: insert
  when there is room, otherwise split into \<open>p\<close> and a new node (whose arrays \<open>fresh\<close> are not initialised)
  and insert into the left one when the position is there. The result has the new node and the key that
  goes up, if any.
\<close>

definition parent_insert ::
    "nat \<Rightarrow> node \<Rightarrow> internode \<Rightarrow> node \<Rightarrow> internode \<Rightarrow> nat \<Rightarrow> u64 \<Rightarrow> node \<Rightarrow> nat \<Rightarrow> parents \<Rightarrow>
       (internode \<times> (internode \<times> u64) option \<times> parents) res" where
  "parent_insert width p_id p next_id fresh kp xikey child split_type par =
     (if in_size p < width
      then bind_res (nv_mark_insert NP (in_ver p)) (\<lambda>v.
           bind_res (internode_insert p_id kp xikey child (p\<lparr>in_ver := v\<rparr>, par)) (\<lambda>(p', par').
             Inr (p', None, par')))
      else bind_res (internode_split width p next_id (fresh\<lparr>in_ver := nv_mark_nonroot NP (in_ver p)\<rparr>)
                       kp xikey child split_type par) (\<lambda>(p1, next_child, split_ikey, kp', par1).
             if kp' \<ge> 0
             then bind_res (internode_insert p_id (nat kp') xikey child (p1, par1)) (\<lambda>(p2, par2).
                    Inr (p2, Some (next_child, split_ikey), par2))
             else Inr (p1, Some (next_child, split_ikey), par1)))"

definition new_root :: "node \<Rightarrow> node \<Rightarrow> u64 \<Rightarrow> node \<Rightarrow> internode \<times> parents \<Rightarrow> (internode \<times> parents) res" where
  "new_root self n ikey child = (\<lambda>(nn, par).
     bind_res (put 0 n (children nn)) (\<lambda>cs.
     bind_res (in_assign self 0 ikey child (nn\<lparr>children := cs\<rparr>, par)) (\<lambda>(nn1, par1).
       Inr (nn1\<lparr>nkeys := 1, in_ver := nv_mark_root NP (in_ver nn1)\<rparr>, (par1(self := None))(n \<mapsto> self)))))"

section \<open>Nodes as lists\<close>

definition in_keys :: "internode \<Rightarrow> u64 list" where
  "in_keys n = take (nkeys n) (ikeys n)"

definition in_children :: "internode \<Rightarrow> node list" where
  "in_children n = take (nkeys n + 1) (children n)"

definition insert_at :: "nat \<Rightarrow> 'a \<Rightarrow> 'a list \<Rightarrow> 'a list" where
  "insert_at i x xs = take i xs @ x # drop i xs"

definition internode_ok :: "nat \<Rightarrow> internode \<Rightarrow> bool" where
  "internode_ok width n \<longleftrightarrow> nkeys n \<le> width \<and> length (ikeys n) = width \<and> length (children n) = width + 1"

lemma length_insert_at [simp]: "i \<le> length xs \<Longrightarrow> length (insert_at i x xs) = Suc (length xs)"
  by (simp add: insert_at_def)

lemma nth_insert_at:
  "i \<le> length xs \<Longrightarrow> k \<le> length xs \<Longrightarrow>
     insert_at i x xs ! k = (if k < i then xs ! k else if k = i then x else xs ! (k - 1))"
  by (auto simp: insert_at_def nth_append min_def nth_Cons')

lemma in_lengths [simp]:
  "internode_ok width n \<Longrightarrow> length (in_keys n) = nkeys n"
  "internode_ok width n \<Longrightarrow> length (in_children n) = Suc (nkeys n)"
  by (auto simp: internode_ok_def in_keys_def in_children_def)

lemma blit_nth:
  "blit dst p src xp n = Inr r \<Longrightarrow>
     length r = length dst \<and> (\<forall>i < length dst. r ! i = (if p \<le> i \<and> i < p + n then src ! (xp + (i - p)) else dst ! i))"
proof -
  assume b: "blit dst p src xp n = Inr r"
  then have l: "p + n \<le> length dst" "xp + n \<le> length src" "r = take p dst @ take n (drop xp src) @ drop (p + n) dst"
    by (simp_all add: blit_def split: if_splits)
  then have "length (take n (drop xp src)) = n" by simp
  then show ?thesis using l by (auto simp: nth_append)
qed

lemma blit_ok: "p + n \<le> length dst \<Longrightarrow> xp + n \<le> length src \<Longrightarrow> \<exists>r. blit dst p src xp n = Inr r"
  by (simp add: blit_def)

lemma up_loop_nth:
  assumes "a + n + 1 < length cs"
  shows "\<exists>r. up_loop (Suc a) a n cs = Inr r \<and> length r = length cs \<and>
    (\<forall>i < length cs. r ! i = (if a + 1 < i \<and> i \<le> a + n + 1 then cs ! (i - 1) else cs ! i))"
  using assms
proof (induction n arbitrary: cs)
  case (Suc n)
  let ?cs = "cs[Suc a + Suc n := cs ! (a + Suc n)]"
  obtain r where r: "up_loop (Suc a) a n ?cs = Inr r" "length r = length cs"
    "\<forall>i < length cs. r ! i = (if a + 1 < i \<and> i \<le> a + n + 1 then ?cs ! (i - 1) else ?cs ! i)"
    using Suc.IH [of ?cs] Suc.prems by auto
  have "up_loop (Suc a) a (Suc n) cs = Inr r" using r(1) Suc.prems by (simp add: at_def put_def)
  then show ?case using r(2,3) Suc.prems by (auto simp: nth_list_update le_Suc_eq)
qed auto

lemma internode_insert_spec:
  assumes "internode_ok width n" "nkeys n < width" "kp \<le> nkeys n"
  shows "\<exists>n'. internode_insert self kp ikey c (n, par) = Inr (n', par(c \<mapsto> self)) \<and> internode_ok width n' \<and>
    in_keys n' = insert_at kp ikey (in_keys n) \<and> in_children n' = insert_at (kp + 1) c (in_children n) \<and>
    in_ver n' = in_ver n \<and> nkeys n' = nkeys n + 1"
proof -
  let ?m = "nkeys n - kp"
  have l: "length (ikeys n) = width" "length (children n) = width + 1" using assms(1) by (simp_all add: internode_ok_def)
  obtain iks where iks: "blit (ikeys n) (kp + 1) (ikeys n) kp ?m = Inr iks"
    using blit_ok [of "kp + 1" ?m "ikeys n" kp "ikeys n"] assms l by auto
  note bi = blit_nth [OF iks]
  obtain cs where cs: "up_loop (kp + 1) kp ?m (children n) = Inr cs" "length cs = length (children n)"
    "\<forall>i < length (children n). cs ! i = (if kp + 1 < i \<and> i \<le> kp + ?m + 1 then children n ! (i - 1) else children n ! i)"
    using up_loop_nth [of kp ?m "children n"] assms l by auto
  let ?n = "n\<lparr>nkeys := nkeys n + 1, ikeys := iks[kp := ikey], children := cs[kp + 1 := c]\<rparr>"
  have "internode_insert self kp ikey c (n, par) = Inr (?n, par(c \<mapsto> self))"
    using iks cs(1,2) bi assms l by (simp add: internode_insert_def shift_up_def in_assign_def put_def in_size_def)
  moreover have "in_keys ?n = insert_at kp ikey (in_keys n)"
    using bi assms l by (intro nth_equalityI) (auto simp: in_keys_def nth_insert_at nth_list_update)
  moreover have "in_children ?n = insert_at (kp + 1) c (in_children n)"
    using cs assms l by (intro nth_equalityI) (auto simp: in_children_def nth_insert_at nth_list_update)
  moreover have "internode_ok width ?n" using bi cs(2) assms l by (simp add: internode_ok_def)
  ultimately show ?thesis by auto
qed

section \<open>Splitting\<close>

lemma shift_from_spec:
  assumes "internode_ok width x" "internode_ok width this" "p + n \<le> width" "xp + n \<le> width"
  shows "\<exists>r. shift_from p x xp n this = Inr r \<and> internode_ok width r \<and> nkeys r = nkeys this \<and> in_ver r = in_ver this \<and>
    (\<forall>i < width. ikeys r ! i = (if p \<le> i \<and> i < p + n then ikeys x ! (xp + (i - p)) else ikeys this ! i)) \<and>
    (\<forall>i \<le> width. children r ! i = (if p < i \<and> i \<le> p + n then children x ! (xp + (i - p)) else children this ! i))"
proof (cases "n = 0")
  case True
  then show ?thesis using assms(2) by (auto simp: shift_from_def)
next
  case False
  have l: "length (ikeys x) = width" "length (children x) = Suc width" "length (ikeys this) = width"
    "length (children this) = Suc width"
    using assms(1,2) by (simp_all add: internode_ok_def)
  obtain iks where iks: "blit (ikeys this) p (ikeys x) xp n = Inr iks"
    using blit_ok [of p n "ikeys this" xp "ikeys x"] assms(3,4) l by auto
  obtain cs where cs: "blit (children this) (p + 1) (children x) (xp + 1) n = Inr cs"
    using blit_ok [of "p + 1" n "children this" "xp + 1" "children x"] assms(3,4) l by auto
  have "shift_from p x xp n this = Inr (this\<lparr>ikeys := iks, children := cs\<rparr>)"
    using False iks cs by (simp add: shift_from_def)
  moreover have "cs ! i = (if p < i \<and> i \<le> p + n then children x ! (xp + (i - p)) else children this ! i)" if "i \<le> width" for i
    using blit_nth [OF cs] l that by (auto simp: Suc_diff_Suc)
  ultimately show ?thesis using blit_nth [OF iks] blit_nth [OF cs] l assms(2) by (auto simp: internode_ok_def)
qed

lemma in_nth [simp]:
  "i < nkeys n \<Longrightarrow> in_keys n ! i = ikeys n ! i"
  "i \<le> nkeys n \<Longrightarrow> in_children n ! i = children n ! i"
  by (simp_all add: in_keys_def in_children_def)

lemma shift_behind_first:
  assumes "internode_ok width x" "internode_ok width this" "xp + n \<le> width"
  shows "\<exists>r. shift_from 0 x xp n (this\<lparr>children := (children this)[0 := c]\<rparr>) = Inr r \<and> internode_ok width r \<and>
    nkeys r = nkeys this \<and> in_ver r = in_ver this \<and> (\<forall>i < n. ikeys r ! i = ikeys x ! (xp + i)) \<and>
    (\<forall>i \<le> n. children r ! i = (if i = 0 then c else children x ! (xp + i)))"
proof -
  let ?t = "this\<lparr>children := (children this)[0 := c]\<rparr>"
  have t: "internode_ok width ?t" "length (children this) = Suc width" "nkeys ?t = nkeys this" "in_ver ?t = in_ver this"
    using assms(2) by (simp_all add: internode_ok_def)
  obtain r where r: "shift_from 0 x xp n ?t = Inr r" "internode_ok width r" "nkeys r = nkeys ?t" "in_ver r = in_ver ?t"
    "\<forall>i < width. ikeys r ! i = (if 0 \<le> i \<and> i < 0 + n then ikeys x ! (xp + (i - 0)) else ikeys ?t ! i)"
    "\<forall>i \<le> width. children r ! i = (if 0 < i \<and> i \<le> 0 + n then children x ! (xp + (i - 0)) else children ?t ! i)"
    using shift_from_spec [OF assms(1) t(1), of 0 n xp] assms(3) by auto
  moreover have "\<forall>i \<le> n. children r ! i = (if i = 0 then c else children x ! (xp + i))"
    using r(6) assms(3) t(2) by (auto simp: nth_list_update)
  ultimately show ?thesis using t(3,4) assms(3) by auto
qed

lemma split_right_spec:
  assumes ok: "internode_ok width nl" "internode_ok width nr" "nkeys nl = width" "nkeys nr = width - mid"
    and b: "p \<le> width" "0 < mid" "mid \<le> width"
  shows "\<exists>nr' k. split_right width mid nl nr_id nr p ka value par =
      Inr (nr', if mid < p then par(value \<mapsto> nr_id) else par, k) \<and>
    internode_ok width nr' \<and> nkeys nr' = width - mid \<and> in_ver nr' = in_ver nr \<and>
    k = insert_at p ka (in_keys nl) ! mid \<and>
    in_keys nr' = drop (mid + 1) (insert_at p ka (in_keys nl)) \<and>
    in_children nr' = drop (mid + 1) (insert_at (p + 1) value (in_children nl))"
proof -
  let ?K = "insert_at p ka (in_keys nl)" and ?C = "insert_at (p + 1) value (in_children nl)"
  have l: "length (ikeys nl) = width" "length (children nl) = width + 1" "length (children nr) = width + 1"
    using ok(1,2) by (simp_all add: internode_ok_def)
  have K: "length ?K = Suc width" "\<And>i. i \<le> width \<Longrightarrow> ?K ! i = (if i < p then ikeys nl ! i else if i = p then ka else ikeys nl ! (i - 1))"
    using ok b by (auto simp: nth_insert_at)
  have C: "length ?C = Suc (Suc width)" "\<And>i. i \<le> Suc width \<Longrightarrow>
      ?C ! i = (if i \<le> p then children nl ! i else if i = Suc p then value else children nl ! (i - 1))"
    using ok b by (auto simp: nth_insert_at)
  consider "p < mid" | "p = mid" | "mid < p" by linarith
  then show ?thesis
  proof cases
    case 1
    obtain r where r: "shift_from 0 nl mid (width - mid) (nr\<lparr>children := (children nr)[0 := children nl ! mid]\<rparr>) = Inr r"
      "internode_ok width r" "nkeys r = width - mid" "in_ver r = in_ver nr"
      "\<forall>i < width - mid. ikeys r ! i = ikeys nl ! (mid + i)"
      "\<forall>i \<le> width - mid. children r ! i = (if i = 0 then children nl ! mid else children nl ! (mid + i))"
      using shift_behind_first [OF ok(1,2), of mid "width - mid"] ok(4) b(3) by (metis le_add_diff_inverse order.refl)
    have "in_keys r = drop (mid + 1) ?K" using r b K 1 by (intro nth_equalityI) auto
    moreover have "in_children r = drop (mid + 1) ?C" using r b C 1 by (intro nth_equalityI) auto
    ultimately show ?thesis using 1 r b l K by (auto simp: split_right_def at_def put_def)
  next
    case 2
    obtain r where r: "shift_from 0 nl mid (width - mid) (nr\<lparr>children := (children nr)[0 := value]\<rparr>) = Inr r"
      "internode_ok width r" "nkeys r = width - mid" "in_ver r = in_ver nr"
      "\<forall>i < width - mid. ikeys r ! i = ikeys nl ! (mid + i)"
      "\<forall>i \<le> width - mid. children r ! i = (if i = 0 then value else children nl ! (mid + i))"
      using shift_behind_first [OF ok(1,2), of mid "width - mid"] ok(4) b(3) by (metis le_add_diff_inverse order.refl)
    have "in_keys r = drop (mid + 1) ?K" using r b K 2 by (intro nth_equalityI) auto
    moreover have "in_children r = drop (mid + 1) ?C" using r b C 2 by (intro nth_equalityI) auto
    ultimately show ?thesis using 2 r b l K by (auto simp: split_right_def at_def put_def)
  next
    case 3
    let ?j = "p - (mid + 1)"
    obtain r where r: "shift_from 0 nl (mid + 1) ?j (nr\<lparr>children := (children nr)[0 := children nl ! (mid + 1)]\<rparr>) = Inr r"
      "internode_ok width r" "nkeys r = width - mid" "in_ver r = in_ver nr"
      "\<forall>i < ?j. ikeys r ! i = ikeys nl ! (mid + 1 + i)"
      "\<forall>i \<le> ?j. children r ! i = (if i = 0 then children nl ! (mid + 1) else children nl ! (mid + 1 + i))"
      using shift_behind_first [OF ok(1,2), of "mid + 1" ?j "children nl ! (mid + 1)"] ok(4) b 3 by auto
    let ?r = "r\<lparr>children := (children r)[Suc ?j := value], ikeys := (ikeys r)[?j := ka]\<rparr>"
    have lr: "length (ikeys r) = width" "length (children r) = width + 1" using r(2) by (simp_all add: internode_ok_def)
    then have a: "in_assign nr_id ?j ka value (r, par) = Inr (?r, par(value \<mapsto> nr_id))"
      using 3 b by (simp add: in_assign_def put_def)
    have "internode_ok width ?r" using r(2) by (simp add: internode_ok_def)
    from shift_from_spec [OF ok(1) this, of "p - mid" "width - p" p]
    obtain q where q: "shift_from (p - mid) nl p (width - p) ?r = Inr q" "internode_ok width q"
      "nkeys q = nkeys ?r" "in_ver q = in_ver ?r"
      and qi: "\<forall>i < width. ikeys q ! i =
        (if p - mid \<le> i \<and> i < p - mid + (width - p) then ikeys nl ! (p + (i - (p - mid))) else ikeys ?r ! i)"
      and qc: "\<forall>i \<le> width. children q ! i =
        (if p - mid < i \<and> i \<le> p - mid + (width - p) then children nl ! (p + (i - (p - mid))) else children ?r ! i)"
      using 3 b(1) by auto
    have ki: "ikeys q ! i = (if i < ?j then ikeys nl ! (mid + 1 + i) else if i = ?j then ka else ikeys nl ! (mid + i))"
      if "i < width - mid" for i
    proof -
      have "i < width" "mid + i = p + (i - (p - mid)) \<or> i < p - mid" using that 3 by auto
      then show ?thesis using qi r(5) lr that 3 b(1) by (auto simp: nth_list_update add.commute)
    qed
    have kc: "children q ! i = (if i \<le> ?j then children nl ! (mid + 1 + i) else if i = Suc ?j then value else children nl ! (mid + i))"
      if "i \<le> width - mid" for i
    proof -
      have "i \<le> width" "mid + i = p + (i - (p - mid)) \<or> i \<le> p - mid" using that 3 by auto
      then show ?thesis using qc r(6) lr that 3 b(1) by (auto simp: nth_list_update add.commute)
    qed
    have qs: "nkeys q = width - mid" "in_ver q = in_ver nr" using q(3,4) r(3,4) by simp_all
    have "in_keys q = drop (mid + 1) ?K" using q(2) qs ki b K 3 by (intro nth_equalityI) auto
    moreover have "in_children q = drop (mid + 1) ?C" using q(2) qs kc b C 3 by (intro nth_equalityI) auto
    ultimately show ?thesis using 3 r(1) q(1,2) qs b l K a by (auto simp: split_right_def at_def put_def Suc_diff_Suc)
  qed
qed

lemma set_parents_eq: "set_parents self cs par c = (if c \<in> set cs then Some self else par c)"
  unfolding set_parents_def by (induction cs arbitrary: par) auto

lemma in_keys_ver [simp]: "in_keys (n\<lparr>in_ver := v\<rparr>) = in_keys n" "in_children (n\<lparr>in_ver := v\<rparr>) = in_children n"
  "internode_ok width (n\<lparr>in_ver := v\<rparr>) = internode_ok width n"
  by (simp_all add: in_keys_def in_children_def internode_ok_def)

lemma insert_at_take: "i \<le> k \<Longrightarrow> k \<le> length xs \<Longrightarrow> insert_at i x (take k xs) = take (Suc k) (insert_at i x xs)"
  by (simp add: insert_at_def take_Cons' drop_take min_def)

lemma take_insert_before: "k \<le> i \<Longrightarrow> k \<le> length xs \<Longrightarrow> take k (insert_at i x xs) = take k xs"
  by (simp add: insert_at_def min_def)

lemma internode_split_spec:
  fixes width split_type :: nat
  assumes ok: "internode_ok width nl" "internode_ok width nr" "nkeys nl = width" "p \<le> width" "0 < width"
    and lk: "nv_locked NP (in_ver nl)" "nv_locked NP (in_ver nr)"
  defines "mid \<equiv> split_mid width split_type"
  shows "\<exists>nr' v par'. internode_split width nl nr_id nr p ka value split_type par =
      Inr (nl\<lparr>in_ver := v, nkeys := (if p < mid then mid - 1 else mid)\<rparr>, nr', insert_at p ka (in_keys nl) ! mid,
           if p < mid then int p else - 1, par') \<and>
    in_keys nr' = drop (mid + 1) (insert_at p ka (in_keys nl)) \<and>
    in_children nr' = drop (mid + 1) (insert_at (p + 1) value (in_children nl)) \<and>
    internode_ok width nr' \<and> v = in_ver nl OR splitting_bit NP \<and>
    (\<forall>c. c \<noteq> value \<longrightarrow> par' c = (if c \<in> set (in_children nr') then Some nr_id else par c)) \<and>
    (value \<in> set (in_children nr') \<longrightarrow> par' value = Some nr_id)"
proof -
  let ?nr = "nr\<lparr>nkeys := width + 1 - (mid + 1)\<rparr>"
  have m: "0 < mid" "mid \<le> width" using ok(5) by (auto simp: mid_def split_mid_def)
  have nr: "internode_ok width ?nr" "nkeys ?nr = width - mid" using ok(2) by (simp_all add: internode_ok_def)
  let ?par = "if mid < p then par(value \<mapsto> nr_id) else par"
  obtain nr' k where r: "split_right width mid nl nr_id ?nr p ka value par = Inr (nr', ?par, k)"
    "internode_ok width nr'" "nkeys nr' = width - mid" "k = insert_at p ka (in_keys nl) ! mid"
    "in_keys nr' = drop (mid + 1) (insert_at p ka (in_keys nl))"
    "in_children nr' = drop (mid + 1) (insert_at (p + 1) value (in_children nl))"
    using split_right_spec [OF ok(1) nr(1) ok(3) nr(2) ok(4) m, of nr_id ka "value" par] by auto
  let ?p = "set_parents nr_id (in_children nr') ?par"
  have "internode_split width nl nr_id nr p ka value split_type par =
      Inr (nl\<lparr>in_ver := in_ver nl OR splitting_bit NP, nkeys := (if p < mid then mid - 1 else mid)\<rparr>, nr', k,
           if p < mid then int p else - 1, ?p)"
    using lk r(1) by (simp add: internode_split_def mid_def [symmetric] nv_mark_split_def in_children_def Let_def)
  then show ?thesis using r by (intro exI [of _ nr']) (auto simp: set_parents_eq)
qed

lemma nonroot_locked: "nv_locked NP v \<Longrightarrow> nv_locked NP (nv_mark_nonroot NP v)"
  using mark_bits [of MarkNonroot v "nv_mark_nonroot NP v" 0] by (simp add: np_queries)

lemma split_left_insert:
  assumes "internode_ok width nl" "nkeys nl = width" "p < mid" "mid \<le> width"
  shows "\<exists>n'. internode_insert self p ka value (nl\<lparr>in_ver := v, nkeys := mid - 1\<rparr>, par) = Inr (n', par(value \<mapsto> self)) \<and>
    internode_ok width n' \<and> in_keys n' = take mid (insert_at p ka (in_keys nl)) \<and>
    in_children n' = take (mid + 1) (insert_at (p + 1) value (in_children nl)) \<and> in_ver n' = v"
proof -
  let ?n = "nl\<lparr>in_ver := v, nkeys := mid - 1\<rparr>"
  have n: "internode_ok width ?n" "nkeys ?n < width" "p \<le> nkeys ?n" using assms by (auto simp: internode_ok_def)
  have k: "in_keys ?n = take (mid - 1) (in_keys nl)" "in_children ?n = take mid (in_children nl)"
    using assms by (auto simp: in_keys_def in_children_def min_def)
  have "insert_at p ka (take (mid - 1) (in_keys nl)) = take mid (insert_at p ka (in_keys nl))"
    "insert_at (p + 1) value (take mid (in_children nl)) = take (mid + 1) (insert_at (p + 1) value (in_children nl))"
    using assms insert_at_take [of p "mid - 1" "in_keys nl" ka] insert_at_take [of "p + 1" mid "in_children nl" "value"] by auto
  then show ?thesis using internode_insert_spec [OF n, of self ka "value" par] k by auto
qed

text \<open>
  C40. Inserting into a locked parent is list insertion of the key and of the child behind it. A parent
  with room keeps everything; a full one is cut: the key in the middle goes up, the keys and children
  before it stay, those behind it are in the new node, whose children have it as their parent.
\<close>

theorem parent_insert_spec:
  assumes "internode_ok width p" "internode_ok width fresh" "nv_locked NP (in_ver p)" "kp \<le> nkeys p" "0 < width"
  shows "\<exists>p' up par'. parent_insert width p_id p next_id fresh kp xikey child split_type par = Inr (p', up, par') \<and>
    internode_ok width p' \<and>
    (case up of
       None \<Rightarrow> nkeys p < width \<and> in_keys p' = insert_at kp xikey (in_keys p) \<and>
         in_children p' = insert_at (kp + 1) child (in_children p) \<and> par' = par(child \<mapsto> p_id)
     | Some (nr, k) \<Rightarrow> nkeys p = width \<and> internode_ok width nr \<and> nkeys p' = split_mid width split_type \<and>
         in_keys p' @ k # in_keys nr = insert_at kp xikey (in_keys p) \<and>
         in_children p' @ in_children nr = insert_at (kp + 1) child (in_children p) \<and> nv_splitting NP (in_ver p') \<and>
         (\<forall>c. c \<noteq> child \<longrightarrow> par' c = (if c \<in> set (in_children nr) then Some next_id else par c)) \<and>
         par' child = Some (if kp < split_mid width split_type then p_id else next_id))"
proof (cases "nkeys p < width")
  case True
  obtain p' where "internode_insert p_id kp xikey child (p\<lparr>in_ver := in_ver p OR inserting_bit NP\<rparr>, par) = Inr (p', par(child \<mapsto> p_id))"
    "internode_ok width p'" "in_keys p' = insert_at kp xikey (in_keys p)" "in_children p' = insert_at (kp + 1) child (in_children p)"
    using internode_insert_spec [of width "p\<lparr>in_ver := in_ver p OR inserting_bit NP\<rparr>" kp p_id xikey child par] assms(1,4) True by auto
  then show ?thesis using True assms(3) by (simp add: parent_insert_def in_size_def nv_mark_insert_def)
next
  case False
  let ?K = "insert_at kp xikey (in_keys p)" and ?C = "insert_at (kp + 1) child (in_children p)"
  let ?mid = "split_mid width split_type" and ?nr = "fresh\<lparr>in_ver := nv_mark_nonroot NP (in_ver p)\<rparr>"
  have f: "nkeys p = width" using False assms(1) by (simp add: internode_ok_def)
  have m: "0 < ?mid" "?mid \<le> width" using assms(5) by (auto simp: split_mid_def)
  have l: "length ?K = Suc width" "length ?C = Suc (Suc width)" using f assms(1,4) by auto
  obtain nr v par1 where s: "internode_split width p next_id ?nr kp xikey child split_type par =
      Inr (p\<lparr>in_ver := v, nkeys := (if kp < ?mid then ?mid - 1 else ?mid)\<rparr>, nr, ?K ! ?mid,
        if kp < ?mid then int kp else - 1, par1)"
    "in_keys nr = drop (?mid + 1) ?K" "in_children nr = drop (?mid + 1) ?C" "internode_ok width nr"
    "v = in_ver p OR splitting_bit NP"
    "\<forall>c. c \<noteq> child \<longrightarrow> par1 c = (if c \<in> set (in_children nr) then Some next_id else par c)"
    "child \<in> set (in_children nr) \<longrightarrow> par1 child = Some next_id"
    using internode_split_spec [of width p ?nr kp next_id xikey child split_type par] assms nonroot_locked [OF assms(3)] f
    by auto
  have cut: "take ?mid ?K @ ?K ! ?mid # drop (?mid + 1) ?K = ?K" "take (?mid + 1) ?C @ drop (?mid + 1) ?C = ?C"
    using id_take_nth_drop [of ?mid ?K] l m by auto
  have sp: "nv_splitting NP v"
    using s(5) mark_bits by (simp add: np_queries np_fields bit_or_iff bit_flags del: bit_numeral_word_iff)
  show ?thesis
  proof (cases "kp < ?mid")
    case True
    obtain p2 where "internode_insert p_id kp xikey child (p\<lparr>in_ver := v, nkeys := ?mid - 1\<rparr>, par1) = Inr (p2, par1(child \<mapsto> p_id))"
      "internode_ok width p2" "in_keys p2 = take ?mid ?K" "in_children p2 = take (?mid + 1) ?C" "in_ver p2 = v"
      using split_left_insert [OF assms(1) f True m(2)] by blast
    then show ?thesis using s cut l m True sp f in_lengths(1) [of width p2]
      by (auto simp: parent_insert_def in_size_def min_def)
  next
    case F: False
    let ?p = "p\<lparr>in_ver := v, nkeys := ?mid\<rparr>"
    have "in_keys ?p = take ?mid ?K" "in_children ?p = take (?mid + 1) ?C"
      using F f m assms(1) take_insert_before [of ?mid kp "in_keys p" xikey] take_insert_before [of "?mid + 1" "kp + 1" "in_children p" child]
      by (auto simp: in_keys_def in_children_def internode_ok_def min_def)
    moreover have "child \<in> set (in_children nr)"
    proof -
      have "?C ! (kp + 1) = child" using f assms(1,4) by (simp add: nth_insert_at)
      moreover have "drop (?mid + 1) ?C ! (kp - ?mid) = ?C ! (kp + 1)" using F l m by simp
      ultimately show ?thesis using s(3) l F f assms(4) by (auto simp: in_set_conv_nth intro!: exI [of _ "kp - ?mid"])
    qed
    moreover have "internode_ok width ?p" using assms(1) m by (simp add: internode_ok_def)
    ultimately show ?thesis using s cut m F sp f by (auto simp: parent_insert_def in_size_def)
  qed
qed

theorem parent_insert_spec_witness:
  "\<exists>p' nr k par'. parent_insert 2 1 \<lparr>in_ver = 1, nkeys = 2, ikeys = [10, 20], children = [5, 6, 7]\<rparr> 2
      \<lparr>in_ver = 0, nkeys = 0, ikeys = [0, 0], children = [0, 0, 0]\<rparr> 2 30 8 0 (\<lambda>_. Some 1) = Inr (p', Some (nr, k), par') \<and>
     in_keys p' @ k # in_keys nr = [10, 20, 30] \<and> in_children p' @ in_children nr = [5, 6, 7, 8] \<and> par' 8 = Some 2"
proof -
  have l: "nv_locked NP 1" by (simp add: nv_locked_def np_fields)
  show ?thesis
    using parent_insert_spec [of 2 "\<lparr>in_ver = 1, nkeys = 2, ikeys = [10, 20], children = [5, 6, 7]\<rparr>"
        "\<lparr>in_ver = 0, nkeys = 0, ikeys = [0, 0], children = [0, 0, 0]\<rparr>" 2 1 2 30 8 0 "\<lambda>_. Some 1"] l
    by (auto simp: internode_ok_def in_keys_def in_children_def insert_at_def split_mid_def split: option.splits)
qed

end
