(* ===== verification/Masstree_Key.thy ===== *)
theory Masstree_Key
  imports Prelude "HOL-Library.List_Lexorder"
begin

unbundle bit_operations_syntax

text \<open>
  Masstree's keys, \<^verbatim>\<open>src/masstree/string_slice.hh\<close> and \<^verbatim>\<open>src/masstree/masstree_key.hh\<close>. A key
  is a string in memory, seen eight bytes at a time: the current slice is held as an integer in host
  order, and descending a layer of the tree shifts the key by one slice. The memory is a function from
  addresses to bytes and a pointer is an address; the machine is little endian and the build allows
  unaligned access, as the configuration script sets it.

  The theory shows that the fast memory accesses give what the plain ones do, and that comparing slice
  by slice, first the integers and then the lengths, is the lexicographic order of the strings.
\<close>

section \<open>Memory and byte order\<close>

type_synonym mem = "int \<Rightarrow> byte"

definition bytes_at :: "mem \<Rightarrow> int \<Rightarrow> nat \<Rightarrow> byte list" where
  "bytes_at m a n = map (\<lambda>i. m (a + int i)) [0..<n]"

definition load64 :: "mem \<Rightarrow> int \<Rightarrow> u64" where
  "load64 m a = le_word (bytes_at m a 8)"

definition store_bytes :: "mem \<Rightarrow> int \<Rightarrow> byte list \<Rightarrow> mem" where
  "store_bytes m a bs = (\<lambda>x. if a \<le> x \<and> x < a + int (length bs) then bs ! nat (x - a) else m x)"

text \<open>The instruction \<open>bswapq\<close>.\<close>

definition ntohq :: "u64 \<Rightarrow> u64" where
  "ntohq x = le_word (rev (le_bytes 8 x))"

definition compare3 :: "'a::linorder \<Rightarrow> 'a \<Rightarrow> int" where
  "compare3 a b = (if a = b then 0 else if a < b then - 1 else 1)"

text \<open>The builtin that counts trailing zero bits; its argument is not zero.\<close>

fun ctz_loop :: "nat \<Rightarrow> u64 \<Rightarrow> nat" where
  "ctz_loop 0 x = 0"
| "ctz_loop (Suc n) x = (if bit x 0 then 0 else Suc (ctz_loop n (drop_bit 1 x)))"

definition ctz :: "u64 \<Rightarrow> nat" where
  "ctz x = ctz_loop 64 x"

section \<open>string_slice\<close>

definition ss_make :: "mem \<Rightarrow> int \<Rightarrow> int \<Rightarrow> u64" where
  "ss_make m s len =
     (if len \<le> 0 then 0
      else if len \<ge> 8 then load64 m s
      else le_word (bytes_at m s (nat (min len 8))))"

definition make_comparable :: "mem \<Rightarrow> int \<Rightarrow> int \<Rightarrow> u64" where
  "make_comparable m s len = ntohq (ss_make m s len)"

definition make_sloppy :: "mem \<Rightarrow> int \<Rightarrow> int \<Rightarrow> u64" where
  "make_sloppy m s len =
     (if len \<le> 0 then 0
      else if len \<ge> 8 then load64 m s
      else drop_bit (nat (8 * (8 - len))) (load64 m (s - (8 - len))))"

definition make_comparable_sloppy :: "mem \<Rightarrow> int \<Rightarrow> int \<Rightarrow> u64" where
  "make_comparable_sloppy m s len = ntohq (make_sloppy m s len)"

text \<open>The two forms of \<open>unparse_comparable\<close> give the bytes they write at the start of the buffer.\<close>

fun trim_zeros :: "byte list \<Rightarrow> nat \<Rightarrow> nat" where
  "trim_zeros u 0 = 0"
| "trim_zeros u (Suc l) = (if u ! l = 0 then trim_zeros u l else Suc l)"

definition memcpy_len :: "int \<Rightarrow> byte list \<Rightarrow> byte list res" where
  "memcpy_len l u = (if l < 0 then Inl (Undefined ''memcpy'') else Inr (take (nat l) u))"

definition unparse_comparable_trim :: "int \<Rightarrow> u64 \<Rightarrow> byte list res" where
  "unparse_comparable_trim buflen value =
     (let u = le_bytes 8 (ntohq value) in memcpy_len (min (int (trim_zeros u 8)) buflen) u)"

definition unparse_comparable :: "int \<Rightarrow> u64 \<Rightarrow> int \<Rightarrow> byte list res" where
  "unparse_comparable buflen value len =
     memcpy_len (min (min len 8) buflen) (le_bytes 8 (ntohq value))"

definition equals_sloppy :: "mem \<Rightarrow> int \<Rightarrow> int \<Rightarrow> int \<Rightarrow> bool" where
  "equals_sloppy m a b len =
     (if len \<le> 8
      then (let delta = load64 m a XOR load64 m b
            in if len \<le> 0 then True else push_bit (nat (8 * (8 - len))) delta = 0)
      else bytes_at m a (nat len) = bytes_at m b (nat len))"

section \<open>key\<close>

record mkey =
  ikey0 :: u64
  klen :: int
  ks :: int
  kfirst :: int

definition ikey_size :: int where
  "ikey_size = 8"

definition key_str :: "mem \<Rightarrow> int \<Rightarrow> int \<Rightarrow> mkey" where
  "key_str m s len = \<lparr>ikey0 = make_comparable m s len, klen = len, ks = s, kfirst = s\<rparr>"

definition key_of_ikey :: "u64 \<Rightarrow> mkey" where
  "key_of_ikey ikey =
     \<lparr>ikey0 = ikey, klen = (if ikey \<noteq> 0 then ikey_size - int (ctz ikey div 8) else 0), ks = 0, kfirst = 0\<rparr>"

definition key_of_ikey_len :: "u64 \<Rightarrow> int \<Rightarrow> mkey" where
  "key_of_ikey_len ikey len = \<lparr>ikey0 = ikey, klen = min len ikey_size, ks = 0, kfirst = 0\<rparr>"

definition key_of_suffix :: "u64 \<Rightarrow> int \<Rightarrow> int \<Rightarrow> mkey" where
  "key_of_suffix ikey s len =
     \<lparr>ikey0 = ikey, klen = ikey_size + len, ks = s - ikey_size, kfirst = s - ikey_size\<rparr>"

definition key_empty :: "mkey \<Rightarrow> bool" where
  "key_empty k \<longleftrightarrow> ikey0 k = 0 \<and> klen k = 0"

definition ikeylen :: "mkey \<Rightarrow> int" where
  "ikeylen k = min (klen k) (ikey_size + 1)"

definition has_suffix :: "mkey \<Rightarrow> bool" where
  "has_suffix k \<longleftrightarrow> klen k > ikey_size"

text \<open>A \<open>Str\<close> is an address and a length.\<close>

definition key_suffix :: "mkey \<Rightarrow> int \<times> int" where
  "key_suffix k = (ks k + ikey_size, klen k - ikey_size)"

definition suffix_length :: "mkey \<Rightarrow> int" where
  "suffix_length k = klen k - ikey_size"

definition shift :: "mem \<Rightarrow> mkey \<Rightarrow> mkey" where
  "shift m k =
     (let s = ks k + ikey_size; len = klen k - ikey_size
      in k\<lparr>ks := s, klen := len, ikey0 := make_comparable_sloppy m s len\<rparr>)"

definition is_shifted :: "mkey \<Rightarrow> bool" where
  "is_shifted k \<longleftrightarrow> kfirst k \<noteq> ks k"

definition unshift_all :: "mem \<Rightarrow> mkey \<Rightarrow> mkey" where
  "unshift_all m k =
     (if ks k \<noteq> kfirst k
      then (let len = klen k + (ks k - kfirst k)
            in k\<lparr>klen := len, ks := kfirst k, ikey0 := make_comparable m (kfirst k) len\<rparr>)
      else k)"

definition key_compare :: "mkey \<Rightarrow> u64 \<Rightarrow> int \<Rightarrow> int" where
  "key_compare k ikey keylenx =
     (let cmp = compare3 (ikey0 k) ikey
      in if cmp = 0
         then (let al = klen k in if al > ikey_size then (if keylenx \<le> ikey_size then 1 else 0) else al - keylenx)
         else cmp)"

definition key_unparse :: "mem \<Rightarrow> mkey \<Rightarrow> int \<Rightarrow> byte list res" where
  "key_unparse m k datalen =
     (let cplen = min (klen k) datalen
      in bind_res (unparse_comparable cplen (ikey0 k) ikey_size) (\<lambda>u.
           Inr (if cplen > ikey_size then u @ bytes_at m (ks k + ikey_size) (nat (cplen - ikey_size)) else u)))"

definition prefix_string :: "mkey \<Rightarrow> int \<times> int" where
  "prefix_string k = (kfirst k, ks k - kfirst k)"

definition full_string :: "mkey \<Rightarrow> int \<times> int" where
  "full_string k = (kfirst k, ks k + klen k - kfirst k)"

definition key_increment :: "mkey \<Rightarrow> bool \<times> mkey" where
  "key_increment k =
     (if has_suffix k
      then (let i = ikey0 k + 1 in (i = 0, k\<lparr>ikey0 := i, klen := 1\<rparr>))
      else (False, k\<lparr>klen := klen k + 1\<rparr>))"

definition assign_store_ikey :: "mem \<Rightarrow> u64 \<Rightarrow> mkey \<Rightarrow> mem \<times> mkey" where
  "assign_store_ikey m ikey k = (store_bytes m (ks k) (le_bytes 8 (ntohq ikey)), k\<lparr>ikey0 := ikey\<rparr>)"

definition assign_store_suffix :: "mem \<Rightarrow> int \<Rightarrow> int \<Rightarrow> mkey \<Rightarrow> mem \<times> int" where
  "assign_store_suffix m s len k =
     (store_bytes m (ks k + ikey_size) (bytes_at m s (nat len)), ikey_size + len)"

definition assign_store_length :: "int \<Rightarrow> mkey \<Rightarrow> mkey" where
  "assign_store_length len k = k\<lparr>klen := len\<rparr>"

definition unshift :: "mem \<Rightarrow> mkey \<Rightarrow> mkey res" where
  "unshift m k =
     (if is_shifted k
      then (let s = ks k - ikey_size
            in Inr (k\<lparr>ks := s, ikey0 := make_comparable_sloppy m s ikey_size, klen := ikey_size + 1\<rparr>))
      else Inl (Abort ''is_shifted()''))"

definition shift_clear :: "mkey \<Rightarrow> mkey" where
  "shift_clear k = k\<lparr>ikey0 := 0, klen := 0, ks := ks k + ikey_size\<rparr>"

definition shift_clear_reverse :: "mkey \<Rightarrow> mkey" where
  "shift_clear_reverse k = k\<lparr>ikey0 := NOT 0, klen := ikey_size + 1, ks := ks k + ikey_size\<rparr>"

text \<open>
  The comparison the tree makes in all: \<open>key_compare\<close> against the slice and length stored in a leaf, and,
  when they agree and a suffix is left, the same in the next layer with both keys shifted.
\<close>

function compare_layers :: "mem \<Rightarrow> mkey \<Rightarrow> mkey \<Rightarrow> int" where
  "compare_layers m ka kb =
     (let c = key_compare ka (ikey0 kb) (ikeylen kb)
      in if c = 0 \<and> has_suffix ka then compare_layers m (shift m ka) (shift m kb) else c)"
  by pat_completeness auto

termination
  by (relation "measure (\<lambda>(m, ka, kb). nat (klen ka))") (auto simp: has_suffix_def shift_def ikey_size_def Let_def)

declare compare_layers.simps [simp del]

section \<open>Slices as numbers\<close>

fun le_nat :: "byte list \<Rightarrow> nat" where
  "le_nat [] = 0"
| "le_nat (b # bs) = unat b + 256 * le_nat bs"

fun be_nat :: "byte list \<Rightarrow> nat" where
  "be_nat [] = 0"
| "be_nat (b # bs) = unat b * 256 ^ length bs + be_nat bs"

lemma le_nat_append: "le_nat (xs @ ys) = le_nat xs + 256 ^ length xs * le_nat ys"
  by (induction xs) (auto simp: algebra_simps)

lemma le_nat_rev: "le_nat (rev bs) = be_nat bs"
  by (induction bs) (auto simp: le_nat_append)

lemma byte_less: "unat (b :: byte) < 256"
  using unsigned_less [of b] by simp

lemma le_nat_less: "le_nat bs < 256 ^ length bs"
proof (induction bs)
  case (Cons b bs)
  then show ?case using byte_less [of b] by simp
qed simp

lemma be_nat_less: "be_nat bs < 256 ^ length bs"
  using le_nat_less [of "rev bs"] by (simp add: le_nat_rev)

lemma unat_le_word:
  assumes "length bs \<le> 8"
  shows "unat (le_word bs :: u64) = le_nat bs"
  using assms
proof (induction bs)
  case (Cons b bs)
  let ?w = "le_word bs :: u64"
  have w: "unat ?w = le_nat bs" using Cons by simp
  have "(256 :: nat) ^ length bs \<le> 256 ^ 7" using Cons.prems by (intro power_increasing) auto
  with le_nat_less [of bs] have l: "le_nat bs < 256 ^ 7" by simp
  then have p: "unat (push_bit 8 ?w) = 256 * le_nat bs"
    by (simp add: push_bit_eq_mult unat_word_ariths w mult.commute)
  have b: "unat (ucast b :: u64) = unat b" using byte_less [of b] by (simp add: unsigned_ucast_eq take_bit_nat_eq_self)
  have "ucast b OR push_bit 8 ?w = ucast b + push_bit 8 ?w"
    by (rule disjunctive_add [symmetric]) (auto simp: bit_push_bit_iff bit_unsigned_iff dest: bit_imp_le_length)
  then have "unat (le_word (b # bs) :: u64) = (unat b + 256 * le_nat bs) mod 2 ^ 64"
    by (simp add: unat_word_ariths p b)
  also have "\<dots> = unat b + 256 * le_nat bs" using l byte_less [of b] by simp
  finally show ?case by simp
qed simp

lemma le_word_zeros: "le_word (bs @ replicate n 0) = le_word bs"
  by (induction bs) (auto, induction n, auto)

lemma ntohq_le_word: "length bs = 8 \<Longrightarrow> ntohq (le_word bs) = le_word (rev bs)"
  using le_bytes_le_word [of bs, where 'a = 64] by (simp add: ntohq_def)

lemma length_bytes_at [simp]: "length (bytes_at m a n) = n"
  by (simp add: bytes_at_def)

lemma bytes_at_nth [simp]: "i < n \<Longrightarrow> bytes_at m a n ! i = m (a + int i)"
  by (simp add: bytes_at_def)

lemma take_bytes_at [simp]: "take k (bytes_at m a n) = bytes_at m a (min k n)"
  by (rule nth_equalityI) auto

lemma drop_bytes_at: "drop k (bytes_at m a n) = bytes_at m (a + int k) (n - k)"
  by (rule nth_equalityI) (auto simp: algebra_simps)

lemma ss_make_pad: "ss_make m s len = le_word (buf_take 8 (bytes_at m s (nat len)))"
proof -
  consider "len \<le> 0" | "0 < len" "len < 8" | "8 \<le> len" by linarith
  then show ?thesis
  proof cases
    case 1
    then show ?thesis using le_word_zeros [of "[]" 8] by (simp add: ss_make_def buf_take_def bytes_at_def)
  next
    case 2
    then have "nat len < 8" by linarith
    with 2 show ?thesis by (simp add: ss_make_def buf_take_def le_word_zeros min_def)
  next
    case 3
    then show ?thesis by (simp add: ss_make_def buf_take_def load64_def)
  qed
qed

lemma unat_make_comparable: "unat (make_comparable m s len) = be_nat (buf_take 8 (bytes_at m s (nat len)))"
  by (simp add: make_comparable_def ss_make_pad ntohq_le_word unat_le_word le_nat_rev)

section \<open>Lexicographic order\<close>

lemma be_nat_order:
  assumes "length xs = length ys"
  shows "be_nat xs < be_nat ys \<longleftrightarrow> xs < ys"
  using assms
proof (induction xs ys rule: list_induct2)
  case (Cons x xs y ys)
  let ?p = "(256 :: nat) ^ length ys"
  have b: "be_nat xs < ?p" "be_nat ys < ?p" using be_nat_less [of xs] be_nat_less [of ys] Cons.hyps by simp_all
  consider "unat x < unat y" | "unat y < unat x" | "x = y" by (metis linorder_less_linear word_unat_eq_iff)
  then show ?case
  proof cases
    case 1
    then have "unat x * ?p + ?p \<le> unat y * ?p" using mult_le_mono1 [of "Suc (unat x)" "unat y" ?p] by simp
    then show ?thesis using b 1 Cons.hyps by (simp add: word_less_nat_alt)
  next
    case 2
    then have "unat y * ?p + ?p \<le> unat x * ?p" using mult_le_mono1 [of "Suc (unat y)" "unat x" ?p] by simp
    then show ?thesis using b 2 Cons.hyps by (auto simp: word_less_nat_alt)
  next
    case 3
    then show ?thesis using Cons by simp
  qed
qed simp

lemma be_nat_inject: "length xs = length ys \<Longrightarrow> be_nat xs = be_nat ys \<longleftrightarrow> xs = ys"
  using be_nat_order [of xs ys] be_nat_order [of ys xs] by (metis less_irrefl linorder_less_linear)

lemma buf_take_Suc [simp]: "buf_take (Suc n) (x # xs) = x # buf_take n xs" "buf_take (Suc n) [] = 0 # buf_take n []"
  by (simp_all add: buf_take_def)

lemma buf_take_less: "buf_take n a < buf_take n b \<Longrightarrow> a < b"
proof (induction n arbitrary: a b)
  case (Suc n)
  show ?case using Suc.prems Suc.IH [of "tl a" "tl b"] by (cases a; cases b) (auto simp: word_less_nat_alt)
qed (simp add: buf_take_def)

lemma buf_take_eq_shorter:
  "buf_take n a = buf_take n b \<Longrightarrow> length a < length b \<Longrightarrow> length a \<le> n \<Longrightarrow> a < b"
proof (induction n arbitrary: a b)
  case 0
  then show ?case by (cases b) auto
next
  case (Suc n)
  show ?case using Suc.prems Suc.IH [of "tl a" "tl b"] by (cases a; cases b) auto
qed

lemma buf_take_eq_same:
  "buf_take n a = buf_take n b \<Longrightarrow> min (length a) n = min (length b) n \<Longrightarrow> take n a = take n b"
proof (induction n arbitrary: a b)
  case (Suc n)
  show ?case using Suc.prems Suc.IH [of "tl a" "tl b"] by (cases a; cases b) auto
qed simp

lemma list_less_drop: "take n a = take n b \<Longrightarrow> a < b \<longleftrightarrow> drop n a < drop n (b :: 'a::linorder list)"
proof (induction n arbitrary: a b)
  case (Suc n)
  show ?case using Suc.prems Suc.IH [of "tl a" "tl b"] by (cases a; cases b) auto
qed simp

text \<open>A key that holds the string \<open>a\<close>, from its current slice on.\<close>

definition key_holds :: "mem \<Rightarrow> mkey \<Rightarrow> byte list \<Rightarrow> bool" where
  "key_holds m k a \<longleftrightarrow> klen k = int (length a) \<and> a = bytes_at m (ks k) (length a) \<and>
     ikey0 k = make_comparable m (ks k) (klen k)"

lemma key_str_holds: "0 \<le> len \<Longrightarrow> key_holds m (key_str m s len) (bytes_at m s (nat len))"
  by (simp add: key_holds_def key_str_def)

lemma key_holds_ikey: "key_holds m k a \<Longrightarrow> unat (ikey0 k) = be_nat (buf_take 8 a)"
  by (metis key_holds_def nat_int unat_make_comparable)

lemma key_compare_cases:
  assumes "key_holds m ka a" "key_holds m kb b" "keylenx = klen kb \<or> keylenx = ikeylen kb"
  defines "c \<equiv> key_compare ka (ikey0 kb) keylenx"
  shows "(c < 0 \<longrightarrow> a < b) \<and> (0 < c \<longrightarrow> b < a) \<and>
    (c = 0 \<longrightarrow> take 8 a = take 8 b \<and> (8 < length a \<longleftrightarrow> 8 < length b) \<and> (length a \<le> 8 \<longrightarrow> a = b))"
proof -
  let ?x = "buf_take 8 a" and ?y = "buf_take 8 b"
  have l: "klen ka = int (length a)" "klen kb = int (length b)" using assms(1,2) by (simp_all add: key_holds_def)
  have n: "ikey0 ka = ikey0 kb \<longleftrightarrow> ?x = ?y" "ikey0 ka < ikey0 kb \<longleftrightarrow> ?x < ?y"
    using key_holds_ikey [OF assms(1)] key_holds_ikey [OF assms(2)]
    by (simp_all add: word_unat_eq_iff word_less_nat_alt be_nat_inject be_nat_order)
  consider "?x < ?y" | "?y < ?x" | "?x = ?y" by (rule linorder_cases)
  then show ?thesis
  proof cases
    case 1
    then have "c = - 1" using n by (auto simp: c_def key_compare_def compare3_def)
    then show ?thesis using buf_take_less [OF 1] by simp
  next
    case 2
    then have "c = 1" using n by (auto simp: c_def key_compare_def compare3_def)
    then show ?thesis using buf_take_less [OF 2] by simp
  next
    case 3
    then have c: "c = (if 8 < length a then if length b \<le> 8 then 1 else 0 else int (length a) - keylenx)"
      using n l assms(3) by (auto simp: c_def key_compare_def compare3_def ikey_size_def ikeylen_def)
    have k: "keylenx = int (length b) \<or> keylenx = min (int (length b)) 9"
      using assms(3) l by (auto simp: ikeylen_def ikey_size_def)
    have "a < b" if "length a < length b" "length a \<le> 8" by (rule buf_take_eq_shorter [OF 3 that])
    moreover have "b < a" if "length b < length a" "length b \<le> 8" by (rule buf_take_eq_shorter [OF 3 [symmetric] that])
    moreover have "take 8 a = take 8 b" if "min (length a) 8 = min (length b) 8" by (rule buf_take_eq_same [OF 3 that])
    ultimately show ?thesis using c k by (auto split: if_splits)
  qed
qed

section \<open>Fast accesses\<close>

lemma drop_bit_le_word:
  "8 * length bs \<le> 64 \<Longrightarrow> drop_bit (8 * k) (le_word bs :: u64) = le_word (drop k bs)"
proof (induction k arbitrary: bs)
  case (Suc k)
  show ?case
  proof (cases bs)
    case (Cons b cs)
    let ?w = "le_word cs :: u64"
    have "drop_bit 8 (le_word bs :: u64) = ?w"
    proof (rule bit_word_eqI)
      fix n
      have "n + 8 < 64" if "bit ?w n" using bit_le_word [OF that] Suc.prems Cons by simp
      moreover have "\<not> bit b (n + 8)" using bit_imp_le_length [of b "n + 8"] by auto
      ultimately show "bit (drop_bit 8 (le_word bs :: u64)) n = bit ?w n"
        using Cons by (auto simp: bit_simps add.commute)
    qed
    moreover have "drop_bit (8 * Suc k) (le_word bs :: u64) = drop_bit (8 * k) (drop_bit 8 (le_word bs))"
      by (simp add: drop_bit_drop_bit add.commute)
    ultimately show ?thesis using Suc.IH [of cs] Suc.prems Cons by simp
  qed simp
qed simp

lemma make_sloppy_eq: "make_sloppy m s len = ss_make m s len"
proof -
  consider "len \<le> 0" | "8 \<le> len" | "0 < len" "len < 8" by linarith
  then show ?thesis
  proof cases
    case 3
    have k: "nat (64 - 8 * len) = 8 * nat (8 - len)" using 3 by (simp add: nat_eq_iff)
    have "drop (nat (8 - len)) (bytes_at m (s - (8 - len)) 8) = bytes_at m s (nat len)"
      using 3 by (simp add: drop_bytes_at nat_diff_distrib)
    then have "drop_bit (8 * nat (8 - len)) (load64 m (s - (8 - len))) = le_word (bytes_at m s (nat len))"
      unfolding load64_def by (subst drop_bit_le_word) simp_all
    then show ?thesis using 3 by (simp add: make_sloppy_def ss_make_def k min_def)
  qed (simp_all add: make_sloppy_def ss_make_def)
qed

lemma shift_eq: "shift m k = k\<lparr>ks := ks k + 8, klen := klen k - 8, ikey0 := make_comparable m (ks k + 8) (klen k - 8)\<rparr>"
  by (simp add: shift_def make_comparable_sloppy_def make_sloppy_eq make_comparable_def ikey_size_def Let_def)

lemma shift_holds:
  assumes "key_holds m k a" "8 \<le> length a"
  shows "key_holds m (shift m k) (drop 8 a)"
proof -
  have a: "a = bytes_at m (ks k) (length a)" using assms(1) by (simp add: key_holds_def)
  have "drop 8 a = bytes_at m (ks k + 8) (length a - 8)" by (subst a) (simp add: drop_bytes_at)
  then show ?thesis using assms by (simp add: key_holds_def shift_eq of_nat_diff)
qed

lemma le_word_inject: "length xs = length ys \<Longrightarrow> length xs \<le> 8 \<Longrightarrow> (le_word xs :: u64) = le_word ys \<longleftrightarrow> xs = ys"
proof
  assume l: "length xs = length ys" "length xs \<le> 8" and e: "(le_word xs :: u64) = le_word ys"
  have b: "8 * length xs \<le> LENGTH(64)" "8 * length ys \<le> LENGTH(64)" using l by simp_all
  have "xs = le_bytes (length xs) (le_word xs :: u64)" by (rule le_bytes_le_word [OF b(1), symmetric])
  also have "\<dots> = le_bytes (length ys) (le_word ys :: u64)" by (simp only: l(1) e)
  also have "\<dots> = ys" by (rule le_bytes_le_word [OF b(2)])
  finally show "xs = ys" .
qed simp

lemma push_bit_xor_zero: "push_bit k (a XOR b) = 0 \<longleftrightarrow> take_bit (LENGTH('a) - k) a = take_bit (LENGTH('a) - k) (b :: 'a::len word)"
proof
  assume z: "push_bit k (a XOR b) = 0"
  show "take_bit (LENGTH('a) - k) a = take_bit (LENGTH('a) - k) b"
  proof (rule bit_word_eqI)
    fix n
    have "\<not> bit (push_bit k (a XOR b)) (n + k)" using z by simp
    then show "bit (take_bit (LENGTH('a) - k) a) n = bit (take_bit (LENGTH('a) - k) b) n"
      by (auto simp: bit_simps)
  qed
next
  assume e: "take_bit (LENGTH('a) - k) a = take_bit (LENGTH('a) - k) b"
  show "push_bit k (a XOR b) = 0"
  proof (rule bit_word_eqI)
    fix n
    assume "n < LENGTH('a)"
    moreover have "bit (take_bit (LENGTH('a) - k) a) (n - k) = bit (take_bit (LENGTH('a) - k) b) (n - k)" using e by simp
    ultimately show "bit (push_bit k (a XOR b)) n = bit (0 :: 'a word) n" by (auto simp: bit_simps)
  qed
qed


lemma le_bytes_take: "k \<le> n \<Longrightarrow> take k (le_bytes n w) = le_bytes k w"
proof (induction n arbitrary: k w)
  case (Suc n)
  then show ?case by (cases k) auto
qed simp

lemma take_bit_load64: "k \<le> 8 \<Longrightarrow> take_bit (8 * k) (load64 m a) = le_word (bytes_at m a k)"
proof -
  assume "k \<le> 8"
  moreover have "le_bytes 8 (load64 m a) = bytes_at m a 8"
    using le_bytes_le_word [of "bytes_at m a 8", where 'a = 64] by (simp add: load64_def)
  ultimately have "le_bytes k (load64 m a) = bytes_at m a k"
    using le_bytes_take [of k 8 "load64 m a"] by (simp add: min_def)
  then show ?thesis using le_word_le_bytes [of k "load64 m a"] by simp
qed

lemma equals_sloppy_iff: "equals_sloppy m a b len \<longleftrightarrow> bytes_at m a (nat len) = bytes_at m b (nat len)"
proof -
  consider "len \<le> 0" | "0 < len" "len \<le> 8" | "8 < len" by linarith
  then show ?thesis
  proof cases
    case 1
    then show ?thesis by (simp add: equals_sloppy_def bytes_at_def)
  next
    case 2
    then have k: "nat len \<le> 8" "nat (8 * (8 - len)) \<le> 64" "64 - nat (8 * (8 - len)) = 8 * nat len"
      by (auto simp: nat_eq_iff)
    have "equals_sloppy m a b len \<longleftrightarrow> take_bit (8 * nat len) (load64 m a) = take_bit (8 * nat len) (load64 m b)"
      using 2 push_bit_xor_zero [of "nat (8 * (8 - len))" "load64 m a" "load64 m b"] k(3)
      by (simp add: equals_sloppy_def Let_def)
    then show ?thesis using k(1) by (simp add: take_bit_load64 le_word_inject)
  qed (simp add: equals_sloppy_def)
qed

section \<open>The order of the tree\<close>

lemma compare_layers_lex:
  assumes "key_holds m ka a" "key_holds m kb b"
  shows "(compare_layers m ka kb < 0 \<longleftrightarrow> a < b) \<and> (compare_layers m ka kb = 0 \<longleftrightarrow> a = b)"
  using assms
proof (induction m ka kb arbitrary: a b rule: compare_layers.induct)
  case (1 m ka kb)
  let ?c = "key_compare ka (ikey0 kb) (ikeylen kb)"
  have l: "klen ka = int (length a)" using 1(2) by (simp add: key_holds_def)
  note c = key_compare_cases [OF 1(2,3) disjI2 [OF refl]]
  show ?case
  proof (cases "?c = 0 \<and> has_suffix ka")
    case True
    then have s: "8 < length a" "8 < length b" "take 8 a = take 8 b"
      using c l by (auto simp: has_suffix_def ikey_size_def)
    have "(compare_layers m (shift m ka) (shift m kb) < 0 \<longleftrightarrow> drop 8 a < drop 8 b) \<and>
        (compare_layers m (shift m ka) (shift m kb) = 0 \<longleftrightarrow> drop 8 a = drop 8 b)"
      using 1(1) [OF refl True shift_holds [OF 1(2)] shift_holds [OF 1(3)]] s by simp
    moreover have "drop 8 a = drop 8 b \<longleftrightarrow> a = b" using s(3) append_take_drop_id by metis
    ultimately show ?thesis using True list_less_drop [OF s(3)] by (subst (1 2) compare_layers.simps) (simp add: Let_def)
  next
    case False
    then have "compare_layers m ka kb = ?c" by (subst compare_layers.simps) (auto simp: Let_def)
    moreover have "a = b" if "?c = 0" using c that False l by (auto simp: has_suffix_def ikey_size_def)
    ultimately show ?thesis using c by (auto simp: not_less_iff_gr_or_eq)
  qed
qed

section \<open>Undoing shifts and printing\<close>

lemma unshift_all_shifts: "unshift_all m ((shift m ^^ n) (key_str m s len)) = key_str m s len"
proof -
  have "(shift m ^^ n) (key_str m s len) =
      (if n = 0 then key_str m s len
       else \<lparr>ikey0 = make_comparable m (s + 8 * int n) (len - 8 * int n), klen = len - 8 * int n,
              ks = s + 8 * int n, kfirst = s\<rparr>)"
  proof (induction n)
    case (Suc n)
    then show ?case by (simp add: shift_eq key_str_def algebra_simps)
  qed simp
  then show ?thesis by (simp add: unshift_all_def key_str_def Let_def)
qed

lemma le_bytes_ntohq: "length bs = 8 \<Longrightarrow> le_bytes 8 (ntohq (le_word (rev bs))) = bs"
  using le_bytes_le_word [of bs, where 'a = 64] ntohq_le_word [of "rev bs"] by simp

lemma slice_bytes: "le_bytes 8 (ntohq (make_comparable m s len)) = buf_take 8 (bytes_at m s (nat len))"
  using le_bytes_ntohq [of "buf_take 8 (bytes_at m s (nat len))"]
  by (simp only: make_comparable_def ss_make_pad ntohq_le_word [OF length_buf_take] length_buf_take simp_thms)

lemma key_unparse_str:
  assumes "0 \<le> len" "len \<le> datalen"
  shows "key_unparse m (key_str m s len) datalen = Inr (bytes_at m s (nat len))"
proof -
  have u: "unparse_comparable len (make_comparable m s len) 8 = Inr (bytes_at m s (nat (min 8 len)))"
    using assms(1) by (auto simp: unparse_comparable_def memcpy_len_def slice_bytes buf_take_def min_def)
  have "bytes_at m s 8 @ bytes_at m (s + 8) (nat (len - 8)) = bytes_at m s (nat len)" if "8 < len"
    using that drop_bytes_at [of 8 m s "nat len"] append_take_drop_id [of 8 "bytes_at m s (nat len)"]
    by (simp add: nat_diff_distrib min_absorb1)
  then show ?thesis using assms u
    by (simp add: key_unparse_def key_str_def ikey_size_def Let_def min_def)
qed

text \<open>
  A slice does not tell a short string from the same string with zero bytes behind it: the order
  needs the length as well, although the comment of \<open>make_comparable\<close> promises the lexicographic
  order from the integers alone.
\<close>

lemma slices_collide:
  assumes "m (s + 1) = 0"
  shows "make_comparable m s 1 = make_comparable m s 2 \<and> bytes_at m s 1 < bytes_at m s 2"
proof -
  have b: "bytes_at m s 1 = [m s]" "bytes_at m s 2 = [m s, 0]" using assms by (simp_all add: bytes_at_def numeral_2_eq_2)
  then have "buf_take 8 (bytes_at m s 1) = buf_take 8 (bytes_at m s 2)" by (simp add: buf_take_def numeral_eq_Suc)
  then show ?thesis using b by (simp add: make_comparable_def ss_make_pad)
qed

text \<open>
  C26. Comparing two keys slice by slice, the slices as integers and then the lengths, shifting both
  when they agree and a suffix is left, is the lexicographic order of the two strings. Any number of
  shifts is undone by \<open>unshift_all\<close>, and \<open>unparse\<close> gives the string back.
\<close>

theorem key_order:
  assumes "0 \<le> la" "0 \<le> lb"
  shows "(compare_layers m (key_str m sa la) (key_str m sb lb) < 0 \<longleftrightarrow> bytes_at m sa (nat la) < bytes_at m sb (nat lb)) \<and>
    (compare_layers m (key_str m sa la) (key_str m sb lb) = 0 \<longleftrightarrow> bytes_at m sa (nat la) = bytes_at m sb (nat lb)) \<and>
    unshift_all m ((shift m ^^ n) (key_str m sa la)) = key_str m sa la \<and>
    key_unparse m (key_str m sa la) la = Inr (bytes_at m sa (nat la))"
  using compare_layers_lex [OF key_str_holds [OF assms(1)] key_str_holds [OF assms(2)]]
    unshift_all_shifts key_unparse_str [OF assms(1) order.refl] by blast

theorem key_order_witness:
  "compare_layers (\<lambda>a. if a = 9 then 1 else 0) (key_str (\<lambda>a. if a = 9 then 1 else 0) 20 10) (key_str (\<lambda>a. if a = 9 then 1 else 0) 0 10) < 0"
  using key_order [of 10 10 "\<lambda>a. if a = 9 then 1 else 0" 20 0] by (simp add: bytes_at_def numeral_eq_Suc)

end
