(* ===== verification/Masstree_Leaf.thy ===== *)
theory Masstree_Leaf
  imports Masstree_Permuter Masstree_Internode Masstree_Key
begin

text \<open>
  Leaves of the Masstree B+-tree: class \<open>leaf\<close> of \<^verbatim>\<open>src/masstree/masstree_struct.hh\<close>, \<open>leaf_split\<close> and the
  leaf part of \<open>finish_split\<close> of \<^verbatim>\<open>src/masstree/masstree_split.hh\<close>, \<open>finish_insert\<close> of
  \<^verbatim>\<open>src/masstree/masstree_insert.hh\<close> and the single-threaded effect of \<open>link_split\<close> of
  \<^verbatim>\<open>src/masstree/btree_leaflink.hh\<close>. A slot of a leaf is the record of what the arrays hold at its index;
  the suffix of a slot is the string \<open>ksuf(p)\<close> returns, the layout of the string bags that store it is left
  open. The order of the slots is the packed permutation of the permuter's theory.

  The theory shows that splitting while inserting is list insertion followed by a cut, that keys with
  the same slice are never cut apart, and that readers of the two leaves see the old keys until the new
  one is inserted.
\<close>

section \<open>Slots\<close>

record 'v entry =
  e_ikey :: u64
  e_keylenx :: int
  e_lv :: "'v option"
  e_ksuf :: "byte list"

definition keylenx_has_ksuf :: "int \<Rightarrow> bool" where
  "keylenx_has_ksuf keylenx \<longleftrightarrow> keylenx = 8 + 1"

definition keylenx_is_node :: "int \<Rightarrow> bool" where
  "keylenx_is_node keylenx \<longleftrightarrow> keylenx > 63"

definition keylenx_is_stable_node :: "int \<Rightarrow> bool" where
  "keylenx_is_stable_node keylenx \<longleftrightarrow> keylenx > 127"

definition entry_assign :: "mem \<Rightarrow> mkey \<Rightarrow> 'v entry \<Rightarrow> 'v entry" where
  "entry_assign m ka e =
     e\<lparr>e_lv := None,
       e_ksuf := (if has_suffix ka then bytes_at m (fst (key_suffix ka)) (nat (snd (key_suffix ka))) else e_ksuf e),
       e_ikey := ikey0 ka, e_keylenx := ikeylen ka\<rparr>"

definition entry_copy :: "'v entry \<Rightarrow> 'v entry \<Rightarrow> 'v entry" where
  "entry_copy x e =
     e\<lparr>e_lv := e_lv x, e_ksuf := (if keylenx_has_ksuf (e_keylenx x) then e_ksuf x else e_ksuf e),
       e_ikey := e_ikey x, e_keylenx := e_keylenx x\<rparr>"

record 'v leaf =
  l_ver :: u32
  nremoved :: int
  permutation :: u64
  slots_of :: "'v entry list"

definition leaf_size :: "'v leaf \<Rightarrow> nat" where
  "leaf_size n = kp_size (permutation n)"

definition leaf_assign :: "nat \<Rightarrow> mem \<Rightarrow> mkey \<Rightarrow> 'v leaf \<Rightarrow> 'v leaf res" where
  "leaf_assign p m ka n =
     bind_res (at (slots_of n) p) (\<lambda>e. Inr (n\<lparr>slots_of := (slots_of n)[p := entry_assign m ka e]\<rparr>))"

definition leaf_copy :: "nat \<Rightarrow> 'v leaf \<Rightarrow> nat \<Rightarrow> 'v leaf \<Rightarrow> 'v leaf res" where
  "leaf_copy p x xp n =
     bind_res (at (slots_of x) xp) (\<lambda>xe. bind_res (at (slots_of n) p) (\<lambda>e.
       Inr (n\<lparr>slots_of := (slots_of n)[p := entry_copy xe e]\<rparr>)))"

section \<open>The list of leaves\<close>

record links =
  l_next :: "node \<Rightarrow> node option"
  l_prev :: "node \<Rightarrow> node option"

definition link_split :: "node \<Rightarrow> node \<Rightarrow> links \<Rightarrow> links" where
  "link_split n nr lk =
     (let prev1 = (l_prev lk)(nr \<mapsto> n); nxt = l_next lk n; next1 = (l_next lk)(nr := nxt);
          prev2 = (case nxt of None \<Rightarrow> prev1 | Some x \<Rightarrow> prev1(x \<mapsto> nr))
      in \<lparr>l_next = next1(n \<mapsto> nr), l_prev = prev2\<rparr>)"

section \<open>Splitting a leaf\<close>

definition leaf_ikey :: "'v leaf \<Rightarrow> u64 \<Rightarrow> nat \<Rightarrow> nat \<Rightarrow> u64" where
  "leaf_ikey nl ikey ka_i i =
     (let slot = (\<lambda>j. e_ikey (slots_of nl ! unat (kp_nth (permutation nl) j)))
      in if i < ka_i then slot i else if i = ka_i then ikey else slot (i - 1))"

text \<open>
  The search for a cut that keeps equal slices together. It runs outwards in both directions and would
  not end when every key had the slice \<open>mid_ikey\<close>, which is the value \<open>None\<close>. The code asserts that the cut
  lies inside the leaf; \<open>leaf_mid_spec\<close> below discharges that.
\<close>

function mid_loop :: "(nat \<Rightarrow> u64) \<Rightarrow> u64 \<Rightarrow> int \<Rightarrow> int \<Rightarrow> int \<Rightarrow> nat option" where
  "mid_loop ik mid_ikey width midl midr =
     (if midr \<le> width \<and> mid_ikey \<noteq> ik (nat midr) then Some (nat midr)
      else if midl \<ge> 0 \<and> mid_ikey \<noteq> ik (nat midl) then Some (nat (midl + 1))
      else if midr > width \<and> midl < 0 then None
      else mid_loop ik mid_ikey width (midl - 1) (midr + 1))"
  by pat_completeness auto

termination
  by (relation "measure (\<lambda>(ik, k, width, midl, midr). nat (width + 1 - midr) + nat (midl + 1))") auto

declare mid_loop.simps [simp del]

definition leaf_mid :: "nat \<Rightarrow> nat \<Rightarrow> nat \<Rightarrow> bool \<Rightarrow> bool \<Rightarrow> (nat \<Rightarrow> u64) \<Rightarrow> nat option" where
  "leaf_mid w width p has_prev has_next ik =
     (let mid = (if p = 0 \<and> \<not> has_prev then 1 else if p = width \<and> \<not> has_next then width else w div 2 + 1)
      in if ik mid = ik (mid - 1) then mid_loop ik (ik mid) (int width) (int mid - 2) (int mid + 1) else Some mid)"

text \<open>The loop that fills the right leaf; \<open>pv\<close> holds the permutation from the position to copy next.\<close>

fun fill_right :: "mem \<Rightarrow> mkey \<Rightarrow> 'v leaf \<Rightarrow> nat \<Rightarrow> nat \<Rightarrow> nat list \<Rightarrow> u64 \<Rightarrow> 'v leaf \<Rightarrow> 'v leaf res" where
  "fill_right m ka nl p mid [] pv nr = Inr nr"
| "fill_right m ka nl p mid (x # xs) pv nr =
     (if x = p then bind_res (leaf_assign (x - mid) m ka nr) (fill_right m ka nl p mid xs pv)
      else bind_res (leaf_copy (x - mid) nl (unat (pv AND 15)) nr) (fill_right m ka nl p mid xs (drop_bit 4 pv)))"

definition leaf_split ::
    "nat \<Rightarrow> mem \<Rightarrow> node \<Rightarrow> 'v leaf \<Rightarrow> node \<Rightarrow> 'v leaf \<Rightarrow> nat \<Rightarrow> mkey \<Rightarrow> links \<Rightarrow>
       ('v leaf \<times> links \<times> u64 \<times> nat) res option" where
  "leaf_split w m nl_id nl nr_id nr p ka lk =
     (if \<not> (nv_locked NP (l_ver nl) \<and> nv_locked NP (l_ver nr)) then Some (Inl (Abort ''locked()''))
      else if \<not> (nremoved nl = 0 \<and> w - 1 \<le> leaf_size nl) then Some (Inl (Abort ''nl->size() >= nl->width - 1''))
      else (let width = leaf_size nl
            in case leaf_mid w width p (l_prev lk nl_id \<noteq> None) (l_next lk nl_id \<noteq> None) (leaf_ikey nl (ikey0 ka) p) of
                 None \<Rightarrow> None
               | Some mid \<Rightarrow> Some
                   (bind_res (fill_right m ka nl p mid [mid ..< width + 1]
                       (value_from (permutation nl) (mid - (if p < mid then 1 else 0))) nr) (\<lambda>nr1.
                      let permr = make_sorted w (width + 1 - mid);
                          permr' = (if p \<ge> mid then remove_to_back w (p - mid) permr else permr);
                          nr2 = nr1\<lparr>permutation := permr'\<rparr>
                      in bind_res (at (slots_of nr2) 0) (\<lambda>e.
                         Inr (nr2, link_split nl_id nr_id lk, e_ikey e,
                              if p \<ge> mid then 1 + (if mid = width then 1 else 0) else 0))))))"

text \<open>
  The leaf part of \<open>finish_split\<close>: the left leaf gives up what the right one took, and the new key is put
  in a free slot of the left leaf or is already in the right one. The result has the position and slot
  of the new key and whether it is in the left leaf.
\<close>

definition leaf_finish ::
    "nat \<Rightarrow> mem \<Rightarrow> mkey \<Rightarrow> nat \<Rightarrow> nat \<Rightarrow> 'v leaf \<Rightarrow> 'v leaf \<Rightarrow> ('v leaf \<times> nat \<times> nat \<times> bool) res" where
  "leaf_finish w m ka ki split_type nl nr =
     (let perml = permutation nl; width = kp_size perml;
          perml1 = set_size (width - leaf_size nr) perml;
          perml2 = (if width \<noteq> w then exchange (kp_size perml1) (w - 1) perml1 else perml1)
      in bind_res (nv_mark_split NP (l_ver nl)) (\<lambda>v.
         let nl1 = nl\<lparr>l_ver := v, permutation := perml2\<rparr>
         in if split_type = 0
            then (let kp = unat (kp_back w perml2)
                  in bind_res (leaf_assign kp m ka nl1) (\<lambda>nl2. Inr (nl2, ki, kp, True)))
            else Inr (nl1, ki - kp_size perml2, ki - kp_size perml2, False)))"

definition finish_insert :: "nat \<Rightarrow> nat \<Rightarrow> nat \<Rightarrow> 'v leaf \<Rightarrow> 'v leaf res" where
  "finish_insert w ki kp n =
     (if unat (kp_back w (permutation n)) = kp
      then Inr (n\<lparr>permutation := snd (insert_from_back w ki (permutation n))\<rparr>)
      else Inl (Abort ''perm.back() == kp_''))"

section \<open>What a reader sees\<close>

type_synonym 'v view = "u64 \<times> int \<times> 'v option \<times> byte list option"

definition entry_view :: "'v entry \<Rightarrow> 'v view" where
  "entry_view e = (e_ikey e, e_keylenx e, e_lv e, if keylenx_has_ksuf (e_keylenx e) then Some (e_ksuf e) else None)"

definition key_view :: "mem \<Rightarrow> mkey \<Rightarrow> 'v view" where
  "key_view m ka = (ikey0 ka, ikeylen ka, None,
     if has_suffix ka then Some (bytes_at m (fst (key_suffix ka)) (nat (snd (key_suffix ka)))) else None)"

definition leaf_view :: "nat \<Rightarrow> 'v leaf \<Rightarrow> 'v view list" where
  "leaf_view w n = map (\<lambda>s. entry_view (slots_of n ! unat s)) (kp_used w (permutation n))"

definition leaf_ok :: "nat \<Rightarrow> 'v leaf \<Rightarrow> bool" where
  "leaf_ok w n \<longleftrightarrow> permuter_ok w (permutation n) \<and> length (slots_of n) = w"

lemma entry_view_assign [simp]: "entry_view (entry_assign m ka e) = key_view m ka"
  by (auto simp: entry_view_def entry_assign_def key_view_def keylenx_has_ksuf_def ikeylen_def has_suffix_def ikey_size_def)

lemma entry_view_copy [simp]: "entry_view (entry_copy x e) = entry_view x"
  by (simp add: entry_view_def entry_copy_def)

lemma fst_entry_view [simp]: "fst (entry_view e) = e_ikey e" "fst (key_view m ka) = ikey0 ka"
  by (simp_all add: entry_view_def key_view_def)

lemma length_leaf_view [simp]: "leaf_ok w n \<Longrightarrow> length (leaf_view w n) = leaf_size n"
  by (simp add: leaf_view_def leaf_size_def leaf_ok_def permuter_ok_def)

lemma nth_leaf_view:
  "leaf_ok w n \<Longrightarrow> j < leaf_size n \<Longrightarrow> leaf_view w n ! j = entry_view (slots_of n ! unat (kp_nth (permutation n) j))"
  by (simp add: leaf_view_def leaf_size_def leaf_ok_def permuter_ok_def)

lemma slot_bound: "permuter_ok w x \<Longrightarrow> j < w \<Longrightarrow> unat (kp_nth x j) < w"
proof -
  assume a: "permuter_ok w x" "j < w"
  then have "kp_nth x j \<in> set (slots w x)" using nth_mem [of j "slots w x"] by simp
  then obtain i where "kp_nth x j = of_nat i" "i < w" using set_slots [OF a(1)] by auto
  then show ?thesis using a(1) by (simp add: permuter_ok_def unat_of_nat take_bit_nat_eq_self)
qed

lemma slot_distinct:
  "permuter_ok w x \<Longrightarrow> i < w \<Longrightarrow> j < w \<Longrightarrow> unat (kp_nth x i) = unat (kp_nth x j) \<longleftrightarrow> i = j"
  using set_slots [of w x] nth_eq_iff_index_eq [of "slots w x" i j] by (simp flip: word_unat_eq_iff)

lemma leaf_ikey_view:
  assumes "leaf_ok w nl" "p \<le> leaf_size nl" "i \<le> leaf_size nl"
  shows "leaf_ikey nl (ikey0 ka) p i = fst (insert_at p (key_view m ka) (leaf_view w nl) ! i)"
proof -
  have "i - 1 < leaf_size nl" if "p < i" using that assms(3) by linarith
  then show ?thesis using assms by (auto simp: leaf_ikey_def nth_insert_at nth_leaf_view Let_def)
qed

section \<open>The cut\<close>

lemma mid_loop_cut:
  assumes "mid_loop ik k width midl midr = Some r" "midl \<le> m0 - 2" "m0 + 1 \<le> midr" "1 \<le> m0" "m0 \<le> width"
    "\<And>i. midl < i \<Longrightarrow> i < midr \<Longrightarrow> 0 \<le> i \<Longrightarrow> i \<le> width \<Longrightarrow> ik (nat i) = k"
  shows "0 < r \<and> int r \<le> width \<and> ik r \<noteq> ik (r - 1)"
  using assms
proof (induction ik k width midl midr rule: mid_loop.induct)
  case (1 ik k width midl midr)
  note inv = 1(7)
  consider (right) "midr \<le> width" "k \<noteq> ik (nat midr)" | (left) "\<not> (midr \<le> width \<and> k \<noteq> ik (nat midr))" "midl \<ge> 0" "k \<noteq> ik (nat midl)"
    | (on) "\<not> (midr \<le> width \<and> k \<noteq> ik (nat midr))" "\<not> (midl \<ge> 0 \<and> k \<noteq> ik (nat midl))" by blast
  then show ?case
  proof cases
    case right
    then have r: "r = nat midr" using 1(2) by (simp add: mid_loop.simps)
    have "ik (nat (midr - 1)) = k" using right 1(3-6) by (intro inv) auto
    moreover have "nat (midr - 1) = nat midr - 1" by simp
    ultimately show ?thesis using right r 1(4,5) by auto
  next
    case left
    then have r: "r = nat (midl + 1)" using 1(2) by (subst (asm) mid_loop.simps) (auto split: if_splits)
    have "ik (nat (midl + 1)) = k" using left 1(3-6) by (intro inv) auto
    moreover have "nat (midl + 1) - 1 = nat midl" using left by simp
    ultimately show ?thesis using left r 1(3,6) by auto
  next
    case on
    have n: "\<not> (midr > width \<and> midl < 0)" using 1(2) on by (auto simp: mid_loop.simps split: if_splits)
    have rec: "mid_loop ik k width (midl - 1) (midr + 1) = Some r"
      using 1(2) on n by (subst (asm) mid_loop.simps) (auto split: if_splits)
    have "ik (nat i) = k" if "midl - 1 < i" "i < midr + 1" "0 \<le> i" "i \<le> width" for i
    proof -
      have "i = midl \<or> i = midr \<or> midl < i \<and> i < midr" using that by auto
      then consider "i = midl" | "i = midr" | "midl < i" "i < midr" by blast
      then show ?thesis by cases (use on that inv in auto)
    qed
    then show ?thesis using 1(1) [OF on(1,2) n rec] 1(3-6) by auto
  qed
qed

lemma mid_loop_ends:
  assumes "\<exists>i. 0 \<le> i \<and> i \<le> width \<and> ik (nat i) \<noteq> k" "\<And>i. midl < i \<Longrightarrow> i < midr \<Longrightarrow> 0 \<le> i \<Longrightarrow> i \<le> width \<Longrightarrow> ik (nat i) = k"
  shows "\<exists>r. mid_loop ik k width midl midr = Some r"
  using assms
proof (induction ik k width midl midr rule: mid_loop.induct)
  case (1 ik k width midl midr)
  show ?case
  proof (cases "(midr \<le> width \<and> k \<noteq> ik (nat midr)) \<or> (midl \<ge> 0 \<and> k \<noteq> ik (nat midl))")
    case True
    then show ?thesis by (subst mid_loop.simps) auto
  next
    case False
    then have on: "\<not> (midr \<le> width \<and> k \<noteq> ik (nat midr))" "\<not> (midl \<ge> 0 \<and> k \<noteq> ik (nat midl))" by auto
    have n: "\<not> (midr > width \<and> midl < 0)" using 1(2,3) by force
    have "ik (nat i) = k" if "midl - 1 < i" "i < midr + 1" "0 \<le> i" "i \<le> width" for i
    proof -
      have "i = midl \<or> i = midr \<or> midl < i \<and> i < midr" using that by auto
      then consider "i = midl" | "i = midr" | "midl < i" "i < midr" by blast
      then show ?thesis by cases (use on that 1(3) in auto)
    qed
    then obtain r where "mid_loop ik k width (midl - 1) (midr + 1) = Some r" using 1(1) [OF on n 1(2)] by blast
    then show ?thesis using on n by (subst mid_loop.simps) auto
  qed
qed

lemma leaf_mid_spec:
  assumes "8 \<le> w" "w - 1 \<le> width" "p \<le> width" "\<exists>i \<le> width. ik i \<noteq> ik 0"
  shows "\<exists>mid. leaf_mid w width p has_prev has_next ik = Some mid \<and> 0 < mid \<and> mid \<le> width \<and> ik mid \<noteq> ik (mid - 1)"
proof -
  define m0 where "m0 = (if p = 0 \<and> \<not> has_prev then 1 else if p = width \<and> \<not> has_next then width else w div 2 + 1)"
  have m: "1 \<le> m0" "m0 \<le> width" using assms(1-3) by (auto simp: m0_def)
  show ?thesis
  proof (cases "ik m0 = ik (m0 - 1)")
    case True
    have "\<exists>i \<le> width. ik i \<noteq> ik m0" using assms(4) by (metis le0)
    then have d: "\<exists>i. 0 \<le> i \<and> i \<le> int width \<and> ik (nat i) \<noteq> ik m0" by (metis nat_int of_nat_0_le_iff of_nat_mono)
    have inv: "ik (nat i) = ik m0" if "int m0 - 2 < i" "i < int m0 + 1" "0 \<le> i" "i \<le> int width" for i
    proof -
      have "nat i = m0 \<or> nat i = m0 - 1" using that by linarith
      then show ?thesis using True by metis
    qed
    obtain r where r: "mid_loop ik (ik m0) (int width) (int m0 - 2) (int m0 + 1) = Some r"
      using mid_loop_ends [OF d inv] by blast
    have "0 < r \<and> int r \<le> int width \<and> ik r \<noteq> ik (r - 1)"
      using m by (intro mid_loop_cut [OF r, of "int m0"] inv) auto
    then show ?thesis using r True by (simp add: leaf_mid_def m0_def [symmetric])
  next
    case False
    then show ?thesis using m by (simp add: leaf_mid_def m0_def [symmetric])
  qed
qed

section \<open>The right leaf\<close>

lemma value_from_nth: "value_from x j AND 15 = kp_nth x j" "drop_bit 4 (value_from x j) = value_from x (Suc j)"
  by (simp_all add: value_from_def kp_nth_def drop_bit_drop_bit add.commute mult.commute)

lemma fill_right_spec:
  assumes "leaf_ok w nl" "length (slots_of nr) = w" "p \<le> leaf_size nl" "mid \<le> x0" "x0 \<le> leaf_size nl + 1" "0 < mid"
  shows "\<exists>nr'. fill_right m ka nl p mid [x0 ..< leaf_size nl + 1] (value_from (permutation nl) (x0 - (if p < x0 then 1 else 0))) nr = Inr nr' \<and>
    length (slots_of nr') = w \<and> l_ver nr' = l_ver nr \<and> nremoved nr' = nremoved nr \<and>
    (\<forall>x. x0 \<le> x \<and> x \<le> leaf_size nl \<longrightarrow>
       entry_view (slots_of nr' ! (x - mid)) = insert_at p (key_view m ka) (leaf_view w nl) ! x) \<and>
    (\<forall>i. i < x0 - mid \<longrightarrow> slots_of nr' ! i = slots_of nr ! i)"
  using assms(2,4,5)
proof (induction "leaf_size nl + 1 - x0" arbitrary: x0 nr)
  case 0
  then show ?case by auto
next
  case (Suc d)
  let ?n = "leaf_size nl" and ?I = "insert_at p (key_view m ka) (leaf_view w nl)"
  have pk: "permuter_ok w (permutation nl)" "length (slots_of nl) = w" "?n \<le> w"
    using assms(1) by (auto simp: leaf_ok_def leaf_size_def permuter_ok_def)
  have x: "x0 \<le> ?n" "x0 - mid < w" using Suc(2) pk(3) assms(6) Suc(4) by auto
  let ?j = "x0 - (if p < x0 then 1 else 0)" and ?e = "slots_of nr ! (x0 - mid)"
  have up: "[x0 ..< ?n + 1] = x0 # [Suc x0 ..< ?n + 1]" using x by (simp add: upt_conv_Cons)
  obtain e pv where step: "fill_right m ka nl p mid [x0 ..< ?n + 1] (value_from (permutation nl) ?j) nr =
      fill_right m ka nl p mid [Suc x0 ..< ?n + 1] pv (nr\<lparr>slots_of := (slots_of nr)[x0 - mid := e]\<rparr>)"
    "pv = value_from (permutation nl) (Suc x0 - (if p < Suc x0 then 1 else 0))" "entry_view e = ?I ! x0"
  proof (cases "x0 = p")
    case True
    show thesis
    proof (rule that)
      show "fill_right m ka nl p mid [x0 ..< ?n + 1] (value_from (permutation nl) ?j) nr =
        fill_right m ka nl p mid [Suc x0 ..< ?n + 1] (value_from (permutation nl) ?j)
          (nr\<lparr>slots_of := (slots_of nr)[x0 - mid := entry_assign m ka ?e]\<rparr>)"
        unfolding up using True x Suc(3) by (simp add: leaf_assign_def at_def)
    qed (use True assms(1,3) in \<open>simp_all add: nth_insert_at\<close>)
  next
    case False
    then have j: "?j < ?n" using x assms(3) by (auto split: if_splits)
    then have s: "unat (kp_nth (permutation nl) ?j) < w" using slot_bound [OF pk(1)] pk(3) by simp
    have "?I ! x0 = entry_view (slots_of nl ! unat (kp_nth (permutation nl) ?j))"
      using False x assms(1,3) j by (auto simp: nth_insert_at nth_leaf_view split: if_splits)
    moreover have "Suc ?j = Suc x0 - (if p < Suc x0 then 1 else 0)" using False by auto
    ultimately show thesis
    proof (intro that)
      show "fill_right m ka nl p mid [x0 ..< ?n + 1] (value_from (permutation nl) ?j) nr =
        fill_right m ka nl p mid [Suc x0 ..< ?n + 1] (value_from (permutation nl) (Suc ?j))
          (nr\<lparr>slots_of := (slots_of nr)[x0 - mid := entry_copy (slots_of nl ! unat (kp_nth (permutation nl) ?j)) ?e]\<rparr>)"
        unfolding up fill_right.simps value_from_nth using False x Suc(3) s pk(2) by (simp add: leaf_copy_def at_def)
    qed (simp_all only: entry_view_copy)
  qed
  let ?nr = "nr\<lparr>slots_of := (slots_of nr)[x0 - mid := e]\<rparr>"
  have nr: "d = ?n + 1 - Suc x0" "length (slots_of ?nr) = w" "mid \<le> Suc x0" "Suc x0 \<le> ?n + 1"
    using Suc(2-4) x by auto
  obtain nr' where r: "fill_right m ka nl p mid [Suc x0 ..< ?n + 1] pv ?nr = Inr nr'" "length (slots_of nr') = w"
    "l_ver nr' = l_ver ?nr" "nremoved nr' = nremoved ?nr"
    "\<forall>x. Suc x0 \<le> x \<and> x \<le> ?n \<longrightarrow> entry_view (slots_of nr' ! (x - mid)) = ?I ! x"
    "\<forall>i. i < Suc x0 - mid \<longrightarrow> slots_of nr' ! i = slots_of ?nr ! i"
    using Suc(1) [OF nr] step(2) by blast
  have "slots_of nr' ! (x0 - mid) = e" using r(6) Suc(3,4) x(2) by (simp add: Suc_diff_le)
  then have "entry_view (slots_of nr' ! (x - mid)) = ?I ! x" if "x0 \<le> x" "x \<le> ?n" for x
    using r(5) step(3) that by (cases "x = x0") auto
  moreover have "slots_of nr' ! i = slots_of nr ! i" if "i < x0 - mid" for i using r(6) that by (auto simp: nth_list_update)
  ultimately show ?case using r(1-4) step(1) by auto
qed

lemma sorted_ok: "8 \<le> w \<Longrightarrow> w \<le> 15 \<Longrightarrow> n \<le> w \<Longrightarrow> permuter_ok w (make_sorted w n)"
proof -
  assume b: "8 \<le> w" "w \<le> 15" "n \<le> w"
  let ?f = "\<lambda>j. if j < n then j else w - 1 - (j - n)"
  have "map ?f [0 ..< w] = [0 ..< n] @ rev [n ..< w]"
    using b(3) by (intro nth_equalityI) (auto simp: nth_append rev_nth)
  then have "mset (map ?f [0 ..< w]) = mset [0 ..< w]"
    using b(3) upt_add_eq_append [of 0 n "w - n"] by simp
  moreover have "slots w (make_sorted w n) = map of_nat (map ?f [0 ..< w])"
    using make_sorted_nth(2) [OF b] by (intro nth_equalityI) auto
  ultimately have "mset (slots w (make_sorted w n)) = mset (map of_nat [0 ..< w])"
    by (simp only: mset_map [of of_nat])
  then show ?thesis using b make_sorted_nth(1) [OF b] by (simp add: permuter_ok_def)
qed

lemma remove_to_back_ok:
  assumes "permuter_ok w x" "i < w" "0 < kp_size x"
  shows "permuter_ok w (remove_to_back w i x)"
proof -
  have w: "w \<le> 15" using assms(1) by (simp add: permuter_ok_def)
  have "mset (slots w (remove_to_back w i x)) = mset (slots w x)"
    using remove_to_back_slots [OF assms(2) w assms(3)] mset_remove_at [of i w "slots w x"] assms(2) by simp
  then show ?thesis using assms remove_to_back_spec(1) [OF assms(2) w assms(3)] by (auto simp: permuter_ok_def)
qed

lemma finish_insert_spec:
  assumes "leaf_ok w n" "leaf_size n < w" "ki \<le> leaf_size n" "kp = unat (kp_back w (permutation n))"
  shows "\<exists>n'. finish_insert w ki kp n = Inr n' \<and> leaf_ok w n' \<and> slots_of n' = slots_of n \<and> l_ver n' = l_ver n \<and>
    leaf_view w n' = insert_at ki (entry_view (slots_of n ! kp)) (leaf_view w n)"
proof -
  let ?x = "permutation n" and ?q = "snd (insert_from_back w ki (permutation n))"
  have k: "permuter_ok w ?x" "kp_size ?x < w" "ki \<le> kp_size ?x" using assms by (simp_all add: leaf_ok_def leaf_size_def)
  obtain v where v: "insert_from_back w ki ?x = (v, ?q)" by (cases "insert_from_back w ki ?x") auto
  have "fst (insert_from_back w ki ?x) = kp_back w ?x" by (simp add: insert_from_back_def Let_def)
  moreover have "permuter_ok w ?q" using permuter_ok_insert [OF k(1,2) _ v] k by simp
  moreover note insert_used [OF k]
  ultimately show ?thesis using assms(1,4) v
    by (auto simp: finish_insert_def leaf_view_def leaf_ok_def insert_at_def take_map drop_map)
qed

lemma insert_at_skip:
  assumes "p \<le> length xs" "j < length xs"
  shows "insert_at p x xs ! (if j < p then j else Suc j) = xs ! j"
  using assms by (auto simp: nth_insert_at)

lemma right_leaf_full:
  assumes "8 \<le> w" "w \<le> 15" "length (slots_of nr) = w" "mid \<le> n" "n \<le> w" "0 < mid" "length I = Suc n"
    "\<forall>x. mid \<le> x \<and> x \<le> n \<longrightarrow> entry_view (slots_of nr ! (x - mid)) = I ! x"
  defines "nr' \<equiv> nr\<lparr>permutation := make_sorted w (n + 1 - mid)\<rparr>"
  shows "leaf_ok w nr' \<and> leaf_size nr' = n + 1 - mid \<and> leaf_view w nr' = drop mid I"
proof -
  have c: "n + 1 - mid \<le> w" using assms(5,6) by simp
  note ms = make_sorted_nth [OF assms(1,2) c]
  have ok: "leaf_ok w nr'" using sorted_ok [OF assms(1,2) c] assms(3) by (simp add: leaf_ok_def nr'_def)
  have sz: "leaf_size nr' = n + 1 - mid" using ms(1) by (simp add: leaf_size_def nr'_def)
  have "leaf_view w nr' = drop mid I"
  proof (rule nth_equalityI)
    fix j assume "j < length (leaf_view w nr')"
    then have j: "j < n + 1 - mid" using ok sz by simp
    then have "unat (kp_nth (permutation nr') j) = j"
      using ms(2) [of j] c assms(2) by (simp add: nr'_def unat_of_nat take_bit_nat_eq_self)
    then show "leaf_view w nr' ! j = drop mid I ! j"
      using nth_leaf_view [OF ok] j sz assms(4,7) assms(8) [rule_format, of "mid + j"] by (simp add: nr'_def)
  qed (use ok sz assms in simp)
  with ok sz show ?thesis by simp
qed

lemma right_leaf_pending:
  assumes "8 \<le> w" "w \<le> 15" "length (slots_of nr) = w" "mid \<le> p" "p \<le> n" "n \<le> w" "0 < mid" "length E = n"
    "\<forall>x. mid \<le> x \<and> x \<le> n \<longrightarrow> entry_view (slots_of nr ! (x - mid)) = insert_at p k E ! x"
  defines "nr' \<equiv> nr\<lparr>permutation := remove_to_back w (p - mid) (make_sorted w (n + 1 - mid))\<rparr>"
  shows "leaf_ok w nr' \<and> leaf_size nr' = n - mid \<and> leaf_view w nr' = drop mid E \<and>
    unat (kp_back w (permutation nr')) = p - mid \<and> entry_view (slots_of nr' ! (p - mid)) = k"
proof -
  have c: "n + 1 - mid \<le> w" "p - mid < w" using assms(1,5-7) by linarith+
  note ms = make_sorted_nth [OF assms(1,2) c(1)]
  have pos: "0 < kp_size (make_sorted w (n + 1 - mid))" using ms(1) assms(4,5) by simp
  note rb = remove_to_back_spec [OF c(2) assms(2) pos]
  have ok: "leaf_ok w nr'"
    using remove_to_back_ok [OF sorted_ok [OF assms(1,2) c(1)] c(2) pos] assms(3) by (simp add: leaf_ok_def nr'_def)
  have sz: "leaf_size nr' = n - mid" using rb(1) ms(1) by (simp add: leaf_size_def nr'_def)
  have "leaf_view w nr' = drop mid E"
  proof (rule nth_equalityI)
    fix j assume "j < length (leaf_view w nr')"
    then have j: "j < n - mid" using ok sz by simp
    let ?j = "if j < p - mid then j else Suc j"
    have "kp_nth (permutation nr') j = of_nat ?j" using rb(2) [of j] ms(2) [of j] ms(2) [of "Suc j"] j c assms(6,7)
      by (auto simp: nr'_def)
    then have u: "unat (kp_nth (permutation nr') j) = ?j" using j assms(2,6) by (auto simp: unat_of_nat take_bit_nat_eq_self)
    have "entry_view (slots_of nr ! ?j) = insert_at p k E ! (mid + ?j)"
      using assms(9) [rule_format, of "mid + ?j"] j by auto
    also have "mid + ?j = (if mid + j < p then mid + j else Suc (mid + j))" using assms(4) by auto
    also have "insert_at p k E ! \<dots> = E ! (mid + j)" using insert_at_skip [of p E "mid + j" k] j assms(5,8) by auto
    finally show "leaf_view w nr' ! j = drop mid E ! j"
      using nth_leaf_view [OF ok] j sz u assms(4,5,8) by (simp add: nr'_def)
  qed (use ok sz assms in simp)
  moreover have "unat (kp_back w (permutation nr')) = p - mid"
    using rb(2) [of "w - 1"] ms(2) [of "p - mid"] c assms(1,2,4,5)
    by (auto simp: kp_back_def nr'_def unat_of_nat take_bit_nat_eq_self)
  moreover have "entry_view (slots_of nr' ! (p - mid)) = k"
    using assms(9) [rule_format, of p] assms(4,5,8) by (simp add: nr'_def nth_insert_at)
  ultimately show ?thesis using ok sz by simp
qed

section \<open>The left leaf\<close>

lemma set_size_spec:
  assumes "n < 16"
  shows "kp_size (set_size n x) = n" "kp_nth (set_size n x) j = kp_nth x j"
proof -
  have h: "\<not> bit (of_nat n :: u64) k" if "4 \<le> k" for k
  proof
    assume "bit (of_nat n :: u64) k"
    then have "bit n k" by (simp add: bit_of_nat_iff)
    then have "2 ^ k \<le> n" by (simp add: bit_iff_odd) (metis div_less even_zero not_le)
    moreover have "(2 :: nat) ^ 4 \<le> 2 ^ k" using that by (intro power_increasing) auto
    ultimately show False using assms by simp
  qed
  have "set_size n x AND 15 = of_nat n"
  proof (rule bit_word_eqI)
    fix k
    have f: "(15 :: u64) = mask 4" by (simp add: mask_eq_exp_minus_1)
    show "bit (set_size n x AND 15) k = bit (of_nat n :: u64) k"
      using h [of k] unfolding set_size_def f by (cases "k < 4") (auto simp: bit_simps)
  qed
  then show "kp_size (set_size n x) = n" using assms by (simp add: kp_size_def unat_of_nat take_bit_nat_eq_self)
  show "kp_nth (set_size n x) j = kp_nth x j"
  proof (rule kp_nth_eqI)
    fix i :: nat
    have f: "(15 :: u64) = mask 4" by (simp add: mask_eq_exp_minus_1)
    show "bit (set_size n x) (j * 4 + 4 + i) = bit x (j * 4 + 4 + i)"
      using h [of "j * 4 + 4 + i"] unfolding set_size_def f by (auto simp: bit_simps dest: bit_imp_le_length)
  qed
qed

lemma left_permutation:
  assumes "permuter_ok w x" "s \<le> kp_size x"
  defines "y \<equiv> (if kp_size x \<noteq> w then exchange (kp_size (set_size s x)) (w - 1) (set_size s x) else set_size s x)"
  shows "permuter_ok w y \<and> kp_size y = s \<and> (\<forall>j < s. kp_nth y j = kp_nth x j)"
proof -
  let ?y = "set_size s x"
  have w: "w \<le> 15" "kp_size x \<le> w" using assms(1) by (simp_all add: permuter_ok_def)
  have z: "kp_size ?y = s" "\<And>j. kp_nth ?y j = kp_nth x j" using set_size_spec [of s x] assms(2) w by auto
  then have sl: "slots w ?y = slots w x" by (simp add: slots_def)
  then have ok: "permuter_ok w ?y" using assms w z(1) by (simp add: permuter_ok_def)
  show ?thesis
  proof (cases "kp_size x = w")
    case True
    then show ?thesis using ok z by (simp add: y_def)
  next
    case False
    then have b: "s < w" "w - 1 < w" using assms(2) w(2) by auto
    have y: "y = exchange s (w - 1) ?y" using False z(1) by (simp add: y_def)
    note e = exchange_spec [OF b w(1), where x = ?y]
    have "mset (slots w y) = mset (slots w ?y)"
      unfolding y exchange_slots [OF b w(1)] by (rule mset_swap) (use b in simp_all)
    then have "permuter_ok w y" using ok e(1) z(1) by (simp add: permuter_ok_def y)
    moreover have "s \<le> w - 1" using b by simp
    ultimately show ?thesis using e z by (auto simp: y)
  qed
qed

lemma leaf_view_prefix:
  assumes "leaf_ok w n" "leaf_ok w n'" "leaf_size n' \<le> leaf_size n"
    "\<And>j. j < leaf_size n' \<Longrightarrow> kp_nth (permutation n') j = kp_nth (permutation n) j"
    "\<And>j. j < leaf_size n' \<Longrightarrow> slots_of n' ! unat (kp_nth (permutation n) j) = slots_of n ! unat (kp_nth (permutation n) j)"
  shows "leaf_view w n' = take (leaf_size n') (leaf_view w n)"
  using assms by (intro nth_equalityI) (auto simp: nth_leaf_view)

lemma leaf_finish_spec:
  fixes nl nr :: "'v leaf"
  assumes nl: "leaf_ok w nl" "nv_locked NP (l_ver nl)" "8 \<le> w"
    and sz: "s = leaf_size nl - leaf_size nr" "st = 0 \<Longrightarrow> s < w"
  shows "\<exists>nl' ki' kp. leaf_finish w m ka ki st nl nr = Inr (nl', ki', kp, st = 0) \<and> leaf_ok w nl' \<and> leaf_size nl' = s \<and>
    leaf_view w nl' = take s (leaf_view w nl) \<and> nv_splitting NP (l_ver nl') \<and>
    (if st = 0 then ki' = ki \<and> kp = unat (kp_back w (permutation nl')) \<and> entry_view (slots_of nl' ! kp) = key_view m ka
     else ki' = ki - s \<and> kp = ki - s)"
proof -
  let ?x = "permutation nl"
  define y where "y = (if kp_size ?x \<noteq> w then exchange (kp_size (set_size s ?x)) (w - 1) (set_size s ?x) else set_size s ?x)"
  have x: "permuter_ok w ?x" "s \<le> kp_size ?x" using nl(1) sz(1) by (simp_all add: leaf_ok_def leaf_size_def)
  have y: "permuter_ok w y" "kp_size y = s" "\<And>j. j < s \<Longrightarrow> kp_nth y j = kp_nth ?x j"
    using left_permutation [OF x] by (auto simp: y_def)
  let ?v = "l_ver nl OR splitting_bit NP"
  let ?n1 = "nl\<lparr>l_ver := ?v, permutation := y\<rparr>"
  let ?kp = "unat (kp_back w y)"
  let ?n2 = "?n1\<lparr>slots_of := (slots_of nl)[?kp := entry_assign m ka (slots_of nl ! ?kp)]\<rparr>"
  have l: "length (slots_of nl) = w" using nl(1) by (simp add: leaf_ok_def)
  have kp: "?kp < w" using slot_bound [OF y(1)] nl(3) by (simp add: kp_back_def)
  have sp: "nv_splitting NP ?v" by (simp add: np_queries np_fields bit_or_iff bit_flags del: bit_numeral_word_iff)
  have ok: "leaf_ok w ?n1" "leaf_ok w ?n2" using y(1) l by (simp_all add: leaf_ok_def)
  have v1: "leaf_view w ?n1 = take s (leaf_view w nl)"
    using leaf_view_prefix [OF nl(1) ok(1)] x(2) y(2,3) by (simp add: leaf_size_def)
  have "?kp \<noteq> unat (kp_nth y j)" if "st = 0" "j < s" for j
    using slot_distinct [OF y(1), of "w - 1" j] that sz(2) by (auto simp: kp_back_def)
  then have v2: "leaf_view w ?n2 = take s (leaf_view w nl)" if "st = 0"
    using leaf_view_prefix [OF nl(1) ok(2)] x(2) y(2,3) that by (simp add: leaf_size_def)
  have ss: "kp_size ?x - leaf_size nr = s" using sz(1) by (simp add: leaf_size_def)
  have f: "leaf_finish w m ka ki st nl nr =
      (if st = 0 then Inr (?n2, ki, ?kp, True) else Inr (?n1, ki - s, ki - s, False))"
    unfolding leaf_finish_def Let_def ss y_def [symmetric] y(2)
    using nl(2) kp l by (simp add: nv_mark_split_def leaf_assign_def at_def)
  show ?thesis using f ok v1 v2 sp y(2) kp l by (cases "st = 0") (auto simp: leaf_size_def)
qed

section \<open>Splitting while inserting\<close>

lemma leaf_split_spec:
  fixes nl nr :: "'v leaf"
  assumes w: "8 \<le> w" "w \<le> 15"
    and nl: "leaf_ok w nl" "nremoved nl = 0" "w - 1 \<le> leaf_size nl" "p \<le> leaf_size nl"
    and nr: "length (slots_of nr) = w" and lk: "nv_locked NP (l_ver nl)" "nv_locked NP (l_ver nr)"
    and d: "\<exists>i \<le> leaf_size nl. fst (I ! i) \<noteq> fst (I ! 0)" and I: "I = insert_at p (key_view m ka) (leaf_view w nl)"
  shows "\<exists>mid nr'. leaf_split w m nl_id nl nr_id nr p ka lks =
      Some (Inr (nr', link_split nl_id nr_id lks, fst (I ! mid), if p < mid then 0 else 1 + (if mid = leaf_size nl then 1 else 0))) \<and>
    0 < mid \<and> mid \<le> leaf_size nl \<and> fst (I ! mid) \<noteq> fst (I ! (mid - 1)) \<and> leaf_ok w nr' \<and> l_ver nr' = l_ver nr \<and>
    (if p < mid then leaf_size nr' = leaf_size nl + 1 - mid \<and> leaf_view w nr' = drop mid I
     else leaf_size nr' = leaf_size nl - mid \<and> leaf_view w nr' = drop mid (leaf_view w nl) \<and>
       unat (kp_back w (permutation nr')) = p - mid \<and> entry_view (slots_of nr' ! (p - mid)) = key_view m ka)"
proof -
  let ?n = "leaf_size nl" and ?ik = "leaf_ikey nl (ikey0 ka) p"
  have ik: "?ik i = fst (I ! i)" if "i \<le> ?n" for i using leaf_ikey_view [OF nl(1,4) that] I by simp
  have n: "?n \<le> w" using nl(1) by (simp add: leaf_ok_def leaf_size_def permuter_ok_def)
  have lI: "length I = Suc ?n" using I nl(1,4) by simp
  have "\<exists>i \<le> ?n. ?ik i \<noteq> ?ik 0" using d ik by auto
  from leaf_mid_spec [OF w(1) nl(3,4) this, of "l_prev lks nl_id \<noteq> None" "l_next lks nl_id \<noteq> None"] obtain mid where
    mid: "leaf_mid w ?n p (l_prev lks nl_id \<noteq> None) (l_next lks nl_id \<noteq> None) ?ik = Some mid"
      "0 < mid" "mid \<le> ?n" "?ik mid \<noteq> ?ik (mid - 1)" by blast
  have cut: "fst (I ! mid) \<noteq> fst (I ! (mid - 1))" using mid ik by simp
  have mm: "mid \<le> ?n + 1" using mid(3) by simp
  obtain nr1 where r: "fill_right m ka nl p mid [mid ..< ?n + 1] (value_from (permutation nl) (mid - (if p < mid then 1 else 0))) nr = Inr nr1"
    "length (slots_of nr1) = w" "l_ver nr1 = l_ver nr"
    "\<forall>x. mid \<le> x \<and> x \<le> ?n \<longrightarrow> entry_view (slots_of nr1 ! (x - mid)) = I ! x"
    using fill_right_spec [OF nl(1) nr nl(4) order.refl mm mid(2), of m ka] I by auto
  have "entry_view (slots_of nr1 ! 0) = I ! mid" using r(4) [rule_format, of mid] mid(3) by simp
  then have k: "e_ikey (slots_of nr1 ! 0) = fst (I ! mid)" by (metis fst_entry_view(1))
  let ?q = "if p \<ge> mid then remove_to_back w (p - mid) (make_sorted w (?n + 1 - mid)) else make_sorted w (?n + 1 - mid)"
  let ?nr = "nr1\<lparr>permutation := ?q\<rparr>"
  have ne: "slots_of nr1 \<noteq> []" using r(2) w(1) by auto
  have s: "leaf_split w m nl_id nl nr_id nr p ka lks =
      Some (Inr (?nr, link_split nl_id nr_id lks, fst (I ! mid), if p < mid then 0 else 1 + (if mid = ?n then 1 else 0)))"
    unfolding leaf_split_def using lk nl(2,3) mid(1) r(1) ne k by (simp add: at_def Let_def)
  show ?thesis
  proof (cases "p < mid")
    case True
    then show ?thesis using s mid(2,3) cut r(3) right_leaf_full [OF w r(2) mid(3) n mid(2) lI r(4)]
      by (intro exI [of _ mid] exI [of _ ?nr]) simp
  next
    case False
    then have "mid \<le> p" by simp
    from right_leaf_pending [OF w r(2) this nl(4) n mid(2) _ r(4) [unfolded I]] nl(1) False
    show ?thesis using s mid(2,3) cut r(3) by (intro exI [of _ mid] exI [of _ ?nr]) simp
  qed
qed

text \<open>
  C36. Splitting a leaf that is full while inserting a key ends and is list insertion followed by a cut
  between two keys with different slices; the slice of the first key behind the cut goes up. Until the
  new key is inserted the two leaves together show exactly the old keys, and \<open>finish_insert\<close> in the leaf
  that has the new key makes them show the list with it.
\<close>

theorem leaf_split_inserts:
  fixes nl nr :: "'v leaf"
  assumes w: "8 \<le> w" "w \<le> 15"
    and nl: "leaf_ok w nl" "nremoved nl = 0" "w - 1 \<le> leaf_size nl" "p \<le> leaf_size nl"
    and nr: "length (slots_of nr) = w" and lk: "nv_locked NP (l_ver nl)" "nv_locked NP (l_ver nr)"
    and d: "\<exists>i \<le> leaf_size nl. fst (I ! i) \<noteq> fst (I ! 0)" and I: "I = insert_at p (key_view m ka) (leaf_view w nl)"
  shows "\<exists>mid nr' st nl' ki kp.
    leaf_split w m nl_id nl nr_id nr p ka lks = Some (Inr (nr', link_split nl_id nr_id lks, fst (I ! mid), st)) \<and>
    0 < mid \<and> mid \<le> leaf_size nl \<and> fst (I ! mid) \<noteq> fst (I ! (mid - 1)) \<and>
    leaf_finish w m ka p st nl nr' = Inr (nl', ki, kp, st = 0) \<and>
    leaf_view w nl' @ leaf_view w nr' = leaf_view w nl \<and>
    (if st = 0
     then \<exists>nl''. finish_insert w ki kp nl' = Inr nl'' \<and> leaf_ok w nl'' \<and> leaf_view w nl'' = take mid I \<and> leaf_view w nr' = drop mid I
     else \<exists>nr''. finish_insert w ki kp nr' = Inr nr'' \<and> leaf_ok w nr'' \<and> leaf_view w nl' = take mid I \<and> leaf_view w nr'' = drop mid I)"
proof -
  let ?n = "leaf_size nl" and ?E = "leaf_view w nl"
  have n: "?n \<le> w" and lE: "length ?E = ?n" using nl(1) by (simp_all add: leaf_ok_def leaf_size_def permuter_ok_def)
  obtain mid nr' where s: "leaf_split w m nl_id nl nr_id nr p ka lks =
      Some (Inr (nr', link_split nl_id nr_id lks, fst (I ! mid), if p < mid then 0 else 1 + (if mid = ?n then 1 else 0)))"
    "0 < mid" "mid \<le> ?n" "fst (I ! mid) \<noteq> fst (I ! (mid - 1))" "leaf_ok w nr'"
    and v: "if p < mid then leaf_size nr' = ?n + 1 - mid \<and> leaf_view w nr' = drop mid I
     else leaf_size nr' = ?n - mid \<and> leaf_view w nr' = drop mid ?E \<and>
       unat (kp_back w (permutation nr')) = p - mid \<and> entry_view (slots_of nr' ! (p - mid)) = key_view m ka"
    using leaf_split_spec [OF w nl nr lk d I] by blast
  show ?thesis
  proof (cases "p < mid")
    case True
    have z: "mid - 1 = ?n - leaf_size nr'" "mid - 1 < w" and pm: "p \<le> mid - 1" using True v s(2,3) n by auto
    obtain nl' ki kp where f: "leaf_finish w m ka p 0 nl nr' = Inr (nl', ki, kp, True)" "leaf_ok w nl'" "leaf_size nl' = mid - 1"
      "leaf_view w nl' = take (mid - 1) ?E" "ki = p" "kp = unat (kp_back w (permutation nl'))"
      "entry_view (slots_of nl' ! kp) = key_view m ka"
      using leaf_finish_spec [OF nl(1) lk(1) w(1) z(1), of 0 m ka p] z(2) by auto
    obtain nl'' where g: "finish_insert w ki kp nl' = Inr nl''" "leaf_ok w nl''"
      "leaf_view w nl'' = insert_at p (key_view m ka) (take (mid - 1) ?E)"
      using finish_insert_spec [OF f(2) _ _ f(6), of ki] f(3,4,5,7) z(2) pm by auto
    have "insert_at p (key_view m ka) (take (mid - 1) ?E) = take mid I"
      using insert_at_take [of p "mid - 1" ?E "key_view m ka"] True s(2,3) lE I by simp
    moreover have "take (mid - 1) ?E @ drop mid I = ?E"
    proof -
      have "drop mid I = drop (mid - 1) ?E" using True s(2) nl(4) lE
        unfolding I insert_at_def by (cases mid) (simp_all add: drop_Cons')
      then show ?thesis by simp
    qed
    ultimately show ?thesis using s True v f g
      by - (rule exI [of _ mid], rule exI [of _ nr'], rule exI [of _ 0], rule exI [of _ nl'],
          rule exI [of _ ki], rule exI [of _ kp], simp)
  next
    case False
    let ?st = "1 + (if mid = ?n then 1 else 0) :: nat"
    have z: "mid = ?n - leaf_size nr'" using False v s(3) by auto
    obtain nl' where f: "leaf_finish w m ka p ?st nl nr' = Inr (nl', p - mid, p - mid, False)" "leaf_view w nl' = take mid ?E"
      using leaf_finish_spec [OF nl(1) lk(1) w(1) z, of ?st m ka p] by auto
    have b: "leaf_size nr' < w" "p - mid \<le> leaf_size nr'" "p - mid = unat (kp_back w (permutation nr'))"
      using False v n s(2,3) nl(4) w by auto
    obtain nr'' where g: "finish_insert w (p - mid) (p - mid) nr' = Inr nr''" "leaf_ok w nr''"
      "leaf_view w nr'' = insert_at (p - mid) (key_view m ka) (drop mid ?E)"
      using finish_insert_spec [OF s(5) b] False v by auto
    have "insert_at (p - mid) (key_view m ka) (drop mid ?E) = drop mid I" "take mid ?E = take mid I"
      using False nl(4) s(3) lE unfolding I insert_at_def by (auto simp: drop_take min_def)
    moreover have "leaf_view w nl' @ leaf_view w nr' = ?E" using f(2) v False by simp
    ultimately show ?thesis using s False f g
      by - (rule exI [of _ mid], rule exI [of _ nr'], rule exI [of _ ?st], rule exI [of _ nl'],
          rule exI [of _ "p - mid"], rule exI [of _ "p - mid"], simp)
  qed
qed

definition ex_leaf :: "nat leaf" where [example_defs]:
  "ex_leaf = \<lparr>l_ver = 1, nremoved = 0, permutation = make_sorted 8 8,
     slots_of = map (\<lambda>i. \<lparr>e_ikey = of_nat i, e_keylenx = 1, e_lv = Some i, e_ksuf = []\<rparr>) [0 ..< 8]\<rparr>"

definition ex_key :: mkey where [example_defs]:
  "ex_key = \<lparr>ikey0 = 9, klen = 1, ks = 0, kfirst = 0\<rparr>"

theorem leaf_split_inserts_witness:
  "\<exists>mid nr' st nl' ki kp.
     leaf_split 8 (\<lambda>_. 0) 1 ex_leaf 2 ex_leaf 8 ex_key \<lparr>l_next = Map.empty, l_prev = Map.empty\<rparr> =
       Some (Inr (nr', link_split 1 2 \<lparr>l_next = Map.empty, l_prev = Map.empty\<rparr>,
         fst (insert_at 8 (key_view (\<lambda>_. 0) ex_key) (leaf_view 8 ex_leaf) ! mid), st)) \<and> 0 < mid \<and> mid \<le> 8 \<and>
     leaf_finish 8 (\<lambda>_. 0) ex_key 8 st ex_leaf nr' = Inr (nl', ki, kp, st = 0) \<and>
     leaf_view 8 nl' @ leaf_view 8 nr' = leaf_view 8 ex_leaf"
proof -
  let ?I = "insert_at 8 (key_view (\<lambda>_. 0) ex_key) (leaf_view 8 ex_leaf)"
  have s: "kp_size (make_sorted 8 8) = 8" "kp_nth (make_sorted 8 8) 0 = 0" using make_sorted_nth(1) [of 8 8] make_sorted_nth(2) [of 8 8 0] by simp_all
  have ok: "leaf_ok 8 ex_leaf" using sorted_ok [of 8 8] by (simp add: leaf_ok_def ex_leaf_def)
  have sz: "leaf_size ex_leaf = 8" using s by (simp add: leaf_size_def ex_leaf_def)
  have "fst (?I ! 8) = 9" "fst (?I ! 0) = 0"
    using ok sz s by (simp_all add: nth_insert_at nth_leaf_view ex_key_def ex_leaf_def)
  then have d: "\<exists>i \<le> leaf_size ex_leaf. fst (?I ! i) \<noteq> fst (?I ! 0)" using sz by auto
  have l: "nv_locked NP (l_ver ex_leaf)" by (simp add: nv_locked_def np_fields ex_leaf_def)
  have h: "nremoved ex_leaf = 0" "8 - 1 \<le> leaf_size ex_leaf" "8 \<le> leaf_size ex_leaf" "length (slots_of ex_leaf) = 8"
    using sz by (simp_all add: ex_leaf_def)
  have b: "(8 :: nat) \<le> 8" "(8 :: nat) \<le> 15" by simp_all
  from leaf_split_inserts [OF b ok h l l d refl, of 1 2 "\<lparr>l_next = Map.empty, l_prev = Map.empty\<rparr>"] sz
  show ?thesis by auto
qed

text \<open>
  The keys of a leaf that share a slice differ in their length class, of which there are ten, so a leaf
  with more keys has two different slices and the search for a cut ends.
\<close>

lemma slices_differ:
  fixes I :: "'v view list"
  assumes "length I = Suc n" "10 \<le> n" "distinct (map (\<lambda>v. (fst v, min (fst (snd v)) 9)) I)" "\<forall>v \<in> set I. 0 \<le> fst (snd v)"
  shows "\<exists>i \<le> n. fst (I ! i) \<noteq> fst (I ! 0)"
proof (rule ccontr)
  let ?f = "\<lambda>v. (fst v, min (fst (snd v)) 9) :: u64 \<times> int"
  assume "\<not> ?thesis"
  then have e: "\<forall>i. i \<le> n \<longrightarrow> fst (I ! i) = fst (I ! 0)" by (simp only: not_ex de_Morgan_conj not_not imp_conv_disj simp_thms)
  have "\<forall>v \<in> set I. fst v = fst (I ! 0)"
  proof
    fix v assume "v \<in> set I"
    then obtain i where i: "i < length I" "v = I ! i" by (auto simp only: in_set_conv_nth)
    then have "i \<le> n" using assms(1) by linarith
    then show "fst v = fst (I ! 0)" unfolding i(2) by (rule e [rule_format])
  qed
  then have "set (map ?f I) \<subseteq> {fst (I ! 0)} \<times> {0 .. 9}" using assms(4) by auto
  then have "card (set (map ?f I)) \<le> card ({fst (I ! 0)} \<times> {0 .. 9 :: int})" by (intro card_mono) auto
  moreover have "card (set (map ?f I)) = Suc n" using distinct_card [OF assms(3)] assms(1) by simp
  ultimately show False using assms(2) by (simp add: card_cartesian_product)
qed

end
