(* ===== verification/Silo_Varint.thy ===== *)
theory Silo_Varint
  imports Prelude
begin

unbundle bit_operations_syntax

text \<open>
  The variable-length integers of silo, \<^verbatim>\<open>src/silo/varint.h\<close>: seven bits a byte, low bits first, the top
  bit of a byte saying that another follows. The code has a reader with and without a bound, a fast
  path for one byte, two functions that skip an encoding, a writer and a size function; the theory
  shows that they agree.
\<close>

section \<open>Definitions\<close>

text \<open>
  The five unrolled steps of the readers, numbered by \<open>k\<close>: the first four contribute seven bits each,
  the fifth is shifted as it is. Reading past the buffer is undefined.
\<close>

definition uvint_part :: "nat \<Rightarrow> u8 \<Rightarrow> u32" where
  "uvint_part k b = (if k < 4 then push_bit (7 * k) (ucast b AND 0x7F) else push_bit 28 (ucast b))"

fun read_uvint32_steps :: "nat \<Rightarrow> byte list \<Rightarrow> u32 \<Rightarrow> (u32 \<times> byte list) res" where
  "read_uvint32_steps k [] result = Inl (Undefined ''*buf'')"
| "read_uvint32_steps k (b # p) result =
     (let result' = result OR uvint_part k b
      in if b < 0x80 then Inr (result', p)
         else if k = 4 then Inl (Abort ''improper encoding'')
         else read_uvint32_steps (k + 1) p result')"

definition read_uvint32_slow :: "byte list \<Rightarrow> (u32 \<times> byte list) res" where
  "read_uvint32_slow buf = read_uvint32_steps 0 buf 0"

definition read_uvint32 :: "byte list \<Rightarrow> (u32 \<times> byte list) res" where
  "read_uvint32 buf =
     (case buf of [] \<Rightarrow> Inl (Undefined ''*buf'')
      | b # p \<Rightarrow> if b < 0x80 then Inr (ucast b, p) else read_uvint32_slow buf)"

text \<open>With a bound: \<open>None\<close> is the null pointer. A fifth byte with its top bit set is accepted here.\<close>

fun failsafe_steps :: "nat \<Rightarrow> nat \<Rightarrow> byte list \<Rightarrow> u32 \<Rightarrow> (u32 \<times> byte list) option res" where
  "failsafe_steps k nbytes buf result =
     (if nbytes = 0 then Inr None
      else case buf of [] \<Rightarrow> Inl (Undefined ''*buf'')
        | b # p \<Rightarrow>
            (let result' = result OR uvint_part k b
             in if b < 0x80 \<or> 4 \<le> k then Inr (Some (result', p))
                else failsafe_steps (k + 1) (nbytes - 1) p result'))"

declare failsafe_steps.simps [simp del]

definition failsafe_read_uvint32_slow :: "byte list \<Rightarrow> nat \<Rightarrow> (u32 \<times> byte list) option res" where
  "failsafe_read_uvint32_slow buf nbytes = failsafe_steps 0 nbytes buf 0"

definition failsafe_read_uvint32 :: "byte list \<Rightarrow> nat \<Rightarrow> (u32 \<times> byte list) option res" where
  "failsafe_read_uvint32 stream nbytes =
     (if nbytes = 0 then Inr None
      else case stream of [] \<Rightarrow> Inl (Undefined ''*buf'')
        | ch # p \<Rightarrow> if ch < 0x80 then Inr (Some (ucast ch, p)) else failsafe_read_uvint32_slow stream nbytes)"

text \<open>The number of bytes of an encoding, and what is copied to \<open>rawv\<close> when it is not null.\<close>

fun skip_steps :: "nat \<Rightarrow> byte list \<Rightarrow> (nat \<times> byte list) res" where
  "skip_steps k [] = Inl (Undefined ''*buf'')"
| "skip_steps k (b # bs) =
     (if b < 0x80 then Inr (k + 1, [b])
      else if k = 4 then Inl (Abort ''false'')
      else bind_res (skip_steps (k + 1) bs) (\<lambda>(n, raw). Inr (n, b # raw)))"

definition skip_uvint32 :: "byte list \<Rightarrow> bool \<Rightarrow> (nat \<times> byte list) res" where
  "skip_uvint32 stream rawv =
     bind_res (skip_steps 0 stream) (\<lambda>(n, raw). Inr (n, if rawv then raw else []))"

fun failsafe_skip_steps :: "nat \<Rightarrow> nat \<Rightarrow> byte list \<Rightarrow> (nat \<times> byte list) res" where
  "failsafe_skip_steps k nbytes stream =
     (if nbytes = 0 then Inr (0, [])
      else case stream of [] \<Rightarrow> Inl (Undefined ''*buf'')
        | b # bs \<Rightarrow>
            (if b < 0x80 then Inr (k + 1, [b])
             else if 4 \<le> k then Inl (Abort ''false'')
             else bind_res (failsafe_skip_steps (k + 1) (nbytes - 1) bs) (\<lambda>(n, raw). Inr (n, b # raw))))"

declare failsafe_skip_steps.simps [simp del]

definition failsafe_skip_uvint32 :: "byte list \<Rightarrow> nat \<Rightarrow> bool \<Rightarrow> (nat \<times> byte list) res" where
  "failsafe_skip_uvint32 stream nbytes rawv =
     bind_res (failsafe_skip_steps 0 nbytes stream) (\<lambda>(n, raw). Inr (n, if rawv then raw else []))"

lemma unat_drop7: "unat (drop_bit 7 v) = unat v div 128" for v :: u32
proof -
  have "take_bit 32 (unat v) = unat v" using unsigned_less [of v] by (intro take_bit_nat_eq_self) simp
  then show ?thesis by (simp add: unsigned_drop_bit_eq drop_bit_nat_def)
qed

function write_uvint32 :: "u32 \<Rightarrow> byte list" where
  "write_uvint32 value =
     (if value > 0x7F then ((ucast value AND 0x7F) OR 0x80) # write_uvint32 (drop_bit 7 value)
      else [ucast value AND 0x7F])"
  by pat_completeness auto

termination
proof (relation "measure unat")
  fix v :: u32
  assume "v > 0x7F"
  then have "127 < unat v" by (simp add: word_less_nat_alt)
  then show "(drop_bit 7 v, v) \<in> measure unat" by (simp add: unat_drop7)
qed simp

declare write_uvint32.simps [simp del]

definition size_uvint32 :: "u32 \<Rightarrow> nat" where
  "size_uvint32 value =
     (if value \<le> 0x7F then 1
      else if value \<le> (push_bit 7 0x7F OR 0x7F) then 2
      else if value \<le> (push_bit 14 0x7F OR push_bit 7 0x7F OR 0x7F) then 3
      else if value \<le> (push_bit 21 0x7F OR push_bit 14 0x7F OR push_bit 7 0x7F OR 0x7F) then 4
      else 5)"

section \<open>Round trip\<close>

lemma and_7F: "(v :: 'a::len word) AND 0x7F = take_bit 7 v"
  by (simp add: take_bit_eq_mask mask_eq_exp_minus_1)

lemma low_byte: "ucast (ucast v AND 0x7F :: u8) = take_bit 7 (v :: u32)"
  unfolding and_7F by (rule bit_word_eqI) (auto simp: bit_simps)

lemma small_byte: "v \<le> 0x7F \<Longrightarrow> take_bit 7 v = (v :: u32)"
proof -
  assume "v \<le> 0x7F"
  then have "unat v < 2 ^ 7" by (simp add: word_le_nat_alt)
  then have "unat (take_bit 7 v) = unat v" unfolding unsigned_take_bit_eq by (rule take_bit_nat_eq_self)
  then show ?thesis by (simp only: word_unat_eq_iff)
qed

lemma byte_lt_80: "(b :: u8) < 0x80 \<longleftrightarrow> \<not> bit b 7"
proof -
  have "n < 256 \<Longrightarrow> odd (n div 128) \<longleftrightarrow> \<not> n < 128" for n :: nat
    by (cases "n < 128") (simp_all add: le_div_geq)
  moreover have "unat b < 256" using unsigned_less [of b] by simp
  ultimately have "odd (unat b div 128) \<longleftrightarrow> \<not> unat b < 128" by blast
  moreover have "bit b 7 \<longleftrightarrow> odd (unat b div 128)"
    using bit_iff_odd [of "unat b" 7] by (simp add: bit_unsigned_iff)
  ultimately show ?thesis by (simp add: word_less_nat_alt)
qed

lemma read_write_steps:
  assumes "unat v < 2 ^ (32 - 7 * k)" "k \<le> 4"
  shows "read_uvint32_steps k (write_uvint32 v @ rest) r = Inr (r OR push_bit (7 * k) v, rest)"
  using assms
proof (induction v arbitrary: k r rule: write_uvint32.induct)
  case (1 v)
  show ?case
  proof (cases "v > 0x7F")
    case False
    then have v: "take_bit 7 v = v" by (intro small_byte) simp
    let ?b = "ucast v AND 0x7F :: u8"
    have "?b < 0x80" unfolding byte_lt_80 and_7F by (simp add: bit_take_bit_iff)
    moreover have "uvint_part k ?b = push_bit (7 * k) v"
    proof (cases "k < 4")
      case True
      have "ucast ?b = v" using low_byte [of v] v by simp
      then have "ucast ?b AND 0x7F = v" using v by (simp only: and_7F)
      with True show ?thesis by (simp add: uvint_part_def)
    next
      case k: False
      then have "7 * k = 28" using "1.prems"(2) by simp
      with k show ?thesis unfolding uvint_part_def low_byte v by simp
    qed
    ultimately show ?thesis using False by (simp add: write_uvint32.simps [of v])
  next
    case True
    let ?b = "(ucast v AND 0x7F) OR 0x80 :: u8"
    have k: "k < 4"
    proof (rule ccontr)
      assume "\<not> k < 4"
      then have "unat v < 2 ^ 4" using "1.prems" by simp
      then show False using True by (simp add: word_less_nat_alt)
    qed
    have e: "32 - 7 * k = 7 + (32 - 7 * (k + 1))" using k by simp
    have "unat (drop_bit 7 v) < 2 ^ (32 - 7 * (k + 1))"
      unfolding unat_drop7 using "1.prems"(1) unfolding e power_add by (simp add: less_mult_imp_div_less mult.commute)
    note IH = "1.IH" [OF True this]
    have "\<not> ?b < 0x80" unfolding byte_lt_80 using bit_exp_iff [of 7 7, where 'a = u8] by (simp add: bit_or_iff)
    moreover have "uvint_part k ?b = push_bit (7 * k) (take_bit 7 v)"
    proof -
      have b80: "bit (0x80 :: u8) n \<longleftrightarrow> n = 7" for n
        using bit_exp_iff [of 7 n, where 'a = u8] by (auto simp del: bit_numeral_word_iff)
      have "ucast ?b AND 0x7F = take_bit 7 (v :: u32)"
        unfolding and_7F
        by (intro bit_word_eqI) (auto simp: bit_simps b80 simp del: bit_numeral_word_iff)
      then show ?thesis using k by (simp add: uvint_part_def)
    qed
    moreover have "push_bit (7 * k) (take_bit 7 v) OR push_bit (7 * (k + 1)) (drop_bit 7 v) = push_bit (7 * k) v"
    proof (rule bit_word_eqI)
      fix n :: nat
      assume "n < LENGTH(32)"
      then show "bit (push_bit (7 * k) (take_bit 7 v) OR push_bit (7 * (k + 1)) (drop_bit 7 v)) n = bit (push_bit (7 * k) v) n"
        by (cases "n < 7 * k + 7") (auto simp: bit_simps)
    qed
    ultimately show ?thesis using True k IH [of "r OR push_bit (7 * k) (take_bit 7 v)"]
      by (simp add: write_uvint32.simps [of v] or.assoc Let_def)
  qed
qed

lemma read_fast_slow: "read_uvint32 buf = read_uvint32_slow buf"
proof (cases buf)
  case (Cons b p)
  have "b < 0x80 \<Longrightarrow> ucast b AND 0x7F = (ucast b :: u32)"
  proof (rule bit_word_eqI)
    fix n :: nat
    assume b: "b < 0x80" and "n < LENGTH(32)"
    have "bit b n \<Longrightarrow> n < 7" using b bit_imp_le_length [of b n] by (cases "n = 7") (auto simp: byte_lt_80)
    then show "bit (ucast b AND 0x7F :: u32) n = bit (ucast b :: u32) n" unfolding and_7F
      by (auto simp: bit_simps)
  qed
  then show ?thesis by (simp add: Cons read_uvint32_def read_uvint32_slow_def uvint_part_def)
qed (simp add: read_uvint32_def read_uvint32_slow_def)

section \<open>The readers agree\<close>

lemma failsafe_of_read:
  assumes "read_uvint32_steps k buf r = Inr (v, rest)" "k \<le> 4"
  shows "\<exists>n. buf = take n buf @ rest \<and> 0 < n \<and> n \<le> 5 - k \<and> n \<le> length buf \<and>
    (\<forall>m. failsafe_steps k m buf r = (if m < n then Inr None else Inr (Some (v, rest)))) \<and>
    skip_steps k buf = Inr (k + n, take n buf) \<and>
    (\<forall>m. failsafe_skip_steps k m buf = (if m < n then Inr (0, take m buf) else Inr (k + n, take n buf)))"
  using assms
proof (induction k buf r rule: read_uvint32_steps.induct)
  case (2 k b p r)
  show ?case
  proof (cases "b < 0x80")
    case True
    then show ?thesis using "2.prems"
      by (intro exI [of _ 1]) (auto simp: failsafe_steps.simps failsafe_skip_steps.simps)
  next
    case False
    then have k: "k < 4" and r: "read_uvint32_steps (k + 1) p (r OR uvint_part k b) = Inr (v, rest)"
      using "2.prems" by (auto simp: Let_def split: if_splits)
    then obtain n where n: "p = take n p @ rest" "0 < n" "n \<le> 5 - (k + 1)" "n \<le> length p"
      "\<forall>m. failsafe_steps (k + 1) m p (r OR uvint_part k b) = (if m < n then Inr None else Inr (Some (v, rest)))"
      "skip_steps (k + 1) p = Inr (k + 1 + n, take n p)"
      "\<forall>m. failsafe_skip_steps (k + 1) m p = (if m < n then Inr (0, take m p) else Inr (k + 1 + n, take n p))"
      using "2.IH" [OF refl False] by auto
    have "failsafe_steps k m (b # p) r = (if m < Suc n then Inr None else Inr (Some (v, rest)))"
      "failsafe_skip_steps k m (b # p) = (if m < Suc n then Inr (0, take m (b # p)) else Inr (k + Suc n, take (Suc n) (b # p)))" for m
      using n(5,7) False k
      by (cases m; simp add: failsafe_steps.simps [of k] failsafe_skip_steps.simps [of k] Let_def)+
    then show ?thesis using n False k by (intro exI [of _ "Suc n"]) auto
  qed
qed simp

lemma failsafe_fast_slow: "failsafe_read_uvint32 buf m = failsafe_read_uvint32_slow buf m"
proof (cases buf)
  case (Cons b p)
  then show ?thesis using read_fast_slow [of buf]
    by (auto simp: failsafe_read_uvint32_def failsafe_read_uvint32_slow_def failsafe_steps.simps [of 0]
        read_uvint32_def read_uvint32_slow_def)
qed (simp add: failsafe_read_uvint32_def failsafe_read_uvint32_slow_def failsafe_steps.simps)

section \<open>Sizes\<close>

lemma write_length_le: "unat v < 2 ^ (7 * n) \<Longrightarrow> 0 < n \<Longrightarrow> length (write_uvint32 v) \<le> n"
proof (induction n arbitrary: v)
  case (Suc n)
  show ?case
  proof (cases "v > 0x7F")
    case True
    then have n: "0 < n" using Suc.prems(1) by (cases n) (auto simp: word_less_nat_alt)
    have "unat (drop_bit 7 v) < 2 ^ (7 * n)"
      using Suc.prems(1) by (simp add: unat_drop7 power_add less_mult_imp_div_less mult.commute)
    then show ?thesis using Suc.IH n True by (simp add: write_uvint32.simps [of v])
  qed (simp add: write_uvint32.simps [of v])
qed simp

lemma write_length_gt: "2 ^ (7 * n) \<le> unat v \<Longrightarrow> n < length (write_uvint32 v)"
proof (induction n arbitrary: v)
  case 0
  show ?case by (simp add: write_uvint32.simps [of v])
next
  case (Suc n)
  have "(1 :: nat) \<le> 2 ^ (7 * n)" by simp
  then have "128 * 1 \<le> 128 * (2 :: nat) ^ (7 * n)" by (intro mult_le_mono2)
  moreover have "128 * 2 ^ (7 * n) \<le> unat v" using Suc.prems by (simp add: power_add)
  ultimately have "128 \<le> unat v" by linarith
  then have True: "v > 0x7F" by (simp add: word_less_nat_alt)
  have "2 ^ (7 * n) \<le> unat (drop_bit 7 v)"
    using Suc.prems by (simp add: unat_drop7 power_add less_eq_div_iff_mult_less_eq mult.commute)
  then show ?case using Suc.IH True by (simp add: write_uvint32.simps [of v])
qed

lemma size_uvint32_cases:
  "size_uvint32 v = (if unat v < 2 ^ 7 then 1 else if unat v < 2 ^ 14 then 2 else if unat v < 2 ^ 21 then 3
     else if unat v < 2 ^ 28 then 4 else 5)"
  by (auto simp: size_uvint32_def word_le_nat_alt not_less less_Suc_eq_le)

lemma write_length: "length (write_uvint32 v) = size_uvint32 v"
proof -
  have "unat v < 2 ^ (7 * 5)" using unsigned_less [of v, where 'a = nat] by simp
  moreover have "0 < length (write_uvint32 v)" by (simp add: write_uvint32.simps [of v])
  ultimately show ?thesis
    using write_length_le [of v 1] write_length_le [of v 2] write_length_le [of v 3] write_length_le [of v 4]
      write_length_le [of v 5] write_length_gt [of 1 v] write_length_gt [of 2 v]
      write_length_gt [of 3 v] write_length_gt [of 4 v]
    by (auto simp: size_uvint32_cases) (simp add: le_Suc_eq)
qed

section \<open>Properties\<close>

text \<open>
  C20. Reading what was written gives the value back and leaves the rest of the buffer, through the fast
  and the slow path; the encoding has the length \<open>size_uvint32\<close> says, at most five bytes, and
  \<open>skip_uvint32\<close> steps over exactly it.
\<close>

theorem varint_roundtrip:
  "read_uvint32 (write_uvint32 v @ rest) = Inr (v, rest) \<and>
   read_uvint32_slow (write_uvint32 v @ rest) = Inr (v, rest) \<and>
   length (write_uvint32 v) = size_uvint32 v \<and> size_uvint32 v \<le> 5 \<and>
   skip_uvint32 (write_uvint32 v @ rest) True = Inr (size_uvint32 v, write_uvint32 v)"
proof -
  have r: "read_uvint32_steps 0 (write_uvint32 v @ rest) 0 = Inr (v, rest)"
    using read_write_steps [of v 0 rest 0] unsigned_less [of v] by simp
  obtain n where n: "write_uvint32 v @ rest = take n (write_uvint32 v @ rest) @ rest"
    "n \<le> length (write_uvint32 v @ rest)" "skip_steps 0 (write_uvint32 v @ rest) = Inr (n, take n (write_uvint32 v @ rest))"
    using failsafe_of_read [OF r] by auto
  have w: "take n (write_uvint32 v @ rest) = write_uvint32 v" using n(1) by (simp only: append_same_eq)
  have "length (take n (write_uvint32 v @ rest)) = n" using n(2) by simp
  then have l: "length (write_uvint32 v) = n" by (simp only: w)
  have "skip_uvint32 (write_uvint32 v @ rest) True = Inr (size_uvint32 v, write_uvint32 v)"
    using n(3) unfolding w skip_uvint32_def by (simp add: l [symmetric] write_length)
  moreover have "size_uvint32 v \<le> 5" by (simp add: size_uvint32_cases)
  ultimately show ?thesis using r by (simp add: read_fast_slow read_uvint32_slow_def write_length)
qed

text \<open>
  The bounded reader and the two skip functions are equivalent to the unbounded reader: on a
  buffer the unbounded reader accepts, a bound that covers the encoding gives the same value and
  position, a smaller one gives the null pointer (or zero), and skipping counts the bytes read.
\<close>

lemma varint_readers_equivalent:
  assumes "read_uvint32 buf = Inr (v, rest)"
  shows "\<exists>n. buf = take n buf @ rest \<and> 0 < n \<and> n \<le> 5 \<and>
    (\<forall>m. failsafe_read_uvint32 buf m = Inr (if m < n then None else Some (v, rest))) \<and>
    skip_uvint32 buf False = Inr (n, []) \<and> skip_uvint32 buf True = Inr (n, take n buf) \<and>
    (\<forall>m. failsafe_skip_uvint32 buf m False = Inr (if m < n then 0 else n, []))"
proof -
  have "read_uvint32_steps 0 buf 0 = Inr (v, rest)"
    using assms by (simp add: read_fast_slow read_uvint32_slow_def)
  from failsafe_of_read [OF this] obtain n where n: "buf = take n buf @ rest" "0 < n" "n \<le> 5"
    "\<forall>m. failsafe_steps 0 m buf 0 = (if m < n then Inr None else Inr (Some (v, rest)))"
    "skip_steps 0 buf = Inr (n, take n buf)"
    "\<forall>m. failsafe_skip_steps 0 m buf = (if m < n then Inr (0, take m buf) else Inr (n, take n buf))"
    by auto
  then show ?thesis
    by (intro exI [of _ n])
      (simp add: failsafe_fast_slow failsafe_read_uvint32_slow_def skip_uvint32_def failsafe_skip_uvint32_def)
qed

lemma varint_readers_equivalent_witness:
  "read_uvint32 [0xAC, 0x02, 9] = Inr (300, [9]) \<and> failsafe_read_uvint32 [0xAC, 0x02, 9] 1 = Inr None \<and>
   failsafe_read_uvint32 [0xAC, 0x02, 9] 2 = Inr (Some (300, [9]))"
proof -
  have r: "read_uvint32 [0xAC, 0x02, 9] = Inr (300, [9])" by code_simp
  obtain n where n: "[0xAC, 0x02, 9 :: byte] = take n [0xAC, 0x02, 9] @ [9]"
    "\<forall>m. failsafe_read_uvint32 [0xAC, 0x02, 9] m = Inr (if m < n then None else Some (300, [9]))"
    using varint_readers_equivalent [OF r] by blast
  have "length [0xAC, 0x02, 9 :: byte] = length (take n [0xAC, 0x02, 9 :: byte]) + 1"
    using n(1) by (metis length_append length_Cons list.size(3) One_nat_def)
  then have "n = 2" by simp
  then show ?thesis using r n(2) by simp
qed

end
