(* ===== verification/Silo_Containers.thy ===== *)
theory Silo_Containers
  imports Prelude
begin

text \<open>
  Silo's fixed-capacity vector, \<^verbatim>\<open>src/silo/static_vector.h\<close>, its spin lock,
  \<^verbatim>\<open>src/silo/spinlock.h\<close>, and its spin barrier, \<^verbatim>\<open>src/silo/spinbarrier.h\<close>. The macro
  \<open>INVARIANT\<close> is compiled out of a release build, so breaking one is undefined behaviour; \<open>ALWAYS_ASSERT\<close>
  aborts. A vector is its elements and its capacity; iterators are positions.
\<close>

section \<open>static_vector\<close>

record 'a static_vector =
  sv_cap :: nat
  sv_elems :: "'a list"

definition svec_new :: "nat \<Rightarrow> 'a static_vector" where
  "svec_new cap = \<lparr>sv_cap = cap, sv_elems = []\<rparr>"

definition svec_size :: "'a static_vector \<Rightarrow> nat" where
  "svec_size v = length (sv_elems v)"

definition svec_empty :: "'a static_vector \<Rightarrow> bool" where
  "svec_empty v \<longleftrightarrow> svec_size v = 0"

definition svec_front :: "'a static_vector \<Rightarrow> 'a res" where
  "svec_front v = (if svec_size v > 0 \<and> svec_size v \<le> sv_cap v then Inr (sv_elems v ! 0) else Inl (Undefined ''n > 0''))"

definition svec_back :: "'a static_vector \<Rightarrow> 'a res" where
  "svec_back v = (if svec_size v > 0 \<and> svec_size v \<le> sv_cap v then Inr (sv_elems v ! (svec_size v - 1)) else Inl (Undefined ''n > 0''))"

definition svec_pop_back :: "'a static_vector \<Rightarrow> 'a static_vector res" where
  "svec_pop_back v = (if svec_size v > 0 then Inr (v\<lparr>sv_elems := take (svec_size v - 1) (sv_elems v)\<rparr>) else Inl (Undefined ''n > 0''))"

definition svec_emplace_back :: "'a \<Rightarrow> 'a static_vector \<Rightarrow> 'a static_vector res" where
  "svec_emplace_back x v =
     (if svec_size v < sv_cap v then Inr (v\<lparr>sv_elems := sv_elems v @ [x]\<rparr>) else Inl (Undefined ''n < StaticSize''))"

definition svec_push_back :: "'a \<Rightarrow> 'a static_vector \<Rightarrow> 'a static_vector res" where
  "svec_push_back x v = svec_emplace_back x v"

fun svec_of_list :: "'a list \<Rightarrow> 'a static_vector \<Rightarrow> 'a static_vector res" where
  "svec_of_list [] v = Inr v"
| "svec_of_list (x # xs) v = bind_res (svec_push_back x v) (svec_of_list xs)"

definition svec_index :: "'a static_vector \<Rightarrow> int \<Rightarrow> 'a res" where
  "svec_index v i = (if 0 \<le> i \<and> nat i < svec_size v then Inr (sv_elems v ! nat i) else Inl (Undefined ''ptr()[i]''))"

definition svec_clear :: "'a static_vector \<Rightarrow> 'a static_vector" where
  "svec_clear v = v\<lparr>sv_elems := []\<rparr>"

definition svec_reserve :: "nat \<Rightarrow> 'a static_vector \<Rightarrow> 'a static_vector" where
  "svec_reserve n v = v"

definition svec_resize :: "nat \<Rightarrow> 'a \<Rightarrow> 'a static_vector \<Rightarrow> 'a static_vector res" where
  "svec_resize n x v =
     (if n > sv_cap v then Inl (Undefined ''n <= StaticSize'')
      else if n > svec_size v then Inr (v\<lparr>sv_elems := sv_elems v @ replicate (n - svec_size v) x\<rparr>)
      else if n < svec_size v then Inr (v\<lparr>sv_elems := take n (sv_elems v)\<rparr>)
      else Inr v)"

definition svec_sort :: "'a::linorder static_vector \<Rightarrow> 'a static_vector" where
  "svec_sort v = v\<lparr>sv_elems := sort (sv_elems v)\<rparr>"

definition svec_assign :: "'a static_vector \<Rightarrow> 'a static_vector \<Rightarrow> 'a static_vector res" where
  "svec_assign that v =
     (if svec_size that > sv_cap v then Inl (Undefined ''that.n <= StaticSize'')
      else Inr ((svec_clear v)\<lparr>sv_elems := sv_elems that\<rparr>))"

text \<open>Iterators.\<close>

type_synonym sv_iter = int

definition svec_begin :: "'a static_vector \<Rightarrow> sv_iter" where
  "svec_begin v = 0"

definition svec_end :: "'a static_vector \<Rightarrow> sv_iter" where
  "svec_end v = int (svec_size v)"

definition it_deref :: "'a static_vector \<Rightarrow> sv_iter \<Rightarrow> 'a res" where
  "it_deref v p = svec_index v p"

definition it_eq :: "sv_iter \<Rightarrow> sv_iter \<Rightarrow> bool" where
  "it_eq p q \<longleftrightarrow> p = q"

definition it_less :: "sv_iter \<Rightarrow> sv_iter \<Rightarrow> bool" where
  "it_less p q \<longleftrightarrow> p < q"

definition it_greater :: "sv_iter \<Rightarrow> sv_iter \<Rightarrow> bool" where
  "it_greater p q \<longleftrightarrow> p > q"

definition it_ne :: "sv_iter \<Rightarrow> sv_iter \<Rightarrow> bool" where
  "it_ne p q \<longleftrightarrow> \<not> it_eq p q"

definition it_ge :: "sv_iter \<Rightarrow> sv_iter \<Rightarrow> bool" where
  "it_ge p q \<longleftrightarrow> \<not> it_less p q"

definition it_le :: "sv_iter \<Rightarrow> sv_iter \<Rightarrow> bool" where
  "it_le p q \<longleftrightarrow> \<not> it_greater p q"

definition it_plus :: "sv_iter \<Rightarrow> int \<Rightarrow> sv_iter" where
  "it_plus p n = p + n"

definition it_minus :: "sv_iter \<Rightarrow> int \<Rightarrow> sv_iter" where
  "it_minus p n = p - n"

definition it_diff :: "sv_iter \<Rightarrow> sv_iter \<Rightarrow> int" where
  "it_diff p q = p - q"

definition it_post_inc :: "sv_iter \<Rightarrow> sv_iter \<times> sv_iter" where
  "it_post_inc p = (p, p + 1)"

definition it_post_dec :: "sv_iter \<Rightarrow> sv_iter \<times> sv_iter" where
  "it_post_dec p = (p, p - 1)"

section \<open>spinlock\<close>

text \<open>
  One pass of the loop of \<open>lock\<close> from the value \<open>v\<close> read before: \<open>Inr\<close> the new lock word when the
  compare-and-swap succeeds, \<open>Inl\<close> the value read for the next pass.
\<close>

definition spin_lock_try :: "u32 \<Rightarrow> u32 \<Rightarrow> u32 + u32" where
  "spin_lock_try mem v = (if v \<noteq> 0 \<or> mem \<noteq> 0 then Inl mem else Inr 1)"

definition spin_try_lock :: "u32 \<Rightarrow> bool \<times> u32" where
  "spin_try_lock mem = (if mem = 0 then (True, 1) else (False, mem))"

definition spin_unlock :: "u32 \<Rightarrow> u32 res" where
  "spin_unlock mem = (if mem = 0 then Inl (Undefined ''value'') else Inr 0)"

definition spin_is_locked :: "u32 \<Rightarrow> bool" where
  "spin_is_locked mem \<longleftrightarrow> mem \<noteq> 0"

section \<open>spin_barrier\<close>

definition barrier_new :: "u64 \<Rightarrow> u64 res" where
  "barrier_new n = (if n = 0 then Inl (Abort ''n > 0'') else Inr n)"

definition barrier_destroy :: "u64 \<Rightarrow> unit res" where
  "barrier_destroy n = (if n \<noteq> 0 then Inl (Abort ''n == 0'') else Inr ())"

text \<open>One pass of the loop of \<open>count_down\<close> with the value \<open>copy\<close> read before; \<open>None\<close> is a lost race.\<close>

definition count_down_try :: "u64 \<Rightarrow> u64 \<Rightarrow> u64 option res" where
  "count_down_try n copy =
     (if copy = 0 then Inl (Abort ''copy > 0'')
      else Inr (if n = copy then Some (copy - 1) else None))"

text \<open>\<open>wait_for\<close> over successive readings: how many it took, \<open>None\<close> while the barrier is up.\<close>

fun wait_for :: "u64 list \<Rightarrow> nat option" where
  "wait_for [] = None"
| "wait_for (n # ns) = (if n > 0 then map_option Suc (wait_for ns) else Some 0)"

section \<open>Bounded vectors\<close>

text \<open>The invariant every operation keeps, and each operation as an operation on lists.\<close>

definition svec_ok :: "'a static_vector \<Rightarrow> bool" where
  "svec_ok v \<longleftrightarrow> length (sv_elems v) \<le> sv_cap v"

lemmas svec_defs = svec_ok_def svec_new_def svec_size_def svec_empty_def svec_front_def svec_back_def
  svec_pop_back_def svec_emplace_back_def svec_push_back_def svec_index_def svec_clear_def
  svec_reserve_def svec_resize_def svec_sort_def svec_assign_def

lemma svec_ok_ops:
  "svec_ok (svec_new cap)"
  "svec_ok v \<Longrightarrow> svec_push_back x v = Inr v' \<Longrightarrow> svec_ok v'"
  "svec_ok v \<Longrightarrow> svec_pop_back v = Inr v' \<Longrightarrow> svec_ok v'"
  "svec_ok v \<Longrightarrow> svec_resize n x v = Inr v' \<Longrightarrow> svec_ok v'"
  "svec_ok v \<Longrightarrow> svec_assign that v = Inr v' \<Longrightarrow> svec_ok v'"
  "svec_ok (svec_clear v)"
  "svec_ok (w :: 'b::linorder static_vector) \<Longrightarrow> svec_ok (svec_sort w)"
  by (auto simp: svec_defs split: if_splits)

lemma svec_of_list_eq:
  "svec_of_list xs v =
     (if xs = [] \<or> svec_size v + length xs \<le> sv_cap v then Inr (v\<lparr>sv_elems := sv_elems v @ xs\<rparr>)
      else Inl (Undefined ''n < StaticSize''))"
proof (induction xs arbitrary: v)
  case (Cons x xs)
  show ?case
  proof (cases "svec_size v < sv_cap v")
    case True
    then show ?thesis using Cons.IH [of "v\<lparr>sv_elems := sv_elems v @ [x]\<rparr>"]
      by (auto simp: svec_defs)
  qed (auto simp: svec_defs)
qed simp

text \<open>Walking from \<open>begin\<close> to \<open>end\<close> visits the elements in order.\<close>

lemma svec_walk: "map (it_deref v) (map int [0..<nat (it_diff (svec_end v) (svec_begin v))]) = map Inr (sv_elems v)"
  by (rule nth_equalityI) (auto simp: it_deref_def svec_defs it_diff_def svec_end_def svec_begin_def)

section \<open>Locks and barriers\<close>

text \<open>
  Threads that only take the lock by \<open>lock\<close> or \<open>try_lock\<close> and only release it when they hold it.
\<close>

inductive spin_step :: "u32 \<times> nat set \<Rightarrow> u32 \<times> nat set \<Rightarrow> bool" where
  spin_lock: "spin_lock_try mem v = Inr mem' \<Longrightarrow> spin_step (mem, H) (mem', insert t H)"
| spin_try: "spin_try_lock mem = (True, mem') \<Longrightarrow> spin_step (mem, H) (mem', insert t H)"
| spin_release: "t \<in> H \<Longrightarrow> spin_unlock mem = Inr mem' \<Longrightarrow> spin_step (mem, H) (mem', H - {t})"

definition spin_inv :: "u32 \<times> nat set \<Rightarrow> bool" where
  "spin_inv = (\<lambda>(mem, H). (mem = 0 \<longleftrightarrow> H = {}) \<and> (H = {} \<or> (\<exists>t. H = {t})))"

lemma spin_step_inv: "spin_step s s' \<Longrightarrow> spin_inv s \<Longrightarrow> spin_inv s'"
  by (induction rule: spin_step.induct)
    (auto simp: spin_inv_def spin_lock_try_def spin_try_lock_def spin_unlock_def split: if_splits)

lemma spin_lock_exclusive:
  assumes "spin_step\<^sup>*\<^sup>* (0, {}) (mem, H)" "t \<in> H" "u \<in> H"
  shows "t = u \<and> spin_unlock mem = Inr 0"
proof -
  have "spin_inv (0, {})" by (simp add: spin_inv_def)
  with assms(1) have "spin_inv (mem, H)"
    by (induction "(mem, H)" arbitrary: mem H rule: rtranclp_induct) (auto intro: spin_step_inv)
  then show ?thesis using assms(2,3) by (auto simp: spin_inv_def spin_unlock_def)
qed

text \<open>The barrier opens with the last of \<open>n\<close> calls of \<open>count_down\<close>, and a further call aborts.\<close>

fun count_downs :: "nat \<Rightarrow> u64 \<Rightarrow> u64 res" where
  "count_downs 0 n = Inr n"
| "count_downs (Suc k) n =
     bind_res (count_down_try n n) (\<lambda>r. count_downs k (case r of None \<Rightarrow> n | Some n' \<Rightarrow> n'))"

lemma count_downs_open: "count_downs (unat n) n = Inr 0"
proof (induction "unat n" arbitrary: n)
  case (Suc k)
  have "n \<noteq> 0" using Suc.hyps(2) by auto
  moreover from this have "k = unat (n - 1)" using Suc.hyps(2) by (simp add: unat_minus_one)
  ultimately show ?case using Suc.hyps by (simp add: count_down_try_def Suc.hyps(2) [symmetric])
qed (simp add: unat_eq_zero)

end
