(* ===== verification/Silo_Tuple.thy ===== *)
theory Silo_Tuple
  imports Silo_Util
begin

unbundle bit_operations_syntax

text \<open>
  The versioned record of Silo, \<^verbatim>\<open>src/silo/tuple.h\<close>: a header word that is a lock, a set of flags and a
  change counter in one, the transaction id of the value it holds, the value itself and a pointer to
  the older versions. The records live in a heap of numbered cells; the RCU allocator is a supply of
  fresh cells. The build is the default one of \<^verbatim>\<open>src/silo/Makefile\<close> (mode perf, no invariant checking, so
  that the INVARIANT macros are empty). The theory shows what a lock holder may rely on, that an
  optimistic reader which finds the header unchanged has read one version, that the chain of versions
  is a multi-version store, and that a write never takes a version away from a snapshot.
\<close>

section \<open>The header word\<close>

definition MIN_TID :: u64 where
  "MIN_TID = 0"

definition MAX_TID :: u64 where
  "MAX_TID = - 1"

definition HDR_LOCKED_MASK :: u32 where
  "HDR_LOCKED_MASK = 1"

definition HDR_DELETING_MASK :: u32 where
  "HDR_DELETING_MASK = push_bit 1 1"

definition HDR_WRITE_INTENT_MASK :: u32 where
  "HDR_WRITE_INTENT_MASK = push_bit 2 1"

definition HDR_MODIFYING_MASK :: u32 where
  "HDR_MODIFYING_MASK = push_bit 3 1"

definition HDR_LATEST_MASK :: u32 where
  "HDR_LATEST_MASK = push_bit 4 1"

definition HDR_VERSION_MASK :: u32 where
  "HDR_VERSION_MASK = push_bit 5 (- 1)"

definition IsLocked :: "u32 \<Rightarrow> bool" where
  "IsLocked v \<longleftrightarrow> v AND HDR_LOCKED_MASK \<noteq> 0"

definition IsDeleting :: "u32 \<Rightarrow> bool" where
  "IsDeleting v \<longleftrightarrow> v AND HDR_DELETING_MASK \<noteq> 0"

definition IsModifying :: "u32 \<Rightarrow> bool" where
  "IsModifying v \<longleftrightarrow> v AND HDR_MODIFYING_MASK \<noteq> 0"

definition IsWriteIntent :: "u32 \<Rightarrow> bool" where
  "IsWriteIntent v \<longleftrightarrow> v AND HDR_WRITE_INTENT_MASK \<noteq> 0"

definition IsLatest :: "u32 \<Rightarrow> bool" where
  "IsLatest v \<longleftrightarrow> v AND HDR_LATEST_MASK \<noteq> 0"

definition Version :: "u32 \<Rightarrow> u32" where
  "Version v = drop_bit 5 (v AND HDR_VERSION_MASK)"

text \<open>
  One turn of the loop of \<open>lock\<close>: the header was read as \<open>v\<close>, and the compare-and-swap finds \<open>h\<close> in
  memory. \<open>None\<close> is another turn.
\<close>

definition lockmask :: "bool \<Rightarrow> u32" where
  "lockmask write_intent =
     (if write_intent then HDR_LOCKED_MASK OR HDR_WRITE_INTENT_MASK else HDR_LOCKED_MASK)"

definition lock_try :: "bool \<Rightarrow> u32 \<Rightarrow> u32 \<Rightarrow> u32 option" where
  "lock_try write_intent v h = (if IsLocked v \<or> h \<noteq> v then None else Some (v OR lockmask write_intent))"

definition hdr_unlock :: "u32 \<Rightarrow> u32" where
  "hdr_unlock v =
     (let v = (if IsModifying v \<or> IsWriteIntent v
               then (v AND NOT HDR_VERSION_MASK) OR (push_bit 5 (Version v + 1) AND HDR_VERSION_MASK)
               else v)
      in v AND NOT (HDR_LOCKED_MASK OR HDR_MODIFYING_MASK OR HDR_WRITE_INTENT_MASK))"

definition hdr_mark_deleting :: "u32 \<Rightarrow> u32" where
  "hdr_mark_deleting h = h OR HDR_DELETING_MASK"

definition hdr_clear_deleting :: "u32 \<Rightarrow> u32" where
  "hdr_clear_deleting h = h AND NOT HDR_DELETING_MASK"

definition hdr_mark_modifying :: "u32 \<Rightarrow> u32" where
  "hdr_mark_modifying h = h OR HDR_MODIFYING_MASK"

definition hdr_clear_latest :: "u32 \<Rightarrow> u32" where
  "hdr_clear_latest h = h AND NOT HDR_LATEST_MASK"

text \<open>
  The optimistic readers. The successive volatile loads of the header are the elements of a list;
  \<open>None\<close> says that the reader still spins when the list ends.
\<close>

fun reader_stable_version :: "bool \<Rightarrow> u32 list \<Rightarrow> (u32 \<times> u32 list) option" where
  "reader_stable_version allow_write_intent [] = None"
| "reader_stable_version allow_write_intent (v # hs) =
     (if IsModifying v \<or> \<not> allow_write_intent \<and> IsWriteIntent v
      then reader_stable_version allow_write_intent hs else Some (v, hs))"

fun try_writer_stable_version :: "nat \<Rightarrow> u32 list \<Rightarrow> (bool \<times> u32 \<times> u32 list) option" where
  "try_writer_stable_version spins [] = None"
| "try_writer_stable_version spins (v # hs) =
     (case spins of
        0 \<Rightarrow> Some (\<not> IsWriteIntent v, v, hs)
      | Suc n \<Rightarrow> if IsWriteIntent v then try_writer_stable_version n hs
                 else Some (\<not> IsWriteIntent v, v, hs))"

definition MODULO_BITS :: u32 where
  "MODULO_BITS = HDR_LOCKED_MASK OR HDR_WRITE_INTENT_MASK OR HDR_LATEST_MASK"

definition reader_check_version :: "u32 \<Rightarrow> u32 \<Rightarrow> bool" where
  "reader_check_version h v \<longleftrightarrow> h AND NOT MODULO_BITS = v AND NOT MODULO_BITS"

definition writer_check_version :: "u32 \<Rightarrow> u32 \<Rightarrow> bool" where
  "writer_check_version h v \<longleftrightarrow> h = v"

section \<open>The record\<close>

record dbtuple =
  hdr :: u32
  version :: u64
  dsize :: u16
  alloc_size :: u16
  dnext :: "nat option"
  value_start :: "byte list"

definition sizeof_dbtuple :: u64 where
  "sizeof_dbtuple = 24"

definition CheckBounds :: "u64 \<Rightarrow> u16" where
  "CheckBounds s = ucast s"

text \<open>
  A copy into a record's buffer. Running over its end is undefined in C++; nothing reads the bytes
  past those written, which the allocator leaves as they are and the model as zero.
\<close>

definition memcpy_into :: "byte list \<Rightarrow> byte list \<Rightarrow> byte list res" where
  "memcpy_into buf src =
     (if length src \<le> length buf then Inr (src @ drop (length src) buf)
      else Inl (Undefined ''copy past the end of the record''))"

definition new_buf :: "u16 \<Rightarrow> byte list" where
  "new_buf n = replicate (unat n) 0"

definition dbtuple_first :: "u64 \<Rightarrow> u64 \<Rightarrow> bool \<Rightarrow> dbtuple" where
  "dbtuple_first sz asize acquire_lock =
     \<lparr>hdr = HDR_LATEST_MASK OR
        (if acquire_lock then HDR_LOCKED_MASK OR HDR_WRITE_INTENT_MASK else 0) OR
        (if sz = 0 then HDR_DELETING_MASK else 0),
      version = MAX_TID, dsize = CheckBounds sz, alloc_size = CheckBounds asize, dnext = None,
      value_start = new_buf (CheckBounds asize)\<rparr>"

definition dbtuple_copy :: "u64 \<Rightarrow> dbtuple \<Rightarrow> u64 \<Rightarrow> bool \<Rightarrow> dbtuple res" where
  "dbtuple_copy ver base asize set_latest =
     bind_res (memcpy_into (new_buf (CheckBounds asize)) (take (unat (dsize base)) (value_start base)))
       (\<lambda>buf. Inr
         \<lparr>hdr = (let h = (if set_latest then HDR_LATEST_MASK else 0) in
                 if IsDeleting (hdr base) then hdr_mark_deleting h else h),
          version = ver, dsize = dsize base, alloc_size = CheckBounds asize, dnext = dnext base,
          value_start = buf\<rparr>)"

definition dbtuple_spill :: "u64 \<Rightarrow> byte list \<Rightarrow> u64 \<Rightarrow> u64 \<Rightarrow> u64 \<Rightarrow> nat option \<Rightarrow> bool \<Rightarrow> bool \<Rightarrow> dbtuple res" where
  "dbtuple_spill ver r old_size new_size asize nxt set_latest needs_old_value =
     bind_res (if needs_old_value then memcpy_into (new_buf (CheckBounds asize)) (take (unat old_size) r)
               else Inr (new_buf (CheckBounds asize)))
       (\<lambda>buf. Inr
         \<lparr>hdr = (if set_latest then HDR_LATEST_MASK else 0) OR
                (if new_size = 0 then HDR_DELETING_MASK else 0),
          version = ver, dsize = CheckBounds new_size, alloc_size = CheckBounds asize, dnext = nxt,
          value_start = buf\<rparr>)"

definition is_not_behind :: "dbtuple \<Rightarrow> u64 \<Rightarrow> bool" where
  "is_not_behind tup t \<longleftrightarrow> version tup \<le> t"

definition tuple_unlock :: "dbtuple \<Rightarrow> dbtuple" where
  "tuple_unlock tup = tup\<lparr>hdr := hdr_unlock (hdr tup)\<rparr>"

text \<open>
  \<open>lock\<close> as one call that no other thread interferes with: \<open>None\<close> when it would spin because the
  record is locked.
\<close>

definition tuple_lock :: "bool \<Rightarrow> dbtuple \<Rightarrow> dbtuple option" where
  "tuple_lock write_intent tup =
     map_option (\<lambda>h. tup\<lparr>hdr := h\<rparr>) (lock_try write_intent (hdr tup) (hdr tup))"

definition is_latest_version :: "dbtuple \<Rightarrow> u64 \<Rightarrow> bool" where
  "is_latest_version tup t \<longleftrightarrow> IsLatest (hdr tup) \<and> is_not_behind tup t"

text \<open>
  \<open>stable_is_latest_version\<close> on the loads it makes: the headers \<open>hs\<close> while it spins, the version word
  \<open>ver\<close>, and the header that follows in \<open>hs\<close> for the final check.
\<close>

definition stable_is_latest_obs :: "u32 list \<Rightarrow> u64 \<Rightarrow> u64 \<Rightarrow> bool option" where
  "stable_is_latest_obs hs ver t =
     (case try_writer_stable_version 16 hs of
        None \<Rightarrow> None
      | Some (ok, v, hs') \<Rightarrow>
          if \<not> ok then Some False
          else if IsLatest v \<and> ver \<le> t
          then (case hs' of [] \<Rightarrow> None | h # _ \<Rightarrow> Some (writer_check_version h v))
          else Some False)"

text \<open>The same call when no other thread moves: every load of the header gives the same word.\<close>

definition stable_is_latest_version :: "dbtuple \<Rightarrow> u64 \<Rightarrow> bool" where
  "stable_is_latest_version tup t =
     (stable_is_latest_obs (replicate 18 (hdr tup)) (version tup) t = Some True)"

definition latest_value_is_nil :: "dbtuple \<Rightarrow> bool" where
  "latest_value_is_nil tup \<longleftrightarrow> IsLatest (hdr tup) \<and> dsize tup = 0"

definition stable_latest_value_is_nil_obs :: "u32 list \<Rightarrow> u16 \<Rightarrow> bool option" where
  "stable_latest_value_is_nil_obs hs sz =
     (case try_writer_stable_version 16 hs of
        None \<Rightarrow> None
      | Some (ok, v, hs') \<Rightarrow>
          if \<not> ok then Some False
          else if IsLatest v \<and> sz = 0
          then (case hs' of [] \<Rightarrow> None | h # _ \<Rightarrow> Some (writer_check_version h v))
          else Some False)"

section \<open>The heap of records\<close>

text \<open>
  The record heap: the cells in use and the next cell the allocator hands out.
\<close>

record theap =
  cells :: "nat \<Rightarrow> dbtuple option"
  brk :: nat

definition theap_empty :: theap where
  "theap_empty = \<lparr>cells = (\<lambda>_. None), brk = 0\<rparr>"

definition put_cell :: "nat \<Rightarrow> dbtuple \<Rightarrow> theap \<Rightarrow> theap" where
  "put_cell a tup H = H\<lparr>cells := (cells H)(a \<mapsto> tup)\<rparr>"

definition new_cell :: "dbtuple \<Rightarrow> theap \<Rightarrow> nat \<times> theap" where
  "new_cell tup H = (brk H, H\<lparr>cells := (cells H)(brk H \<mapsto> tup), brk := Suc (brk H)\<rparr>)"

definition max_alloc_sz :: u64 where
  "max_alloc_sz = 65535 + sizeof_dbtuple"

text \<open>The space an allocation gives the value, the size of the header taken off.\<close>

definition alloc_space :: "u64 \<Rightarrow> u64" where
  "alloc_space needed = min (round_up 4 (sizeof_dbtuple + needed)) max_alloc_sz - sizeof_dbtuple"

definition alloc_first :: "u64 \<Rightarrow> bool \<Rightarrow> theap \<Rightarrow> nat \<times> theap" where
  "alloc_first sz acquire_lock H = new_cell (dbtuple_first sz (alloc_space sz) acquire_lock) H"

definition alloc_copy :: "u64 \<Rightarrow> dbtuple \<Rightarrow> bool \<Rightarrow> theap \<Rightarrow> (nat \<times> theap) res" where
  "alloc_copy ver base set_latest H =
     bind_res (dbtuple_copy ver base (alloc_space (ucast (dsize base))) set_latest)
       (\<lambda>tup. Inr (new_cell tup H))"

definition alloc_spill ::
    "u64 \<Rightarrow> byte list \<Rightarrow> u64 \<Rightarrow> u64 \<Rightarrow> nat option \<Rightarrow> bool \<Rightarrow> bool \<Rightarrow> theap \<Rightarrow> (nat \<times> theap) res" where
  "alloc_spill ver val oldsz newsz nxt set_latest copy_old_value H =
     bind_res (dbtuple_spill ver val oldsz newsz
                 (alloc_space (if copy_old_value then max newsz oldsz else newsz))
                 nxt set_latest copy_old_value)
       (\<lambda>tup. Inr (new_cell tup H))"

subsection \<open>Reading\<close>

datatype ReadStatus = READ_FAILED | READ_EMPTY | READ_RECORD

text \<open>
  The string readers of \<^verbatim>\<open>src/silo/txn_btree.h\<close>: at most \<open>max_bytes_read\<close> bytes are assigned, and the
  read never runs out of buffer space.
\<close>

definition single_value_reader :: "nat \<Rightarrow> byte list \<Rightarrow> bool \<times> byte list" where
  "single_value_reader max_bytes_read data = (True, take (min (length data) max_bytes_read) data)"

text \<open>
  A read of the chain from the cell \<open>a\<close> when no other thread moves; the result is the status, the
  transaction id read and the bytes given to the reader. \<open>None\<close> is a reader that spins, on a record
  being modified (or locked for writing, unless that is allowed) or around a cyclic chain.
\<close>

definition read_here :: "dbtuple \<Rightarrow> ReadStatus \<times> u64 \<times> byte list" where
  "read_here tup =
     (let read_sz = (if IsDeleting (hdr tup) then 0 else unat (dsize tup))
      in (if read_sz \<noteq> 0 then READ_RECORD else READ_EMPTY, version tup, take read_sz (value_start tup)))"

partial_function (option) record_at_chain ::
    "theap \<Rightarrow> u64 \<Rightarrow> bool \<Rightarrow> nat \<Rightarrow> (ReadStatus \<times> u64 \<times> byte list) option" where
  "record_at_chain H t allow_write_intent a =
     (case cells H a of
        None \<Rightarrow> None
      | Some cur \<Rightarrow>
          if IsModifying (hdr cur) \<or> \<not> allow_write_intent \<and> IsWriteIntent (hdr cur)
          then record_at_chain H t allow_write_intent a
          else if is_not_behind cur t then Some (read_here cur)
          else (case dnext cur of
                  None \<Rightarrow> Some (READ_EMPTY, MIN_TID, [])
                | Some p \<Rightarrow> record_at_chain H t allow_write_intent p))"

definition stable_read :: "theap \<Rightarrow> nat \<Rightarrow> u64 \<Rightarrow> bool \<Rightarrow> (ReadStatus \<times> u64 \<times> byte list) option" where
  "stable_read H a t allow_write_intent =
     (case cells H a of
        None \<Rightarrow> None
      | Some tup \<Rightarrow>
          if version tup = MAX_TID then Some (READ_EMPTY, MIN_TID, [])
          else record_at_chain H t allow_write_intent a)"

subsection \<open>Writing\<close>

datatype TupleWriterMode =
    TUPLE_WRITER_NEEDS_OLD_VALUE
  | TUPLE_WRITER_COMPUTE_NEEDED
  | TUPLE_WRITER_COMPUTE_DELTA_NEEDED
  | TUPLE_WRITER_DO_WRITE
  | TUPLE_WRITER_DO_DELTA_WRITE

text \<open>
  The writer of string values in \<^verbatim>\<open>src/silo/txn_btree.h\<close>: what it returns and what it leaves in the buffer.
\<close>

fun tuple_writer :: "TupleWriterMode \<Rightarrow> byte list \<Rightarrow> byte list \<Rightarrow> (u64 \<times> byte list) res" where
  "tuple_writer TUPLE_WRITER_NEEDS_OLD_VALUE v p = Inr (0, p)"
| "tuple_writer TUPLE_WRITER_COMPUTE_NEEDED v p = Inr (of_nat (length v), p)"
| "tuple_writer TUPLE_WRITER_COMPUTE_DELTA_NEEDED v p = Inr (of_nat (length v), p)"
| "tuple_writer TUPLE_WRITER_DO_WRITE v p = bind_res (memcpy_into p v) (\<lambda>q. Inr (0, q))"
| "tuple_writer TUPLE_WRITER_DO_DELTA_WRITE v p = bind_res (memcpy_into p v) (\<lambda>q. Inr (0, q))"

record write_record_ret =
  ret_head :: nat
  ret_rest :: "nat option"
  ret_forced_spill :: bool

definition do_write :: "byte list option \<Rightarrow> dbtuple \<Rightarrow> dbtuple res" where
  "do_write v tup =
     (case v of
        None \<Rightarrow> Inr tup
      | Some bs \<Rightarrow> bind_res (tuple_writer TUPLE_WRITER_DO_WRITE bs (value_start tup))
                     (\<lambda>(_, q). Inr (tup\<lparr>value_start := q\<rparr>)))"

text \<open>The update of a record in its own buffer: mark it, write the value, set version and size.\<close>

definition write_in_place :: "u64 \<Rightarrow> byte list option \<Rightarrow> u64 \<Rightarrow> dbtuple \<Rightarrow> dbtuple res" where
  "write_in_place t v new_sz tup =
     bind_res (do_write v (tup\<lparr>hdr := hdr_mark_modifying (hdr tup)\<rparr>))
       (\<lambda>tup. let tup = tup\<lparr>version := t, dsize := ucast new_sz\<rparr>
              in Inr (if new_sz = 0 then tup\<lparr>hdr := hdr_mark_deleting (hdr tup)\<rparr> else tup))"

text \<open>A new record in front of the old one, which stops being the latest.\<close>

definition write_replace ::
    "u64 \<Rightarrow> byte list option \<Rightarrow> u64 \<Rightarrow> u64 \<Rightarrow> nat \<Rightarrow> bool \<Rightarrow> theap \<Rightarrow> (write_record_ret \<times> theap) res" where
  "write_replace t v old_sz new_sz a forced H =
     (case cells H a of
        None \<Rightarrow> Inl (Undefined ''no record'')
      | Some tup \<Rightarrow>
          bind_res (tuple_writer TUPLE_WRITER_NEEDS_OLD_VALUE [] []) (\<lambda>(needs_old_value, _).
          bind_res (alloc_spill t (value_start tup) old_sz new_sz (Some a) True (needs_old_value \<noteq> 0) H)
            (\<lambda>(rep, H1). case cells H1 rep of
                None \<Rightarrow> Inl (Undefined ''no record'')
              | Some rtup \<Rightarrow>
                  bind_res (do_write v rtup) (\<lambda>rtup.
                    Inr (\<lparr>ret_head = rep, ret_rest = Some a, ret_forced_spill = forced\<rparr>,
                         put_cell a (tup\<lparr>hdr := hdr_clear_latest (hdr tup)\<rparr>) (put_cell rep rtup H1))))))"

definition write_record_at ::
    "(u64 \<Rightarrow> u64 \<Rightarrow> bool) \<Rightarrow> nat \<Rightarrow> u64 \<Rightarrow> byte list option \<Rightarrow> theap \<Rightarrow> (write_record_ret \<times> theap) res" where
  "write_record_at can_overwrite_record_tid a t v H =
     (case cells H a of
        None \<Rightarrow> Inl (Undefined ''no record'')
      | Some tup \<Rightarrow>
          bind_res (case v of None \<Rightarrow> Inr 0
                    | Some bs \<Rightarrow> bind_res (tuple_writer TUPLE_WRITER_COMPUTE_NEEDED bs (value_start tup))
                                   (\<lambda>(n, _). Inr n))
          (\<lambda>new_sz.
             let old_sz = (if IsDeleting (hdr tup) then 0 else ucast (dsize tup) :: u64) in
             if can_overwrite_record_tid (version tup) t \<and> old_sz \<noteq> 0 then
               if new_sz \<le> ucast (alloc_size tup) then
                 bind_res (write_in_place t v new_sz tup) (\<lambda>tup'.
                   Inr (\<lparr>ret_head = a, ret_rest = None, ret_forced_spill = False\<rparr>, put_cell a tup' H))
               else write_replace t v old_sz new_sz a False H
             else if new_sz \<le> ucast (alloc_size tup) \<and> old_sz \<noteq> 0 then
               bind_res (alloc_copy (version tup) tup False H) (\<lambda>(spill, H1).
               bind_res (write_in_place t v new_sz (tup\<lparr>dnext := Some spill\<rparr>)) (\<lambda>tup'.
                 Inr (\<lparr>ret_head = a, ret_rest = Some spill, ret_forced_spill = True\<rparr>, put_cell a tup' H1)))
             else write_replace t v old_sz new_sz a True H))"

section \<open>What the header operations do\<close>

text \<open>The header bit by bit: the flags in bits 0 to 4, the counter in the 27 bits above.\<close>

lemmas hdr_masks = HDR_LOCKED_MASK_def HDR_DELETING_MASK_def HDR_WRITE_INTENT_MASK_def
  HDR_MODIFYING_MASK_def HDR_LATEST_MASK_def HDR_VERSION_MASK_def MODULO_BITS_def lockmask_def

lemma bit_hdr_masks:
  "bit HDR_LOCKED_MASK k \<longleftrightarrow> k = 0" "bit HDR_DELETING_MASK k \<longleftrightarrow> k = 1"
  "bit HDR_WRITE_INTENT_MASK k \<longleftrightarrow> k = 2" "bit HDR_MODIFYING_MASK k \<longleftrightarrow> k = 3"
  "bit HDR_LATEST_MASK k \<longleftrightarrow> k = 4" "bit HDR_VERSION_MASK k \<longleftrightarrow> 5 \<le> k \<and> k < 32"
  unfolding hdr_masks
  by (simp_all only: bit_push_bit_iff bit_1_iff bit_minus_1_iff possible_bit_def) auto

lemma and_flag: "(v AND w \<noteq> 0) = bit v k" if "\<And>j. bit w j \<longleftrightarrow> j = k" for v w :: u32
proof
  assume "v AND w \<noteq> 0"
  then obtain n where "bit (v AND w) n" using bit_eqI [of "v AND w" 0] by auto
  then show "bit v k" using that by (auto simp: bit_and_iff)
next
  assume "bit v k"
  then have "bit (v AND w) k" using that by (simp add: bit_and_iff)
  then show "v AND w \<noteq> 0" by auto
qed

lemma hdr_flags:
  "IsLocked v = bit v 0" "IsDeleting v = bit v 1" "IsWriteIntent v = bit v 2"
  "IsModifying v = bit v 3" "IsLatest v = bit v 4"
  unfolding IsLocked_def IsDeleting_def IsWriteIntent_def IsModifying_def IsLatest_def
  by (rule and_flag, simp add: bit_hdr_masks)+

lemma bit_Version: "bit (Version v) k \<longleftrightarrow> bit v (k + 5)"
  by (auto simp: Version_def bit_drop_bit_eq bit_and_iff bit_hdr_masks add.commute dest: bit_imp_le_length)

lemma bit_counter_range: "bit (v :: u32) (n + 5) \<Longrightarrow> n < 27"
  using bit_imp_le_length [of v "n + 5"] by simp

lemma Version_drop: "Version v = drop_bit 5 v"
  by (rule bit_word_eqI) (simp add: bit_Version bit_drop_bit_eq add.commute)

lemma unat_Version: "unat (Version v) = unat v div 32"
  by (simp add: Version_drop drop_bit_eq_div unat_div)

text \<open>The counter of \<open>unlock\<close>: one more, modulo \<open>2 ^ 27\<close>, when the holder declared a write.\<close>

lemma bit_hdr_unlock_low:
  "k < 5 \<Longrightarrow> bit (hdr_unlock v) k \<longleftrightarrow> bit v k \<and> (k = 1 \<or> k = 4)"
  by (cases k rule: nat.exhaust)
     (auto simp: hdr_unlock_def Let_def bit_and_iff bit_or_iff bit_not_iff_eq bit_hdr_masks bit_push_bit_iff
       hdr_flags)

lemma Version_hdr_unlock:
  "Version (hdr_unlock v) =
     (if bit v 2 \<or> bit v 3 then (Version v + 1) AND mask 27 else Version v)"
  by (rule bit_word_eqI)
     (auto simp: bit_Version hdr_unlock_def Let_def bit_and_iff bit_or_iff bit_not_iff_eq bit_hdr_masks
       bit_push_bit_iff hdr_flags bit_mask_iff dest: bit_imp_le_length)

lemma unat_Version_hdr_unlock:
  "unat (Version (hdr_unlock v)) =
     (if bit v 2 \<or> bit v 3 then (unat (Version v) + 1) mod 2 ^ 27 else unat (Version v))"
proof -
  have "unat v < 2 ^ 32" using unsigned_less [of v] by simp
  then have "unat (Version v) < 2 ^ 27" by (simp add: unat_Version)
  then have "unat (Version v + 1) = unat (Version v) + 1"
    by (subst unat_add_lem [THEN iffD1]) simp_all
  then show ?thesis
    by (simp add: Version_hdr_unlock unat_mod take_bit_eq_mod flip: take_bit_eq_mask)
qed

lemma hdr_unlock_flags:
  "\<not> IsLocked (hdr_unlock v)" "\<not> IsWriteIntent (hdr_unlock v)" "\<not> IsModifying (hdr_unlock v)"
  "IsDeleting (hdr_unlock v) = IsDeleting v" "IsLatest (hdr_unlock v) = IsLatest v"
  by (simp_all add: hdr_flags bit_hdr_unlock_low)

lemma lock_try_flags:
  assumes "lock_try wi v h = Some w"
  shows "h = v" "\<not> IsLocked v" "IsLocked w" "IsWriteIntent w = (IsWriteIntent v \<or> wi)"
    "IsModifying w = IsModifying v" "IsDeleting w = IsDeleting v" "IsLatest w = IsLatest v"
    "Version w = Version v"
proof -
  have w: "h = v" "\<not> IsLocked v" "w = v OR lockmask wi"
    using assms by (auto simp: lock_try_def split: if_splits)
  have b: "bit (lockmask wi) k \<longleftrightarrow> k = 0 \<or> wi \<and> k = 2" for k
    by (simp add: lockmask_def bit_or_iff bit_hdr_masks)
  show "h = v" "\<not> IsLocked v" by (fact w)+
  show "IsLocked w" "IsWriteIntent w = (IsWriteIntent v \<or> wi)" "IsModifying w = IsModifying v"
    "IsDeleting w = IsDeleting v" "IsLatest w = IsLatest v"
    by (auto simp: w(3) hdr_flags bit_or_iff b)
  show "Version w = Version v" by (rule bit_word_eqI) (simp add: bit_Version w(3) bit_or_iff b)
qed

lemma mark_flags:
  "IsLocked (hdr_mark_modifying v) = IsLocked v" "IsModifying (hdr_mark_modifying v)"
  "IsWriteIntent (hdr_mark_modifying v) = IsWriteIntent v" "IsLatest (hdr_mark_modifying v) = IsLatest v"
  "IsDeleting (hdr_mark_modifying v) = IsDeleting v" "Version (hdr_mark_modifying v) = Version v"
  "IsLocked (hdr_mark_deleting v) = IsLocked v" "IsModifying (hdr_mark_deleting v) = IsModifying v"
  "IsWriteIntent (hdr_mark_deleting v) = IsWriteIntent v" "IsLatest (hdr_mark_deleting v) = IsLatest v"
  "IsDeleting (hdr_mark_deleting v)" "Version (hdr_mark_deleting v) = Version v"
  "IsLocked (hdr_clear_deleting v) = IsLocked v" "IsModifying (hdr_clear_deleting v) = IsModifying v"
  "IsWriteIntent (hdr_clear_deleting v) = IsWriteIntent v" "IsLatest (hdr_clear_deleting v) = IsLatest v"
  "\<not> IsDeleting (hdr_clear_deleting v)" "Version (hdr_clear_deleting v) = Version v"
  "IsLocked (hdr_clear_latest v) = IsLocked v" "IsModifying (hdr_clear_latest v) = IsModifying v"
  "IsWriteIntent (hdr_clear_latest v) = IsWriteIntent v" "\<not> IsLatest (hdr_clear_latest v)"
  "IsDeleting (hdr_clear_latest v) = IsDeleting v" "Version (hdr_clear_latest v) = Version v"
  unfolding hdr_mark_modifying_def hdr_mark_deleting_def hdr_clear_deleting_def hdr_clear_latest_def
  by (auto simp: hdr_flags bit_or_iff bit_and_iff bit_not_iff_eq bit_hdr_masks bit_Version
      intro!: bit_word_eqI dest!: bit_counter_range)

lemma hdr_bit_cases:
  fixes k :: nat
  obtains "k = 0" | "k = 1" | "k = 2" | "k = 3" | "k = 4" | j where "k = j + 5"
proof (cases "k < 5")
  case True
  then have "k = 0 \<or> k = 1 \<or> k = 2 \<or> k = 3 \<or> k = 4" by linarith
  then show ?thesis using that by blast
next
  case False
  then have "k = (k - 5) + 5" by simp
  then show ?thesis by (rule that(6))
qed

lemma bit_MODULO_BITS: "bit MODULO_BITS k \<longleftrightarrow> k = 0 \<or> k = 2 \<or> k = 4"
  by (auto simp: MODULO_BITS_def bit_or_iff bit_hdr_masks)

text \<open>A reader's check compares the deleting and modifying flags and the counter.\<close>

lemma reader_check_version_iff:
  "reader_check_version h v \<longleftrightarrow>
     IsDeleting h = IsDeleting v \<and> IsModifying h = IsModifying v \<and> Version h = Version v" (is "_ \<longleftrightarrow> ?F")
proof
  assume "reader_check_version h v"
  then have e: "bit (h AND NOT MODULO_BITS) k = bit (v AND NOT MODULO_BITS) k" for k
    by (simp add: reader_check_version_def)
  have b: "bit h k = bit v k" if "k \<noteq> 0" "k \<noteq> 2" "k \<noteq> 4" for k
  proof (cases "k < 32")
    case True
    then show ?thesis using e [of k] that by (simp add: bit_and_iff bit_not_iff_eq bit_MODULO_BITS)
  next
    case False
    then show ?thesis using bit_imp_le_length [of h k] bit_imp_le_length [of v k] by auto
  qed
  have "Version h = Version v" by (rule bit_word_eqI) (simp add: bit_Version b)
  then show ?F by (simp add: hdr_flags b)
next
  assume f: ?F
  then have v: "bit h (j + 5) = bit v (j + 5)" for j by (simp add: bit_Version [symmetric])
  show "reader_check_version h v"
    unfolding reader_check_version_def
  proof (rule bit_word_eqI)
    fix k
    show "bit (h AND NOT MODULO_BITS) k = bit (v AND NOT MODULO_BITS) k"
      by (cases k rule: hdr_bit_cases)
         (use f in \<open>auto simp: bit_and_iff bit_not_iff_eq bit_MODULO_BITS hdr_flags v\<close>)
  qed
qed

section \<open>Optimistic reads see one version\<close>

text \<open>
  What one thread may do to a record that others read: take the lock, mark the record, change its
  contents while it is marked as being modified, flag it, and unlock. The counter \<open>releases\<close> is the
  number of unlocks so far that moved the header's change counter.
\<close>

record tstate =
  tup :: dbtuple
  releases :: nat

definition same_data :: "dbtuple \<Rightarrow> dbtuple \<Rightarrow> bool" where
  "same_data a b \<longleftrightarrow> version a = version b \<and> dsize a = dsize b \<and> dnext a = dnext b \<and>
     value_start a = value_start b \<and> IsDeleting (hdr a) = IsDeleting (hdr b)"

inductive tuple_step :: "tstate \<Rightarrow> tstate \<Rightarrow> bool" where
  lock: "lock_try wi v (hdr (tup s)) = Some w \<Longrightarrow> tuple_step s (s\<lparr>tup := (tup s)\<lparr>hdr := w\<rparr>\<rparr>)"
| mark_modifying: "IsLocked (hdr (tup s)) \<Longrightarrow>
    tuple_step s (s\<lparr>tup := (tup s)\<lparr>hdr := hdr_mark_modifying (hdr (tup s))\<rparr>\<rparr>)"
| modify: "IsLocked (hdr (tup s)) \<Longrightarrow> IsModifying (hdr (tup s)) \<Longrightarrow>
    tuple_step s (s\<lparr>tup := (tup s)\<lparr>version := t, dsize := n, dnext := p, value_start := bs\<rparr>\<rparr>)"
| mark_deleting: "IsLocked (hdr (tup s)) \<Longrightarrow> IsModifying (hdr (tup s)) \<Longrightarrow>
    tuple_step s (s\<lparr>tup := (tup s)\<lparr>hdr := hdr_mark_deleting (hdr (tup s))\<rparr>\<rparr>)"
| clear_latest: "IsLocked (hdr (tup s)) \<Longrightarrow>
    tuple_step s (s\<lparr>tup := (tup s)\<lparr>hdr := hdr_clear_latest (hdr (tup s))\<rparr>\<rparr>)"
| unlock: "IsLocked (hdr (tup s)) \<Longrightarrow>
    tuple_step s (s\<lparr>tup := tuple_unlock (tup s),
       releases := releases s + (if IsModifying (hdr (tup s)) \<or> IsWriteIntent (hdr (tup s)) then 1 else 0)\<rparr>)"

text \<open>
  Relative to the moment a reader loaded the header: the counter has advanced by the number of
  releases, and as long as there was none, either the contents are those of that moment or the record
  is marked as being modified.
\<close>

definition since :: "tstate \<Rightarrow> tstate \<Rightarrow> bool" where
  "since s0 s \<longleftrightarrow> releases s0 \<le> releases s \<and>
     unat (Version (hdr (tup s))) = (unat (Version (hdr (tup s0))) + (releases s - releases s0)) mod 2 ^ 27 \<and>
     (releases s = releases s0 \<longrightarrow> same_data (tup s0) (tup s) \<or> IsModifying (hdr (tup s)))"

lemma unat_Version_bound: "unat (Version v) < 2 ^ 27"
proof -
  have "unat v < 2 ^ 32" using unsigned_less [of v] by simp
  then show ?thesis by (simp add: unat_Version)
qed

lemma since_refl: "since s s"
  using unat_Version_bound by (simp add: since_def same_data_def)

lemma since_step:
  assumes "since s0 s" "tuple_step s s'"
  shows "since s0 s'"
  using assms(2)
proof cases
  case (lock wi v w)
  note f = lock_try_flags [OF lock(2)]
  show ?thesis using assms(1) by (simp add: lock(1) since_def same_data_def f)
next
  case unlock
  let ?bump = "IsModifying (hdr (tup s)) \<or> IsWriteIntent (hdr (tup s))"
  have le: "releases s0 \<le> releases s" using assms(1) by (simp add: since_def)
  show ?thesis
  proof (cases ?bump)
    case True
    then have "unat (Version (hdr_unlock (hdr (tup s)))) = (unat (Version (hdr (tup s))) + 1) mod 2 ^ 27"
      by (auto simp: unat_Version_hdr_unlock hdr_flags)
    also have "\<dots> = (unat (Version (hdr (tup s0))) + (Suc (releases s) - releases s0)) mod 2 ^ 27"
      using assms(1) le by (simp add: since_def mod_Suc_eq Suc_diff_le)
    finally show ?thesis using True le by (simp add: unlock(1) since_def tuple_unlock_def)
  next
    case False
    then have "unat (Version (hdr_unlock (hdr (tup s)))) = unat (Version (hdr (tup s)))"
      by (auto simp: unat_Version_hdr_unlock hdr_flags)
    then show ?thesis using False assms(1)
      by (simp add: unlock(1) since_def tuple_unlock_def same_data_def hdr_unlock_flags)
  qed
qed (use assms(1) in \<open>auto simp: since_def same_data_def mark_flags\<close>)

lemma since_steps: "tuple_step\<^sup>*\<^sup>* s0 s \<Longrightarrow> since s0 s"
  by (induction rule: rtranclp_induct) (auto intro: since_refl since_step)

text \<open>
  A reader takes a header that is not being modified, reads the contents at moments in between, and
  checks the header. If fewer than \<open>2 ^ 27\<close> writers released the record meanwhile and the check
  succeeds, then every moment in between showed the same contents.
\<close>

lemma optimistic_read_stable:
  assumes "tuple_step\<^sup>*\<^sup>* s0 s1" "tuple_step\<^sup>*\<^sup>* s1 s2" "\<not> IsModifying (hdr (tup s0))"
    "releases s2 - releases s0 < 2 ^ 27" "reader_check_version (hdr (tup s2)) (hdr (tup s0))"
  shows "same_data (tup s0) (tup s1)" "same_data (tup s0) (tup s2)" "releases s2 = releases s0"
proof -
  have s: "since s0 s1" "since s1 s2" "since s0 s2"
    using assms(1,2) by (auto intro: since_steps)
  have c: "Version (hdr (tup s2)) = Version (hdr (tup s0))" "\<not> IsModifying (hdr (tup s2))"
    using assms(3,5) by (auto simp: reader_check_version_iff)
  let ?n = "releases s2 - releases s0" and ?v = "unat (Version (hdr (tup s0)))"
  have "?v mod 2 ^ 27 = (?v + ?n) mod 2 ^ 27"
    using s(3) c(1) unat_Version_bound [of "hdr (tup s0)"] by (simp only: since_def mod_less)
  then have "2 ^ 27 dvd ?n" by (metis add_diff_cancel_left' le_add1 mod_eq_dvd_iff_nat)
  with assms(4) have "?n = 0" by (meson dvd_imp_le gr0I leD)
  with s have r: "releases s1 = releases s0" and r2: "releases s2 = releases s0" by (auto simp: since_def)
  show "releases s2 = releases s0" by (fact r2)
  show d: "same_data (tup s0) (tup s2)" using s(3) r2 c(2) by (simp add: since_def)
  have "same_data (tup s1) (tup s2)" using s(2) r r2 c(2) by (simp add: since_def)
  with d show "same_data (tup s0) (tup s1)" by (simp add: same_data_def)
qed



section \<open>The chain is a multi-version store\<close>

text \<open>
  The abstract store of one key: its versions, newest first, each with the id of the transaction that
  wrote it and the value, or \<open>None\<close> for a deletion. A read at \<open>t\<close> takes the first version not after \<open>t\<close>.
\<close>

type_synonym versions = "(u64 \<times> byte list option) list"

fun mv_read :: "versions \<Rightarrow> u64 \<Rightarrow> u64 \<times> byte list option" where
  "mv_read [] t = (MIN_TID, None)"
| "mv_read ((ver, v) # vs) t = (if ver \<le> t then (ver, v) else mv_read vs t)"

definition contents :: "dbtuple \<Rightarrow> byte list option" where
  "contents c = (if IsDeleting (hdr c) \<or> dsize c = 0 then None else Some (take (unat (dsize c)) (value_start c)))"

fun is_chain :: "theap \<Rightarrow> nat list \<Rightarrow> bool" where
  "is_chain H [] = False"
| "is_chain H [a] = (case cells H a of None \<Rightarrow> False | Some c \<Rightarrow> dnext c = None)"
| "is_chain H (a # b # as) =
     ((case cells H a of None \<Rightarrow> False | Some c \<Rightarrow> dnext c = Some b) \<and> is_chain H (b # as))"

definition cell_version :: "theap \<Rightarrow> nat \<Rightarrow> u64 \<times> byte list option" where
  "cell_version H a = (case cells H a of None \<Rightarrow> (MIN_TID, None) | Some c \<Rightarrow> (version c, contents c))"

definition vers :: "theap \<Rightarrow> nat list \<Rightarrow> versions" where
  "vers H as = map (cell_version H) as"

definition tuple_ok :: "dbtuple \<Rightarrow> bool" where
  "tuple_ok c \<longleftrightarrow> length (value_start c) = unat (alloc_size c) \<and> dsize c \<le> alloc_size c \<and>
     version c \<noteq> MAX_TID \<and> (IsDeleting (hdr c) \<or> dsize c \<noteq> 0)"

definition buf_ok :: "dbtuple \<Rightarrow> bool" where
  "buf_ok c \<longleftrightarrow> length (value_start c) = unat (alloc_size c) \<and> dsize c \<le> alloc_size c"

definition readable :: "bool \<Rightarrow> dbtuple \<Rightarrow> bool" where
  "readable allow_write_intent c \<longleftrightarrow>
     \<not> IsModifying (hdr c) \<and> (allow_write_intent \<or> \<not> IsWriteIntent (hdr c))"

definition chain_ok :: "theap \<Rightarrow> nat list \<Rightarrow> bool" where
  "chain_ok H as \<longleftrightarrow> is_chain H as \<and> distinct as \<and> (\<forall>a \<in> set as. a < brk H) \<and>
     (\<forall>a \<in> set as. pred_option tuple_ok (cells H a)) \<and> sorted_wrt (\<ge>) (map fst (vers H as))"

lemma is_chain_Cons:
  "is_chain H (a # as) \<longleftrightarrow>
     (\<exists>c. cells H a = Some c \<and> dnext c = (if as = [] then None else Some (hd as)) \<and>
          (as = [] \<or> is_chain H as))"
  by (cases as) (auto split: option.splits)

lemma vers_Cons: "vers H (a # as) = cell_version H a # vers H as"
  by (simp add: vers_def)

lemma read_here_contents:
  "read_here c = (case contents c of None \<Rightarrow> (READ_EMPTY, version c, [])
                  | Some v \<Rightarrow> (READ_RECORD, version c, v))"
  by (auto simp: read_here_def contents_def Let_def unat_eq_0)

lemma record_at_chain_refines:
  assumes "is_chain H as" "\<forall>a \<in> set as. pred_option (readable allow) (cells H a)"
  shows "record_at_chain H t allow (hd as) =
     Some (case mv_read (vers H as) t of (ver, None) \<Rightarrow> (READ_EMPTY, ver, [])
           | (ver, Some v) \<Rightarrow> (READ_RECORD, ver, v))"
  using assms
proof (induction as)
  case (Cons a as)
  then obtain c where c: "cells H a = Some c" "dnext c = (if as = [] then None else Some (hd as))"
    "as = [] \<or> is_chain H as" by (auto simp: is_chain_Cons)
  have r: "readable allow c" using Cons.prems(2) c(1) by simp
  have cv: "cell_version H a = (version c, contents c)" by (simp add: cell_version_def c(1))
  show ?case
  proof (cases "version c \<le> t \<or> as = []")
    case True
    then show ?thesis using r c cv
      by (subst record_at_chain.simps)
         (auto simp: vers_def readable_def is_not_behind_def read_here_contents MIN_TID_def split: option.splits)
  next
    case False
    then show ?thesis using r c cv Cons.IH Cons.prems(2)
      by (subst record_at_chain.simps) (auto simp: vers_def readable_def is_not_behind_def)
  qed
qed simp

text \<open>Among versions in order, a read returns the newest that is not after \<open>t\<close>.\<close>

lemma mv_read_newest:
  assumes "sorted_wrt (\<ge>) (map fst vs)" "(ver, v) \<in> set vs" "ver \<le> t"
  shows "ver \<le> fst (mv_read vs t)" "mv_read vs t \<in> set vs" "fst (mv_read vs t) \<le> t"
  using assms by (induction vs t rule: mv_read.induct) auto

section \<open>Allocation gives enough space\<close>

lemma alloc_space_bounds:
  assumes "unat needed \<le> 65535"
  shows "unat needed \<le> unat (alloc_space needed)" "unat (alloc_space needed) \<le> 65535"
    "unat (CheckBounds (alloc_space needed)) = unat (alloc_space needed)"
proof -
  have s: "unat (sizeof_dbtuple + needed) = 24 + unat needed"
    using assms by (subst unat_add_lem [THEN iffD1]) (simp_all add: sizeof_dbtuple_def)
  have r: "unat (round_up 4 (sizeof_dbtuple + needed)) = (24 + unat needed + 2 ^ 4 - 1) div 2 ^ 4 * 2 ^ 4"
    using assms by (subst unat_round_up) (simp_all add: s)
  then have ge: "24 + unat needed \<le> unat (round_up 4 (sizeof_dbtuple + needed))" by simp
  have m: "unat max_alloc_sz = 65559" by (simp add: max_alloc_sz_def sizeof_dbtuple_def)
  define k where "k = min (round_up 4 (sizeof_dbtuple + needed)) max_alloc_sz"
  have k: "24 + unat needed \<le> unat k" "unat k \<le> 65559"
    using ge m assms by (auto simp: k_def min_def word_le_nat_alt)
  then have "sizeof_dbtuple \<le> k" by (simp add: word_le_nat_alt sizeof_dbtuple_def)
  moreover have "alloc_space needed = k - sizeof_dbtuple" by (simp add: alloc_space_def k_def)
  ultimately have d: "unat (alloc_space needed) = unat k - 24"
    by (simp add: unat_sub sizeof_dbtuple_def)
  show a: "unat needed \<le> unat (alloc_space needed)" "unat (alloc_space needed) \<le> 65535"
    using k d by auto
  show "unat (CheckBounds (alloc_space needed)) = unat (alloc_space needed)"
    using a(2) by (simp add: CheckBounds_def unsigned_ucast_eq take_bit_nat_eq_self)
qed

lemma unat_CheckBounds: "unat s \<le> 65535 \<Longrightarrow> unat (CheckBounds s) = unat s"
  by (simp add: CheckBounds_def unsigned_ucast_eq take_bit_nat_eq_self)

lemma memcpy_into_Inr: "length src \<le> length buf \<Longrightarrow> memcpy_into buf src = Inr (src @ drop (length src) buf)"
  by (simp add: memcpy_into_def)

text \<open>A record allocated for a value of at most 65535 bytes has room for it.\<close>

lemma dbtuple_first_room:
  assumes "unat sz \<le> 65535"
  shows "unat sz \<le> length (value_start (dbtuple_first sz (alloc_space sz) lk))"
    "length (value_start (dbtuple_first sz (alloc_space sz) lk)) = unat (alloc_size (dbtuple_first sz (alloc_space sz) lk))"
    "unat (dsize (dbtuple_first sz (alloc_space sz) lk)) = unat sz"
  using alloc_space_bounds [OF assms] assms
  by (simp_all add: dbtuple_first_def new_buf_def unat_CheckBounds)

section \<open>Writing a new version\<close>

text \<open>A value a transaction may write: a deletion, or between 1 and 65535 bytes.\<close>

fun value_ok :: "byte list option \<Rightarrow> bool" where
  "value_ok None = True"
| "value_ok (Some bs) \<longleftrightarrow> 1 \<le> length bs \<and> length bs \<le> 65535"

fun value_size :: "byte list option \<Rightarrow> u64" where
  "value_size None = 0"
| "value_size (Some bs) = of_nat (length bs)"

lemma value_size_facts:
  assumes "value_ok v"
  shows "unat (value_size v) = (case v of None \<Rightarrow> 0 | Some bs \<Rightarrow> length bs)"
    "unat (value_size v) \<le> 65535" "value_size v = 0 \<longleftrightarrow> v = None"
proof -
  show u: "unat (value_size v) = (case v of None \<Rightarrow> 0 | Some bs \<Rightarrow> length bs)"
    using assms by (cases v) (simp_all add: unat_of_nat)
  show "unat (value_size v) \<le> 65535" unfolding u using assms by (cases v) simp_all
  show "value_size v = 0 \<longleftrightarrow> v = None"
    unfolding unat_eq_0 [symmetric] u using assms by (cases v) auto
qed

lemma do_write_ok:
  assumes "value_ok v" "unat (value_size v) \<le> length (value_start c)"
  shows "\<exists>q. do_write v c = Inr (c\<lparr>value_start := q\<rparr>) \<and> length q = length (value_start c) \<and>
    (\<forall>bs. v = Some bs \<longrightarrow> take (length bs) q = bs)"
proof (cases v)
  case None
  then show ?thesis by (intro exI [of _ "value_start c"]) (simp add: do_write_def)
next
  case (Some bs)
  then show ?thesis using assms value_size_facts [OF assms(1)]
    by (intro exI [of _ "bs @ drop (length bs) (value_start c)"])
       (simp add: do_write_def memcpy_into_def)
qed

text \<open>What a record holds after a value was written to it with its size and version set.\<close>

definition holds :: "dbtuple \<Rightarrow> u64 \<Rightarrow> byte list option \<Rightarrow> bool" where
  "holds c t v \<longleftrightarrow> version c = t \<and> contents c = v \<and> tuple_ok c"

lemma holdsI:
  assumes "value_ok v" "version c = t" "t \<noteq> MAX_TID" "length (value_start c) = unat (alloc_size c)"
    "unat (dsize c) = unat (value_size v)" "unat (value_size v) \<le> unat (alloc_size c)"
    "IsDeleting (hdr c) \<longleftrightarrow> v = None" "\<And>bs. v = Some bs \<Longrightarrow> take (length bs) (value_start c) = bs"
  shows "holds c t v"
proof -
  note z = value_size_facts [OF assms(1)]
  have d0: "dsize c = 0 \<longleftrightarrow> v = None"
    unfolding unat_eq_0 [symmetric] assms(5) using z(3) by (simp add: unat_eq_0)
  have "contents c = v"
  proof (cases v)
    case None
    then show ?thesis using assms(7) by (simp add: contents_def)
  next
    case (Some bs)
    then show ?thesis using assms(5,7,8) d0 z(1) by (simp add: contents_def)
  qed
  moreover have "tuple_ok c"
    using assms d0 by (auto simp: tuple_ok_def word_le_nat_alt)
  ultimately show ?thesis using assms(2) by (simp add: holds_def)
qed

lemma write_in_place_ok:
  assumes "value_ok v" "t \<noteq> MAX_TID" "length (value_start c) = unat (alloc_size c)"
    "unat (value_size v) \<le> unat (alloc_size c)" "\<not> IsDeleting (hdr c)"
  shows "\<exists>c'. write_in_place t v (value_size v) c = Inr c' \<and> holds c' t v \<and> dnext c' = dnext c \<and>
    IsModifying (hdr c') \<and> IsLocked (hdr c') = IsLocked (hdr c) \<and> IsLatest (hdr c') = IsLatest (hdr c) \<and>
    IsWriteIntent (hdr c') = IsWriteIntent (hdr c)"
proof -
  note z = value_size_facts [OF assms(1)]
  define m where "m = c\<lparr>hdr := hdr_mark_modifying (hdr c)\<rparr>"
  obtain q where q: "do_write v m = Inr (m\<lparr>value_start := q\<rparr>)" "length q = length (value_start c)"
    "\<And>bs. v = Some bs \<Longrightarrow> take (length bs) q = bs"
    using do_write_ok [OF assms(1), of m] assms(3,4) by (auto simp: m_def)
  define c' where "c' = m\<lparr>value_start := q, version := t, dsize := ucast (value_size v),
     hdr := (if value_size v = 0 then hdr_mark_deleting (hdr m) else hdr m)\<rparr>"
  have "write_in_place t v (value_size v) c = Inr c'"
    using q(1) by (simp add: write_in_place_def m_def [symmetric] c'_def Let_def)
  moreover have "holds c' t v"
  proof (rule holdsI [OF assms(1) _ assms(2)])
    show "unat (dsize c') = unat (value_size v)"
      using z(2) by (simp add: c'_def unsigned_ucast_eq take_bit_nat_eq_self)
  qed (use assms q z(3) in \<open>auto simp: c'_def m_def mark_flags\<close>)
  ultimately show ?thesis by (auto simp: c'_def m_def mark_flags)
qed

lemma bit_or_flags:
  "IsDeleting (HDR_LATEST_MASK OR (if b then HDR_DELETING_MASK else 0)) = b"
  "IsLatest (HDR_LATEST_MASK OR (if b then HDR_DELETING_MASK else 0))"
  "\<not> IsLocked (HDR_LATEST_MASK OR (if b then HDR_DELETING_MASK else 0))"
  "\<not> IsModifying (HDR_LATEST_MASK OR (if b then HDR_DELETING_MASK else 0))"
  "\<not> IsWriteIntent (HDR_LATEST_MASK OR (if b then HDR_DELETING_MASK else 0))"
  by (simp_all add: hdr_flags bit_or_iff bit_hdr_masks)

lemma write_replace_ok:
  assumes "cells H a = Some c" "a < brk H" "value_ok v"
  shows "\<exists>rt. write_replace t v old (value_size v) a forced H =
      Inr (\<lparr>ret_head = brk H, ret_rest = Some a, ret_forced_spill = forced\<rparr>,
           H\<lparr>cells := (cells H)(brk H \<mapsto> rt, a \<mapsto> c\<lparr>hdr := hdr_clear_latest (hdr c)\<rparr>), brk := Suc (brk H)\<rparr>) \<and>
    (t \<noteq> MAX_TID \<longrightarrow> holds rt t v) \<and> buf_ok rt \<and> dnext rt = Some a \<and> IsLatest (hdr rt) \<and> \<not> IsLocked (hdr rt) \<and> \<not> IsModifying (hdr rt) \<and>
    \<not> IsWriteIntent (hdr rt)"
proof -
  note z = value_size_facts [OF assms(3)]
  note sp = alloc_space_bounds [OF z(2)]
  define r where "r = \<lparr>hdr = HDR_LATEST_MASK OR (if value_size v = 0 then HDR_DELETING_MASK else 0),
     version = t, dsize = CheckBounds (value_size v), alloc_size = CheckBounds (alloc_space (value_size v)),
     dnext = Some a, value_start = new_buf (CheckBounds (alloc_space (value_size v)))\<rparr>"
  have len: "length (value_start r) = unat (alloc_space (value_size v))"
    using sp by (simp add: r_def new_buf_def)
  obtain q where q: "do_write v r = Inr (r\<lparr>value_start := q\<rparr>)" "length q = length (value_start r)"
    "\<And>bs. v = Some bs \<Longrightarrow> take (length bs) q = bs"
    using do_write_ok [OF assms(3), of r] sp(1) len by auto
  have "write_replace t v old (value_size v) a forced H =
      Inr (\<lparr>ret_head = brk H, ret_rest = Some a, ret_forced_spill = forced\<rparr>,
           H\<lparr>cells := (cells H)(brk H \<mapsto> r\<lparr>value_start := q\<rparr>, a \<mapsto> c\<lparr>hdr := hdr_clear_latest (hdr c)\<rparr>),
             brk := Suc (brk H)\<rparr>)"
    using assms(1,2) q(1)
    by (simp add: write_replace_def alloc_spill_def dbtuple_spill_def new_cell_def put_cell_def
        r_def [symmetric] fun_upd_twist)
  moreover have "holds (r\<lparr>value_start := q\<rparr>) t v" if "t \<noteq> MAX_TID"
    by (rule holdsI [OF assms(3) _ that])
       (use q len sp z in \<open>auto simp: r_def unat_CheckBounds bit_or_flags\<close>)
  moreover have "buf_ok (r\<lparr>value_start := q\<rparr>)"
    using q(2) len sp z by (simp add: r_def buf_ok_def unat_CheckBounds word_le_nat_alt)
  ultimately show ?thesis by (intro exI [of _ "r\<lparr>value_start := q\<rparr>"]) (simp add: r_def bit_or_flags)
qed

lemma dbtuple_copy_ok:
  assumes "buf_ok c" "\<not> IsDeleting (hdr c)"
  shows "\<exists>s. alloc_copy ver c False H =
      Inr (brk H, H\<lparr>cells := (cells H)(brk H \<mapsto> s), brk := Suc (brk H)\<rparr>) \<and>
    version s = ver \<and> contents s = contents c \<and> dnext s = dnext c \<and> buf_ok s \<and> (ver \<noteq> MAX_TID \<longrightarrow> dsize c \<noteq> 0 \<longrightarrow> tuple_ok s) \<and>
    \<not> IsLatest (hdr s) \<and> \<not> IsLocked (hdr s) \<and> \<not> IsModifying (hdr s) \<and> \<not> IsWriteIntent (hdr s)"
proof -
  have "unat (dsize c) < 2 ^ 16" using unsigned_less [of "dsize c"] by simp
  then have ds: "unat (dsize c) \<le> 65535" by simp
  have u: "unat (ucast (dsize c) :: u64) = unat (dsize c)"
    using ds by (simp add: unsigned_ucast_eq take_bit_nat_eq_self)
  have sp: "unat (dsize c) \<le> unat (CheckBounds (alloc_space (ucast (dsize c))))"
    using alloc_space_bounds [of "ucast (dsize c)"] ds u by simp
  have lt: "length (take (unat (dsize c)) (value_start c)) = unat (dsize c)"
    using assms(1) by (simp add: buf_ok_def word_le_nat_alt)
  let ?buf = "new_buf (CheckBounds (alloc_space (ucast (dsize c))))"
  define s where "s = \<lparr>hdr = 0, version = ver, dsize = dsize c,
    alloc_size = CheckBounds (alloc_space (ucast (dsize c))), dnext = dnext c,
    value_start = take (unat (dsize c)) (value_start c) @ drop (unat (dsize c)) ?buf\<rparr>"
  have "alloc_copy ver c False H = Inr (brk H, H\<lparr>cells := (cells H)(brk H \<mapsto> s), brk := Suc (brk H)\<rparr>)"
    using assms(2) sp lt
    by (simp add: alloc_copy_def dbtuple_copy_def memcpy_into_def new_buf_def new_cell_def Let_def s_def)
  moreover have "contents s = contents c"
    using assms lt by (simp add: contents_def s_def hdr_flags)
  moreover have b: "buf_ok s"
    using assms sp lt by (auto simp: buf_ok_def s_def new_buf_def word_le_nat_alt)
  moreover have "ver \<noteq> MAX_TID \<longrightarrow> dsize c \<noteq> 0 \<longrightarrow> tuple_ok s"
    using b by (auto simp: tuple_ok_def buf_ok_def s_def)
  ultimately show ?thesis by (intro exI [of _ s]) (simp add: s_def hdr_flags)
qed

lemma is_chain_cong: "(\<And>b. b \<in> set as \<Longrightarrow> cells H' b = cells H b) \<Longrightarrow> is_chain H' as = is_chain H as"
  by (induction H as rule: is_chain.induct) (auto split: option.splits)

lemma vers_cong: "(\<And>b. b \<in> set as \<Longrightarrow> cells H' b = cells H b) \<Longrightarrow> vers H' as = vers H as"
  by (simp add: vers_def cell_version_def)

lemma chain_ok_Cons:
  "chain_ok H (a # as) \<longleftrightarrow>
     (\<exists>c. cells H a = Some c \<and> dnext c = (if as = [] then None else Some (hd as)) \<and> tuple_ok c \<and>
        a \<notin> set as \<and> a < brk H \<and> (\<forall>x \<in> set (vers H as). fst x \<le> version c) \<and> (as = [] \<or> chain_ok H as))"
  by (auto simp: chain_ok_def is_chain_Cons vers_Cons cell_version_def vers_def)

lemma chain_ok_cong:
  assumes "chain_ok H as" "\<And>b. b \<in> set as \<Longrightarrow> cells H' b = cells H b" "brk H \<le> brk H'"
  shows "chain_ok H' as"
  using assms is_chain_cong [of as H' H] vers_cong [of as H' H] by (fastforce simp: chain_ok_def)

text \<open>
  A write adds the new version in front. The version it replaces goes away only when the protocol says
  it may be overwritten.
\<close>

definition overwrites :: "(u64 \<Rightarrow> u64 \<Rightarrow> bool) \<Rightarrow> dbtuple \<Rightarrow> u64 \<Rightarrow> byte list option \<Rightarrow> bool" where
  "overwrites can_overwrite c t v \<longleftrightarrow>
     can_overwrite (version c) t \<and> contents c \<noteq> None \<and> value_size v \<le> ucast (alloc_size c)"

lemma unat_ucast16: "unat (ucast (x :: u16) :: u64) = unat x"
proof -
  have "unat x < 2 ^ 16" using unsigned_less [of x] by simp
  then show ?thesis by (simp add: unsigned_ucast_eq take_bit_nat_eq_self)
qed

lemma write_record_cases:
  assumes "cells H a = Some c" "tuple_ok c" "value_ok v"
  shows "write_record_at co a t v H =
     (let fits = (value_size v \<le> ucast (alloc_size c)) in
      if overwrites co c t v then
        bind_res (write_in_place t v (value_size v) c)
          (\<lambda>c'. Inr (\<lparr>ret_head = a, ret_rest = None, ret_forced_spill = False\<rparr>, put_cell a c' H))
      else if fits \<and> contents c \<noteq> None then
        bind_res (alloc_copy (version c) c False H) (\<lambda>(spill, H1).
        bind_res (write_in_place t v (value_size v) (c\<lparr>dnext := Some spill\<rparr>)) (\<lambda>c'.
          Inr (\<lparr>ret_head = a, ret_rest = Some spill, ret_forced_spill = True\<rparr>, put_cell a c' H1)))
      else write_replace t v (if contents c = None then 0 else ucast (dsize c)) (value_size v) a
             (\<not> (co (version c) t \<and> contents c \<noteq> None)) H)"
proof -
  let ?old = "if IsDeleting (hdr c) then 0 else ucast (dsize c) :: u64"
  have n: "(case v of None \<Rightarrow> Inr 0
      | Some bs \<Rightarrow> bind_res (tuple_writer TUPLE_WRITER_COMPUTE_NEEDED bs (value_start c)) (\<lambda>(n, _). Inr n))
      = (Inr (value_size v) :: u64 res)" by (cases v) simp_all
  have "?old \<noteq> 0 \<longleftrightarrow> contents c \<noteq> None"
    using assms(2) by (auto simp: contents_def tuple_ok_def unat_eq_0 [symmetric] unat_ucast16)
  moreover have "?old = (if contents c = None then 0 else ucast (dsize c))"
    using assms(2) by (auto simp: contents_def tuple_ok_def)
  ultimately show ?thesis
    unfolding write_record_at_def assms(1) option.case(2) n bind_res.simps Let_def
    by (auto simp: overwrites_def)
qed

text \<open>The three ways a write changes the chain.\<close>

lemma chain_in_place:
  assumes "chain_ok H (a # as)" "cells H a = Some c" "holds c' t v" "dnext c' = dnext c" "version c \<le> t"
  shows "chain_ok (put_cell a c' H) (a # as)" "vers (put_cell a c' H) (a # as) = (t, v) # vers H as"
proof -
  have a: "a \<notin> set as" "\<forall>x \<in> set (vers H as). fst x \<le> version c" "as = [] \<or> chain_ok H as" "a < brk H"
    "dnext c = (if as = [] then None else Some (hd as))"
    using assms(1,2) by (auto simp: chain_ok_Cons)
  have cong: "b \<in> set as \<Longrightarrow> cells (put_cell a c' H) b = cells H b" for b
    using a(1) by (auto simp: put_cell_def)
  have v: "vers (put_cell a c' H) as = vers H as" by (rule vers_cong) (rule cong)
  have ok: "as = [] \<or> chain_ok (put_cell a c' H) as"
    using a(3) by (auto intro!: chain_ok_cong [of H as] simp: cong) (simp add: put_cell_def)
  show "chain_ok (put_cell a c' H) (a # as)"
    unfolding chain_ok_Cons v using a assms(3-5) ok
    by (auto simp: put_cell_def holds_def intro: order_trans)
  show "vers (put_cell a c' H) (a # as) = (t, v) # vers H as"
    unfolding vers_Cons v using assms(3) by (simp add: cell_version_def put_cell_def holds_def)
qed

lemma chain_two_cells:
  assumes "chain_ok H (a # as)" "cells H a = Some c" "version c \<le> t"
    "holds r t v" "dnext r = Some b" "cells H' h = Some r"
    "version c1 = version c" "contents c1 = contents c" "dnext c1 = dnext c" "tuple_ok c1"
    "cells H' b = Some c1" "brk H' = Suc (brk H)" "{h, b} = {a, brk H}" "h \<noteq> b"
    "\<And>x. x < brk H \<Longrightarrow> x \<noteq> a \<Longrightarrow> cells H' x = cells H x"
  shows "chain_ok H' (h # b # as)" "vers H' (h # b # as) = (t, v) # vers H (a # as)"
proof -
  have a: "a \<notin> set as" "\<forall>x \<in> set (vers H as). fst x \<le> version c" "as = [] \<or> chain_ok H as" "a < brk H"
    "dnext c = (if as = [] then None else Some (hd as))" "\<forall>x \<in> set as. x < brk H"
    using assms(1,2) by (auto simp: chain_ok_Cons) (auto simp: chain_ok_def)
  have hb: "h \<notin> set as" "b \<notin> set as" "h < brk H'" "b < brk H'"
    using assms(12,13) a(1,4,6) by (auto simp: doubleton_eq_iff)
  have cong: "x \<in> set as \<Longrightarrow> cells H' x = cells H x" for x
    using a(1,6) assms(15) by auto
  have v: "vers H' as = vers H as" by (rule vers_cong) (rule cong)
  have ok: "as = [] \<or> chain_ok H' as"
    using a(3) assms(12) by (auto intro!: chain_ok_cong [of H as] simp: cong)
  have va: "vers H' (b # as) = vers H (a # as)"
    using assms(2,7,8,11) v by (simp add: vers_Cons cell_version_def)
  have m: "\<forall>x \<in> set (vers H (a # as)). fst x \<le> t"
    using a(2) assms(2,3) by (auto simp: vers_Cons cell_version_def intro: order_trans)
  have oka: "chain_ok H' (b # as)"
    unfolding chain_ok_Cons [of H' b as] v using a assms(7-11) hb ok by auto
  show "chain_ok H' (h # b # as)"
    unfolding chain_ok_Cons [of H' h "b # as"] va using oka hb assms(4-6,14) m
    by (auto simp: holds_def)
  show "vers H' (h # b # as) = (t, v) # vers H (a # as)"
    unfolding vers_Cons [of H' h "b # as"] va using assms(4,6) by (simp add: cell_version_def holds_def)
qed

lemma write_record_refines:
  assumes ok: "chain_ok H (a # as)" and c: "cells H a = Some c"
    and v: "value_ok v" "t \<noteq> MAX_TID" "version c \<le> t"
  shows "\<exists>ret H' as'. write_record_at co a t v H = Inr (ret, H') \<and> chain_ok H' as' \<and> hd as' = ret_head ret \<and>
     vers H' as' = (t, v) # (if overwrites co c t v then vers H as else vers H (a # as)) \<and>
     (\<forall>x. x < brk H \<and> x \<noteq> a \<longrightarrow> cells H' x = cells H x) \<and> set as' \<subseteq> {a, brk H} \<union> set as"
proof -
  have k: "tuple_ok c" "a < brk H" using ok c by (auto simp: chain_ok_Cons)
  have len: "length (value_start c) = unat (alloc_size c)" "version c \<noteq> MAX_TID" using k(1) by (auto simp: tuple_ok_def)
  note cases = write_record_cases [OF c k(1) v(1), of co t]
  let ?fits = "value_size v \<le> ucast (alloc_size c)"
  have room: "unat (value_size v) \<le> unat (alloc_size c)" if ?fits
    using that by (simp add: word_le_nat_alt unat_ucast16)
  show ?thesis
  proof (cases "?fits \<and> contents c \<noteq> None")
    case True
    then have nd: "\<not> IsDeleting (hdr c)" by (auto simp: contents_def)
    show ?thesis
    proof (cases "overwrites co c t v")
      case ow: True
      obtain c' where c': "write_in_place t v (value_size v) c = Inr c'" "holds c' t v" "dnext c' = dnext c"
        using write_in_place_ok [OF v(1,2) len(1) room nd] True by blast
      show ?thesis
        using chain_in_place [OF ok c c'(2,3) v(3)] ow c'(1)
        by (intro exI [of _ "\<lparr>ret_head = a, ret_rest = None, ret_forced_spill = False\<rparr>"]
              exI [of _ "put_cell a c' H"] exI [of _ "a # as"])
           (auto simp: cases put_cell_def)
    next
      case ow: False
      obtain s where s: "alloc_copy (version c) c False H =
          Inr (brk H, H\<lparr>cells := (cells H)(brk H \<mapsto> s), brk := Suc (brk H)\<rparr>)"
        "version s = version c" "contents s = contents c" "dnext s = dnext c" "tuple_ok s"
        using dbtuple_copy_ok [OF _ nd, of "version c" H] len(2) k(1) nd by (fastforce simp: tuple_ok_def buf_ok_def)
      obtain c' where c': "write_in_place t v (value_size v) (c\<lparr>dnext := Some (brk H)\<rparr>) = Inr c'"
        "holds c' t v" "dnext c' = Some (brk H)"
        using write_in_place_ok [OF v(1,2), of "c\<lparr>dnext := Some (brk H)\<rparr>"] len(1) room nd True by auto
      let ?H' = "H\<lparr>cells := (cells H)(brk H \<mapsto> s, a \<mapsto> c'), brk := Suc (brk H)\<rparr>"
      have "chain_ok ?H' (a # brk H # as)" "vers ?H' (a # brk H # as) = (t, v) # vers H (a # as)"
        by (rule chain_two_cells [OF ok c v(3) c'(2,3) _ s(2-5)]; use k(2) in auto)+
      then show ?thesis using ow True s(1) c'(1)
        by (intro exI [of _ "\<lparr>ret_head = a, ret_rest = Some (brk H), ret_forced_spill = True\<rparr>"]
              exI [of _ ?H'] exI [of _ "a # brk H # as"])
           (auto simp: cases put_cell_def)
    qed
  next
    case False
    then have ow: "\<not> overwrites co c t v" by (auto simp: overwrites_def)
    let ?c1 = "c\<lparr>hdr := hdr_clear_latest (hdr c)\<rparr>"
    obtain rt where r: "write_replace t v (if contents c = None then 0 else ucast (dsize c)) (value_size v) a
          (\<not> (co (version c) t \<and> contents c \<noteq> None)) H =
        Inr (\<lparr>ret_head = brk H, ret_rest = Some a, ret_forced_spill = \<not> (co (version c) t \<and> contents c \<noteq> None)\<rparr>,
           H\<lparr>cells := (cells H)(brk H \<mapsto> rt, a \<mapsto> ?c1), brk := Suc (brk H)\<rparr>)"
      "holds rt t v" "dnext rt = Some a"
      using write_replace_ok [OF c k(2) v(1)] v(2) by blast
    let ?H' = "H\<lparr>cells := (cells H)(brk H \<mapsto> rt, a \<mapsto> ?c1), brk := Suc (brk H)\<rparr>"
    have c1: "version ?c1 = version c" "contents ?c1 = contents c" "dnext ?c1 = dnext c" "tuple_ok ?c1"
      using k(1) by (simp_all add: contents_def tuple_ok_def mark_flags)
    have "chain_ok ?H' (brk H # a # as)" "vers ?H' (brk H # a # as) = (t, v) # vers H (a # as)"
      by (rule chain_two_cells [OF ok c v(3) r(2,3) _ c1]; use k(2) in auto)+
    then show ?thesis using ow False r(1)
      by (intro exI [of _ "\<lparr>ret_head = brk H, ret_rest = Some a, ret_forced_spill = \<not> (co (version c) t \<and> contents c \<noteq> None)\<rparr>"]
            exI [of _ ?H'] exI [of _ "brk H # a # as"])
         (auto simp: cases)
  qed
qed

section \<open>The validation step\<close>

lemma try_writer_const:
  "try_writer_stable_version n (replicate (Suc m) h) =
     (if IsWriteIntent h \<and> n \<noteq> 0 then try_writer_stable_version (n - 1) (replicate m h)
      else Some (\<not> IsWriteIntent h, h, replicate m h))"
  by (cases n) auto

lemma try_writer_const_wi:
  "IsWriteIntent h \<Longrightarrow> n < m \<Longrightarrow> \<exists>r. try_writer_stable_version n (replicate m h) = Some (False, h, r)"
proof (induction n arbitrary: m)
  case 0
  then show ?case by (cases m) auto
next
  case (Suc n)
  then obtain m' where m: "m = Suc m'" "n < m'" by (cases m) auto
  show ?case using Suc.IH [OF Suc.prems(1) m(2)] Suc.prems(1)
    unfolding m(1) try_writer_const by simp
qed

lemma stable_is_latest_version_iff:
  "stable_is_latest_version c t \<longleftrightarrow> \<not> IsWriteIntent (hdr c) \<and> IsLatest (hdr c) \<and> version c \<le> t"
proof (cases "IsWriteIntent (hdr c)")
  case True
  then obtain r where "try_writer_stable_version 16 (replicate 18 (hdr c)) = Some (False, hdr c, r)"
    using try_writer_const_wi [of "hdr c" 16 18] by auto
  then show ?thesis using True by (simp add: stable_is_latest_version_def stable_is_latest_obs_def)
next
  case False
  have "try_writer_stable_version 16 (replicate (Suc 17) (hdr c)) = Some (True, hdr c, replicate 17 (hdr c))"
    unfolding try_writer_const using False by simp
  moreover have "replicate 17 (hdr c) = hdr c # replicate 16 (hdr c)" by (simp add: numeral_eq_Suc)
  ultimately show ?thesis using False
    by (simp add: stable_is_latest_version_def stable_is_latest_obs_def writer_check_version_def)
qed

end
