(* ===== verification/Silo_Tid.thy ===== *)
theory Silo_Tid
  imports Silo_Tuple
begin

unbundle bit_operations_syntax

text \<open>
  Transaction ids of Silo, \<^verbatim>\<open>src/silo/txn_proto2_impl.h\<close>: a core number, a sequence number and an epoch
  packed in 64 bits, the id chosen at commit, the id a read-only snapshot reads at, and the rule by
  which a version may be overwritten. The epoch is the tick of the ticker, a parameter. The theory shows
  that the packing is an order isomorphism, that a commit gets an id above everything it read and
  overwrites, and that overwriting never takes a version away from a snapshot.
\<close>

section \<open>Definitions\<close>

definition CoreBits :: nat where
  "CoreBits = 9"

definition NMaxCores :: u64 where
  "NMaxCores = push_bit CoreBits 1"

definition NBitsNumber :: nat where
  "NBitsNumber = 24"

definition CoreMask :: u64 where
  "CoreMask = NMaxCores - 1"

definition NumIdShift :: nat where
  "NumIdShift = CoreBits"

definition NumIdMask :: u64 where
  "NumIdMask = push_bit NumIdShift (push_bit NBitsNumber 1 - 1)"

definition EpochShift :: nat where
  "EpochShift = CoreBits + NBitsNumber"

definition EpochMask :: u64 where
  "EpochMask = push_bit EpochShift (- 1)"

definition CoreId :: "u64 \<Rightarrow> u64" where
  "CoreId v = v AND CoreMask"

definition NumId :: "u64 \<Rightarrow> u64" where
  "NumId v = drop_bit NumIdShift (v AND NumIdMask)"

definition EpochId :: "u64 \<Rightarrow> u64" where
  "EpochId v = drop_bit EpochShift (v AND EpochMask)"

definition MakeTid :: "u64 \<Rightarrow> u64 \<Rightarrow> u64 \<Rightarrow> u64" where
  "MakeTid core_id num_id epoch_id =
     core_id OR push_bit NumIdShift num_id OR push_bit EpochShift epoch_id"

definition ReadOnlyEpochMultiplier :: u64 where
  "ReadOnlyEpochMultiplier = 25"

definition to_read_only_tick :: "u64 \<Rightarrow> u64" where
  "to_read_only_tick epoch_tick = epoch_tick div ReadOnlyEpochMultiplier"

definition ComputeReadOnlyTid :: "u64 \<Rightarrow> u64" where
  "ComputeReadOnlyTid global_tick_ex =
     (let a = global_tick_ex div ReadOnlyEpochMultiplier;
          b = a * ReadOnlyEpochMultiplier
      in if b = 0 then MakeTid 0 0 0
         else MakeTid CoreMask (drop_bit NumIdShift NumIdMask) (b - 1))"

definition can_overwrite_record_tid :: "u64 \<Rightarrow> u64 \<Rightarrow> bool" where
  "can_overwrite_record_tid prev cur \<longleftrightarrow>
     to_read_only_tick (EpochId prev) = to_read_only_tick (EpochId cur) \<or> prev = 0"

definition can_read_tid :: "u64 \<Rightarrow> bool" where
  "can_read_tid t = True"

text \<open>
  The id of a commit on core \<open>my_core_id\<close> whose last id was \<open>last_commit_tid\<close>, in epoch \<open>commit_epoch\<close>: the
  ids read, and for each locked record whether it was inserted by this transaction and its version.
\<close>

fun max_read :: "u64 \<Rightarrow> u64 list \<Rightarrow> u64" where
  "max_read ret [] = ret"
| "max_read ret (t # ts) = max_read (if t > ret then t else ret) ts"

fun max_write :: "u64 \<Rightarrow> (bool \<times> u64) list \<Rightarrow> u64" where
  "max_write ret [] = ret"
| "max_write ret ((is_insert, t) # ts) =
     max_write (if \<not> is_insert \<and> t \<noteq> MAX_TID \<and> t > ret then t else ret) ts"

definition gen_commit_tid :: "u64 \<Rightarrow> u64 \<Rightarrow> u64 \<Rightarrow> u64 list \<Rightarrow> (bool \<times> u64) list \<Rightarrow> u64" where
  "gen_commit_tid my_core_id commit_epoch last_commit_tid reads writes =
     (let ret = last_commit_tid;
          ret = (if commit_epoch \<noteq> EpochId ret then MakeTid 0 0 commit_epoch else ret);
          ret = max_read ret reads;
          ret = max_write ret writes
      in MakeTid my_core_id (NumId ret + 1) commit_epoch)"

section \<open>The packing\<close>

lemmas tid_layout = CoreBits_def NMaxCores_def NBitsNumber_def CoreMask_def NumIdShift_def NumIdMask_def
  EpochShift_def EpochMask_def

lemma tid_masks: "CoreMask = mask 9" "NumIdMask = push_bit 9 (mask 24)" "EpochMask = push_bit 33 (- 1)"
  by (simp_all add: tid_layout mask_eq_exp_minus_1 push_bit_eq_mult)

lemma CoreId_take: "CoreId v = take_bit 9 v"
  by (simp add: CoreId_def tid_masks take_bit_eq_mask)

lemma NumId_take: "NumId v = take_bit 24 (drop_bit 9 v)"
  unfolding NumId_def tid_masks NumIdShift_def CoreBits_def
  by (rule bit_word_eqI)
     (simp only: bit_drop_bit_eq bit_and_iff bit_push_bit_iff bit_mask_iff bit_take_bit_iff comp_def possible_bit_word,
      auto)

lemma EpochId_drop: "EpochId v = drop_bit 33 v"
proof -
  have "EpochId v = drop_bit 33 (v AND push_bit 33 (- 1))"
    unfolding EpochId_def tid_masks by (simp add: EpochShift_def CoreBits_def NBitsNumber_def)
  also have "\<dots> = drop_bit 33 v"
    by (rule bit_word_eqI)
       (simp only: bit_drop_bit_eq bit_and_iff bit_push_bit_iff bit_minus_1_iff comp_def possible_bit_word,
        auto dest: bit_imp_le_length)
  finally show ?thesis .
qed

lemma unat_ids:
  "unat (CoreId v) = unat v mod 2 ^ 9" "unat (NumId v) = unat v div 2 ^ 9 mod 2 ^ 24"
  "unat (EpochId v) = unat v div 2 ^ 33"
  unfolding CoreId_take NumId_take EpochId_drop
  by (simp_all add: take_bit_eq_mod drop_bit_eq_div unat_mod unat_div)

lemma unat_tid_split:
  "unat v = unat (CoreId v) + 2 ^ 9 * (unat (NumId v) + 2 ^ 24 * unat (EpochId v))"
proof -
  have "unat v = unat v mod 2 ^ 9 + 2 ^ 9 * (unat v div 2 ^ 9)" by simp
  moreover have "unat v div 2 ^ 9 = unat v div 2 ^ 9 mod 2 ^ 24 + 2 ^ 24 * (unat v div 2 ^ 9 div 2 ^ 24)"
    by (simp only: mod_mult_div_eq)
  moreover have "unat v div 2 ^ 9 div 2 ^ 24 = unat v div 2 ^ 33" by (simp add: div_mult2_eq [symmetric])
  ultimately show ?thesis by (simp only: unat_ids)
qed

text \<open>The three fields of an id in range.\<close>

definition tid_fields_ok :: "u64 \<Rightarrow> u64 \<Rightarrow> u64 \<Rightarrow> bool" where
  "tid_fields_ok c n e \<longleftrightarrow> unat c < 2 ^ 9 \<and> unat n < 2 ^ 24 \<and> unat e < 2 ^ 31"

lemma MakeTid_sum:
  assumes "tid_fields_ok c n e"
  shows "MakeTid c n e = c + push_bit 9 n + push_bit 33 e"
    and "unat (MakeTid c n e) = unat c + 2 ^ 9 * (unat n + 2 ^ 24 * unat e)"
proof -
  have b: "bit c k \<Longrightarrow> k < 9" "bit n k \<Longrightarrow> k < 24" "bit e k \<Longrightarrow> k < 31" for k
  proof -
    have *: "bit w k \<Longrightarrow> unat w < 2 ^ m \<Longrightarrow> k < m" for w :: u64 and m
    proof -
      assume w: "bit w k" "unat w < 2 ^ m"
      have "bit (unat w) k" using w(1) by (simp add: bit_unsigned_iff)
      moreover have "take_bit m (unat w) = unat w" using w(2) by (simp add: take_bit_nat_eq_self)
      ultimately show "k < m" by (metis bit_take_bit_iff)
    qed
    show "bit c k \<Longrightarrow> k < 9" "bit n k \<Longrightarrow> k < 24" "bit e k \<Longrightarrow> k < 31"
      using * assms by (auto simp: tid_fields_ok_def)
  qed
  have dj: "c AND push_bit 9 n = 0" "(c OR push_bit 9 n) AND push_bit 33 e = 0"
    by (rule bit_word_eqI; use b in \<open>fastforce simp: bit_and_iff bit_or_iff bit_push_bit_iff\<close>)+
  from dj have "c OR push_bit 9 n = c + push_bit 9 n"
    "(c OR push_bit 9 n) OR push_bit 33 e = (c OR push_bit 9 n) + push_bit 33 e"
    by (simp_all add: disjunctive_add_eq_or)
  then show s: "MakeTid c n e = c + push_bit 9 n + push_bit 33 e"
    by (simp add: MakeTid_def NumIdShift_def EpochShift_def CoreBits_def NBitsNumber_def or.assoc [symmetric])
  have f: "unat c < 2 ^ 9" "unat n < 2 ^ 24" "unat e < 2 ^ 31" using assms by (auto simp: tid_fields_ok_def)
  define m where "m = unat c + 2 ^ 9 * (unat n + 2 ^ 24 * unat e)"
  have "m < 2 ^ 64" unfolding m_def using f by simp
  moreover have "MakeTid c n e = of_nat m"
    unfolding s m_def push_bit_eq_mult by (simp add: algebra_simps)
  ultimately show "unat (MakeTid c n e) = unat c + 2 ^ 9 * (unat n + 2 ^ 24 * unat e)"
    by (simp add: unat_of_nat) (simp add: m_def)
qed

lemma MakeTid_ids:
  assumes "tid_fields_ok c n e"
  shows "CoreId (MakeTid c n e) = c" "NumId (MakeTid c n e) = n" "EpochId (MakeTid c n e) = e"
proof -
  have f: "unat c < 2 ^ 9" "unat n < 2 ^ 24" "unat e < 2 ^ 31" using assms by (auto simp: tid_fields_ok_def)
  note u = MakeTid_sum(2) [OF assms]
  show "CoreId (MakeTid c n e) = c"
    by (rule word_unat_eq_iff [THEN iffD2]) (use f(1) in \<open>simp only: unat_ids(1) u mod_mult_self2 mod_less\<close>)
  have d: "unat (MakeTid c n e) div 2 ^ 9 = unat n + 2 ^ 24 * unat e" using f(1) by (simp add: u)
  show "NumId (MakeTid c n e) = n"
    by (rule word_unat_eq_iff [THEN iffD2]) (use f(2) in \<open>simp only: unat_ids(2) d mod_mult_self2 mod_less\<close>)
  have "unat (MakeTid c n e) div 2 ^ 33 = (unat n + 2 ^ 24 * unat e) div 2 ^ 24"
    unfolding d [symmetric] by (simp add: div_mult2_eq [symmetric])
  then show "EpochId (MakeTid c n e) = e"
    by (intro word_unat_eq_iff [THEN iffD2]) (use f(2) in \<open>simp add: unat_ids(3)\<close>)
qed

text \<open>Ids compare by epoch, then sequence number, then core.\<close>

lemma tid_less_iff:
  "v < w \<longleftrightarrow> EpochId v < EpochId w \<or> EpochId v = EpochId w \<and>
     (NumId v < NumId w \<or> NumId v = NumId w \<and> CoreId v < CoreId w)"
proof -
  define c1 n1 e1 c2 n2 e2 where d: "c1 = unat (CoreId v)" "n1 = unat (NumId v)" "e1 = unat (EpochId v)"
    "c2 = unat (CoreId w)" "n2 = unat (NumId w)" "e2 = unat (EpochId w)"
  have b: "c1 < 2 ^ 9" "n1 < 2 ^ 24" "c2 < 2 ^ 9" "n2 < 2 ^ 24" by (simp_all add: d unat_ids)
  have lex: "x + k * y < x' + k * y' \<longleftrightarrow> y < y' \<or> y = y' \<and> x < x'" if "x < k" "x' < k" for x x' y y' k :: nat
  proof (cases y y' rule: linorder_cases)
    case less
    then have "k * Suc y \<le> k * y'" by (intro mult_le_mono2) simp
    then show ?thesis using that less by simp
  next
    case greater
    then have "k * Suc y' \<le> k * y" by (intro mult_le_mono2) simp
    then show ?thesis using that greater by simp
  qed simp
  have "v < w \<longleftrightarrow> c1 + 2 ^ 9 * (n1 + 2 ^ 24 * e1) < c2 + 2 ^ 9 * (n2 + 2 ^ 24 * e2)"
    unfolding d word_less_nat_alt by (simp only: unat_tid_split [of v, symmetric] unat_tid_split [of w, symmetric])
  also have "\<dots> \<longleftrightarrow> n1 + 2 ^ 24 * e1 < n2 + 2 ^ 24 * e2 \<or> n1 + 2 ^ 24 * e1 = n2 + 2 ^ 24 * e2 \<and> c1 < c2"
    by (rule lex [OF b(1,3)])
  also have "n1 + 2 ^ 24 * e1 < n2 + 2 ^ 24 * e2 \<longleftrightarrow> e1 < e2 \<or> e1 = e2 \<and> n1 < n2"
    by (rule lex [OF b(2,4)])
  also have "n1 + 2 ^ 24 * e1 = n2 + 2 ^ 24 * e2 \<longleftrightarrow> e1 = e2 \<and> n1 = n2"
    using lex [OF b(2,4), of e1 e2] lex [OF b(4,2), of e2 e1] by (metis linorder_neqE_nat less_irrefl)
  finally show ?thesis
    unfolding d word_less_nat_alt word_unat_eq_iff by blast
qed

section \<open>The commit id\<close>

lemma max_read_base: "ret \<le> max_read ret ts"
proof (induction ts arbitrary: ret)
  case (Cons t ts)
  show ?case using Cons.IH [of t] Cons.IH [of ret] by (cases "ret < t") (auto dest: less_imp_le intro: order_trans)
qed simp

lemma max_read_ge: "t \<in> set ts \<Longrightarrow> t \<le> max_read ret ts"
proof (induction ts arbitrary: ret)
  case (Cons x xs)
  show ?case
  proof (cases "t \<in> set xs")
    case True
    then show ?thesis using Cons.IH by simp
  next
    case False
    then have "t = x" using Cons.prems by simp
    then show ?thesis using max_read_base [of x xs] max_read_base [of ret xs] by auto
  qed
qed simp

lemma max_read_cases: "max_read ret ts = ret \<or> max_read ret ts \<in> set ts"
proof (induction ts arbitrary: ret)
  case (Cons t ts)
  show ?case using Cons.IH [of t] Cons.IH [of ret] by auto
qed simp

lemma max_write_base: "ret \<le> max_write ret ts"
proof (induction ts arbitrary: ret)
  case (Cons p ts)
  obtain i t where "p = (i, t)" by (cases p)
  then show ?case using Cons.IH [of t] Cons.IH [of ret] by (auto dest: less_imp_le intro: order_trans)
qed simp

lemma max_write_ge: "(False, t) \<in> set ts \<Longrightarrow> t \<noteq> MAX_TID \<Longrightarrow> t \<le> max_write ret ts"
proof (induction ts arbitrary: ret)
  case (Cons p ts)
  obtain i x where p: "p = (i, x)" by (cases p)
  show ?case
  proof (cases "(False, t) \<in> set ts")
    case True
    then show ?thesis using Cons.IH Cons.prems(2) by (simp add: p)
  next
    case False
    then have "p = (False, t)" using Cons.prems by auto
    then show ?thesis using max_write_base [of t ts] max_write_base [of ret ts] Cons.prems(2) by auto
  qed
qed simp

lemma max_write_cases:
  "max_write ret ts = ret \<or> (\<exists>t. (False, t) \<in> set ts \<and> t \<noteq> MAX_TID \<and> max_write ret ts = t)"
proof (induction ts arbitrary: ret)
  case (Cons p ts)
  obtain i x where p: "p = (i, x)" by (cases p)
  show ?case using Cons.IH [of x] Cons.IH [of ret] by (auto simp: p)
qed simp

text \<open>
  What the callers provide: a core number below 512, an epoch that no id seen so far is ahead of, and a
  sequence number with room for one more.
\<close>

definition commit_inputs_ok :: "u64 \<Rightarrow> u64 \<Rightarrow> u64 \<Rightarrow> u64 list \<Rightarrow> (bool \<times> u64) list \<Rightarrow> bool" where
  "commit_inputs_ok core epoch lst reads writes \<longleftrightarrow>
     unat core < 2 ^ 9 \<and> unat epoch < 2 ^ 30 \<and>
     (\<forall>t \<in> set (lst # reads @ map snd (filter (\<lambda>(ins, t). \<not> ins \<and> t \<noteq> MAX_TID) writes)).
        EpochId t \<le> epoch \<and> (EpochId t = epoch \<longrightarrow> unat (NumId t) < 2 ^ 24 - 1))"

lemma gen_commit_tid_above:
  assumes "commit_inputs_ok core epoch lst reads writes"
  defines "tid \<equiv> gen_commit_tid core epoch lst reads writes"
  shows "lst < tid" "t \<in> set reads \<Longrightarrow> t < tid" "(False, t) \<in> set writes \<Longrightarrow> t \<noteq> MAX_TID \<Longrightarrow> t < tid"
    "EpochId tid = epoch" "CoreId tid = core" "tid \<noteq> 0" "tid \<noteq> MAX_TID"
    "unat (NumId tid) \<le> 2 ^ 24 - 1"
proof -
  define r0 where "r0 = (if epoch \<noteq> EpochId lst then MakeTid 0 0 epoch else lst)"
  define r where "r = max_write (max_read r0 reads) writes"
  have a: "unat core < 2 ^ 9" "unat epoch < 2 ^ 30"
    "\<And>t. t \<in> set (lst # reads @ map snd (filter (\<lambda>(ins, t). \<not> ins \<and> t \<noteq> MAX_TID) writes)) \<Longrightarrow>
       EpochId t \<le> epoch \<and> (EpochId t = epoch \<longrightarrow> unat (NumId t) < 2 ^ 24 - 1)"
    using assms(1) unfolding commit_inputs_ok_def by blast+
  have z: "tid_fields_ok 0 0 epoch" using a(2) by (simp add: tid_fields_ok_def)
  note mz = MakeTid_ids [OF z]
  have r0: "EpochId r0 = epoch" "unat (NumId r0) < 2 ^ 24 - 1"
    using mz a(3) [of lst] by (auto simp: r0_def)
  have lst: "lst \<le> r0"
  proof (cases "epoch = EpochId lst")
    case False
    then have "EpochId lst < epoch" using a(3) [of lst] by auto
    then have "lst < MakeTid 0 0 epoch" by (subst tid_less_iff) (simp add: mz)
    then show ?thesis using False by (simp add: r0_def)
  qed (simp add: r0_def)
  have le: "r0 \<le> r" using max_read_base max_write_base unfolding r_def by (blast intro: order_trans)
  have reads: "t \<in> set reads \<Longrightarrow> t \<le> r" for t
    using max_read_ge max_write_base unfolding r_def by (blast intro: order_trans)
  have writes: "(False, t) \<in> set writes \<Longrightarrow> t \<noteq> MAX_TID \<Longrightarrow> t \<le> r" for t
    using max_write_ge unfolding r_def by blast
  have r: "EpochId r = epoch \<and> unat (NumId r) < 2 ^ 24 - 1"
  proof -
    have ge: "epoch \<le> EpochId r"
    proof (rule ccontr)
      assume "\<not> epoch \<le> EpochId r"
      then have "r < r0" by (subst tid_less_iff) (simp add: r0 not_le)
      then show False using le by simp
    qed
    consider "r = r0" | "r \<in> set reads" | t where "(False, t) \<in> set writes" "t \<noteq> MAX_TID" "r = t"
      using max_write_cases [of "max_read r0 reads" writes] max_read_cases [of r0 reads] unfolding r_def by metis
    then show ?thesis
    proof cases
      case 1 then show ?thesis using r0 by simp
    next
      case 2 then show ?thesis using a(3) [of r] ge by auto
    next
      case 3
      then have "r \<in> set (lst # reads @ map snd (filter (\<lambda>(ins, t). \<not> ins \<and> t \<noteq> MAX_TID) writes))" by force
      then show ?thesis using a(3) [of r] ge by auto
    qed
  qed
  have n: "unat (NumId r + 1) = unat (NumId r) + 1"
    using r by (subst unat_add_lem [THEN iffD1]) simp_all
  have ok: "tid_fields_ok core (NumId r + 1) epoch" using a r n by (simp add: tid_fields_ok_def)
  have tid: "tid = MakeTid core (NumId r + 1) epoch"
    by (simp add: tid_def gen_commit_tid_def Let_def r_def r0_def)
  note m = MakeTid_ids [OF ok]
  show e: "EpochId tid = epoch" "CoreId tid = core" by (simp_all add: tid m)
  have lt: "r < tid"
    by (subst tid_less_iff) (use r n in \<open>simp add: tid m word_less_nat_alt\<close>)
  then show "lst < tid" "t \<in> set reads \<Longrightarrow> t < tid" "(False, t) \<in> set writes \<Longrightarrow> t \<noteq> MAX_TID \<Longrightarrow> t < tid"
    using lst le reads writes by (meson order_le_less_trans)+
  show "tid \<noteq> 0" using lt by (metis not_less_iff_gr_or_eq word_zero_le not_less)
  have "unat (EpochId (- 1 :: u64)) = 2 ^ 31 - 1"
    by (simp add: unat_ids(3) unsigned_minus_1_eq_mask mask_eq_exp_minus_1)
  then show "tid \<noteq> MAX_TID" using e(1) a(2) by (auto simp: MAX_TID_def)
  show "unat (NumId tid) \<le> 2 ^ 24 - 1" using r n by (simp add: tid m)
qed

section \<open>Snapshots\<close>

text \<open>A snapshot reads exactly the ids of the read-only ticks that are over.\<close>

lemma ComputeReadOnlyTid_le_iff:
  assumes "unat g < 2 ^ 31" "t \<noteq> 0"
  shows "t \<le> ComputeReadOnlyTid g \<longleftrightarrow> to_read_only_tick (EpochId t) < to_read_only_tick g"
proof -
  define a where "a = unat g div 25"
  have ua: "unat (to_read_only_tick g) = a"
    by (simp add: to_read_only_tick_def ReadOnlyEpochMultiplier_def a_def unat_div)
  have "a * 25 \<le> unat g" by (simp add: a_def)
  then have bnd: "a * 25 < 2 ^ 31" using assms(1) by simp
  have b: "unat (to_read_only_tick g * ReadOnlyEpochMultiplier) = a * 25"
    using bnd by (simp add: unat_word_ariths ua ReadOnlyEpochMultiplier_def)
  have tt: "unat (to_read_only_tick (EpochId t)) = unat (EpochId t) div 25"
    by (simp add: to_read_only_tick_def ReadOnlyEpochMultiplier_def unat_div)
  show ?thesis
  proof (cases "a = 0")
    case True
    then have "to_read_only_tick g * ReadOnlyEpochMultiplier = 0" using b by (simp add: unat_eq_0)
    then have "ComputeReadOnlyTid g = 0"
      by (simp add: ComputeReadOnlyTid_def to_read_only_tick_def Let_def MakeTid_def)
    then show ?thesis using True ua assms(2) by (simp add: word_less_nat_alt)
  next
    case False
    let ?b = "to_read_only_tick g * ReadOnlyEpochMultiplier"
    have nz: "?b \<noteq> 0" using b False by (metis mult_is_0 unat_0 zero_neq_numeral)
    then have "1 \<le> ?b" by (simp add: word_le_nat_alt unat_gt_0 Suc_le_eq)
    then have b1: "unat (?b - 1) = a * 25 - 1" by (simp add: unat_sub b)
    have m: "drop_bit NumIdShift NumIdMask = mask 24"
      unfolding tid_masks NumIdShift_def CoreBits_def
      by (rule bit_word_eqI) (simp only: bit_drop_bit_eq bit_push_bit_iff bit_mask_iff comp_def possible_bit_word, auto)
    have mm: "unat (mask 9 :: u64) = 2 ^ 9 - 1" "unat (mask 24 :: u64) = 2 ^ 24 - 1"
      by (simp_all add: mask_eq_exp_minus_1)
    have c: "ComputeReadOnlyTid g = MakeTid (mask 9) (mask 24) (?b - 1)"
      using nz by (simp add: ComputeReadOnlyTid_def to_read_only_tick_def Let_def m tid_masks(1))
    have ok: "tid_fields_ok (mask 9) (mask 24) (?b - 1)"
      unfolding tid_fields_ok_def mm b1 using bnd by simp
    note ids = MakeTid_ids [OF ok]
    have "\<not> ComputeReadOnlyTid g < t \<longleftrightarrow> EpochId t \<le> ?b - 1"
    proof -
      have "\<not> mask 24 < NumId t" "\<not> mask 9 < CoreId t"
        by (simp_all add: not_less word_le_nat_alt mm unat_ids)
      then show ?thesis unfolding c by (subst tid_less_iff) (auto simp: ids not_less le_less)
    qed
    also have "\<dots> \<longleftrightarrow> unat (EpochId t) < a * 25" using False by (simp add: word_le_nat_alt b1) linarith
    also have "\<dots> \<longleftrightarrow> unat (EpochId t) div 25 < a" by (simp add: div_less_iff_less_mult)
    finally have "t \<le> ComputeReadOnlyTid g \<longleftrightarrow> unat (EpochId t) div 25 < a" by (simp only: not_less)
    then show ?thesis by (simp add: word_less_nat_alt tt ua)
  qed
qed

text \<open>
  Overwriting stays within a read-only tick, so that a snapshot sees the old id exactly when it sees the new
  one.
\<close>

lemma can_overwrite_same_side:
  assumes "can_overwrite_record_tid prev cur" "prev \<noteq> 0" "cur \<noteq> 0" "unat g < 2 ^ 31"
  shows "prev \<le> ComputeReadOnlyTid g \<longleftrightarrow> cur \<le> ComputeReadOnlyTid g"
  using assms by (simp add: ComputeReadOnlyTid_le_iff can_overwrite_record_tid_def)

lemma ids_in_range: "tid_fields_ok (CoreId v) (NumId v) (EpochId v)"
proof -
  have "unat v < 2 ^ 64" using unsigned_less [of v] by simp
  then show ?thesis by (simp add: tid_fields_ok_def unat_ids div_less_iff_less_mult)
qed

lemma tid_eqI: "CoreId v = CoreId w \<Longrightarrow> NumId v = NumId w \<Longrightarrow> EpochId v = EpochId w \<Longrightarrow> v = w"
  using tid_less_iff [of v w] tid_less_iff [of w v] less_linear [of v w] by auto

text \<open>When the sequence number is used up the next id is not above the last one.\<close>

lemma sequence_number_overflow:
  "gen_commit_tid 3 1 (MakeTid 3 (2 ^ 24 - 1) 1) [] [] < MakeTid 3 (2 ^ 24 - 1) 1"
  by (simp add: gen_commit_tid_def MakeTid_def EpochId_def NumId_def tid_layout Let_def)

text \<open>
  C35. A commit at \<open>t\<close> over a chain of versions succeeds, whichever of the three ways the writer takes: whoever reads at
  \<open>t\<close> or later finds the new value, and every snapshot from before \<open>t\<close> reads what it read before, whether or not the
  old version was overwritten in place.
\<close>

theorem write_record_snapshot:
  assumes "chain_ok H (a # as)" "cells H a = Some c" "value_ok v" "t \<noteq> MAX_TID" "version c \<le> t"
    "version c \<noteq> 0"
  shows "\<exists>ret H' as'. write_record_at can_overwrite_record_tid a t v H = Inr (ret, H') \<and>
     chain_ok H' as' \<and> hd as' = ret_head ret \<and>
     (\<forall>u. t \<le> u \<longrightarrow> mv_read (vers H' as') u = (t, v)) \<and>
     (\<forall>g. unat g < 2 ^ 31 \<longrightarrow> \<not> t \<le> ComputeReadOnlyTid g \<longrightarrow>
        mv_read (vers H' as') (ComputeReadOnlyTid g) = mv_read (vers H (a # as)) (ComputeReadOnlyTid g))"
proof -
  obtain ret H' as' where w: "write_record_at can_overwrite_record_tid a t v H = Inr (ret, H')"
    "chain_ok H' as'" "hd as' = ret_head ret"
    "vers H' as' = (t, v) # (if overwrites can_overwrite_record_tid c t v then vers H as else vers H (a # as))"
    using write_record_refines [OF assms(1-5), of can_overwrite_record_tid] by blast
  have h: "vers H (a # as) = (version c, contents c) # vers H as"
    by (simp add: vers_Cons cell_version_def assms(2))
  have t0: "t \<noteq> 0" using assms(5,6) by (metis order_antisym word_zero_le)
  have "mv_read (vers H' as') (ComputeReadOnlyTid g) = mv_read (vers H (a # as)) (ComputeReadOnlyTid g)"
    if "unat g < 2 ^ 31" "\<not> t \<le> ComputeReadOnlyTid g" for g
  proof (cases "overwrites can_overwrite_record_tid c t v")
    case True
    then have "can_overwrite_record_tid (version c) t" by (simp add: overwrites_def)
    then have "\<not> version c \<le> ComputeReadOnlyTid g"
      using can_overwrite_same_side [OF _ assms(6) t0 that(1)] that(2) by blast
    then show ?thesis using True that(2) by (simp add: w(4) h)
  qed (use that(2) in \<open>simp add: w(4)\<close>)
  then show ?thesis using w by (intro exI [of _ ret] exI [of _ H'] exI [of _ as']) simp
qed

definition demo_rec :: dbtuple where
  "demo_rec = \<lparr>hdr = HDR_LATEST_MASK OR HDR_LOCKED_MASK OR HDR_WRITE_INTENT_MASK, version = MakeTid 1 7 30, dsize = 2, alloc_size = 4,
     dnext = None, value_start = [1, 2, 0, 0]\<rparr>"

lemma demo_rec_facts: "\<not> IsDeleting (hdr demo_rec)" "MakeTid 2 1 60 \<noteq> MAX_TID" "MakeTid 1 7 30 \<noteq> MAX_TID"
  "MakeTid 1 7 30 \<le> MakeTid 2 1 60" "MakeTid 1 7 30 \<noteq> 0"
  by (simp_all add: demo_rec_def hdr_flags bit_or_iff bit_hdr_masks MakeTid_def tid_layout MAX_TID_def)

theorem write_record_snapshot_witness:
  "\<exists>ret H' as'. write_record_at can_overwrite_record_tid 0 (MakeTid 2 1 60) (Some [9]) \<lparr>cells = [0 \<mapsto> demo_rec], brk = 1\<rparr> = Inr (ret, H') \<and>
     mv_read (vers H' as') (MakeTid 2 1 60) = (MakeTid 2 1 60, Some [9]) \<and>
     mv_read (vers H' as') (ComputeReadOnlyTid 70) = (MakeTid 1 7 30, Some [1, 2])"
proof -
  let ?H = "\<lparr>cells = [0 \<mapsto> demo_rec], brk = 1\<rparr>"
  have c: "chain_ok ?H [0]" "value_ok (Some [9])" "version demo_rec = MakeTid 1 7 30"
    using demo_rec_facts by (simp_all add: chain_ok_Cons tuple_ok_def vers_def) (simp_all add: demo_rec_def)
  have s: "\<not> MakeTid 2 1 60 \<le> ComputeReadOnlyTid 70" "unat (70 :: u64) < 2 ^ 31" "MakeTid 1 7 30 \<le> ComputeReadOnlyTid 70"
    by (simp_all add: ComputeReadOnlyTid_def Let_def MakeTid_def tid_layout ReadOnlyEpochMultiplier_def)
  have v: "mv_read (vers ?H [0]) (ComputeReadOnlyTid 70) = (MakeTid 1 7 30, Some [1, 2])"
    using s(3) demo_rec_facts(1) c(3) by (simp add: vers_def cell_version_def contents_def) (simp add: demo_rec_def)
  show ?thesis
    using write_record_snapshot [where H = ?H and a = 0 and as = "[]" and c = demo_rec and v = "Some [9]" and t = "MakeTid 2 1 60"]
      c demo_rec_facts s(1,2) v by fastforce
qed

section \<open>Commit ids\<close>



end
