(* ===== verification/Silo_Txn.thy ===== *)
theory Silo_Txn
  imports Silo_Tid "HOL-Library.Product_Lexorder"
begin

unbundle bit_operations_syntax

text \<open>
  Transactions of Silo, \<^verbatim>\<open>src/silo/txn.h\<close>, \<^verbatim>\<open>src/silo/txn_impl.h\<close>, \<^verbatim>\<open>src/silo/base_txn_btree.h\<close> and the
  protocol hooks of \<^verbatim>\<open>src/silo/txn_proto2_impl.h\<close>: the read, write and absent sets, the reads and puts that
  fill them, commit and abort, run by one thread without interference. The concurrent B-tree is Masstree, a
  submodule that is not part of the repository: its operations are the parameter \<open>btree_ops\<close>. Logging is
  off (\<open>g_persist\<close> is false unless the benchmark asks for it), garbage collection and snapshots are on. The theory
  shows what commit and abort leave behind.
\<close>

section \<open>State\<close>

datatype txn_state = TXN_EMBRYO | TXN_ACTIVE | TXN_COMMITED | TXN_ABRT

datatype abort_reason =
    ABORT_REASON_NONE
  | ABORT_REASON_USER
  | ABORT_REASON_UNSTABLE_READ
  | ABORT_REASON_FUTURE_TID_READ
  | ABORT_REASON_NODE_SCAN_WRITE_VERSION_CHANGED
  | ABORT_REASON_NODE_SCAN_READ_VERSION_CHANGED
  | ABORT_REASON_WRITE_NODE_INTERFERENCE
  | ABORT_REASON_INSERT_NODE_INTERFERENCE
  | ABORT_REASON_READ_NODE_INTEREFERENCE
  | ABORT_REASON_READ_ABSENCE_INTEREFERENCE

definition TXN_FLAG_READ_ONLY :: u64 where
  "TXN_FLAG_READ_ONLY = 2"

record write_record_t =
  w_tuple :: nat
  w_key :: "byte list"
  w_value :: "byte list option"
  w_btr :: nat
  w_insert :: bool
  w_dowrite :: bool

record dbtuple_write_info =
  i_tuple :: nat
  i_insert :: bool
  i_locked :: bool
  i_pos :: nat

text \<open>
  A transaction object. A B-tree node is named by the tree and its number in the tree; the entry pointer of a
  write info is the position of the entry in the write set.
\<close>

record txn =
  t_state :: txn_state
  t_reason :: abort_reason
  t_flags :: u64
  read_set :: "(nat \<times> u64) list"
  write_set :: "write_record_t list"
  absent_set :: "((nat \<times> nat) \<times> u64) list"
  last_consistent_tid :: u64
  commit_epoch :: u64

text \<open>
  The operations of the concurrent B-tree (\<^verbatim>\<open>src/silo/masstree_btree.h\<close> documents them): a search returns the value if the
  key is there, and the leaf with its version; \<open>insert_if_absent\<close> returns the leaf with its versions before and
  after; \<open>insert\<close> and \<open>remove\<close> return the value that was there.
\<close>

record 't btree_ops =
  bt_search :: "'t \<Rightarrow> byte list \<Rightarrow> nat option \<times> nat \<times> u64"
  bt_insert_if_absent :: "'t \<Rightarrow> byte list \<Rightarrow> nat \<Rightarrow> ('t \<times> nat \<times> u64 \<times> u64) option"
  bt_insert :: "'t \<Rightarrow> byte list \<Rightarrow> nat \<Rightarrow> 't \<times> nat option"
  bt_remove :: "'t \<Rightarrow> byte list \<Rightarrow> ('t \<times> nat) option"
  bt_version :: "'t \<Rightarrow> nat \<Rightarrow> u64"

text \<open>
  An entry of the garbage queue with its read-only tick: a version that left the head of its chain, or a deleted
  key, which is kept in the tuple's own buffer when it fits.
\<close>

record delete_entry =
  de_tuple :: nat
  de_key :: "byte list option option"
  de_btr :: "nat option"

record 't world =
  heap :: theap
  trees :: "nat \<Rightarrow> 't"
  gc_queue :: "(delete_entry \<times> u64) list"
  last_commit_tid :: u64

text \<open>
  A call ends with a value, spins on a lock that this thread alone will never see released, fails an
  assertion or runs into undefined behaviour.
\<close>

datatype 'a run = Spins | Fault fault | Ok 'a

fun bind_run :: "'a run \<Rightarrow> ('a \<Rightarrow> 'b run) \<Rightarrow> 'b run" where
  "bind_run Spins f = Spins"
| "bind_run (Fault e) f = Fault e"
| "bind_run (Ok x) f = f x"

definition of_res :: "'a res \<Rightarrow> 'a run" where
  "of_res r = (case r of Inl e \<Rightarrow> Fault e | Inr x \<Rightarrow> Ok x)"

definition get_tuple :: "theap \<Rightarrow> nat \<Rightarrow> dbtuple run" where
  "get_tuple H a = (case cells H a of None \<Rightarrow> Fault (Undefined ''no record'') | Some c \<Rightarrow> Ok c)"

definition lock_cell :: "bool \<Rightarrow> nat \<Rightarrow> theap \<Rightarrow> (u32 \<times> theap) run" where
  "lock_cell wi a H = bind_run (get_tuple H a) (\<lambda>c.
     case tuple_lock wi c of None \<Rightarrow> Spins | Some c' \<Rightarrow> Ok (hdr c', put_cell a c' H))"

definition unlock_cell :: "nat \<Rightarrow> theap \<Rightarrow> theap run" where
  "unlock_cell a H = bind_run (get_tuple H a) (\<lambda>c. Ok (put_cell a (tuple_unlock c) H))"

definition clear_latest_cell :: "nat \<Rightarrow> theap \<Rightarrow> theap run" where
  "clear_latest_cell a H = bind_run (get_tuple H a) (\<lambda>c.
     Ok (put_cell a (c\<lparr>hdr := hdr_clear_latest (hdr c)\<rparr>) H))"

section \<open>Transaction objects\<close>

definition new_txn :: "u64 \<Rightarrow> u64 \<Rightarrow> txn" where
  "new_txn flags global_tick_ex =
     \<lparr>t_state = TXN_EMBRYO, t_reason = ABORT_REASON_NONE, t_flags = flags, read_set = [], write_set = [],
      absent_set = [],
      last_consistent_tid = (if flags AND TXN_FLAG_READ_ONLY \<noteq> 0 then ComputeReadOnlyTid global_tick_ex else 0),
      commit_epoch = 0\<rparr>"

definition is_snapshot :: "txn \<Rightarrow> bool" where
  "is_snapshot T \<longleftrightarrow> t_flags T AND TXN_FLAG_READ_ONLY \<noteq> 0"

definition snapshot_tid :: "txn \<Rightarrow> u64" where
  "snapshot_tid T = last_consistent_tid T"

definition ensure_active :: "txn \<Rightarrow> txn" where
  "ensure_active T = (if t_state T = TXN_EMBRYO then T\<lparr>t_state := TXN_ACTIVE\<rparr> else T)"

fun find_write_set :: "write_record_t list \<Rightarrow> nat \<Rightarrow> write_record_t option" where
  "find_write_set [] a = None"
| "find_write_set (w # ws) a = (if w_tuple w = a then Some w else find_write_set ws a)"

definition set_do_write :: "nat \<Rightarrow> write_record_t list \<Rightarrow> write_record_t list" where
  "set_do_write p ws = ws[p := (ws ! p)\<lparr>w_dowrite := True\<rparr>]"

section \<open>Abort\<close>

definition cleanup_inserted_tuple_marker ::
    "'t btree_ops \<Rightarrow> nat \<Rightarrow> byte list \<Rightarrow> nat \<Rightarrow> 't world \<Rightarrow> 't world run" where
  "cleanup_inserted_tuple_marker B marker key btr w =
     (case bt_remove B (trees w btr) key of
        None \<Rightarrow> Fault (Abort ''ALWAYS_ASSERT(false)'')
      | Some (t', removed) \<Rightarrow>
          bind_run (clear_latest_cell marker (heap w)) (\<lambda>H.
            Ok (w\<lparr>heap := H, trees := (trees w)(btr := t')\<rparr>)))"

fun abort_inserts :: "'t btree_ops \<Rightarrow> write_record_t list \<Rightarrow> 't world \<Rightarrow> 't world run" where
  "abort_inserts B [] w = Ok w"
| "abort_inserts B (e # es) w =
     (if w_insert e then
        bind_run (cleanup_inserted_tuple_marker B (w_tuple e) (w_key e) (w_btr e) w) (\<lambda>w.
        bind_run (unlock_cell (w_tuple e) (heap w)) (\<lambda>H. abort_inserts B es (w\<lparr>heap := H\<rparr>)))
      else abort_inserts B es w)"

definition abort_impl :: "'t btree_ops \<Rightarrow> abort_reason \<Rightarrow> txn \<Rightarrow> 't world \<Rightarrow> (txn \<times> 't world) run" where
  "abort_impl B reason T w =
     (case t_state T of
        TXN_ABRT \<Rightarrow> Ok (T, w)
      | TXN_COMMITED \<Rightarrow> Fault (Throw ''transaction_unusable_exception'')
      | _ \<Rightarrow> bind_run (abort_inserts B (write_set T) w) (\<lambda>w.
               Ok (T\<lparr>t_state := TXN_ABRT, t_reason := reason\<rparr>, w)))"

section \<open>Reads and puts\<close>

datatype 'a outcome = Returned 'a | Thrown abort_reason

text \<open>\<open>abort_impl\<close> followed by the exception that carries its reason.\<close>

definition abort_throw ::
    "'t btree_ops \<Rightarrow> abort_reason \<Rightarrow> txn \<Rightarrow> 't world \<Rightarrow> ('a outcome \<times> txn \<times> 't world) run" where
  "abort_throw B r T w = bind_run (abort_impl B r T w) (\<lambda>(T, w). Ok (Thrown r, T, w))"

text \<open>
  The trait \<open>read_own_writes\<close> and the byte limit of the value reader are parameters. A hit in the write set is
  copied whole, without the limit.
\<close>

definition do_tuple_read ::
    "'t btree_ops \<Rightarrow> bool \<Rightarrow> nat \<Rightarrow> nat \<Rightarrow> txn \<Rightarrow> 't world \<Rightarrow> (byte list option outcome \<times> txn \<times> 't world) run" where
  "do_tuple_read B read_own_writes max_bytes_read tuple T w =
     (case (if read_own_writes then find_write_set (write_set T) tuple else None) of
        Some e \<Rightarrow> Ok (Returned (w_value e), T, w)
      | None \<Rightarrow>
          (case stable_read (heap w) tuple (if is_snapshot T then snapshot_tid T else MAX_TID) (is_snapshot T) of
             None \<Rightarrow> Spins
           | Some (stat, start_t, data) \<Rightarrow>
               if stat = READ_FAILED then abort_throw B ABORT_REASON_UNSTABLE_READ T w
               else if \<not> can_read_tid start_t then abort_throw B ABORT_REASON_FUTURE_TID_READ T w
               else Ok (Returned (if stat = READ_EMPTY then None else Some (snd (single_value_reader max_bytes_read data))),
                        if is_snapshot T then T else T\<lparr>read_set := read_set T @ [(tuple, start_t)]\<rparr>, w)))"

definition do_node_read ::
    "'t btree_ops \<Rightarrow> nat \<times> nat \<Rightarrow> u64 \<Rightarrow> txn \<Rightarrow> 't world \<Rightarrow> (unit outcome \<times> txn \<times> 't world) run" where
  "do_node_read B n v T w =
     (if is_snapshot T then Ok (Returned (), T, w)
      else case map_of (absent_set T) n of
        None \<Rightarrow> Ok (Returned (), T\<lparr>absent_set := absent_set T @ [(n, v)]\<rparr>, w)
      | Some v' \<Rightarrow> if v' \<noteq> v then abort_throw B ABORT_REASON_NODE_SCAN_READ_VERSION_CHANGED T w
                   else Ok (Returned (), T, w))"

definition do_search ::
    "'t btree_ops \<Rightarrow> bool \<Rightarrow> nat \<Rightarrow> nat \<Rightarrow> byte list \<Rightarrow> txn \<Rightarrow> 't world \<Rightarrow>
       (byte list option outcome \<times> txn \<times> 't world) run" where
  "do_search B read_own_writes max_bytes_read btr k T w =
     (let T = ensure_active T in
      case bt_search B (trees w btr) k of
        (Some tuple, _) \<Rightarrow> do_tuple_read B read_own_writes max_bytes_read tuple T w
      | (None, node, ver) \<Rightarrow>
          bind_run (do_node_read B (btr, node) ver T w) (\<lambda>(out, T, w).
            Ok (case out of Returned _ \<Rightarrow> Returned None | Thrown r \<Rightarrow> Thrown r, T, w)))"

text \<open>
  The insertion of a tentative tuple: the tuple with whether the transaction should abort, or \<open>None\<close> when the key is
  there already. A failed insert frees the tuple it allocated.
\<close>

definition try_insert_new_tuple ::
    "'t btree_ops \<Rightarrow> nat \<Rightarrow> byte list \<Rightarrow> byte list option \<Rightarrow> txn \<Rightarrow> 't world \<Rightarrow>
       ((nat \<times> bool) option \<times> txn \<times> 't world) run" where
  "try_insert_new_tuple B btr key v T w =
     (let sz = (case v of None \<Rightarrow> 0 | Some bs \<Rightarrow> of_nat (length bs));
          (tuple, H) = alloc_first sz True (heap w)
      in bind_run (get_tuple H tuple) (\<lambda>c.
         bind_run (of_res (do_write v c)) (\<lambda>c.
         case bt_insert_if_absent B (trees w btr) key tuple of
           None \<Rightarrow> Ok (None, T, w\<lparr>heap := H\<lparr>cells := (cells H)(tuple := None)\<rparr>\<rparr>)
         | Some (t', node, old_version, new_version) \<Rightarrow>
             let w = w\<lparr>heap := put_cell tuple c H, trees := (trees w)(btr := t')\<rparr>;
                 T = T\<lparr>write_set := write_set T @
                   [\<lparr>w_tuple = tuple, w_key = key, w_value = v, w_btr = btr, w_insert = True, w_dowrite = False\<rparr>]\<rparr>
             in case map_of (absent_set T) (btr, node) of
                  None \<Rightarrow> Ok (Some (tuple, False), T, w)
                | Some ver \<Rightarrow>
                    if ver \<noteq> old_version
                    then Ok (Some (tuple, True), T\<lparr>t_reason := ABORT_REASON_WRITE_NODE_INTERFERENCE\<rparr>, w)
                    else Ok (Some (tuple, False),
                             T\<lparr>absent_set := map (\<lambda>(n, u). (n, if n = (btr, node) then new_version else u)) (absent_set T)\<rparr>,
                             w))))"

text \<open>
  \<open>do_tree_put\<close>: the label \<open>retry\<close> is reached at most twice, because a search that fails is followed by an insertion
  that finds the key absent when no other thread moves; the fuel says how often it may be reached.
\<close>

fun do_tree_put_retry ::
    "'t btree_ops \<Rightarrow> nat \<Rightarrow> nat \<Rightarrow> byte list \<Rightarrow> byte list option \<Rightarrow> bool \<Rightarrow> txn \<Rightarrow> 't world \<Rightarrow>
       (unit outcome \<times> txn \<times> 't world) run" where
  "do_tree_put_retry B 0 btr k v expect_new T w = Spins"
| "do_tree_put_retry B (Suc n) btr k v expect_new T w =
     bind_run (if expect_new then try_insert_new_tuple B btr k v T w else Ok (None, T, w)) (\<lambda>(ret, T, w).
       case ret of
         Some (px, True) \<Rightarrow> abort_throw B ABORT_REASON_WRITE_NODE_INTERFERENCE T w
       | Some (px, False) \<Rightarrow> Ok (Returned (), T, w)
       | None \<Rightarrow>
           (case bt_search B (trees w btr) k of
              (None, _) \<Rightarrow> do_tree_put_retry B n btr k v True T w
            | (Some px, _) \<Rightarrow>
                Ok (Returned (), T\<lparr>write_set := write_set T @
                  [\<lparr>w_tuple = px, w_key = k, w_value = v, w_btr = btr, w_insert = False, w_dowrite = False\<rparr>]\<rparr>, w)))"

definition do_tree_put ::
    "'t btree_ops \<Rightarrow> nat \<Rightarrow> byte list \<Rightarrow> byte list option \<Rightarrow> bool \<Rightarrow> txn \<Rightarrow> 't world \<Rightarrow>
       (unit outcome \<times> txn \<times> 't world) run" where
  "do_tree_put B btr k v expect_new T w =
     (let T = ensure_active T in
      if is_snapshot T then abort_throw B ABORT_REASON_USER T w
      else do_tree_put_retry B 2 btr k v expect_new T w)"

section \<open>Commit\<close>

definition write_infos :: "write_record_t list \<Rightarrow> dbtuple_write_info list" where
  "write_infos ws = map (\<lambda>(pos, e). \<lparr>i_tuple = w_tuple e, i_insert = w_insert e, i_locked = w_insert e, i_pos = pos\<rparr>)
     (enumerate 0 ws)"

definition sort_infos :: "dbtuple_write_info list \<Rightarrow> dbtuple_write_info list" where
  "sort_infos is = sort_key (\<lambda>i. (i_tuple i, \<not> i_insert i, i_pos i)) is"

definition sorted_dbtuples_contains :: "dbtuple_write_info list \<Rightarrow> nat \<Rightarrow> bool" where
  "sorted_dbtuples_contains is a = (a \<in> set (map i_tuple is))"

definition handle_last_tuple_in_group ::
    "dbtuple_write_info \<Rightarrow> bool \<Rightarrow> write_record_t list \<Rightarrow> theap \<Rightarrow>
       (bool \<times> dbtuple_write_info \<times> write_record_t list \<times> theap) run" where
  "handle_last_tuple_in_group lst did_group_insert ws H =
     (if did_group_insert then
        Ok (True, lst, if \<not> i_insert lst then set_do_write (i_pos lst) ws else ws, H)
      else bind_run (get_tuple H (i_tuple lst)) (\<lambda>c.
        if version c = MAX_TID then Ok (False, lst, ws, H)
        else bind_run (lock_cell True (i_tuple lst) H) (\<lambda>(v, H).
          let lst = lst\<lparr>i_locked := True\<rparr> in
          if \<not> IsLatest v \<or> \<not> can_read_tid (version c) then Ok (False, lst, ws, H)
          else Ok (True, lst, set_do_write (i_pos lst) ws, H))))"

text \<open>
  The loop over the sorted infos: \<open>done\<close> are those behind \<open>last_px\<close>, in order, \<open>inserted\<close> says whether the run of
  \<open>last_px\<close> began with an insert. The result is whether all groups were locked, with the infos as they are then.
\<close>

fun lock_groups ::
    "dbtuple_write_info list \<Rightarrow> dbtuple_write_info option \<Rightarrow> bool \<Rightarrow> dbtuple_write_info list \<Rightarrow>
       write_record_t list \<Rightarrow> theap \<Rightarrow> (bool \<times> dbtuple_write_info list \<times> write_record_t list \<times> theap) run" where
  "lock_groups dn None ins [] ws H = Ok (True, dn, ws, H)"
| "lock_groups dn (Some l) ins [] ws H =
     bind_run (handle_last_tuple_in_group l ins ws H) (\<lambda>(ok, l, ws, H). Ok (ok, dn @ [l], ws, H))"
| "lock_groups dn lst ins (it # rest) ws H =
     bind_run
       (case lst of
          None \<Rightarrow> Ok (True, dn, ins, ws, H)
        | Some l \<Rightarrow>
            if i_tuple l \<noteq> i_tuple it then
              bind_run (handle_last_tuple_in_group l ins ws H) (\<lambda>(ok, l, ws, H). Ok (ok, dn @ [l], False, ws, H))
            else Ok (True, dn @ [l], ins, ws, H))
       (\<lambda>(ok, dn, ins, ws, H).
          if \<not> ok then Ok (False, dn @ it # rest, ws, H)
          else lock_groups dn (Some it) (if i_insert it then True else ins) rest
                 (if i_insert it then set_do_write (i_pos it) ws else ws) H)"

definition read_valid :: "dbtuple_write_info list \<Rightarrow> theap \<Rightarrow> nat \<times> u64 \<Rightarrow> bool" where
  "read_valid is H = (\<lambda>(a, t). case cells H a of None \<Rightarrow> False | Some c \<Rightarrow>
     if sorted_dbtuples_contains is a then is_latest_version c t else stable_is_latest_version c t)"

definition nodes_valid :: "'t btree_ops \<Rightarrow> (nat \<Rightarrow> 't) \<Rightarrow> ((nat \<times> nat) \<times> u64) list \<Rightarrow> bool" where
  "nodes_valid B trs as = list_all (\<lambda>((tr, n), v). bt_version B (trs tr) n = v) as"

text \<open>The hooks of the protocol after a write: what goes to the garbage queue.\<close>

definition on_dbtuple_spill :: "u64 \<Rightarrow> nat \<Rightarrow> nat \<Rightarrow> 't world \<Rightarrow> 't world run" where
  "on_dbtuple_spill epoch tuple_ahead tuple w =
     bind_run (get_tuple (heap w) tuple) (\<lambda>c.
       if IsDeleting (hdr c) then Ok w
       else Ok (w\<lparr>gc_queue := gc_queue w @ [(\<lparr>de_tuple = tuple, de_key = None, de_btr = None\<rparr>, to_read_only_tick epoch)]\<rparr>))"

definition on_logical_delete :: "u64 \<Rightarrow> nat \<Rightarrow> byte list \<Rightarrow> nat \<Rightarrow> 't world \<Rightarrow> 't world run" where
  "on_logical_delete epoch tuple key btr w =
     bind_run (get_tuple (heap w) tuple) (\<lambda>c.
       let tick = to_read_only_tick epoch in
       if length key \<le> unat (alloc_size c) then
         bind_run (of_res (memcpy_into (value_start c) key)) (\<lambda>buf.
           Ok (w\<lparr>heap := put_cell tuple (c\<lparr>value_start := buf, dsize := of_nat (length key)\<rparr>) (heap w),
                 gc_queue := gc_queue w @ [(\<lparr>de_tuple = tuple, de_key = Some None, de_btr = Some btr\<rparr>, tick)]\<rparr>))
       else
         Ok (w\<lparr>gc_queue := gc_queue w @ [(\<lparr>de_tuple = tuple, de_key = Some (Some key), de_btr = Some btr\<rparr>, tick)]\<rparr>))"

definition write_entry ::
    "'t btree_ops \<Rightarrow> u64 \<Rightarrow> u64 \<Rightarrow> write_record_t \<Rightarrow> 't world \<Rightarrow> 't world run" where
  "write_entry B epoch tid e w =
     (if w_insert e then
        bind_run (get_tuple (heap w) (w_tuple e)) (\<lambda>c.
          Ok (w\<lparr>heap := put_cell (w_tuple e) (c\<lparr>version := tid\<rparr>) (heap w)\<rparr>))
      else
        bind_run (of_res (write_record_at can_overwrite_record_tid (w_tuple e) tid (w_value e) (heap w)))
        (\<lambda>(ret, H).
           let w = w\<lparr>heap := H\<rparr>; unlock_head = (ret_head ret \<noteq> w_tuple e) in
           bind_run
             (if unlock_head then
                bind_run (lock_cell True (ret_head ret) (heap w)) (\<lambda>(_, H).
                  Ok (w\<lparr>heap := H,
                        trees := (trees w)(w_btr e := fst (bt_insert B (trees w (w_btr e)) (w_key e) (ret_head ret)))\<rparr>))
              else Ok w)
           (\<lambda>w. bind_run (case ret_rest ret of None \<Rightarrow> Ok w | Some r \<Rightarrow> on_dbtuple_spill epoch (ret_head ret) r w)
           (\<lambda>w. bind_run (if w_value e = None then on_logical_delete epoch (ret_head ret) (w_key e) (w_btr e) w else Ok w)
           (\<lambda>w. if unlock_head
                 then bind_run (unlock_cell (ret_head ret) (heap w)) (\<lambda>H. Ok (w\<lparr>heap := H\<rparr>))
                 else Ok w)))))"

fun write_entries ::
    "'t btree_ops \<Rightarrow> u64 \<Rightarrow> u64 \<Rightarrow> write_record_t list \<Rightarrow> 't world \<Rightarrow> 't world run" where
  "write_entries B epoch tid [] w = Ok w"
| "write_entries B epoch tid (e # es) w =
     (if \<not> w_dowrite e then write_entries B epoch tid es w
      else bind_run (write_entry B epoch tid e w) (write_entries B epoch tid es))"

fun unlock_infos :: "dbtuple_write_info list \<Rightarrow> theap \<Rightarrow> theap run" where
  "unlock_infos [] H = Ok H"
| "unlock_infos (i # is) H =
     (if i_locked i then bind_run (unlock_cell (i_tuple i) H) (unlock_infos is) else unlock_infos is H)"

text \<open>The label \<open>do_abort\<close>.\<close>

fun abort_infos ::
    "'t btree_ops \<Rightarrow> write_record_t list \<Rightarrow> dbtuple_write_info list \<Rightarrow> 't world \<Rightarrow> 't world run" where
  "abort_infos B ws [] w = Ok w"
| "abort_infos B ws (i # is) w =
     (if i_locked i then
        bind_run (if i_insert i
                  then cleanup_inserted_tuple_marker B (i_tuple i) (w_key (ws ! i_pos i)) (w_btr (ws ! i_pos i)) w
                  else Ok w) (\<lambda>w.
        bind_run (unlock_cell (i_tuple i) (heap w)) (\<lambda>H. abort_infos B ws is (w\<lparr>heap := H\<rparr>)))
      else abort_infos B ws is w)"

definition do_abort ::
    "'t btree_ops \<Rightarrow> bool \<Rightarrow> abort_reason \<Rightarrow> dbtuple_write_info list \<Rightarrow> txn \<Rightarrow> 't world \<Rightarrow>
       (bool outcome \<times> txn \<times> 't world) run" where
  "do_abort B doThrow r is T w =
     bind_run (abort_infos B (write_set T) is w) (\<lambda>w.
       Ok (if doThrow then Thrown r else Returned False, T\<lparr>t_state := TXN_ABRT, t_reason := r\<rparr>, w))"

text \<open>
  \<open>commit\<close> on the core \<open>core\<close> when the ticker shows \<open>epoch\<close>.
\<close>

definition tid_inputs :: "dbtuple_write_info list \<Rightarrow> theap \<Rightarrow> (bool \<times> u64) list" where
  "tid_inputs is H = map (\<lambda>i. (i_insert i, case cells H (i_tuple i) of None \<Rightarrow> MAX_TID | Some c \<Rightarrow> version c)) is"

definition commit ::
    "'t btree_ops \<Rightarrow> u64 \<Rightarrow> u64 \<Rightarrow> bool \<Rightarrow> txn \<Rightarrow> 't world \<Rightarrow> (bool outcome \<times> txn \<times> 't world) run" where
  "commit B core epoch doThrow T w =
     (case t_state T of
        TXN_COMMITED \<Rightarrow> Ok (Returned True, T, w)
      | TXN_ABRT \<Rightarrow> Ok (if doThrow then Thrown (t_reason T) else Returned False, T, w)
      | _ \<Rightarrow>
          if is_snapshot T then Ok (Returned True, T\<lparr>t_state := TXN_COMMITED\<rparr>, w)
          else
            bind_run (lock_groups [] None False (sort_infos (write_infos (write_set T))) (write_set T) (heap w))
            (\<lambda>(ok, is, ws, H).
               let T = T\<lparr>write_set := ws\<rparr>; w = w\<lparr>heap := H\<rparr> in
               if \<not> ok then do_abort B doThrow ABORT_REASON_WRITE_NODE_INTERFERENCE is T w
               else
                 let tid = gen_commit_tid core epoch (last_commit_tid w) (map snd (read_set T)) (tid_inputs is H);
                     T = (if is = [] then T else T\<lparr>commit_epoch := epoch\<rparr>);
                     w = (if is = [] then w else w\<lparr>last_commit_tid := tid\<rparr>)
                 in if \<not> list_all (read_valid is (heap w)) (read_set T)
                    then do_abort B doThrow ABORT_REASON_READ_NODE_INTEREFERENCE is T w
                    else if \<not> nodes_valid B (trees w) (absent_set T)
                    then do_abort B doThrow ABORT_REASON_NODE_SCAN_READ_VERSION_CHANGED is T w
                    else bind_run (write_entries B epoch tid (write_set T) w) (\<lambda>w.
                         bind_run (unlock_infos is (heap w)) (\<lambda>H.
                           Ok (Returned True, T\<lparr>t_state := TXN_COMMITED\<rparr>, w\<lparr>heap := H\<rparr>)))))"

section \<open>Locking\<close>

lemma bind_run_Ok [simp]: "bind_run r f = Ok y \<longleftrightarrow> (\<exists>x. r = Ok x \<and> f x = Ok y)"
  by (cases r) auto

lemma get_tuple_Ok [simp]: "get_tuple H a = Ok c \<longleftrightarrow> cells H a = Some c"
  by (auto simp: get_tuple_def split: option.splits)

lemma lock_cell_Ok:
  "lock_cell wi a H = Ok (h, H') \<longleftrightarrow>
     (\<exists>c. cells H a = Some c \<and> lock_try wi (hdr c) (hdr c) = Some h \<and> H' = put_cell a (c\<lparr>hdr := h\<rparr>) H)"
  by (auto simp: lock_cell_def tuple_lock_def split: option.splits)

lemma unlock_cell_Ok:
  "unlock_cell a H = Ok H' \<longleftrightarrow> (\<exists>c. cells H a = Some c \<and> H' = put_cell a (tuple_unlock c) H)"
  by (auto simp: unlock_cell_def)

text \<open>Two heaps with the same records, up to the lock, write-intent and counter bits of the headers.\<close>

definition same_cell :: "dbtuple \<Rightarrow> dbtuple \<Rightarrow> bool" where
  "same_cell c d \<longleftrightarrow> (\<exists>h. d = c\<lparr>hdr := h\<rparr>) \<and> IsDeleting (hdr d) = IsDeleting (hdr c) \<and>
     IsLatest (hdr d) = IsLatest (hdr c)"

definition same_records :: "nat set \<Rightarrow> theap \<Rightarrow> theap \<Rightarrow> bool" where
  "same_records M H H' \<longleftrightarrow> brk H' = brk H \<and> (\<forall>a. rel_option (\<lambda>c d. a \<in> M \<or> same_cell c d) (cells H a) (cells H' a))"

lemma same_cell_refl [simp]: "same_cell c c"
  by (simp add: same_cell_def) (metis dbtuple.surjective dbtuple.update_convs(1))

lemma same_cell_trans: "same_cell c d \<Longrightarrow> same_cell d e \<Longrightarrow> same_cell c e"
  by (auto simp: same_cell_def)

lemma same_records_refl [simp]: "same_records M H H"
  by (simp add: same_records_def rel_option_iff split: option.splits)

lemma same_records_trans:
  assumes "same_records M H H'" "same_records M H' H''"
  shows "same_records M H H''"
proof -
  have "rel_option (\<lambda>c d. a \<in> M \<or> same_cell c d) (cells H a) (cells H'' a)" for a
  proof -
    have "rel_option (\<lambda>c d. a \<in> M \<or> same_cell c d) (cells H a) (cells H' a)"
      "rel_option (\<lambda>c d. a \<in> M \<or> same_cell c d) (cells H' a) (cells H'' a)"
      using assms by (auto simp: same_records_def)
    then show ?thesis
      by (cases "cells H a"; cases "cells H' a"; cases "cells H'' a") (auto intro: same_cell_trans)
  qed
  then show ?thesis using assms by (simp add: same_records_def)
qed

lemma same_records_put:
  assumes "cells H a = Some c" "a \<in> M \<or> same_cell c d"
  shows "same_records M H (put_cell a d H)"
proof -
  have "rel_option (\<lambda>c d. b \<in> M \<or> same_cell c d) (cells H b) (cells H b)" for b
    by (cases "cells H b") auto
  then show ?thesis using assms by (auto simp: same_records_def put_cell_def)
qed

lemma same_cell_lock: "lock_try wi (hdr c) (hdr c) = Some h \<Longrightarrow> same_cell c (c\<lparr>hdr := h\<rparr>)"
  using lock_try_flags [of wi "hdr c" "hdr c" h] by (auto simp: same_cell_def)

lemma same_cell_unlock: "same_cell c (tuple_unlock c)"
  by (auto simp: same_cell_def tuple_unlock_def hdr_unlock_flags)

definition locked_cells :: "theap \<Rightarrow> nat set" where
  "locked_cells H = {a. \<exists>c. cells H a = Some c \<and> IsLocked (hdr c)}"

lemma locked_cells_put:
  "locked_cells (put_cell a d H) = (if IsLocked (hdr d) then insert a (locked_cells H) else locked_cells H - {a})"
  by (auto simp: locked_cells_def put_cell_def)

definition held_infos :: "dbtuple_write_info list \<Rightarrow> nat set" where
  "held_infos is = i_tuple ` {i \<in> set is. i_locked i}"

lemma held_infos_simps [simp]:
  "held_infos [] = {}" "held_infos (i # is) = (if i_locked i then {i_tuple i} else {}) \<union> held_infos is"
  "held_infos (is @ js) = held_infos is \<union> held_infos js"
  by (auto simp: held_infos_def)

lemma map_set_do_write:
  assumes "\<And>e. f (e\<lparr>w_dowrite := True\<rparr>) = f e"
  shows "map f (set_do_write p ws) = map f ws"
proof (cases "p < length ws")
  case True
  have "map f (set_do_write p ws) = (map f ws)[p := f (ws ! p)]" by (simp add: set_do_write_def map_update assms)
  also have "f (ws ! p) = map f ws ! p" using True by simp
  finally show ?thesis by (simp only: list_update_id)
qed (simp add: set_do_write_def list_update_beyond)

lemma set_do_write_maps:
  "map w_key (set_do_write p ws) = map w_key ws" "map w_btr (set_do_write p ws) = map w_btr ws"
  "map w_insert (set_do_write p ws) = map w_insert ws"
  by (rule map_set_do_write; simp)+

lemma handle_last_frame:
  assumes "handle_last_tuple_in_group l ins ws H = Ok (ok, l', ws', H')"
  shows "same_records {} H H'" "i_tuple l' = i_tuple l" "i_insert l' = i_insert l" "i_pos l' = i_pos l"
    "i_locked l \<longrightarrow> i_locked l'" "locked_cells H' \<subseteq> locked_cells H \<union> held_infos [l']"
    "map w_key ws' = map w_key ws" "map w_btr ws' = map w_btr ws" "map w_insert ws' = map w_insert ws"
proof -
  note dw = set_do_write_maps
  have "same_records {} H H' \<and> i_tuple l' = i_tuple l \<and> i_insert l' = i_insert l \<and> i_pos l' = i_pos l \<and>
    (i_locked l \<longrightarrow> i_locked l') \<and> locked_cells H' \<subseteq> locked_cells H \<union> held_infos [l'] \<and>
    map w_key ws' = map w_key ws \<and> map w_btr ws' = map w_btr ws \<and> map w_insert ws' = map w_insert ws"
  proof (cases ins)
    case True
    then show ?thesis using assms dw by (auto simp: handle_last_tuple_in_group_def)
  next
    case False
    then show ?thesis using assms dw
      by (auto simp: handle_last_tuple_in_group_def lock_cell_Ok Let_def locked_cells_put
          split: if_splits intro!: same_records_put same_cell_lock dest: lock_try_flags)
  qed
  then show "same_records {} H H'" "i_tuple l' = i_tuple l" "i_insert l' = i_insert l" "i_pos l' = i_pos l"
    "i_locked l \<longrightarrow> i_locked l'" "locked_cells H' \<subseteq> locked_cells H \<union> held_infos [l']"
    "map w_key ws' = map w_key ws" "map w_btr ws' = map w_btr ws" "map w_insert ws' = map w_insert ws" by blast+
qed

definition info_ids :: "dbtuple_write_info list \<Rightarrow> (nat \<times> bool \<times> nat) list" where
  "info_ids is = map (\<lambda>i. (i_tuple i, i_insert i, i_pos i)) is"

lemma info_ids_simps [simp]:
  "info_ids [] = []" "info_ids (i # is) = (i_tuple i, i_insert i, i_pos i) # info_ids is"
  "info_ids (is @ js) = info_ids is @ info_ids js"
  by (simp_all add: info_ids_def)

text \<open>
  Taking the locks changes nothing but lock bits, every lock taken is recorded in an info, and the infos and
  entries stay what they are.
\<close>

definition lock_frame :: "write_record_t list \<Rightarrow> theap \<Rightarrow> dbtuple_write_info list \<Rightarrow> write_record_t list \<Rightarrow> theap \<Rightarrow>
    dbtuple_write_info list \<Rightarrow> bool" where
  "lock_frame ws H is ws' H' is' \<longleftrightarrow> same_records {} H H' \<and> info_ids is' = info_ids is \<and>
     held_infos is \<subseteq> held_infos is' \<and> locked_cells H' \<subseteq> locked_cells H \<union> held_infos is' \<and>
     map w_key ws' = map w_key ws \<and> map w_btr ws' = map w_btr ws \<and> map w_insert ws' = map w_insert ws"

lemma lock_frame_trans:
  "lock_frame ws H is ws' H' is' \<Longrightarrow> lock_frame ws' H' is' ws'' H'' is'' \<Longrightarrow> lock_frame ws H is ws'' H'' is''"
  by (auto simp: lock_frame_def intro: same_records_trans)

lemma lock_frame_handle:
  assumes "handle_last_tuple_in_group l ins ws H = Ok (ok, l', ws', H')"
  shows "lock_frame ws H (dn @ l # rest) ws' H' (dn @ l' # rest)"
  using handle_last_frame [OF assms] by (auto simp: lock_frame_def)

lemma lock_frame_mark: "lock_frame ws H is (set_do_write p ws) H is"
  by (auto simp: lock_frame_def set_do_write_maps)

lemma lock_frame_refl: "lock_frame ws H is ws H is"
  by (auto simp: lock_frame_def)

lemma lock_groups_frame:
  "lock_groups dn lst ins rest ws H = Ok (ok, is', ws', H') \<Longrightarrow>
     lock_frame ws H (dn @ (case lst of None \<Rightarrow> [] | Some l \<Rightarrow> [l]) @ rest) ws' H' is'"
proof (induction dn lst ins rest ws H arbitrary: ok is' ws' H' rule: lock_groups.induct)
  case (1 dn ins ws H)
  then show ?case by (simp add: lock_frame_refl)
next
  case (2 dn l ins ws H)
  then show ?case using lock_frame_handle [of l ins ws H _ _ _ _ dn "[]"] by auto
next
  case (3 dn lst ins it rest ws H)
  let ?r = "case lst of None \<Rightarrow> Ok (True, dn, ins, ws, H)
     | Some l \<Rightarrow> if i_tuple l \<noteq> i_tuple it then
          bind_run (handle_last_tuple_in_group l ins ws H) (\<lambda>(ok, l, ws, H). Ok (ok, dn @ [l], False, ws, H))
        else Ok (True, dn @ [l], ins, ws, H)"
  obtain ok1 dn1 ins1 ws1 H1 where r: "?r = Ok (ok1, dn1, ins1, ws1, H1)"
    and res: "(if \<not> ok1 then Ok (False, dn1 @ it # rest, ws1, H1)
       else lock_groups dn1 (Some it) (if i_insert it then True else ins1) rest
              (if i_insert it then set_do_write (i_pos it) ws1 else ws1) H1) = Ok (ok, is', ws', H')"
    using 3(2) by (auto simp del: bind_run_Ok simp: bind_run_Ok [of ?r])
  have fr: "lock_frame ws H (dn @ (case lst of None \<Rightarrow> [] | Some l \<Rightarrow> [l]) @ it # rest) ws1 H1 (dn1 @ it # rest)"
    using r lock_frame_handle [of _ ins ws H _ _ _ _ dn "it # rest"]
    by (auto simp: lock_frame_refl split: option.splits if_splits)
  show ?case
  proof (cases ok1)
    case False
    then show ?thesis using fr res by simp
  next
    case True
    let ?ws2 = "if i_insert it then set_do_write (i_pos it) ws1 else ws1"
    have "lock_frame ?ws2 H1 (dn1 @ (case Some it of None \<Rightarrow> [] | Some l \<Rightarrow> [l]) @ rest) ws' H' is'"
      by (rule 3(1)) (use True res in auto)
    moreover have "lock_frame ws1 H1 (dn1 @ it # rest) ?ws2 H1 (dn1 @ it # rest)"
      by (simp add: lock_frame_mark lock_frame_refl)
    ultimately show ?thesis using fr lock_frame_trans by (metis append_Cons append_Nil option.case(2))
  qed
qed

section \<open>What abort leaves behind\<close>

definition insert_tuples :: "dbtuple_write_info list \<Rightarrow> nat set" where
  "insert_tuples is = i_tuple ` {i \<in> set is. i_insert i}"

lemma same_records_mono: "same_records M H H' \<Longrightarrow> M \<subseteq> N \<Longrightarrow> same_records N H H'"
  by (fastforce simp: same_records_def elim: option.rel_mono_strong)

lemma cleanup_frame:
  assumes "cleanup_inserted_tuple_marker B m k btr w = Ok w'"
  shows "same_records {m} (heap w) (heap w')" "locked_cells (heap w') = locked_cells (heap w)"
    "\<exists>c. cells (heap w') m = Some c \<and> \<not> IsLatest (hdr c)"
    "\<exists>t' r. bt_remove B (trees w btr) k = Some (t', r) \<and> trees w' = (trees w)(btr := t')"
    "gc_queue w' = gc_queue w"
proof -
  obtain t' r c where c: "bt_remove B (trees w btr) k = Some (t', r)" "cells (heap w) m = Some c"
    "w' = w\<lparr>heap := put_cell m (c\<lparr>hdr := hdr_clear_latest (hdr c)\<rparr>) (heap w), trees := (trees w)(btr := t')\<rparr>"
    using assms by (auto simp: cleanup_inserted_tuple_marker_def clear_latest_cell_def split: option.splits)
  show "same_records {m} (heap w) (heap w')" using c by (auto intro: same_records_put)
  show "locked_cells (heap w') = locked_cells (heap w)"
    using c by (auto simp: locked_cells_put mark_flags) (auto simp: locked_cells_def)
  show "\<exists>c. cells (heap w') m = Some c \<and> \<not> IsLatest (hdr c)" using c by (simp add: put_cell_def mark_flags)
  show "\<exists>t' r. bt_remove B (trees w btr) k = Some (t', r) \<and> trees w' = (trees w)(btr := t')" using c by simp
  show "gc_queue w' = gc_queue w" using c by simp
qed

lemma unlock_frame:
  assumes "unlock_cell a H = Ok H'"
  shows "same_records {} H H'" "locked_cells H' = locked_cells H - {a}"
proof -
  obtain c where c: "cells H a = Some c" "H' = put_cell a (tuple_unlock c) H" using assms by (auto simp: unlock_cell_Ok)
  show "same_records {} H H'" unfolding c(2) by (rule same_records_put [OF c(1)]) (simp add: same_cell_unlock)
  show "locked_cells H' = locked_cells H - {a}"
    unfolding c(2) locked_cells_put by (simp add: tuple_unlock_def hdr_unlock_flags)
qed

lemma abort_infos_frame:
  assumes "abort_infos B ws is w = Ok w'"
  shows "same_records (insert_tuples is) (heap w) (heap w') \<and>
    locked_cells (heap w') = locked_cells (heap w) - held_infos is \<and> gc_queue w' = gc_queue w"
  using assms
proof (induction "is" arbitrary: w)
  case Nil
  then show ?case by simp
next
  case (Cons i js)
  have sub: "insert_tuples js \<subseteq> insert_tuples (i # js)" by (auto simp: insert_tuples_def)
  show ?case
  proof (cases "i_locked i")
    case False
    then show ?thesis using Cons.IH [of w] Cons.prems same_records_mono [OF _ sub] by auto
  next
    case True
    obtain w1 H2 where w1: "(if i_insert i
          then cleanup_inserted_tuple_marker B (i_tuple i) (w_key (ws ! i_pos i)) (w_btr (ws ! i_pos i)) w
          else Ok w) = Ok w1"
      and u: "unlock_cell (i_tuple i) (heap w1) = Ok H2" and r: "abort_infos B ws js (w1\<lparr>heap := H2\<rparr>) = Ok w'"
      using Cons.prems True by (auto split: if_splits)
    have f1: "same_records (insert_tuples (i # js)) (heap w) (heap w1)" "locked_cells (heap w1) = locked_cells (heap w)"
      "gc_queue w1 = gc_queue w"
      using w1 cleanup_frame [of B "i_tuple i" "w_key (ws ! i_pos i)" "w_btr (ws ! i_pos i)" w w1]
      by (auto simp: insert_tuples_def split: if_splits elim!: same_records_mono)
    have f2: "same_records (insert_tuples (i # js)) (heap w1) H2" "locked_cells H2 = locked_cells (heap w1) - {i_tuple i}"
      using unlock_frame [OF u] same_records_mono by blast+
    have f3: "same_records (insert_tuples js) H2 (heap w')" "locked_cells (heap w') = locked_cells H2 - held_infos js"
      "gc_queue w' = gc_queue w1"
      using Cons.IH [OF r] by auto
    show ?thesis using f1 f2 f3 same_records_mono [OF f3(1) sub] True
      by (auto intro: same_records_trans)
  qed
qed

lemma info_ids_inserts: "info_ids is = info_ids js \<Longrightarrow> insert_tuples is = insert_tuples js"
proof -
  have "insert_tuples is = {a. \<exists>p. (a, True, p) \<in> set (info_ids is)}" for "is"
    by (force simp: insert_tuples_def info_ids_def)
  then show "info_ids is = info_ids js \<Longrightarrow> insert_tuples is = insert_tuples js" by simp
qed

definition own_inserts :: "txn \<Rightarrow> nat set" where
  "own_inserts T = w_tuple ` {e \<in> set (write_set T). w_insert e}"

lemma write_infos_facts:
  "insert_tuples (sort_infos (write_infos ws)) = w_tuple ` {e \<in> set ws. w_insert e}"
  "held_infos (sort_infos (write_infos ws)) = w_tuple ` {e \<in> set ws. w_insert e}"
proof -
  have s: "set (write_infos ws) = (\<lambda>p. \<lparr>i_tuple = w_tuple (ws ! p), i_insert = w_insert (ws ! p),
      i_locked = w_insert (ws ! p), i_pos = p\<rparr>) ` {..<length ws}"
  proof -
    have "set (enumerate 0 ws) = (\<lambda>p. (p, ws ! p)) ` {..<length ws}"
      by (auto simp: in_set_enumerate_eq image_def)
    then show ?thesis by (simp add: write_infos_def image_image)
  qed
  have e: "{e \<in> set ws. w_insert e} = (\<lambda>p. ws ! p) ` {p. p < length ws \<and> w_insert (ws ! p)}"
    by (auto simp: in_set_conv_nth)
  show "insert_tuples (sort_infos (write_infos ws)) = w_tuple ` {e \<in> set ws. w_insert e}"
    "held_infos (sort_infos (write_infos ws)) = w_tuple ` {e \<in> set ws. w_insert e}"
    unfolding e insert_tuples_def held_infos_def sort_infos_def set_sort s by (force simp: image_image)+
qed

lemma do_abort_clean:
  assumes "do_abort B th r is' T w = Ok (out, T', w')"
    "lock_frame ws0 H0 is ws1 (heap w) is'" "locked_cells H0 \<subseteq> held_infos is"
  shows "t_state T' = TXN_ABRT" "t_reason T' = r" "locked_cells (heap w') = {}"
    "same_records (insert_tuples is) H0 (heap w')" "gc_queue w' = gc_queue w"
    "out = (if th then Thrown r else Returned False)"
proof -
  obtain w1 where a: "abort_infos B (write_set T) is' w = Ok w1" "w' = w1"
    "T' = T\<lparr>t_state := TXN_ABRT, t_reason := r\<rparr>" "out = (if th then Thrown r else Returned False)"
    using assms(1) by (auto simp: do_abort_def)
  note f = abort_infos_frame [OF a(1)]
  have l: "same_records {} H0 (heap w)" "info_ids is' = info_ids is" "held_infos is \<subseteq> held_infos is'"
    "locked_cells (heap w) \<subseteq> locked_cells H0 \<union> held_infos is'" using assms(2) by (auto simp: lock_frame_def)
  show "t_state T' = TXN_ABRT" "t_reason T' = r" using a(3) by simp_all
  show "out = (if th then Thrown r else Returned False)" by (rule a(4))
  show "locked_cells (heap w') = {}" using f l(3,4) assms(3) a(2) by auto
  show "same_records (insert_tuples is) H0 (heap w')"
    using f a(2) info_ids_inserts [OF l(2)] same_records_mono [OF l(1)] by (auto intro: same_records_trans)
  show "gc_queue w' = gc_queue w" using f a(2) by simp
qed

section \<open>What commit leaves behind\<close>

lemma locked_cells_new: "b \<notin> dom (cells H) \<Longrightarrow> \<not> IsLocked (hdr c) \<Longrightarrow>
   locked_cells (H\<lparr>cells := (cells H)(b \<mapsto> c), brk := n\<rparr>) = locked_cells H"
  by (auto simp: locked_cells_def)

text \<open>Cells at or above the break are free.\<close>

definition heap_ok :: "theap \<Rightarrow> bool" where
  "heap_ok H \<longleftrightarrow> (\<forall>a \<in> dom (cells H). a < brk H)"

lemma heap_ok_put: "heap_ok H \<Longrightarrow> a \<in> dom (cells H) \<Longrightarrow> heap_ok (put_cell a c H)"
  by (auto simp: heap_ok_def put_cell_def)

lemma heap_ok_new:
  assumes "heap_ok H"
  shows "heap_ok (H\<lparr>cells := (cells H)(brk H \<mapsto> s), brk := Suc (brk H)\<rparr>)"
proof -
  have "a < Suc (brk H)" if "a \<in> dom (cells H)" for a using assms that by (auto simp: heap_ok_def intro: less_SucI)
  then show ?thesis by (auto simp: heap_ok_def)
qed

lemma write_in_place_flags:
  assumes "write_in_place t v n c = Inr c'"
  shows "IsLocked (hdr c') = IsLocked (hdr c)" "IsLatest (hdr c') = IsLatest (hdr c)"
    "IsWriteIntent (hdr c') = IsWriteIntent (hdr c)" "dnext c' = dnext c"
proof -
  obtain d where d: "do_write v (c\<lparr>hdr := hdr_mark_modifying (hdr c)\<rparr>) = Inr d"
    "c' = (let e = d\<lparr>version := t, dsize := ucast n\<rparr> in if n = 0 then e\<lparr>hdr := hdr_mark_deleting (hdr e)\<rparr> else e)"
    using assms by (auto simp: write_in_place_def Let_def split: if_splits)
  have "hdr d = hdr_mark_modifying (hdr c)" "dnext d = dnext c"
    using d(1) by (auto simp: do_write_def split: option.splits)
  then show "IsLocked (hdr c') = IsLocked (hdr c)" "IsLatest (hdr c') = IsLatest (hdr c)"
    "IsWriteIntent (hdr c') = IsWriteIntent (hdr c)" "dnext c' = dnext c"
    using d(2) by (auto simp: Let_def mark_flags)
qed

lemma write_replace_locks:
  assumes "write_replace t v old n a forced H = Inr (ret, H')" "heap_ok H" "a \<in> dom (cells H)"
  shows "locked_cells H' = locked_cells H \<and> heap_ok H' \<and> dom (cells H) \<subseteq> dom (cells H') \<and>
    ret_head ret = brk H \<and> brk H \<in> dom (cells H') \<and> brk H \<notin> locked_cells H' \<and> ret_rest ret = Some a"
proof -
  obtain c where c: "cells H a = Some c" using assms(3) by auto
  obtain r0 r where r0: "dbtuple_spill t (value_start c) old n (alloc_space n) (Some a) True False = Inr r0"
    and r: "do_write v r0 = Inr r"
    and H': "H' = put_cell a (c\<lparr>hdr := hdr_clear_latest (hdr c)\<rparr>)
       (put_cell (brk H) r (H\<lparr>cells := (cells H)(brk H \<mapsto> r0), brk := Suc (brk H)\<rparr>))"
    and ret: "ret = \<lparr>ret_head = brk H, ret_rest = Some a, ret_forced_spill = forced\<rparr>"
    using assms(1) by (auto simp: write_replace_def alloc_spill_def new_cell_def c split: option.splits)
  have "hdr r0 = HDR_LATEST_MASK OR (if n = 0 then HDR_DELETING_MASK else 0)"
    using r0 by (auto simp: dbtuple_spill_def)
  moreover have "hdr r = hdr r0" using r by (auto simp: do_write_def split: option.splits)
  ultimately have nl: "\<not> IsLocked (hdr r)" "\<not> IsLocked (hdr r0)" using bit_or_flags by simp_all
  have b: "a < brk H" "cells H (brk H) = None" using assms(2,3) by (auto simp: heap_ok_def)
  have "locked_cells H' = locked_cells H"
    using nl b c by (auto simp: H' locked_cells_def put_cell_def mark_flags)
  moreover have "x < Suc (brk H)" if "cells H x = Some y" for x y
    using assms(2) that by (auto simp: heap_ok_def intro: less_SucI)
  then have "heap_ok H'" using b(1) by (auto simp: heap_ok_def H' put_cell_def split: if_splits)
  moreover have "brk H \<notin> locked_cells H'" using b nl by (auto simp: H' put_cell_def locked_cells_def)
  ultimately show ?thesis using b by (auto simp: H' ret put_cell_def)
qed

lemma write_record_locks:
  assumes "write_record_at co a t v H = Inr (ret, H')" "heap_ok H"
  shows "locked_cells H' = locked_cells H \<and> heap_ok H' \<and> dom (cells H) \<subseteq> dom (cells H') \<and>
    (ret_head ret \<noteq> a \<longrightarrow> ret_head ret \<notin> locked_cells H')"
proof -
  obtain c where c: "cells H a = Some c" using assms(1) by (auto simp: write_record_at_def split: option.splits)
  have ad: "a \<in> dom (cells H)" using c by auto
  have b: "a < brk H" "cells H (brk H) = None" using assms(2) ad by (auto simp: heap_ok_def)
  define n :: u64 where "n = (case v of None \<Rightarrow> 0 | Some bs \<Rightarrow> of_nat (length bs))"
  have n: "(case v of None \<Rightarrow> Inr 0
      | Some bs \<Rightarrow> bind_res (tuple_writer TUPLE_WRITER_COMPUTE_NEEDED bs (value_start c)) (\<lambda>(n, _). Inr n))
      = (Inr n :: u64 res)" by (cases v) (simp_all add: n_def)
  have inpl: "locked_cells (put_cell a c' H) = locked_cells H" if "write_in_place t v n c = Inr c'" for c'
    using write_in_place_flags(1) [OF that] c by (auto simp: locked_cells_put) (auto simp: locked_cells_def)
  let ?old = "if IsDeleting (hdr c) then 0 else ucast (dsize c) :: u64"
  consider (over) c' where "write_in_place t v n c = Inr c'" "H' = put_cell a c' H" "ret_head ret = a"
    | (spill) s c' where "dbtuple_copy (version c) c (alloc_space (ucast (dsize c))) False = Inr s"
        "write_in_place t v n (c\<lparr>dnext := Some (brk H)\<rparr>) = Inr c'" "ret_head ret = a"
        "H' = put_cell a c' (H\<lparr>cells := (cells H)(brk H \<mapsto> s), brk := Suc (brk H)\<rparr>)"
    | (rep) f where "write_replace t v ?old n a f H = Inr (ret, H')"
    using assms(1) unfolding write_record_at_def c option.case(2) n bind_res.simps Let_def
    by (auto simp: alloc_copy_def new_cell_def split: if_splits)
  then show ?thesis
  proof cases
    case over
    have "heap_ok (put_cell a c' H)" by (rule heap_ok_put [OF assms(2) ad])
    then show ?thesis using over inpl by (auto) (auto simp: put_cell_def)
  next
    case spill
    have "\<not> IsLocked 0" by (simp add: hdr_flags)
    then have "\<not> IsLocked (hdr s)" using spill(1)
      by (auto simp: dbtuple_copy_def Let_def mark_flags split: if_splits)
    then have "locked_cells H' = locked_cells H"
      using write_in_place_flags(1) [OF spill(2)] b c
      by (auto simp: spill(4) locked_cells_def put_cell_def)
    moreover have "heap_ok H'"
      unfolding spill(4) by (rule heap_ok_put [OF heap_ok_new [OF assms(2)]]) (use c in auto)
    ultimately show ?thesis using spill(3,4) by (auto simp: put_cell_def)
  next
    case rep
    then show ?thesis using write_replace_locks [OF rep assms(2) ad] by auto
  qed
qed

lemma put_cell_frame:
  assumes "cells H a = Some c" "IsLocked (hdr d) = IsLocked (hdr c)" "heap_ok H"
  shows "locked_cells (put_cell a d H) = locked_cells H \<and> heap_ok (put_cell a d H)"
proof -
  have "heap_ok (put_cell a d H)" by (rule heap_ok_put [OF assms(3)]) (use assms(1) in auto)
  then show ?thesis using assms(1,2) by (auto simp: locked_cells_put) (auto simp: locked_cells_def)
qed

lemma spill_hook_heap: "on_dbtuple_spill e h r w = Ok w' \<Longrightarrow> heap w' = heap w"
  by (auto simp: on_dbtuple_spill_def split: if_splits)

lemma delete_hook_frame:
  assumes "on_logical_delete e a k b w = Ok w'" "heap_ok (heap w)"
  shows "locked_cells (heap w') = locked_cells (heap w) \<and> heap_ok (heap w')"
  using assms put_cell_frame [of "heap w" a]
  by (auto simp: on_logical_delete_def Let_def split: if_splits)

lemma write_entry_frame:
  assumes "write_entry B epoch tid e w = Ok w'" "heap_ok (heap w)"
  shows "locked_cells (heap w') = locked_cells (heap w) \<and> heap_ok (heap w')"
proof (cases "w_insert e")
  case True
  then show ?thesis using assms put_cell_frame [of "heap w" "w_tuple e"] by (auto simp: write_entry_def)
next
  case False
  obtain ret H where wr: "write_record_at can_overwrite_record_tid (w_tuple e) tid (w_value e) (heap w) = Inr (ret, H)"
    using assms(1) False by (auto simp: write_entry_def of_res_def split: sum.splits)
  note f = write_record_locks [OF wr assms(2)]
  let ?u = "ret_head ret \<noteq> w_tuple e" and ?w = "w\<lparr>heap := H\<rparr>"
  obtain w1 w2 w3 where w1: "(if ?u then
        bind_run (lock_cell True (ret_head ret) (heap ?w)) (\<lambda>(_, H).
          Ok (?w\<lparr>heap := H, trees := (trees ?w)(w_btr e := fst (bt_insert B (trees ?w (w_btr e)) (w_key e) (ret_head ret)))\<rparr>))
      else Ok ?w) = Ok w1"
    and w2: "(case ret_rest ret of None \<Rightarrow> Ok w1 | Some r \<Rightarrow> on_dbtuple_spill epoch (ret_head ret) r w1) = Ok w2"
    and w3: "(if w_value e = None then on_logical_delete epoch (ret_head ret) (w_key e) (w_btr e) w2 else Ok w2) = Ok w3"
    and w4: "(if ?u then bind_run (unlock_cell (ret_head ret) (heap w3)) (\<lambda>H. Ok (w3\<lparr>heap := H\<rparr>)) else Ok w3) = Ok w'"
    using assms(1) False wr by (auto simp: write_entry_def of_res_def Let_def)
  have h1: "heap_ok (heap w1)" "locked_cells (heap w1) = (if ?u then {ret_head ret} else {}) \<union> locked_cells H"
    using w1 f by (auto simp: lock_cell_Ok locked_cells_put heap_ok_put dest: lock_try_flags split: if_splits)
      (auto intro!: heap_ok_put)
  have h2: "heap w2 = heap w1" using w2 spill_hook_heap by (auto split: option.splits)
  have h3: "heap_ok (heap w3)" "locked_cells (heap w3) = locked_cells (heap w1)"
    using w3 delete_hook_frame [of epoch "ret_head ret" "w_key e" "w_btr e" w2 w3] h1 h2 by (auto split: if_splits)
  have "heap_ok (heap w')" "locked_cells (heap w') = (if ?u then locked_cells (heap w3) - {ret_head ret} else locked_cells (heap w3))"
    using w4 h3(1) by (auto simp: unlock_cell_Ok locked_cells_put tuple_unlock_def hdr_unlock_flags intro!: heap_ok_put split: if_splits)
  then show ?thesis using h1 h3 f by auto
qed

lemma write_entries_frame:
  "write_entries B epoch tid es w = Ok w' \<Longrightarrow> heap_ok (heap w) \<Longrightarrow>
     locked_cells (heap w') = locked_cells (heap w) \<and> heap_ok (heap w')"
proof (induction es arbitrary: w)
  case (Cons e es)
  show ?case
  proof (cases "w_dowrite e")
    case True
    then obtain w1 where w1: "write_entry B epoch tid e w = Ok w1" "write_entries B epoch tid es w1 = Ok w'"
      using Cons.prems(1) by auto
    show ?thesis using write_entry_frame [OF w1(1) Cons.prems(2)] Cons.IH [OF w1(2)] by auto
  qed (use Cons in auto)
qed simp

lemma unlock_infos_frame:
  "unlock_infos is H = Ok H' \<Longrightarrow> locked_cells H' = locked_cells H - held_infos is"
proof (induction "is" arbitrary: H)
  case (Cons i js)
  show ?case
  proof (cases "i_locked i")
    case True
    then obtain H1 where h: "unlock_cell (i_tuple i) H = Ok H1" "unlock_infos js H1 = Ok H'"
      using Cons.prems by auto
    show ?thesis using unlock_frame(2) [OF h(1)] Cons.IH [OF h(2)] True by auto
  qed (use Cons in auto)
qed simp

lemma heap_ok_same_records: "same_records M H H' \<Longrightarrow> heap_ok H \<Longrightarrow> heap_ok H'"
proof -
  assume s: "same_records M H H'" and h: "heap_ok H"
  have "a \<in> dom (cells H)" if "a \<in> dom (cells H')" for a
  proof -
    have "rel_option (\<lambda>c d. a \<in> M \<or> same_cell c d) (cells H a) (cells H' a)" using s by (simp add: same_records_def)
    then show ?thesis using that by (cases "cells H a") auto
  qed
  then show "heap_ok H'" using s h by (auto simp: heap_ok_def same_records_def)
qed

text \<open>
  A commit that returns has released every lock, whatever its outcome; one that does not succeed has changed no record
  that it did not insert itself.
\<close>

lemma commit_releases:
  assumes "commit B core epoch th T w = Ok (out, T', w')" "t_state T = TXN_EMBRYO \<or> t_state T = TXN_ACTIVE"
    "\<not> is_snapshot T" "heap_ok (heap w)" "locked_cells (heap w) \<subseteq> own_inserts T"
  shows "locked_cells (heap w') = {}"
    "t_state T' = (if out = Returned True then TXN_COMMITED else TXN_ABRT)"
    "out \<noteq> Returned True \<Longrightarrow> same_records (own_inserts T) (heap w) (heap w') \<and> gc_queue w' = gc_queue w"
proof -
  let ?is = "sort_infos (write_infos (write_set T))"
  obtain ok "is" ws H where lg: "lock_groups [] None False ?is (write_set T) (heap w) = Ok (ok, is, ws, H)"
    using assms(1-3) by (auto simp: commit_def split: txn_state.splits)
  note lf = lock_groups_frame [OF lg, simplified]
  have held: "held_infos ?is = own_inserts T" "insert_tuples ?is = own_inserts T"
    by (simp_all add: write_infos_facts own_inserts_def)
  have sub: "locked_cells (heap w) \<subseteq> held_infos ?is" using assms(5) held by simp
  have l: "same_records {} (heap w) H" "held_infos ?is \<subseteq> held_infos is"
    "locked_cells H \<subseteq> locked_cells (heap w) \<union> held_infos is" using lf by (auto simp: lock_frame_def)
  have hk: "heap_ok H" using heap_ok_same_records [OF l(1) assms(4)] .
  have ab: "locked_cells (heap w') = {} \<and> t_state T' = TXN_ABRT \<and> out \<noteq> Returned True \<and>
      same_records (own_inserts T) (heap w) (heap w') \<and> gc_queue w' = gc_queue w"
    if "do_abort B th r is T1 w1 = Ok (out, T', w')" "heap w1 = H" "gc_queue w1 = gc_queue w" for r T1 w1
  proof -
    note d = do_abort_clean [OF that(1) _ sub, unfolded that(2,3), OF lf]
    show ?thesis using d by (simp add: held(2))
  qed
  let ?T0 = "T\<lparr>write_set := ws\<rparr>" and ?w0 = "w\<lparr>heap := H\<rparr>"
  define tid where "tid = gen_commit_tid core epoch (last_commit_tid ?w0) (map snd (read_set ?T0)) (tid_inputs is H)"
  define T1 where "T1 = (if is = [] then ?T0 else ?T0\<lparr>commit_epoch := epoch\<rparr>)"
  define w1 where "w1 = (if is = [] then ?w0 else ?w0\<lparr>last_commit_tid := tid\<rparr>)"
  have h1: "heap w1 = H" "gc_queue w1 = gc_queue w" "heap ?w0 = H" "gc_queue ?w0 = gc_queue w" by (simp_all add: w1_def)
  have run: "(if \<not> ok then do_abort B th ABORT_REASON_WRITE_NODE_INTERFERENCE is ?T0 ?w0
     else if \<not> list_all (read_valid is (heap w1)) (read_set T1)
     then do_abort B th ABORT_REASON_READ_NODE_INTEREFERENCE is T1 w1
     else if \<not> nodes_valid B (trees w1) (absent_set T1)
     then do_abort B th ABORT_REASON_NODE_SCAN_READ_VERSION_CHANGED is T1 w1
     else bind_run (write_entries B epoch tid (write_set T1) w1) (\<lambda>w.
          bind_run (unlock_infos is (heap w)) (\<lambda>H.
            Ok (Returned True, T1\<lparr>t_state := TXN_COMMITED\<rparr>, w\<lparr>heap := H\<rparr>)))) = Ok (out, T', w')"
    using assms(1-3) unfolding commit_def lg
    by (auto simp only: Let_def bind_run.simps prod.case tid_def T1_def w1_def txn_state.case if_False)
  have "locked_cells (heap w') = {} \<and> t_state T' = (if out = Returned True then TXN_COMMITED else TXN_ABRT) \<and>
    (out \<noteq> Returned True \<longrightarrow> same_records (own_inserts T) (heap w) (heap w') \<and> gc_queue w' = gc_queue w)"
  proof (cases "ok \<and> list_all (read_valid is (heap w1)) (read_set T1) \<and> nodes_valid B (trees w1) (absent_set T1)")
    case True
    then obtain w2 H2 where w2: "write_entries B epoch tid (write_set T1) w1 = Ok w2" "unlock_infos is (heap w2) = Ok H2"
      "out = Returned True" "T' = T1\<lparr>t_state := TXN_COMMITED\<rparr>" "w' = w2\<lparr>heap := H2\<rparr>" using run by auto
    have "locked_cells (heap w2) = locked_cells H" using write_entries_frame [OF w2(1)] h1 hk by simp
    then show ?thesis using unlock_infos_frame [OF w2(2)] l(2,3) sub w2(3-5) by auto
  next
    case False
    then obtain r Tx wx where "do_abort B th r is Tx wx = Ok (out, T', w')" "heap wx = H" "gc_queue wx = gc_queue w"
      using run h1 by (metis (no_types))
    then show ?thesis using ab [of r Tx wx] by simp
  qed
  then show "locked_cells (heap w') = {}"
    "t_state T' = (if out = Returned True then TXN_COMMITED else TXN_ABRT)"
    "out \<noteq> Returned True \<Longrightarrow> same_records (own_inserts T) (heap w) (heap w') \<and> gc_queue w' = gc_queue w"
    by blast+
qed

section \<open>Which puts are written\<close>

definition marked :: "write_record_t list \<Rightarrow> nat set" where
  "marked ws = {p. p < length ws \<and> w_dowrite (ws ! p)}"

fun group_last :: "dbtuple_write_info list \<Rightarrow> nat set" where
  "group_last [] = {}"
| "group_last [i] = {i_pos i}"
| "group_last (i # j # is) = (if i_tuple i \<noteq> i_tuple j then {i_pos i} else {}) \<union> group_last (j # is)"

definition insert_pos :: "dbtuple_write_info list \<Rightarrow> nat set" where
  "insert_pos is = i_pos ` {i \<in> set is. i_insert i}"

lemma marked_set_do_write: "p < length ws \<Longrightarrow> marked (set_do_write p ws) = insert p (marked ws)"
  by (auto simp: marked_def set_do_write_def nth_list_update)

lemma length_set_do_write [simp]: "length (set_do_write p ws) = length ws"
  by (simp add: set_do_write_def)

lemma handle_last_marks:
  assumes "handle_last_tuple_in_group l ins ws H = Ok (True, l', ws', H')" "i_pos l < length ws"
    "i_insert l \<longrightarrow> i_pos l \<in> marked ws"
  shows "marked ws' = insert (i_pos l) (marked ws)" "length ws' = length ws"
  using assms by (auto simp: handle_last_tuple_in_group_def lock_cell_Ok Let_def marked_set_do_write split: if_splits)

lemma insert_pos_simps [simp]:
  "insert_pos [] = {}" "insert_pos (i # is) = (if i_insert i then {i_pos i} else {}) \<union> insert_pos is"
  by (auto simp: insert_pos_def)

lemma lock_groups_marks:
  assumes "lock_groups dn lst ins rest ws H = Ok (True, is', ws', H')"
    "\<forall>i \<in> set ((case lst of None \<Rightarrow> [] | Some l \<Rightarrow> [l]) @ rest). i_pos i < length ws"
    "\<forall>l. lst = Some l \<longrightarrow> i_insert l \<longrightarrow> i_pos l \<in> marked ws"
  shows "marked ws' = marked ws \<union> group_last ((case lst of None \<Rightarrow> [] | Some l \<Rightarrow> [l]) @ rest) \<union> insert_pos rest"
  using assms
proof (induction dn lst ins rest ws H arbitrary: is' ws' H' rule: lock_groups.induct)
  case (1 dn ins ws H)
  then show ?case by simp
next
  case (2 dn l ins ws H)
  then show ?case using handle_last_marks [of l ins ws H] by auto
next
  case (3 dn lst ins it rest ws H)
  let ?r = "case lst of None \<Rightarrow> Ok (True, dn, ins, ws, H)
     | Some l \<Rightarrow> if i_tuple l \<noteq> i_tuple it then
          bind_run (handle_last_tuple_in_group l ins ws H) (\<lambda>(ok, l, ws, H). Ok (ok, dn @ [l], False, ws, H))
        else Ok (True, dn @ [l], ins, ws, H)"
  obtain ok1 dn1 ins1 ws1 H1 where r: "?r = Ok (ok1, dn1, ins1, ws1, H1)"
    and res: "(if \<not> ok1 then Ok (False, dn1 @ it # rest, ws1, H1)
       else lock_groups dn1 (Some it) (if i_insert it then True else ins1) rest
              (if i_insert it then set_do_write (i_pos it) ws1 else ws1) H1) = Ok (True, is', ws', H')"
    using 3(2) by (auto simp del: bind_run_Ok simp: bind_run_Ok [of ?r])
  have ok: "ok1" using res by (auto split: if_splits)
  let ?m = "case lst of None \<Rightarrow> {} | Some l \<Rightarrow> if i_tuple l \<noteq> i_tuple it then {i_pos l} else {}"
  have m1: "marked ws1 = marked ws \<union> ?m" "length ws1 = length ws"
    using r 3(3,4) ok handle_last_marks [of _ ins ws H]
    by (auto split: option.splits if_splits)
  let ?ws2 = "if i_insert it then set_do_write (i_pos it) ws1 else ws1"
  have pit: "i_pos it < length ws1" using 3(3) m1(2) by simp
  have m2: "marked ?ws2 = marked ws1 \<union> (if i_insert it then {i_pos it} else {})" "length ?ws2 = length ws"
    using pit m1(2) by (simp_all add: marked_set_do_write)
  have "marked ws' = marked ?ws2 \<union> group_last ((case Some it of None \<Rightarrow> [] | Some l \<Rightarrow> [l]) @ rest) \<union> insert_pos rest"
  proof (rule 3(1))
    show "lock_groups dn1 (Some it) (if i_insert it then True else ins1) rest ?ws2 H1 = Ok (True, is', ws', H')"
      using res ok by simp
    show "\<forall>i \<in> set ((case Some it of None \<Rightarrow> [] | Some l \<Rightarrow> [l]) @ rest). i_pos i < length ?ws2"
      using 3(3) m2(2) by simp
    show "\<forall>l. Some it = Some l \<longrightarrow> i_insert l \<longrightarrow> i_pos l \<in> marked ?ws2" unfolding m2 by simp
  qed (use ok in auto)
  moreover have "group_last ((case lst of None \<Rightarrow> [] | Some l \<Rightarrow> [l]) @ it # rest) = ?m \<union> group_last (it # rest)"
    by (cases lst) auto
  ultimately show ?case using m1(1) m2(1) by auto
qed

text \<open>In a sorted list of infos the last of each group is the one with the largest key.\<close>

definition info_key :: "dbtuple_write_info \<Rightarrow> nat \<times> bool \<times> nat" where
  "info_key i = (i_tuple i, \<not> i_insert i, i_pos i)"

lemma info_key_le: "info_key i \<le> info_key j \<Longrightarrow> i_tuple i \<le> i_tuple j"
  by (auto simp: info_key_def less_eq_prod_def)

lemma info_key_eq: "info_key i = info_key j \<Longrightarrow> i_pos i = i_pos j"
  by (simp add: info_key_def)

lemma group_last_sorted:
  assumes "sorted (map info_key is)" "distinct (map i_pos is)"
  shows "group_last is = i_pos ` {i \<in> set is. \<forall>j \<in> set is. i_tuple j = i_tuple i \<longrightarrow> info_key j \<le> info_key i}"
  using assms
proof (induction "is" rule: group_last.induct)
  case (3 i j js)
  let ?top = "\<lambda>is. {i \<in> set is. \<forall>j \<in> set is. i_tuple j = i_tuple i \<longrightarrow> info_key j \<le> info_key i}"
  have le: "info_key i \<le> info_key k" if "k \<in> set (j # js)" for k using 3(2) that by auto
  have ne: "i_pos i \<noteq> i_pos k" if "k \<in> set (j # js)" for k using 3(3) that by auto
  have IH: "group_last (j # js) = i_pos ` ?top (j # js)" using 3 by auto
  have tail: "?top (i # j # js) - {i} = ?top (j # js) - {i}"
    using le by (auto intro: order_trans)
  have ni: "i \<notin> set (j # js)" using ne by auto
  have head: "i \<in> ?top (i # j # js) \<longleftrightarrow> i_tuple i \<noteq> i_tuple j"
  proof
    assume "i \<in> ?top (i # j # js)"
    then have "i_tuple j = i_tuple i \<longrightarrow> info_key j \<le> info_key i" by simp
    then show "i_tuple i \<noteq> i_tuple j"
      using le [of j] ne [of j] info_key_eq by (metis order_antisym list.set_intros(1))
  next
    assume d: "i_tuple i \<noteq> i_tuple j"
    have "i_tuple k \<noteq> i_tuple i" if "k \<in> set (j # js)" for k
    proof -
      have "info_key j \<le> info_key k" using 3(2) that by auto
      then have "i_tuple j \<le> i_tuple k" by (rule info_key_le)
      moreover have "i_tuple i < i_tuple j" using info_key_le [OF le [of j]] d by simp
      ultimately show ?thesis by simp
    qed
    then show "i \<in> ?top (i # j # js)" by auto
  qed
  have nb: "i \<notin> ?top (j # js)" using ni by simp
  have ext: "A = (if P then {i} else {}) \<union> B" if "A - {i} = B - {i}" "i \<in> A \<longleftrightarrow> P" "i \<notin> B" for A B P
    using that by (cases P) (simp_all, blast+)
  show ?case unfolding ext [OF tail head nb] group_last.simps IH by auto
qed auto

text \<open>
  The entry that is written for a record: the insert, if this transaction inserted it, and the put made last.
\<close>

definition last_entry :: "write_record_t list \<Rightarrow> nat \<Rightarrow> bool" where
  "last_entry ws p \<longleftrightarrow> p < length ws \<and>
     (\<forall>q < length ws. w_tuple (ws ! q) = w_tuple (ws ! p) \<and> \<not> w_insert (ws ! q) \<longrightarrow> \<not> w_insert (ws ! p) \<and> q \<le> p)"

lemma info_at:
  "write_infos ws = map (\<lambda>p. \<lparr>i_tuple = w_tuple (ws ! p), i_insert = w_insert (ws ! p),
      i_locked = w_insert (ws ! p), i_pos = p\<rparr>) [0..<length ws]"
  by (rule nth_equalityI) (simp_all add: write_infos_def nth_enumerate_eq)

lemma image_section: "(\<And>p. g (f p) = p) \<Longrightarrow> g ` {i \<in> f ` S. P i} = {p \<in> S. P (f p)}"
  by (simp add: Compr_image_eq image_image)

lemma commit_marks:
  assumes "lock_groups [] None False (sort_infos (write_infos ws)) ws H = Ok (True, is', ws', H')"
    "\<forall>e \<in> set ws. \<not> w_dowrite e"
  shows "marked ws' = {p. p < length ws \<and> (w_insert (ws ! p) \<or> last_entry ws p)}"
proof -
  let ?s = "sort_infos (write_infos ws)"
  let ?i = "\<lambda>p. \<lparr>i_tuple = w_tuple (ws ! p), i_insert = w_insert (ws ! p), i_locked = w_insert (ws ! p), i_pos = p\<rparr>"
  have set_s: "set ?s = ?i ` {..<length ws}" by (auto simp: sort_infos_def info_at)
  have sorted: "sorted (map info_key ?s)"
    using sorted_sort_key [of info_key "write_infos ws"] by (simp add: sort_infos_def info_key_def [abs_def])
  have dist: "distinct (map i_pos ?s)"
    by (auto simp: sort_infos_def distinct_map info_at inj_on_def)
  have im: "i_pos ` {i \<in> ?i ` S. P i} = {p \<in> S. P (?i p)}" for S P
    by (rule image_section) simp
  have m: "marked ws = {}" using assms(2) by (auto simp: marked_def)
  have "marked ws' = marked ws \<union> group_last ?s \<union> insert_pos ?s"
    using lock_groups_marks [OF assms(1)] set_s by auto
  also have "group_last ?s = {p. p < length ws \<and> (\<forall>q < length ws. w_tuple (ws ! q) = w_tuple (ws ! p) \<longrightarrow>
      info_key (?i q) \<le> info_key (?i p))}"
    unfolding group_last_sorted [OF sorted dist] set_s im ball_simps(9) by auto
  also have "insert_pos ?s = {p. p < length ws \<and> w_insert (ws ! p)}"
    unfolding insert_pos_def set_s im by simp
  finally have e: "marked ws' = {p. p < length ws \<and> ((\<forall>q < length ws. w_tuple (ws ! q) = w_tuple (ws ! p) \<longrightarrow>
      info_key (?i q) \<le> info_key (?i p)) \<or> w_insert (ws ! p))}" using m by auto
  have k: "info_key (?i q) \<le> info_key (?i p) \<longleftrightarrow>
      (w_insert (ws ! q) \<and> \<not> w_insert (ws ! p) \<or> w_insert (ws ! q) = w_insert (ws ! p) \<and> q \<le> p)"
    if "w_tuple (ws ! q) = w_tuple (ws ! p)" for p q
    using that by (auto simp: info_key_def less_eq_prod_def)
  have "((\<forall>q < length ws. w_tuple (ws ! q) = w_tuple (ws ! p) \<longrightarrow> info_key (?i q) \<le> info_key (?i p)) \<or>
      w_insert (ws ! p)) = (w_insert (ws ! p) \<or> last_entry ws p)" if "p < length ws" for p
  proof (cases "w_insert (ws ! p)")
    case False
    then have "info_key (?i q) \<le> info_key (?i p) \<longleftrightarrow> w_insert (ws ! q) \<or> q \<le> p"
      if "w_tuple (ws ! q) = w_tuple (ws ! p)" for q using k [OF that] by blast
    then show ?thesis using False that unfolding last_entry_def by blast
  qed simp
  then show ?thesis unfolding e by blast
qed

section \<open>Puts and reads\<close>

text \<open>
  The documented behaviour of the B-tree that a put relies on: a key can be inserted exactly when a search does
  not find it.
\<close>

definition search_insert_law :: "'t btree_ops \<Rightarrow> bool" where
  "search_insert_law B \<longleftrightarrow> (\<forall>t k a. bt_insert_if_absent B t k a = None \<longleftrightarrow> fst (bt_search B t k) \<noteq> None)"

lemma try_insert_result:
  assumes "value_ok v"
  shows "\<exists>r T' w'. try_insert_new_tuple B btr k v T w = Ok (r, T', w') \<and>
    (r = None \<longleftrightarrow> bt_insert_if_absent B (trees w btr) k (brk (heap w)) = None) \<and>
    (r = None \<longrightarrow> trees w' = trees w \<and> T' = T)"
proof -
  let ?sz = "value_size v"
  let ?c = "dbtuple_first ?sz (alloc_space ?sz) True"
  note z = value_size_facts [OF assms]
  have sz: "(case v of None \<Rightarrow> 0 | Some bs \<Rightarrow> of_nat (length bs)) = ?sz" by (cases v) simp_all
  obtain q where q: "do_write v ?c = Inr (?c\<lparr>value_start := q\<rparr>)"
    using do_write_ok [OF assms, of ?c] dbtuple_first_room(1) [OF z(2)] by blast
  show ?thesis
    unfolding try_insert_new_tuple_def sz alloc_first_def new_cell_def
    by (auto simp: Let_def q of_res_def split: option.splits)
qed

text \<open>An abort takes no lock, so it does not spin.\<close>

lemma bind_run_Spins: "bind_run r f = Spins \<longleftrightarrow> r = Spins \<or> (\<exists>x. r = Ok x \<and> f x = Spins)"
  by (cases r) auto

lemma abort_no_spin:
  "get_tuple H a \<noteq> Spins" "unlock_cell a H \<noteq> Spins" "clear_latest_cell a H \<noteq> Spins"
  "cleanup_inserted_tuple_marker B m k btr w \<noteq> Spins"
  by (auto simp: get_tuple_def unlock_cell_def clear_latest_cell_def cleanup_inserted_tuple_marker_def bind_run_Spins
      split: option.splits)

lemma abort_inserts_no_spin: "abort_inserts B es w \<noteq> Spins"
  by (induction B es w rule: abort_inserts.induct) (auto simp: bind_run_Spins abort_no_spin)

lemma abort_throw_no_spin: "abort_throw B r T w \<noteq> Spins"
  by (auto simp: abort_throw_def abort_impl_def bind_run_Spins abort_inserts_no_spin split: txn_state.splits)

text \<open>A put ends after at most two turns: the key is found, or it is inserted.\<close>

lemma put_turn_inserts:
  fixes w :: "'t world"
  assumes "search_insert_law B" "value_ok v"
  shows "do_tree_put_retry B (Suc n) btr k v True T w \<noteq> Spins"
proof -
  obtain r T' and w' :: "'t world" where r: "try_insert_new_tuple B btr k v T w = Ok (r, T', w')"
    "r = None \<longleftrightarrow> bt_insert_if_absent B (trees w btr) k (brk (heap w)) = None" "r = None \<longrightarrow> trees w' = trees w \<and> T' = T"
    using try_insert_result [OF assms(2), of B btr k T w] by (elim exE conjE) (rule that)
  have "r = None \<Longrightarrow> fst (bt_search B (trees w' btr) k) \<noteq> None"
    using r(2,3) assms(1) by (auto simp: search_insert_law_def)
  then show ?thesis using r(1) by (auto simp: abort_throw_no_spin split: option.splits prod.splits bool.splits)
qed

lemma do_tree_put_ends:
  fixes w :: "'t world"
  assumes "search_insert_law B" "value_ok v"
  shows "do_tree_put B btr k v expect_new T w \<noteq> Spins"
proof -
  have "do_tree_put_retry B 2 btr k v expect_new T w \<noteq> Spins" for T and w :: "'t world"
  proof (cases expect_new)
    case True
    then show ?thesis using put_turn_inserts [OF assms, of 1] by (simp add: numeral_2_eq_2)
  next
    case False
    then show ?thesis using put_turn_inserts [OF assms, of 0]
      unfolding numeral_2_eq_2 do_tree_put_retry.simps(2) [of B "Suc 0"] by (simp split: option.splits prod.splits)
  qed
  then show ?thesis by (auto simp: do_tree_put_def Let_def abort_throw_no_spin)
qed

text \<open>A read of a record this transaction has put gives the value put first.\<close>

lemma read_own_write:
  assumes "find_write_set (write_set T) a = Some e"
  shows "do_tuple_read B True m a T w = Ok (Returned (w_value e), T, w)"
  using assms by (simp add: do_tuple_read_def)

lemma find_write_set_first:
  "find_write_set ws a = Some e \<longleftrightarrow>
     (\<exists>p < length ws. ws ! p = e \<and> w_tuple e = a \<and> (\<forall>q < p. w_tuple (ws ! q) \<noteq> a))"
proof (induction ws)
  case (Cons w ws)
  show ?case
  proof (cases "w_tuple w = a")
    case True
    then show ?thesis by (auto simp: nth_Cons' intro: exI [of _ 0])
  next
    case False
    have "(\<exists>p < length (w # ws). (w # ws) ! p = e \<and> w_tuple e = a \<and> (\<forall>q < p. w_tuple ((w # ws) ! q) \<noteq> a)) \<longleftrightarrow>
       (\<exists>p < length ws. ws ! p = e \<and> w_tuple e = a \<and> (\<forall>q < p. w_tuple (ws ! q) \<noteq> a))"
      using False by (auto simp: Ex_less_Suc2 All_less_Suc2)
    then show ?thesis using False Cons.IH by simp
  qed
qed simp

end
