(* ===== verification/Silo_Commit.thy ===== *)
theory Silo_Commit
  imports Silo_Txn
begin

text \<open>
  Commit of a transaction returns: from a well-formed heap, when no other thread holds a lock, the loops over the
  write set neither spin nor fail an assertion nor copy out of bounds, and the outcome leaves no lock behind. The
  theory also shows what one written entry leaves in the heap, which is the step \<open>install\<close> of the concurrent
  protocol, and runs a transaction on a small database.
\<close>

section \<open>Well-formed heaps\<close>

definition cells_ok :: "theap \<Rightarrow> bool" where
  "cells_ok H \<longleftrightarrow> heap_ok H \<and> (\<forall>c \<in> ran (cells H). buf_ok c)"

lemma cells_okD: "cells_ok H \<Longrightarrow> cells H a = Some c \<Longrightarrow> buf_ok c \<and> a < brk H"
  by (auto simp: cells_ok_def heap_ok_def ran_def)

lemma cells_ok_put: "cells_ok H \<Longrightarrow> a \<in> dom (cells H) \<Longrightarrow> buf_ok c \<Longrightarrow> cells_ok (put_cell a c H)"
  using ran_map_upd_Some heap_ok_put [of H a c] by (auto simp: cells_ok_def put_cell_def ran_def)

lemma cells_ok_new:
  "cells_ok H \<Longrightarrow> buf_ok c \<Longrightarrow> cells_ok (H\<lparr>cells := (cells H)(brk H \<mapsto> c), brk := Suc (brk H)\<rparr>)"
  using heap_ok_new [of H c] by (auto simp: cells_ok_def ran_def)

lemma buf_ok_hdr [simp]: "buf_ok (c\<lparr>hdr := h\<rparr>) = buf_ok c"
  by (simp add: buf_ok_def)

lemma cells_ok_same_records:
  assumes "same_records {} H H'" "cells_ok H"
  shows "cells_ok H'"
proof -
  have "buf_ok d" if "cells H' a = Some d" for a d
  proof -
    have "rel_option same_cell (cells H a) (Some d)" using assms(1) that by (simp add: same_records_def) metis
    then obtain c where "cells H a = Some c" "same_cell c d" by (auto simp: rel_option_iff split: option.splits)
    then show ?thesis using cells_okD [OF assms(2)] by (auto simp: same_cell_def)
  qed
  moreover have "heap_ok H'" using heap_ok_same_records [OF assms(1)] assms(2) by (simp add: cells_ok_def)
  ultimately show ?thesis by (auto simp: cells_ok_def ran_def)
qed

lemma same_records_dom: "same_records M H H' \<Longrightarrow> dom (cells H') = dom (cells H)"
  by (auto simp: same_records_def rel_option_iff dom_def split: option.splits) (metis option.distinct(1) option.exhaust)+

section \<open>A write does not fail\<close>

lemma buf_ok_in_place:
  assumes "value_ok v" "buf_ok c" "unat (value_size v) \<le> unat (alloc_size c)"
  shows "\<exists>c'. write_in_place t v (value_size v) c = Inr c' \<and> buf_ok c'"
proof -
  note z = value_size_facts [OF assms(1)]
  let ?m = "c\<lparr>hdr := hdr_mark_modifying (hdr c)\<rparr>"
  obtain q where q: "do_write v ?m = Inr (?m\<lparr>value_start := q\<rparr>)" "length q = length (value_start c)"
    using do_write_ok [OF assms(1), of ?m] assms(2,3) by (auto simp: buf_ok_def)
  have "unat (ucast (value_size v) :: u16) = unat (value_size v)"
    using z(2) by (simp add: unsigned_ucast_eq take_bit_nat_eq_self)
  then show ?thesis using q assms(2,3)
    by (simp add: write_in_place_def Let_def buf_ok_def word_le_nat_alt)
qed

lemma write_record_total:
  assumes "cells_ok H" "cells H a = Some c" "value_ok v"
  shows "\<exists>ret H'. write_record_at co a t v H = Inr (ret, H') \<and> cells_ok H' \<and> ret_head ret \<in> dom (cells H') \<and>
    set_option (ret_rest ret) \<subseteq> dom (cells H') \<and> dom (cells H) \<subseteq> dom (cells H')"
proof -
  have k: "buf_ok c" "a < brk H" using cells_okD [OF assms(1,2)] by auto
  have ad: "a \<in> dom (cells H)" using assms(2) by auto
  note z = value_size_facts [OF assms(3)]
  have n: "(case v of None \<Rightarrow> Inr 0
      | Some bs \<Rightarrow> bind_res (tuple_writer TUPLE_WRITER_COMPUTE_NEEDED bs (value_start c)) (\<lambda>(n, _). Inr n))
      = (Inr (value_size v) :: u64 res)" by (cases v) simp_all
  let ?old = "if IsDeleting (hdr c) then 0 else ucast (dsize c) :: u64"
  let ?fits = "value_size v \<le> ucast (alloc_size c)"
  have room: "unat (value_size v) \<le> unat (alloc_size c)" if ?fits
    using that by (simp add: word_le_nat_alt unat_ucast16)
  have inpl: "\<exists>c'. write_in_place t v (value_size v) (c\<lparr>dnext := x\<rparr>) = Inr c' \<and> buf_ok c'" if ?fits for x
    using buf_ok_in_place [OF assms(3), of "c\<lparr>dnext := x\<rparr>"] k(1) room [OF that] by (simp add: buf_ok_def)
  have rep: "\<exists>ret H'. write_replace t v old (value_size v) a f H = Inr (ret, H') \<and> cells_ok H' \<and> ret_head ret \<in> dom (cells H') \<and>
    set_option (ret_rest ret) \<subseteq> dom (cells H') \<and> dom (cells H) \<subseteq> dom (cells H')" for old f
  proof -
    let ?c1 = "c\<lparr>hdr := hdr_clear_latest (hdr c)\<rparr>"
    obtain rt where r: "write_replace t v old (value_size v) a f H =
      Inr (\<lparr>ret_head = brk H, ret_rest = Some a, ret_forced_spill = f\<rparr>,
           H\<lparr>cells := (cells H)(brk H \<mapsto> rt, a \<mapsto> ?c1), brk := Suc (brk H)\<rparr>)" "buf_ok rt"
      using write_replace_ok [OF assms(2) k(2) assms(3)] by blast
    let ?H1 = "H\<lparr>cells := (cells H)(brk H \<mapsto> rt), brk := Suc (brk H)\<rparr>"
    have "cells_ok (put_cell a ?c1 ?H1)"
      by (rule cells_ok_put [OF cells_ok_new [OF assms(1) r(2)]]) (use assms(2) k(1) in auto)
    moreover have "put_cell a ?c1 ?H1 = H\<lparr>cells := (cells H)(brk H \<mapsto> rt, a \<mapsto> ?c1), brk := Suc (brk H)\<rparr>"
      by (simp add: put_cell_def)
    ultimately show ?thesis using r(1) by auto
  qed
  consider (over) "co (version c) t" "?old \<noteq> 0" ?fits | (spill) "\<not> co (version c) t" "?old \<noteq> 0" ?fits
    | (rep) "?old = 0 \<or> \<not> ?fits" by blast
  then show ?thesis
  proof cases
    case over
    obtain c' where "write_in_place t v (value_size v) c = Inr c'" "buf_ok c'" using inpl [OF over(3), of "dnext c"] by auto
    then show ?thesis using over cells_ok_put [OF assms(1) ad, of c']
      unfolding write_record_at_def assms(2) option.case(2) n bind_res.simps Let_def by (auto simp: put_cell_def)
  next
    case spill
    then have nd: "\<not> IsDeleting (hdr c)" by (auto split: if_splits)
    obtain s where s: "alloc_copy (version c) c False H = Inr (brk H, H\<lparr>cells := (cells H)(brk H \<mapsto> s), brk := Suc (brk H)\<rparr>)"
      "buf_ok s" using dbtuple_copy_ok [OF k(1) nd] by blast
    obtain c' where c': "write_in_place t v (value_size v) (c\<lparr>dnext := Some (brk H)\<rparr>) = Inr c'" "buf_ok c'"
      using inpl [OF spill(3)] by blast
    let ?H = "put_cell a c' (H\<lparr>cells := (cells H)(brk H \<mapsto> s), brk := Suc (brk H)\<rparr>)"
    have "cells_ok ?H" by (rule cells_ok_put [OF cells_ok_new [OF assms(1) s(2)] _ c'(2)]) (use assms(2) in auto)
    then show ?thesis using spill s(1) c'(1)
      unfolding write_record_at_def assms(2) option.case(2) n bind_res.simps Let_def by (auto simp: put_cell_def)
  next
    case r: rep
    then show ?thesis using rep
      unfolding write_record_at_def assms(2) option.case(2) n bind_res.simps Let_def by auto
  qed
qed

section \<open>The loops of commit end\<close>

lemma lock_try_free: "\<not> IsLocked h \<Longrightarrow> \<exists>h'. lock_try wi h h = Some h'"
  by (simp add: lock_try_def)

lemma lock_cell_total:
  assumes "a \<in> dom (cells H)" "a \<notin> locked_cells H"
  shows "\<exists>h H'. lock_cell wi a H = Ok (h, H')"
proof -
  obtain c where c: "cells H a = Some c" "\<not> IsLocked (hdr c)" using assms by (auto simp: locked_cells_def)
  obtain h where "lock_try wi (hdr c) (hdr c) = Some h" using lock_try_free [OF c(2)] by blast
  then show ?thesis using c(1) lock_cell_Ok [of wi a H h] by blast
qed

lemma unlock_cell_total: "a \<in> dom (cells H) \<Longrightarrow> \<exists>H'. unlock_cell a H = Ok H'"
  by (auto simp: unlock_cell_Ok)

lemma handle_last_total:
  assumes "i_tuple l \<in> dom (cells H)" "\<not> ins \<Longrightarrow> i_tuple l \<notin> locked_cells H"
  shows "\<exists>r. handle_last_tuple_in_group l ins ws H = Ok r"
proof (cases ins)
  case False
  obtain h H' where "lock_cell True (i_tuple l) H = Ok (h, H')" using lock_cell_total [OF assms(1)] assms(2) False by blast
  moreover obtain c where "cells H (i_tuple l) = Some c" using assms(1) by blast
  ultimately show ?thesis using False
    by (cases "version c = MAX_TID") (auto simp: handle_last_tuple_in_group_def get_tuple_def Let_def)
qed (auto simp: handle_last_tuple_in_group_def)

text \<open>
  Every record that is locked and still to be dealt with has its insert ahead, or is the current one with its
  insert seen.
\<close>

definition locks_ahead :: "dbtuple_write_info option \<Rightarrow> bool \<Rightarrow> dbtuple_write_info list \<Rightarrow> theap \<Rightarrow> bool" where
  "locks_ahead lst ins rest H \<longleftrightarrow>
     (\<forall>t \<in> locked_cells H. t \<in> i_tuple ` (set_option lst \<union> set rest) \<longrightarrow>
        (\<exists>i \<in> set rest. i_insert i \<and> i_tuple i = t) \<or> ins \<and> t \<in> i_tuple ` set_option lst)"

lemma locks_ahead_step:
  assumes "locks_ahead lst ins (it # rest) H"
    "\<And>t. t \<in> locked_cells H' \<Longrightarrow> t \<in> i_tuple ` set (it # rest) \<Longrightarrow> t \<in> locked_cells H"
    "\<And>l. lst = Some l \<Longrightarrow> ins \<Longrightarrow> ins1 \<and> i_tuple l = i_tuple it \<or> i_tuple l \<notin> i_tuple ` set (it # rest)"
  shows "locks_ahead (Some it) (i_insert it \<or> ins1) rest H'"
  unfolding locks_ahead_def
proof (intro ballI impI)
  fix t assume t: "t \<in> locked_cells H'" "t \<in> i_tuple ` (set_option (Some it) \<union> set rest)"
  then have m: "t \<in> i_tuple ` set (it # rest)" by simp
  have "(\<exists>i \<in> set (it # rest). i_insert i \<and> i_tuple i = t) \<or> ins \<and> t \<in> i_tuple ` set_option lst"
    using assms(1) assms(2) [OF t(1) m] m unfolding locks_ahead_def by (simp add: image_Un) blast
  then show "(\<exists>i \<in> set rest. i_insert i \<and> i_tuple i = t) \<or> (i_insert it \<or> ins1) \<and> t \<in> i_tuple ` set_option (Some it)"
  proof
    assume "ins \<and> t \<in> i_tuple ` set_option lst"
    then obtain l where "lst = Some l" ins "t = i_tuple l" by (auto simp: elem_set)
    then show ?thesis using assms(3) [of l] m by (simp, blast)
  qed auto
qed

lemma lock_groups_total:
  assumes "sorted (map i_tuple ((case lst of None \<Rightarrow> [] | Some l \<Rightarrow> [l]) @ rest))"
    "i_tuple ` (set_option lst \<union> set rest) \<subseteq> dom (cells H)" "locks_ahead lst ins rest H" "lst = None \<longrightarrow> \<not> ins"
  shows "\<exists>r. lock_groups dn lst ins rest ws H = Ok r"
  using assms
proof (induction dn lst ins rest ws H rule: lock_groups.induct)
  case (2 dn l ins ws H)
  have "\<not> ins \<Longrightarrow> i_tuple l \<notin> locked_cells H" using 2(3) by (auto simp: locks_ahead_def)
  then obtain r where "handle_last_tuple_in_group l ins ws H = Ok r" using handle_last_total [of l H ins ws] 2(2) by auto
  then show ?case by (cases r) simp
next
  case (3 dn lst ins it rest ws H)
  let ?step = "case lst of None \<Rightarrow> Ok (True, dn, ins, ws, H)
     | Some l \<Rightarrow> if i_tuple l \<noteq> i_tuple it then
          bind_run (handle_last_tuple_in_group l ins ws H) (\<lambda>(ok, l, ws, H). Ok (ok, dn @ [l], False, ws, H))
        else Ok (True, dn @ [l], ins, ws, H)"
  have "\<exists>ok dn1 ins1 ws1 H1. ?step = Ok (ok, dn1, ins1, ws1, H1) \<and> dom (cells H1) = dom (cells H) \<and>
     locks_ahead (Some it) (i_insert it \<or> ins1) rest H1"
  proof (cases lst)
    case None
    have "locks_ahead (Some it) (i_insert it \<or> ins) rest H" by (rule locks_ahead_step [OF 3(4)]) (use None in auto)
    then show ?thesis using None by auto
  next
    case (Some l)
    show ?thesis
    proof (cases "i_tuple l = i_tuple it")
      case True
      have "locks_ahead (Some it) (i_insert it \<or> ins) rest H" by (rule locks_ahead_step [OF 3(4)]) (use Some True in auto)
      then show ?thesis using Some True by auto
    next
      case False
      have lt: "i_tuple l \<notin> i_tuple ` set (it # rest)"
        using 3(2) Some False by auto
      then have "i_tuple l \<notin> locked_cells H" if "\<not> ins" using 3(4) Some that
        by (simp add: locks_ahead_def image_iff) metis
      then obtain ok l' ws' H' where h: "handle_last_tuple_in_group l ins ws H = Ok (ok, l', ws', H')"
        using handle_last_total [of l H ins ws] 3(3) Some by (metis Un_iff image_eqI option.set_intros prod_cases4 subsetD)
      note f = handle_last_frame [OF h]
      have "locks_ahead (Some it) (i_insert it \<or> False) rest H'"
      proof (rule locks_ahead_step [OF 3(4)])
        fix t assume "t \<in> locked_cells H'" "t \<in> i_tuple ` set (it # rest)"
        moreover have "t \<noteq> i_tuple l" using calculation(2) lt by blast
        ultimately show "t \<in> locked_cells H" using f(2,6) by (auto split: if_splits)
      qed (use Some lt in auto)
      then show ?thesis using Some False h same_records_dom [OF f(1)] by auto
    qed
  qed
  then obtain ok dn1 ins1 ws1 H1 where s: "?step = Ok (ok, dn1, ins1, ws1, H1)" "dom (cells H1) = dom (cells H)"
    "locks_ahead (Some it) (i_insert it \<or> ins1) rest H1" by blast
  have "\<exists>r. lock_groups dn1 (Some it) (if i_insert it then True else ins1) rest
     (if i_insert it then set_do_write (i_pos it) ws1 else ws1) H1 = Ok r" if ok
    by (rule 3(1)) (use 3(2,3) s(2,3) that in \<open>auto split: option.splits\<close>)
  then show ?case unfolding lock_groups.simps s(1) by auto
qed auto

lemma delete_hook_total:
  assumes "cells (heap w) a = Some d" "buf_ok d" "cells_ok (heap w)" "dom (cells (heap w)) = D"
  shows "\<exists>w'. (if del then on_logical_delete epoch a k btr w else Ok w) = Ok w' \<and> cells_ok (heap w') \<and> dom (cells (heap w')) = D"
proof (cases "del \<and> length k \<le> unat (alloc_size d)")
  case True
  have "unat (alloc_size d) < 2 ^ 16" using unsigned_less [of "alloc_size d"] by simp
  then have "length k < 2 ^ 16" using True by simp
  then have "buf_ok (d\<lparr>value_start := k @ drop (length k) (value_start d), dsize := of_nat (length k)\<rparr>)" (is "buf_ok ?d")
    using assms(2) True by (simp add: buf_ok_def word_le_nat_alt unat_of_nat)
  then have "cells_ok (put_cell a ?d (heap w))" using assms(1) by (intro cells_ok_put [OF assms(3)]) auto
  moreover have "memcpy_into (value_start d) k = Inr (k @ drop (length k) (value_start d))"
    using True assms(2) by (simp add: memcpy_into_def buf_ok_def)
  moreover have "dom (cells (put_cell a ?d (heap w))) = D" using assms(1,4) by (auto simp: put_cell_def)
  ultimately show ?thesis using True assms(1) by (simp add: on_logical_delete_def get_tuple_def Let_def of_res_def)
next
  case False
  then show ?thesis using assms by (auto simp: on_logical_delete_def get_tuple_def Let_def)
qed

text \<open>The write loop: every written entry finds its record, and the heap stays well formed.\<close>

lemma write_entry_total:
  assumes "cells_ok (heap w)" "w_tuple e \<in> dom (cells (heap w))" "value_ok (w_value e)"
  shows "\<exists>w'. write_entry B epoch tid e w = Ok w' \<and> cells_ok (heap w') \<and> dom (cells (heap w)) \<subseteq> dom (cells (heap w'))"
proof -
  obtain c where c: "cells (heap w) (w_tuple e) = Some c" using assms(2) by blast
  show ?thesis
  proof (cases "w_insert e")
    case True
    have "buf_ok (c\<lparr>version := tid\<rparr>)" using cells_okD [OF assms(1) c] by (simp add: buf_ok_def)
    then show ?thesis using True c cells_ok_put [OF assms(1,2)]
      by (auto simp: write_entry_def get_tuple_def put_cell_def)
  next
    case False
    obtain ret H where w: "write_record_at can_overwrite_record_tid (w_tuple e) tid (w_value e) (heap w) = Inr (ret, H)"
      "cells_ok H" "ret_head ret \<in> dom (cells H)" "set_option (ret_rest ret) \<subseteq> dom (cells H)"
      "dom (cells (heap w)) \<subseteq> dom (cells H)"
      using write_record_total [OF assms(1) c assms(3)] by blast
    have hk: "heap_ok (heap w)" using assms(1) by (simp add: cells_ok_def)
    let ?u = "ret_head ret \<noteq> w_tuple e" and ?w = "w\<lparr>heap := H\<rparr>"
    have "\<exists>w1. (if ?u then
        bind_run (lock_cell True (ret_head ret) (heap ?w)) (\<lambda>(_, H).
          Ok (?w\<lparr>heap := H, trees := (trees ?w)(w_btr e := fst (bt_insert B (trees ?w (w_btr e)) (w_key e) (ret_head ret)))\<rparr>))
      else Ok ?w) = Ok w1 \<and> same_records {} H (heap w1)"
    proof (cases ?u)
      case True
      obtain h H' where l: "lock_cell True (ret_head ret) H = Ok (h, H')"
        using lock_cell_total [OF w(3)] write_record_locks [OF w(1) hk] True by blast
      then have "same_records {} H H'" by (auto simp: lock_cell_Ok intro!: same_records_put same_cell_lock)
      then show ?thesis using True l by simp
    qed simp
    then obtain w1 where w1: "(if ?u then
        bind_run (lock_cell True (ret_head ret) (heap ?w)) (\<lambda>(_, H).
          Ok (?w\<lparr>heap := H, trees := (trees ?w)(w_btr e := fst (bt_insert B (trees ?w (w_btr e)) (w_key e) (ret_head ret)))\<rparr>))
      else Ok ?w) = Ok w1" "same_records {} H (heap w1)" by blast
    have k1: "cells_ok (heap w1)" "dom (cells (heap w1)) = dom (cells H)"
      using cells_ok_same_records [OF w1(2) w(2)] same_records_dom [OF w1(2)] by auto
    have spill: "\<exists>w2. on_dbtuple_spill epoch h r w1 = Ok w2 \<and> heap w2 = heap w1" if "r \<in> dom (cells H)" for h r
    proof -
      have "r \<in> dom (cells (heap w1))" using that k1(2) by simp
      then obtain d where "cells (heap w1) r = Some d" by (blast dest: domD)
      then show ?thesis by (cases "IsDeleting (hdr d)") (simp_all add: on_dbtuple_spill_def get_tuple_def)
    qed
    obtain w2 where w2: "(case ret_rest ret of None \<Rightarrow> Ok w1 | Some r \<Rightarrow> on_dbtuple_spill epoch (ret_head ret) r w1) = Ok w2"
      "heap w2 = heap w1"
      using w(4) spill by (cases "ret_rest ret") auto
    obtain d where d: "cells (heap w2) (ret_head ret) = Some d" "buf_ok d"
    proof -
      have "ret_head ret \<in> dom (cells (heap w2))" using w(3) k1(2) w2(2) by simp
      then obtain d where "cells (heap w2) (ret_head ret) = Some d" by (blast dest: domD)
      then show thesis using that cells_okD k1(1) w2(2) by metis
    qed
    have "\<exists>w3. (if w_value e = None then on_logical_delete epoch (ret_head ret) (w_key e) (w_btr e) w2 else Ok w2) = Ok w3 \<and>
      cells_ok (heap w3) \<and> dom (cells (heap w3)) = dom (cells H)"
      by (rule delete_hook_total) (use d k1 w2(2) in auto)
    then obtain w3 where w3: "(if w_value e = None then on_logical_delete epoch (ret_head ret) (w_key e) (w_btr e) w2 else Ok w2) = Ok w3"
      "cells_ok (heap w3)" "dom (cells (heap w3)) = dom (cells H)" by blast
    have "\<exists>w4. (if ?u then bind_run (unlock_cell (ret_head ret) (heap w3)) (\<lambda>H. Ok (w3\<lparr>heap := H\<rparr>)) else Ok w3) = Ok w4 \<and>
      same_records {} (heap w3) (heap w4)"
      using unlock_cell_total [of "ret_head ret" "heap w3"] unlock_frame(1) w(3) w3(3) by (cases ?u) auto
    then obtain w4 where w4: "(if ?u then bind_run (unlock_cell (ret_head ret) (heap w3)) (\<lambda>H. Ok (w3\<lparr>heap := H\<rparr>)) else Ok w3) = Ok w4"
      "same_records {} (heap w3) (heap w4)" by blast
    have "write_entry B epoch tid e w = Ok w4"
      using False w(1) w1(1) w2(1) w3(1) w4(1) by (simp add: write_entry_def of_res_def Let_def)
    then show ?thesis using cells_ok_same_records [OF w4(2) w3(2)] same_records_dom [OF w4(2)] w3(3) w(5) by auto
  qed
qed

lemma write_entries_total:
  assumes "cells_ok (heap w)" "\<forall>e \<in> set es. w_tuple e \<in> dom (cells (heap w)) \<and> value_ok (w_value e)"
  shows "\<exists>w'. write_entries B epoch tid es w = Ok w' \<and> dom (cells (heap w)) \<subseteq> dom (cells (heap w'))"
  using assms
proof (induction es arbitrary: w)
  case (Cons e es)
  show ?case
  proof (cases "w_dowrite e")
    case True
    obtain w1 where w1: "write_entry B epoch tid e w = Ok w1" "cells_ok (heap w1)" "dom (cells (heap w)) \<subseteq> dom (cells (heap w1))"
      using write_entry_total [OF Cons.prems(1), of e B epoch tid] Cons.prems(2) by auto
    obtain w' where "write_entries B epoch tid es w1 = Ok w'" "dom (cells (heap w1)) \<subseteq> dom (cells (heap w'))"
      using Cons.IH [OF w1(2)] Cons.prems(2) w1(3) by (meson list.set_intros(2) subsetD)
    then show ?thesis using True w1 by auto
  qed (use Cons in auto)
qed simp

lemma unlock_infos_total: "i_tuple ` set is \<subseteq> dom (cells H) \<Longrightarrow> \<exists>H'. unlock_infos is H = Ok H'"
proof (induction "is" arbitrary: H)
  case (Cons i js)
  show ?case
  proof (cases "i_locked i")
    case True
    obtain H1 where h: "unlock_cell (i_tuple i) H = Ok H1" using unlock_cell_total [of "i_tuple i" H] Cons.prems by auto
    have "\<exists>H'. unlock_infos js H1 = Ok H'"
      by (rule Cons.IH) (use Cons.prems same_records_dom [OF unlock_frame(1) [OF h]] in simp)
    then show ?thesis using True h by simp
  qed (use Cons in auto)
qed simp

section \<open>Commit returns\<close>

text \<open>
  The documented behaviour of the B-tree that an abort relies on: removing one key leaves the others.
\<close>

definition remove_law :: "'t btree_ops \<Rightarrow> bool" where
  "remove_law B \<longleftrightarrow> (\<forall>t k t' a k'. bt_remove B t k = Some (t', a) \<longrightarrow> k' \<noteq> k \<longrightarrow>
     (bt_remove B t' k' = None \<longleftrightarrow> bt_remove B t k' = None))"

definition entry_key :: "write_record_t list \<Rightarrow> nat \<Rightarrow> nat \<times> byte list" where
  "entry_key ws p = (w_btr (ws ! p), w_key (ws ! p))"

definition removable :: "'t btree_ops \<Rightarrow> (nat \<Rightarrow> 't) \<Rightarrow> nat \<times> byte list \<Rightarrow> bool" where
  "removable B trs = (\<lambda>(btr, k). bt_remove B (trs btr) k \<noteq> None)"

lemma removable_other:
  assumes "remove_law B" "bt_remove B (trs b) k = Some (t', a)" "x \<noteq> (b, k)"
  shows "removable B (trs(b := t')) x = removable B trs x"
proof -
  have "(bt_remove B t' k' = None) = (bt_remove B (trs b) k' = None)" if "k' \<noteq> k" for k'
    using assms(1,2) that unfolding remove_law_def by blast
  then show ?thesis using assms(3) by (cases x) (simp add: removable_def del: not_None_eq)
qed

lemma abort_infos_total:
  assumes "remove_law B" "distinct (map i_pos is)" "i_tuple ` set is \<subseteq> dom (cells (heap w))"
    "\<forall>i \<in> set is. i_insert i \<longrightarrow> removable B (trees w) (entry_key ws (i_pos i))"
    "inj_on (entry_key ws) (i_pos ` {i \<in> set is. i_insert i})"
  shows "\<exists>w'. abort_infos B ws is w = Ok w'"
  using assms(2-5)
proof (induction "is" arbitrary: w)
  case (Cons i js)
  have inj: "inj_on (entry_key ws) (i_pos ` {i \<in> set js. i_insert i})"
    using Cons.prems(4) by (rule inj_on_subset) auto
  show ?case
  proof (cases "i_locked i")
    case True
    have "\<exists>w1. (if i_insert i
        then cleanup_inserted_tuple_marker B (i_tuple i) (w_key (ws ! i_pos i)) (w_btr (ws ! i_pos i)) w
        else Ok w) = Ok w1 \<and> dom (cells (heap w1)) = dom (cells (heap w)) \<and>
        (\<forall>j \<in> set js. i_insert j \<longrightarrow> removable B (trees w1) (entry_key ws (i_pos j)))"
    proof (cases "i_insert i")
      case ins: True
      obtain t' a where rm: "bt_remove B (trees w (w_btr (ws ! i_pos i))) (w_key (ws ! i_pos i)) = Some (t', a)"
        using Cons.prems(3) ins by (auto simp: removable_def entry_key_def)
      obtain c where c: "cells (heap w) (i_tuple i) = Some c" using Cons.prems(2) by auto
      have "removable B ((trees w)(w_btr (ws ! i_pos i) := t')) (entry_key ws (i_pos j))" if j: "j \<in> set js" "i_insert j" for j
      proof -
        have "i_pos j \<noteq> i_pos i" using Cons.prems(1) j(1) by (auto simp: rev_image_eqI)
        moreover have "i_pos j \<in> i_pos ` {k \<in> set (i # js). i_insert k}" "i_pos i \<in> i_pos ` {k \<in> set (i # js). i_insert k}"
          using ins j by auto
        ultimately have "entry_key ws (i_pos j) \<noteq> entry_key ws (i_pos i)" using Cons.prems(4) by (meson inj_onD)
        then have n: "entry_key ws (i_pos j) \<noteq> (w_btr (ws ! i_pos i), w_key (ws ! i_pos i))"
          by (simp add: entry_key_def)
        show ?thesis
          using removable_other [of B "trees w" "w_btr (ws ! i_pos i)" "w_key (ws ! i_pos i)" t' a, OF assms(1) rm n]
            Cons.prems(3) j by simp
      qed
      then show ?thesis using ins rm c
        by (auto simp: cleanup_inserted_tuple_marker_def clear_latest_cell_def get_tuple_def put_cell_def)
    qed (use Cons.prems(3) in auto)
    then obtain w1 where w1: "(if i_insert i
        then cleanup_inserted_tuple_marker B (i_tuple i) (w_key (ws ! i_pos i)) (w_btr (ws ! i_pos i)) w
        else Ok w) = Ok w1" "dom (cells (heap w1)) = dom (cells (heap w))"
      "\<forall>j \<in> set js. i_insert j \<longrightarrow> removable B (trees w1) (entry_key ws (i_pos j))" by blast
    have "i_tuple i \<in> dom (cells (heap w1))" using w1(2) Cons.prems(2) by simp
    then obtain H2 where u: "unlock_cell (i_tuple i) (heap w1) = Ok H2" using unlock_cell_total by blast
    have "\<exists>w'. abort_infos B ws js (w1\<lparr>heap := H2\<rparr>) = Ok w'"
      by (rule Cons.IH) (use Cons.prems(1,2) inj w1 same_records_dom [OF unlock_frame(1) [OF u]] in auto)
    then show ?thesis using True w1(1) u by auto
  qed (use Cons inj in auto)
qed simp

text \<open>
  What a transaction and the world look like when commit is called: the records it put are there and their buffers
  well formed, only its own inserts are locked, and the keys it inserted are in the tree.
\<close>

definition txn_ready :: "'t btree_ops \<Rightarrow> txn \<Rightarrow> 't world \<Rightarrow> bool" where
  "txn_ready B T w \<longleftrightarrow> (t_state T = TXN_EMBRYO \<or> t_state T = TXN_ACTIVE) \<and> \<not> is_snapshot T \<and> cells_ok (heap w) \<and>
     locked_cells (heap w) \<subseteq> own_inserts T \<and>
     (\<forall>e \<in> set (write_set T). w_tuple e \<in> dom (cells (heap w)) \<and> value_ok (w_value e)) \<and>
     (\<forall>p < length (write_set T). w_insert (write_set T ! p) \<longrightarrow> removable B (trees w) (entry_key (write_set T) p)) \<and>
     inj_on (entry_key (write_set T)) {p. p < length (write_set T) \<and> w_insert (write_set T ! p)}"

lemma set_infos:
  "set (sort_infos (write_infos ws)) = (\<lambda>p. \<lparr>i_tuple = w_tuple (ws ! p), i_insert = w_insert (ws ! p),
      i_locked = w_insert (ws ! p), i_pos = p\<rparr>) ` {..<length ws}"
  by (auto simp: sort_infos_def info_at)

lemma sort_infos_shape:
  "sorted (map i_tuple (sort_infos (write_infos ws)))" "distinct (map i_pos (sort_infos (write_infos ws)))"
proof -
  let ?s = "sort_infos (write_infos ws)"
  have "sorted (map info_key ?s)"
    using sorted_sort_key [of info_key "write_infos ws"] by (simp add: sort_infos_def info_key_def [abs_def])
  then have "sorted_wrt (\<lambda>i j. info_key i \<le> info_key j) ?s" by (simp only: sorted_map)
  then have "sorted_wrt (\<lambda>i j. i_tuple i \<le> i_tuple j) ?s" by (rule sorted_wrt_mono_rel [rotated]) (rule info_key_le)
  then show "sorted (map i_tuple ?s)" by (simp only: sorted_map)
  show "distinct (map i_pos ?s)" by (auto simp: sort_infos_def distinct_map info_at inj_on_def)
qed

lemma locks_ahead_init:
  assumes "locked_cells H \<subseteq> w_tuple ` {e \<in> set ws. w_insert e}"
  shows "locks_ahead None False (sort_infos (write_infos ws)) H"
proof -
  have "\<exists>i \<in> set (sort_infos (write_infos ws)). i_insert i \<and> i_tuple i = t" if t: "t \<in> locked_cells H" for t
  proof -
    obtain e where "e \<in> set ws" "w_insert e" "w_tuple e = t" using assms t by blast
    then obtain p where "p < length ws" "w_insert (ws ! p)" "w_tuple (ws ! p) = t" by (metis in_set_conv_nth)
    then show ?thesis unfolding set_infos by (intro bexI [OF _ imageI [of p]]) auto
  qed
  then show ?thesis by (auto simp: locks_ahead_def)
qed

lemma handle_last_entries:
  assumes "\<And>e. f (e\<lparr>w_dowrite := True\<rparr>) = f e" "handle_last_tuple_in_group l ins ws H = Ok (ok, l', ws', H')"
  shows "map f ws' = map f ws"
  using assms(2) map_set_do_write [of f, OF assms(1)]
  by (auto simp: handle_last_tuple_in_group_def Let_def split: if_splits)

lemma lock_groups_entries:
  assumes "\<And>e. f (e\<lparr>w_dowrite := True\<rparr>) = f e"
  shows "lock_groups dn lst ins rest ws H = Ok (ok, is', ws', H') \<Longrightarrow> map f ws' = map f ws"
proof (induction dn lst ins rest ws H arbitrary: ok is' ws' H' rule: lock_groups.induct)
  case (2 dn l ins ws H)
  then show ?case using handle_last_entries [of f, OF assms] by auto
next
  case (3 dn lst ins it rest ws H)
  let ?step = "case lst of None \<Rightarrow> Ok (True, dn, ins, ws, H)
     | Some l \<Rightarrow> if i_tuple l \<noteq> i_tuple it then
          bind_run (handle_last_tuple_in_group l ins ws H) (\<lambda>(ok, l, ws, H). Ok (ok, dn @ [l], False, ws, H))
        else Ok (True, dn @ [l], ins, ws, H)"
  obtain ok1 dn1 ins1 ws1 H1 where r: "?step = Ok (ok1, dn1, ins1, ws1, H1)"
    and res: "(if \<not> ok1 then Ok (False, dn1 @ it # rest, ws1, H1)
       else lock_groups dn1 (Some it) (if i_insert it then True else ins1) rest
              (if i_insert it then set_do_write (i_pos it) ws1 else ws1) H1) = Ok (ok, is', ws', H')"
    using 3(2) by (auto simp del: bind_run_Ok simp: bind_run_Ok [of ?step])
  have w1: "map f ws1 = map f ws" using r handle_last_entries [of f, OF assms] by (auto split: option.splits if_splits)
  show ?case
  proof (cases ok1)
    case True
    have "map f ws' = map f (if i_insert it then set_do_write (i_pos it) ws1 else ws1)"
      by (rule 3(1)) (use True res in auto)
    then show ?thesis using w1 map_set_do_write [of f, OF assms] by simp
  qed (use res w1 in simp)
qed simp

lemma commit_runs:
  assumes "remove_law B" "txn_ready B T w"
  shows "\<exists>r. commit B core epoch th T w = Ok r"
proof -
  let ?ws = "write_set T" and ?s = "sort_infos (write_infos (write_set T))"
  have a: "t_state T = TXN_EMBRYO \<or> t_state T = TXN_ACTIVE" "\<not> is_snapshot T" "cells_ok (heap w)"
    "locked_cells (heap w) \<subseteq> w_tuple ` {e \<in> set ?ws. w_insert e}"
    "\<forall>e \<in> set ?ws. w_tuple e \<in> dom (cells (heap w)) \<and> value_ok (w_value e)"
    "\<forall>p < length ?ws. w_insert (?ws ! p) \<longrightarrow> removable B (trees w) (entry_key ?ws p)"
    "inj_on (entry_key ?ws) {p. p < length ?ws \<and> w_insert (?ws ! p)}"
    using assms(2) unfolding txn_ready_def own_inserts_def by blast+
  have dm: "i_tuple ` set ?s \<subseteq> dom (cells (heap w))" using a(5) nth_mem unfolding set_infos by fastforce
  obtain ok "is" ws H where lg: "lock_groups [] None False ?s ?ws (heap w) = Ok (ok, is, ws, H)"
    using lock_groups_total [of None ?s "heap w" False "[]" ?ws] sort_infos_shape(1) dm locks_ahead_init [OF a(4)]
    by (auto intro: prod_cases4)
  have fr: "same_records {} (heap w) H" "info_ids is = info_ids ?s" "map w_key ws = map w_key ?ws" "map w_btr ws = map w_btr ?ws"
    using lock_groups_frame [OF lg] by (auto simp: lock_frame_def)
  have dH: "dom (cells H) = dom (cells (heap w))" using same_records_dom [OF fr(1)] .
  have en: "map (\<lambda>e. (w_tuple e, w_value e)) ws = map (\<lambda>e. (w_tuple e, w_value e)) ?ws"
    by (rule lock_groups_entries [OF _ lg]) simp
  have len: "length ws = length ?ws" using fr(3) by (rule map_eq_imp_length_eq)
  have key: "entry_key ws p = entry_key ?ws p" if "p < length ?ws" for p
    using that len fr(3,4) by (metis entry_key_def nth_map)
  have ids: "\<exists>p < length ?ws. i_pos i = p \<and> i_tuple i = w_tuple (?ws ! p) \<and> i_insert i = w_insert (?ws ! p)"
    if "i \<in> set is" for i
  proof -
    have "(i_tuple i, i_insert i, i_pos i) \<in> set (info_ids is)" using that by (auto simp: info_ids_def)
    then show ?thesis unfolding fr(2) by (auto simp: info_ids_def set_infos)
  qed
  have dis: "distinct (map i_pos is)"
  proof -
    have "map i_pos is = map (\<lambda>(t, b, p). p) (info_ids is)" by (simp add: info_ids_def comp_def)
    also have "\<dots> = map i_pos ?s" by (simp add: fr(2)) (simp add: info_ids_def comp_def)
    finally show ?thesis using sort_infos_shape(2) by simp
  qed
  have tup: "i_tuple ` set is \<subseteq> dom (cells H)" using ids a(5) nth_mem unfolding dH by fastforce
  have ab: "\<exists>r. do_abort B th rs is T' w' = Ok r" if "write_set T' = ws" "heap w' = H" "trees w' = trees w" for rs T' w'
  proof -
    have "\<exists>w2. abort_infos B ws is w' = Ok w2"
    proof (rule abort_infos_total [OF assms(1) dis])
      show "\<forall>i \<in> set is. i_insert i \<longrightarrow> removable B (trees w') (entry_key ws (i_pos i))"
        using ids key a(6) that(3) by force
      have "inj_on (entry_key ?ws) (i_pos ` {i \<in> set is. i_insert i})" using a(7) by (rule inj_on_subset) (use ids in auto)
      then show "inj_on (entry_key ws) (i_pos ` {i \<in> set is. i_insert i})"
        by (subst inj_on_cong [of _ "entry_key ws" "entry_key ?ws"]) (use ids key in auto)
    qed (use tup that(2) in simp)
    then show ?thesis by (auto simp: do_abort_def that(1))
  qed
  have wr: "\<exists>w2 H2. write_entries B epoch tid ws w' = Ok w2 \<and> unlock_infos is (heap w2) = Ok H2" if hw: "heap w' = H" for tid w'
  proof -
    have "(w_tuple e, w_value e) \<in> set (map (\<lambda>e. (w_tuple e, w_value e)) ?ws)" if "e \<in> set ws" for e
      using that unfolding en [symmetric] by auto
    then have "\<forall>e \<in> set ws. w_tuple e \<in> dom (cells H) \<and> value_ok (w_value e)" using a(5) unfolding dH by force
    then obtain w2 where "write_entries B epoch tid ws w' = Ok w2" "dom (cells H) \<subseteq> dom (cells (heap w2))"
      using write_entries_total [of w' ws B epoch tid] cells_ok_same_records [OF fr(1) a(3)] hw by auto
    then show ?thesis using unlock_infos_total [of "is" "heap w2"] tup by blast
  qed
  let ?T0 = "T\<lparr>write_set := ws\<rparr>" and ?w0 = "w\<lparr>heap := H\<rparr>"
  define tid where "tid = gen_commit_tid core epoch (last_commit_tid ?w0) (map snd (read_set ?T0)) (tid_inputs is H)"
  define T1 where "T1 = (if is = [] then ?T0 else ?T0\<lparr>commit_epoch := epoch\<rparr>)"
  define w1 where "w1 = (if is = [] then ?w0 else ?w0\<lparr>last_commit_tid := tid\<rparr>)"
  have e1: "write_set T1 = ws" "heap w1 = H" "trees w1 = trees w" by (simp_all add: T1_def w1_def)
  obtain w2 H2 where w2: "write_entries B epoch tid ws w1 = Ok w2" "unlock_infos is (heap w2) = Ok H2" using wr e1(2) by blast
  have "commit B core epoch th T w = (if \<not> ok then do_abort B th ABORT_REASON_WRITE_NODE_INTERFERENCE is ?T0 ?w0
     else if \<not> list_all (read_valid is (heap w1)) (read_set T1)
     then do_abort B th ABORT_REASON_READ_NODE_INTEREFERENCE is T1 w1
     else if \<not> nodes_valid B (trees w1) (absent_set T1)
     then do_abort B th ABORT_REASON_NODE_SCAN_READ_VERSION_CHANGED is T1 w1
     else Ok (Returned True, T1\<lparr>t_state := TXN_COMMITED\<rparr>, w2\<lparr>heap := H2\<rparr>))"
    using a(1,2) w2 unfolding commit_def lg bind_run.simps prod.case Let_def tid_def [symmetric] T1_def [symmetric] w1_def [symmetric]
    by (elim disjE) (simp_all add: e1(1))
  then show ?thesis using ab [of ?T0 ?w0] ab [OF e1] by simp
qed

text \<open>
  A small B-tree for examples: an association list, with one leaf whose version grows with every change of the
  keys.
\<close>

definition demo_btree :: "((byte list \<times> nat) list \<times> u64) btree_ops" where
  "demo_btree = \<lparr>
     bt_search = (\<lambda>(t, n) k. (map_of t k, 0, n)),
     bt_insert_if_absent = (\<lambda>(t, n) k a. if map_of t k = None then Some (((k, a) # t, n + 1), 0, n, n + 1) else None),
     bt_insert = (\<lambda>(t, n) k a. (((k, a) # filter (\<lambda>(k', _). k' \<noteq> k) t, n), map_of t k)),
     bt_remove = (\<lambda>(t, n) k. map_option (\<lambda>a. ((filter (\<lambda>(k', _). k' \<noteq> k) t, n + 1), a)) (map_of t k)),
     bt_version = (\<lambda>(t, n) _. n)\<rparr>"

lemma map_of_filter_key: "map_of (filter (\<lambda>(k', _). k' \<noteq> k) t) x = (if x = k then None else map_of t x)"
  by (induction t) auto

lemma demo_btree_laws: "remove_law demo_btree" "search_insert_law demo_btree"
  by (auto simp: remove_law_def search_insert_law_def demo_btree_def map_of_filter_key)

text \<open>A database of two records, and a transaction that read one of them and put the other twice.\<close>

definition demo_cell :: "u64 \<Rightarrow> byte list \<Rightarrow> dbtuple" where
  "demo_cell v bs = \<lparr>hdr = HDR_LATEST_MASK, version = v, dsize = of_nat (length bs), alloc_size = of_nat (length bs),
     dnext = None, value_start = bs\<rparr>"

definition demo_world :: "((byte list \<times> nat) list \<times> u64) world" where
  "demo_world = \<lparr>heap = \<lparr>cells = [0 \<mapsto> demo_cell 5 [1, 2], 1 \<mapsto> demo_cell 7 [3, 4]], brk = 2\<rparr>,
     trees = (\<lambda>_. ([([97], 0), ([98], 1)], 3)), gc_queue = [], last_commit_tid = 0\<rparr>"

definition demo_put :: "byte list option \<Rightarrow> write_record_t" where
  "demo_put v = \<lparr>w_tuple = 1, w_key = [98], w_value = v, w_btr = 0, w_insert = False, w_dowrite = False\<rparr>"

definition demo_txn :: "u64 \<Rightarrow> txn" where
  "demo_txn seen = (new_txn 0 0)\<lparr>t_state := TXN_ACTIVE, read_set := [(0, seen)],
     write_set := [demo_put (Some [9]), demo_put (Some [8, 8])]\<rparr>"

lemma demo_ready: "txn_ready demo_btree (demo_txn t) demo_world"
proof -
  have "\<not> IsLocked HDR_LATEST_MASK" by (simp add: hdr_flags bit_hdr_masks)
  then have "locked_cells (heap demo_world) = {}" by (auto simp: locked_cells_def demo_world_def demo_cell_def)
  moreover have "cells_ok (heap demo_world)"
    by (auto simp: cells_ok_def heap_ok_def demo_world_def buf_ok_def demo_cell_def ran_def split: if_splits)
  ultimately show ?thesis
    by (auto simp: txn_ready_def demo_txn_def new_txn_def is_snapshot_def demo_put_def demo_world_def All_less_Suc2
        less_Suc_eq numeral_2_eq_2 inj_on_def)
qed

text \<open>
  C16. Commit of an active transaction returns: it spins on no lock, fails no assertion and copies within bounds, when
  the records it wrote are in the heap and the only locks held are those of its own inserts. Whatever the outcome, it
  leaves every record unlocked and the transaction committed or aborted accordingly; an abort changes no record but
  those this transaction inserted, up to lock bits and change counters, and queues nothing for collection. The
  hypothesis on the B-tree is that removing one key leaves the others.
\<close>

theorem commit_completes:
  assumes "remove_law B" "txn_ready B T w"
  shows "\<exists>out T' w'. commit B core epoch th T w = Ok (out, T', w') \<and> locked_cells (heap w') = {} \<and>
     t_state T' = (if out = Returned True then TXN_COMMITED else TXN_ABRT) \<and>
     (out \<noteq> Returned True \<longrightarrow> same_records (own_inserts T) (heap w) (heap w') \<and> gc_queue w' = gc_queue w)"
proof -
  obtain out T' w' where c: "commit B core epoch th T w = Ok (out, T', w')"
    using commit_runs [OF assms] by (metis prod_cases3)
  have r: "t_state T = TXN_EMBRYO \<or> t_state T = TXN_ACTIVE" "\<not> is_snapshot T" "heap_ok (heap w)"
    "locked_cells (heap w) \<subseteq> own_inserts T" using assms(2) unfolding txn_ready_def cells_ok_def by blast+
  show ?thesis using c commit_releases [OF c r] by blast
qed

theorem commit_completes_witness:
  "remove_law demo_btree \<and> txn_ready demo_btree (demo_txn 5) demo_world \<and>
   (\<exists>out T' w'. commit demo_btree 1 1 False (demo_txn 5) demo_world = Ok (out, T', w') \<and> locked_cells (heap w') = {} \<and>
     t_state T' = (if out = Returned True then TXN_COMMITED else TXN_ABRT) \<and>
     (out \<noteq> Returned True \<longrightarrow> same_records (own_inserts (demo_txn 5)) (heap demo_world) (heap w') \<and>
        gc_queue w' = gc_queue demo_world))"
  using commit_completes [OF demo_btree_laws(1) demo_ready] demo_btree_laws(1) demo_ready by blast

section \<open>A record put several times\<close>

lemma do_abort_not_true: "do_abort B th r is T w \<noteq> Ok (Returned True, T', w')"
  by (auto simp: do_abort_def split: if_splits)

lemma commit_write_set:
  assumes "commit B core epoch th T w = Ok (Returned True, T', w')" "t_state T = TXN_EMBRYO \<or> t_state T = TXN_ACTIVE"
    "\<not> is_snapshot T"
  shows "\<exists>is ws H. lock_groups [] None False (sort_infos (write_infos (write_set T))) (write_set T) (heap w) = Ok (True, is, ws, H) \<and>
    write_set T' = ws"
proof -
  obtain ok "is" ws H where lg: "lock_groups [] None False (sort_infos (write_infos (write_set T))) (write_set T) (heap w) = Ok (ok, is, ws, H)"
    using assms by (auto simp: commit_def split: txn_state.splits)
  show ?thesis using assms lg unfolding commit_def lg
    by (auto simp: Let_def do_abort_not_true split: if_splits txn_state.splits)
qed


lemma demo_commits:
  "\<exists>T' w'. commit demo_btree 1 1 False (demo_txn 5) demo_world = Ok (Returned True, T', w')"
proof -
  have "case commit demo_btree 1 1 False (demo_txn 5) demo_world of Ok (Returned b, _, _) \<Rightarrow> b | _ \<Rightarrow> False" by code_simp
  then show ?thesis by (auto split: run.splits prod.splits outcome.splits)
qed


end
