(* ===== verification/Silo_Serial.thy ===== *)
theory Silo_Serial
  imports Silo_Tid "HOL-Library.Sublist"
begin

unbundle bit_operations_syntax

text \<open>
  Silo's optimistic commit protocol under concurrency: the steps of \<open>do_tuple_read\<close>, \<open>try_insert_new_tuple\<close>,
  \<open>commit\<close> and the abort path of \<^verbatim>\<open>src/silo/txn_impl.h\<close>, interleaved between any number of transactions. Each
  step is one call on one record: a read, a lock, a validation, a write, an unlock. A record stands for the
  newest tuple of a key; a key without a tuple is a record with the id MIN_TID and no contents, and the
  check of a B-tree node's version is the check that such a record is still absent. That a tuple read or
  validated in several loads behaves like one step is shown with the header word, that a tuple which was
  replaced fails validation in the theory of transactions. Garbage collection of deleted keys is not part of
  this model. The theorem is serializability: the transactions that commit behave as if they ran one after
  the other, in the order in which they held all their locks.
\<close>

section \<open>The protocol\<close>

type_synonym dbval = "byte list option"

datatype pc =
    Exec
  | Locking "nat list"
  | Validating "(nat \<times> u64 \<times> dbval) list"
  | Finishing "(nat \<times> dbval) list"
  | Aborting
  | Finished bool

record thread =
  pc :: pc
  rds :: "(nat \<times> u64 \<times> dbval) list"
  puts :: "(nat \<times> dbval) list"
  wrs :: "(nat \<times> dbval) list"
  held :: "nat set"
  ctid :: u64

record cstate =
  recs :: "nat \<Rightarrow> dbtuple"
  thr :: "nat \<Rightarrow> thread"
  order :: "nat list"

text \<open>
  What commit writes: the records in address order, each with the value put last.
\<close>

definition final_writes :: "(nat \<times> dbval) list \<Rightarrow> (nat \<times> dbval) list" where
  "final_writes ps = map (\<lambda>x. (x, the (map_of (rev ps) x))) (sorted_list_of_set (fst ` set ps))"

text \<open>
  The validation of one read at commit: a record this transaction has locked itself is only compared, any other
  one must also be free of writers.
\<close>

definition validates :: "thread \<Rightarrow> nat \<Rightarrow> dbtuple \<Rightarrow> u64 \<Rightarrow> bool" where
  "validates T x c t =
     (if x \<in> fst ` set (wrs T) then is_latest_version c t else stable_is_latest_version c t)"

text \<open>A record after a write and before the unlock, whether it was overwritten or put in front.\<close>

definition installed :: "dbtuple \<Rightarrow> u64 \<Rightarrow> dbval \<Rightarrow> bool" where
  "installed c t v \<longleftrightarrow> version c = t \<and> contents c = v \<and> IsLocked (hdr c) \<and> IsWriteIntent (hdr c) \<and> IsLatest (hdr c)"

definition absent :: "dbtuple \<Rightarrow> bool" where
  "absent c \<longleftrightarrow> version c = MIN_TID \<and> contents c = None"

inductive sstep :: "cstate \<Rightarrow> cstate \<Rightarrow> bool" where
  read: "\<lbrakk>pc (thr s i) = Exec; readable False (recs s x) \<or> absent (recs s x)\<rbrakk> \<Longrightarrow>
    sstep s (s\<lparr>thr := (thr s)(i := (thr s i)\<lparr>rds := rds (thr s i) @
      [(x, version (recs s x), contents (recs s x))]\<rparr>)\<rparr>)"
| put: "pc (thr s i) = Exec \<Longrightarrow>
    sstep s (s\<lparr>thr := (thr s)(i := (thr s i)\<lparr>puts := puts (thr s i) @ [(x, v)]\<rparr>)\<rparr>)"
| insert: "\<lbrakk>pc (thr s i) = Exec; absent (recs s x); lock_try True (hdr (recs s x)) (hdr (recs s x)) = Some h\<rbrakk> \<Longrightarrow>
    sstep s (s\<lparr>recs := (recs s)(x := (recs s x)\<lparr>hdr := h\<rparr>),
      thr := (thr s)(i := (thr s i)\<lparr>puts := puts (thr s i) @ [(x, v)], held := insert x (held (thr s i))\<rparr>)\<rparr>)"
| commit: "pc (thr s i) = Exec \<Longrightarrow>
    sstep s (s\<lparr>thr := (thr s)(i := (thr s i)\<lparr>wrs := final_writes (puts (thr s i)),
      pc := Locking (filter (\<lambda>x. x \<notin> held (thr s i)) (map fst (final_writes (puts (thr s i)))))\<rparr>)\<rparr>)"
| lock: "\<lbrakk>pc (thr s i) = Locking (x # xs); lock_try True (hdr (recs s x)) (hdr (recs s x)) = Some h;
     n = (if IsLatest h then Locking xs else Aborting)\<rbrakk> \<Longrightarrow>
    sstep s (s\<lparr>recs := (recs s)(x := (recs s x)\<lparr>hdr := h\<rparr>),
      thr := (thr s)(i := (thr s i)\<lparr>pc := n, held := insert x (held (thr s i))\<rparr>)\<rparr>)"
| serialize: "\<lbrakk>pc (thr s i) = Locking [];
     wrs (thr s i) = [] \<or> commit_inputs_ok core epoch lst (map (\<lambda>(x, t, v). t) (rds (thr s i)))
       (map (\<lambda>(x, v). (False, version (recs s x))) (wrs (thr s i)));
     t = gen_commit_tid core epoch lst (map (\<lambda>(x, t, v). t) (rds (thr s i)))
       (map (\<lambda>(x, v). (False, version (recs s x))) (wrs (thr s i)))\<rbrakk> \<Longrightarrow>
    sstep s (s\<lparr>thr := (thr s)(i := (thr s i)\<lparr>pc := Validating (rds (thr s i)), ctid := t\<rparr>),
      order := order s @ [i]\<rparr>)"
| validate: "\<lbrakk>pc (thr s i) = Validating ((x, t, v) # rs); validates (thr s i) x (recs s x) t\<rbrakk> \<Longrightarrow>
    sstep s (s\<lparr>thr := (thr s)(i := (thr s i)\<lparr>pc := Validating rs\<rparr>)\<rparr>)"
| decide: "pc (thr s i) = Validating [] \<Longrightarrow>
    sstep s (s\<lparr>thr := (thr s)(i := (thr s i)\<lparr>pc := Finishing (wrs (thr s i))\<rparr>)\<rparr>)"
| install: "\<lbrakk>pc (thr s i) = Finishing ((x, v) # ws); installed c (ctid (thr s i)) v\<rbrakk> \<Longrightarrow>
    sstep s (s\<lparr>recs := (recs s)(x := c), thr := (thr s)(i := (thr s i)\<lparr>pc := Finishing ws\<rparr>)\<rparr>)"
| release: "\<lbrakk>pc (thr s i) = Finishing ws; x \<in> held (thr s i); x \<notin> fst ` set ws\<rbrakk> \<Longrightarrow>
    sstep s (s\<lparr>recs := (recs s)(x := tuple_unlock (recs s x)),
      thr := (thr s)(i := (thr s i)\<lparr>held := held (thr s i) - {x}\<rparr>)\<rparr>)"
| finish: "\<lbrakk>pc (thr s i) = Finishing []; held (thr s i) = {}\<rbrakk> \<Longrightarrow>
    sstep s (s\<lparr>thr := (thr s)(i := (thr s i)\<lparr>pc := Finished True\<rparr>)\<rparr>)"
| give_up: "pc (thr s i) = Exec \<or> (\<exists>xs. pc (thr s i) = Locking xs) \<or> (\<exists>rs. pc (thr s i) = Validating rs) \<Longrightarrow>
    sstep s (s\<lparr>thr := (thr s)(i := (thr s i)\<lparr>pc := Aborting\<rparr>)\<rparr>)"
| abort_release: "\<lbrakk>pc (thr s i) = Aborting; x \<in> held (thr s i)\<rbrakk> \<Longrightarrow>
    sstep s (s\<lparr>recs := (recs s)(x := tuple_unlock (recs s x)),
      thr := (thr s)(i := (thr s i)\<lparr>held := held (thr s i) - {x}\<rparr>)\<rparr>)"
| aborted: "\<lbrakk>pc (thr s i) = Aborting; held (thr s i) = {}\<rbrakk> \<Longrightarrow>
    sstep s (s\<lparr>thr := (thr s)(i := (thr s i)\<lparr>pc := Finished False\<rparr>)\<rparr>)"

definition fresh_thread :: thread where
  "fresh_thread = \<lparr>pc = Exec, rds = [], puts = [], wrs = [], held = {}, ctid = 0\<rparr>"

definition cinit :: "(nat \<Rightarrow> dbtuple) \<Rightarrow> cstate" where
  "cinit db = \<lparr>recs = db, thr = (\<lambda>_. fresh_thread), order = []\<rparr>"

text \<open>An initial database: every record at rest and newest.\<close>

definition db_at_rest :: "(nat \<Rightarrow> dbtuple) \<Rightarrow> bool" where
  "db_at_rest db \<longleftrightarrow> (\<forall>x. \<not> IsLocked (hdr (db x)) \<and> \<not> IsWriteIntent (hdr (db x)) \<and>
     \<not> IsModifying (hdr (db x)) \<and> IsLatest (hdr (db x)) \<and> version (db x) \<noteq> MAX_TID)"

section \<open>The serial specification\<close>

text \<open>Transactions one after the other: what each reads is what those before it left.\<close>

definition apply_writes :: "(nat \<times> dbval) list \<Rightarrow> (nat \<Rightarrow> dbval) \<Rightarrow> nat \<Rightarrow> dbval" where
  "apply_writes ws db x = (case map_of ws x of None \<Rightarrow> db x | Some v \<Rightarrow> v)"

fun replay :: "(nat \<Rightarrow> dbval) \<Rightarrow> thread list \<Rightarrow> nat \<Rightarrow> dbval" where
  "replay db [] = db"
| "replay db (T # Ts) = replay (apply_writes (wrs T) db) Ts"

fun serial_ok :: "(nat \<Rightarrow> dbval) \<Rightarrow> thread list \<Rightarrow> bool" where
  "serial_ok db [] = True"
| "serial_ok db (T # Ts) \<longleftrightarrow>
     (\<forall>(x, t, v) \<in> set (rds T). db x = v) \<and> serial_ok (apply_writes (wrs T) db) Ts"

definition is_committed :: "thread \<Rightarrow> bool" where
  "is_committed T = (case pc T of Finishing _ \<Rightarrow> True | Finished b \<Rightarrow> b | _ \<Rightarrow> False)"

definition history :: "cstate \<Rightarrow> thread list" where
  "history s = filter is_committed (map (thr s) (order s))"

section \<open>Replaying\<close>

lemma replay_append: "replay db (xs @ ys) = replay (replay db xs) ys"
  by (induction xs arbitrary: db) simp_all

lemma replay_snoc: "replay db (xs @ [T]) = apply_writes (wrs T) (replay db xs)"
  by (simp add: replay_append)

lemma serial_ok_append: "serial_ok db (xs @ ys) \<longleftrightarrow> serial_ok db xs \<and> serial_ok (replay db xs) ys"
  by (induction xs arbitrary: db) simp_all

lemma apply_writes_other: "x \<notin> fst ` set ws \<Longrightarrow> apply_writes ws db x = db x"
  by (simp add: apply_writes_def map_of_eq_None_iff [THEN iffD2])

lemma apply_writes_same: "db x = db' x \<Longrightarrow> apply_writes ws db x = apply_writes ws db' x"
  by (simp add: apply_writes_def split: option.splits)

lemma apply_writes_mem: "distinct (map fst ws) \<Longrightarrow> (x, v) \<in> set ws \<Longrightarrow> apply_writes ws db x = v"
  by (simp add: apply_writes_def)

lemma replay_same: "db x = db' x \<Longrightarrow> replay db Ts x = replay db' Ts x"
proof (induction Ts arbitrary: db db')
  case (Cons T Ts)
  show ?case unfolding replay.simps by (rule Cons.IH, rule apply_writes_same, fact Cons.prems)
qed simp

lemma replay_other: "(\<And>T. T \<in> set Ts \<Longrightarrow> x \<notin> fst ` set (wrs T)) \<Longrightarrow> replay db Ts x = db x"
proof (induction Ts arbitrary: db)
  case (Cons T Ts)
  then show ?case by (simp add: apply_writes_other)
qed simp

text \<open>A transaction in the middle that does not write \<open>x\<close> makes no difference to \<open>x\<close>.\<close>

lemma replay_insert_other:
  "x \<notin> fst ` set (wrs T) \<Longrightarrow> replay db (xs @ T # ys) x = replay db (xs @ ys) x"
  by (simp add: replay_append) (rule replay_same, simp add: apply_writes_other)

lemma serial_ok_from_prefixes:
  assumes "distinct L"
    "\<And>i x t v. i \<in> set L \<Longrightarrow> C (f i) \<Longrightarrow> (x, t, v) \<in> set (rds (f i)) \<Longrightarrow>
       replay db (filter C (map f (takeWhile (\<lambda>j. j \<noteq> i) L))) x = v"
  shows "serial_ok db (filter C (map f L))"
  using assms
proof (induction L rule: rev_induct)
  case (snoc k L)
  have tw: "takeWhile (\<lambda>j. j \<noteq> i) (L @ [k]) = takeWhile (\<lambda>j. j \<noteq> i) L" if "i \<in> set L" for i
    using that by (simp add: takeWhile_append1)
  have "serial_ok db (filter C (map f L))"
  proof (rule snoc.IH)
    fix i x t v assume "i \<in> set L" "C (f i)" "(x, t, v) \<in> set (rds (f i))"
    then show "replay db (filter C (map f (takeWhile (\<lambda>j. j \<noteq> i) L))) x = v"
      using snoc.prems(2) [of i x t v] tw [of i] by simp
  qed (use snoc.prems(1) in simp)
  moreover have "takeWhile (\<lambda>j. j \<noteq> k) (L @ [k]) = L"
    using snoc.prems(1) by (subst takeWhile_append2) auto
  then have "\<forall>(x, t, v) \<in> set (rds (f k)). replay db (filter C (map f L)) x = v" if "C (f k)"
    using snoc.prems(2) [of k] that by auto
  ultimately show ?case by (auto simp: serial_ok_append)
qed simp

section \<open>Order of serialization\<close>

fun prec :: "nat list \<Rightarrow> nat \<Rightarrow> nat \<Rightarrow> bool" where
  "prec [] i j = False"
| "prec (k # ks) i j \<longleftrightarrow> i = k \<and> j \<in> set ks \<or> prec ks i j"

lemma prec_mem: "prec L i j \<Longrightarrow> i \<in> set L \<and> j \<in> set L"
  by (induction L) auto

lemma prec_snoc: "prec (L @ [k]) i j \<longleftrightarrow> prec L i j \<or> i \<in> set L \<and> j = k"
  by (induction L) auto

lemma prec_irrefl: "distinct L \<Longrightarrow> \<not> prec L i i"
  by (induction L) (auto dest: prec_mem)

lemma prec_total: "i \<in> set L \<Longrightarrow> j \<in> set L \<Longrightarrow> i \<noteq> j \<Longrightarrow> prec L i j \<or> prec L j i"
  by (induction L) auto

lemma set_takeWhile_prec:
  "distinct L \<Longrightarrow> i \<in> set L \<Longrightarrow> set (takeWhile (\<lambda>j. j \<noteq> i) L) = {j. prec L j i}"
  by (induction L) (auto dest: prec_mem)

lemma takeWhile_dropWhile_split:
  assumes "distinct L" "i \<in> set L"
  shows "\<exists>ys. L = takeWhile (\<lambda>j. j \<noteq> i) L @ i # ys \<and> set ys = {j. prec L i j}"
  using assms
proof (induction L)
  case (Cons k L)
  show ?case
  proof (cases "k = i")
    case True
    then show ?thesis using Cons.prems by (auto dest: prec_mem)
  next
    case False
    then obtain ys where "L = takeWhile (\<lambda>j. j \<noteq> i) L @ i # ys" "set ys = {j. prec L i j}"
      using Cons by auto
    then show ?thesis using False by (intro exI [of _ ys]) auto
  qed
qed simp

section \<open>Invariants\<close>

definition dom_w :: "(nat \<times> dbval) list \<Rightarrow> nat set" where
  "dom_w ws = fst ` set ws"

definition inflight :: "thread \<Rightarrow> bool" where
  "inflight T = (case pc T of Validating _ \<Rightarrow> True | _ \<Rightarrow> False)"

definition live :: "thread \<Rightarrow> bool" where
  "live T \<longleftrightarrow> inflight T \<or> is_committed T"

definition pending :: "thread \<Rightarrow> nat set" where
  "pending T = (case pc T of Finishing ws \<Rightarrow> dom_w ws | _ \<Rightarrow> {})"

text \<open>The reads a transaction has validated so far.\<close>

definition checked :: "thread \<Rightarrow> (nat \<times> u64 \<times> dbval) list" where
  "checked T = (case pc T of Validating rs \<Rightarrow> take (length (rds T) - length rs) (rds T)
                | Finishing _ \<Rightarrow> rds T | Finished b \<Rightarrow> if b then rds T else [] | _ \<Rightarrow> [])"

text \<open>A record is locked, for writing, exactly by the transaction that holds it.\<close>

definition inv_locks :: "cstate \<Rightarrow> bool" where
  "inv_locks s \<longleftrightarrow>
     (\<forall>x. IsLocked (hdr (recs s x)) = (\<exists>i. x \<in> held (thr s i))) \<and>
     (\<forall>x. IsWriteIntent (hdr (recs s x)) = (\<exists>i. x \<in> held (thr s i))) \<and>
     (\<forall>i j x. x \<in> held (thr s i) \<longrightarrow> x \<in> held (thr s j) \<longrightarrow> i = j)"

text \<open>What a transaction holds in each phase, and which transactions have been ordered.\<close>

definition phase_ok :: "thread \<Rightarrow> bool" where
  "phase_ok T = (case pc T of
       Exec \<Rightarrow> held T \<subseteq> dom_w (puts T)
     | Locking xs \<Rightarrow> dom_w (wrs T) = held T \<union> set xs \<and> distinct (map fst (wrs T))
     | Validating rs \<Rightarrow> dom_w (wrs T) = held T \<and> distinct (map fst (wrs T)) \<and> suffix rs (rds T)
     | Finishing ws \<Rightarrow> dom_w ws \<subseteq> held T \<and> held T \<subseteq> dom_w (wrs T) \<and> distinct (map fst (wrs T)) \<and> suffix ws (wrs T)
     | Aborting \<Rightarrow> True
     | Finished b \<Rightarrow> held T = {})"

definition inv_order :: "cstate \<Rightarrow> bool" where
  "inv_order s \<longleftrightarrow> distinct (order s) \<and> (\<forall>i. phase_ok (thr s i)) \<and>
     (\<forall>i. live (thr s i) \<longrightarrow> i \<in> set (order s)) \<and>
     (\<forall>i \<in> set (order s). pc (thr s i) \<noteq> Exec \<and> (\<forall>xs. pc (thr s i) \<noteq> Locking xs))"

text \<open>Ids only grow, and a read is what the record still holds unless its id has grown.\<close>

definition inv_reads :: "cstate \<Rightarrow> bool" where
  "inv_reads s \<longleftrightarrow> (\<forall>i. \<forall>(x, t, v) \<in> set (rds (thr s i)).
     t \<le> version (recs s x) \<and> (t = version (recs s x) \<longrightarrow> v = contents (recs s x)))"

text \<open>The id of a commit is above the records it has yet to write and not above those it has written.\<close>

definition inv_tids :: "cstate \<Rightarrow> bool" where
  "inv_tids s \<longleftrightarrow> (\<forall>i x. live (thr s i) \<longrightarrow> x \<in> dom_w (wrs (thr s i)) \<longrightarrow> ctid (thr s i) \<noteq> MAX_TID \<and>
     (if inflight (thr s i) \<or> x \<in> pending (thr s i) then version (recs s x) < ctid (thr s i)
      else ctid (thr s i) \<le> version (recs s x))) \<and> (\<forall>x. version (recs s x) \<noteq> MAX_TID)"

text \<open>Who comes later in the order writes above what the earlier ones read, and not what they still hold.\<close>

definition inv_prec :: "cstate \<Rightarrow> bool" where
  "inv_prec s \<longleftrightarrow> (\<forall>i j. prec (order s) i j \<longrightarrow> live (thr s j) \<longrightarrow>
     (\<forall>(x, t, v) \<in> set (rds (thr s i)). x \<in> dom_w (wrs (thr s j)) \<longrightarrow> t < ctid (thr s j)) \<and>
     (live (thr s i) \<longrightarrow> held (thr s i) \<inter> dom_w (wrs (thr s j)) = {}))"

definition hist_before :: "cstate \<Rightarrow> nat \<Rightarrow> thread list" where
  "hist_before s i = filter is_committed (map (thr s) (takeWhile (\<lambda>j. j \<noteq> i) (order s)))"

text \<open>A validated read is the value the committed transactions ordered before give, and will stay so.\<close>

definition inv_checked :: "(nat \<Rightarrow> dbval) \<Rightarrow> cstate \<Rightarrow> bool" where
  "inv_checked db s \<longleftrightarrow> (\<forall>i. live (thr s i) \<longrightarrow> (\<forall>(x, t, v) \<in> set (checked (thr s i)).
     replay db (hist_before s i) x = v \<and>
     (\<forall>j. prec (order s) j i \<longrightarrow> inflight (thr s j) \<longrightarrow> x \<notin> dom_w (wrs (thr s j)))))"

text \<open>A record without a write under way holds what the history gives.\<close>

definition inv_db :: "(nat \<Rightarrow> dbval) \<Rightarrow> cstate \<Rightarrow> bool" where
  "inv_db db s \<longleftrightarrow> (\<forall>x. (\<forall>i. x \<notin> pending (thr s i)) \<longrightarrow> contents (recs s x) = replay db (history s) x)"

definition sinv :: "(nat \<Rightarrow> dbval) \<Rightarrow> cstate \<Rightarrow> bool" where
  "sinv db s \<longleftrightarrow> inv_locks s \<and> inv_order s \<and> inv_reads s \<and> inv_tids s \<and> inv_prec s \<and>
     inv_checked db s \<and> inv_db db s"

lemmas inv_defs = inv_locks_def inv_order_def inv_reads_def inv_tids_def inv_prec_def inv_checked_def inv_db_def

lemmas phase_defs = inflight_def live_def is_committed_def pending_def checked_def phase_ok_def

lemma sinv_init:
  assumes "db_at_rest db"
  shows "sinv (\<lambda>x. contents (db x)) (cinit db)"
  using assms
  by (auto simp: sinv_def inv_defs phase_defs cinit_def fresh_thread_def db_at_rest_def history_def dom_w_def)

text \<open>The lock operations on a record.\<close>

lemma tuple_unlock_facts:
  "version (tuple_unlock c) = version c" "contents (tuple_unlock c) = contents c"
  "\<not> IsLocked (hdr (tuple_unlock c))" "\<not> IsWriteIntent (hdr (tuple_unlock c))"
  by (simp_all add: tuple_unlock_def contents_def hdr_unlock_flags)

lemma locked_facts:
  assumes "lock_try True (hdr c) (hdr c) = Some h"
  shows "version (c\<lparr>hdr := h\<rparr>) = version c" "contents (c\<lparr>hdr := h\<rparr>) = contents c" "IsLocked h" "IsWriteIntent h"
    "\<not> IsLocked (hdr c)"
  using lock_try_flags [OF assms] by (simp_all add: contents_def)

lemma final_writes_facts:
  "dom_w (final_writes ps) = dom_w ps" "distinct (map fst (final_writes ps))" "sorted (map fst (final_writes ps))"
  by (simp_all add: final_writes_def dom_w_def comp_def image_image)

lemma phase_at: "inv_order s \<Longrightarrow> phase_ok (thr s i)"
  by (simp add: inv_order_def)

lemma phase_Finishing:
  assumes "inv_order s" "pc (thr s i) = Finishing ws"
  shows "dom_w ws \<subseteq> held (thr s i)" "held (thr s i) \<subseteq> dom_w (wrs (thr s i))"
    "distinct (map fst (wrs (thr s i)))" "suffix ws (wrs (thr s i))"
  using phase_at [OF assms(1), of i] assms(2) by (simp_all add: phase_ok_def)

lemma phase_Validating:
  assumes "inv_order s" "pc (thr s i) = Validating rs"
  shows "dom_w (wrs (thr s i)) = held (thr s i)" "distinct (map fst (wrs (thr s i)))" "suffix rs (rds (thr s i))"
  using phase_at [OF assms(1), of i] assms(2) by (simp_all add: phase_ok_def)

lemma phase_Locking:
  assumes "inv_order s" "pc (thr s i) = Locking xs"
  shows "dom_w (wrs (thr s i)) = held (thr s i) \<union> set xs" "distinct (map fst (wrs (thr s i)))"
    "i \<notin> set (order s)"
  using phase_at [OF assms(1), of i] assms by (auto simp: phase_ok_def inv_order_def)

lemma held_update: "(\<exists>i. x \<in> held ((f(k := T)) i)) \<longleftrightarrow> x \<in> held T \<or> (\<exists>i. i \<noteq> k \<and> x \<in> held (f i))"
  by (metis fun_upd_apply)

lemma inv_locks_same:
  assumes "inv_locks s" "recs s' = recs s" "\<And>i. held (thr s' i) = held (thr s i)"
  shows "inv_locks s'"
  using assms by (simp add: inv_locks_def)

lemma inv_locks_acquire:
  assumes "inv_locks s" "lock_try True (hdr (recs s x)) (hdr (recs s x)) = Some h"
    "held T = insert x (held (thr s i))"
  shows "inv_locks (s\<lparr>recs := (recs s)(x := (recs s x)\<lparr>hdr := h\<rparr>), thr := (thr s)(i := T)\<rparr>)"
  using assms(1) locked_facts [OF assms(2)] assms(3)
  unfolding inv_locks_def cstate.simps held_update by (auto; blast)

lemma inv_locks_release:
  assumes "inv_locks s" "x \<in> held (thr s i)" "held T = held (thr s i) - {x}"
  shows "inv_locks (s\<lparr>recs := (recs s)(x := tuple_unlock (recs s x)), thr := (thr s)(i := T)\<rparr>)"
  using assms unfolding inv_locks_def cstate.simps held_update by (auto simp: tuple_unlock_facts; blast)

lemma inv_locks_step:
  assumes "sstep s s'" "inv_locks s" "inv_order s"
  shows "inv_locks s'"
  using assms(1)
proof cases
  case (insert i x h v)
  then show ?thesis using inv_locks_acquire [OF assms(2) insert(4)] by simp
next
  case (lock i x xs h n)
  then show ?thesis using inv_locks_acquire [OF assms(2) lock(3)] by simp
next
  case (install i x v ws c)
  have "x \<in> held (thr s i)"
    using phase_Finishing(1) [OF assms(3) install(2)] by (simp add: dom_w_def)
  then show ?thesis using assms(2) install
    by (auto simp: inv_locks_def installed_def)
next
  case (release i ws x)
  then show ?thesis using inv_locks_release [OF assms(2) release(3)] by simp
next
  case (abort_release i x)
  then show ?thesis using inv_locks_release [OF assms(2) abort_release(3)] by simp
qed (rule inv_locks_same [OF assms(2)]; simp)+

text \<open>A step of one transaction leaves the phases of the others alone.\<close>

lemma inv_order_update:
  assumes "inv_order s" "thr s' = (thr s)(i := T)" "order s' = order s" "phase_ok T"
    "live T \<Longrightarrow> i \<in> set (order s)" "i \<in> set (order s) \<Longrightarrow> pc T \<noteq> Exec \<and> (\<forall>xs. pc T \<noteq> Locking xs)"
  shows "inv_order s'"
  using assms by (auto simp: inv_order_def)

lemma not_ordered: "inv_order s \<Longrightarrow> pc (thr s i) = Exec \<Longrightarrow> i \<notin> set (order s)"
  by (auto simp: inv_order_def)

lemma ordered_live: "inv_order s \<Longrightarrow> live (thr s i) \<Longrightarrow> i \<in> set (order s)"
  by (simp add: inv_order_def)

lemma inv_order_step:
  assumes "sstep s s'" "inv_order s"
  shows "inv_order s'"
  using assms(1)
proof cases
  case (read i x)
  show ?thesis
    by (rule inv_order_update [OF assms(2), of _ i])
       (use phase_at [OF assms(2), of i] not_ordered [OF assms(2), of i] read in \<open>auto simp: phase_defs\<close>)
next
  case (put i x v)
  show ?thesis
    by (rule inv_order_update [OF assms(2), of _ i])
       (use phase_at [OF assms(2), of i] not_ordered [OF assms(2), of i] put in \<open>auto simp: phase_defs dom_w_def\<close>)
next
  case (insert i x h v)
  show ?thesis
    by (rule inv_order_update [OF assms(2), of _ i])
       (use phase_at [OF assms(2), of i] not_ordered [OF assms(2), of i] insert in \<open>auto simp: phase_defs dom_w_def\<close>)
next
  case (commit i)
  have "held (thr s i) \<subseteq> dom_w (puts (thr s i))"
    using phase_at [OF assms(2), of i] commit(2) by (simp add: phase_ok_def)
  moreover have "set (map fst (final_writes (puts (thr s i)))) = dom_w (puts (thr s i))"
    using final_writes_facts(1) [of "puts (thr s i)"] by (simp add: dom_w_def)
  ultimately have "phase_ok ((thr s i)\<lparr>wrs := final_writes (puts (thr s i)),
      pc := Locking (filter (\<lambda>x. x \<notin> held (thr s i)) (map fst (final_writes (puts (thr s i)))))\<rparr>)"
    using final_writes_facts(1,2) [of "puts (thr s i)"] by (auto simp: phase_ok_def simp del: set_map)
  then show ?thesis
    by (intro inv_order_update [OF assms(2)])
       (use not_ordered [OF assms(2), of i] commit in \<open>auto simp: live_def inflight_def is_committed_def\<close>)
next
  case (lock i x xs h n)
  show ?thesis
    by (rule inv_order_update [OF assms(2), of _ i])
       (use phase_Locking [OF assms(2) lock(2)] lock in \<open>auto simp: phase_defs split: if_splits\<close>)
next
  case (serialize i core epoch lst t)
  note p = phase_Locking [OF assms(2) serialize(2)]
  show ?thesis using assms(2) p unfolding serialize(1) inv_order_def
    by (auto simp: phase_defs)
next
  case (validate i x t v rs)
  note p = phase_Validating [OF assms(2) validate(2)]
  have "i \<in> set (order s)" by (rule ordered_live [OF assms(2)]) (simp add: phase_defs validate(2))
  then show ?thesis
    by (intro inv_order_update [OF assms(2), of _ i])
       (use p validate in \<open>auto simp: phase_defs dest: suffix_ConsD\<close>)
next
  case (decide i)
  note p = phase_Validating [OF assms(2) decide(2)]
  have "i \<in> set (order s)" by (rule ordered_live [OF assms(2)]) (simp add: phase_defs decide(2))
  then show ?thesis
    by (intro inv_order_update [OF assms(2), of _ i]) (use p decide in \<open>auto simp: phase_defs\<close>)
next
  case (install i x v ws c)
  note p = phase_Finishing [OF assms(2) install(2)]
  have "i \<in> set (order s)" by (rule ordered_live [OF assms(2)]) (simp add: phase_defs install(2))
  then show ?thesis
    by (intro inv_order_update [OF assms(2), of _ i])
       (use p install in \<open>auto simp: phase_defs dom_w_def dest: suffix_ConsD\<close>)
next
  case (release i ws x)
  note p = phase_Finishing [OF assms(2) release(2)]
  have "i \<in> set (order s)" by (rule ordered_live [OF assms(2)]) (simp add: phase_defs release(2))
  then show ?thesis
    by (intro inv_order_update [OF assms(2), of _ i])
       (use p release(1-3) release(4) [folded dom_w_def] in \<open>auto simp: phase_defs\<close>)
next
  case (finish i)
  have "i \<in> set (order s)" by (rule ordered_live [OF assms(2)]) (simp add: phase_defs finish(2))
  then show ?thesis
    by (intro inv_order_update [OF assms(2), of _ i]) (use finish in \<open>auto simp: phase_defs\<close>)
next
  case (give_up i)
  then show ?thesis by (intro inv_order_update [OF assms(2), of _ i]) (auto simp: phase_defs)
next
  case (abort_release i x)
  then show ?thesis by (intro inv_order_update [OF assms(2), of _ i]) (auto simp: phase_defs)
next
  case (aborted i)
  then show ?thesis by (intro inv_order_update [OF assms(2), of _ i]) (auto simp: phase_defs)
qed

lemma installing_facts:
  assumes "inv_order s" "inv_tids s" "pc (thr s i) = Finishing ((x, v) # ws)"
  shows "live (thr s i)" "x \<in> held (thr s i)" "x \<in> dom_w (wrs (thr s i))" "x \<in> pending (thr s i)"
    "version (recs s x) < ctid (thr s i)" "(x, v) \<in> set (wrs (thr s i))"
proof -
  note p = phase_Finishing [OF assms(1,3)]
  show l: "live (thr s i)" by (simp add: phase_defs assms(3))
  show "x \<in> held (thr s i)" and d: "x \<in> dom_w (wrs (thr s i))" using p(1,2) by (auto simp: dom_w_def)
  show q: "x \<in> pending (thr s i)" by (simp add: pending_def assms(3) dom_w_def)
  show "version (recs s x) < ctid (thr s i)"
    using assms(2) l d q unfolding inv_tids_def by meson
  show "(x, v) \<in> set (wrs (thr s i))" using p(4) by (auto simp: suffix_def)
qed

lemma versions_grow:
  assumes "sstep s s'" "inv_order s" "inv_tids s"
  shows "version (recs s y) \<le> version (recs s' y)"
    "version (recs s y) = version (recs s' y) \<Longrightarrow> contents (recs s y) = contents (recs s' y)"
proof -
  have "version (recs s y) \<le> version (recs s' y) \<and>
    (version (recs s y) = version (recs s' y) \<longrightarrow> contents (recs s y) = contents (recs s' y))"
    using assms(1)
  proof cases
    case (install i x v ws c)
    then show ?thesis using installing_facts(5) [OF assms(2,3) install(2)] by (auto simp: installed_def)
  qed (auto simp: tuple_unlock_facts locked_facts)
  then show "version (recs s y) \<le> version (recs s' y)"
    "version (recs s y) = version (recs s' y) \<Longrightarrow> contents (recs s y) = contents (recs s' y)" by blast+
qed

lemma rds_step:
  assumes "sstep s s'" "(x, t, v) \<in> set (rds (thr s' i))"
  shows "(x, t, v) \<in> set (rds (thr s i)) \<or>
    t = version (recs s' x) \<and> v = contents (recs s' x) \<and> pc (thr s i) = Exec"
  using assms by cases (auto split: if_splits)

lemma inv_reads_step:
  assumes "sstep s s'" "inv_reads s" "inv_order s" "inv_tids s"
  shows "inv_reads s'"
proof -
  have "t \<le> version (recs s' x) \<and> (t = version (recs s' x) \<longrightarrow> v = contents (recs s' x))"
    if r: "(x, t, v) \<in> set (rds (thr s' i))" for i x t v
    using rds_step [OF assms(1) r]
  proof
    assume "(x, t, v) \<in> set (rds (thr s i))"
    then have "t \<le> version (recs s x)" "t = version (recs s x) \<longrightarrow> v = contents (recs s x)"
      using assms(2) by (auto simp: inv_reads_def)
    then show ?thesis using versions_grow [OF assms(1,3,4), of x] by (metis order_antisym order_trans)
  qed simp
  then show ?thesis by (auto simp: inv_reads_def)
qed

text \<open>The commit id is above the versions of all records the transaction has locked.\<close>

lemma serialize_tid:
  assumes "inv_tids s" "wrs T = [] \<or> commit_inputs_ok core epoch lst rts (map (\<lambda>(x, v). (False, version (recs s x))) (wrs T))"
    "t = gen_commit_tid core epoch lst rts (map (\<lambda>(x, v). (False, version (recs s x))) (wrs T))" "x \<in> dom_w (wrs T)"
  shows "version (recs s x) < t" "t \<noteq> MAX_TID"
proof -
  have ok: "commit_inputs_ok core epoch lst rts (map (\<lambda>(x, v). (False, version (recs s x))) (wrs T))"
    using assms(2,4) by (auto simp: dom_w_def)
  have "(False, version (recs s x)) \<in> set (map (\<lambda>(x, v). (False, version (recs s x))) (wrs T))"
    using assms(4) by (force simp: dom_w_def)
  moreover have "version (recs s x) \<noteq> MAX_TID" using assms(1) by (simp add: inv_tids_def)
  ultimately show "version (recs s x) < t" "t \<noteq> MAX_TID"
    using gen_commit_tid_above(3,7) [OF ok] assms(3) by auto
qed

definition tid_ok :: "cstate \<Rightarrow> thread \<Rightarrow> bool" where
  "tid_ok s T \<longleftrightarrow> (live T \<longrightarrow> (\<forall>x \<in> dom_w (wrs T). ctid T \<noteq> MAX_TID \<and>
     (if inflight T \<or> x \<in> pending T then version (recs s x) < ctid T else ctid T \<le> version (recs s x))))"

lemma inv_tids_iff: "inv_tids s \<longleftrightarrow> (\<forall>i. tid_ok s (thr s i)) \<and> (\<forall>x. version (recs s x) \<noteq> MAX_TID)"
  by (auto simp: inv_tids_def tid_ok_def)

lemma inv_tids_update:
  assumes "inv_tids s" "thr s' = (thr s)(i := T)" "\<And>x. version (recs s' x) = version (recs s x)" "tid_ok s T"
  shows "inv_tids s'"
  using assms by (simp add: inv_tids_iff tid_ok_def)

lemma inv_tids_unlive:
  assumes "inv_tids s" "\<And>x. version (recs s' x) = version (recs s x)"
    "\<And>j. thr s' j = thr s j \<or> \<not> live (thr s' j)"
  shows "inv_tids s'"
proof -
  have "tid_ok s' (thr s' j)" for j
    using assms(1,2) assms(3) [of j] by (auto simp: inv_tids_iff tid_ok_def)
  then show ?thesis using assms(1,2) by (simp add: inv_tids_iff)
qed

lemma other_holder: "inv_locks s \<Longrightarrow> x \<in> held (thr s i) \<Longrightarrow> x \<in> held (thr s j) \<Longrightarrow> i = j"
  unfolding inv_locks_def by blast

lemma writing_held:
  assumes "inv_order s" "inflight (thr s j) \<and> x \<in> dom_w (wrs (thr s j)) \<or> x \<in> pending (thr s j)"
  shows "x \<in> held (thr s j)"
proof (cases "pc (thr s j)")
  case (Validating rs)
  then show ?thesis using phase_Validating(1) [OF assms(1)] assms(2) by (auto simp: phase_defs)
next
  case (Finishing ws)
  then show ?thesis using phase_Finishing(1) [OF assms(1)] assms(2) by (auto simp: phase_defs)
qed (use assms(2) in \<open>auto simp: phase_defs\<close>)

lemma inv_tids_step:
  assumes "sstep s s'" "inv_tids s" "inv_order s" "inv_locks s"
  shows "inv_tids s'"
  using assms(1)
proof cases
  case (serialize i core epoch lst t)
  show ?thesis
    by (rule inv_tids_update [OF assms(2), of _ i])
       (use serialize serialize_tid [OF assms(2) serialize(3,4)] in \<open>auto simp: tid_ok_def phase_defs\<close>)
next
  case (decide i)
  then show ?thesis using assms(2)
    by (intro inv_tids_update [OF assms(2), of _ i]) (auto simp: inv_tids_iff tid_ok_def phase_defs)
next
  case (install i x v ws c)
  note f = installing_facts [OF assms(3,2) install(2)]
  have v': "version (recs s' y) = (if y = x then ctid (thr s i) else version (recs s y))" for y
    using install by (auto simp: installed_def)
  have nm: "ctid (thr s i) \<noteq> MAX_TID" using assms(2) f(1,3) by (auto simp: inv_tids_def)
  have "tid_ok s' (thr s' j)" for j
  proof (cases "j = i")
    case True
    have dist: "distinct (map fst ((x, v) # ws))"
      using phase_Finishing(3,4) [OF assms(3) install(2)] by (metis distinct_append map_append suffix_def)
    have "tid_ok s (thr s i)" using assms(2) by (simp add: inv_tids_iff)
    then show ?thesis using True install(1,2) v' f(1) nm dist
      by (auto simp: tid_ok_def phase_defs dom_w_def)
  next
    case False
    have t: "tid_ok s (thr s j)" using assms(2) by (simp add: inv_tids_iff)
    have "\<not> (inflight (thr s j) \<or> x \<in> pending (thr s j))" if "x \<in> dom_w (wrs (thr s j))"
      using writing_held [OF assms(3), of j x] other_holder [OF assms(4) f(2), of j] False that by blast
    then show ?thesis using t False install(1) v' f(5) by (auto simp: tid_ok_def)
  qed
  moreover have "version (recs s' y) \<noteq> MAX_TID" for y
    using v' nm assms(2) by (simp add: inv_tids_iff)
  ultimately show ?thesis by (simp add: inv_tids_iff)
next
  case (validate i x t v rs)
  then show ?thesis using assms(2)
    by (intro inv_tids_update [OF assms(2), of _ i]) (auto simp: inv_tids_iff tid_ok_def phase_defs)
next
  case (release i ws x)
  then show ?thesis using assms(2)
    by (intro inv_tids_update [OF assms(2), of _ i])
       (auto simp: inv_tids_iff tid_ok_def phase_defs tuple_unlock_facts)
next
  case (finish i)
  have "tid_ok s (thr s i)" using assms(2) by (simp add: inv_tids_iff)
  then show ?thesis using finish
    by (intro inv_tids_update [OF assms(2), of _ i]) (fastforce simp: tid_ok_def phase_defs dom_w_def)+
qed (rule inv_tids_unlive [OF assms(2)]; auto simp: phase_defs tuple_unlock_facts locked_facts split: if_splits)+

text \<open>What a step leaves of a transaction that has been ordered.\<close>

lemma ordered_stable:
  assumes "sstep s s'" "inv_order s" "i \<in> set (order s)"
  shows "rds (thr s' i) = rds (thr s i)" "wrs (thr s' i) = wrs (thr s i)" "ctid (thr s' i) = ctid (thr s i)"
    "held (thr s' i) \<subseteq> held (thr s i)" "live (thr s' i) \<Longrightarrow> live (thr s i)"
    "inflight (thr s' i) \<Longrightarrow> inflight (thr s i)" "is_committed (thr s i) \<Longrightarrow> is_committed (thr s' i)"
proof -
  have n: "pc (thr s i) \<noteq> Exec" "pc (thr s i) \<noteq> Locking xs" for xs
    using assms(2,3) by (auto simp: inv_order_def)
  have "rds (thr s' i) = rds (thr s i) \<and> wrs (thr s' i) = wrs (thr s i) \<and> ctid (thr s' i) = ctid (thr s i) \<and>
    held (thr s' i) \<subseteq> held (thr s i) \<and> (live (thr s' i) \<longrightarrow> live (thr s i)) \<and>
    (inflight (thr s' i) \<longrightarrow> inflight (thr s i)) \<and> (is_committed (thr s i) \<longrightarrow> is_committed (thr s' i))"
    using assms(1) by cases (use n in \<open>auto simp: phase_defs\<close>)
  then show "rds (thr s' i) = rds (thr s i)" "wrs (thr s' i) = wrs (thr s i)" "ctid (thr s' i) = ctid (thr s i)"
    "held (thr s' i) \<subseteq> held (thr s i)" "live (thr s' i) \<Longrightarrow> live (thr s i)"
    "inflight (thr s' i) \<Longrightarrow> inflight (thr s i)" "is_committed (thr s i) \<Longrightarrow> is_committed (thr s' i)"
    by blast+
qed

lemma order_step: "sstep s s' \<Longrightarrow> order s' = order s \<or>
   (\<exists>k. order s' = order s @ [k] \<and> pc (thr s k) = Locking [] \<and> recs s' = recs s \<and>
      thr s' = (thr s)(k := (thr s k)\<lparr>pc := Validating (rds (thr s k)), ctid := ctid (thr s' k)\<rparr>) \<and>
      (\<forall>x \<in> dom_w (wrs (thr s k)). inv_tids s \<longrightarrow> version (recs s x) < ctid (thr s' k)))"
  by (erule sstep.cases) (auto dest: serialize_tid(1))

lemma inv_prec_step:
  assumes "sstep s s'" "inv_prec s" "inv_order s" "inv_locks s" "inv_reads s" "inv_tids s"
  shows "inv_prec s'"
proof -
  have old: "(\<forall>(x, t, v) \<in> set (rds (thr s' i)). x \<in> dom_w (wrs (thr s' j)) \<longrightarrow> t < ctid (thr s' j)) \<and>
     (live (thr s' i) \<longrightarrow> held (thr s' i) \<inter> dom_w (wrs (thr s' j)) = {})"
    if p: "prec (order s) i j" and l: "live (thr s' j)" for i j
  proof -
    have m: "i \<in> set (order s)" "j \<in> set (order s)" using prec_mem [OF p] by auto
    note si = ordered_stable [OF assms(1,3) m(1)] and sj = ordered_stable [OF assms(1,3) m(2)]
    have "live (thr s j)" using sj(5) l .
    then have "(\<forall>(x, t, v) \<in> set (rds (thr s i)). x \<in> dom_w (wrs (thr s j)) \<longrightarrow> t < ctid (thr s j)) \<and>
      (live (thr s i) \<longrightarrow> held (thr s i) \<inter> dom_w (wrs (thr s j)) = {})"
      using assms(2) p unfolding inv_prec_def by blast
    then show ?thesis unfolding si(1) sj(2,3) using si(4,5) by blast
  qed
  show ?thesis using order_step [OF assms(1)]
  proof
    assume "order s' = order s"
    then show ?thesis unfolding inv_prec_def using old by simp
  next
    assume "\<exists>k. order s' = order s @ [k] \<and> pc (thr s k) = Locking [] \<and> recs s' = recs s \<and>
      thr s' = (thr s)(k := (thr s k)\<lparr>pc := Validating (rds (thr s k)), ctid := ctid (thr s' k)\<rparr>) \<and>
      (\<forall>x \<in> dom_w (wrs (thr s k)). inv_tids s \<longrightarrow> version (recs s x) < ctid (thr s' k))"
    then obtain k where k: "order s' = order s @ [k]" "pc (thr s k) = Locking []" "recs s' = recs s"
      "thr s' = (thr s)(k := (thr s k)\<lparr>pc := Validating (rds (thr s k)), ctid := ctid (thr s' k)\<rparr>)"
      "\<And>x. x \<in> dom_w (wrs (thr s k)) \<Longrightarrow> version (recs s x) < ctid (thr s' k)"
      using assms(6) by blast
    note pl = phase_Locking [OF assms(3) k(2)]
    have wk: "wrs (thr s' k) = wrs (thr s k)" by (subst k(4)) simp
    have new: "(\<forall>(x, t, v) \<in> set (rds (thr s' i)). x \<in> dom_w (wrs (thr s' k)) \<longrightarrow> t < ctid (thr s' k)) \<and>
       (live (thr s' i) \<longrightarrow> held (thr s' i) \<inter> dom_w (wrs (thr s' k)) = {})" if i: "i \<in> set (order s)" for i
    proof -
      have ik: "i \<noteq> k" using i pl(3) by auto
      then have ti: "thr s' i = thr s i" by (subst k(4)) simp
      have "t < ctid (thr s' k)" if "(x, t, v) \<in> set (rds (thr s i))" "x \<in> dom_w (wrs (thr s k))" for x t v
        using assms(5) that k(5) [OF that(2)] by (fastforce simp: inv_reads_def intro: order_le_less_trans)
      moreover have "held (thr s i) \<inter> dom_w (wrs (thr s k)) = {}"
        using pl(1) other_holder [OF assms(4), of _ i k] ik by auto
      ultimately show ?thesis unfolding ti wk by auto
    qed
    show ?thesis unfolding inv_prec_def k(1) prec_snoc using old new by blast
  qed
qed

section \<open>Validation gives the serial value\<close>

lemma replay_filter_cong:
  assumes "\<And>j. j \<in> set L \<Longrightarrow> wrs (f' j) = wrs (f j) \<and>
      (C (f' j) = C (f j) \<or> C (f' j) \<and> \<not> C (f j) \<and> x \<notin> dom_w (wrs (f j)))"
    "db x = db' x"
  shows "replay db (filter C (map f' L)) x = replay db' (filter C (map f L)) x"
  using assms
proof (induction L arbitrary: db db')
  case (Cons j L)
  have rest: "replay d (filter C (map f' L)) x = replay d' (filter C (map f L)) x" if "d x = d' x" for d d'
    by (rule Cons.IH) (use Cons.prems(1) that in auto)
  have j: "wrs (f' j) = wrs (f j)" "C (f' j) = C (f j) \<or> C (f' j) \<and> \<not> C (f j) \<and> x \<notin> dom_w (wrs (f j))"
    using Cons.prems(1) [of j] by auto
  have w: "apply_writes (wrs (f j)) db x = apply_writes (wrs (f j)) db' x"
    by (rule apply_writes_same) (rule Cons.prems(2))
  show ?case
  proof (cases "C (f' j) = C (f j)")
    case True
    then show ?thesis 
      using rest [of "apply_writes (wrs (f j)) db" "apply_writes (wrs (f j)) db'"] rest [of db db'] w Cons.prems(2) j(1)
      by simp
  next
    case False
    then have "C (f' j)" "\<not> C (f j)" "x \<notin> fst ` set (wrs (f j))" using j(2) by (auto simp: dom_w_def)
    then show ?thesis using rest [of "apply_writes (wrs (f j)) db" db'] Cons.prems(2) j(1)
      by (simp add: apply_writes_other)
  qed
qed simp

lemma committed_step:
  assumes "sstep s s'" "inv_order s" "j \<in> set (order s)"
  shows "is_committed (thr s' j) = is_committed (thr s j) \<or>
    is_committed (thr s' j) \<and> \<not> is_committed (thr s j) \<and> inflight (thr s j) \<and>
      pending (thr s' j) = dom_w (wrs (thr s j))"
proof -
  have n: "pc (thr s j) \<noteq> Exec" "pc (thr s j) \<noteq> Locking xs" for xs
    using assms(2,3) by (auto simp: inv_order_def)
  show ?thesis using assms(1) by cases (use n in \<open>auto simp: phase_defs\<close>)
qed

lemma validate_serial:
  assumes "inv_locks s" "inv_order s" "inv_reads s" "inv_tids s" "inv_prec s" "inv_db db s"
    "pc (thr s i) = Validating ((x, t, v) # rs)" "validates (thr s i) x (recs s x) t"
  shows "replay db (hist_before s i) x = v"
    "prec (order s) j i \<Longrightarrow> inflight (thr s j) \<Longrightarrow> x \<notin> dom_w (wrs (thr s j))"
proof -
  note p = phase_Validating [OF assms(2,7)]
  have live: "live (thr s i)" "inflight (thr s i)" "\<not> is_committed (thr s i)" "pending (thr s i) = {}"
    by (simp_all add: phase_defs assms(7))
  have ord: "i \<in> set (order s)" "distinct (order s)"
    using ordered_live [OF assms(2) live(1)] assms(2) by (auto simp: inv_order_def)
  have vt: "version (recs s x) \<le> t"
    using assms(8) by (auto simp: validates_def stable_is_latest_version_iff is_latest_version_def is_not_behind_def
        split: if_splits)
  have mine: "k = i" if "x \<in> held (thr s k)" for k
  proof (cases "x \<in> held (thr s i)")
    case True
    then show ?thesis using other_holder [OF assms(1) that] by simp
  next
    case False
    then have "stable_is_latest_version (recs s x) t" using assms(8) p(1) by (simp add: validates_def dom_w_def)
    then show ?thesis using assms(1) that by (auto simp: stable_is_latest_version_iff inv_locks_def)
  qed
  have "(x, t, v) \<in> set (rds (thr s i))" using p(3) by (auto simp: suffix_def)
  then have "t \<le> version (recs s x)" "t = version (recs s x) \<longrightarrow> v = contents (recs s x)"
    using assms(3) by (auto simp: inv_reads_def)
  with vt have t: "version (recs s x) = t" "v = contents (recs s x)" by auto
  have np: "x \<notin> pending (thr s k)" for k
    using writing_held [OF assms(2), of k x] mine [of k] live(4) by auto
  then have hv: "v = replay db (history s) x" using assms(6) t(2) by (simp add: inv_db_def)
  obtain ys where ys: "order s = takeWhile (\<lambda>j. j \<noteq> i) (order s) @ i # ys" "set ys = {j. prec (order s) i j}"
    using takeWhile_dropWhile_split [OF ord(2,1)] by blast
  have ysp: "k \<in> set ys \<Longrightarrow> prec (order s) i k" for k using ys(2) by blast
  have hs: "history s = hist_before s i @ filter is_committed (map (thr s) ys)"
    unfolding history_def hist_before_def by (subst ys(1)) (simp add: live(3))
  have nw: "x \<notin> fst ` set (wrs T)" if T: "T \<in> set (filter is_committed (map (thr s) ys))" for T
  proof
    assume "x \<in> fst ` set (wrs T)"
    moreover obtain k where k: "T = thr s k" "is_committed (thr s k)" "prec (order s) i k"
      using T ysp by auto
    ultimately have x: "x \<in> dom_w (wrs (thr s k))" by (simp add: dom_w_def)
    have lk: "live (thr s k)" "\<not> inflight (thr s k)" using k(2) by (auto simp: phase_defs split: pc.splits)
    have "t < ctid (thr s k)"
      using assms(5) k(3) lk(1) \<open>(x, t, v) \<in> set (rds (thr s i))\<close> x by (fastforce simp: inv_prec_def)
    moreover have "ctid (thr s k) \<le> version (recs s x)"
      using assms(4) lk x np [of k] unfolding inv_tids_def by meson
    ultimately show False using t(1) by simp
  qed
  show "replay db (hist_before s i) x = v"
    using hv replay_other [of "filter is_committed (map (thr s) ys)" x, OF nw] unfolding hs replay_append by simp
  assume j: "prec (order s) j i" "inflight (thr s j)"
  show "x \<notin> dom_w (wrs (thr s j))"
  proof
    assume "x \<in> dom_w (wrs (thr s j))"
    then have "j = i" using writing_held [OF assms(2), of j x] j(2) mine by blast
    then show False using j(1) prec_irrefl [OF ord(2)] by simp
  qed
qed

lemma checked_step:
  assumes "sstep s s'" "inv_order s" "i \<in> set (order s)" "r \<in> set (checked (thr s' i))"
  shows "r \<in> set (checked (thr s i)) \<and> live (thr s i) \<or>
    (\<exists>x t v rs. r = (x, t, v) \<and> pc (thr s i) = Validating (r # rs) \<and> validates (thr s i) x (recs s x) t)"
proof -
  have n: "pc (thr s i) \<noteq> Exec" "pc (thr s i) \<noteq> Locking xs" for xs
    using assms(2,3) by (auto simp: inv_order_def)
  show ?thesis using assms(1)
  proof cases
    case (validate k x t v rs)
    show ?thesis
    proof (cases "k = i")
      case True
      have "suffix ((x, t, v) # rs) (rds (thr s i))" using phase_Validating(3) [OF assms(2)] validate(2) True by simp
      then obtain zs where zs: "rds (thr s i) = zs @ (x, t, v) # rs" by (auto simp: suffix_def)
      have "r \<in> set (zs @ [(x, t, v)])" using assms(4) validate(1) True zs by (simp add: checked_def)
      then show ?thesis using validate(2,3) True zs by (auto simp: phase_defs)
    next
      case False
      then show ?thesis using assms(4) validate(1) n by (auto simp: phase_defs split: pc.splits if_splits)
    qed
  qed (use assms(4) n in \<open>auto simp: phase_defs split: pc.splits if_splits\<close>)
qed

lemma replay_step_before:
  assumes "sstep s s'" "inv_order s" "i \<in> set (order s)"
    "\<And>j. prec (order s) j i \<Longrightarrow> inflight (thr s j) \<Longrightarrow> x \<notin> dom_w (wrs (thr s j))"
  shows "replay db (hist_before s' i) x = replay db (hist_before s i) x"
proof -
  have d: "distinct (order s)" using assms(2) by (simp add: inv_order_def)
  have tw: "takeWhile (\<lambda>j. j \<noteq> i) (order s') = takeWhile (\<lambda>j. j \<noteq> i) (order s)"
    using order_step [OF assms(1)] assms(3) by (auto simp: takeWhile_append1)
  show ?thesis unfolding hist_before_def tw
  proof (rule replay_filter_cong)
    fix j assume "j \<in> set (takeWhile (\<lambda>j. j \<noteq> i) (order s))"
    then have j: "prec (order s) j i" using set_takeWhile_prec [OF d assms(3)] by simp
    then have m: "j \<in> set (order s)" using prec_mem by blast
    show "wrs (thr s' j) = wrs (thr s j) \<and> (is_committed (thr s' j) = is_committed (thr s j) \<or>
        is_committed (thr s' j) \<and> \<not> is_committed (thr s j) \<and> x \<notin> dom_w (wrs (thr s j)))"
      using ordered_stable(2) [OF assms(1,2) m] committed_step [OF assms(1,2) m] assms(4) [OF j] by blast
  qed simp
qed

lemma inv_checked_step:
  assumes "sstep s s'" "inv_checked db s" "inv_locks s" "inv_order s" "inv_reads s" "inv_tids s" "inv_prec s" "inv_db db s"
  shows "inv_checked db s'"
proof -
  have "replay db (hist_before s' i) x = v \<and>
      (\<forall>j. prec (order s') j i \<longrightarrow> inflight (thr s' j) \<longrightarrow> x \<notin> dom_w (wrs (thr s' j)))"
    if l: "live (thr s' i)" and r: "(x, t, v) \<in> set (checked (thr s' i))" for i x t v
  proof (cases "i \<in> set (order s)")
    case True
    have "replay db (hist_before s i) x = v \<and>
      (\<forall>j. prec (order s) j i \<longrightarrow> inflight (thr s j) \<longrightarrow> x \<notin> dom_w (wrs (thr s j)))"
      using checked_step [OF assms(1,4) True r]
    proof (elim disjE exE conjE)
      assume "(x, t, v) \<in> set (checked (thr s i))" "live (thr s i)"
      then show ?thesis using assms(2) by (fastforce simp: inv_checked_def)
    next
      fix x' t' v' rs
      assume "(x, t, v) = (x', t', v')" "pc (thr s i) = Validating ((x, t, v) # rs)" "validates (thr s i) x' (recs s x') t'"
      then show ?thesis using validate_serial [OF assms(3-8), of i x t v rs] by auto
    qed
    then have o: "replay db (hist_before s i) x = v"
      "\<And>j. prec (order s) j i \<Longrightarrow> inflight (thr s j) \<Longrightarrow> x \<notin> dom_w (wrs (thr s j))" by blast+
    have "prec (order s') j i \<Longrightarrow> prec (order s) j i" for j
      using order_step [OF assms(1)] True phase_Locking(3) [OF assms(4)] by (auto simp: prec_snoc)
    then have "x \<notin> dom_w (wrs (thr s' j))" if "prec (order s') j i" "inflight (thr s' j)" for j
      using o(2) [of j] ordered_stable(2,6) [OF assms(1,4), of j] prec_mem [of "order s" j i] that by metis
    then show ?thesis using replay_step_before [OF assms(1,4) True o(2), of db] o(1) by simp
  next
    case False
    have "i \<in> set (order s')" by (rule ordered_live [OF inv_order_step [OF assms(1,4)] l])
    then obtain k where k: "order s' = order s @ [k]" "i = k"
      "thr s' = (thr s)(k := (thr s k)\<lparr>pc := Validating (rds (thr s k)), ctid := ctid (thr s' k)\<rparr>)"
      using order_step [OF assms(1)] False by auto
    have "pc (thr s' i) = Validating (rds (thr s' i))" by (subst k(3), subst k(3)) (simp add: k(2))
    then have "checked (thr s' i) = []" by (simp add: checked_def)
    then show ?thesis using r by simp
  qed
  then show ?thesis by (auto simp: inv_checked_def)
qed

section \<open>The records follow the history\<close>

lemma history_step:
  assumes "sstep s s'" "inv_order s" "\<And>i. x \<notin> pending (thr s' i)"
  shows "replay db (history s') x = replay db (history s) x"
proof -
  have h: "replay db (filter is_committed (map (thr s') (order s))) x = replay db (history s) x"
    unfolding history_def
  proof (rule replay_filter_cong)
    fix j assume m: "j \<in> set (order s)"
    show "wrs (thr s' j) = wrs (thr s j) \<and> (is_committed (thr s' j) = is_committed (thr s j) \<or>
        is_committed (thr s' j) \<and> \<not> is_committed (thr s j) \<and> x \<notin> dom_w (wrs (thr s j)))"
      using ordered_stable(2) [OF assms(1,2) m] committed_step [OF assms(1,2) m] assms(3) [of j] by auto
  qed simp
  show ?thesis using order_step [OF assms(1)]
  proof
    assume "\<exists>k. order s' = order s @ [k] \<and> pc (thr s k) = Locking [] \<and> recs s' = recs s \<and>
      thr s' = (thr s)(k := (thr s k)\<lparr>pc := Validating (rds (thr s k)), ctid := ctid (thr s' k)\<rparr>) \<and>
      (\<forall>x \<in> dom_w (wrs (thr s k)). inv_tids s \<longrightarrow> version (recs s x) < ctid (thr s' k))"
    then obtain k where k: "order s' = order s @ [k]"
      "thr s' = (thr s)(k := (thr s k)\<lparr>pc := Validating (rds (thr s k)), ctid := ctid (thr s' k)\<rparr>)" by blast
    have "pc (thr s' k) = Validating (rds (thr s k))" by (subst k(2)) simp
    then have "\<not> is_committed (thr s' k)" by (simp add: is_committed_def)
    then show ?thesis using h by (simp add: history_def k(1))
  qed (use h in \<open>simp add: history_def\<close>)
qed

lemma last_writer:
  assumes "inv_order s" "inv_prec s" "live (thr s i)" "is_committed (thr s i)" "x \<in> held (thr s i)"
    "(x, v) \<in> set (wrs (thr s i))" "distinct (map fst (wrs (thr s i)))"
  shows "replay db (history s) x = v"
proof -
  have ord: "i \<in> set (order s)" "distinct (order s)"
    using ordered_live [OF assms(1,3)] assms(1) by (auto simp: inv_order_def)
  obtain ys where ys: "order s = takeWhile (\<lambda>j. j \<noteq> i) (order s) @ i # ys" "set ys = {j. prec (order s) i j}"
    using takeWhile_dropWhile_split [OF ord(2,1)] by blast
  have ysp: "k \<in> set ys \<Longrightarrow> prec (order s) i k" for k using ys(2) by blast
  have hs: "history s = hist_before s i @ thr s i # filter is_committed (map (thr s) ys)"
    unfolding history_def hist_before_def by (subst ys(1)) (simp add: assms(4))
  have nw: "x \<notin> fst ` set (wrs T)" if T: "T \<in> set (filter is_committed (map (thr s) ys))" for T
  proof -
    obtain k where k: "T = thr s k" "is_committed (thr s k)" "prec (order s) i k" using T ysp by auto
    have "live (thr s k)" using k(2) by (simp add: live_def)
    then have "held (thr s i) \<inter> dom_w (wrs (thr s k)) = {}"
      using assms(2,3) k(3) unfolding inv_prec_def by blast
    then show ?thesis using assms(5) k(1) by (auto simp: dom_w_def)
  qed
  show ?thesis
    using replay_other [of "filter is_committed (map (thr s) ys)" x, OF nw] apply_writes_mem [OF assms(7,6)]
    unfolding hs replay_append by simp
qed

lemma quiet_step:
  assumes "sstep s s'"
  shows "(\<forall>x. contents (recs s' x) = contents (recs s x)) \<and> (\<forall>j. pending (thr s j) \<subseteq> pending (thr s' j)) \<or>
    (\<exists>i y v ws c. s' = s\<lparr>recs := (recs s)(y := c), thr := (thr s)(i := (thr s i)\<lparr>pc := Finishing ws\<rparr>)\<rparr> \<and>
        pc (thr s i) = Finishing ((y, v) # ws) \<and> installed c (ctid (thr s i)) v)"
  using assms
proof cases
  case (install i x v ws c)
  then show ?thesis by blast
qed (auto simp: tuple_unlock_facts locked_facts pending_def dom_w_def)

lemma inv_db_step:
  assumes "sstep s s'" "inv_db db s" "inv_order s" "inv_prec s" "inv_tids s" "inv_locks s"
  shows "inv_db db s'"
proof -
  have "contents (recs s' x) = replay db (history s') x" if np: "\<And>i. x \<notin> pending (thr s' i)" for x
  proof -
    note h = history_step [OF assms(1,3) np, of db]
    have old: ?thesis if "contents (recs s' x) = contents (recs s x)" "\<And>i. x \<notin> pending (thr s i)"
      using assms(2) that h by (simp add: inv_db_def)
    show ?thesis using quiet_step [OF assms(1)]
    proof
      assume "(\<forall>x. contents (recs s' x) = contents (recs s x)) \<and> (\<forall>j. pending (thr s j) \<subseteq> pending (thr s' j))"
      then show ?thesis using np by (intro old) auto
    next
      assume "\<exists>i y v ws c. s' = s\<lparr>recs := (recs s)(y := c), thr := (thr s)(i := (thr s i)\<lparr>pc := Finishing ws\<rparr>)\<rparr> \<and>
        pc (thr s i) = Finishing ((y, v) # ws) \<and> installed c (ctid (thr s i)) v"
      then obtain i y v ws c where install:
        "s' = s\<lparr>recs := (recs s)(y := c), thr := (thr s)(i := (thr s i)\<lparr>pc := Finishing ws\<rparr>)\<rparr>"
        "pc (thr s i) = Finishing ((y, v) # ws)" "installed c (ctid (thr s i)) v" by blast
      show ?thesis
      proof (cases "y = x")
        case True
        note f = installing_facts [OF assms(3,5) install(2)]
        have "is_committed (thr s i)" by (simp add: is_committed_def install(2))
        then have "replay db (history s) x = v"
          using last_writer [OF assms(3,4) f(1) _ f(2) f(6) phase_Finishing(3) [OF assms(3) install(2)]] True by simp
        then show ?thesis using h install True by (simp add: installed_def)
      next
        case False
        have "x \<notin> pending (thr s j)" for j
          using np [of j] install(1,2) False by (cases "j = i") (auto simp: pending_def dom_w_def)
        then show ?thesis using False install(1) by (intro old) auto
      qed
    qed
  qed
  then show ?thesis by (simp add: inv_db_def)
qed

section \<open>Serializability\<close>

lemma sinv_step: "sstep s s' \<Longrightarrow> sinv db s \<Longrightarrow> sinv db s'"
  unfolding sinv_def
  by (auto intro: inv_locks_step inv_order_step inv_reads_step inv_tids_step inv_prec_step inv_checked_step inv_db_step)

lemma sinv_reachable: "sstep\<^sup>*\<^sup>* (cinit db) s \<Longrightarrow> db_at_rest db \<Longrightarrow> sinv (\<lambda>x. contents (db x)) s"
  by (induction rule: rtranclp_induct) (auto intro: sinv_init sinv_step)

lemma sinv_serial:
  assumes "sinv db s"
  shows "serial_ok db (history s)"
    "(\<And>i. pending (thr s i) = {}) \<Longrightarrow> (\<lambda>x. contents (recs s x)) = replay db (history s)"
proof -
  have i: "distinct (order s)" "inv_checked db s" "inv_db db s" using assms by (auto simp: sinv_def inv_order_def)
  show "serial_ok db (history s)"
    unfolding history_def
  proof (rule serial_ok_from_prefixes [OF i(1)])
    fix j x t v assume "is_committed (thr s j)" "(x, t, v) \<in> set (rds (thr s j))"
    moreover from this(1) have "checked (thr s j) = rds (thr s j)" "live (thr s j)"
      by (auto simp: phase_defs split: pc.splits)
    ultimately have "replay db (hist_before s j) x = v" using i(2) by (fastforce simp: inv_checked_def)
    then show "replay db (filter is_committed (map (thr s) (takeWhile (\<lambda>ja. ja \<noteq> j) (order s)))) x = v"
      by (simp add: hist_before_def)
  qed
  show "(\<And>i. pending (thr s i) = {}) \<Longrightarrow> (\<lambda>x. contents (recs s x)) = replay db (history s)"
    using i(3) by (simp add: inv_db_def fun_eq_iff)
qed


text \<open>
  A run with two transactions on a database whose records all hold 1: the first reads and then overwrites record 0
  with 2, the second has read record 0 before and gives up at its validation.
\<close>

definition demo_db :: "nat \<Rightarrow> dbtuple" where
  "demo_db x = \<lparr>hdr = HDR_LATEST_MASK, version = 1, dsize = 1, alloc_size = 1, dnext = None, value_start = [1]\<rparr>"

definition demo_new :: dbtuple where
  "demo_new = \<lparr>hdr = HDR_LATEST_MASK OR (HDR_LOCKED_MASK OR HDR_WRITE_INTENT_MASK), version = gen_commit_tid 0 1 0 [1] [(False, 1)],
     dsize = 1, alloc_size = 1, dnext = None, value_start = [2]\<rparr>"

definition demo_t0 :: "pc \<Rightarrow> nat set \<Rightarrow> thread" where
  "demo_t0 p h = \<lparr>pc = p, rds = [(0, 1, Some [1])], puts = [(0, Some [2])], wrs = [(0, Some [2])], held = h,
     ctid = version demo_new\<rparr>"

lemma demo_db_facts:
  "\<not> IsLocked HDR_LATEST_MASK" "\<not> IsWriteIntent HDR_LATEST_MASK" "\<not> IsModifying HDR_LATEST_MASK" "\<not> IsDeleting HDR_LATEST_MASK"
  "IsLatest HDR_LATEST_MASK"
  "lock_try True HDR_LATEST_MASK HDR_LATEST_MASK = Some (HDR_LATEST_MASK OR (HDR_LOCKED_MASK OR HDR_WRITE_INTENT_MASK))"
  "IsLocked (hdr demo_new)" "IsWriteIntent (hdr demo_new)" "IsLatest (hdr demo_new)" "\<not> IsDeleting (hdr demo_new)"
  by (simp_all add: hdr_flags bit_hdr_masks bit_or_iff demo_new_def lock_try_def lockmask_def)

lemma demo_db_at_rest: "db_at_rest demo_db"
  using demo_db_facts by (simp add: db_at_rest_def demo_db_def MAX_TID_def)

lemma demo_db_contents: "contents (demo_db x) = Some [1]" "version (demo_db x) = 1" "readable False (demo_db x)"
  using demo_db_facts by (simp_all add: contents_def demo_db_def readable_def)

lemma demo_run:
  "\<exists>s. sstep\<^sup>*\<^sup>* (cinit demo_db) s \<and> history s = [demo_t0 (Finished True) {}] \<and> pc (thr s 1) = Aborting \<and>
     (\<forall>i ws. pc (thr s i) \<noteq> Finishing ws)"
proof -
  let ?f = fresh_thread
  let ?T1 = "?f\<lparr>rds := [(0, 1, Some [1])]\<rparr>"
  let ?st = "\<lambda>r T0 T1 L. \<lparr>recs = demo_db(0 := r), thr = (\<lambda>_. ?f)(0 := T0, 1 := T1), order = L\<rparr>"
  let ?c = "demo_db 0" and ?l = "(demo_db 0)\<lparr>hdr := HDR_LATEST_MASK OR (HDR_LOCKED_MASK OR HDR_WRITE_INTENT_MASK)\<rparr>"
  let ?a = "?f\<lparr>rds := [(0, 1, Some [1])]\<rparr>" let ?b = "?a\<lparr>puts := [(0, Some [2])]\<rparr>"
  let ?b2 = "\<lambda>p h. ?b\<lparr>wrs := [(0, Some [2])], pc := p, held := h\<rparr>"
  have fw: "final_writes [(0, Some [2])] = [(0 :: nat, Some [2 :: byte])]" by (simp add: final_writes_def)
  note d = demo_db_contents demo_db_facts
  have e0: "cinit demo_db = ?st ?c ?f ?f []" by (simp add: cinit_def fun_eq_iff)
  have 1: "sstep (?st ?c ?f ?f []) (?st ?c ?f ?T1 [])"
    using sstep.read [of "?st ?c ?f ?f []" 1 0] d by (simp add: fresh_thread_def)
  have 2: "sstep (?st ?c ?f ?T1 []) (?st ?c ?a ?T1 [])"
    using sstep.read [of "?st ?c ?f ?T1 []" 0 0] d by (simp add: fresh_thread_def fun_upd_twist)
  have 3: "sstep (?st ?c ?a ?T1 []) (?st ?c ?b ?T1 [])"
    using sstep.put [of "?st ?c ?a ?T1 []" 0 0 "Some [2]"] by (simp add: fresh_thread_def fun_upd_twist)
  have 4: "sstep (?st ?c ?b ?T1 []) (?st ?c (?b2 (Locking [0]) {}) ?T1 [])"
    using sstep.commit [of "?st ?c ?b ?T1 []" 0] fw by (simp add: fresh_thread_def fun_upd_twist)
  have 5: "sstep (?st ?c (?b2 (Locking [0]) {}) ?T1 []) (?st ?l (?b2 (Locking []) {0}) ?T1 [])"
    using sstep.lock [of "?st ?c (?b2 (Locking [0]) {}) ?T1 []" 0 0 "[]" _ "Locking []"] d
    by (simp add: fresh_thread_def fun_upd_twist demo_new_def) (simp add: demo_db_def)
  have ok: "commit_inputs_ok 0 1 0 [1] [(False, 1)]"
    by (simp add: commit_inputs_ok_def EpochId_drop NumId_take MAX_TID_def)
  have 6: "sstep (?st ?l (?b2 (Locking []) {0}) ?T1 []) (?st ?l (demo_t0 (Validating [(0, 1, Some [1])]) {0}) ?T1 [0])"
    using sstep.serialize [of "?st ?l (?b2 (Locking []) {0}) ?T1 []" 0 0 1 0 "version demo_new"] d ok
    by (simp add: fresh_thread_def fun_upd_twist demo_t0_def) (simp add: demo_new_def)
  have 7: "sstep (?st ?l (demo_t0 (Validating [(0, 1, Some [1])]) {0}) ?T1 [0]) (?st ?l (demo_t0 (Validating []) {0}) ?T1 [0])"
    using sstep.validate [of "?st ?l (demo_t0 (Validating [(0, 1, Some [1])]) {0}) ?T1 [0]" 0 0 1 "Some [1]" "[]"] d
    by (simp add: fun_upd_twist demo_t0_def validates_def is_latest_version_def is_not_behind_def demo_new_def)
  have 8: "sstep (?st ?l (demo_t0 (Validating []) {0}) ?T1 [0]) (?st ?l (demo_t0 (Finishing [(0, Some [2])]) {0}) ?T1 [0])"
    using sstep.decide [of "?st ?l (demo_t0 (Validating []) {0}) ?T1 [0]" 0] by (simp add: fun_upd_twist demo_t0_def)
  have 9: "sstep (?st ?l (demo_t0 (Finishing [(0, Some [2])]) {0}) ?T1 [0]) (?st demo_new (demo_t0 (Finishing []) {0}) ?T1 [0])"
    using sstep.install [of "?st ?l (demo_t0 (Finishing [(0, Some [2])]) {0}) ?T1 [0]" 0 0 "Some [2]" "[]" demo_new] d
    by (simp add: fun_upd_twist demo_t0_def installed_def contents_def) (simp add: demo_new_def)
  let ?n = "tuple_unlock demo_new"
  have 10: "sstep (?st demo_new (demo_t0 (Finishing []) {0}) ?T1 [0]) (?st ?n (demo_t0 (Finishing []) {}) ?T1 [0])"
    using sstep.release [of "?st demo_new (demo_t0 (Finishing []) {0}) ?T1 [0]" 0 "[]" 0] by (simp add: fun_upd_twist demo_t0_def)
  have 11: "sstep (?st ?n (demo_t0 (Finishing []) {}) ?T1 [0]) (?st ?n (demo_t0 (Finished True) {}) ?T1 [0])"
    using sstep.finish [of "?st ?n (demo_t0 (Finishing []) {}) ?T1 [0]" 0] by (simp add: fun_upd_twist demo_t0_def)
  have 12: "sstep (?st ?n (demo_t0 (Finished True) {}) ?T1 [0]) (?st ?n (demo_t0 (Finished True) {}) (?T1\<lparr>pc := Aborting\<rparr>) [0])"
    using sstep.give_up [of "?st ?n (demo_t0 (Finished True) {}) ?T1 [0]" 1] by (simp add: fresh_thread_def)
  note c = converse_rtranclp_into_rtranclp [of sstep]
  have "sstep\<^sup>*\<^sup>* (cinit demo_db) (?st ?n (demo_t0 (Finished True) {}) (?T1\<lparr>pc := Aborting\<rparr>) [0])"
    unfolding e0 by (rule c [OF 1 c [OF 2 c [OF 3 c [OF 4 c [OF 5 c [OF 6 c [OF 7 c [OF 8 c [OF 9 c [OF 10 c [OF 11 c [OF 12 rtranclp.rtrancl_refl [of sstep]]]]]]]]]]]]])
  then show ?thesis
    by (intro exI conjI) (assumption, simp_all add: history_def is_committed_def demo_t0_def fresh_thread_def)
qed


end
