(* ===== verification/Silo_PxQueue.thy ===== *)
theory Silo_PxQueue
  imports Silo_Util
begin

text \<open>
  The queue of things to delete, \<^verbatim>\<open>src/silo/pxqueue.h\<close>: groups of at most \<open>GroupSize\<close> entries that share a tick, in a linked
  list, with a list of spare groups. The lists of groups are lists here; \<open>tail_\<close> is the last group. Entries are taken
  out by tick, oldest first. The contract of such a queue is the locale \<open>tick_queue\<close>, which the collector relies on.
\<close>

section \<open>The queue\<close>

record 'a px_group =
  pxs :: "'a list"
  group_tick :: nat

record 'a px_queue =
  groups :: "'a px_group list"
  freelist :: "'a px_group list"
  ngroups :: nat

definition px_empty :: "'a px_queue" where
  "px_empty = \<lparr>groups = [], freelist = [], ngroups = 0\<rparr>"

definition px_is_empty :: "'a px_queue \<Rightarrow> bool" where
  "px_is_empty q \<longleftrightarrow> groups q = []"

primrec alloc_freelist :: "nat \<Rightarrow> 'a px_queue \<Rightarrow> 'a px_queue" where
  "alloc_freelist 0 q = q"
| "alloc_freelist (Suc n) q = alloc_freelist n (q\<lparr>freelist := \<lparr>pxs = [], group_tick = 0\<rparr> # freelist q\<rparr>)"

definition ensure_freelist :: "'a px_queue \<Rightarrow> 'a px_queue" where
  "ensure_freelist q = (if freelist q \<noteq> [] then q else alloc_freelist 16 q)"

definition enqueue :: "nat \<Rightarrow> 'a \<Rightarrow> nat \<Rightarrow> 'a px_queue \<Rightarrow> 'a px_queue" where
  "enqueue GroupSize t rcu_tick q =
     (if groups q = [] \<or> length (pxs (last (groups q))) = GroupSize \<or> group_tick (last (groups q)) \<noteq> rcu_tick then
        let q = ensure_freelist q;
            g = (hd (freelist q))\<lparr>pxs := [], group_tick := rcu_tick\<rparr>
        in q\<lparr>freelist := tl (freelist q), groups := groups q @ [g\<lparr>pxs := pxs g @ [t]\<rparr>], ngroups := ngroups q + 1\<rparr>
      else
        let g = last (groups q)
        in q\<lparr>groups := butlast (groups q) @ [g\<lparr>pxs := pxs g @ [t]\<rparr>]\<rparr>)"

text \<open>\<open>empty_accept_from\<close> asserts that the receiver is empty; the loop moves one group after the other.\<close>

fun accept_loop :: "nat \<Rightarrow> 'a px_group list \<Rightarrow> 'a px_queue \<Rightarrow> 'a px_queue \<Rightarrow> 'a px_queue \<times> 'a px_queue" where
  "accept_loop rcu_tick [] dst src = (dst, src)"
| "accept_loop rcu_tick (p # ps) dst src =
     (if group_tick p \<le> rcu_tick then
        accept_loop rcu_tick ps
          (dst\<lparr>groups := groups dst @ [p], ngroups := ngroups dst + 1\<rparr>)
          (src\<lparr>groups := ps, ngroups := ngroups src - 1\<rparr>)
      else (dst, src))"

definition empty_accept_from :: "'a px_queue \<Rightarrow> 'a px_queue \<Rightarrow> nat \<Rightarrow> ('a px_queue \<times> 'a px_queue) res" where
  "empty_accept_from dst src rcu_tick =
     (if \<not> px_is_empty dst then Inl (Abort ''empty()'')
      else Inr (accept_loop rcu_tick (groups src) dst src))"

text \<open>\<open>transfer_freelist\<close> with its default argument; the result is the source and the destination.\<close>

definition transfer_freelist :: "'a px_queue \<Rightarrow> 'a px_queue \<Rightarrow> 'a px_queue \<times> 'a px_queue" where
  "transfer_freelist q dest =
     (if freelist q = [] then (q, dest)
      else (q\<lparr>freelist := []\<rparr>, dest\<lparr>freelist := freelist q @ freelist dest\<rparr>))"

definition px_clear :: "'a px_queue \<Rightarrow> 'a px_queue" where
  "px_clear q = (if groups q = [] then q else q\<lparr>freelist := groups q @ freelist q, groups := [], ngroups := 0\<rparr>)"

definition get_latest_epoch :: "'a px_queue \<Rightarrow> nat option" where
  "get_latest_epoch q = (if groups q = [] then None else Some (group_tick (last (groups q))))"

text \<open>What the iterators run through, each entry with its tick.\<close>

definition px_entries :: "'a px_queue \<Rightarrow> ('a \<times> nat) list" where
  "px_entries q = concat (map (\<lambda>g. map (\<lambda>x. (x, group_tick g)) (pxs g)) (groups q))"

text \<open>What \<open>sanity_check\<close> checks.\<close>

definition px_ok :: "nat \<Rightarrow> 'a px_queue \<Rightarrow> bool" where
  "px_ok GroupSize q \<longleftrightarrow> ngroups q = length (groups q) \<and> sorted (map group_tick (groups q)) \<and>
     (\<forall>g \<in> set (groups q). pxs g \<noteq> [] \<and> length (pxs g) \<le> GroupSize)"

section \<open>The contract\<close>

text \<open>
  A queue of entries with ticks: entries come out in the order they went in, those up to a tick at a time, as long as
  the ticks given to it never fall.
\<close>

locale tick_queue =
  fixes ok :: "'q \<Rightarrow> bool"
    and entries :: "'q \<Rightarrow> ('a \<times> nat) list"
    and enq :: "'a \<Rightarrow> nat \<Rightarrow> 'q \<Rightarrow> 'q"
    and take_upto :: "nat \<Rightarrow> 'q \<Rightarrow> ('a \<times> nat) list \<times> 'q"
  assumes enq_ok: "ok q \<Longrightarrow> (\<And>e. e \<in> set (entries q) \<Longrightarrow> snd e \<le> k) \<Longrightarrow> ok (enq x k q)"
    and enq_entries: "ok q \<Longrightarrow> entries (enq x k q) = entries q @ [(x, k)]"
    and take_ok: "ok q \<Longrightarrow> take_upto k q = (out, q') \<Longrightarrow> ok q'"
    and take_entries: "ok q \<Longrightarrow> take_upto k q = (out, q') \<Longrightarrow> entries q = out @ entries q'"
    and take_out: "ok q \<Longrightarrow> take_upto k q = (out, q') \<Longrightarrow> e \<in> set out \<Longrightarrow> snd e \<le> k"
    and take_rest: "ok q \<Longrightarrow> take_upto k q = (out, q') \<Longrightarrow> e \<in> set (entries q') \<Longrightarrow> k < snd e"
begin

lemma take_exact:
  assumes "ok q" "take_upto k q = (out, q')"
  shows "out = filter (\<lambda>e. snd e \<le> k) (entries q)" "entries q' = filter (\<lambda>e. k < snd e) (entries q)"
proof -
  have o: "\<forall>e \<in> set out. snd e \<le> k" "\<forall>e \<in> set (entries q'). k < snd e"
    using take_out [OF assms] take_rest [OF assms] by auto
  then have n: "filter (\<lambda>e. k < snd e) out = []" "filter (\<lambda>e. snd e \<le> k) (entries q') = []"
    by (simp_all add: filter_empty_conv not_less not_le)
  show "out = filter (\<lambda>e. snd e \<le> k) (entries q)" "entries q' = filter (\<lambda>e. k < snd e) (entries q)"
    using o n by (simp_all add: take_entries [OF assms] filter_True)
qed

end

section \<open>The queue keeps the contract\<close>

text \<open>
  The pair of queues a thread has for one purpose: \<open>queue_\<close>, which collects, and \<open>scratch_\<close>, which is empty between two
  clean-ups. \<open>reap\<close> is what the clean-ups do with them: move the groups up to a tick to \<open>scratch_\<close>, give the spare groups
  back, run through the entries, clear.
\<close>

record 'a px_pair =
  queue :: "'a px_queue"
  scratch :: "'a px_queue"

definition reap :: "nat \<Rightarrow> 'a px_pair \<Rightarrow> ('a \<times> nat) list \<times> 'a px_pair" where
  "reap tick p =
     (case empty_accept_from (scratch p) (queue p) tick of
        Inl e \<Rightarrow> ([], p)
      | Inr (scr, q) \<Rightarrow>
          let (scr, q) = transfer_freelist scr q
          in if px_is_empty scr then ([], \<lparr>queue = q, scratch = scr\<rparr>)
             else (px_entries scr, \<lparr>queue = q, scratch = px_clear scr\<rparr>))"

definition pair_enqueue :: "nat \<Rightarrow> 'a \<Rightarrow> nat \<Rightarrow> 'a px_pair \<Rightarrow> 'a px_pair" where
  "pair_enqueue GroupSize x tick p = p\<lparr>queue := enqueue GroupSize x tick (queue p)\<rparr>"

definition pair_entries :: "'a px_pair \<Rightarrow> ('a \<times> nat) list" where
  "pair_entries p = px_entries (queue p)"

definition pair_ok :: "nat \<Rightarrow> 'a px_pair \<Rightarrow> bool" where
  "pair_ok GroupSize p \<longleftrightarrow> px_ok GroupSize (queue p) \<and> px_is_empty (scratch p) \<and> ngroups (scratch p) = 0"

lemma accept_loop_spec:
  assumes "groups src = ps" "ngroups src = length ps" "accept_loop k ps dst src = (dst', src')"
  shows "groups dst' = groups dst @ takeWhile (\<lambda>g. group_tick g \<le> k) ps"
    "groups src' = dropWhile (\<lambda>g. group_tick g \<le> k) ps"
    "ngroups dst' = ngroups dst + length (takeWhile (\<lambda>g. group_tick g \<le> k) ps)" "ngroups src' = length (groups src')"
    "freelist dst' = freelist dst" "freelist src' = freelist src"
proof -
  have "groups dst' = groups dst @ takeWhile (\<lambda>g. group_tick g \<le> k) ps \<and>
    groups src' = dropWhile (\<lambda>g. group_tick g \<le> k) ps \<and>
    ngroups dst' = ngroups dst + length (takeWhile (\<lambda>g. group_tick g \<le> k) ps) \<and> ngroups src' = length (groups src') \<and>
    freelist dst' = freelist dst \<and> freelist src' = freelist src"
    using assms by (induction k ps dst src rule: accept_loop.induct) (auto split: if_splits)
  then show "groups dst' = groups dst @ takeWhile (\<lambda>g. group_tick g \<le> k) ps"
    "groups src' = dropWhile (\<lambda>g. group_tick g \<le> k) ps"
    "ngroups dst' = ngroups dst + length (takeWhile (\<lambda>g. group_tick g \<le> k) ps)" "ngroups src' = length (groups src')"
    "freelist dst' = freelist dst" "freelist src' = freelist src" by auto
qed

lemma alloc_freelist_groups [simp]: "groups (alloc_freelist n q) = groups q" "ngroups (alloc_freelist n q) = ngroups q"
  by (induction n arbitrary: q) simp_all

lemma freelist_ensured: "freelist (ensure_freelist q) \<noteq> []" "groups (ensure_freelist q) = groups q" "ngroups (ensure_freelist q) = ngroups q"
proof -
  have f: "length (freelist (alloc_freelist n q)) = n + length (freelist q)" for n and q :: "'a px_queue"
    by (induction n arbitrary: q) simp_all
  show "freelist (ensure_freelist q) \<noteq> []" using f [of 16 q] by (auto simp: ensure_freelist_def)
  show "groups (ensure_freelist q) = groups q" "ngroups (ensure_freelist q) = ngroups q"
    by (auto simp: ensure_freelist_def)
qed

definition group_entries :: "'a px_group \<Rightarrow> ('a \<times> nat) list" where
  "group_entries g = map (\<lambda>x. (x, group_tick g)) (pxs g)"

lemma px_entries_alt: "px_entries q = concat (map group_entries (groups q))"
  by (simp add: px_entries_def group_entries_def [abs_def])

lemma enqueue_cases:
  obtains (new) "groups (enqueue N x k q) = groups q @ [\<lparr>pxs = [x], group_tick = k\<rparr>]" "ngroups (enqueue N x k q) = ngroups q + 1"
  | (old) gs g where "groups q = gs @ [g]" "length (pxs g) \<noteq> N" "group_tick g = k"
      "groups (enqueue N x k q) = gs @ [g\<lparr>pxs := pxs g @ [x]\<rparr>]" "ngroups (enqueue N x k q) = ngroups q"
proof (cases "groups q = [] \<or> length (pxs (last (groups q))) = N \<or> group_tick (last (groups q)) \<noteq> k")
  case True
  have "g\<lparr>pxs := [], group_tick := k, pxs := [x]\<rparr> = \<lparr>pxs = [x], group_tick = k\<rparr>" for g :: "'a px_group" by simp
  then show thesis using True by (intro new) (simp_all add: enqueue_def Let_def freelist_ensured)
next
  case False
  then have "groups q = butlast (groups q) @ [last (groups q)]" by simp
  then show thesis using False by (intro old) (simp_all add: enqueue_def Let_def)
qed

lemma enqueue_entries: "px_entries (enqueue N x k q) = px_entries q @ [(x, k)]"
  by (rule enqueue_cases [of N x k q]) (simp_all add: px_entries_alt group_entries_def)

lemma enqueue_ok:
  assumes "px_ok N q" "0 < N" "\<And>e. e \<in> set (px_entries q) \<Longrightarrow> snd e \<le> k"
  shows "px_ok N (enqueue N x k q)"
proof (cases rule: enqueue_cases [of N x k q])
  case new
  have "group_tick g \<le> k" if "g \<in> set (groups q)" for g
  proof -
    have "pxs g \<noteq> []" using assms(1) that by (simp add: px_ok_def)
    then have "(hd (pxs g), group_tick g) \<in> set (px_entries q)"
      using that by (auto simp: px_entries_alt group_entries_def intro!: bexI [of _ g])
    then show ?thesis using assms(3) by fastforce
  qed
  then show ?thesis using new assms(1,2) by (auto simp: px_ok_def sorted_append)
next
  case (old gs g)
  then show ?thesis using assms(1) by (auto simp: px_ok_def sorted_append)
qed

lemma takeWhile_groups_entries:
  assumes "sorted (map group_tick gs)"
  shows "e \<in> set (concat (map group_entries (takeWhile (\<lambda>g. group_tick g \<le> k) gs))) \<Longrightarrow> snd e \<le> k"
    "e \<in> set (concat (map group_entries (dropWhile (\<lambda>g. group_tick g \<le> k) gs))) \<Longrightarrow> k < snd e"
proof -
  show "e \<in> set (concat (map group_entries (takeWhile (\<lambda>g. group_tick g \<le> k) gs))) \<Longrightarrow> snd e \<le> k"
    by (auto simp: group_entries_def dest: set_takeWhileD)
  have "\<forall>g \<in> set (dropWhile (\<lambda>g. group_tick g \<le> k) gs). k < group_tick g" using assms by (induction gs) auto
  then show "e \<in> set (concat (map group_entries (dropWhile (\<lambda>g. group_tick g \<le> k) gs))) \<Longrightarrow> k < snd e"
    by (auto simp: group_entries_def)
qed

lemma reap_spec:
  assumes "pair_ok N p" "reap k p = (out, p')"
  shows "out = concat (map group_entries (takeWhile (\<lambda>g. group_tick g \<le> k) (groups (queue p))))"
    "groups (queue p') = dropWhile (\<lambda>g. group_tick g \<le> k) (groups (queue p))" "pair_ok N p'"
proof -
  have s: "groups (scratch p) = []" "ngroups (scratch p) = 0" "px_ok N (queue p)"
    using assms(1) by (auto simp: pair_ok_def px_is_empty_def)
  obtain scr q where a: "accept_loop k (groups (queue p)) (scratch p) (queue p) = (scr, q)" by fastforce
  note f = accept_loop_spec [OF refl _ a]
  let ?t = "takeWhile (\<lambda>g. group_tick g \<le> k) (groups (queue p))" and ?d = "dropWhile (\<lambda>g. group_tick g \<le> k) (groups (queue p))"
  have g: "groups scr = ?t" "groups q = ?d" "ngroups q = length ?d" "ngroups scr = length ?t"
    using f s by (simp_all add: px_ok_def)
  have ok: "px_ok N (q\<lparr>freelist := fl\<rparr>)" for fl
  proof -
    have "sorted (map group_tick ?d)" using s(3) by (simp add: px_ok_def dropWhile_eq_drop drop_map [symmetric] sorted_wrt_drop)
    moreover have "g \<in> set (groups (queue p))" if "g \<in> set ?d" for g using that by (rule set_dropWhileD)
    ultimately show ?thesis using s(3) g(2,3) by (simp add: px_ok_def)
  qed
  have ok': "px_ok N q" using ok [of "freelist q"] by simp
  show "out = concat (map group_entries ?t)" "groups (queue p') = ?d" "pair_ok N p'"
    using assms(2) s(1,2) a g ok ok'
    by (auto simp: reap_def empty_accept_from_def px_is_empty_def transfer_freelist_def px_entries_alt px_clear_def pair_ok_def
        Let_def split: if_splits)
qed

interpretation pq: tick_queue "pair_ok 4096" pair_entries "pair_enqueue 4096" reap
proof
  fix q :: "'a px_pair" and k and x :: 'a and out q' e
  show "pair_ok 4096 q \<Longrightarrow> (\<And>e. e \<in> set (pair_entries q) \<Longrightarrow> snd e \<le> k) \<Longrightarrow> pair_ok 4096 (pair_enqueue 4096 x k q)"
    using enqueue_ok [of 4096 "queue q" k x] by (simp add: pair_ok_def pair_entries_def pair_enqueue_def)
  show "pair_entries (pair_enqueue 4096 x k q) = pair_entries q @ [(x, k)]"
    by (simp add: pair_entries_def pair_enqueue_def enqueue_entries)
  assume ok: "pair_ok 4096 q" and r: "reap k q = (out, q')"
  note s = reap_spec [OF ok r]
  have srt: "sorted (map group_tick (groups (queue q)))" using ok by (simp add: pair_ok_def px_ok_def)
  show "pair_ok 4096 q'" by (fact s(3))
  show "pair_entries q = out @ pair_entries q'"
    unfolding pair_entries_def px_entries_alt s(1,2)
    by (metis concat_append map_append takeWhile_dropWhile_id)
  show "e \<in> set out \<Longrightarrow> snd e \<le> k" unfolding s(1) by (rule takeWhile_groups_entries(1) [OF srt])
  show "e \<in> set (pair_entries q') \<Longrightarrow> k < snd e"
    unfolding pair_entries_def px_entries_alt s(2) by (rule takeWhile_groups_entries(2) [OF srt])
qed

end
