(* ===== verification/Silo_Epoch.thy ===== *)
theory Silo_Epoch
  imports Silo_PxQueue Silo_Tid
begin

text \<open>
  Epochs and reclamation in Silo: the ticker of \<^verbatim>\<open>src/silo/ticker.h\<close> with its guards, deferred deletion of
  \<^verbatim>\<open>src/silo/rcu.h\<close> and \<^verbatim>\<open>src/silo/rcu.cc\<close>, and the collection of old record versions of
  \<^verbatim>\<open>src/silo/txn_proto2_impl.h\<close> and \<^verbatim>\<open>src/silo/txn_proto2_impl.cc\<close>. The daemon thread of the ticker and one thread per
  core interleave as the step relation \<open>estep\<close>, one atomic access at a time. Ticks are natural numbers: the code does not
  handle an overflow of its 64-bit counters, which takes more than ten thousand million years at 40 ms per tick.
  The theorems: a deleted object is handed back only when no thread can hold a reference to it, an old version only when
  no snapshot can reach it.
\<close>

section \<open>State\<close>

text \<open>A thread's guard: outside, with the lock of its \<open>tickinfo\<close>, with the tick loaded, or inside at a depth.\<close>

datatype gpc = Outside | Entering | Loaded nat | Inside nat nat

text \<open>The loop of the ticker: asleep, looking at a core, waiting for a core's lock, holding it.\<close>

datatype tpc = Sleeping | Scanning nat | Waiting nat | Holding nat

record epochs =
  current_tick :: nat
  last_tick_inclusive :: nat
  ticker_pc :: tpc
  ticks :: "nat \<Rightarrow> nat"
  tlock :: "nat \<Rightarrow> bool"
  gs :: "nat \<Rightarrow> gpc"
  born :: "nat set"
  linked :: "nat set"
  refs :: "nat \<Rightarrow> nat set"
  pend :: "nat \<Rightarrow> nat set"
  rcu_q :: "nat \<Rightarrow> nat px_pair"
  last_reaped :: "nat \<Rightarrow> nat"
  snap :: "nat \<Rightarrow> nat option"
  cepoch :: "nat \<Rightarrow> nat option"
  gc_q :: "nat \<Rightarrow> (nat \<times> nat) px_pair"
  gc_reaped :: "nat \<Rightarrow> nat"
  gone :: "(nat \<times> nat) set"
  freed :: "nat set"

definition global_last_tick_exclusive :: "epochs \<Rightarrow> nat" where
  "global_last_tick_exclusive s = last_tick_inclusive s + 1"

definition is_locally_guarded :: "epochs \<Rightarrow> nat \<Rightarrow> nat option" where
  "is_locally_guarded s i = (case gs s i of Inside d t \<Rightarrow> Some (ticks s i) | _ \<Rightarrow> None)"

fun compute_min :: "nat \<Rightarrow> nat list \<Rightarrow> nat" where
  "compute_min e [] = e"
| "compute_min e (t # ts) = compute_min (min e t) ts"

definition compute_global_last_tick_exclusive :: "nat \<Rightarrow> epochs \<Rightarrow> nat" where
  "compute_global_last_tick_exclusive n s = compute_min (ticks s 0) (map (ticks s) [1..<n])"

section \<open>Deferred deletion\<close>

definition EpochTimeMultiplier :: nat where
  "EpochTimeMultiplier = 25"

definition to_rcu_ticks :: "nat \<Rightarrow> nat" where
  "to_rcu_ticks tk = tk div EpochTimeMultiplier"

definition cleaning_rcu_tick_exclusive :: "epochs \<Rightarrow> nat" where
  "cleaning_rcu_tick_exclusive s = to_rcu_ticks (global_last_tick_exclusive s)"

text \<open>\<open>free_with_fn\<close> and \<open>dealloc_rcu\<close>: the entry waits until the system is past the tick after the caller's.\<close>

definition free_with_fn :: "nat \<Rightarrow> nat \<Rightarrow> epochs \<Rightarrow> epochs" where
  "free_with_fn i p s =
     (case is_locally_guarded s i of
        None \<Rightarrow> s
      | Some cur_tick \<Rightarrow>
          s\<lparr>rcu_q := (rcu_q s)(i := pair_enqueue 4096 p (to_rcu_ticks (cur_tick + 1)) (rcu_q s i))\<rparr>)"

text \<open>
  The deleters run one after the other, in a region of their own; here all entries that were taken out are given
  back at once, which is the earliest that can happen.
\<close>

definition do_cleanup :: "nat \<Rightarrow> epochs \<Rightarrow> epochs" where
  "do_cleanup i s =
     (let clean_tick_exclusive = cleaning_rcu_tick_exclusive s in
      if clean_tick_exclusive = 0 then s
      else let clean_tick = clean_tick_exclusive - 1 in
        if last_reaped s i = clean_tick then s
        else let (out, q) = reap clean_tick (rcu_q s i)
             in s\<lparr>last_reaped := (last_reaped s)(i := clean_tick), rcu_q := (rcu_q s)(i := q),
                  freed := freed s \<union> fst ` set out\<rparr>)"

section \<open>Collection of versions\<close>

definition ro_tick :: "nat \<Rightarrow> nat" where
  "ro_tick epoch_tick = epoch_tick div 25"

text \<open>\<open>on_dbtuple_spill\<close>: a version that left the head of its chain, with the epoch of the version ahead of it.\<close>

definition gc_enqueue :: "nat \<Rightarrow> nat \<Rightarrow> nat \<Rightarrow> epochs \<Rightarrow> epochs" where
  "gc_enqueue i tuple epoch s = s\<lparr>gc_q := (gc_q s)(i := pair_enqueue 4096 (tuple, epoch) (ro_tick epoch) (gc_q s i))\<rparr>"

text \<open>
  \<open>clean_up_to_including\<close> for entries without a key, which are given back at once. Entries with a key, those of deleted
  records, are removed from the tree and go through deferred deletion.
\<close>

definition clean_up_to_including :: "nat \<Rightarrow> nat \<Rightarrow> epochs \<Rightarrow> epochs" where
  "clean_up_to_including i ro_tick_geq s =
     (if gc_reaped s i = ro_tick_geq then s
      else let (out, q) = reap ro_tick_geq (gc_q s i)
           in s\<lparr>gc_reaped := (gc_reaped s)(i := ro_tick_geq), gc_q := (gc_q s)(i := q),
                gone := gone s \<union> fst ` set out, freed := freed s \<union> (fst \<circ> fst) ` set out\<rparr>)"

definition on_post_rcu_region_completion :: "nat \<Rightarrow> epochs \<Rightarrow> epochs" where
  "on_post_rcu_region_completion i s =
     (let last_tick_ex = global_last_tick_exclusive s in
      if last_tick_ex = 0 then s
      else let ro_tick_ex = ro_tick (last_tick_ex - 1) in
        if ro_tick_ex = 0 then s
        else clean_up_to_including i (ro_tick_ex - 1) s)"

text \<open>The tick up to which \<open>PurgeThreadOutstandingGCTasks\<close> believes it may collect, when there is one.\<close>

definition purge_tick :: "epochs \<Rightarrow> nat option" where
  "purge_tick s =
     (let last_tick_ex = global_last_tick_exclusive s;
          ro_tick_ex = ro_tick last_tick_ex
      in if ro_tick_ex = 0 then None else Some (ro_tick_ex - 1))"

text \<open>
  The versions a snapshot can reach behind the head of a chain: those whose version ahead lies in a read-only tick
  that the snapshot does not see.
\<close>

definition behind :: "nat \<Rightarrow> nat \<Rightarrow> bool" where
  "behind g e \<longleftrightarrow> ro_tick g \<le> ro_tick e"

section \<open>Threads and ticker\<close>

definition retired :: "epochs \<Rightarrow> (nat \<times> nat) set" where
  "retired s = (\<Union>i. fst ` set (pair_entries (gc_q s i))) \<union> gone s"

inductive estep :: "nat \<Rightarrow> epochs \<Rightarrow> epochs \<Rightarrow> bool" for n :: nat where
  guard_lock: "i < n \<Longrightarrow> gs s i = Outside \<Longrightarrow> \<not> tlock s i \<Longrightarrow>
    estep n s (s\<lparr>gs := (gs s)(i := Entering), tlock := (tlock s)(i := True)\<rparr>)"
| guard_load: "i < n \<Longrightarrow> gs s i = Entering \<Longrightarrow> estep n s (s\<lparr>gs := (gs s)(i := Loaded (current_tick s))\<rparr>)"
| guard_store: "i < n \<Longrightarrow> gs s i = Loaded t \<Longrightarrow>
    estep n s (s\<lparr>gs := (gs s)(i := Inside 1 t), ticks := (ticks s)(i := t)\<rparr>)"
| guard_nest: "i < n \<Longrightarrow> gs s i = Inside d t \<Longrightarrow> estep n s (s\<lparr>gs := (gs s)(i := Inside (d + 1) (ticks s i))\<rparr>)"
| guard_unnest: "i < n \<Longrightarrow> gs s i = Inside (Suc (Suc d)) t \<Longrightarrow> estep n s (s\<lparr>gs := (gs s)(i := Inside (Suc d) t)\<rparr>)"
| guard_leave: "i < n \<Longrightarrow> gs s i = Inside 1 t \<Longrightarrow>
    estep n s (s\<lparr>gs := (gs s)(i := Outside), tlock := (tlock s)(i := False), refs := (refs s)(i := {}),
      snap := (snap s)(i := None), cepoch := (cepoch s)(i := None)\<rparr>)"
| tick_bump: "ticker_pc s = Sleeping \<Longrightarrow> estep n s (s\<lparr>current_tick := current_tick s + 1, ticker_pc := Scanning 0\<rparr>)"
| tick_skip: "ticker_pc s = Scanning i \<Longrightarrow> i < n \<Longrightarrow> ticks s i = current_tick s \<Longrightarrow> estep n s (s\<lparr>ticker_pc := Scanning (i + 1)\<rparr>)"
| tick_wait: "ticker_pc s = Scanning i \<Longrightarrow> i < n \<Longrightarrow> ticks s i \<noteq> current_tick s \<Longrightarrow> estep n s (s\<lparr>ticker_pc := Waiting i\<rparr>)"
| tick_lock: "ticker_pc s = Waiting i \<Longrightarrow> \<not> tlock s i \<Longrightarrow>
    estep n s (s\<lparr>ticker_pc := Holding i, tlock := (tlock s)(i := True)\<rparr>)"
| tick_advance: "ticker_pc s = Holding i \<Longrightarrow>
    estep n s (s\<lparr>ticker_pc := Scanning (i + 1), ticks := (ticks s)(i := current_tick s), tlock := (tlock s)(i := False)\<rparr>)"
| tick_publish: "ticker_pc s = Scanning n \<Longrightarrow>
    estep n s (s\<lparr>ticker_pc := Sleeping, last_tick_inclusive := current_tick s - 1\<rparr>)"
| link: "i < n \<Longrightarrow> gs s i = Inside d t \<Longrightarrow> x \<notin> born s \<Longrightarrow> estep n s (s\<lparr>born := insert x (born s), linked := insert x (linked s)\<rparr>)"
| get: "i < n \<Longrightarrow> gs s i = Inside d t \<Longrightarrow> x \<in> linked s \<Longrightarrow> estep n s (s\<lparr>refs := (refs s)(i := insert x (refs s i))\<rparr>)"
| unlink: "i < n \<Longrightarrow> gs s i = Inside d t \<Longrightarrow> x \<in> linked s \<Longrightarrow>
    estep n s (s\<lparr>linked := linked s - {x}, pend := (pend s)(i := insert x (pend s i)), refs := (refs s)(i := insert x (refs s i))\<rparr>)"
| free: "i < n \<Longrightarrow> gs s i = Inside d t \<Longrightarrow> x \<in> pend s i \<Longrightarrow>
    estep n s (free_with_fn i x (s\<lparr>pend := (pend s)(i := pend s i - {x})\<rparr>))"
| cleanup: "i < n \<Longrightarrow> gs s i = Outside \<Longrightarrow> estep n s (do_cleanup i s)"
| begin_snapshot: "i < n \<Longrightarrow> gs s i = Inside d t \<Longrightarrow> snap s i = None \<Longrightarrow>
    estep n s (s\<lparr>snap := (snap s)(i := Some (global_last_tick_exclusive s))\<rparr>)"
| commit_epoch: "i < n \<Longrightarrow> gs s i = Inside d t \<Longrightarrow> estep n s (s\<lparr>cepoch := (cepoch s)(i := Some (current_tick s))\<rparr>)"
| spill: "i < n \<Longrightarrow> gs s i = Inside d t \<Longrightarrow> cepoch s i = Some e \<Longrightarrow> x \<in> linked s \<or> x \<notin> born s \<Longrightarrow>
    estep n s (gc_enqueue i x e (s\<lparr>linked := linked s - {x}, born := insert x (born s)\<rparr>))"
| chain_get: "i < n \<Longrightarrow> gs s i = Inside d t \<Longrightarrow> snap s i = Some g \<Longrightarrow> (x, e) \<in> retired s \<Longrightarrow> behind g e \<Longrightarrow>
    estep n s (s\<lparr>refs := (refs s)(i := insert x (refs s i))\<rparr>)"
| collect: "i < n \<Longrightarrow> gs s i = Outside \<Longrightarrow> estep n s (on_post_rcu_region_completion i s)"

definition px_pair_empty :: "'a px_pair" where
  "px_pair_empty = \<lparr>queue = alloc_freelist 32 px_empty, scratch = alloc_freelist 32 px_empty\<rparr>"

definition einit :: "nat set \<Rightarrow> epochs" where
  "einit X = \<lparr>current_tick = 1, last_tick_inclusive = 0, ticker_pc = Sleeping, ticks = (\<lambda>_. 1), tlock = (\<lambda>_. False),
     gs = (\<lambda>_. Outside), born = X, linked = X, refs = (\<lambda>_. {}), pend = (\<lambda>_. {}), rcu_q = (\<lambda>_. px_pair_empty),
     last_reaped = (\<lambda>_. 0), snap = (\<lambda>_. None), cepoch = (\<lambda>_. None), gc_q = (\<lambda>_. px_pair_empty), gc_reaped = (\<lambda>_. 0),
     gone = {}, freed = {}\<rparr>"

section \<open>Ticks\<close>

definition scanned :: "nat \<Rightarrow> nat \<Rightarrow> epochs \<Rightarrow> bool" where
  "scanned n j s \<longleftrightarrow> last_tick_inclusive s + 2 = current_tick s \<and> j \<le> n \<and> (\<forall>i < j. ticks s i = current_tick s) \<and>
     (\<forall>i < n. ticks s i = current_tick s \<or> ticks s i + 1 = current_tick s)"

definition ticker_ok :: "nat \<Rightarrow> epochs \<Rightarrow> bool" where
  "ticker_ok n s = (case ticker_pc s of
       Sleeping \<Rightarrow> last_tick_inclusive s + 1 = current_tick s \<and> (\<forall>i < n. ticks s i = current_tick s)
     | Scanning j \<Rightarrow> scanned n j s
     | Waiting j \<Rightarrow> scanned n j s \<and> j < n
     | Holding j \<Rightarrow> scanned n j s \<and> j < n)"

definition guard_ok :: "nat \<Rightarrow> epochs \<Rightarrow> nat \<Rightarrow> bool" where
  "guard_ok n s i \<longleftrightarrow> tlock s i = (gs s i \<noteq> Outside \<or> ticker_pc s = Holding i) \<and>
     (ticker_pc s = Holding i \<longrightarrow> gs s i = Outside) \<and> (gs s i \<noteq> Outside \<longrightarrow> i < n) \<and>
     (\<forall>t. gs s i = Loaded t \<longrightarrow> ticks s i \<le> t \<and> t \<le> current_tick s) \<and> (\<forall>d t. gs s i = Inside d t \<longrightarrow> ticks s i = t)"

definition tick_inv :: "nat \<Rightarrow> epochs \<Rightarrow> bool" where
  "tick_inv n s \<longleftrightarrow> ticker_ok n s \<and> (\<forall>i. guard_ok n s i)"

lemmas tick_defs = tick_inv_def ticker_ok_def guard_ok_def scanned_def

text \<open>The fields of the ticker are changed by the steps of guards and ticker only.\<close>

definition tick_part :: "epochs \<Rightarrow> nat \<times> nat \<times> tpc \<times> (nat \<Rightarrow> nat) \<times> (nat \<Rightarrow> bool) \<times> (nat \<Rightarrow> gpc)" where
  "tick_part s = (current_tick s, last_tick_inclusive s, ticker_pc s, ticks s, tlock s, gs s)"

lemma tick_part_ops [simp]:
  "tick_part (free_with_fn i x s) = tick_part s" "tick_part (do_cleanup i s) = tick_part s"
  "tick_part (gc_enqueue i x e s) = tick_part s" "tick_part (clean_up_to_including i k s) = tick_part s"
  "tick_part (on_post_rcu_region_completion i s) = tick_part s"
  by (auto simp: tick_part_def free_with_fn_def do_cleanup_def gc_enqueue_def clean_up_to_including_def
      on_post_rcu_region_completion_def Let_def split: option.splits prod.splits)

lemma tick_le_current: "tick_inv n s \<Longrightarrow> i < n \<Longrightarrow> ticks s i \<le> current_tick s"
  by (fastforce simp: tick_inv_def ticker_ok_def scanned_def split: tpc.splits)

lemma guard_ok_step:
  assumes "estep n s s'" "guard_ok n s j" "j < n \<longrightarrow> ticks s j \<le> current_tick s"
  shows "guard_ok n s' j"
proof -
  have same: "guard_ok n s' j" if "tick_part s' = tick_part s"
    using assms(2) that by (simp add: tick_part_def guard_ok_def)
  show ?thesis using assms(1)
  proof cases
    case (free i d t x)
    then show ?thesis by (intro same) (simp, simp add: tick_part_def)
  next
    case (spill i d t e x)
    then show ?thesis by (intro same) (simp, simp add: tick_part_def)
  next
    case (cleanup i)
    then show ?thesis by (intro same) simp
  next
    case (collect i)
    then show ?thesis by (intro same) simp
  qed (use assms(2,3) in \<open>auto simp: guard_ok_def le_SucI\<close>)
qed

lemma ticker_ok_step:
  assumes "estep n s s'" "ticker_ok n s" "\<And>i. guard_ok n s i"
  shows "ticker_ok n s'"
proof -
  have same: "ticker_ok n s'" if "tick_part s' = tick_part s"
    using assms(2) that by (cases "ticker_pc s") (simp_all add: tick_part_def ticker_ok_def scanned_def)
  have same': "ticker_ok n s'" if "ticker_pc s' = ticker_pc s" "current_tick s' = current_tick s"
    "last_tick_inclusive s' = last_tick_inclusive s" "ticks s' = ticks s"
    using assms(2) that by (cases "ticker_pc s") (simp_all add: ticker_ok_def scanned_def)
  show ?thesis using assms(1)
  proof cases
    case (guard_store i t)
    have b: "ticks s i \<le> t" "t \<le> current_tick s" using assms(3) [of i] guard_store by (auto simp: guard_ok_def)
    have "scanned n j s'" if "scanned n j s" for j
    proof -
      have "ticks s i = current_tick s \<or> ticks s i + 1 = current_tick s" "i < j \<longrightarrow> ticks s i = current_tick s"
        using that guard_store(2) by (auto simp: scanned_def)
      then have "t = current_tick s \<or> t + 1 = current_tick s" "i < j \<longrightarrow> t = current_tick s" using b by auto
      then show ?thesis using that guard_store by (auto simp: scanned_def)
    qed
    then show ?thesis using assms(2) guard_store b by (cases "ticker_pc s") (auto simp: ticker_ok_def)
  next
    case (free i d t x)
    then show ?thesis by (intro same) (simp, simp add: tick_part_def)
  next
    case (spill i d t e x)
    then show ?thesis by (intro same) (simp, simp add: tick_part_def)
  next
    case (cleanup i)
    then show ?thesis by (intro same) simp
  next
    case (collect i)
    then show ?thesis by (intro same) simp
  next
    case tick_bump
    then show ?thesis using assms(2) by (auto simp: ticker_ok_def scanned_def)
  next
    case (tick_skip i)
    then show ?thesis using assms(2) by (auto simp: ticker_ok_def scanned_def less_Suc_eq)
  next
    case (tick_wait i)
    then show ?thesis using assms(2) by (auto simp: ticker_ok_def scanned_def)
  next
    case (tick_lock i)
    then show ?thesis using assms(2) by (auto simp: ticker_ok_def scanned_def)
  next
    case (tick_advance i)
    then show ?thesis using assms(2) by (auto simp: ticker_ok_def scanned_def less_Suc_eq)
  next
    case tick_publish
    then show ?thesis using assms(2) by (auto simp: ticker_ok_def scanned_def)
  qed (rule same'; simp)+
qed

lemma tick_inv_step: "estep n s s' \<Longrightarrow> tick_inv n s \<Longrightarrow> tick_inv n s'"
  using guard_ok_step ticker_ok_step tick_le_current by (simp add: tick_inv_def)

lemma tick_inv_init: "tick_inv n (einit X)"
  by (auto simp: tick_defs einit_def)

text \<open>
  A thread inside its region has a tick above the last one that is over, and no tick is more than one ahead of
  it.
\<close>

lemma inside_tick:
  assumes "tick_inv n s" "gs s i = Inside d t"
  shows "last_tick_inclusive s < t" "t \<le> current_tick s" "current_tick s \<le> t + 1" "current_tick s \<le> last_tick_inclusive s + 2" "i < n"
proof -
  have i: "i < n" "ticks s i = t" using assms by (auto simp: tick_defs)
  show "last_tick_inclusive s < t" "t \<le> current_tick s" "current_tick s \<le> t + 1" "current_tick s \<le> last_tick_inclusive s + 2" "i < n"
    using assms(1) i by (auto simp: tick_defs split: tpc.splits)
qed

section \<open>Objects\<close>

text \<open>
  What deferred deletion has seen: objects unlinked, queued or given back; and what the collector of versions has
  seen.
\<close>

definition rcu_side :: "epochs \<Rightarrow> nat set" where
  "rcu_side s = (\<Union>i. pend s i) \<union> (\<Union>i. fst ` set (pair_entries (rcu_q s i))) \<union> (freed s - fst ` gone s)"

definition gc_side :: "epochs \<Rightarrow> nat set" where
  "gc_side s = fst ` retired s"

text \<open>An object is linked, or on one of the two sides, and was born; a retired version has one epoch.\<close>

definition places_ok :: "epochs \<Rightarrow> bool" where
  "places_ok s \<longleftrightarrow> linked s \<inter> rcu_side s = {} \<and> linked s \<inter> gc_side s = {} \<and> rcu_side s \<inter> gc_side s = {} \<and>
     linked s \<union> rcu_side s \<union> gc_side s \<subseteq> born s \<and> inj_on fst (retired s) \<and> fst ` gone s \<subseteq> freed s"

text \<open>References, snapshots and commit epochs belong to threads inside a region.\<close>

definition region_ok :: "epochs \<Rightarrow> nat \<Rightarrow> bool" where
  "region_ok s i \<longleftrightarrow> (case gs s i of
       Inside d t \<Rightarrow> (\<forall>g. snap s i = Some g \<longrightarrow> t \<le> g + 1) \<and> (\<forall>e. cepoch s i = Some e \<longrightarrow> t \<le> e \<and> e \<le> current_tick s)
     | _ \<Rightarrow> refs s i = {} \<and> snap s i = None \<and> cepoch s i = None)"

text \<open>The queues are in order.\<close>

definition queues_ok :: "epochs \<Rightarrow> nat \<Rightarrow> bool" where
  "queues_ok s i \<longleftrightarrow> pair_ok 4096 (rcu_q s i) \<and> pair_ok 4096 (gc_q s i) \<and>
     (\<forall>(x, k) \<in> set (pair_entries (rcu_q s i)). k \<le> to_rcu_ticks (ticks s i + 1)) \<and>
     (\<forall>((x, e), k) \<in> set (pair_entries (gc_q s i)). k = ro_tick e \<and> e \<le> current_tick s \<and>
        (\<forall>c. cepoch s i = Some c \<longrightarrow> e \<le> c))"

text \<open>Who may hold a reference to what is waiting or gone.\<close>

definition holders_ok :: "epochs \<Rightarrow> nat \<Rightarrow> bool" where
  "holders_ok s i \<longleftrightarrow>
     (\<forall>j x k. (x, k) \<in> set (pair_entries (rcu_q s j)) \<longrightarrow> x \<in> refs s i \<longrightarrow>
        (\<forall>d t. gs s i = Inside d t \<longrightarrow> to_rcu_ticks t \<le> k)) \<and>
     (\<forall>x e. (x, e) \<in> retired s \<longrightarrow> x \<in> refs s i \<longrightarrow> (\<forall>d t. gs s i = Inside d t \<longrightarrow>
        t \<le> e + 1 \<or> (\<exists>g. snap s i = Some g \<and> behind g e))) \<and>
     refs s i \<inter> (freed s - fst ` gone s) = {}"

definition gone_ok :: "epochs \<Rightarrow> bool" where
  "gone_ok s \<longleftrightarrow> (\<forall>(x, e) \<in> gone s. ro_tick e < ro_tick (last_tick_inclusive s))"

definition obj_inv :: "epochs \<Rightarrow> bool" where
  "obj_inv s \<longleftrightarrow> places_ok s \<and> gone_ok s \<and> (\<forall>i. region_ok s i \<and> queues_ok s i \<and> holders_ok s i)"

lemma ro_tick_mono: "a \<le> b \<Longrightarrow> ro_tick a \<le> ro_tick b"
  by (simp add: ro_tick_def div_le_mono)

lemma to_rcu_ticks_mono: "a \<le> b \<Longrightarrow> to_rcu_ticks a \<le> to_rcu_ticks b"
  by (simp add: to_rcu_ticks_def div_le_mono)

text \<open>Nobody holds a reference to what was given back.\<close>

lemma freed_unreferenced:
  assumes "tick_inv n s" "obj_inv s"
  shows "refs s i \<inter> freed s = {}"
proof (rule ccontr)
  assume "refs s i \<inter> freed s \<noteq> {}"
  then obtain x where x: "x \<in> refs s i" "x \<in> freed s" by blast
  have h: "holders_ok s i" "region_ok s i" "gone_ok s" using assms(2) by (auto simp: obj_inv_def)
  then obtain d t where g: "gs s i = Inside d t" using x(1) by (auto simp: region_ok_def split: gpc.splits)
  note t = inside_tick [OF assms(1) g]
  have "x \<in> fst ` gone s" using h(1) x by (auto simp: holders_ok_def)
  then obtain e where e: "(x, e) \<in> gone s" "(x, e) \<in> retired s" by (auto simp: retired_def)
  have r: "ro_tick e < ro_tick (last_tick_inclusive s)" using h(3) e(1) by (auto simp: gone_ok_def)
  then have "e < last_tick_inclusive s" using ro_tick_mono [of "last_tick_inclusive s" e] by linarith
  then have "\<not> t \<le> e + 1" using t(1) by simp
  then obtain g where "snap s i = Some g" "behind g e" using h(1) e(2) x(1) g unfolding holders_ok_def by blast
  moreover from this(1) have "last_tick_inclusive s \<le> g" using h(2) g t(1) by (auto simp: region_ok_def)
  ultimately show False using r ro_tick_mono [of "last_tick_inclusive s" g] by (simp add: behind_def)
qed

section \<open>Every step keeps the invariant\<close>

definition obj_part :: "epochs \<Rightarrow> nat set \<times> nat set \<times> (nat \<Rightarrow> nat set) \<times> (nat \<Rightarrow> nat px_pair) \<times> (nat \<Rightarrow> (nat \<times> nat) px_pair) \<times>
    (nat \<times> nat) set \<times> nat set" where
  "obj_part s = (born s, linked s, pend s, rcu_q s, gc_q s, gone s, freed s)"

lemma obj_part_sets:
  assumes "obj_part s' = obj_part s"
  shows "retired s' = retired s" "places_ok s' = places_ok s" "rcu_q s' = rcu_q s" "gc_q s' = gc_q s" "gone s' = gone s"
    "freed s' = freed s"
  using assms by (simp_all add: obj_part_def retired_def places_ok_def rcu_side_def gc_side_def)

text \<open>Steps that move no object: a thread's own fields may change, ticks grow.\<close>

lemma obj_inv_same:
  assumes "obj_part s' = obj_part s" "obj_inv s"
    "last_tick_inclusive s \<le> last_tick_inclusive s'" "current_tick s \<le> current_tick s'" "\<And>j. ticks s j \<le> ticks s' j"
    "\<And>j. region_ok s' j"
    "\<And>j c e. cepoch s' j = Some c \<Longrightarrow> cepoch s j = Some c \<or> current_tick s \<le> c"
    "\<And>j d t. gs s' j = Inside d t \<Longrightarrow> refs s' j \<noteq> {} \<Longrightarrow> refs s' j = refs s j \<and> (\<exists>d'. gs s j = Inside d' t) \<and>
       (\<forall>g. snap s j = Some g \<longrightarrow> snap s' j = Some g)"
    "\<And>j. refs s' j \<subseteq> refs s j"
  shows "obj_inv s'"
proof -
  note p = obj_part_sets [OF assms(1)]
  have i: "places_ok s" "gone_ok s" "\<And>i. queues_ok s i" "\<And>i. holders_ok s i" using assms(2) by (auto simp: obj_inv_def)
  have "gone_ok s'"
    using i(2) ro_tick_mono [OF assms(3)] unfolding gone_ok_def p(5) by fastforce
  moreover have "queues_ok s' j" for j
  proof -
    have q: "pair_ok 4096 (rcu_q s j)" "pair_ok 4096 (gc_q s j)"
      "\<forall>(x, k) \<in> set (pair_entries (rcu_q s j)). k \<le> to_rcu_ticks (ticks s j + 1)"
      "\<forall>((x, e), k) \<in> set (pair_entries (gc_q s j)). k = ro_tick e \<and> e \<le> current_tick s \<and> (\<forall>c. cepoch s j = Some c \<longrightarrow> e \<le> c)"
      using i(3) [of j] by (auto simp: queues_ok_def)
    have "to_rcu_ticks (ticks s j + 1) \<le> to_rcu_ticks (ticks s' j + 1)" using assms(5) by (intro to_rcu_ticks_mono) simp
    then have "\<forall>(x, k) \<in> set (pair_entries (rcu_q s j)). k \<le> to_rcu_ticks (ticks s' j + 1)" using q(3) by fastforce
    moreover have "e \<le> c" if "((x, e), k) \<in> set (pair_entries (gc_q s j))" "cepoch s' j = Some c" for x e k c
      using q(4) that assms(7) [OF that(2)] by fastforce
    moreover have "e \<le> current_tick s'" "k = ro_tick e" if "((x, e), k) \<in> set (pair_entries (gc_q s j))" for x e k
      using q(4) that assms(4) by fastforce+
    ultimately show ?thesis using q(1,2) unfolding queues_ok_def p(3,4) by blast
  qed
  moreover have "holders_ok s' j" for j
  proof -
    have h: "holders_ok s j" by (rule i(4))
    have 3: "refs s' j \<inter> (freed s - fst ` gone s) = {}" using h assms(9) [of j] unfolding holders_ok_def by blast
    have 1: "to_rcu_ticks t \<le> k" if "(x, k) \<in> set (pair_entries (rcu_q s m))" "x \<in> refs s' j" "gs s' j = Inside d t" for m x k d t
      using h assms(8) [OF that(3)] that(1,2) unfolding holders_ok_def by blast
    have 2: "t \<le> e + 1 \<or> (\<exists>g. snap s' j = Some g \<and> behind g e)" if "(x, e) \<in> retired s" "x \<in> refs s' j" "gs s' j = Inside d t" for x e d t
      using h assms(8) [OF that(3)] that(1,2) unfolding holders_ok_def by blast
    show ?thesis unfolding holders_ok_def p using 1 2 3 by blast
  qed
  ultimately show ?thesis using i(1) assms(6) by (simp add: obj_inv_def p(2))
qed

lemma gc_sideI: "(x, e) \<in> retired s \<Longrightarrow> x \<in> gc_side s"
  by (force simp: gc_side_def)

lemma placesD:
  assumes "places_ok s"
  shows "x \<in> linked s \<Longrightarrow> x \<notin> rcu_side s" "(x, e) \<in> retired s \<Longrightarrow> x \<notin> linked s" "(x, e) \<in> retired s \<Longrightarrow> x \<notin> rcu_side s"
    "x \<in> linked s \<Longrightarrow> x \<in> born s" "x \<in> rcu_side s \<Longrightarrow> x \<in> born s" "(x, e) \<in> retired s \<Longrightarrow> x \<in> born s"
    "(x, e) \<in> retired s \<Longrightarrow> (x, e') \<in> retired s \<Longrightarrow> e' = e" "fst ` gone s \<subseteq> freed s"
proof -
  show "(x, e) \<in> retired s \<Longrightarrow> (x, e') \<in> retired s \<Longrightarrow> e' = e"
    using assms inj_onD [of fst "retired s" "(x, e)" "(x, e')"] by (simp add: places_ok_def)
qed (use assms gc_sideI [of x e s] in \<open>auto simp: places_ok_def\<close>)

lemma holdersD:
  assumes "holders_ok s i"
  shows "(x, k) \<in> set (pair_entries (rcu_q s j)) \<Longrightarrow> x \<in> refs s i \<Longrightarrow> gs s i = Inside d t \<Longrightarrow> to_rcu_ticks t \<le> k"
    "(x, e) \<in> retired s \<Longrightarrow> x \<in> refs s i \<Longrightarrow> gs s i = Inside d t \<Longrightarrow> t \<le> e + 1 \<or> (\<exists>g. snap s i = Some g \<and> behind g e)"
    "x \<in> refs s i \<Longrightarrow> x \<in> freed s \<Longrightarrow> x \<in> fst ` gone s"
  using assms unfolding holders_ok_def by blast+

lemma holdersI:
  assumes "\<And>x k j d t. (x, k) \<in> set (pair_entries (rcu_q s j)) \<Longrightarrow> x \<in> refs s i \<Longrightarrow> gs s i = Inside d t \<Longrightarrow> to_rcu_ticks t \<le> k"
    "\<And>x e d t. (x, e) \<in> retired s \<Longrightarrow> x \<in> refs s i \<Longrightarrow> gs s i = Inside d t \<Longrightarrow> t \<le> e + 1 \<or> (\<exists>g. snap s i = Some g \<and> behind g e)"
    "\<And>x. x \<in> refs s i \<Longrightarrow> x \<in> freed s \<Longrightarrow> x \<in> fst ` gone s"
  shows "holders_ok s i"
  using assms unfolding holders_ok_def by blast

lemma rcu_sideI:
  "x \<in> pend s i \<Longrightarrow> x \<in> rcu_side s" "(x, k) \<in> set (pair_entries (rcu_q s j)) \<Longrightarrow> x \<in> rcu_side s"
  "x \<in> freed s \<Longrightarrow> x \<notin> fst ` gone s \<Longrightarrow> x \<in> rcu_side s"
proof -
  show "(x, k) \<in> set (pair_entries (rcu_q s j)) \<Longrightarrow> x \<in> rcu_side s" unfolding rcu_side_def by (rule UnI1, rule UnI2) force
qed (simp_all add: rcu_side_def, blast)

text \<open>A new reference, to an object that is linked or that the snapshot may reach.\<close>

lemma obj_inv_get:
  assumes "obj_inv s" "gs s i = Inside d t"
    "x \<in> linked s \<or> (\<exists>g e. snap s i = Some g \<and> (x, e) \<in> retired s \<and> behind g e)"
  shows "obj_inv (s\<lparr>refs := (refs s)(i := insert x (refs s i))\<rparr>)" (is "obj_inv ?s")
proof -
  have p: "places_ok s" "holders_ok s i" using assms(1) by (auto simp: obj_inv_def)
  have x: "x \<notin> rcu_side s" using placesD(1,3) [OF p(1)] assms(3) by blast
  have ex: "\<exists>g. snap s i = Some g \<and> behind g e" if "(x, e) \<in> retired s" for e
  proof -
    have "x \<notin> linked s" using placesD(2) [OF p(1) that] .
    then obtain g e' where "snap s i = Some g" "(x, e') \<in> retired s" "behind g e'" using assms(3) by blast
    moreover from this(2) have "e' = e" using placesD(7) [OF p(1) that] by blast
    ultimately show ?thesis by blast
  qed
  have s: "retired ?s = retired s" "places_ok ?s = places_ok s" by (rule obj_part_sets; simp add: obj_part_def)+
  have "holders_ok ?s j" for j
  proof -
    have h: "holders_ok s j" using assms(1) by (auto simp: obj_inv_def)
    have r: "y \<in> refs s j \<or> y = x \<and> j = i" if "y \<in> refs ?s j" for y using that by (auto split: if_splits)
    show ?thesis
    proof (rule holdersI)
      fix y k m d t assume a: "(y, k) \<in> set (pair_entries (rcu_q ?s m))" "y \<in> refs ?s j" "gs ?s j = Inside d t"
      then have "y \<noteq> x" using x rcu_sideI(2) [of y k s m] by auto
      then show "to_rcu_ticks t \<le> k" using holdersD(1) [OF h, of y k m d t] a r by auto
    next
      fix y e d t assume a: "(y, e) \<in> retired ?s" "y \<in> refs ?s j" "gs ?s j = Inside d t"
      then show "t \<le> e + 1 \<or> (\<exists>g. snap ?s j = Some g \<and> behind g e)"
        using holdersD(2) [OF h, of y e d t] ex [of e] r [OF a(2)] s(1) by auto
    next
      fix y assume "y \<in> refs ?s j" "y \<in> freed ?s"
      then show "y \<in> fst ` gone ?s" using holdersD(3) [OF h, of y] r rcu_sideI(3) [of y s] x by auto
    qed
  qed
  moreover have "region_ok ?s j" "queues_ok ?s j" for j
  proof -
    have "region_ok s j" "queues_ok s j" using assms(1) by (auto simp: obj_inv_def)
    then show "region_ok ?s j" "queues_ok ?s j"
      using assms(2) by (cases "j = i"; simp add: region_ok_def queues_ok_def cong: gpc.case_cong)+
  qed
  ultimately show ?thesis using assms(1) by (simp add: obj_inv_def s(2) gone_ok_def)
qed

text \<open>Objects that move between the places without being given back, with the queues unchanged.\<close>

lemma obj_inv_places:
  assumes "obj_inv s" "places_ok (s\<lparr>born := b, linked := l, pend := p\<rparr>)"
  shows "obj_inv (s\<lparr>born := b, linked := l, pend := p\<rparr>)"
  using assms by (simp add: obj_inv_def region_ok_def queues_ok_def holders_ok_def gone_ok_def retired_def cong: gpc.case_cong)

text \<open>The operations on the queues. What the two sides cover never grows but by a version that was linked or new.\<close>

lemma places_ok_smaller:
  assumes "places_ok s" "retired s' = retired s" "rcu_side s' \<subseteq> rcu_side s" "linked s' \<subseteq> linked s" "born s \<subseteq> born s'"
    "fst ` gone s' \<subseteq> freed s'"
  shows "places_ok s'"
proof -
  have g: "gc_side s' = gc_side s" by (simp add: gc_side_def assms(2))
  have p: "linked s \<inter> rcu_side s = {}" "linked s \<inter> gc_side s = {}" "rcu_side s \<inter> gc_side s = {}"
    "linked s \<union> rcu_side s \<union> gc_side s \<subseteq> born s" "inj_on fst (retired s)"
    using assms(1) by (simp_all add: places_ok_def)
  have "linked s' \<inter> rcu_side s' = {}" using p(1) assms(3,4) by blast
  moreover have "linked s' \<inter> gc_side s = {}" using p(2) assms(4) by blast
  moreover have "rcu_side s' \<inter> gc_side s = {}" using p(3) assms(3) by blast
  moreover have "linked s' \<union> rcu_side s' \<union> gc_side s \<subseteq> born s'" using p(4) assms(3-5) by blast
  ultimately show ?thesis using p(5) assms(6) unfolding places_ok_def g assms(2) by simp
qed

lemma obj_invD: "obj_inv s \<Longrightarrow> places_ok s \<and> gone_ok s \<and> region_ok s i \<and> queues_ok s i \<and> holders_ok s i"
  by (simp add: obj_inv_def)

lemma rcu_side_cases:
  assumes "x \<in> rcu_side s"
  obtains j where "x \<in> pend s j" | j k where "(x, k) \<in> set (pair_entries (rcu_q s j))" | "x \<in> freed s" "x \<notin> fst ` gone s"
  using assms by (auto simp: rcu_side_def)

lemma obj_inv_free:
  assumes "tick_inv n s" "obj_inv s" "gs s i = Inside d t" "x \<in> pend s i"
  defines "s' \<equiv> s\<lparr>pend := (pend s)(i := pend s i - {x}),
     rcu_q := (rcu_q s)(i := pair_enqueue 4096 x (to_rcu_ticks (ticks s i + 1)) (rcu_q s i))\<rparr>"
  shows "obj_inv s'"
proof -
  let ?k = "to_rcu_ticks (ticks s i + 1)"
  note inv = obj_invD [OF assms(2)]
  note t = inside_tick [OF assms(1,3)]
  have ti: "ticks s i = t" using assms(1,3) by (auto simp: tick_defs)
  have q: "pair_ok 4096 (rcu_q s i)" "\<And>e. e \<in> set (pair_entries (rcu_q s i)) \<Longrightarrow> snd e \<le> ?k" using inv [of i] by (auto simp: queues_ok_def)
  have en: "pair_entries (rcu_q s' i) = pair_entries (rcu_q s i) @ [(x, ?k)]" by (simp add: s'_def pq.enq_entries [OF q(1)])
  have ok: "pair_ok 4096 (rcu_q s' i)" using pq.enq_ok [OF q] by (simp add: s'_def)
  have other: "rcu_q s' j = rcu_q s j" if "j \<noteq> i" for j using that by (simp add: s'_def)
  have mem: "(y, k) \<in> set (pair_entries (rcu_q s j)) \<or> y = x \<and> k = ?k" if "(y, k) \<in> set (pair_entries (rcu_q s' j))" for y k j
    using that en other [of j] by (cases "j = i") auto
  have r: "retired s' = retired s" by (simp add: s'_def retired_def)
  have sub: "rcu_side s' \<subseteq> rcu_side s"
  proof
    fix y assume "y \<in> rcu_side s'"
    then show "y \<in> rcu_side s"
    proof (cases rule: rcu_side_cases)
      case (1 j)
      then have "y \<in> pend s j" by (auto simp: s'_def split: if_splits)
      then show ?thesis by (rule rcu_sideI)
    next
      case (2 j k)
      then show ?thesis using mem [OF 2] rcu_sideI(1) [OF assms(4)] rcu_sideI(2) by blast
    next
      case 3
      then show ?thesis by (intro rcu_sideI(3)) (simp_all add: s'_def)
    qed
  qed
  have ps: "places_ok s" using assms(2) by (simp add: obj_inv_def)
  have "places_ok s'"
    by (rule places_ok_smaller [OF ps r sub]) (use placesD(8) [OF ps] in \<open>simp_all add: s'_def\<close>)
  moreover have "gone_ok s'" "region_ok s' j" for j using inv [of j] by (simp_all add: s'_def gone_ok_def region_ok_def cong: gpc.case_cong)
  moreover have "queues_ok s' j" for j
  proof (cases "j = i")
    case True
    then show ?thesis using inv [of i] en ok unfolding queues_ok_def by (auto simp: s'_def)
  next
    case False
    then show ?thesis using inv [of j] unfolding queues_ok_def by (simp add: s'_def)
  qed
  moreover have "holders_ok s' j" for j
  proof (rule holdersI)
    fix y k m d' t' assume a: "(y, k) \<in> set (pair_entries (rcu_q s' m))" "y \<in> refs s' j" "gs s' j = Inside d' t'"
    have b: "y \<in> refs s j" "gs s j = Inside d' t'" using a by (simp_all add: s'_def)
    have "t' \<le> t + 1" using inside_tick [OF assms(1) b(2)] t by simp
    then have "to_rcu_ticks t' \<le> ?k" unfolding ti by (rule to_rcu_ticks_mono)
    then show "to_rcu_ticks t' \<le> k" using mem [OF a(1)] holdersD(1) [of s j, OF _ _ b] inv [of j] by blast
  next
    fix y e d' t' assume "(y, e) \<in> retired s'" "y \<in> refs s' j" "gs s' j = Inside d' t'"
    then show "t' \<le> e + 1 \<or> (\<exists>g. snap s' j = Some g \<and> behind g e)"
      using holdersD(2) [of s j y e d' t'] inv [of j] r by (simp add: s'_def)
  next
    fix y assume "y \<in> refs s' j" "y \<in> freed s'"
    then show "y \<in> fst ` gone s'" using holdersD(3) [of s j y] inv [of j] by (simp add: s'_def)
  qed
  ultimately show ?thesis by (simp add: obj_inv_def)
qed

lemma obj_inv_spill:
  assumes "tick_inv n s" "obj_inv s" "gs s i = Inside d t" "cepoch s i = Some e" "x \<in> linked s \<or> x \<notin> born s"
  defines "s' \<equiv> gc_enqueue i x e (s\<lparr>linked := linked s - {x}, born := insert x (born s)\<rparr>)"
  shows "obj_inv s'"
proof -
  note inv = obj_invD [OF assms(2)]
  note t = inside_tick [OF assms(1,3)]
  have ps: "places_ok s" using assms(2) by (simp add: obj_inv_def)
  have e: "t \<le> e" "e \<le> current_tick s" using inv [of i] assms(3,4) by (auto simp: region_ok_def)
  have q: "pair_ok 4096 (gc_q s i)" "\<And>y. y \<in> set (pair_entries (gc_q s i)) \<Longrightarrow> snd y \<le> ro_tick e"
    using inv [of i] assms(4) by (auto simp: queues_ok_def intro!: ro_tick_mono)
  have en: "pair_entries (gc_q s' i) = pair_entries (gc_q s i) @ [((x, e), ro_tick e)]"
    by (simp add: s'_def gc_enqueue_def pq.enq_entries [OF q(1)])
  have ok: "pair_ok 4096 (gc_q s' i)" using pq.enq_ok [OF q] by (simp add: s'_def gc_enqueue_def)
  have fs: "rcu_q s' = rcu_q s" "pend s' = pend s" "freed s' = freed s" "gone s' = gone s" "refs s' = refs s" "gs s' = gs s"
    "snap s' = snap s" "cepoch s' = cepoch s" "ticks s' = ticks s" "current_tick s' = current_tick s"
    "last_tick_inclusive s' = last_tick_inclusive s" "linked s' = linked s - {x}" "born s' = insert x (born s)"
    "\<And>j. j \<noteq> i \<Longrightarrow> gc_q s' j = gc_q s j"
    by (simp_all add: s'_def gc_enqueue_def)
  have "(\<Union>j. fst ` set (pair_entries (gc_q s' j))) = insert (x, e) (\<Union>j. fst ` set (pair_entries (gc_q s j)))" (is "?l = ?r")
  proof -
    have "fst ` set (pair_entries (gc_q s' j)) = (if j = i then insert (x, e) (fst ` set (pair_entries (gc_q s i))) else fst ` set (pair_entries (gc_q s j)))" for j
      using en fs(14) [of j] by auto
    moreover have "(\<Union>j. if j = i then insert (x, e) (A i) else A j) = insert (x, e) (\<Union>j. A j)" for A :: "nat \<Rightarrow> (nat \<times> nat) set"
      by (rule set_eqI) (simp, metis insert_iff)
    ultimately show ?thesis by simp
  qed
  then have r: "retired s' = insert (x, e) (retired s)" by (simp add: retired_def fs)
  have side: "rcu_side s' = rcu_side s" "gc_side s' = insert x (gc_side s)" by (simp_all add: rcu_side_def gc_side_def r fs)
  have new: "x \<notin> rcu_side s" "(x, e') \<notin> retired s" for e' using assms(5) placesD [OF ps] by blast+
  have "places_ok s'"
    using ps new side unfolding places_ok_def r fs by (auto simp: inj_on_def)
  moreover have "gone_ok s'" "region_ok s' j" for j using inv [of j] by (simp_all add: gone_ok_def region_ok_def fs cong: gpc.case_cong)
  moreover have "queues_ok s' j" for j
  proof (cases "j = i")
    case True
    then show ?thesis using inv [of i] en ok e(2) assms(4) unfolding queues_ok_def by (auto simp: fs)
  next
    case False
    then show ?thesis using inv [of j] unfolding queues_ok_def by (simp add: fs)
  qed
  moreover have "holders_ok s' j" for j
  proof (rule holdersI)
    fix y k m d' t' assume "(y, k) \<in> set (pair_entries (rcu_q s' m))" "y \<in> refs s' j" "gs s' j = Inside d' t'"
    then show "to_rcu_ticks t' \<le> k" using holdersD(1) [of s j y k m d' t'] inv [of j] by (simp add: fs)
  next
    fix y e' d' t' assume a: "(y, e') \<in> retired s'" "y \<in> refs s' j" "gs s' j = Inside d' t'"
    have "t' \<le> e + 1" using inside_tick [OF assms(1), of j d' t'] a(3) t e(1) by (simp add: fs)
    then show "t' \<le> e' + 1 \<or> (\<exists>g. snap s' j = Some g \<and> behind g e')"
      using a holdersD(2) [of s j y e' d' t'] inv [of j] r by (auto simp: fs)
  next
    fix y assume "y \<in> refs s' j" "y \<in> freed s'"
    then show "y \<in> fst ` gone s'" using holdersD(3) [of s j y] inv [of j] by (simp add: fs)
  qed
  ultimately show ?thesis by (simp add: obj_inv_def)
qed

lemma obj_inv_cleanup:
  assumes "tick_inv n s" "obj_inv s"
  shows "obj_inv (do_cleanup i s)"
proof (cases "cleaning_rcu_tick_exclusive s = 0 \<or> last_reaped s i = cleaning_rcu_tick_exclusive s - 1")
  case True
  then show ?thesis using assms(2) by (auto simp: do_cleanup_def Let_def)
next
  case False
  let ?ct = "cleaning_rcu_tick_exclusive s - 1"
  obtain out q where rp: "reap ?ct (rcu_q s i) = (out, q)" by fastforce
  define s' where "s' = s\<lparr>last_reaped := (last_reaped s)(i := ?ct), rcu_q := (rcu_q s)(i := q), freed := freed s \<union> fst ` set out\<rparr>"
  have run: "do_cleanup i s = s'" using False rp by (simp add: do_cleanup_def Let_def s'_def)
  note inv = obj_invD [OF assms(2)]
  have ps: "places_ok s" using assms(2) by (simp add: obj_inv_def)
  have qok: "pair_ok 4096 (rcu_q s i)" using inv [of i] by (simp add: queues_ok_def)
  have en: "pair_entries (rcu_q s i) = out @ pair_entries q" by (rule pq.take_entries [OF qok rp])
  have out: "k < to_rcu_ticks (last_tick_inclusive s + 1)" if "(x, k) \<in> set out" for x k
    using pq.take_out [OF qok rp that] False
    by (simp add: cleaning_rcu_tick_exclusive_def global_last_tick_exclusive_def) linarith
  have fs: "pend s' = pend s" "gone s' = gone s" "refs s' = refs s" "gs s' = gs s" "gc_q s' = gc_q s"
    "snap s' = snap s" "cepoch s' = cepoch s" "ticks s' = ticks s" "current_tick s' = current_tick s"
    "last_tick_inclusive s' = last_tick_inclusive s" "linked s' = linked s" "born s' = born s"
    "freed s' = freed s \<union> fst ` set out" "rcu_q s' i = q" "\<And>j. j \<noteq> i \<Longrightarrow> rcu_q s' j = rcu_q s j"
    by (simp_all add: s'_def)
  have mem: "(y, k) \<in> set (pair_entries (rcu_q s j))" if "(y, k) \<in> set (pair_entries (rcu_q s' j))" for y k j
    using that en fs(14,15) by (cases "j = i") auto
  have r: "retired s' = retired s" by (simp add: retired_def fs)
  have sub: "rcu_side s' \<subseteq> rcu_side s"
  proof
    fix y assume "y \<in> rcu_side s'"
    then show "y \<in> rcu_side s"
    proof (cases rule: rcu_side_cases)
      case (1 j)
      then show ?thesis using rcu_sideI(1) by (auto simp: fs)
    next
      case (2 j k)
      then show ?thesis using mem [OF 2] rcu_sideI(2) by blast
    next
      case 3
      then have "y \<in> freed s \<and> y \<notin> fst ` gone s \<or> (\<exists>k. (y, k) \<in> set out)" by (auto simp: fs)
      then show ?thesis
      proof
        assume "\<exists>k. (y, k) \<in> set out"
        then obtain k where "(y, k) \<in> set (pair_entries (rcu_q s i))" unfolding en by auto
        then show ?thesis by (rule rcu_sideI(2))
      qed (use rcu_sideI(3) in blast)
    qed
  qed
  have "places_ok s'"
    by (rule places_ok_smaller [OF ps r sub]) (use placesD(8) [OF ps] in \<open>auto simp: fs\<close>)
  moreover have "gone_ok s'" "region_ok s' j" for j using inv [of j] by (simp_all add: gone_ok_def region_ok_def fs cong: gpc.case_cong)
  moreover have "queues_ok s' j" for j
  proof (cases "j = i")
    case True
    then show ?thesis using inv [of i] en pq.take_ok [OF qok rp] unfolding queues_ok_def by (auto simp: fs)
  next
    case False
    then show ?thesis using inv [of j] unfolding queues_ok_def by (simp add: fs)
  qed
  moreover have "holders_ok s' j" for j
  proof (rule holdersI)
    fix y k m d' t' assume "(y, k) \<in> set (pair_entries (rcu_q s' m))" "y \<in> refs s' j" "gs s' j = Inside d' t'"
    then show "to_rcu_ticks t' \<le> k" using holdersD(1) [of s j y k m d' t'] inv [of j] mem by (simp add: fs)
  next
    fix y e' d' t' assume "(y, e') \<in> retired s'" "y \<in> refs s' j" "gs s' j = Inside d' t'"
    then show "t' \<le> e' + 1 \<or> (\<exists>g. snap s' j = Some g \<and> behind g e')"
      using holdersD(2) [of s j y e' d' t'] inv [of j] r by (simp add: fs)
  next
    fix y assume y: "y \<in> refs s' j" "y \<in> freed s'"
    have "y \<notin> fst ` set out"
    proof
      assume "y \<in> fst ` set out"
      then obtain k where k: "(y, k) \<in> set out" by auto
      obtain d t where g: "gs s j = Inside d t" using y(1) inv [of j] by (auto simp: fs region_ok_def split: gpc.splits)
      have "(y, k) \<in> set (pair_entries (rcu_q s i))" using k by (simp add: en)
      then have "to_rcu_ticks t \<le> k" using holdersD(1) [of s j y k i d t] inv [of j] y(1) g by (simp add: fs)
      moreover have "to_rcu_ticks (last_tick_inclusive s + 1) \<le> to_rcu_ticks t"
        using inside_tick(1) [OF assms(1) g] by (intro to_rcu_ticks_mono) simp
      ultimately show False using out [OF k] by simp
    qed
    then show "y \<in> fst ` gone s'" using y holdersD(3) [of s j y] inv [of j] by (auto simp: fs)
  qed
  ultimately show ?thesis unfolding run by (simp add: obj_inv_def)
qed

lemma obj_inv_collect:
  assumes "obj_inv s"
  shows "obj_inv (on_post_rcu_region_completion i s)"
proof (cases "ro_tick (last_tick_inclusive s) = 0 \<or> gc_reaped s i = ro_tick (last_tick_inclusive s) - 1")
  case True
  then show ?thesis using assms
    by (auto simp: on_post_rcu_region_completion_def clean_up_to_including_def global_last_tick_exclusive_def Let_def)
next
  case False
  let ?ct = "ro_tick (last_tick_inclusive s) - 1"
  obtain out q where rp: "reap ?ct (gc_q s i) = (out, q)" by fastforce
  define s' where "s' = s\<lparr>gc_reaped := (gc_reaped s)(i := ?ct), gc_q := (gc_q s)(i := q), gone := gone s \<union> fst ` set out,
    freed := freed s \<union> (fst \<circ> fst) ` set out\<rparr>"
  have run: "on_post_rcu_region_completion i s = s'" using False rp
    by (simp add: on_post_rcu_region_completion_def clean_up_to_including_def global_last_tick_exclusive_def Let_def s'_def)
  note inv = obj_invD [OF assms]
  have ps: "places_ok s" using assms by (simp add: obj_inv_def)
  have qok: "pair_ok 4096 (gc_q s i)" using inv [of i] by (simp add: queues_ok_def)
  have en: "pair_entries (gc_q s i) = out @ pair_entries q" by (rule pq.take_entries [OF qok rp])
  have out: "ro_tick e < ro_tick (last_tick_inclusive s)" if "((x, e), k) \<in> set out" for x e k
  proof -
    have "k \<le> ?ct" using pq.take_out [OF qok rp that] by simp
    moreover have "((x, e), k) \<in> set (pair_entries (gc_q s i))" using that by (simp add: en)
    then have "k = ro_tick e" using inv [of i] by (auto simp: queues_ok_def)
    ultimately show ?thesis using False by linarith
  qed
  have fs: "pend s' = pend s" "refs s' = refs s" "gs s' = gs s" "rcu_q s' = rcu_q s"
    "snap s' = snap s" "cepoch s' = cepoch s" "ticks s' = ticks s" "current_tick s' = current_tick s"
    "last_tick_inclusive s' = last_tick_inclusive s" "linked s' = linked s" "born s' = born s"
    "freed s' = freed s \<union> (fst \<circ> fst) ` set out" "gone s' = gone s \<union> fst ` set out" "gc_q s' i = q"
    "\<And>j. j \<noteq> i \<Longrightarrow> gc_q s' j = gc_q s j"
    by (simp_all add: s'_def)
  have "fst ` set (pair_entries (gc_q s j)) = fst ` set (pair_entries (gc_q s' j)) \<union> (if j = i then fst ` set out else {})" for j
    using en fs(14,15) by (cases "j = i") auto
  moreover have "(\<Union>j. B j \<union> (if j = i then C else {})) = (\<Union>j. B j) \<union> C" for B and C :: "(nat \<times> nat) set"
    by (rule set_eqI) (simp, metis)
  ultimately have r: "retired s' = retired s" unfolding retired_def fs by auto
  have sub: "rcu_side s' \<subseteq> rcu_side s"
  proof
    fix y assume "y \<in> rcu_side s'"
    then show "y \<in> rcu_side s"
    proof (cases rule: rcu_side_cases)
      case (1 j)
      then show ?thesis using rcu_sideI(1) by (auto simp: fs)
    next
      case (2 j k)
      then show ?thesis using rcu_sideI(2) by (auto simp: fs)
    next
      case 3
      then show ?thesis by (intro rcu_sideI(3)) (auto simp: fs image_Un image_image)
    qed
  qed
  have "places_ok s'"
  proof (rule places_ok_smaller [OF ps r sub])
    show "fst ` gone s' \<subseteq> freed s'" using placesD(8) [OF ps] unfolding fs image_Un image_comp by blast
  qed (simp_all add: fs)
  moreover have "gone_ok s'" using inv [of i] out unfolding gone_ok_def fs by fastforce
  moreover have "region_ok s' j" for j using inv [of j] by (simp add: region_ok_def fs cong: gpc.case_cong)
  moreover have "queues_ok s' j" for j
  proof (cases "j = i")
    case True
    then show ?thesis using inv [of i] en pq.take_ok [OF qok rp] unfolding queues_ok_def by (auto simp: fs)
  next
    case False
    then show ?thesis using inv [of j] unfolding queues_ok_def by (simp add: fs)
  qed
  moreover have "holders_ok s' j" for j
  proof (rule holdersI)
    fix y k m d' t' assume "(y, k) \<in> set (pair_entries (rcu_q s' m))" "y \<in> refs s' j" "gs s' j = Inside d' t'"
    then show "to_rcu_ticks t' \<le> k" using holdersD(1) [of s j y k m d' t'] inv [of j] by (simp add: fs)
  next
    fix y e' d' t' assume "(y, e') \<in> retired s'" "y \<in> refs s' j" "gs s' j = Inside d' t'"
    then show "t' \<le> e' + 1 \<or> (\<exists>g. snap s' j = Some g \<and> behind g e')"
      using holdersD(2) [of s j y e' d' t'] inv [of j] r by (simp add: fs)
  next
    fix y assume "y \<in> refs s' j" "y \<in> freed s'"
    then show "y \<in> fst ` gone s'" using holdersD(3) [of s j y] inv [of j] by (auto simp: fs image_Un image_image)
  qed
  ultimately show ?thesis unfolding run by (simp add: obj_inv_def)
qed

lemma obj_inv_step:
  assumes "estep n s s'" "tick_inv n s" "obj_inv s"
  shows "obj_inv s'"
proof -
  have r: "region_ok s j" for j using assms(3) by (simp add: obj_inv_def)
  have ps: "places_ok s" using assms(3) by (simp add: obj_inv_def)
  have g: "guard_ok n s j" for j using assms(2) by (simp add: tick_inv_def)
  have le: "ticks s j \<le> current_tick s" if "j < n" for j using tick_le_current [OF assms(2) that] .
  have le_all: "ticks s j \<le> t" if "gs s j = Loaded t" for j t using g [of j] that by (simp add: guard_ok_def)
  show ?thesis using assms(1)
  proof cases
    case (guard_lock i)
    have "region_ok s' j" for j using r [of j] guard_lock by (cases "j = i") (simp_all add: region_ok_def cong: gpc.case_cong)
    then show ?thesis
      by (intro obj_inv_same [OF _ assms(3)]) (use guard_lock in \<open>auto simp: obj_part_def split: if_splits\<close>)
  next
    case (guard_load i)
    have "region_ok s' j" for j using r [of j] guard_load by (cases "j = i") (simp_all add: region_ok_def cong: gpc.case_cong)
    then show ?thesis
      by (intro obj_inv_same [OF _ assms(3)]) (use guard_load in \<open>auto simp: obj_part_def split: if_splits\<close>)
  next
    case (guard_store i t)
    have e: "refs s i = {}" "snap s i = None" "cepoch s i = None" "ticks s i \<le> t"
      using r [of i] guard_store le_all [of i t] by (auto simp: region_ok_def)
    then have "region_ok s' j" for j using r [of j] guard_store by (cases "j = i") (simp_all add: region_ok_def cong: gpc.case_cong)
    then show ?thesis
      by (intro obj_inv_same [OF _ assms(3)]) (use e guard_store in \<open>auto simp: obj_part_def split: if_splits\<close>)
  next
    case (guard_nest i e t)
    have t: "ticks s i = t" using g [of i] guard_nest by (simp add: guard_ok_def)
    have "region_ok s' j" for j using r [of j] guard_nest t by (cases "j = i") (simp_all add: region_ok_def cong: gpc.case_cong)
    then show ?thesis
      by (intro obj_inv_same [OF _ assms(3)]) (use t guard_nest in \<open>auto simp: obj_part_def split: if_splits\<close>)
  next
    case (guard_unnest i e t)
    have "region_ok s' j" for j using r [of j] guard_unnest by (cases "j = i") (simp_all add: region_ok_def cong: gpc.case_cong)
    then show ?thesis
      by (intro obj_inv_same [OF _ assms(3)]) (use guard_unnest in \<open>auto simp: obj_part_def split: if_splits\<close>)
  next
    case (guard_leave i t)
    have "region_ok s' j" for j using r [of j] guard_leave by (cases "j = i") (simp_all add: region_ok_def cong: gpc.case_cong)
    then show ?thesis
      by (intro obj_inv_same [OF _ assms(3)]) (use guard_leave in \<open>auto simp: obj_part_def split: if_splits\<close>)
  next
    case tick_bump
    have "region_ok s' j" for j using r [of j] tick_bump by (auto simp: region_ok_def split: gpc.splits)
    then show ?thesis by (intro obj_inv_same [OF _ assms(3)]) (use tick_bump in \<open>auto simp: obj_part_def\<close>)
  next
    case (tick_advance i)
    have "i < n" using assms(2) tick_advance by (auto simp: tick_inv_def ticker_ok_def)
    moreover have "region_ok s' j" for j using r [of j] tick_advance by (simp add: region_ok_def cong: gpc.case_cong)
    ultimately show ?thesis by (intro obj_inv_same [OF _ assms(3)]) (use le tick_advance in \<open>auto simp: obj_part_def\<close>)
  next
    case tick_publish
    have "last_tick_inclusive s \<le> current_tick s - 1" using assms(2) tick_publish by (auto simp: tick_inv_def ticker_ok_def scanned_def)
    moreover have "region_ok s' j" for j using r [of j] tick_publish by (simp add: region_ok_def cong: gpc.case_cong)
    ultimately show ?thesis by (intro obj_inv_same [OF _ assms(3)]) (use tick_publish in \<open>auto simp: obj_part_def\<close>)
  next
    case (begin_snapshot i e t)
    have "t \<le> global_last_tick_exclusive s + 1" using inside_tick [OF assms(2) begin_snapshot(3)] by (simp add: global_last_tick_exclusive_def)
    then have "region_ok s' j" for j using r [of j] begin_snapshot by (cases "j = i") (simp_all add: region_ok_def cong: gpc.case_cong)
    then show ?thesis by (intro obj_inv_same [OF _ assms(3)]) (use begin_snapshot in \<open>auto simp: obj_part_def\<close>)
  next
    case (commit_epoch i e t)
    have "t \<le> current_tick s" using inside_tick [OF assms(2) commit_epoch(3)] by simp
    then have "region_ok s' j" for j using r [of j] commit_epoch by (cases "j = i") (simp_all add: region_ok_def cong: gpc.case_cong)
    then show ?thesis by (intro obj_inv_same [OF _ assms(3)]) (use commit_epoch in \<open>auto simp: obj_part_def split: if_splits\<close>)
  next
    case (link i e t x)
    have u: "rcu_side s' = rcu_side s" "gc_side s' = gc_side s" "retired s' = retired s" using link by (simp_all add: rcu_side_def gc_side_def retired_def)
    have "x \<notin> rcu_side s" "x \<notin> gc_side s" using ps link(4) by (auto simp: places_ok_def)
    then have "places_ok s'" using ps link unfolding places_ok_def u by auto
    then show ?thesis using obj_inv_places [OF assms(3), where b = "born s'" and l = "linked s'" and p = "pend s"] link by simp
  next
    case (get i e t x)
    then show ?thesis using obj_inv_get [OF assms(3) get(3)] by blast
  next
    case (chain_get i e t g x f)
    then show ?thesis using obj_inv_get [OF assms(3) chain_get(3), of x] by blast
  next
    case (unlink i e t x)
    let ?s = "s\<lparr>refs := (refs s)(i := insert x (refs s i))\<rparr>"
    have o: "obj_inv ?s" using obj_inv_get [OF assms(3) unlink(3)] unlink(4) by blast
    have u: "rcu_side s' = insert x (rcu_side s)" "gc_side s' = gc_side s" "retired s' = retired s"
      using unlink by (auto simp: rcu_side_def gc_side_def retired_def split: if_splits)
    have "x \<notin> rcu_side s" "x \<notin> gc_side s" "x \<in> born s" using ps unlink(4) by (auto simp: places_ok_def)
    then have "places_ok s'" using ps unlink(1) unfolding places_ok_def u by auto
    moreover have "s' = ?s\<lparr>born := born s, linked := linked s', pend := pend s'\<rparr>" using unlink by simp
    ultimately show ?thesis using obj_inv_places [OF o, where b = "born s" and l = "linked s'" and p = "pend s'"] by simp
  next
    case (free i e t x)
    then show ?thesis using obj_inv_free [OF assms(2,3) free(3,4)] by (simp add: free_with_fn_def is_locally_guarded_def)
  next
    case (cleanup i)
    then show ?thesis using obj_inv_cleanup [OF assms(2,3)] by simp
  next
    case (spill i e t f x)
    then show ?thesis using obj_inv_spill [OF assms(2,3) spill(3-5)] by simp
  next
    case (collect i)
    then show ?thesis using obj_inv_collect [OF assms(3)] by simp
  next
    case (tick_skip i)
    have "region_ok s' j" for j using r [of j] tick_skip by (simp add: region_ok_def cong: gpc.case_cong)
    then show ?thesis by (intro obj_inv_same [OF _ assms(3)]) (use tick_skip in \<open>auto simp: obj_part_def\<close>)
  next
    case (tick_wait i)
    have "region_ok s' j" for j using r [of j] tick_wait by (simp add: region_ok_def cong: gpc.case_cong)
    then show ?thesis by (intro obj_inv_same [OF _ assms(3)]) (use tick_wait in \<open>auto simp: obj_part_def\<close>)
  next
    case (tick_lock i)
    have "region_ok s' j" for j using r [of j] tick_lock by (simp add: region_ok_def cong: gpc.case_cong)
    then show ?thesis by (intro obj_inv_same [OF _ assms(3)]) (use tick_lock in \<open>auto simp: obj_part_def\<close>)
  qed
qed

section \<open>What is given back\<close>

lemma px_pair_empty_facts: "pair_ok 4096 px_pair_empty" "pair_entries px_pair_empty = []"
  by (simp_all add: px_pair_empty_def pair_ok_def px_ok_def px_is_empty_def pair_entries_def px_entries_def px_empty_def)

lemma einv_init: "tick_inv n (einit X) \<and> obj_inv (einit X)"
proof -
  note empty = px_pair_empty_facts
  have "retired (einit X) = {}" "rcu_side (einit X) = {}" by (simp_all add: retired_def rcu_side_def einit_def empty)
  then have "obj_inv (einit X)"
    by (auto simp: empty obj_inv_def places_ok_def gc_side_def gone_ok_def region_ok_def queues_ok_def holders_ok_def einit_def)
  then show ?thesis using tick_inv_init by blast
qed

lemma einv_reachable: "(estep n)\<^sup>*\<^sup>* (einit X) s \<Longrightarrow> tick_inv n s \<and> obj_inv s"
  by (induction rule: rtranclp_induct) (use einv_init tick_inv_step obj_inv_step in blast)+


section \<open>Two cores\<close>

text \<open>A round of the ticker while no thread is in a region, and many of them.\<close>

definition at_rest :: "epochs \<Rightarrow> nat \<Rightarrow> bool" where
  "at_rest s c \<longleftrightarrow> current_tick s = c \<and> ticker_pc s = Sleeping \<and> ticks s 0 = c \<and> ticks s 1 = c \<and> \<not> tlock s 0 \<and> \<not> tlock s 1 \<and>
     gs s 0 = Outside \<and> gs s 1 = Outside"

definition moved :: "nat \<Rightarrow> epochs \<Rightarrow> epochs" where
  "moved c s = s\<lparr>current_tick := c, last_tick_inclusive := c - 1, ticks := (ticks s)(0 := c, 1 := c)\<rparr>"

lemma estep_to: "estep n s t \<Longrightarrow> t = t' \<Longrightarrow> estep n s t'"
  by simp

lemma core_advances:
  assumes "ticker_pc s = Scanning i" "i < n" "ticks s i \<noteq> current_tick s" "\<not> tlock s i"
  shows "(estep n)\<^sup>*\<^sup>* s (s\<lparr>ticker_pc := Scanning (i + 1), ticks := (ticks s)(i := current_tick s)\<rparr>)"
proof -
  let ?a = "s\<lparr>ticker_pc := Waiting i\<rparr>" and ?b = "s\<lparr>ticker_pc := Holding i, tlock := (tlock s)(i := True)\<rparr>"
  have t: "(tlock s)(i := False) = tlock s" using assms(4) by (simp add: fun_eq_iff)
  have 1: "estep n s ?a" using estep.tick_wait [OF assms(1-3)] .
  have 2: "estep n ?a ?b" using estep.tick_lock [of ?a i n] assms(4) by simp
  have 3: "estep n ?b (s\<lparr>ticker_pc := Scanning (i + 1), ticks := (ticks s)(i := current_tick s)\<rparr>)"
    by (rule estep_to [OF estep.tick_advance [of ?b i n]]) (simp_all add: t)
  show ?thesis by (rule converse_rtranclp_into_rtranclp [of "estep n", OF 1 converse_rtranclp_into_rtranclp [of "estep n", OF 2 r_into_rtranclp [of "estep n", OF 3]]])
qed

lemma idle_round:
  assumes "at_rest s c"
  shows "(estep 2)\<^sup>*\<^sup>* s (moved (c + 1) s)" "at_rest (moved (c + 1) s) (c + 1)"
proof -
  let ?b = "s\<lparr>current_tick := c + 1, ticker_pc := Scanning 0\<rparr>"
  let ?c = "?b\<lparr>ticker_pc := Scanning 1, ticks := (ticks s)(0 := c + 1)\<rparr>"
  let ?d = "?b\<lparr>ticker_pc := Scanning 2, ticks := (ticks s)(0 := c + 1, 1 := c + 1)\<rparr>"
  have "estep 2 s ?b" using estep.tick_bump [of s 2] assms by (simp add: at_rest_def)
  moreover have "(estep 2)\<^sup>*\<^sup>* ?b ?c" using core_advances [of ?b 0 2] assms by (simp add: at_rest_def)
  moreover have "(estep 2)\<^sup>*\<^sup>* ?c ?d" using core_advances [of ?c 1 2] assms by (simp add: at_rest_def numeral_2_eq_2)
  moreover have "estep 2 ?d (moved (c + 1) s)"
    by (rule estep_to [OF estep.tick_publish [of ?d 2]]) (use assms in \<open>auto simp: moved_def at_rest_def intro!: epochs.equality\<close>)
  ultimately show "(estep 2)\<^sup>*\<^sup>* s (moved (c + 1) s)" by (meson converse_rtranclp_into_rtranclp rtranclp.rtrancl_into_rtrancl rtranclp_trans)
  show "at_rest (moved (c + 1) s) (c + 1)" using assms by (simp add: at_rest_def moved_def)
qed

lemma idle_rounds:
  assumes "at_rest s c" "0 < k"
  shows "(estep 2)\<^sup>*\<^sup>* s (moved (c + k) s) \<and> at_rest (moved (c + k) s) (c + k)"
  using assms(2)
proof (induction k)
  case (Suc k)
  show ?case
  proof (cases "k = 0")
    case True
    then show ?thesis using idle_round [OF assms(1)] by simp
  next
    case False
    then have ih: "(estep 2)\<^sup>*\<^sup>* s (moved (c + k) s)" "at_rest (moved (c + k) s) (c + k)" using Suc.IH by auto
    have "moved (c + k + 1) (moved (c + k) s) = moved (c + Suc k) s" by (simp add: moved_def)
    then show ?thesis using idle_round [OF ih(2)] ih(1) by (metis add_Suc_right add.commute plus_1_eq_Suc rtranclp_trans)
  qed
qed simp

text \<open>A thread enters its region.\<close>

lemma enters:
  assumes "i < n" "gs s i = Outside" "\<not> tlock s i"
  shows "(estep n)\<^sup>*\<^sup>* s (s\<lparr>gs := (gs s)(i := Inside 1 (current_tick s)), ticks := (ticks s)(i := current_tick s), tlock := (tlock s)(i := True)\<rparr>)"
proof -
  let ?a = "s\<lparr>gs := (gs s)(i := Entering), tlock := (tlock s)(i := True)\<rparr>"
  let ?b = "?a\<lparr>gs := (gs s)(i := Loaded (current_tick s))\<rparr>"
  have "estep n s ?a" using estep.guard_lock [OF assms] .
  moreover have "estep n ?a ?b" using estep.guard_load [of i n ?a] assms(1) by simp
  moreover have "estep n ?b (s\<lparr>gs := (gs s)(i := Inside 1 (current_tick s)), ticks := (ticks s)(i := current_tick s), tlock := (tlock s)(i := True)\<rparr>)"
    by (rule estep_to [OF estep.guard_store [of i n ?b "current_tick s"]]) (simp_all add: assms(1))
  ultimately show ?thesis by (meson converse_rtranclp_into_rtranclp rtranclp.rtrancl_refl)
qed

text \<open>Core 0 retires version 0 in tick 49.\<close>

definition demo_spilled :: epochs where
  "demo_spilled = gc_enqueue 0 0 49 (moved 49 (einit {0}))\<lparr>linked := {}\<rparr>"

lemma demo_spilled_reached: "(estep 2)\<^sup>*\<^sup>* (einit {0}) demo_spilled" "at_rest demo_spilled 49"
proof -
  let ?s = "moved 49 (einit {0})"
  have 0: "(estep 2)\<^sup>*\<^sup>* (einit {0}) ?s" "at_rest ?s 49"
    using idle_rounds [of "einit {0}" 1 48] by (simp_all add: at_rest_def einit_def)
  let ?a = "?s\<lparr>gs := (gs ?s)(0 := Inside 1 49), ticks := (ticks ?s)(0 := 49), tlock := (tlock ?s)(0 := True)\<rparr>"
  have 1: "(estep 2)\<^sup>*\<^sup>* ?s ?a" using enters [of 0 2 ?s] 0(2) by (simp add: at_rest_def)
  let ?b = "?a\<lparr>cepoch := (cepoch ?s)(0 := Some 49)\<rparr>"
  have 2: "estep 2 ?a ?b" using estep.commit_epoch [of 0 2 ?a 1 49] by (simp add: moved_def)
  let ?c = "gc_enqueue 0 0 49 (?b\<lparr>linked := linked ?b - {0}, born := insert 0 (born ?b)\<rparr>)"
  have 3: "estep 2 ?b ?c" by (rule estep.spill [of 0 2 ?b 1 49 49 0]) (simp_all add: moved_def einit_def)
  let ?d = "?c\<lparr>gs := (gs ?c)(0 := Outside), tlock := (tlock ?c)(0 := False), refs := (refs ?c)(0 := {}),
      snap := (snap ?c)(0 := None), cepoch := (cepoch ?c)(0 := None)\<rparr>"
  have 4: "estep 2 ?c ?d" by (rule estep.guard_leave [of 0 2 ?c 49]) (simp_all add: gc_enqueue_def)
  have 5: "?d = demo_spilled"
    by (simp add: demo_spilled_def gc_enqueue_def moved_def einit_def fun_eq_iff)
  show "(estep 2)\<^sup>*\<^sup>* (einit {0}) demo_spilled"
    using 0(1) 1 2 3 4 unfolding 5 by (meson rtranclp.rtrancl_into_rtrancl rtranclp_trans)
  show "at_rest demo_spilled 49" using 0(2) by (simp add: demo_spilled_def at_rest_def gc_enqueue_def)
qed

text \<open>
  Two ticks later the version is collected while core 1 reads another record.
\<close>

lemma demo_collected:
  "\<exists>s. (estep 2)\<^sup>*\<^sup>* (einit {0}) s \<and> 0 \<in> freed s \<and> 7 \<in> refs s 1"
proof -
  let ?s = "moved 51 demo_spilled"
  have 0: "(estep 2)\<^sup>*\<^sup>* demo_spilled ?s" "at_rest ?s 51"
    using idle_rounds [OF demo_spilled_reached(2), of 2] by simp_all
  let ?a = "?s\<lparr>gs := (gs ?s)(1 := Inside 1 51), ticks := (ticks ?s)(1 := 51), tlock := (tlock ?s)(1 := True)\<rparr>"
  have 1: "(estep 2)\<^sup>*\<^sup>* ?s ?a" using enters [of 1 2 ?s] 0(2) by (simp add: at_rest_def)
  let ?b = "?a\<lparr>born := insert 7 (born ?a), linked := insert 7 (linked ?a)\<rparr>"
  have 2: "estep 2 ?a ?b" by (rule estep.link [of 1 2 ?a 1 51]) (simp_all add: demo_spilled_def gc_enqueue_def moved_def einit_def)
  let ?c = "?b\<lparr>refs := (refs ?b)(1 := insert 7 (refs ?b 1))\<rparr>"
  have 3: "estep 2 ?b ?c" by (rule estep.get [of 1 2 ?b 1 51]) simp_all
  have 4: "estep 2 ?c (on_post_rcu_region_completion 0 ?c)"
    by (rule estep.collect) (use 0(2) in \<open>simp_all add: at_rest_def\<close>)
  have q: "gc_q ?c 0 = pair_enqueue 4096 (0, 49) (ro_tick 49) px_pair_empty" "gc_reaped ?c 0 = 0" "last_tick_inclusive ?c = 50"
    by (simp_all add: demo_spilled_def gc_enqueue_def moved_def einit_def)
  have ok: "pair_ok 4096 (gc_q ?c 0)" unfolding q(1) by (rule pq.enq_ok) (simp_all add: px_pair_empty_facts)
  obtain out p where rp: "reap 1 (gc_q ?c 0) = (out, p)" by fastforce
  have "out = [((0, 49), ro_tick 49)]"
    using pq.take_exact(1) [OF ok rp] unfolding q(1) pq.enq_entries [OF px_pair_empty_facts(1)]
    by (simp add: px_pair_empty_facts ro_tick_def)
  then have "0 \<in> freed (on_post_rcu_region_completion 0 ?c)" "refs (on_post_rcu_region_completion 0 ?c) = refs ?c"
    using q(2,3) rp by (simp_all add: on_post_rcu_region_completion_def clean_up_to_including_def global_last_tick_exclusive_def
        ro_tick_def Let_def)
  moreover have "7 \<in> refs ?c 1" by simp
  ultimately have "0 \<in> freed (on_post_rcu_region_completion 0 ?c)" "7 \<in> refs (on_post_rcu_region_completion 0 ?c) 1" by simp_all
  then show ?thesis using demo_spilled_reached(1) 0(1) 1 2 3 4
    by (meson rtranclp.rtrancl_into_rtrancl rtranclp_trans)
qed


text \<open>
  The bound of \<open>PurgeThreadOutstandingGCTasks\<close> is one tick too high: core 1 starts a snapshot while the ticker waits for
  tick 49 to be over, reads tick 49 as the first that is not, and is still inside when tick 49 is over; the purge would
  then collect the version that this snapshot reaches.
\<close>

lemma purge_too_early:
  "\<exists>s k g x e. (estep 2)\<^sup>*\<^sup>* (einit {0}) s \<and> purge_tick s = Some k \<and> ((x, e), ro_tick e) \<in> set (pair_entries (gc_q s 0)) \<and>
     ro_tick e \<le> k \<and> gs s 1 = Inside 1 50 \<and> snap s 1 = Some g \<and> behind g e"
proof -
  let ?s = "demo_spilled\<lparr>current_tick := 50, ticker_pc := Scanning 0\<rparr>"
  have r: "at_rest demo_spilled 49" by (rule demo_spilled_reached)
  have 0: "estep 2 demo_spilled ?s" using estep.tick_bump [of demo_spilled 2] r by (simp add: at_rest_def)
  let ?a = "?s\<lparr>gs := (gs ?s)(1 := Inside 1 50), ticks := (ticks ?s)(1 := 50), tlock := (tlock ?s)(1 := True)\<rparr>"
  have 1: "(estep 2)\<^sup>*\<^sup>* ?s ?a" using enters [of 1 2 ?s] r by (simp add: at_rest_def)
  let ?b = "?a\<lparr>snap := (snap ?a)(1 := Some 49)\<rparr>"
  have l: "last_tick_inclusive demo_spilled = 48" "snap demo_spilled 1 = None"
    by (simp_all add: demo_spilled_def gc_enqueue_def moved_def einit_def)
  have 2: "estep 2 ?a ?b"
    by (rule estep_to [OF estep.begin_snapshot [of 1 2 ?a 1 50]]) (use l in \<open>simp_all add: global_last_tick_exclusive_def\<close>)
  let ?c = "?b\<lparr>ticker_pc := Scanning 1, ticks := (ticks ?b)(0 := 50)\<rparr>"
  have 3: "(estep 2)\<^sup>*\<^sup>* ?b ?c" using core_advances [of ?b 0 2] r by (simp add: at_rest_def)
  let ?d = "?c\<lparr>ticker_pc := Scanning 2\<rparr>"
  have 4: "estep 2 ?c ?d" by (rule estep_to [OF estep.tick_skip [of ?c 1 2]]) simp_all
  let ?e = "?d\<lparr>ticker_pc := Sleeping, last_tick_inclusive := 49\<rparr>"
  have 5: "estep 2 ?d ?e" by (rule estep_to [OF estep.tick_publish [of ?d 2]]) simp_all
  have "pair_entries (gc_q ?e 0) = [((0, 49), ro_tick 49)]"
    by (simp add: demo_spilled_def gc_enqueue_def moved_def einit_def pq.enq_entries [OF px_pair_empty_facts(1)] px_pair_empty_facts)
  moreover have "purge_tick ?e = Some 1" by (simp add: purge_tick_def global_last_tick_exclusive_def ro_tick_def)
  moreover have "(estep 2)\<^sup>*\<^sup>* (einit {0}) ?e"
    using demo_spilled_reached(1) 0 1 2 3 4 5 by (meson rtranclp.rtrancl_into_rtrancl rtranclp_trans)
  ultimately show ?thesis
    by (intro exI [of _ ?e] exI [of _ 1] exI [of _ 49] exI [of _ 0]) (simp add: behind_def ro_tick_def)
qed

section \<open>What a snapshot reads of a chain that was cut\<close>

text \<open>
  The model lets a snapshot follow a chain past a version only when it does not see that version. This is what the read
  of a chain does: a version whose read-only tick is over for the snapshot ends the search, so what lies behind it may
  be missing.
\<close>

lemma mv_read_cut: "t \<le> u \<Longrightarrow> mv_read (xs @ (t, v) # ys) u = mv_read (xs @ [(t, v)]) u"
  by (induction xs) auto

lemma seen_unless_behind:
  assumes "\<not> behind (unat g) (unat (EpochId t))" "unat g < 2 ^ 31" "t \<noteq> 0"
  shows "t \<le> ComputeReadOnlyTid g"
  using assms ComputeReadOnlyTid_le_iff [OF assms(2,3)]
  by (simp add: behind_def ro_tick_def word_less_nat_alt to_read_only_tick_def ReadOnlyEpochMultiplier_def unat_div)

lemma snapshot_of_cut_chain:
  assumes "\<not> behind (unat g) (unat (EpochId t))" "unat g < 2 ^ 31" "t \<noteq> 0"
  shows "mv_read (xs @ (t, v) # ys) (ComputeReadOnlyTid g) = mv_read (xs @ [(t, v)]) (ComputeReadOnlyTid g)"
  by (rule mv_read_cut, rule seen_unless_behind [OF assms])

end
