(* ===== verification/Silo_Random.thy ===== *)
theory Silo_Random
  imports Silo_Util
begin

unbundle bit_operations_syntax

text \<open>
  Random numbers of the TPC-C workload, \<^verbatim>\<open>src/silo/benchmarks/tpcc.cc\<close>, on top of \<open>fast_random\<close> of \<open>Silo_Util\<close>. The
  generator is a linear congruential generator modulo \<open>2 ^ 48\<close>; it runs through all its states, and that is why the
  loops that draw until a draw fits come to an end. Draws of \<open>next_uniform\<close> stay far enough from one that scaling them
  to a range in double arithmetic never leaves the range.
\<close>

section \<open>The generator\<close>

definition lcg :: "nat \<Rightarrow> nat" where
  "lcg x = (x * 0x5DEECE66D + 0xB) mod 2 ^ 48"

definition lin :: "nat \<Rightarrow> nat" where
  "lin x = x * 0x5DEECE66D + 0xB"

lemma next_bits_lcg:
  assumes "bits \<le> 48"
  shows "unat (snd (next_bits bits s)) = lcg (unat s)" "unat (fst (next_bits bits s)) = lcg (unat s) div 2 ^ (48 - bits)"
proof -
  have m: "push_bit 48 1 - 1 = (mask 48 :: u64)" by (simp add: mask_eq_exp_minus_1 push_bit_eq_mult)
  have "unat (s * 0x5DEECE66D + 0xB) = (unat s * 0x5DEECE66D + 0xB) mod 2 ^ 64"
    by (simp add: unat_word_ariths mod_simps)
  moreover have "unat (x AND mask 48) = unat x mod 2 ^ 48" for x :: u64
    unfolding take_bit_eq_mask [symmetric] unsigned_take_bit_eq by (rule take_bit_eq_mod)
  ultimately have l: "unat ((s * 0x5DEECE66D + 0xB) AND mask 48) = lcg (unat s)"
    by (simp only: lcg_def) (simp add: mod_mod_cancel)
  have "unat w < 2 ^ 64" for w :: u64 using unsigned_less [of w] by simp
  from this [of "(s * 0x5DEECE66D + 0xB) AND mask 48"] have b: "lcg (unat s) < 2 ^ 64" by (simp only: l)
  show "unat (snd (next_bits bits s)) = lcg (unat s)" using l unfolding next_bits_def m Let_def by simp
  show "unat (fst (next_bits bits s)) = lcg (unat s) div 2 ^ (48 - bits)"
    unfolding next_bits_def m Let_def fst_conv unsigned_drop_bit_eq drop_bit_nat_def l
    by (subst take_bit_nat_eq_self) (use b in simp_all)
qed

lemma lcg_lin: "(lcg ^^ n) (x mod 2 ^ 48) = (lin ^^ n) x mod 2 ^ 48"
proof (induction n)
  case (Suc n)
  have "lcg (y mod 2 ^ 48) = lin y mod 2 ^ 48" for y
    unfolding lcg_def lin_def by (metis mod_add_left_eq mod_mult_left_eq)
  then show ?case using Suc by simp
qed simp

text \<open>\<open>2 ^ k\<close> steps: the factor is one modulo \<open>2 ^ (k + 2)\<close>, the summand an odd multiple of \<open>2 ^ k\<close>.\<close>

lemma lin_power: "\<exists>p q. \<forall>x. (lin ^^ (2 ^ k)) x = (1 + 2 ^ (k + 2) * p) * x + 2 ^ k * (2 * q + 1)"
proof (induction k)
  case 0
  show ?case by (rule exI [of _ "0x5DEECE66D div 4"], rule exI [of _ 5]) (simp add: lin_def)
next
  case (Suc k)
  then obtain p q where h: "\<And>x. (lin ^^ (2 ^ k)) x = (1 + 2 ^ (k + 2) * p) * x + 2 ^ k * (2 * q + 1)" by blast
  have "(lin ^^ (2 ^ Suc k)) x = (1 + 2 ^ (Suc k + 2) * (p + 2 ^ (k + 1) * p ^ 2)) * x
      + 2 ^ Suc k * (2 * (q * (1 + 2 ^ (k + 1) * p) + 2 ^ k * p) + 1)" for x
  proof -
    have "(lin ^^ (2 ^ Suc k)) x = (lin ^^ (2 ^ k)) ((lin ^^ (2 ^ k)) x)" by (simp add: mult_2 funpow_add)
    also have "\<dots> = (1 + 2 ^ (k + 2) * p) * ((1 + 2 ^ (k + 2) * p) * x + 2 ^ k * (2 * q + 1)) + 2 ^ k * (2 * q + 1)"
      by (simp only: h)
    finally show ?thesis by (simp add: algebra_simps power2_eq_square power_add)
  qed
  then show ?case by blast
qed

lemma lin_reaches:
  assumes "x mod 2 ^ j = t mod 2 ^ j" "j \<le> m"
  shows "\<exists>n. (lin ^^ (n * 2 ^ j)) x mod 2 ^ m = t mod 2 ^ m"
  using assms(2)
proof (induction rule: dec_induct)
  case base
  then show ?case using assms(1) by (intro exI [of _ 0]) simp
next
  case (step m)
  then obtain n where n: "(lin ^^ (n * 2 ^ j)) x mod 2 ^ m = t mod 2 ^ m" by blast
  define y where "y = (lin ^^ (n * 2 ^ j)) x"
  obtain p q where h: "(lin ^^ (2 ^ m)) y = (1 + 2 ^ (m + 2) * p) * y + 2 ^ m * (2 * q + 1)" using lin_power [of m] by blast
  have "(lin ^^ ((n + 2 ^ (m - j)) * 2 ^ j)) x = (lin ^^ (2 ^ m)) y"
  proof -
    have "(n + 2 ^ (m - j)) * 2 ^ j = 2 ^ m + n * 2 ^ j" using step.hyps by (simp add: algebra_simps flip: power_add)
    then show ?thesis by (simp add: y_def funpow_add)
  qed
  moreover have "(lin ^^ (2 ^ m)) y mod 2 ^ Suc m = (y + 2 ^ m) mod 2 ^ Suc m"
  proof -
    have "(lin ^^ (2 ^ m)) y = y + 2 ^ m + 2 ^ Suc m * (2 * p * y + q)" unfolding h by (simp add: algebra_simps power_add)
    then show ?thesis by simp
  qed
  moreover have "y mod 2 ^ Suc m = t mod 2 ^ Suc m \<or> (y + 2 ^ m) mod 2 ^ Suc m = t mod 2 ^ Suc m"
  proof -
    define a b where "a = y div 2 ^ m" and "b = t div 2 ^ m"
    have y: "y = 2 ^ m * a + t mod 2 ^ m" using n by (simp add: a_def y_def [symmetric])
      (metis add.commute mult_div_mod_eq)
    have t: "t = 2 ^ m * b + t mod 2 ^ m" by (simp add: b_def)
    have e: "(2 ^ m * c + t mod 2 ^ m) mod 2 ^ Suc m = 2 ^ m * (c mod 2) + t mod 2 ^ m" for c
    proof -
      have "2 ^ m * (u + 2 * v) = 2 ^ m * u + 2 ^ Suc m * v" for u v :: nat by (simp add: algebra_simps)
      from this [of "c mod 2" "c div 2"]
      have "2 ^ m * c + t mod 2 ^ m = (2 ^ m * (c mod 2) + t mod 2 ^ m) + 2 ^ Suc m * (c div 2)" by simp
      moreover have "2 ^ m * (c mod 2) + t mod 2 ^ m < 2 ^ Suc m"
      proof -
        have "t mod 2 ^ m < 2 ^ m" by simp
        moreover have "2 ^ m * (c mod 2) \<le> 2 ^ m * 1" by (intro mult_le_mono2) simp
        ultimately show ?thesis unfolding power_Suc by linarith
      qed
      ultimately show ?thesis by (metis mod_less mod_mult_self2)
    qed
    have "(y + 2 ^ m) = 2 ^ m * (a + 1) + t mod 2 ^ m" using y by (simp add: algebra_simps)
    then have "(y + 2 ^ m) mod 2 ^ Suc m = 2 ^ m * ((a + 1) mod 2) + t mod 2 ^ m" by (simp only: e)
    moreover have "y mod 2 ^ Suc m = 2 ^ m * (a mod 2) + t mod 2 ^ m" using e [of a] y by simp
    moreover have "t mod 2 ^ Suc m = 2 ^ m * (b mod 2) + t mod 2 ^ m" using e [of b] t by simp
    moreover have "a mod 2 = b mod 2 \<or> (a + 1) mod 2 = b mod 2" by presburger
    ultimately show ?thesis by metis
  qed
  ultimately show ?case unfolding y_def by metis
qed

text \<open>The next state, whatever the number of bits that are drawn, and that every state is reached.\<close>

definition adv :: "fast_random \<Rightarrow> fast_random" where
  "adv s = snd (next_bits 8 s)"

lemma snd_next_bits [simp]: "snd (next_bits bits s) = adv s"
  by (simp add: adv_def next_bits_def Let_def)

lemma unat_adv: "unat (adv s) = lcg (unat s)"
  using next_bits_lcg(1) [of 8 s] by simp

lemma unat_adv_funpow: "0 < n \<Longrightarrow> unat ((adv ^^ n) s) = (lin ^^ n) (unat s) mod 2 ^ 48"
proof (induction n)
  case (Suc n)
  have l: "lcg y = lin y mod 2 ^ 48" for y by (simp add: lcg_def lin_def)
  show ?case
  proof (cases "n = 0")
    case False
    then show ?thesis using Suc lcg_lin [of 1 "(lin ^^ n) (unat s)"] by (simp add: unat_adv)
  qed (simp add: unat_adv l)
qed simp

lemma adv_reaches:
  assumes "unat s mod 2 ^ j = t mod 2 ^ j" "t < 2 ^ 48" "j \<le> 48"
  shows "\<exists>n. unat ((adv ^^ (Suc n * 2 ^ j)) s) = t"
proof -
  obtain p q where h: "(lin ^^ (2 ^ j)) (unat s) = (1 + 2 ^ (j + 2) * p) * unat s + 2 ^ j * (2 * q + 1)"
    using lin_power [of j] by blast
  have "(lin ^^ (2 ^ j)) (unat s) = unat s + 2 ^ j * (4 * p * unat s + (2 * q + 1))"
    unfolding h by (simp add: algebra_simps power_add)
  then have "(lin ^^ (2 ^ j)) (unat s) mod 2 ^ j = t mod 2 ^ j" using assms(1) by (metis mod_mult_self2)
  from lin_reaches [OF this assms(3)] obtain n where
    n: "(lin ^^ (n * 2 ^ j)) ((lin ^^ (2 ^ j)) (unat s)) mod 2 ^ 48 = t mod 2 ^ 48" by blast
  have "Suc n * 2 ^ j = n * 2 ^ j + 2 ^ j" by simp
  then have "unat ((adv ^^ (Suc n * 2 ^ j)) s) = t"
    using n assms(2) unat_adv_funpow [of "Suc n * 2 ^ j" s] by (simp only: funpow_add comp_apply) simp
  then show ?thesis by blast
qed

section \<open>Uniform draws\<close>

text \<open>
  The first number \<open>next_uniform\<close> draws has 26 bits, the second 27. When the first is the largest, the second is not
  one of the seven largest: the multiple \<open>2522847\<close> of the generator's factor is small modulo \<open>2 ^ 48\<close>, so the states in
  question would give a multiple of \<open>2 ^ 48\<close> in an interval that has none.
\<close>

lemma lcg_not_top:
  fixes x y K :: int
  assumes "0 \<le> x" "x < 2 ^ 22" "0 \<le> y" "y < 7 * 2 ^ 21"
  shows "((2 ^ 26 - 1) * 2 ^ 22 + x) * 0x5DEECE66D + 0xB \<noteq> (2 ^ 27 - 7) * 2 ^ 21 + y + 2 ^ 48 * K"
proof
  assume e: "((2 ^ 26 - 1) * 2 ^ 22 + x) * 0x5DEECE66D + 0xB = (2 ^ 27 - 7) * 2 ^ 21 + y + 2 ^ 48 * K"
  define Z where "Z = 2522847 * K - 226 * ((2 ^ 26 - 1) * 2 ^ 22 + x)"
  have "2522847 * (((2 ^ 26 - 1) * 2 ^ 22 + x) * 0x5DEECE66D + 0xB) = 2522847 * ((2 ^ 27 - 7) * 2 ^ 21 + y + 2 ^ 48 * K)"
    using e by simp
  then have "2 ^ 48 * Z = - 34316557 * ((2 ^ 26 - 1) * 2 ^ 22 + x) + 2522847 * 0xB - 2522847 * ((2 ^ 27 - 7) * 2 ^ 21 + y)"
    unfolding Z_def by (simp add: algebra_simps)
  then have z: "281474976710656 * Z + 34316557 * x + 2522847 * y =
      - 34316557 * ((2 ^ 26 - 1) * 2 ^ 22) + 2522847 * 0xB - 2522847 * ((2 ^ 27 - 7) * 2 ^ 21)" by simp
  have "Z \<le> - 36839404 \<or> - 36839403 \<le> Z" by linarith
  then show False using z assms by (elim disjE) simp_all
qed

lemma draws_not_top:
  assumes "next_bits 26 s = (a, s1)" "next_bits 27 s1 = (b, s2)"
  shows "unat a * 2 ^ 27 + unat b \<le> 2 ^ 53 - 8"
proof -
  have s1: "s1 = adv s" using snd_next_bits [of 26 s] assms(1) by simp
  define X Y where "X = lcg (unat s)" and "Y = lcg X"
  have a: "unat a = X div 2 ^ 22" using next_bits_lcg(2) [of 26 s] assms(1) by (simp add: X_def)
  have b: "unat b = Y div 2 ^ 21" using next_bits_lcg(2) [of 27 s1] assms(2) by (simp add: Y_def X_def s1 unat_adv)
  have X: "X < 2 ^ 48" and Y: "Y < 2 ^ 48" by (simp_all add: X_def Y_def lcg_def)
  obtain K where K: "X * 0x5DEECE66D + 0xB = Y + 2 ^ 48 * K"
    by (metis Y_def lcg_def mod_mult_div_eq)
  have False if "2 ^ 53 - 8 < unat a * 2 ^ 27 + unat b"
  proof -
    have ab: "unat a < 2 ^ 26" "unat b < 2 ^ 27" using X Y by (simp_all add: a b less_mult_imp_div_less)
    then have a1: "unat a = 2 ^ 26 - 1" using that by simp
    then have b1: "2 ^ 27 - 7 \<le> unat b" using that by simp
    define x y where "x = int X - (2 ^ 26 - 1) * 2 ^ 22" and "y = int Y - (2 ^ 27 - 7) * 2 ^ 21"
    have "(2 ^ 26 - 1) * 2 ^ 22 \<le> X" using a1 a by simp
    moreover have "(2 ^ 27 - 7) * 2 ^ 21 \<le> Y" using b1 b by simp
    ultimately have "0 \<le> x" "x < 2 ^ 22" "0 \<le> y" "y < 7 * 2 ^ 21" using X Y by (simp_all add: x_def y_def)
    moreover have "int (X * 0x5DEECE66D + 0xB) = int (Y + 2 ^ 48 * K)" using K by simp
    ultimately show False using lcg_not_top [of x y "int K"] by (simp add: x_def y_def)
  qed
  then show ?thesis by (meson not_le)
qed

lemma next_uniform_grid: "\<exists>k. next_uniform s = (Fin (of_int k / 2 ^ 53), adv (adv s)) \<and> 0 \<le> k \<and> k \<le> 2 ^ 53 - 8 \<and>
    k div 2 ^ 27 = int (lcg (unat s) div 2 ^ 22)"
proof -
  obtain a s1 where a: "next_bits 26 s = (a, s1)" by (cases "next_bits 26 s")
  obtain b s2 where b: "next_bits 27 s1 = (b, s2)" by (cases "next_bits 27 s1")
  have s2: "s2 = adv (adv s)" using snd_next_bits [of 26 s] snd_next_bits [of 27 s1] unfolding a b by simp
  define w where "w = push_bit 27 a + b"
  have "push_bit 27 a = a * of_nat (2 ^ 27)" by (simp add: push_bit_eq_mult)
  then have "w = of_nat (unat a * 2 ^ 27 + unat b)" by (simp add: w_def)
  then have "unat w = (unat a * 2 ^ 27 + unat b) mod 2 ^ 64" by (simp only: unat_of_nat) simp
  moreover have lt: "unat a * 2 ^ 27 + unat b \<le> 2 ^ 53 - 8" by (rule draws_not_top [OF a b])
  ultimately have uw: "unat w = unat a * 2 ^ 27 + unat b" by simp
  then have "unat w \<le> 2 ^ 53 - 8" using lt by simp
  then have "int (unat w) \<le> int (2 ^ 53 - 8)" by (simp only: of_nat_le_iff)
  then have u: "0 \<le> uint w" "uint w \<le> 2 ^ 53 - 8" unfolding uint_nat by simp_all
  have d: "double_of_u64 w = Fin (of_int (uint w))" "double_of_int (2 ^ 53) = Fin (2 ^ 53)"
    using to_double_int [of "uint w"] to_double_int [of "2 ^ 53"] u
    by (simp_all add: double_of_u64_def double_of_int_def)
  have "(of_int (uint w) :: rat) \<le> of_int (2 ^ 53)" using u(2) by (simp only: of_int_le_iff)
  moreover have "(0 :: rat) \<le> of_int (uint w)" using u(1) by (simp only: of_int_0_le_iff)
  ultimately have "of_int (uint w) / 2 ^ 53 \<le> (1 :: rat)" "0 \<le> (of_int (uint w) / 2 ^ 53 :: rat)" by simp_all
  moreover have "rnd (of_int (uint w) / 2 ^ 53) = of_int (uint w) / 2 ^ 53" by (rule rnd_unit) (use u in simp_all)
  ultimately have "to_double (of_int (uint w) / 2 ^ 53) = Fin (of_int (uint w) / 2 ^ 53)"
    by (subst to_double_small) simp_all
  then have nu: "next_uniform s = (Fin (of_int (uint w) / 2 ^ 53), adv (adv s))"
    using d by (simp add: next_uniform_def a b w_def [symmetric] s2)
  have "unat b < 2 ^ 27" using next_bits_range [of 27 s1] b by simp
  then have "unat w div 2 ^ 27 = unat a" using uw by simp
  moreover have "unat a = lcg (unat s) div 2 ^ 22" using next_bits_lcg(2) [of 26 s] unfolding a by simp
  moreover have "int (unat w) div 2 ^ 27 = int (unat w div 2 ^ 27)" by (simp only: of_nat_div of_nat_power of_nat_numeral)
  ultimately have "uint w div 2 ^ 27 = int (lcg (unat s) div 2 ^ 22)" by (simp only: uint_nat)
  then show ?thesis using u nu by blast
qed

section \<open>Numbers in a range\<close>

text \<open>
  \<open>CheckBetweenInclusive\<close> checks only in builds with \<open>CHECK_INVARIANTS\<close>; here it always checks, and the theorems show
  that it passes, so that both builds agree.
\<close>

definition CheckBetweenInclusive :: "int \<Rightarrow> int \<Rightarrow> int \<Rightarrow> int res" where
  "CheckBetweenInclusive v lower upper = assert_res ''v >= lower && v <= upper'' (lower \<le> v \<and> v \<le> upper) v"

definition RandomNumber :: "fast_random \<Rightarrow> int \<Rightarrow> int \<Rightarrow> (int \<times> fast_random) res" where
  "RandomNumber r mn mx =
     (let (u, r') = next_uniform r
      in bind_res (i32_of_double (add_double (mult_double u (double_of_int (mx - mn + 1))) (double_of_int mn)))
           (\<lambda>v. bind_res (CheckBetweenInclusive v mn mx) (\<lambda>v. Inr (v, r'))))"

definition NonUniformRandom :: "fast_random \<Rightarrow> int \<Rightarrow> int \<Rightarrow> int \<Rightarrow> int \<Rightarrow> (int \<times> fast_random) res" where
  "NonUniformRandom r A C mn mx =
     bind_res (RandomNumber r 0 A) (\<lambda>(a, r1). bind_res (RandomNumber r1 mn mx) (\<lambda>(b, r2).
       Inr (((a OR b) + C) mod (mx - mn + 1) + mn, r2)))"

lemma rnd_grid:
  assumes "0 \<le> m" "of_int m * pow2 j < pow2 (j + 53)" "- 1074 \<le> j"
  shows "rnd (of_int m * pow2 j) = of_int m * pow2 j"
proof (cases "m = 0")
  case False
  let ?x = "of_int m * pow2 j"
  have pos: "0 < ?x" using assms(1) False by simp
  have "ilog2 ?x < j + 53"
    using ilog2_bounds [OF pos] assms(2) pow2_less_iff [of "ilog2 ?x" "j + 53"] by linarith
  then have "ulp_exp ?x \<le> j" using pos assms(3) by (simp add: ulp_exp_def)
  from of_int_mult_pow2_div [OF this, of m] show ?thesis
    by (intro rnd_fixed [of _ "m * 2 ^ nat (j - ulp_exp ?x)"])
qed simp

text \<open>An integer below \<open>2 ^ (e + 3)\<close>, less eight half units of the numbers at \<open>2 ^ e\<close>, is a double.\<close>

lemma rnd_below_int:
  assumes "1 \<le> n" "n \<le> 2 ^ (e + 3)" "e \<le> 50"
  shows "rnd (of_int n - 2 ^ e / 2 ^ 50) = of_int n - 2 ^ e / 2 ^ 50"
proof -
  have p: "pow2 (int e - 50) = 2 ^ e / 2 ^ 50" by (simp add: pow2_diff) (simp add: pow2_def)
  have "pow2 (50 - int e) * pow2 (int e - 50) = 1" by (simp flip: pow2_add)
  moreover have "pow2 (50 - int e) = of_int (2 ^ (50 - e))" using assms(3) by (simp add: pow2_def nat_diff_distrib)
  ultimately have n: "of_int n - 2 ^ e / 2 ^ 50 = of_int (n * 2 ^ (50 - e) - 1) * pow2 (int e - 50)"
    by (simp add: p left_diff_distrib mult.assoc)
  have "1 * 1 \<le> n * 2 ^ (50 - e)" using assms(1) by (intro mult_mono) simp_all
  then have "0 \<le> n * 2 ^ (50 - e) - 1" by simp
  moreover have "of_int n - 2 ^ e / 2 ^ 50 < pow2 (int e - 50 + 53)"
  proof -
    have "(of_int n :: rat) \<le> of_int (2 ^ (e + 3))" using assms(2) by (simp only: of_int_le_iff)
    moreover have "pow2 (int e - 50 + 53) = 2 ^ (e + 3)" by (simp add: pow2_def nat_add_distrib)
    moreover have "(0::rat) < 2 ^ e / 2 ^ 50" by simp
    ultimately show ?thesis by (simp only: of_int_power of_int_numeral)
  qed
  ultimately show ?thesis unfolding n by (intro rnd_grid) simp_all
qed

lemma RandomNumber_value:
  fixes k :: int
  assumes "0 \<le> mn" "2 ^ e \<le> mx - mn + 1" "mx + 1 \<le> 2 ^ (e + 3)" "e \<le> 27"
    and k: "next_uniform r = (Fin (of_int k / 2 ^ 53), r')" "0 \<le> k" "k \<le> 2 ^ 53 - 8"
  defines "v \<equiv> \<lfloor>rnd (rnd (of_int k / 2 ^ 53 * of_int (mx - mn + 1)) + of_int mn)\<rfloor>"
  shows "RandomNumber r mn mx = Inr (v, r')" "mn \<le> v" "v \<le> mx"
proof -
  define n where "n = mx - mn + 1"
  define h :: rat where "h = 2 ^ e / 2 ^ 50"
  define x where "x = of_int k / 2 ^ 53 * (of_int n :: rat)"
  have e1: "(1::int) \<le> 2 ^ e" by simp
  have e30: "(2::int) ^ (e + 3) \<le> 2 ^ 30" using assms(4) by (intro power_increasing) auto
  have n: "1 \<le> n" "n \<le> 2 ^ (e + 3)" "n \<le> 2 ^ 30" using assms(1-3) e1 e30 unfolding n_def by linarith+
  have h: "0 < h" by (simp add: h_def)
  have x0: "0 \<le> x" using k n by (simp add: x_def)
  have xn: "x \<le> of_int n - h"
  proof -
    have "(of_int k :: rat) \<le> of_int (2 ^ 53 - 8)" using k(3) by (simp only: of_int_le_iff)
    then have "of_int k * of_int n \<le> (2 ^ 53 - 8) * (of_int n :: rat)" using n(1) by (intro mult_right_mono) simp_all
    moreover have "(of_int (2 ^ e) :: rat) \<le> of_int n" using assms(2) by (simp only: of_int_le_iff n_def)
    then have "(2 :: rat) ^ e \<le> of_int n" by (simp only: of_int_power of_int_numeral)
    moreover have "A + 8 * C \<le> B * 2 ^ 53" if "A \<le> (2 ^ 53 - 8) * B" "C \<le> B" for A B C :: rat
      using that by (simp add: algebra_simps)
    ultimately have "of_int k * of_int n + 8 * 2 ^ e \<le> (of_int n * 2 ^ 53 :: rat)" by blast
    then show ?thesis by (simp add: x_def h_def field_simps)
  qed
  have below: "rnd (of_int m - h) = of_int m - h" if "1 \<le> m" "m \<le> 2 ^ (e + 3)" for m
    unfolding h_def using that assms(4) by (intro rnd_below_int) simp_all
  have "rnd x \<le> of_int n - h" using rnd_mono [OF x0 xn] by (simp only: below [OF n(1,2)])
  moreover have r0: "0 \<le> rnd x" using x0 by (rule rnd_nonneg)
  moreover define y where "y = rnd x + of_int mn"
  ultimately have y: "of_int mn \<le> y" "y \<le> of_int (mx + 1) - h" by (simp_all add: n_def)
  have mx: "1 \<le> mx + 1" "mx + 1 \<le> 2 ^ 30" using assms(1-3) e1 e30 by linarith+
  have y0: "0 \<le> y" using r0 assms(1) by (simp add: y_def)
  have "rnd y \<le> of_int (mx + 1) - h"
    using rnd_mono [OF y0 y(2)] by (simp only: below [OF mx(1) assms(3)])
  then have up: "rnd y < of_int (mx + 1)" using h by linarith
  have "(2 :: int) ^ 30 \<le> 2 ^ 53" by simp
  then have "mn \<le> 2 ^ 53" using assms(1,2) e1 mx by linarith
  then have "rnd (of_int mn) = (of_int mn :: rat)" using assms(1) by (rule_tac rnd_small_int)
  then have lo: "of_int mn \<le> rnd y" using rnd_mono [of "of_int mn" y] y(1) assms(1) by simp
  have big: "(of_int m :: rat) \<le> 2 ^ 65" if "m \<le> 2 ^ 30" for m
  proof -
    have "(of_int m :: rat) \<le> of_int (2 ^ 30)" using that by (simp only: of_int_le_iff)
    then show ?thesis by simp
  qed
  have md: "mult_double (Fin (of_int k / 2 ^ 53)) (double_of_int n) = Fin (rnd x)"
    using to_double_int [of n] to_double_small [of x] n x0 xn h big [of n]
    by (simp add: double_of_int_def x_def)
  have ad: "add_double (Fin (rnd x)) (double_of_int mn) = Fin (rnd y)"
    using to_double_int [of mn] to_double_small [of y] \<open>mn \<le> 2 ^ 53\<close> assms(1) y0 y(2) h big [of "mx + 1"] mx
    by (simp add: double_of_int_def y_def)
  have "\<lfloor>rnd y\<rfloor> < mx + 1" using up by (simp only: floor_less_iff)
  then have fl: "mn \<le> \<lfloor>rnd y\<rfloor>" "\<lfloor>rnd y\<rfloor> \<le> mx" using lo by (simp_all add: le_floor_iff)
  have "0 \<le> rnd y" using y0 by (rule rnd_nonneg)
  then have "trunc_rat (rnd y) = \<lfloor>rnd y\<rfloor>" by (simp add: trunc_rat_def)
  moreover have "(2 :: int) ^ 30 < 2 ^ 31" "- (2 ^ 31) < (0 :: int)" by simp_all
  then have "- (2 ^ 31) \<le> \<lfloor>rnd y\<rfloor> \<and> \<lfloor>rnd y\<rfloor> < 2 ^ 31" using fl mx assms(1) by linarith
  ultimately have "i32_of_double (Fin (rnd y)) = Inr \<lfloor>rnd y\<rfloor>" by (simp only: i32_of_double.simps if_True simp_thms)
  moreover have v: "v = \<lfloor>rnd y\<rfloor>" by (simp only: v_def y_def x_def n_def)
  ultimately show "RandomNumber r mn mx = Inr (v, r')"
    using k(1) fl md ad by (simp add: RandomNumber_def CheckBetweenInclusive_def n_def)
  show "mn \<le> v" "v \<le> mx" using fl v by simp_all
qed

lemma RandomNumber_in:
  assumes "0 \<le> mn" "2 ^ e \<le> mx - mn + 1" "mx + 1 \<le> 2 ^ (e + 3)" "e \<le> 27"
  shows "\<exists>v. RandomNumber r mn mx = Inr (v, adv (adv r)) \<and> mn \<le> v \<and> v \<le> mx"
  using next_uniform_grid [of r] RandomNumber_value [OF assms] by blast

section \<open>Draws in sequence\<close>

text \<open>
  A computation that draws numbers: it gives a value and the generator's next state, or a fault, or it does not return.
  \<open>gives g P\<close> says that it returns from every state of the generator, without a fault, with a value that has \<open>P\<close>.
\<close>

type_synonym 'a gen = "fast_random \<Rightarrow> ('a \<times> fast_random) res option"

definition gret :: "'a \<Rightarrow> 'a gen" where
  "gret x r = Some (Inr (x, r))"

definition gbind :: "'a gen \<Rightarrow> ('a \<Rightarrow> 'b gen) \<Rightarrow> 'b gen" where
  "gbind g f r = (case g r of None \<Rightarrow> None | Some (Inl e) \<Rightarrow> Some (Inl e) | Some (Inr (x, r')) \<Rightarrow> f x r')"

definition gres :: "'a res \<Rightarrow> 'a gen" where
  "gres v r = Some (bind_res v (\<lambda>x. Inr (x, r)))"

definition gives :: "'a gen \<Rightarrow> ('a \<Rightarrow> bool) \<Rightarrow> bool" where
  "gives g P \<longleftrightarrow> (\<forall>r. \<exists>x r'. g r = Some (Inr (x, r')) \<and> P x)"

primrec grepeat :: "nat \<Rightarrow> 'a gen \<Rightarrow> 'a list gen" where
  "grepeat 0 g = gret []"
| "grepeat (Suc n) g = gbind g (\<lambda>x. gbind (grepeat n g) (\<lambda>xs. gret (x # xs)))"

named_theorems gives_intros

lemma gives_ret [gives_intros]: "P x \<Longrightarrow> gives (gret x) P"
  by (simp add: gives_def gret_def)

lemma gives_res: "v = Inr x \<Longrightarrow> P x \<Longrightarrow> gives (gres v) P"
  by (simp add: gives_def gres_def)

lemma gives_bind: "gives g P \<Longrightarrow> (\<And>x. P x \<Longrightarrow> gives (f x) Q) \<Longrightarrow> gives (gbind g f) Q"
  unfolding gives_def gbind_def by (fastforce split: option.split)

lemma gives_mono: "gives g P \<Longrightarrow> (\<And>x. P x \<Longrightarrow> Q x) \<Longrightarrow> gives g Q"
  unfolding gives_def by blast

lemma gives_if [gives_intros]: "(b \<Longrightarrow> gives g P) \<Longrightarrow> (\<not> b \<Longrightarrow> gives h P) \<Longrightarrow> gives (if b then g else h) P"
  by simp

lemma gives_run: "gives g P \<Longrightarrow> \<exists>x r'. g r = Some (Inr (x, r')) \<and> P x"
  by (simp add: gives_def)

lemma gives_returns: "gives g P \<Longrightarrow> g r = Some (Inr (x, r')) \<Longrightarrow> P x"
  unfolding gives_def by (erule allE [of _ r]) auto

lemma gives_repeat:
  assumes "gives g P"
  shows "gives (grepeat n g) (\<lambda>xs. length xs = n \<and> (\<forall>x \<in> set xs. P x))"
proof (induction n)
  case (Suc n)
  show ?case unfolding grepeat.simps
    by (rule gives_bind [OF assms], rule gives_bind [OF Suc]) (simp add: gives_ret)
qed (simp add: gives_ret)

section \<open>tpcc.cc: numbers and names\<close>

definition draw :: "int \<Rightarrow> int \<Rightarrow> int gen" where
  "draw mn mx r = Some (RandomNumber r mn mx)"

definition draw_nonuniform :: "int \<Rightarrow> int \<Rightarrow> int \<Rightarrow> int \<Rightarrow> int gen" where
  "draw_nonuniform A C mn mx r = Some (NonUniformRandom r A C mn mx)"

definition NumItems :: int where
  "NumItems = 100000"

definition NumDistrictsPerWarehouse :: int where
  "NumDistrictsPerWarehouse = 10"

definition NumCustomersPerDistrict :: int where
  "NumCustomersPerDistrict = 3000"

definition GetItemId :: "bool \<Rightarrow> int gen" where
  "GetItemId uniform_item_dist =
     gbind (if uniform_item_dist then draw 1 NumItems else draw_nonuniform 8191 7911 1 NumItems)
       (\<lambda>v. gres (CheckBetweenInclusive v 1 NumItems))"

definition GetCustomerId :: "int gen" where
  "GetCustomerId =
     gbind (draw_nonuniform 1023 259 1 NumCustomersPerDistrict)
       (\<lambda>v. gres (CheckBetweenInclusive v 1 NumCustomersPerDistrict))"

text \<open>A number of \<open>start \<le> x < end\<close>; the arguments are \<open>unsigned\<close>, \<open>next()\<close> has 64 bits.\<close>

definition PickWarehouseId :: "int \<Rightarrow> int \<Rightarrow> int gen" where
  "PickWarehouseId start end' r =
     (if end' - start = 1 then Some (Inr (start, r))
      else let (x, r') = next_ulong r in Some (Inr (uint x mod (end' - start) + start, r')))"

text \<open>The loop \<open>do \<dots> while (x == warehouse_id)\<close> of new orders and payments.\<close>

partial_function (option) other_warehouse :: "int \<Rightarrow> int \<Rightarrow> int gen" where
  "other_warehouse W w r =
     (case RandomNumber r 1 W of
        Inl e \<Rightarrow> Some (Inl e)
      | Inr (x, r') \<Rightarrow> if x = w then other_warehouse W w r' else Some (Inr (x, r')))"

declare other_warehouse.simps [code]

definition NameTokens :: "string list" where
  "NameTokens = [''BAR'', ''OUGHT'', ''ABLE'', ''PRI'', ''PRES'', ''ESE'', ''ANTI'', ''CALLY'', ''ATION'', ''EING'']"

definition name_token :: "int \<Rightarrow> string res" where
  "name_token i = (if 0 \<le> i \<and> i < int (length NameTokens) then Inr (NameTokens ! nat i) else Inl (Undefined ''NameTokens[]''))"

definition GetCustomerLastName :: "int \<Rightarrow> string res" where
  "GetCustomerLastName num =
     bind_res (name_token (num div 100)) (\<lambda>s0. bind_res (name_token (num div 10 mod 10)) (\<lambda>s1.
       bind_res (name_token (num mod 10)) (\<lambda>s2. Inr (s0 @ s1 @ s2))))"

definition GetNonUniformCustomerLastNameLoad :: "string gen" where
  "GetNonUniformCustomerLastNameLoad = gbind (draw_nonuniform 255 157 0 999) (\<lambda>n. gres (GetCustomerLastName n))"

definition GetNonUniformCustomerLastNameRun :: "string gen" where
  "GetNonUniformCustomerLastNameRun = gbind (draw_nonuniform 255 223 0 999) (\<lambda>n. gres (GetCustomerLastName n))"

definition isalnum :: "byte \<Rightarrow> bool" where
  "isalnum b \<longleftrightarrow> 48 \<le> b \<and> b \<le> 57 \<or> 65 \<le> b \<and> b \<le> 90 \<or> 97 \<le> b \<and> b \<le> 122"

text \<open>
  The inner loop of \<open>RandomStr\<close> draws characters until one is a letter or a digit. It ends because the generator reaches
  every state: the measure is the number of draws until the character is \<open>'0'\<close>.
\<close>

lemma next_char_value: "unat (fst (next_char s)) = lcg (unat s) div 2 ^ 40"
proof -
  have a: "unat (fst (next_bits 8 s)) = lcg (unat s) div 2 ^ 40" using next_bits_lcg(2) [of 8 s] by simp
  have b: "unat (fst (next_bits 8 s)) < 2 ^ 8" using next_bits_range [of 8 s] by simp
  then have "fst (next_bits 8 s) mod 256 = fst (next_bits 8 s)" by (simp add: word_unat_eq_iff unat_mod)
  then have "unat (fst (next_char s)) = take_bit 8 (unat (fst (next_bits 8 s)))"
    by (simp add: next_char_def case_prod_beta unsigned_ucast_eq)
  then show ?thesis using a b by (simp add: take_bit_nat_eq_self)
qed

lemma snd_next_char [simp]: "snd (next_char s) = adv s"
  by (simp add: next_char_def case_prod_beta)

lemma char_reached: "\<exists>n. fst (next_char ((adv ^^ n) s)) = 48"
proof -
  obtain n where n: "unat ((adv ^^ (Suc n * 2 ^ 0)) s) = 48 * 2 ^ 40" using adv_reaches [of s 0 "48 * 2 ^ 40"] by auto
  then have "lcg (unat ((adv ^^ n) s)) = 48 * 2 ^ 40" by (simp add: unat_adv)
  then have "unat (fst (next_char ((adv ^^ n) s))) = 48" by (simp add: next_char_value)
  then have "fst (next_char ((adv ^^ n) s)) = 48" by (simp add: word_unat_eq_iff)
  then show ?thesis by blast
qed

definition until_zero :: "fast_random \<Rightarrow> nat" where
  "until_zero s = (LEAST n. fst (next_char ((adv ^^ n) s)) = 48)"

lemma until_zero_decreases:
  assumes "fst (next_char s) \<noteq> 48"
  shows "until_zero (adv s) < until_zero s"
proof -
  define n where "n = until_zero s"
  have n: "fst (next_char ((adv ^^ n) s)) = 48" unfolding n_def until_zero_def by (rule LeastI_ex [OF char_reached])
  with assms obtain m where m: "n = Suc m" by (cases n) auto
  then have "fst (next_char ((adv ^^ m) (adv s))) = 48" using n by (simp add: funpow_swap1)
  then have "until_zero (adv s) \<le> m" unfolding until_zero_def by (rule Least_le)
  then show ?thesis using m n_def by simp
qed

function next_alnum :: "fast_random \<Rightarrow> byte \<times> fast_random" where
  "next_alnum r = (let (c, r') = next_char r in if isalnum c then (c, r') else next_alnum r')"
  by pat_completeness auto
termination
proof (relation "measure until_zero")
  fix r x c r'
  assume a: "x = next_char r" "(c, r') = x" "\<not> isalnum c"
  then have "next_char r = (c, r')" by simp
  then have "c = fst (next_char r)" "r' = adv r" using snd_next_char [of r] by simp_all
  moreover have "c \<noteq> 48" using a(3) by (auto simp: isalnum_def)
  ultimately show "(r', r) \<in> measure until_zero" using until_zero_decreases [of r] by simp
qed simp

declare next_alnum.simps [simp del]

text \<open>\<open>RandomStr\<close> gives one character less than asked for, as its comment says; \<open>RandomNStr\<close> gives digits.\<close>

primrec alnum_loop :: "nat \<Rightarrow> fast_random \<Rightarrow> string \<times> fast_random" where
  "alnum_loop 0 r = ([], r)"
| "alnum_loop (Suc n) r =
     (let (c, r1) = next_alnum r; (cs, r2) = alnum_loop n r1 in (char_of (unat c) # cs, r2))"

definition RandomStr :: "int \<Rightarrow> string gen" where
  "RandomStr len r = (if len = 0 then Some (Inr ([], r)) else Some (Inr (alnum_loop (nat (len - 1)) r)))"

primrec digit_loop :: "nat \<Rightarrow> fast_random \<Rightarrow> string \<times> fast_random" where
  "digit_loop 0 r = ([], r)"
| "digit_loop (Suc n) r =
     (let (x, r1) = next_ulong r; (cs, r2) = digit_loop n r1 in (char_of (48 + unat x mod 10) # cs, r2))"

definition RandomNStr :: "int \<Rightarrow> string gen" where
  "RandomNStr len r = Some (Inr (digit_loop (nat len) r))"

lemma next_alnum_isalnum: "isalnum (fst (next_alnum r))"
proof (induction r rule: next_alnum.induct)
  case (1 r)
  obtain c r' where n: "next_char r = (c, r')" by (cases "next_char r")
  then show ?case using 1 [of "(c, r')" c r'] by (subst next_alnum.simps) simp
qed

definition alnum_string :: "string \<Rightarrow> bool" where
  "alnum_string s \<longleftrightarrow> (\<forall>c \<in> set s. \<exists>b. isalnum b \<and> c = char_of (unat b))"

lemma alnum_loop_ok: "length (fst (alnum_loop n r)) = n \<and> alnum_string (fst (alnum_loop n r))"
proof (induction n arbitrary: r)
  case (Suc n)
  then show ?case using next_alnum_isalnum [of r] by (auto simp: case_prod_beta Let_def alnum_string_def)
qed (simp add: alnum_string_def)

lemma gives_RandomStr: "0 \<le> len \<Longrightarrow> gives (RandomStr len) (\<lambda>s. length s = nat (len - 1) \<and> alnum_string s)"
  unfolding gives_def RandomStr_def using alnum_loop_ok
  by (auto simp: alnum_string_def split: prod.split) (metis prod.exhaust_sel)+

lemma gives_RandomNStr: "gives (RandomNStr len) (\<lambda>s. length s = nat len)"
proof -
  have "length (fst (digit_loop n r)) = n" for n r
    by (induction n arbitrary: r) (auto simp: case_prod_beta Let_def)
  then show ?thesis unfolding gives_def RandomNStr_def by (metis prod.exhaust_sel)
qed

section \<open>Every draw returns and is in range\<close>

lemma gives_draw:
  assumes "0 \<le> mn" "2 ^ e \<le> mx - mn + 1" "mx + 1 \<le> 2 ^ (e + 3)" "e \<le> 27"
  shows "gives (draw mn mx) (\<lambda>v. mn \<le> v \<and> v \<le> mx)"
  unfolding gives_def draw_def using RandomNumber_in [OF assms] by blast

lemma gives_draw_nonuniform:
  assumes "gives (draw 0 A) (\<lambda>v. 0 \<le> v)" "gives (draw mn mx) (\<lambda>v. 0 \<le> v)" "mn \<le> mx"
  shows "gives (draw_nonuniform A C mn mx) (\<lambda>v. mn \<le> v \<and> v \<le> mx)"
proof -
  have "draw_nonuniform A C mn mx = gbind (draw 0 A) (\<lambda>a. gbind (draw mn mx) (\<lambda>b. gret (((a OR b) + C) mod (mx - mn + 1) + mn)))"
    by (auto simp: draw_nonuniform_def NonUniformRandom_def gbind_def draw_def gret_def fun_eq_iff bind_res.simps split: sum.split)
  moreover have "mn \<le> x mod (mx - mn + 1) + mn \<and> x mod (mx - mn + 1) + mn \<le> mx" for x
    using pos_mod_bound [of "mx - mn + 1" x] pos_mod_sign [of "mx - mn + 1" x] assms(3) by linarith
  ultimately show ?thesis
    by (simp only:) (rule gives_bind [OF assms(1)], rule gives_bind [OF assms(2)], rule gives_ret, blast)
qed

lemma gives_check: "lower \<le> v \<and> v \<le> upper \<Longrightarrow> gives (gres (CheckBetweenInclusive v lower upper)) (\<lambda>v. lower \<le> v \<and> v \<le> upper)"
  by (auto intro: gives_res simp: CheckBetweenInclusive_def)

lemma gives_draw_item:
  "gives (if u then draw 1 NumItems else draw_nonuniform 8191 7911 1 NumItems) (\<lambda>v. 1 \<le> v \<and> v \<le> NumItems)"
proof -
  have "gives (draw 1 NumItems) (\<lambda>v. 1 \<le> v \<and> v \<le> NumItems)" by (rule gives_draw [of _ 16]) (simp_all add: NumItems_def)
  moreover from this have "gives (draw_nonuniform 8191 7911 1 NumItems) (\<lambda>v. 1 \<le> v \<and> v \<le> NumItems)"
    by (intro gives_draw_nonuniform gives_mono [OF gives_draw [of 0 13 8191]]) (auto intro: gives_mono simp: NumItems_def)
  ultimately show ?thesis by simp
qed

lemma gives_GetItemId: "gives (GetItemId u) (\<lambda>v. 1 \<le> v \<and> v \<le> NumItems)"
  unfolding GetItemId_def by (rule gives_bind [OF gives_draw_item gives_check])

lemma gives_GetCustomerId: "gives GetCustomerId (\<lambda>v. 1 \<le> v \<and> v \<le> NumCustomersPerDistrict)"
proof -
  have "gives (draw 1 NumCustomersPerDistrict) (\<lambda>v. 1 \<le> v \<and> v \<le> NumCustomersPerDistrict)"
    by (rule gives_draw [of _ 11]) (simp_all add: NumCustomersPerDistrict_def)
  then have "gives (draw_nonuniform 1023 259 1 NumCustomersPerDistrict) (\<lambda>v. 1 \<le> v \<and> v \<le> NumCustomersPerDistrict)"
    by (intro gives_draw_nonuniform gives_mono [OF gives_draw [of 0 10 1023]])
      (auto intro: gives_mono simp: NumCustomersPerDistrict_def)
  then show ?thesis unfolding GetCustomerId_def by (rule gives_bind [OF _ gives_check])
qed

lemma gives_PickWarehouseId: "start < end' \<Longrightarrow> gives (PickWarehouseId start end') (\<lambda>w. start \<le> w \<and> w < end')"
  unfolding gives_def PickWarehouseId_def
  using pos_mod_bound [of "end' - start"] pos_mod_sign [of "end' - start"]
  by (auto simp: case_prod_beta Let_def less_diff_eq add.commute)

lemma name_token_ok:
  assumes "0 \<le> i" "i < 10"
  shows "\<exists>t. name_token i = Inr t \<and> t \<in> set NameTokens"
proof -
  have "length NameTokens = 10" by (simp add: NameTokens_def)
  then have "nat i < length NameTokens" using assms by simp
  then show ?thesis using assms \<open>length NameTokens = 10\<close> by (simp add: name_token_def)
qed

lemma last_name_ok:
  assumes "0 \<le> num" "num < 1000"
  shows "\<exists>s. GetCustomerLastName num = Inr s \<and> length s \<le> 15"
proof -
  have "num div 100 < 10" "num div 10 mod 10 < 10" "num mod 10 < 10" using assms by auto
  moreover have "0 \<le> num div 100" "0 \<le> num div 10 mod 10" "0 \<le> num mod 10" using assms by auto
  ultimately obtain a b c where t: "name_token (num div 100) = Inr a" "a \<in> set NameTokens"
      "name_token (num div 10 mod 10) = Inr b" "b \<in> set NameTokens" "name_token (num mod 10) = Inr c" "c \<in> set NameTokens"
    using name_token_ok by metis
  have "\<forall>t \<in> set NameTokens. length t \<le> 5" by (simp add: NameTokens_def)
  then have "length a \<le> 5" "length b \<le> 5" "length c \<le> 5" using t by blast+
  then have "length (a @ b @ c) \<le> 15" by simp
  then show ?thesis using t by (simp add: GetCustomerLastName_def)
qed

text \<open>What the name generators give: the name of some number below a thousand.\<close>

definition is_last_name :: "string \<Rightarrow> bool" where
  "is_last_name s \<longleftrightarrow> (\<exists>n. 0 \<le> n \<and> n < 1000 \<and> GetCustomerLastName n = Inr s)"

lemma gives_last_name: "gives (gbind (draw_nonuniform 255 C 0 999) (\<lambda>n. gres (GetCustomerLastName n))) is_last_name"
proof -
  have "gives (draw 0 999) (\<lambda>v. 0 \<le> v \<and> v \<le> 999)" by (rule gives_draw [of _ 9]) simp_all
  then have "gives (draw_nonuniform 255 C 0 999) (\<lambda>v. 0 \<le> v \<and> v \<le> 999)"
    by (intro gives_draw_nonuniform gives_mono [OF gives_draw [of 0 8 255]]) (auto intro: gives_mono)
  then show ?thesis
  proof (rule gives_bind)
    fix n :: int
    assume "0 \<le> n \<and> n \<le> 999"
    then have n: "0 \<le> n" "n < 1000" by auto
    then obtain s where "GetCustomerLastName n = Inr s" using last_name_ok by blast
    then show "gives (gres (GetCustomerLastName n)) is_last_name"
      using n by (intro gives_res) (auto simp: is_last_name_def)
  qed
qed

lemmas gives_LastNameLoad = gives_last_name [of 157, folded GetNonUniformCustomerLastNameLoad_def]
lemmas gives_LastNameRun = gives_last_name [of 223, folded GetNonUniformCustomerLastNameRun_def]

text \<open>The generator's smallest and largest draws give the first and the last number of a range.\<close>

lemma warehouse_exponent:
  fixes W :: int
  assumes "1 \<le> W" "W \<le> 2 ^ 25"
  obtains e where "2 ^ e \<le> W - 1 + 1" "W + 1 \<le> 2 ^ (e + 3)" "e \<le> 27"
proof -
  have "1 \<le> nat W" using assms(1) by simp
  then obtain e where e: "2 ^ e \<le> nat W" "nat W < 2 ^ (e + 1)" using ex_power_ivl1 [of 2 "nat W"] by blast
  then have "int (2 ^ e) \<le> W" "W < int (2 ^ (e + 1))" using assms by linarith+
  moreover have "(2::int) ^ e \<le> 2 ^ 25" using calculation assms by simp
  then have "e \<le> 25" by (simp only: power_increasing_iff)
  moreover have "W + 1 \<le> 2 ^ (e + 3)" using calculation by (simp add: power_add)
  ultimately show thesis using that [of e] by simp
qed

lemma RandomNumber_low:
  assumes "1 \<le> W" "W \<le> 2 ^ 25" "lcg (unat r) div 2 ^ 22 = 0"
  shows "RandomNumber r 1 W = Inr (1, adv (adv r))"
proof -
  obtain k where k: "next_uniform r = (Fin (of_int k / 2 ^ 53), adv (adv r))" "0 \<le> k" "k \<le> 2 ^ 53 - 8" "k div 2 ^ 27 = 0"
    using next_uniform_grid [of r] assms(3) by auto
  obtain e where e: "2 ^ e \<le> W - 1 + 1" "W + 1 \<le> 2 ^ (e + 3)" "e \<le> 27" using warehouse_exponent [OF assms(1,2)] .
  have k27: "k < 2 ^ 27" using k(2,4) by (smt (verit, best) div_pos_pos_trivial pos_imp_zdiv_pos_iff zero_less_power)
  define x where "x = of_int k / 2 ^ 53 * (of_int W :: rat)"
  note v = RandomNumber_value [OF zero_le_one e k(1-3), unfolded diff_add_cancel of_int_1, folded x_def]
  have "k * W \<le> 2 ^ 27 * 2 ^ 25" using k(2) k27 assms(1,2) by (intro mult_mono) simp_all
  then have "(of_int (k * W) :: rat) \<le> of_int (2 ^ 27 * 2 ^ 25)" by (simp only: of_int_le_iff)
  then have x: "0 \<le> x" "x \<le> 1 / 2" using k(2) assms(1) by (simp_all add: x_def mult.commute)
  have half: "rnd (1 / 2) = 1 / 2" using rnd_pow2 [of "- 1"] by (simp add: pow2_def)
  have r: "0 \<le> rnd x" "rnd x \<le> 1 / 2" using rnd_nonneg [OF x(1)] rnd_mono [OF x] by (simp_all add: half)
  have "rnd (3 / 2) = 3 / 2" using rnd_grid [of 3 "- 1"] by (simp add: pow2_def)
  then have "rnd (rnd x + 1) \<le> 3 / 2" using rnd_mono [of "rnd x + 1" "3 / 2"] r by simp
  then have "\<lfloor>rnd (rnd x + 1)\<rfloor> < 2" by (simp add: floor_less_iff)
  then have "\<lfloor>rnd (rnd x + 1)\<rfloor> = 1" using v(2) by linarith
  then show ?thesis using v(1) by (simp only:)
qed

lemma RandomNumber_high:
  assumes "1 \<le> W" "W \<le> 2 ^ 25" "lcg (unat r) div 2 ^ 22 = 2 ^ 26 - 1"
  shows "RandomNumber r 1 W = Inr (W, adv (adv r))"
proof -
  obtain k where k: "next_uniform r = (Fin (of_int k / 2 ^ 53), adv (adv r))" "0 \<le> k" "k \<le> 2 ^ 53 - 8"
      "k div 2 ^ 27 = 2 ^ 26 - 1"
    using next_uniform_grid [of r] assms(3) by auto
  obtain e where e: "2 ^ e \<le> W - 1 + 1" "W + 1 \<le> 2 ^ (e + 3)" "e \<le> 27" using warehouse_exponent [OF assms(1,2)] .
  define x where "x = of_int k / 2 ^ 53 * (of_int W :: rat)"
  note v = RandomNumber_value [OF zero_le_one e k(1-3), unfolded diff_add_cancel of_int_1, folded x_def]
  have "k div 2 ^ 27 * 2 ^ 27 \<le> k" by simp
  then have "(2 ^ 26 - 1) * 2 ^ 27 \<le> k" unfolding k(4) .
  then have "(2 ^ 26 - 1) * 2 ^ 27 * W \<le> k * W" using assms(1) by (intro mult_right_mono) simp_all
  then have "(of_int ((2 ^ 26 - 1) * 2 ^ 27 * W) :: rat) \<le> of_int (k * W)" by (simp only: of_int_le_iff)
  moreover have "(of_int W :: rat) \<le> of_int (2 ^ 25)" using assms(2) by (simp only: of_int_le_iff)
  ultimately have x: "of_int W - 1 / 2 \<le> x" by (simp add: x_def field_simps)
  have grid: "rnd (of_int m - 1 / 2) = of_int m - 1 / 2" if "1 \<le> m" "m \<le> 2 ^ 26" for m
  proof -
    have "(of_int m :: rat) \<le> of_int (2 ^ 26)" using that(2) by (simp only: of_int_le_iff)
    then have "of_int (2 * m - 1) * pow2 (- 1) < pow2 (- 1 + 53)" by (simp add: pow2_def)
    moreover have "of_int (2 * m - 1) * pow2 (- 1) = (of_int m - 1 / 2 :: rat)" by (simp add: pow2_def field_simps)
    ultimately show ?thesis using rnd_grid [of "2 * m - 1" "- 1"] that(1) by simp
  qed
  have "(of_int 1 :: rat) \<le> of_int W" using assms(1) by (simp only: of_int_le_iff)
  then have W: "(0 :: rat) \<le> of_int W - 1 / 2" unfolding of_int_1 by linarith
  have "of_int W - 1 / 2 \<le> rnd x" using rnd_mono [OF W x] grid [of W] assms(1,2) by simp
  then have "of_int (W + 1) - 1 / 2 \<le> rnd x + 1" by simp
  then have "of_int (W + 1) - 1 / 2 \<le> rnd (rnd x + 1)"
    using rnd_mono [of "of_int (W + 1) - 1 / 2" "rnd x + 1"] grid [of "W + 1"] assms(1,2) W by simp
  then have "W \<le> \<lfloor>rnd (rnd x + 1)\<rfloor>" by (simp add: le_floor_iff)
  then have "\<lfloor>rnd (rnd x + 1)\<rfloor> = W" using v(3) by linarith
  then show ?thesis using v(1) by (simp only:)
qed

lemma RandomNumber_warehouse:
  assumes "1 \<le> W" "W \<le> 2 ^ 25"
  shows "\<exists>v. RandomNumber r 1 W = Inr (v, adv (adv r)) \<and> 1 \<le> v \<and> v \<le> W"
  using warehouse_exponent [OF assms] RandomNumber_in [of 1] by (metis zero_le_one)

text \<open>One of the two is another warehouse, and the generator comes to it.\<close>

lemma other_reached:
  assumes "2 \<le> W" "W \<le> 2 ^ 25"
  shows "\<exists>n x. RandomNumber ((adv ^^ (2 * n)) r) 1 W = Inr (x, adv (adv ((adv ^^ (2 * n)) r))) \<and> x \<noteq> w"
proof -
  define c :: nat where "c = (if w = 1 then 2 ^ 26 - 1 else 0)"
  define t where "t = c * 2 ^ 22 + unat (adv r) mod 2"
  have t: "t < 2 ^ 48" "t div 2 ^ 22 = c" by (auto simp: t_def c_def)
  have "c * 2 ^ 22 = 2 * (c * 2 ^ 21)" by simp
  then have p: "unat (adv r) mod 2 ^ 1 = t mod 2 ^ 1" unfolding t_def by (metis mod_mod_trivial mod_mult_self4 power_one_right)
  obtain n where n: "unat ((adv ^^ (Suc n * 2 ^ 1)) (adv r)) = t" using adv_reaches [OF p t(1)] by auto
  define s where "s = (adv ^^ (2 * Suc n)) r"
  have "unat (adv s) = t" using n by (simp add: s_def funpow_swap1 mult.commute)
  then have "lcg (unat s) div 2 ^ 22 = c" using t(2) by (simp add: unat_adv)
  then have "\<exists>x. RandomNumber s 1 W = Inr (x, adv (adv s)) \<and> x \<noteq> w"
    using RandomNumber_low [of W s] RandomNumber_high [of W s] assms by (cases "w = 1") (simp_all add: c_def)
  then show ?thesis unfolding s_def by blast
qed

lemma other_warehouse_returns:
  assumes "1 \<le> W" "W \<le> 2 ^ 25"
    and "RandomNumber ((adv ^^ (2 * n)) r) 1 W = Inr (x, adv (adv ((adv ^^ (2 * n)) r)))" "x \<noteq> w"
  shows "\<exists>y r'. other_warehouse W w r = Some (Inr (y, r')) \<and> 1 \<le> y \<and> y \<le> W \<and> y \<noteq> w"
  using assms(3)
proof (induction n arbitrary: r)
  case 0
  then show ?case using RandomNumber_warehouse [OF assms(1,2), of r] assms(4)
    by (subst other_warehouse.simps) auto
next
  case (Suc n)
  obtain v where v: "RandomNumber r 1 W = Inr (v, adv (adv r))" "1 \<le> v" "v \<le> W"
    using RandomNumber_warehouse [OF assms(1,2)] by blast
  have "(adv ^^ (2 * Suc n)) r = (adv ^^ (2 * n)) (adv (adv r))" by (simp add: funpow_swap1)
  then have "\<exists>y r'. other_warehouse W w (adv (adv r)) = Some (Inr (y, r')) \<and> 1 \<le> y \<and> y \<le> W \<and> y \<noteq> w"
    using Suc.IH [of "adv (adv r)"] Suc.prems by (simp only:)
  then show ?case using v by (subst other_warehouse.simps) auto
qed

lemma gives_other_warehouse:
  assumes "2 \<le> W" "W \<le> 2 ^ 25"
  shows "gives (other_warehouse W w) (\<lambda>x. 1 \<le> x \<and> x \<le> W \<and> x \<noteq> w)"
proof -
  have "1 \<le> W" using assms(1) by simp
  from other_warehouse_returns [OF this assms(2)] show ?thesis
    unfolding gives_def using other_reached [OF assms] by blast
qed

end
