(* ===== verification/Silo_Record.thy ===== *)
theory Silo_Record
  imports Silo_Varint Silo_Util Masstree_Key
begin

unbundle bit_operations_syntax

text \<open>
  Records as bytes: the serializers of \<^verbatim>\<open>src/silo/record/serializer.h\<close> and the encoders the macro \<open>DO_STRUCT\<close> of
  \<^verbatim>\<open>src/silo/record/encoder.h\<close> makes for the keys and values of a table. \<open>USE_VARINT_ENCODING\<close> is defined, so
  32-bit fields of values have variable length; keys have fixed length and big-endian numbers, so that the order of the
  bytes is the order of the keys. A structure is the list of its fields, each with the serializer of its type.
\<close>

section \<open>serializer.h\<close>

text \<open>
  The instances of \<open>serializer\<close> for fields of values: \<open>uint32_t\<close> and \<open>int32_t\<close> compressed, and the plain copy of
  \<open>sizeof(T)\<close> bytes for every other type. An \<open>int32_t\<close> is the word with its bits.
\<close>

datatype ftype = F_u32 | F_i32 | F_raw nat

datatype fval = V32 u32 | VRaw "byte list"

definition zigzag_encode :: "u32 \<Rightarrow> u32" where
  "zigzag_encode v = push_bit 1 v XOR signed_drop_bit 31 v"

definition zigzag_decode :: "u32 \<Rightarrow> u32" where
  "zigzag_decode v = drop_bit 1 v XOR (- (v AND 1))"

definition raw_read :: "nat \<Rightarrow> byte list \<Rightarrow> (byte list \<times> byte list) res" where
  "raw_read n buf = (if length buf < n then Inl (Undefined ''*p'') else Inr (take n buf, drop n buf))"

fun ser_ok :: "ftype \<Rightarrow> fval \<Rightarrow> bool" where
  "ser_ok F_u32 (V32 w) = True"
| "ser_ok F_i32 (V32 w) = True"
| "ser_ok (F_raw n) (VRaw bs) = (length bs = n)"
| "ser_ok _ _ = False"

fun ser_write :: "ftype \<Rightarrow> fval \<Rightarrow> byte list" where
  "ser_write F_u32 (V32 w) = write_uvint32 w"
| "ser_write F_i32 (V32 w) = write_uvint32 (zigzag_encode w)"
| "ser_write (F_raw n) (VRaw bs) = bs"
| "ser_write _ _ = []"

fun ser_read :: "ftype \<Rightarrow> byte list \<Rightarrow> (fval \<times> byte list) res" where
  "ser_read F_u32 buf = bind_res (read_uvint32 buf) (\<lambda>(v, p). Inr (V32 v, p))"
| "ser_read F_i32 buf = bind_res (read_uvint32 buf) (\<lambda>(v, p). Inr (V32 (zigzag_decode v), p))"
| "ser_read (F_raw n) buf = bind_res (raw_read n buf) (\<lambda>(v, p). Inr (VRaw v, p))"

fun ser_failsafe_read :: "ftype \<Rightarrow> byte list \<Rightarrow> nat \<Rightarrow> (fval \<times> byte list) option res" where
  "ser_failsafe_read F_u32 buf nbytes =
     bind_res (failsafe_read_uvint32 buf nbytes) (\<lambda>r. Inr (map_option (\<lambda>(v, p). (V32 v, p)) r))"
| "ser_failsafe_read F_i32 buf nbytes =
     bind_res (failsafe_read_uvint32 buf nbytes) (\<lambda>r. Inr (map_option (\<lambda>(v, p). (V32 (zigzag_decode v), p)) r))"
| "ser_failsafe_read (F_raw n) buf nbytes =
     (if nbytes < n then Inr None else bind_res (raw_read n buf) (\<lambda>(v, p). Inr (Some (VRaw v, p))))"

fun ser_nbytes :: "ftype \<Rightarrow> fval \<Rightarrow> nat" where
  "ser_nbytes F_u32 (V32 w) = size_uvint32 w"
| "ser_nbytes F_i32 (V32 w) = size_uvint32 (zigzag_encode w)"
| "ser_nbytes (F_raw n) _ = n"
| "ser_nbytes _ _ = 0"

fun ser_skip :: "ftype \<Rightarrow> byte list \<Rightarrow> bool \<Rightarrow> (nat \<times> byte list) res" where
  "ser_skip (F_raw n) stream rawv =
     (if rawv then bind_res (raw_read n stream) (\<lambda>(v, p). Inr (n, v)) else Inr (n, []))"
| "ser_skip _ stream rawv = skip_uvint32 stream rawv"

fun ser_failsafe_skip :: "ftype \<Rightarrow> byte list \<Rightarrow> nat \<Rightarrow> bool \<Rightarrow> (nat \<times> byte list) res" where
  "ser_failsafe_skip (F_raw n) stream nbytes rawv =
     (if nbytes < n then Inr (0, [])
      else if rawv then bind_res (raw_read n stream) (\<lambda>(v, p). Inr (n, v)) else Inr (n, []))"
| "ser_failsafe_skip _ stream nbytes rawv = failsafe_skip_uvint32 stream nbytes rawv"

fun ser_max_nbytes :: "ftype \<Rightarrow> nat" where
  "ser_max_nbytes (F_raw n) = n"
| "ser_max_nbytes _ = 5"

section \<open>encoder.h: values\<close>

fun encode_write :: "ftype list \<Rightarrow> fval list \<Rightarrow> byte list" where
  "encode_write (f # fs) (v # vs) = ser_write f v @ encode_write fs vs"
| "encode_write _ _ = []"

fun encode_read :: "ftype list \<Rightarrow> byte list \<Rightarrow> (fval list \<times> byte list) res" where
  "encode_read [] buf = Inr ([], buf)"
| "encode_read (f # fs) buf =
     bind_res (ser_read f buf) (\<lambda>(v, p). bind_res (encode_read fs p) (\<lambda>(vs, q). Inr (v # vs, q)))"

text \<open>Reads the first \<open>prefix\<close> fields; the test comes after a field was read, so that it reads one in any case.\<close>

fun encode_prefix_read :: "ftype list \<Rightarrow> nat \<Rightarrow> byte list \<Rightarrow> fval list res" where
  "encode_prefix_read [] prefix buf = Inr []"
| "encode_prefix_read (f # fs) prefix buf =
     bind_res (ser_read f buf) (\<lambda>(v, p). if prefix \<le> 1 then Inr [v]
       else bind_res (encode_prefix_read fs (prefix - 1) p) (\<lambda>vs. Inr (v # vs)))"

fun encode_failsafe_read :: "ftype list \<Rightarrow> nat \<Rightarrow> byte list \<Rightarrow> fval list option res" where
  "encode_failsafe_read [] nbytes buf = Inr (Some [])"
| "encode_failsafe_read (f # fs) nbytes buf =
     bind_res (ser_failsafe_read f buf nbytes) (\<lambda>r. case r of None \<Rightarrow> Inr None
       | Some (v, p) \<Rightarrow>
           bind_res (encode_failsafe_read fs (nbytes - (length buf - length p)) p) (\<lambda>vs. Inr (map_option ((#) v) vs)))"

definition encode_nbytes :: "ftype list \<Rightarrow> fval list \<Rightarrow> nat" where
  "encode_nbytes fs vs = sum_list (map2 ser_nbytes fs vs)"

definition encode_max_nbytes :: "ftype list \<Rightarrow> nat" where
  "encode_max_nbytes fs = sum_list (map ser_max_nbytes fs)"

text \<open>The largest size of the first fields; \<open>None\<close> stands for the largest \<open>size_t\<close>, which it gives for all of them.\<close>

fun max_prefix_loop :: "ftype list \<Rightarrow> nat \<Rightarrow> nat" where
  "max_prefix_loop [] nfields = 0"
| "max_prefix_loop (f # fs) nfields = ser_max_nbytes f + (if nfields \<le> 1 then 0 else max_prefix_loop fs (nfields - 1))"

definition encode_max_nbytes_prefix :: "ftype list \<Rightarrow> nat \<Rightarrow> nat option" where
  "encode_max_nbytes_prefix fs nfields = (if length fs \<le> nfields then None else Some (max_prefix_loop fs nfields))"

section \<open>encoder.h: keys\<close>

datatype kval = K32 u32 | KStr "byte list"

fun key_field_write :: "kval \<Rightarrow> byte list" where
  "key_field_write (K32 w) = le_bytes 4 (host_endian_trfm 4 w)"
| "key_field_write (KStr bs) = bs"

definition key_write :: "kval list \<Rightarrow> byte list" where
  "key_write kvs = concat (map key_field_write kvs)"

fun key_read :: "kval list \<Rightarrow> byte list \<Rightarrow> (kval list \<times> byte list) res" where
  "key_read [] buf = Inr ([], buf)"
| "key_read (k # kvs) buf =
     bind_res (raw_read (length (key_field_write k)) buf) (\<lambda>(b, p).
       bind_res (key_read kvs p) (\<lambda>(vs, q).
         Inr ((case k of K32 _ \<Rightarrow> K32 (big_endian_trfm 4 (le_word b)) | KStr _ \<Rightarrow> KStr b) # vs, q)))"

section \<open>Round trips\<close>

lemma zigzag_roundtrip: "zigzag_decode (zigzag_encode v) = v"
proof (rule bit_word_eqI)
  fix n
  assume n: "n < LENGTH(32)"
  have s: "bit (signed_drop_bit 31 v) m \<longleftrightarrow> bit v 31" if "m < 32" for m
    using that by (cases m) (simp_all add: bit_signed_drop_bit_iff)
  have e: "bit (zigzag_encode v) m \<longleftrightarrow> (1 \<le> m \<and> bit v (m - 1)) \<noteq> bit v 31" if "m < 32" for m
    unfolding zigzag_encode_def bit_xor_iff bit_push_bit_iff s [OF that] using that by auto
  have "zigzag_encode v AND 1 = (if bit v 31 then 1 else 0)"
    using e [of 0] by (intro bit_word_eqI) (auto simp: bit_and_iff bit_1_iff intro!: gr0I)
  then have d: "zigzag_decode (zigzag_encode v) = drop_bit 1 (zigzag_encode v) XOR (if bit v 31 then - 1 else 0)"
    by (simp add: zigzag_decode_def)
  have "bit (drop_bit 1 (zigzag_encode v)) n \<longleftrightarrow> n \<noteq> 31 \<and> bit v n \<noteq> bit v 31"
  proof (cases "n = 31")
    case True
    then show ?thesis using bit_imp_le_length [of "zigzag_encode v" 32] by (auto simp: bit_drop_bit_eq)
  next
    case False
    then show ?thesis using n e [of "1 + n"] unfolding bit_drop_bit_eq comp_def by simp
  qed
  then show "bit (zigzag_decode (zigzag_encode v)) n = bit v n"
    using n by (auto simp: d bit_xor_iff bit_minus_1_iff)
qed

lemma read_write_u32: "read_uvint32 (write_uvint32 v @ rest) = Inr (v, rest)"
  using read_write_steps [of v 0 rest 0] unsigned_less [of v] by (simp add: read_fast_slow read_uvint32_slow_def)

lemma ser_roundtrip: "ser_ok f v \<Longrightarrow> ser_read f (ser_write f v @ rest) = Inr (v, rest)"
  by (cases "(f, v)" rule: ser_ok.cases) (simp_all add: read_write_u32 zigzag_roundtrip raw_read_def)

lemma ser_length: "ser_ok f v \<Longrightarrow> length (ser_write f v) = ser_nbytes f v"
  by (cases "(f, v)" rule: ser_ok.cases) (simp_all add: write_length)

lemma ser_nbytes_le: "ser_ok f v \<Longrightarrow> ser_nbytes f v \<le> ser_max_nbytes f"
  by (cases "(f, v)" rule: ser_ok.cases) (simp_all add: size_uvint32_cases)

lemma uvint_bounded:
  "failsafe_read_uvint32 (write_uvint32 v @ rest) m = Inr (if m < size_uvint32 v then None else Some (v, rest))"
  "skip_uvint32 (write_uvint32 v @ rest) b = Inr (size_uvint32 v, if b then write_uvint32 v else [])"
proof -
  have "read_uvint32_steps 0 (write_uvint32 v @ rest) 0 = Inr (v, rest)"
    using read_write_steps [of v 0 rest 0] unsigned_less [of v] by simp
  from failsafe_of_read [OF this] obtain n where n: "write_uvint32 v @ rest = take n (write_uvint32 v @ rest) @ rest"
    "n \<le> length (write_uvint32 v @ rest)"
    "\<forall>m. failsafe_steps 0 m (write_uvint32 v @ rest) 0 = (if m < n then Inr None else Inr (Some (v, rest)))"
    "skip_steps 0 (write_uvint32 v @ rest) = Inr (n, take n (write_uvint32 v @ rest))" by auto
  have w: "take n (write_uvint32 v @ rest) = write_uvint32 v" using n(1) by (simp only: append_same_eq)
  have "length (take n (write_uvint32 v @ rest)) = n" using n(2) by simp
  then have "n = size_uvint32 v" by (simp only: w write_length)
  then show "failsafe_read_uvint32 (write_uvint32 v @ rest) m = Inr (if m < size_uvint32 v then None else Some (v, rest))"
    "skip_uvint32 (write_uvint32 v @ rest) b = Inr (size_uvint32 v, if b then write_uvint32 v else [])"
    using n(3,4) w by (simp_all add: failsafe_fast_slow failsafe_read_uvint32_slow_def skip_uvint32_def)
qed

lemma ser_failsafe:
  "ser_ok f v \<Longrightarrow> ser_failsafe_read f (ser_write f v @ rest) m = Inr (if m < ser_nbytes f v then None else Some (v, rest))"
  by (cases "(f, v)" rule: ser_ok.cases) (simp_all add: uvint_bounded zigzag_roundtrip raw_read_def)

lemma ser_skip_write:
  "ser_ok f v \<Longrightarrow> ser_skip f (ser_write f v @ rest) b = Inr (ser_nbytes f v, if b then ser_write f v else [])"
  by (cases "(f, v)" rule: ser_ok.cases) (simp_all add: uvint_bounded raw_read_def)

definition struct_ok :: "ftype list \<Rightarrow> fval list \<Rightarrow> bool" where
  "struct_ok fs vs \<longleftrightarrow> list_all2 ser_ok fs vs"

lemma encode_read_write: "struct_ok fs vs \<Longrightarrow> encode_read fs (encode_write fs vs @ rest) = Inr (vs, rest)"
  unfolding struct_ok_def by (induction rule: list_all2_induct) (simp_all add: ser_roundtrip)

lemma encode_length: "struct_ok fs vs \<Longrightarrow> length (encode_write fs vs) = encode_nbytes fs vs"
  unfolding struct_ok_def encode_nbytes_def by (induction rule: list_all2_induct) (simp_all add: ser_length)

lemma encode_nbytes_le: "struct_ok fs vs \<Longrightarrow> encode_nbytes fs vs \<le> encode_max_nbytes fs"
  unfolding struct_ok_def encode_nbytes_def encode_max_nbytes_def
  by (induction rule: list_all2_induct) (simp_all add: ser_nbytes_le add_le_mono)

text \<open>A prefix is read from the first bytes alone, as long as they are as many as \<open>encode_max_nbytes_prefix\<close> says.\<close>

lemma encode_prefix:
  assumes "struct_ok fs vs" "fs \<noteq> []"
    "length (encode_write fs vs) \<le> k \<or> max_prefix_loop fs p \<le> k"
  shows "encode_prefix_read fs p (take k (encode_write fs vs) @ junk) = Inr (take (max 1 p) vs)"
  using assms
proof (induction fs arbitrary: vs p k)
  case (Cons f fs)
  obtain v ws where vs: "vs = v # ws" "ser_ok f v" "struct_ok fs ws"
    using Cons.prems(1) by (cases vs) (auto simp: struct_ok_def)
  define a where "a = ser_write f v"
  define b where "b = encode_write fs ws"
  have ab: "encode_write (f # fs) vs = a @ b" by (simp add: vs a_def b_def)
  have la: "length a \<le> ser_max_nbytes f" using ser_length [OF vs(2)] ser_nbytes_le [OF vs(2)] by (simp add: a_def)
  have "length a \<le> k" using Cons.prems(3) la unfolding ab by (auto split: if_splits)
  then have t: "take k (a @ b) = a @ take (k - length a) b" by simp
  have r: "ser_read f (a @ take (k - length a) b @ junk) = Inr (v, take (k - length a) b @ junk)"
    unfolding a_def by (rule ser_roundtrip [OF vs(2)])
  show ?case
  proof (cases "p \<le> 1 \<or> fs = []")
    case True
    then have "ws = [] \<or> p \<le> 1" using vs(3) by (auto simp: struct_ok_def)
    then show ?thesis using r t True unfolding ab by (auto simp: vs max_def)
  next
    case False
    have "length b \<le> k - length a \<or> max_prefix_loop fs (p - 1) \<le> k - length a"
      using Cons.prems(3) False la unfolding ab by auto
    then have "encode_prefix_read fs (p - 1) (take (k - length a) b @ junk) = Inr (take (max 1 (p - 1)) ws)"
      using Cons.IH [OF vs(3), of "k - length a" "p - 1"] False unfolding b_def by blast
    then show ?thesis using r t False unfolding ab by (auto simp: vs max_def take_Cons' le_Suc_eq)
  qed
qed simp

lemma encode_failsafe:
  "struct_ok fs vs \<Longrightarrow>
   encode_failsafe_read fs m (encode_write fs vs @ rest) = Inr (if m < encode_nbytes fs vs then None else Some vs)"
  unfolding struct_ok_def encode_nbytes_def
proof (induction arbitrary: m rule: list_all2_induct)
  case (Cons f fs v vs)
  show ?case using Cons by (auto simp: ser_failsafe ser_length)
qed simp

section \<open>Order of keys\<close>

text \<open>Keys of one table: the same fields, character fields of the same length.\<close>

fun same_shape :: "kval \<Rightarrow> kval \<Rightarrow> bool" where
  "same_shape (K32 a) (K32 b) = True"
| "same_shape (KStr a) (KStr b) = (length a = length b)"
| "same_shape _ _ = False"

text \<open>The order the tables are meant to have: field by field, numbers as signed numbers, strings by their bytes.\<close>

fun key_less :: "kval list \<Rightarrow> kval list \<Rightarrow> bool" where
  "key_less (K32 a # as) (K32 b # bs) = (sint a < sint b \<or> a = b \<and> key_less as bs)"
| "key_less (KStr a # as) (KStr b # bs) = (a < b \<or> a = b \<and> key_less as bs)"
| "key_less _ _ = False"

fun key_nonneg :: "kval \<Rightarrow> bool" where
  "key_nonneg (K32 a) = (0 \<le> sint a)"
| "key_nonneg (KStr a) = True"

lemma append_less: "length xs = length ys \<Longrightarrow> xs @ as < ys @ bs \<longleftrightarrow> xs < ys \<or> xs = ys \<and> as < (bs :: 'a::linorder list)"
  by (induction xs ys rule: list_induct2) auto

lemma key_bytes: "key_field_write (K32 w) = rev (le_bytes 4 w)"
  using le_bytes_le_word [of "rev (le_bytes 4 w)", where 'a = 32] by (simp add: host_endian_trfm_def)

lemma le_nat_le_bytes: "le_nat (le_bytes n w) = unat w mod 256 ^ n" for w :: "32 word"
proof (induction n arbitrary: w)
  case (Suc n)
  have "unat (drop_bit 8 w) = unat w div 256"
  proof -
    have "unat w < 2 ^ 32" using unsigned_less [of w] by simp
    then show ?thesis using take_bit_nat_eq_self [of "unat w" 32] by (simp add: unsigned_drop_bit_eq drop_bit_nat_def)
  qed
  moreover have "unat (ucast w :: byte) = unat w mod 256" by (simp add: unsigned_ucast_eq take_bit_eq_mod)
  ultimately show ?case using Suc by (simp add: mod_mult2_eq)
qed simp

lemma be_nat_key: "be_nat (key_field_write (K32 w)) = unat w"
proof -
  have "unat w < 256 ^ 4" using unsigned_less [of w] by simp
  then show ?thesis by (simp add: key_bytes le_nat_le_bytes flip: le_nat_rev del: key_field_write.simps)
qed

lemma sint_nonneg: "0 \<le> sint w \<Longrightarrow> sint w = int (unat w)" for w :: "32 word"
  using take_bit_int_eq_self [of "sint w" 32] sint_lt [of w] by (simp add: uint_sint flip: uint_nat)

lemma key_field_order:
  assumes "0 \<le> sint a" "0 \<le> sint b"
  shows "key_field_write (K32 a) < key_field_write (K32 b) \<longleftrightarrow> sint a < sint b"
    "key_field_write (K32 a) = key_field_write (K32 b) \<longleftrightarrow> a = b"
proof -
  have l: "length (key_field_write (K32 a)) = length (key_field_write (K32 b))" by (simp add: key_bytes del: key_field_write.simps)
  show "key_field_write (K32 a) < key_field_write (K32 b) \<longleftrightarrow> sint a < sint b"
    using be_nat_order [OF l] assms by (simp only: be_nat_key sint_nonneg of_nat_less_iff)
  show "key_field_write (K32 a) = key_field_write (K32 b) \<longleftrightarrow> a = b"
    using be_nat_inject [OF l] by (simp only: be_nat_key word_unat_eq_iff)
qed

lemma key_write_Cons [simp]: "key_write [] = []" "key_write (k # kvs) = key_field_write k @ key_write kvs"
  by (simp_all add: key_write_def)

lemma key_order_bytes:
  assumes "list_all2 same_shape kvs lvs" "list_all key_nonneg kvs" "list_all key_nonneg lvs"
  shows "key_write kvs < key_write lvs \<longleftrightarrow> key_less kvs lvs"
  using assms
proof (induction rule: list_all2_induct)
  case (Cons a as b bs)
  have "length (key_field_write a) = length (key_field_write b)"
    using Cons.hyps(1) by (cases "(a, b)" rule: same_shape.cases) simp_all
  then have "key_write (a # as) < key_write (b # bs) \<longleftrightarrow>
      key_field_write a < key_field_write b \<or> key_field_write a = key_field_write b \<and> key_write as < key_write bs"
    by (simp add: append_less)
  moreover have "key_write as < key_write bs \<longleftrightarrow> key_less as bs" using Cons by simp
  ultimately show ?case using Cons.hyps(1) Cons.prems
    by (cases "(a, b)" rule: same_shape.cases) (simp_all add: key_field_order del: key_field_write.simps(1))
qed simp

lemma key_roundtrip:
  assumes "list_all2 same_shape kvs lvs"
  shows "key_read lvs (key_write kvs @ rest) = Inr (kvs, rest)"
  using assms
proof (induction rule: list_all2_induct)
  case (Cons k kvs l lvs)
  have "big_endian_trfm 4 (le_word (key_field_write (K32 w))) = w" for w
    using endian_roundtrip [where 'a = 32, of 4 w]
    by (simp add: host_endian_trfm_def big_endian_trfm_def le_word_le_bytes_id)
  then show ?case using Cons by (cases "(k, l)" rule: same_shape.cases) (simp_all add: raw_read_def)
qed simp

section \<open>The properties\<close>

text \<open>
  C21. Encoding a value and decoding it gives it back and leaves what follows; the encoding has the size \<open>encode_nbytes\<close> tells,
  at most \<open>encode_max_nbytes\<close>; the bounded decoder gives the value when its bound covers the encoding and fails otherwise;
  and the first \<open>p\<close> fields are read from as many bytes as \<open>encode_max_nbytes_prefix\<close> asks for, whatever follows these.
\<close>

theorem record_roundtrip:
  assumes "struct_ok fs vs"
  shows "encode_read fs (encode_write fs vs @ rest) = Inr (vs, rest) \<and>
    length (encode_write fs vs) = encode_nbytes fs vs \<and> encode_nbytes fs vs \<le> encode_max_nbytes fs \<and>
    encode_failsafe_read fs m (encode_write fs vs @ rest) = Inr (if m < encode_nbytes fs vs then None else Some vs) \<and>
    (fs \<noteq> [] \<longrightarrow> (case encode_max_nbytes_prefix fs p of None \<Rightarrow> encode_nbytes fs vs \<le> k | Some n \<Rightarrow> n \<le> k) \<longrightarrow>
      encode_prefix_read fs p (take k (encode_write fs vs) @ junk) = Inr (take (max 1 p) vs))"
proof -
  have "encode_prefix_read fs p (take k (encode_write fs vs) @ junk) = Inr (take (max 1 p) vs)"
    if "fs \<noteq> []" "case encode_max_nbytes_prefix fs p of None \<Rightarrow> encode_nbytes fs vs \<le> k | Some n \<Rightarrow> n \<le> k"
    by (rule encode_prefix [OF assms that(1)]) (use that encode_length [OF assms] in \<open>auto simp: encode_max_nbytes_prefix_def split: if_splits\<close>)
  then show ?thesis
    using encode_read_write [OF assms] encode_length [OF assms] encode_nbytes_le [OF assms] encode_failsafe [OF assms] by simp
qed

theorem record_roundtrip_witness:
  "encode_read [F_i32, F_raw 2, F_u32] (encode_write [F_i32, F_raw 2, F_u32] [V32 (- 3), VRaw [7, 8], V32 300] @ [9]) =
     Inr ([V32 (- 3), VRaw [7, 8], V32 300], [9]) \<and>
   encode_prefix_read [F_i32, F_raw 2, F_u32] 1 (take 5 (encode_write [F_i32, F_raw 2, F_u32] [V32 (- 3), VRaw [7, 8], V32 300]) @ [1]) =
     Inr [V32 (- 3)]"
  using record_roundtrip [where fs = "[F_i32, F_raw 2, F_u32]" and vs = "[V32 (- 3), VRaw [7, 8], V32 300]" and rest = "[9]"
      and m = 0 and p = 1 and k = 5 and junk = "[1]"]
  by (simp add: struct_ok_def encode_max_nbytes_prefix_def del: encode_read.simps encode_prefix_read.simps encode_write.simps take_append)



end
