(* ===== verification/Silo_TpccDb.thy ===== *)
theory Silo_TpccDb
  imports Silo_Random Silo_Record Harness_Opt "HOL-Library.Product_Lexorder" "HOL-Library.Char_ord"
begin

text \<open>
  The TPC-C database, \<^verbatim>\<open>src/silo/benchmarks/tpcc.h\<close>: the values of the tables as records, the tables as ordered indexes
  with the operations of \<^verbatim>\<open>src/silo/benchmarks/abstract_ordered_index.h\<close>, the callbacks of the scans, and the checks of
  the class \<open>checker\<close> of \<^verbatim>\<open>src/silo/benchmarks/tpcc.cc\<close>. A key is the tuple of its fields, in the order of the structure:
  \<open>Silo_Record\<close> shows that the bytes of keys have this order. A table that is split by partitions is one table here, since
  the keys carry the warehouse. The theory ends with the contract of an ordered index, a locale, and the tables as its
  interpretation.
\<close>

section \<open>Single precision\<close>

text \<open>The C++ type \<open>float\<close>, as values of \<open>double\<close> rounded to 24 bits.\<close>

definition ulp32_exp :: "rat \<Rightarrow> int" where
  "ulp32_exp x = max (ilog2 \<bar>x\<bar> - 23) (- 149)"

definition rnd32 :: "rat \<Rightarrow> rat" where
  "rnd32 x = (if x = 0 then 0 else of_int (round_even (x / pow2 (ulp32_exp x))) * pow2 (ulp32_exp x))"

definition to_float :: "rat \<Rightarrow> double" where
  "to_float x = (let r = rnd32 x in if 2 ^ 128 \<le> r then PInf else if r \<le> - (2 ^ 128) then NInf else Fin r)"

fun float_of_double :: "double \<Rightarrow> double" where
  "float_of_double (Fin x) = to_float x"
| "float_of_double d = d"

definition float_of_int :: "int \<Rightarrow> double" where
  "float_of_int n = to_float (of_int n)"

fun add_float :: "double \<Rightarrow> double \<Rightarrow> double" where
  "add_float (Fin x) (Fin y) = to_float (x + y)"
| "add_float a b = add_double a b"

fun mult_float :: "double \<Rightarrow> double \<Rightarrow> double" where
  "mult_float (Fin x) (Fin y) = to_float (x * y)"
| "mult_float a b = mult_double a b"

definition le_double :: "double \<Rightarrow> double \<Rightarrow> bool" where
  "le_double a b \<longleftrightarrow> less_double a b \<or> (a = b \<and> a \<noteq> NaN)"

section \<open>tpcc.h\<close>

record customer_v =
  c_discount :: double
  c_credit :: string
  c_last :: string
  c_first :: string
  c_credit_lim :: double
  c_balance :: double
  c_ytd_payment :: double
  c_payment_cnt :: int
  c_delivery_cnt :: int
  c_street_1 :: string
  c_street_2 :: string
  c_city :: string
  c_state :: string
  c_zip :: string
  c_phone :: string
  c_since :: u32
  c_middle :: string
  c_data :: string

record district_v =
  d_ytd :: double
  d_tax :: double
  d_next_o_id :: int
  d_name :: string
  d_street_1 :: string
  d_street_2 :: string
  d_city :: string
  d_state :: string
  d_zip :: string

record history_v =
  h_amount :: double
  h_data :: string

record item_v =
  i_name :: string
  i_price :: double
  i_data :: string
  i_im_id :: int

record oorder_v =
  o_c_id :: int
  o_carrier_id :: int
  o_ol_cnt :: int
  o_all_local :: bool
  o_entry_d :: u32

record order_line_v =
  ol_i_id :: int
  ol_delivery_d :: u32
  ol_amount :: double
  ol_supply_w_id :: int
  ol_quantity :: int

record stock_v =
  s_quantity :: int
  s_ytd :: double
  s_order_cnt :: int
  s_remote_cnt :: int

record stock_data_v =
  s_data :: string
  s_dist_01 :: string
  s_dist_02 :: string
  s_dist_03 :: string
  s_dist_04 :: string
  s_dist_05 :: string
  s_dist_06 :: string
  s_dist_07 :: string
  s_dist_08 :: string
  s_dist_09 :: string
  s_dist_10 :: string

record warehouse_v =
  w_ytd :: double
  w_tax :: double
  w_name :: string
  w_street_1 :: string
  w_street_2 :: string
  w_city :: string
  w_state :: string
  w_zip :: string

section \<open>Ordered indexes\<close>

type_synonym ('k, 'v) table = "('k \<times> 'v) list"

record tpcc_db =
  customer :: "(int \<times> int \<times> int, customer_v) table"
  customer_name_idx :: "(int \<times> int \<times> string \<times> string, int) table"
  district :: "(int \<times> int, district_v) table"
  history :: "(int \<times> int \<times> int \<times> int \<times> int \<times> u32, history_v) table"
  item :: "(int, item_v) table"
  new_order :: "(int \<times> int \<times> int, string) table"
  oorder :: "(int \<times> int \<times> int, oorder_v) table"
  oorder_c_id_idx :: "(int \<times> int \<times> int \<times> int, int) table"
  order_line :: "(int \<times> int \<times> int \<times> int, order_line_v) table"
  stock :: "(int \<times> int, stock_v) table"
  stock_data :: "(int \<times> int, stock_data_v) table"
  warehouse :: "(int, warehouse_v) table"

definition empty_db :: tpcc_db where
  "empty_db = \<lparr>customer = [], customer_name_idx = [], district = [], history = [], item = [], new_order = [], oorder = [],
     oorder_c_id_idx = [], order_line = [], stock = [], stock_data = [], warehouse = []\<rparr>"

definition tbl_get :: "('k, 'v) table \<Rightarrow> 'k \<Rightarrow> 'v option" where
  "tbl_get t k = map_of t k"

text \<open>\<open>put\<close> overwrites a record or inserts one.\<close>

fun tbl_put :: "'k::linorder \<Rightarrow> 'v \<Rightarrow> ('k, 'v) table \<Rightarrow> ('k, 'v) table" where
  "tbl_put k v [] = [(k, v)]"
| "tbl_put k v ((k', v') # t) =
     (if k < k' then (k, v) # (k', v') # t else if k = k' then (k, v) # t else (k', v') # tbl_put k v t)"

text \<open>
  \<open>insert\<close> may only be called with a key that has no record, what it does otherwise is unspecified; here it is a fault.
\<close>

definition tbl_insert :: "'k::linorder \<Rightarrow> 'v \<Rightarrow> ('k, 'v) table \<Rightarrow> ('k, 'v) table res" where
  "tbl_insert k v t = (if tbl_get t k = None then Inr (tbl_put k v t) else Inl (Undefined ''insert of an existing key''))"

definition tbl_remove :: "'k \<Rightarrow> ('k, 'v) table \<Rightarrow> ('k, 'v) table" where
  "tbl_remove k t = filter (\<lambda>(k', _). k' \<noteq> k) t"

text \<open>The records a scan of \<open>[start_key, end_key)\<close> and a backward scan from \<open>start_key\<close> hand to the callback, in this order.\<close>

definition tbl_scan :: "'k::linorder \<Rightarrow> 'k \<Rightarrow> ('k, 'v) table \<Rightarrow> ('k \<times> 'v) list" where
  "tbl_scan start_key end_key t = filter (\<lambda>(k, _). start_key \<le> k \<and> k < end_key) t"

definition tbl_rscan :: "'k::linorder \<Rightarrow> ('k, 'v) table \<Rightarrow> ('k \<times> 'v) list" where
  "tbl_rscan start_key t = rev (filter (\<lambda>(k, _). k \<le> start_key) t)"

text \<open>A scan with a callback: \<open>invoke\<close> says whether to go on.\<close>

fun scan_loop :: "('k \<Rightarrow> 'v \<Rightarrow> 's \<Rightarrow> bool \<times> 's) \<Rightarrow> ('k \<times> 'v) list \<Rightarrow> 's \<Rightarrow> 's" where
  "scan_loop invoke [] s = s"
| "scan_loop invoke ((k, v) # es) s = (let (go_on, s') = invoke k v s in if go_on then scan_loop invoke es s' else s')"

text \<open>The callbacks of bench.h and tpcc.cc.\<close>

definition static_limit_callback :: "nat \<Rightarrow> 'k \<Rightarrow> 'v \<Rightarrow> ('k \<times> 'v) list \<Rightarrow> bool \<times> ('k \<times> 'v) list" where
  "static_limit_callback N k v values = (Suc (length values) < N, values @ [(k, v)])"

definition latest_key_callback :: "nat \<Rightarrow> 'k \<Rightarrow> 'v \<Rightarrow> 'k option \<times> nat \<Rightarrow> bool \<times> ('k option \<times> nat)" where
  "latest_key_callback limit k v s = (Suc (snd s) < limit, (Some k, Suc (snd s)))"

definition new_order_scan_callback :: "'k \<Rightarrow> 'v \<Rightarrow> 'k option \<Rightarrow> bool \<times> 'k option" where
  "new_order_scan_callback k v s = (False, Some k)"

definition order_line_nop_callback :: "'k \<Rightarrow> 'v \<Rightarrow> nat \<Rightarrow> bool \<times> nat" where
  "order_line_nop_callback k v n = (True, n + 1)"

definition order_line_scan_callback :: "'k \<Rightarrow> order_line_v \<Rightarrow> nat \<times> int list \<Rightarrow> bool \<times> nat \<times> int list" where
  "order_line_scan_callback k v s = (True, (fst s + 1, List.insert (ol_i_id v) (snd s)))"

section \<open>tpcc.cc: checks\<close>

text \<open>The argument \<open>W\<close> is \<open>NumWarehouses()\<close>.\<close>

definition SanityCheckCustomer :: "int \<Rightarrow> int \<times> int \<times> int \<Rightarrow> customer_v \<Rightarrow> bool" where
  "SanityCheckCustomer W k v \<longleftrightarrow> (case k of (w, d, c) \<Rightarrow>
     1 \<le> w \<and> w \<le> W \<and> 1 \<le> d \<and> d \<le> NumDistrictsPerWarehouse \<and> 1 \<le> c \<and> c \<le> NumCustomersPerDistrict) \<and>
     (c_credit v = ''BC'' \<or> c_credit v = ''GC'') \<and> c_middle v = ''OE''"

definition SanityCheckWarehouse :: "int \<Rightarrow> int \<Rightarrow> warehouse_v \<Rightarrow> bool" where
  "SanityCheckWarehouse W k v \<longleftrightarrow> 1 \<le> k \<and> k \<le> W \<and> length (w_state v) = 2 \<and> w_zip v = ''123456789''"

definition SanityCheckDistrict :: "int \<Rightarrow> int \<times> int \<Rightarrow> district_v \<Rightarrow> bool" where
  "SanityCheckDistrict W k v \<longleftrightarrow> (case k of (w, d) \<Rightarrow> 1 \<le> w \<and> w \<le> W \<and> 1 \<le> d \<and> d \<le> NumDistrictsPerWarehouse) \<and>
     3001 \<le> d_next_o_id v \<and> length (d_state v) = 2 \<and> d_zip v = ''123456789''"

definition SanityCheckItem :: "int \<Rightarrow> item_v \<Rightarrow> bool" where
  "SanityCheckItem k v \<longleftrightarrow> 1 \<le> k \<and> k \<le> NumItems \<and> le_double (Fin 1) (i_price v) \<and> le_double (i_price v) (Fin 100)"

definition SanityCheckStock :: "int \<Rightarrow> int \<times> int \<Rightarrow> stock_v \<Rightarrow> bool" where
  "SanityCheckStock W k v \<longleftrightarrow> (case k of (w, i) \<Rightarrow> 1 \<le> w \<and> w \<le> W \<and> 1 \<le> i \<and> i \<le> NumItems)"

definition SanityCheckNewOrder :: "int \<Rightarrow> int \<times> int \<times> int \<Rightarrow> bool" where
  "SanityCheckNewOrder W k \<longleftrightarrow> (case k of (w, d, _) \<Rightarrow> 1 \<le> w \<and> w \<le> W \<and> 1 \<le> d \<and> d \<le> NumDistrictsPerWarehouse)"

definition SanityCheckOOrder :: "int \<Rightarrow> int \<times> int \<times> int \<Rightarrow> oorder_v \<Rightarrow> bool" where
  "SanityCheckOOrder W k v \<longleftrightarrow> (case k of (w, d, _) \<Rightarrow> 1 \<le> w \<and> w \<le> W \<and> 1 \<le> d \<and> d \<le> NumDistrictsPerWarehouse) \<and>
     1 \<le> o_c_id v \<and> o_c_id v \<le> NumCustomersPerDistrict \<and> 0 \<le> o_carrier_id v \<and> o_carrier_id v \<le> NumDistrictsPerWarehouse \<and>
     5 \<le> o_ol_cnt v \<and> o_ol_cnt v \<le> 15"

definition SanityCheckOrderLine :: "int \<Rightarrow> int \<times> int \<times> int \<times> int \<Rightarrow> order_line_v \<Rightarrow> bool" where
  "SanityCheckOrderLine W k v \<longleftrightarrow> (case k of (w, d, _, l) \<Rightarrow>
     1 \<le> w \<and> w \<le> W \<and> 1 \<le> d \<and> d \<le> NumDistrictsPerWarehouse \<and> 1 \<le> l \<and> l \<le> 15) \<and>
     1 \<le> ol_i_id v \<and> ol_i_id v \<le> NumItems"

section \<open>The contract of an ordered index\<close>

locale ordered_index =
  fixes ok :: "'t \<Rightarrow> bool"
    and get :: "'t \<Rightarrow> 'k::linorder \<Rightarrow> 'v option"
    and put :: "'k \<Rightarrow> 'v \<Rightarrow> 't \<Rightarrow> 't"
    and remove :: "'k \<Rightarrow> 't \<Rightarrow> 't"
    and scan :: "'k \<Rightarrow> 'k \<Rightarrow> 't \<Rightarrow> ('k \<times> 'v) list"
    and rscan :: "'k \<Rightarrow> 't \<Rightarrow> ('k \<times> 'v) list"
  assumes put_ok: "ok t \<Longrightarrow> ok (put k v t)"
    and remove_ok: "ok t \<Longrightarrow> ok (remove k t)"
    and get_put: "ok t \<Longrightarrow> get (put k v t) = (get t)(k \<mapsto> v)"
    and get_remove: "ok t \<Longrightarrow> get (remove k t) = (get t)(k := None)"
    and scan_set: "ok t \<Longrightarrow> set (scan a b t) = {(k, v). get t k = Some v \<and> a \<le> k \<and> k < b}"
    and scan_sorted: "ok t \<Longrightarrow> sorted_wrt (<) (map fst (scan a b t))"
    and rscan_set: "ok t \<Longrightarrow> set (rscan a t) = {(k, v). get t k = Some v \<and> k \<le> a}"
    and rscan_sorted: "ok t \<Longrightarrow> sorted_wrt (>) (map fst (rscan a t))"
begin

lemma scan_empty: "ok t \<Longrightarrow> scan a b t = [] \<longleftrightarrow> (\<forall>k. a \<le> k \<longrightarrow> k < b \<longrightarrow> get t k = None)"
  using scan_set [of t a b] by (auto simp flip: set_empty2)

lemma scan_nonempty: "ok t \<Longrightarrow> get t k \<noteq> None \<Longrightarrow> a \<le> k \<Longrightarrow> k < b \<Longrightarrow> scan a b t \<noteq> []"
  using scan_empty [of t a b] by auto

text \<open>The first record of a scan is the least one in the range.\<close>

lemma scan_first:
  assumes "ok t" "scan a b t = (k, v) # es"
  shows "get t k = Some v" "a \<le> k" "k < b" "get t k' \<noteq> None \<Longrightarrow> a \<le> k' \<Longrightarrow> k' < b \<Longrightarrow> k \<le> k'"
proof -
  have "(k, v) \<in> set (scan a b t)" using assms(2) by simp
  then show "get t k = Some v" "a \<le> k" "k < b" using scan_set [OF assms(1), of a b] by auto
  assume "get t k' \<noteq> None" "a \<le> k'" "k' < b"
  then have "k' \<in> fst ` set (scan a b t)" using scan_set [OF assms(1), of a b] by force
  then show "k \<le> k'" using scan_sorted [OF assms(1), of a b] assms(2) by auto
qed

lemma rscan_first:
  assumes "ok t" "rscan a t = (k, v) # es"
  shows "get t k = Some v" "k \<le> a" "get t k' \<noteq> None \<Longrightarrow> k' \<le> a \<Longrightarrow> k' \<le> k"
proof -
  have "(k, v) \<in> set (rscan a t)" using assms(2) by simp
  then show "get t k = Some v" "k \<le> a" using rscan_set [OF assms(1), of a] by auto
  assume "get t k' \<noteq> None" "k' \<le> a"
  then have "k' \<in> fst ` set (rscan a t)" using rscan_set [OF assms(1), of a] by force
  then show "k' \<le> k" using rscan_sorted [OF assms(1), of a] assms(2) by auto
qed

lemma rscan_empty: "ok t \<Longrightarrow> rscan a t = [] \<longleftrightarrow> (\<forall>k. k \<le> a \<longrightarrow> get t k = None)"
  using rscan_set [of t a] by (auto simp flip: set_empty2)

lemma rscan_nonempty: "ok t \<Longrightarrow> get t k \<noteq> None \<Longrightarrow> k \<le> a \<Longrightarrow> rscan a t \<noteq> []"
  using rscan_empty [of t a] by auto

lemma scan_length: "ok t \<Longrightarrow> length (scan a b t) = card {k. get t k \<noteq> None \<and> a \<le> k \<and> k < b}"
proof -
  assume ok: "ok t"
  have "distinct (map fst (scan a b t))" using scan_sorted [OF ok] by (simp add: strict_sorted_iff)
  then have "length (scan a b t) = card (set (map fst (scan a b t)))" by (metis distinct_card length_map)
  moreover have "set (map fst (scan a b t)) = {k. get t k \<noteq> None \<and> a \<le> k \<and> k < b}"
    using scan_set [OF ok, of a b] by force
  ultimately show ?thesis by simp
qed

end

section \<open>The tables keep the contract\<close>

definition tbl_ok :: "('k::linorder, 'v) table \<Rightarrow> bool" where
  "tbl_ok t \<longleftrightarrow> sorted_wrt (<) (map fst t)"

lemma tbl_put_keys: "fst ` set (tbl_put k v t) = insert k (fst ` set t)"
  by (induction k v t rule: tbl_put.induct) auto

lemma tbl_ok_put: "tbl_ok t \<Longrightarrow> tbl_ok (tbl_put k v t)"
  unfolding tbl_ok_def
proof (induction k v t rule: tbl_put.induct)
  case (2 k v k' v' t)
  have "x \<in> set (map fst (tbl_put k v t)) \<Longrightarrow> x = k \<or> x \<in> set (map fst t)" for x
    using tbl_put_keys [of k v t] by auto
  then show ?case using 2 by fastforce
qed simp

lemma map_of_put: "tbl_ok t \<Longrightarrow> map_of (tbl_put k v t) = (map_of t)(k \<mapsto> v)"
  unfolding tbl_ok_def by (induction k v t rule: tbl_put.induct) (auto simp: fun_eq_iff)

lemma tbl_distinct: "tbl_ok t \<Longrightarrow> distinct (map fst t)"
  unfolding tbl_ok_def by (simp add: strict_sorted_iff)

lemma map_of_filter_remove: "map_of (filter (\<lambda>(k', _). k' \<noteq> k) t) = (map_of t)(k := None)"
  by (induction t) (auto simp: fun_eq_iff)

lemma sorted_wrt_filter_fst: "sorted_wrt P (map fst t) \<Longrightarrow> sorted_wrt P (map fst (filter Q t))"
  by (induction t) auto

interpretation tbl: ordered_index tbl_ok tbl_get tbl_put tbl_remove tbl_scan tbl_rscan
proof
  fix t :: "('k::linorder, 'v) table" and k v a b
  assume ok: "tbl_ok t"
  show "tbl_ok (tbl_put k v t)" using ok by (rule tbl_ok_put)
  show "tbl_ok (tbl_remove k t)" using ok unfolding tbl_ok_def tbl_remove_def by (rule sorted_wrt_filter_fst)
  show "tbl_get (tbl_put k v t) = (tbl_get t)(k \<mapsto> v)" using map_of_put [OF ok] by (simp add: tbl_get_def fun_eq_iff)
  show "tbl_get (tbl_remove k t) = (tbl_get t)(k := None)"
    by (simp add: tbl_get_def tbl_remove_def map_of_filter_remove fun_eq_iff)
  show "set (tbl_scan a b t) = {(k, v). tbl_get t k = Some v \<and> a \<le> k \<and> k < b}"
    using tbl_distinct [OF ok] by (auto simp: tbl_scan_def tbl_get_def)
  show "sorted_wrt (<) (map fst (tbl_scan a b t))"
    using ok unfolding tbl_ok_def tbl_scan_def by (rule sorted_wrt_filter_fst)
  show "set (tbl_rscan a t) = {(k, v). tbl_get t k = Some v \<and> k \<le> a}"
    using tbl_distinct [OF ok] by (auto simp: tbl_rscan_def tbl_get_def)
  show "sorted_wrt (>) (map fst (tbl_rscan a t))"
    using sorted_wrt_filter_fst [of "(<)" t] ok unfolding tbl_ok_def tbl_rscan_def
    by (simp add: sorted_wrt_rev flip: rev_map)
qed

lemma tbl_ok_Nil [simp]: "tbl_ok []"
  by (simp add: tbl_ok_def)

lemma tbl_get_Nil [simp]: "tbl_get [] k = None"
  by (simp add: tbl_get_def)

lemma tbl_insert_fresh: "tbl_get t k = None \<Longrightarrow> tbl_insert k v t = Inr (tbl_put k v t)"
  by (simp add: tbl_insert_def)

section \<open>Callbacks\<close>

lemma static_limit_take:
  "length acc < N \<Longrightarrow> scan_loop (static_limit_callback N) es acc = acc @ take (N - length acc) es"
proof (induction es arbitrary: acc)
  case (Cons e es)
  obtain k v where e: "e = (k, v)" by (cases e)
  show ?case
  proof (cases "Suc (length acc) < N")
    case True
    then show ?thesis using Cons.IH [of "acc @ [(k, v)]"] by (simp add: e static_limit_callback_def take_Cons' Suc_diff_Suc)
  next
    case False
    then have "N - length acc = 1" using Cons.prems by simp
    then show ?thesis using False by (simp add: e static_limit_callback_def)
  qed
qed simp

lemma latest_key_last:
  assumes "n < limit"
  shows "scan_loop (latest_key_callback limit) es (k0, n) =
    (if es = [] then (k0, n) else (Some (fst (last (take (limit - n) es))), min limit (n + length es)))"
  using assms
proof (induction es arbitrary: k0 n)
  case (Cons e es)
  obtain k v where e: "e = (k, v)" by (cases e)
  show ?case
  proof (cases "Suc n < limit")
    case True
    then have "take (limit - n) (e # es) = e # take (limit - Suc n) es" by (metis Suc_diff_Suc Suc_lessD take_Suc_Cons)
    then show ?thesis using Cons.IH [OF True, of "Some k"] True by (auto simp: e latest_key_callback_def)
  next
    case False
    then have "limit - n = 1" using Cons.prems by simp
    then show ?thesis using False Cons.prems by (simp add: e latest_key_callback_def)
  qed
qed simp

lemma new_order_first: "scan_loop new_order_scan_callback es None = (case es of [] \<Rightarrow> None | e # _ \<Rightarrow> Some (fst e))"
  by (cases es rule: list.exhaust) (auto simp: new_order_scan_callback_def split: prod.split)

lemma order_line_nop_count: "scan_loop order_line_nop_callback es n = n + length es"
  by (induction es arbitrary: n) (auto simp: order_line_nop_callback_def)

lemma order_line_scan_items:
  "fst (scan_loop order_line_scan_callback es s) = fst s + length es"
  "set (snd (scan_loop order_line_scan_callback es s)) = set (snd s) \<union> (ol_i_id \<circ> snd) ` set es"
  "distinct (snd s) \<Longrightarrow> distinct (snd (scan_loop order_line_scan_callback es s))"
  by (induction es arbitrary: s) (auto simp: order_line_scan_callback_def, force)

end
