(* ===== verification/Silo_Tpcc.thy ===== *)
theory Silo_Tpcc
  imports Silo_TpccDb App_Silo
begin

text \<open>
  The five TPC-C transactions of \<^verbatim>\<open>src/silo/benchmarks/tpcc.cc\<close>. Each is split at the point where the code begins its
  transaction: the numbers it draws (a computation with the generator of \<open>Silo_Random\<close>) and what it does to the
  tables. Transactions run one after the other, which is what commits amount to by the serializability of \<open>Silo_Serial\<close>;
  whether \<open>commit_txn\<close> succeeds is an argument. The insert into \<open>history\<close> is the default implementation, \<open>put\<close>, because its key need not be new. An assertion that fails, a signed overflow or an insert of an
  existing key is a fault. The checks of builds with \<open>CHECK_INVARIANTS\<close> are made always. The theorem: from a consistent
  database no transaction faults, all of them return, and the database stays consistent.
\<close>

section \<open>Configuration and partitions\<close>

record tpcc_cfg =
  NumWarehouses :: int
  nthreads :: int
  disable_xpartition_txn :: bool
  enable_separate_tree_per_partition :: bool
  new_order_remote_item_pct :: int
  new_order_fast_id_gen :: bool
  uniform_item_dist :: bool
  order_status_scan_hack :: bool

definition PartitionId :: "tpcc_cfg \<Rightarrow> int \<Rightarrow> int" where
  "PartitionId cfg wid =
     (let wid = wid - 1 in
      if NumWarehouses cfg \<le> nthreads cfg then wid
      else let nwhse_per_partition = NumWarehouses cfg div nthreads cfg;
               partid = wid div nwhse_per_partition
           in if nthreads cfg \<le> partid then nthreads cfg - 1 else partid)"

text \<open>The warehouses of worker \<open>i\<close>, from the first one up to but not including the last, as \<open>make_workers\<close> assigns them.\<close>

definition worker_range :: "tpcc_cfg \<Rightarrow> int \<Rightarrow> int \<times> int" where
  "worker_range cfg i =
     (if NumWarehouses cfg \<le> nthreads cfg then (i mod NumWarehouses cfg + 1, i mod NumWarehouses cfg + 2)
      else let nwhse_per_partition = NumWarehouses cfg div nthreads cfg;
               wstart = i * nwhse_per_partition;
               wend = (if i + 1 = nthreads cfg then NumWarehouses cfg else (i + 1) * nwhse_per_partition)
           in (wstart + 1, wend + 1))"

definition IsTableReadOnly :: "string \<Rightarrow> bool" where
  "IsTableReadOnly name \<longleftrightarrow> name = ''item''"

definition IsTableAppendOnly :: "string \<Rightarrow> bool" where
  "IsTableAppendOnly name \<longleftrightarrow> name = ''history'' \<or> name = ''oorder_c_id_idx''"

text \<open>The index, by its number, that \<open>OpenTablesForTablespace\<close> stores for each warehouse.\<close>

definition fill_partition :: "tpcc_cfg \<Rightarrow> int \<Rightarrow> int list \<Rightarrow> int list" where
  "fill_partition cfg partid ret =
     (let nwhse_per_partition = NumWarehouses cfg div nthreads cfg;
          wstart = partid * nwhse_per_partition;
          wend = (if partid + 1 = nthreads cfg then NumWarehouses cfg else (partid + 1) * nwhse_per_partition)
      in fold (\<lambda>i ret. ret[nat i := partid]) [wstart..wend - 1] ret)"

definition OpenTablesForTablespace :: "tpcc_cfg \<Rightarrow> string \<Rightarrow> int list" where
  "OpenTablesForTablespace cfg name =
     (let ret = replicate (nat (NumWarehouses cfg)) 0 in
      if enable_separate_tree_per_partition cfg \<and> \<not> IsTableReadOnly name then
        (if NumWarehouses cfg \<le> nthreads cfg then fold (\<lambda>i ret. ret[nat i := i]) [0..NumWarehouses cfg - 1] ret
         else fold (fill_partition cfg) [0..nthreads cfg - 1] ret)
      else fold (\<lambda>i ret. ret[nat i := 0]) [0..NumWarehouses cfg - 1] ret)"

fun unique_filter_loop :: "'a list \<Rightarrow> 'a set \<Rightarrow> 'a list \<Rightarrow> 'a list" where
  "unique_filter_loop [] seen ret = ret"
| "unique_filter_loop (e # v) seen ret =
     (if e \<in> seen then unique_filter_loop v seen ret else unique_filter_loop v (insert e seen) (ret @ [e]))"

definition unique_filter :: "'a list \<Rightarrow> 'a list" where
  "unique_filter v = unique_filter_loop v {} []"

section \<open>Order ids\<close>

definition NewOrderIdHolder :: "tpcc_cfg \<Rightarrow> int \<Rightarrow> int \<Rightarrow> nat" where
  "NewOrderIdHolder cfg w d = nat ((w - 1) * NumDistrictsPerWarehouse + (d - 1))"

definition new_district_ids :: "tpcc_cfg \<Rightarrow> u64 list" where
  "new_district_ids cfg = replicate (nat (NumWarehouses cfg * NumDistrictsPerWarehouse)) 3001"

definition FastNewOrderIdGen :: "tpcc_cfg \<Rightarrow> int \<Rightarrow> int \<Rightarrow> u64 list \<Rightarrow> (u64 \<times> u64 list) res" where
  "FastNewOrderIdGen cfg w d ids =
     (let i = NewOrderIdHolder cfg w d
      in if i < length ids then Inr (ids ! i, ids[i := ids ! i + 1]) else Inl (Undefined ''g_district_ids[idx]''))"

section \<open>Helpers\<close>

definition must_get :: "string \<Rightarrow> ('k, 'v) table \<Rightarrow> 'k \<Rightarrow> 'v res" where
  "must_get name t k = (case tbl_get t k of None \<Rightarrow> Inl (Abort name) | Some v \<Rightarrow> Inr v)"

definition check :: "string \<Rightarrow> bool \<Rightarrow> unit res" where
  "check name b = assert_res name b ()"

text \<open>Addition in \<open>int32_t\<close>, and conversions to narrower types.\<close>

definition i32_add :: "int \<Rightarrow> int \<Rightarrow> int res" where
  "i32_add x y = (if - (2 ^ 31) \<le> x + y \<and> x + y < 2 ^ 31 then Inr (x + y) else Inl (Undefined ''int32_t overflow''))"

definition to_i16 :: "int \<Rightarrow> int" where
  "to_i16 x = (x + 2 ^ 15) mod 2 ^ 16 - 2 ^ 15"

definition to_i8 :: "int \<Rightarrow> int" where
  "to_i8 x = (x + 2 ^ 7) mod 2 ^ 8 - 2 ^ 7"

definition int32_max :: int where
  "int32_max = 2147483647"

definition v_i32 :: "int \<Rightarrow> fval" where
  "v_i32 x = V32 (word_of_int x)"

definition oorder_size :: "oorder_v \<Rightarrow> int" where
  "oorder_size v = int (encode_nbytes [F_i32, F_i32, F_raw 1, F_raw 1, F_u32]
     [v_i32 (o_c_id v), v_i32 (o_carrier_id v), VRaw [], VRaw [], V32 (o_entry_d v)])"

definition order_line_size :: "order_line_v \<Rightarrow> int" where
  "order_line_size v = int (encode_nbytes [F_i32, F_u32, F_raw 4, F_i32, F_raw 1]
     [v_i32 (ol_i_id v), V32 (ol_delivery_d v), VRaw [], v_i32 (ol_supply_w_id v), VRaw []])"

definition new_order_size :: int where
  "new_order_size = int (encode_nbytes [F_raw 12] [VRaw []])"

definition history_size :: int where
  "history_size = int (encode_nbytes [F_raw 4, F_raw 26] [VRaw [], VRaw []])"

section \<open>txn_new_order\<close>

record new_order_in =
  no_w :: int
  no_d :: int
  no_c :: int
  no_items :: "(int \<times> int \<times> int) list"
  no_local :: bool

definition draw_supplier :: "tpcc_cfg \<Rightarrow> int \<Rightarrow> (int \<times> bool) gen" where
  "draw_supplier cfg w =
     (if disable_xpartition_txn cfg \<or> NumWarehouses cfg = 1 then gret (w, True)
      else gbind (draw 1 100) (\<lambda>p. if p > new_order_remote_item_pct cfg then gret (w, True)
             else gbind (other_warehouse (NumWarehouses cfg) w) (\<lambda>s. gret (s, False))))"

definition draw_order_item :: "tpcc_cfg \<Rightarrow> int \<Rightarrow> ((int \<times> int \<times> int) \<times> bool) gen" where
  "draw_order_item cfg w =
     gbind (GetItemId (uniform_item_dist cfg)) (\<lambda>i. gbind (draw_supplier cfg w) (\<lambda>(s, local).
       gbind (draw 1 10) (\<lambda>q. gret ((i, s, q), local))))"

definition draw_new_order :: "tpcc_cfg \<Rightarrow> int \<times> int \<Rightarrow> new_order_in gen" where
  "draw_new_order cfg wr =
     gbind (PickWarehouseId (fst wr) (snd wr)) (\<lambda>w. gbind (draw 1 10) (\<lambda>d. gbind GetCustomerId (\<lambda>c.
       gbind (draw 5 15) (\<lambda>n. gbind (grepeat (nat n) (draw_order_item cfg w)) (\<lambda>its.
         gret \<lparr>no_w = w, no_d = d, no_c = c, no_items = map fst its, no_local = list_all snd its\<rparr>)))))"

text \<open>
  The new quantity of a stock record. The difference of an \<open>int16_t\<close> and an \<open>unsigned\<close> is unsigned.
\<close>

definition new_quantity :: "int \<Rightarrow> int \<Rightarrow> int" where
  "new_quantity q n =
     (let diff = (q - n) mod 2 ^ 32
      in if 10 \<le> diff then to_i16 diff else to_i16 (q + (- n + 91)))"

fun order_lines :: "tpcc_cfg \<Rightarrow> int \<Rightarrow> int \<Rightarrow> int \<Rightarrow> int \<Rightarrow> (int \<times> int \<times> int) list \<Rightarrow> int \<Rightarrow> tpcc_db \<Rightarrow> (int \<times> tpcc_db) res" where
  "order_lines cfg w d no_o_id ol_number [] ret D = Inr (ret, D)"
| "order_lines cfg w d no_o_id ol_number ((i, sw, q) # its) ret D =
     bind_res (must_get ''item'' (item D) i) (\<lambda>v_i.
     bind_res (check ''SanityCheckItem'' (SanityCheckItem i v_i)) (\<lambda>_.
     bind_res (must_get ''stock'' (stock D) (sw, i)) (\<lambda>v_s.
     bind_res (check ''SanityCheckStock'' (SanityCheckStock (NumWarehouses cfg) (sw, i) v_s)) (\<lambda>_.
     bind_res (i32_add (s_remote_cnt v_s) (if sw = w then 0 else 1)) (\<lambda>remote_cnt.
     let v_s_new = v_s\<lparr>s_quantity := new_quantity (s_quantity v_s) q,
                       s_ytd := add_float (s_ytd v_s) (float_of_int q), s_remote_cnt := remote_cnt\<rparr>;
         v_ol = \<lparr>ol_i_id = i, ol_delivery_d = 0, ol_amount = mult_float (float_of_int q) (i_price v_i),
                 ol_supply_w_id = sw, ol_quantity = to_i8 q\<rparr>
     in bind_res (tbl_insert (w, d, no_o_id, ol_number) v_ol (order_line D)) (\<lambda>order_line'.
        order_lines cfg w d no_o_id (ol_number + 1) its (ret + order_line_size v_ol)
          (D\<lparr>stock := tbl_put (sw, i) v_s_new (stock D), order_line := order_line'\<rparr>)))))))"

definition new_order_value :: string where
  "new_order_value = replicate 12 CHR '' ''"

text \<open>From the insert into \<open>new_order\<close> to the insert into \<open>oorder_c_id_idx\<close>.\<close>

definition new_order_rows :: "tpcc_cfg \<Rightarrow> new_order_in \<Rightarrow> u32 \<Rightarrow> district_v \<Rightarrow> int \<Rightarrow> tpcc_db \<Rightarrow> (int \<times> tpcc_db) res" where
  "new_order_rows cfg inp ts v_d no_o_id D =
     bind_res (tbl_insert (no_w inp, no_d inp, no_o_id) new_order_value (new_order D)) (\<lambda>new_order'.
     bind_res (if new_order_fast_id_gen cfg then Inr (district D)
               else bind_res (i32_add (d_next_o_id v_d) 1) (\<lambda>nxt.
                 Inr (tbl_put (no_w inp, no_d inp) (v_d\<lparr>d_next_o_id := nxt\<rparr>) (district D)))) (\<lambda>district'.
     let v_oo = \<lparr>o_c_id = no_c inp, o_carrier_id = 0, o_ol_cnt = to_i8 (int (length (no_items inp))),
                 o_all_local = no_local inp, o_entry_d = ts\<rparr>
     in bind_res (tbl_insert (no_w inp, no_d inp, no_o_id) v_oo (oorder D)) (\<lambda>oorder'.
        bind_res (tbl_insert (no_w inp, no_d inp, no_c inp, no_o_id) 0 (oorder_c_id_idx D)) (\<lambda>idx'.
          Inr (new_order_size + oorder_size v_oo,
            D\<lparr>new_order := new_order', district := district', oorder := oorder', oorder_c_id_idx := idx'\<rparr>)))))"

definition new_order_body :: "tpcc_cfg \<Rightarrow> new_order_in \<Rightarrow> u32 \<Rightarrow> u64 list \<Rightarrow> tpcc_db \<Rightarrow> (int \<times> u64 list \<times> tpcc_db) res" where
  "new_order_body cfg inp ts ids D =
     bind_res (must_get ''customer'' (customer D) (no_w inp, no_d inp, no_c inp)) (\<lambda>v_c.
     bind_res (check ''SanityCheckCustomer'' (SanityCheckCustomer (NumWarehouses cfg) (no_w inp, no_d inp, no_c inp) v_c)) (\<lambda>_.
     bind_res (must_get ''warehouse'' (warehouse D) (no_w inp)) (\<lambda>v_w.
     bind_res (check ''SanityCheckWarehouse'' (SanityCheckWarehouse (NumWarehouses cfg) (no_w inp) v_w)) (\<lambda>_.
     bind_res (must_get ''district'' (district D) (no_w inp, no_d inp)) (\<lambda>v_d.
     bind_res (check ''SanityCheckDistrict'' (SanityCheckDistrict (NumWarehouses cfg) (no_w inp, no_d inp) v_d)) (\<lambda>_.
     bind_res (if new_order_fast_id_gen cfg
               then bind_res (FastNewOrderIdGen cfg (no_w inp) (no_d inp) ids) (\<lambda>(n, ids'). Inr (to_i32 (uint n), ids'))
               else Inr (d_next_o_id v_d, ids)) (\<lambda>(no_o_id, ids').
     bind_res (new_order_rows cfg inp ts v_d no_o_id D) (\<lambda>(ret, D1).
     bind_res (order_lines cfg (no_w inp) (no_d inp) no_o_id 1 (no_items inp) ret D1) (\<lambda>(ret', D2).
       Inr (ret', ids', D2))))))))))"

section \<open>txn_delivery\<close>

definition draw_delivery :: "int \<times> int \<Rightarrow> (int \<times> int) gen" where
  "draw_delivery wr = gbind (PickWarehouseId (fst wr) (snd wr)) (\<lambda>w. gbind (draw 1 NumDistrictsPerWarehouse) (\<lambda>carrier. gret (w, carrier)))"

text \<open>The checks of the lines a scan hands to a callback or to the transaction.\<close>

definition check_lines :: "tpcc_cfg \<Rightarrow> ((int \<times> int \<times> int \<times> int) \<times> order_line_v) list \<Rightarrow> unit res" where
  "check_lines cfg ls = check ''SanityCheckOrderLine'' (list_all (\<lambda>(k, v). SanityCheckOrderLine (NumWarehouses cfg) k v) ls)"

text \<open>One order: its lines, its row in \<open>new_order\<close>, the order and its customer.\<close>

definition deliver_order :: "tpcc_cfg \<Rightarrow> int \<Rightarrow> int \<Rightarrow> int \<Rightarrow> oorder_v \<Rightarrow> int \<Rightarrow> u32 \<Rightarrow> tpcc_db \<Rightarrow> tpcc_db res" where
  "deliver_order cfg w d no_o_id v_oo carrier ts D =
     (let values = scan_loop (static_limit_callback 15)
                     (tbl_scan (w, d, no_o_id, 0) (w, d, no_o_id, int32_max) (order_line D)) [];
          sum = foldl (\<lambda>s (k, v_ol). add_float s (ol_amount v_ol)) (Fin 0) values;
          order_line' = fold (\<lambda>(k, v_ol). tbl_put k (v_ol\<lparr>ol_delivery_d := ts\<rparr>)) values (order_line D)
      in bind_res (check_lines cfg values) (\<lambda>_.
         bind_res (must_get ''customer'' (customer D) (w, d, o_c_id v_oo)) (\<lambda>v_c.
           Inr (D\<lparr>order_line := order_line', new_order := tbl_remove (w, d, no_o_id) (new_order D),
                  oorder := tbl_put (w, d, no_o_id) (v_oo\<lparr>o_carrier_id := carrier\<rparr>) (oorder D),
                  customer := tbl_put (w, d, o_c_id v_oo) (v_c\<lparr>c_balance := add_float (c_balance v_c) sum\<rparr>) (customer D)\<rparr>))))"

text \<open>
  The loop over the districts, with \<open>last_no_o_ids\<close>, the place where the next scan of a district starts. \<open>False\<close> is the
  abort when an order is missing.
\<close>

fun delivery_loop :: "tpcc_cfg \<Rightarrow> int \<Rightarrow> int \<Rightarrow> u32 \<Rightarrow> int list \<Rightarrow> int list \<Rightarrow> tpcc_db \<Rightarrow> (bool \<times> int list \<times> tpcc_db) res" where
  "delivery_loop cfg w carrier ts [] lasts D = Inr (True, lasts, D)"
| "delivery_loop cfg w carrier ts (d # ds) lasts D =
     (case scan_loop new_order_scan_callback
             (tbl_scan (w, d, lasts ! nat (d - 1)) (w, d, int32_max) (new_order D)) None of
        None \<Rightarrow> delivery_loop cfg w carrier ts ds lasts D
      | Some (no_w_id, no_d_id, no_o_id) \<Rightarrow>
          bind_res (check ''SanityCheckNewOrder'' (SanityCheckNewOrder (NumWarehouses cfg) (no_w_id, no_d_id, no_o_id))) (\<lambda>_.
          bind_res (i32_add no_o_id 1) (\<lambda>nxt.
          let lasts' = lasts[nat (d - 1) := nxt] in
          case tbl_get (oorder D) (w, d, no_o_id) of
            None \<Rightarrow> Inr (False, lasts', D)
          | Some v_oo \<Rightarrow>
              bind_res (check ''SanityCheckOOrder'' (SanityCheckOOrder (NumWarehouses cfg) (w, d, no_o_id) v_oo)) (\<lambda>_.
              bind_res (deliver_order cfg w d no_o_id v_oo carrier ts D) (\<lambda>D'.
                delivery_loop cfg w carrier ts ds lasts' D')))))"

definition delivery_body :: "tpcc_cfg \<Rightarrow> int \<times> int \<Rightarrow> u32 \<Rightarrow> int list \<Rightarrow> tpcc_db \<Rightarrow> (bool \<times> int list \<times> tpcc_db) res" where
  "delivery_body cfg inp ts lasts D = delivery_loop cfg (fst inp) (snd inp) ts [1..NumDistrictsPerWarehouse] lasts D"

section \<open>txn_payment\<close>

record payment_in =
  p_w :: int
  p_d :: int
  p_cw :: int
  p_cd :: int
  p_amount :: double
  p_cust :: "string + int"

definition draw_customer :: "(string + int) gen" where
  "draw_customer = gbind (draw 1 100) (\<lambda>p.
     if p \<le> 60 then gbind GetNonUniformCustomerLastNameRun (\<lambda>s. gret (Inl s)) else gbind GetCustomerId (\<lambda>c. gret (Inr c)))"

definition draw_payment :: "tpcc_cfg \<Rightarrow> int \<times> int \<Rightarrow> payment_in gen" where
  "draw_payment cfg wr =
     gbind (PickWarehouseId (fst wr) (snd wr)) (\<lambda>w. gbind (draw 1 NumDistrictsPerWarehouse) (\<lambda>d.
     gbind (if disable_xpartition_txn cfg \<or> NumWarehouses cfg = 1 then gret (d, w)
            else gbind (draw 1 100) (\<lambda>p. if p \<le> 85 then gret (d, w)
              else gbind (draw 1 NumDistrictsPerWarehouse) (\<lambda>cd. gbind (other_warehouse (NumWarehouses cfg) w) (\<lambda>cw. gret (cd, cw)))))
       (\<lambda>(cd, cw). gbind (draw 100 500000) (\<lambda>a. gbind draw_customer (\<lambda>cu.
       gret \<lparr>p_w = w, p_d = d, p_cw = cw, p_cd = cd, p_amount = float_of_double (div_double (double_of_int a) (Fin 100)), p_cust = cu\<rparr>)))))"

text \<open>\<open>pad0\<close> is a string in a buffer of zeros; the index of customers by name has such strings in its keys.\<close>

definition pad0 :: "nat \<Rightarrow> string \<Rightarrow> string" where
  "pad0 n s = s @ replicate (n - length s) (CHR 0x00)"

definition zeros :: string where
  "zeros = replicate 16 (CHR 0x00)"

definition ones :: string where
  "ones = replicate 16 (CHR 0xFF)"

definition NMaxCustomerIdxScanElems :: nat where
  "NMaxCustomerIdxScanElems = 512"

text \<open>The middle one of the customers with a name.\<close>

definition customer_by_name :: "int \<Rightarrow> int \<Rightarrow> string \<Rightarrow> tpcc_db \<Rightarrow> int res" where
  "customer_by_name w d lastname D =
     (let values = scan_loop (static_limit_callback NMaxCustomerIdxScanElems)
                     (tbl_scan (w, d, pad0 16 lastname, zeros) (w, d, pad0 16 lastname, ones) (customer_name_idx D)) [];
          n = length values;
          index = (if n mod 2 = 0 then n div 2 - 1 else n div 2)
      in bind_res (check ''c.size() > 0'' (0 < n)) (\<lambda>_.
         bind_res (check ''c.size() < NMaxCustomerIdxScanElems'' (n < NMaxCustomerIdxScanElems)) (\<lambda>_. Inr (snd (values ! index)))))"

definition find_customer :: "tpcc_cfg \<Rightarrow> int \<Rightarrow> int \<Rightarrow> string + int \<Rightarrow> tpcc_db \<Rightarrow> (int \<times> customer_v) res" where
  "find_customer cfg w d cu D =
     bind_res (case cu of Inl s \<Rightarrow> customer_by_name w d s D | Inr c \<Rightarrow> Inr c) (\<lambda>c.
     bind_res (must_get ''customer'' (customer D) (w, d, c)) (\<lambda>v_c.
     bind_res (check ''SanityCheckCustomer'' (SanityCheckCustomer (NumWarehouses cfg) (w, d, c) v_c)) (\<lambda>_. Inr (c, v_c))))"

text \<open>\<open>%f\<close> of \<open>printf\<close>: six decimals, rounded to nearest; the amounts are positive and finite.\<close>

definition print_f :: "double \<Rightarrow> string" where
  "print_f d = (case d of Fin x \<Rightarrow>
       let n = round_even (\<bar>x\<bar> * 10 ^ 6); frac = dec_digits (nat (n mod 10 ^ 6))
       in (if x < 0 then ''-'' else '''') @ dec_digits (nat (n div 10 ^ 6)) @ ''.'' @ replicate (6 - length frac) CHR ''0'' @ frac
     | PInf \<Rightarrow> ''inf'' | NInf \<Rightarrow> ''-inf'' | NaN \<Rightarrow> ''nan'')"

definition c_str :: "string \<Rightarrow> string" where
  "c_str s = takeWhile (\<lambda>c. c \<noteq> CHR 0x00) s"

definition payment_data :: "payment_in \<Rightarrow> int \<Rightarrow> customer_v \<Rightarrow> string" where
  "payment_data inp c v_c =
     take 500 (dec_int c @ '' '' @ dec_int (p_cd inp) @ '' '' @ dec_int (p_cw inp) @ '' '' @ dec_int (p_d inp) @ '' '' @
       dec_int (p_w inp) @ '' '' @ print_f (p_amount inp) @ '' | '' @ c_str (c_data v_c))"

definition history_data :: "warehouse_v \<Rightarrow> district_v \<Rightarrow> string" where
  "history_data v_w v_d = take 24 (take 10 (c_str (w_name v_w)) @ ''    '' @ take 10 (c_str (d_name v_d)))"

definition pay_customer :: "payment_in \<Rightarrow> int \<Rightarrow> int \<Rightarrow> customer_v \<Rightarrow> customer_v" where
  "pay_customer inp c cnt v_c =
     v_c\<lparr>c_balance := add_float (c_balance v_c) (neg_double (p_amount inp)),
         c_ytd_payment := add_float (c_ytd_payment v_c) (p_amount inp), c_payment_cnt := cnt,
         c_data := (if take 2 (c_credit v_c) = ''BC'' then payment_data inp c v_c else c_data v_c)\<rparr>"

text \<open>The key of \<open>history\<close> has the customer's district, warehouse and number in the places of number, district and warehouse.\<close>

definition payment_body :: "tpcc_cfg \<Rightarrow> payment_in \<Rightarrow> u32 \<Rightarrow> tpcc_db \<Rightarrow> (int \<times> tpcc_db) res" where
  "payment_body cfg inp ts D =
     bind_res (must_get ''warehouse'' (warehouse D) (p_w inp)) (\<lambda>v_w.
     bind_res (check ''SanityCheckWarehouse'' (SanityCheckWarehouse (NumWarehouses cfg) (p_w inp) v_w)) (\<lambda>_.
     bind_res (must_get ''district'' (district D) (p_w inp, p_d inp)) (\<lambda>v_d.
     bind_res (check ''SanityCheckDistrict'' (SanityCheckDistrict (NumWarehouses cfg) (p_w inp, p_d inp) v_d)) (\<lambda>_.
     bind_res (find_customer cfg (p_cw inp) (p_cd inp) (p_cust inp) D) (\<lambda>(c, v_c).
     bind_res (i32_add (c_payment_cnt v_c) 1) (\<lambda>cnt.
       Inr (history_size,
         D\<lparr>warehouse := tbl_put (p_w inp) (v_w\<lparr>w_ytd := add_float (w_ytd v_w) (p_amount inp)\<rparr>) (warehouse D),
           district := tbl_put (p_w inp, p_d inp) (v_d\<lparr>d_ytd := add_float (d_ytd v_d) (p_amount inp)\<rparr>) (district D),
           customer := tbl_put (p_cw inp, p_cd inp, c) (pay_customer inp c cnt v_c) (customer D),
           history := tbl_put (p_cd inp, p_cw inp, c, p_d inp, p_w inp, ts)
             \<lparr>h_amount = p_amount inp, h_data = history_data v_w v_d\<rparr> (history D)\<rparr>)))))))"

section \<open>txn_order_status\<close>

definition draw_order_status :: "tpcc_cfg \<Rightarrow> int \<times> int \<Rightarrow> (int \<times> int \<times> (string + int) \<times> nat) gen" where
  "draw_order_status cfg wr =
     gbind (PickWarehouseId (fst wr) (snd wr)) (\<lambda>w. gbind (draw 1 NumDistrictsPerWarehouse) (\<lambda>d. gbind draw_customer (\<lambda>cu.
     gbind (if order_status_scan_hack cfg then (\<lambda>r. let (x, r') = next_ulong r in Some (Inr (unat x mod 15 + 1, r'))) else gret 1)
       (\<lambda>limit. gret (w, d, cu, limit)))))"

text \<open>The order the transaction looks at, and the number of its lines.\<close>

definition order_status_body :: "tpcc_cfg \<Rightarrow> int \<times> int \<times> (string + int) \<times> nat \<Rightarrow> tpcc_db \<Rightarrow> (int \<times> nat) res" where
  "order_status_body cfg inp D =
     (case inp of (w, d, cu, limit) \<Rightarrow>
      bind_res (find_customer cfg w d cu D) (\<lambda>(c, v_c).
      let entries = (if order_status_scan_hack cfg
                     then tbl_scan (w, d, c, 0) (w, d, c, int32_max) (oorder_c_id_idx D)
                     else tbl_rscan (w, d, c, int32_max) (oorder_c_id_idx D));
          (newest, size) = scan_loop (latest_key_callback limit) entries (None, 0)
      in bind_res (check ''c_oorder.size()'' (if order_status_scan_hack cfg then 0 < size else size = 1)) (\<lambda>_.
         case newest of None \<Rightarrow> Inl (Undefined ''newest_o_c_id'')
         | Some (_, _, _, o_id) \<Rightarrow>
             let lines = tbl_scan (w, d, o_id, 0) (w, d, o_id, int32_max) (order_line D);
                 n = scan_loop order_line_nop_callback lines 0
             in bind_res (check_lines cfg lines) (\<lambda>_. bind_res (check ''c_order_line.n >= 5 && c_order_line.n <= 15'' (5 \<le> n \<and> n \<le> 15)) (\<lambda>_. Inr (o_id, n))))))"

section \<open>txn_stock_level\<close>

definition draw_stock_level :: "int \<times> int \<Rightarrow> (int \<times> int \<times> int) gen" where
  "draw_stock_level wr =
     gbind (PickWarehouseId (fst wr) (snd wr)) (\<lambda>w. gbind (draw 10 20) (\<lambda>threshold. gbind (draw 1 NumDistrictsPerWarehouse) (\<lambda>d.
       gret (w, threshold, d))))"

fun low_stock :: "int \<Rightarrow> int \<Rightarrow> int list \<Rightarrow> tpcc_db \<Rightarrow> int list \<Rightarrow> int list res" where
  "low_stock w threshold [] D acc = Inr acc"
| "low_stock w threshold (i # is) D acc =
     bind_res (check ''p.first'' (1 \<le> i \<and> i \<le> NumItems)) (\<lambda>_.
     bind_res (must_get ''stock'' (stock D) (w, i)) (\<lambda>v_s.
       low_stock w threshold is D (if s_quantity v_s < threshold then List.insert i acc else acc)))"

text \<open>The number of distinct items of the last twenty orders whose stock is below the threshold.\<close>

definition stock_level_body :: "tpcc_cfg \<Rightarrow> int \<times> int \<times> int \<Rightarrow> u64 list \<Rightarrow> tpcc_db \<Rightarrow> nat res" where
  "stock_level_body cfg inp ids D =
     (case inp of (w, threshold, d) \<Rightarrow>
      bind_res (must_get ''district'' (district D) (w, d)) (\<lambda>v_d.
      bind_res (check ''SanityCheckDistrict'' (SanityCheckDistrict (NumWarehouses cfg) (w, d) v_d)) (\<lambda>_.
      bind_res (if new_order_fast_id_gen cfg
                then bind_res (FastNewOrderIdGen cfg w d ids) (\<lambda>(n, _). Inr (uint n))
                else Inr (d_next_o_id v_d)) (\<lambda>cur_next_o_id.
      let lower = (if 20 \<le> cur_next_o_id then to_i32 (cur_next_o_id - 20) else 0);
          lines = tbl_scan (w, d, lower, 0) (w, d, to_i32 cur_next_o_id, 0) (order_line D);
          items = snd (scan_loop order_line_scan_callback lines (0, []))
      in bind_res (check_lines cfg lines) (\<lambda>_.
         bind_res (low_stock w threshold items D []) (\<lambda>low. Inr (length low)))))))"

section \<open>A worker\<close>

record tpcc_worker =
  wk_range :: "int \<times> int"
  wk_rng :: fast_random
  wk_millis :: u32
  last_no_o_ids :: "int list"

record tpcc_state =
  t_db :: tpcc_db
  t_ids :: "u64 list"

text \<open>
  A transaction of a worker: whether it commits is \<open>commits\<close>. The result is that of the transaction, the worker and the
  state after it. An abort leaves the tables as they were, but not the drawn order id and not \<open>last_no_o_ids\<close>.
\<close>

definition draw_then ::
    "'a gen \<Rightarrow> tpcc_worker \<Rightarrow> ('a \<Rightarrow> tpcc_worker \<Rightarrow> 'b res) \<Rightarrow> 'b res option" where
  "draw_then g wk f = (case g (wk_rng wk) of None \<Rightarrow> None | Some (Inl e) \<Rightarrow> Some (Inl e)
     | Some (Inr (x, r')) \<Rightarrow> Some (f x (wk\<lparr>wk_rng := r'\<rparr>)))"

definition run_txn :: "tpcc_cfg \<Rightarrow> silo_type \<Rightarrow> bool \<Rightarrow> tpcc_worker \<Rightarrow> tpcc_state \<Rightarrow>
    ((bool \<times> int) \<times> tpcc_worker \<times> tpcc_state) res option" where
  "run_txn cfg ty commits wk s =
     (case ty of
        NEW_ORDER \<Rightarrow> draw_then (draw_new_order cfg (wk_range wk)) wk (\<lambda>inp wk.
          bind_res (new_order_body cfg inp (wk_millis wk) (t_ids s) (t_db s)) (\<lambda>(ret, ids', D').
            Inr (if commits then (True, ret) else (False, 0), wk\<lparr>wk_millis := wk_millis wk + 1\<rparr>,
                 s\<lparr>t_ids := ids', t_db := if commits then D' else t_db s\<rparr>)))
      | PAYMENT \<Rightarrow> draw_then (draw_payment cfg (wk_range wk)) wk (\<lambda>inp wk.
          bind_res (payment_body cfg inp (wk_millis wk) (t_db s)) (\<lambda>(ret, D').
            Inr (if commits then (True, ret) else (False, 0), wk\<lparr>wk_millis := wk_millis wk + 1\<rparr>,
                 s\<lparr>t_db := if commits then D' else t_db s\<rparr>)))
      | DELIVERY \<Rightarrow> draw_then (draw_delivery (wk_range wk)) wk (\<lambda>inp wk.
          bind_res (delivery_body cfg inp (wk_millis wk) (last_no_o_ids wk) (t_db s)) (\<lambda>(done, lasts, D').
            Inr ((done \<and> commits, 0), wk\<lparr>wk_millis := wk_millis wk + 1, last_no_o_ids := lasts\<rparr>,
                 s\<lparr>t_db := if done \<and> commits then D' else t_db s\<rparr>)))
      | ORDER_STATUS \<Rightarrow> draw_then (draw_order_status cfg (wk_range wk)) wk (\<lambda>inp wk.
          bind_res (order_status_body cfg inp (t_db s)) (\<lambda>_. Inr ((commits, 0), wk, s)))
      | STOCK_LEVEL \<Rightarrow> draw_then (draw_stock_level (wk_range wk)) wk (\<lambda>inp wk.
          bind_res (stock_level_body cfg inp (t_ids s) (t_db s)) (\<lambda>_. Inr ((commits, 0), wk, s))))"

text \<open>Requests in the order in which they are served, each with the worker that serves it and whether it commits.\<close>

fun run_requests :: "tpcc_cfg \<Rightarrow> (nat \<times> silo_type \<times> bool) list \<Rightarrow> tpcc_worker list \<Rightarrow> tpcc_state \<Rightarrow>
    (tpcc_worker list \<times> tpcc_state) res option" where
  "run_requests cfg [] wks s = Some (Inr (wks, s))"
| "run_requests cfg ((i, ty, commits) # rs) wks s =
     (case run_txn cfg ty commits (wks ! i) s of
        None \<Rightarrow> None
      | Some (Inl e) \<Rightarrow> Some (Inl e)
      | Some (Inr (res, wk, s')) \<Rightarrow> run_requests cfg rs (wks[i := wk]) s')"

definition new_tpcc_worker :: "tpcc_cfg \<Rightarrow> nat \<Rightarrow> fast_random \<Rightarrow> tpcc_worker" where
  "new_tpcc_worker cfg i sd = \<lparr>wk_range = worker_range cfg (int i), wk_rng = sd, wk_millis = 0, last_no_o_ids = replicate 10 0\<rparr>"

end
