(* ===== verification/Silo_TpccInv.thy ===== *)
theory Silo_TpccInv
  imports Silo_Tpcc
begin

text \<open>
  Consistency of the TPC-C database under the transactions of \<open>Silo_Tpcc\<close>: the invariant, one lemma per transaction that
  it does not fault and keeps the invariant, and the theorem for every sequence of requests. The invariant counts the
  transactions so far, since the 32-bit counters of the tables would overflow after enough of them.
\<close>

section \<open>The invariant\<close>

definition cfg_ok :: "tpcc_cfg \<Rightarrow> bool" where
  "cfg_ok cfg \<longleftrightarrow> 1 \<le> NumWarehouses cfg \<and> NumWarehouses cfg \<le> 2 ^ 25 \<and> 1 \<le> nthreads cfg"

definition wd_ok :: "tpcc_cfg \<Rightarrow> int \<Rightarrow> int \<Rightarrow> bool" where
  "wd_ok cfg w d \<longleftrightarrow> 1 \<le> w \<and> w \<le> NumWarehouses cfg \<and> 1 \<le> d \<and> d \<le> NumDistrictsPerWarehouse"

definition next_o_id :: "tpcc_cfg \<Rightarrow> u64 list \<Rightarrow> (int \<times> int, district_v) table \<Rightarrow> int \<Rightarrow> int \<Rightarrow> int" where
  "next_o_id cfg ids districts w d =
     (if new_order_fast_id_gen cfg then uint (ids ! NewOrderIdHolder cfg w d)
      else case tbl_get districts (w, d) of None \<Rightarrow> 0 | Some v \<Rightarrow> d_next_o_id v)"

definition tables_ok :: "tpcc_db \<Rightarrow> bool" where
  "tables_ok D \<longleftrightarrow> tbl_ok (customer D) \<and> tbl_ok (customer_name_idx D) \<and> tbl_ok (district D) \<and> tbl_ok (history D) \<and>
     tbl_ok (item D) \<and> tbl_ok (new_order D) \<and> tbl_ok (oorder D) \<and> tbl_ok (oorder_c_id_idx D) \<and> tbl_ok (order_line D) \<and>
     tbl_ok (stock D) \<and> tbl_ok (stock_data D) \<and> tbl_ok (warehouse D)"

definition warehouses_ok :: "tpcc_cfg \<Rightarrow> (int, warehouse_v) table \<Rightarrow> bool" where
  "warehouses_ok cfg t \<longleftrightarrow> (\<forall>w. 1 \<le> w \<longrightarrow> w \<le> NumWarehouses cfg \<longrightarrow>
     (\<exists>v. tbl_get t w = Some v \<and> SanityCheckWarehouse (NumWarehouses cfg) w v))"

definition items_ok :: "(int, item_v) table \<Rightarrow> bool" where
  "items_ok t \<longleftrightarrow> (\<forall>i. 1 \<le> i \<longrightarrow> i \<le> NumItems \<longrightarrow> (\<exists>v. tbl_get t i = Some v \<and> SanityCheckItem i v))"

text \<open>Stock: the quantity stays between 10 and 100.\<close>

definition stock_ok :: "tpcc_cfg \<Rightarrow> int \<Rightarrow> (int \<times> int, stock_v) table \<Rightarrow> bool" where
  "stock_ok cfg b t \<longleftrightarrow> (\<forall>w i. 1 \<le> w \<longrightarrow> w \<le> NumWarehouses cfg \<longrightarrow> 1 \<le> i \<longrightarrow> i \<le> NumItems \<longrightarrow>
     (\<exists>v. tbl_get t (w, i) = Some v \<and> 10 \<le> s_quantity v \<and> s_quantity v \<le> 100 \<and> 0 \<le> s_remote_cnt v \<and> s_remote_cnt v \<le> b))"

definition districts_ok :: "tpcc_cfg \<Rightarrow> int \<Rightarrow> u64 list \<Rightarrow> (int \<times> int, district_v) table \<Rightarrow> bool" where
  "districts_ok cfg N ids t \<longleftrightarrow> (\<forall>w d. wd_ok cfg w d \<longrightarrow>
     (\<exists>v. tbl_get t (w, d) = Some v \<and> SanityCheckDistrict (NumWarehouses cfg) (w, d) v) \<and>
     3001 \<le> next_o_id cfg ids t w d \<and> next_o_id cfg ids t w d \<le> 3001 + N) \<and>
     length ids = nat (NumWarehouses cfg * NumDistrictsPerWarehouse)"

definition customers_ok :: "tpcc_cfg \<Rightarrow> int \<Rightarrow> (int \<times> int \<times> int, customer_v) table \<Rightarrow> bool" where
  "customers_ok cfg N t \<longleftrightarrow> (\<forall>w d c. wd_ok cfg w d \<longrightarrow> 1 \<le> c \<longrightarrow> c \<le> NumCustomersPerDistrict \<longrightarrow>
     (\<exists>v. tbl_get t (w, d, c) = Some v \<and> SanityCheckCustomer (NumWarehouses cfg) (w, d, c) v \<and>
       0 \<le> c_payment_cnt v \<and> c_payment_cnt v \<le> 1 + N))"

text \<open>Every name of the generators has a customer, and fewer than 512; the index has only customers.\<close>

definition names_ok :: "tpcc_cfg \<Rightarrow> (int \<times> int \<times> string \<times> string, int) table \<Rightarrow> bool" where
  "names_ok cfg t \<longleftrightarrow>
     (\<forall>w d s. wd_ok cfg w d \<longrightarrow> is_last_name s \<longrightarrow>
        tbl_scan (w, d, pad0 16 s, zeros) (w, d, pad0 16 s, ones) t \<noteq> [] \<and>
        length (tbl_scan (w, d, pad0 16 s, zeros) (w, d, pad0 16 s, ones) t) < NMaxCustomerIdxScanElems) \<and>
     (\<forall>w d l f c. tbl_get t (w, d, l, f) = Some c \<longrightarrow> 1 \<le> c \<and> c \<le> NumCustomersPerDistrict)"

text \<open>Every customer has an order; the index of orders by customer has exactly the orders.\<close>

definition index_ok :: "tpcc_cfg \<Rightarrow> (int \<times> int \<times> int \<times> int, int) table \<Rightarrow> (int \<times> int \<times> int, oorder_v) table \<Rightarrow> bool" where
  "index_ok cfg t os \<longleftrightarrow>
     (\<forall>w d c o'. tbl_get t (w, d, c, o') \<noteq> None \<longleftrightarrow> (\<exists>v. tbl_get os (w, d, o') = Some v \<and> o_c_id v = c)) \<and>
     (\<forall>w d c. wd_ok cfg w d \<longrightarrow> 1 \<le> c \<longrightarrow> c \<le> NumCustomersPerDistrict \<longrightarrow> (\<exists>o'. tbl_get t (w, d, c, o') \<noteq> None))"

text \<open>
  Orders: their ids are below the next one, without gaps unless ids are taken from the counters; an order waits for
  delivery exactly when it has no carrier.
\<close>

definition orders_ok :: "tpcc_cfg \<Rightarrow> (int \<Rightarrow> int \<Rightarrow> int) \<Rightarrow> (int \<times> int \<times> int, oorder_v) table \<Rightarrow> (int \<times> int \<times> int, string) table \<Rightarrow> bool" where
  "orders_ok cfg nxt os ns \<longleftrightarrow>
     (\<forall>w d o' v. tbl_get os (w, d, o') = Some v \<longrightarrow>
        SanityCheckOOrder (NumWarehouses cfg) (w, d, o') v \<and> 1 \<le> o' \<and> o' < nxt w d) \<and>
     (\<forall>w d o'. tbl_get ns (w, d, o') \<noteq> None \<longleftrightarrow> (\<exists>v. tbl_get os (w, d, o') = Some v \<and> o_carrier_id v = 0)) \<and>
     (\<not> new_order_fast_id_gen cfg \<longrightarrow>
        (\<forall>w d o'. wd_ok cfg w d \<longrightarrow> 1 \<le> o' \<longrightarrow> o' < nxt w d \<longrightarrow> tbl_get os (w, d, o') \<noteq> None))"

text \<open>Lines: an order has as many as it says, with numbers from one, and there are no others.\<close>

definition lines_ok :: "tpcc_cfg \<Rightarrow> (int \<times> int \<times> int \<times> int, order_line_v) table \<Rightarrow> (int \<times> int \<times> int, oorder_v) table \<Rightarrow> bool" where
  "lines_ok cfg ls os \<longleftrightarrow>
     (\<forall>w d o' l. tbl_get ls (w, d, o', l) \<noteq> None \<longleftrightarrow> (\<exists>v. tbl_get os (w, d, o') = Some v \<and> 1 \<le> l \<and> l \<le> o_ol_cnt v)) \<and>
     (\<forall>w d o' l v. tbl_get ls (w, d, o', l) = Some v \<longrightarrow> 1 \<le> ol_i_id v \<and> ol_i_id v \<le> NumItems)"

definition tpcc_inv :: "tpcc_cfg \<Rightarrow> int \<Rightarrow> tpcc_state \<Rightarrow> bool" where
  "tpcc_inv cfg N s \<longleftrightarrow> (let D = t_db s in
     tables_ok D \<and> warehouses_ok cfg (warehouse D) \<and> items_ok (item D) \<and> stock_ok cfg (15 * N) (stock D) \<and>
     districts_ok cfg N (t_ids s) (district D) \<and> customers_ok cfg N (customer D) \<and> names_ok cfg (customer_name_idx D) \<and>
     index_ok cfg (oorder_c_id_idx D) (oorder D) \<and>
     orders_ok cfg (next_o_id cfg (t_ids s) (district D)) (oorder D) (new_order D) \<and> lines_ok cfg (order_line D) (oorder D))"

lemmas tpcc_inv_defs = tpcc_inv_def Let_def

lemma tpcc_invD:
  assumes "tpcc_inv cfg N s"
  shows "tables_ok (t_db s)" "warehouses_ok cfg (warehouse (t_db s))" "items_ok (item (t_db s))" "stock_ok cfg (15 * N) (stock (t_db s))"
    "districts_ok cfg N (t_ids s) (district (t_db s))" "customers_ok cfg N (customer (t_db s))"
    "names_ok cfg (customer_name_idx (t_db s))" "index_ok cfg (oorder_c_id_idx (t_db s)) (oorder (t_db s))"
    "orders_ok cfg (next_o_id cfg (t_ids s) (district (t_db s))) (oorder (t_db s)) (new_order (t_db s))"
    "lines_ok cfg (order_line (t_db s)) (oorder (t_db s))"
  using assms by (simp_all add: tpcc_inv_defs)

section \<open>Lines of a new order\<close>

lemma new_quantity_range:
  assumes "10 \<le> q" "q \<le> 100" "1 \<le> n" "n \<le> 10"
  shows "10 \<le> new_quantity q n" "new_quantity q n \<le> 100"
proof -
  have "(q - n) mod 2 ^ 32 = q - n" using assms by simp
  moreover have "to_i16 x = x" if "0 \<le> x" "x \<le> 200" for x using that by (simp add: to_i16_def)
  ultimately show "10 \<le> new_quantity q n" "new_quantity q n \<le> 100"
    using assms by (auto simp: new_quantity_def Let_def)
qed

definition order_item_ok :: "tpcc_cfg \<Rightarrow> int \<times> int \<times> int \<Rightarrow> bool" where
  "order_item_ok cfg it \<longleftrightarrow> (case it of (i, sw, q) \<Rightarrow>
     1 \<le> i \<and> i \<le> NumItems \<and> 1 \<le> sw \<and> sw \<le> NumWarehouses cfg \<and> 1 \<le> q \<and> q \<le> 10)"

lemma i32_addI: "- (2 ^ 31) \<le> x + y \<Longrightarrow> x + y < 2 ^ 31 \<Longrightarrow> i32_add x y = Inr (x + y)"
  by (simp add: i32_add_def)

lemma must_getI: "tbl_get t k = Some v \<Longrightarrow> must_get n t k = Inr v"
  by (simp add: must_get_def)

lemma checkI [simp]: "b \<Longrightarrow> check n b = Inr ()"
  by (simp add: check_def)

lemma order_lines_spec:
  assumes "list_all (order_item_ok cfg) its" "tbl_ok (stock D)" "tbl_ok (order_line D)" "items_ok (item D)"
    "stock_ok cfg b (stock D)" "b + int (length its) < 2 ^ 31"
    "\<And>l. num \<le> l \<Longrightarrow> tbl_get (order_line D) (w, d, o', l) = None"
  shows "\<exists>ret' S L. order_lines cfg w d o' num its ret D = Inr (ret', D\<lparr>stock := S, order_line := L\<rparr>) \<and>
    tbl_ok S \<and> tbl_ok L \<and> stock_ok cfg (b + int (length its)) S \<and>
    (\<forall>k v. tbl_get L k = Some v \<longrightarrow> tbl_get (order_line D) k = Some v \<or> 1 \<le> ol_i_id v \<and> ol_i_id v \<le> NumItems) \<and>
    (\<forall>k. tbl_get L k \<noteq> None \<longleftrightarrow>
      tbl_get (order_line D) k \<noteq> None \<or> (\<exists>l. k = (w, d, o', l) \<and> num \<le> l \<and> l < num + int (length its)))"
  using assms
proof (induction its arbitrary: num ret D b)
  case Nil
  then show ?case by (intro exI [of _ ret] exI [of _ "stock D"] exI [of _ "order_line D"]) auto
next
  case (Cons it its)
  obtain i sw q where it: "it = (i, sw, q)" by (cases it)
  have r: "1 \<le> i" "i \<le> NumItems" "1 \<le> sw" "sw \<le> NumWarehouses cfg" "1 \<le> q" "q \<le> 10"
    using Cons.prems(1) by (auto simp: it order_item_ok_def)
  obtain v_i where i: "tbl_get (item D) i = Some v_i" "SanityCheckItem i v_i"
    using Cons.prems(4) r by (auto simp: items_ok_def)
  obtain v_s where s: "tbl_get (stock D) (sw, i) = Some v_s" "10 \<le> s_quantity v_s" "s_quantity v_s \<le> 100"
      "0 \<le> s_remote_cnt v_s" "s_remote_cnt v_s \<le> b"
    using Cons.prems(5) r unfolding stock_ok_def by blast
  define rc where "rc = s_remote_cnt v_s + (if sw = w then 0 else 1)"
  have rc: "0 \<le> rc" "rc \<le> b + 1" "i32_add (s_remote_cnt v_s) (if sw = w then 0 else 1) = Inr rc"
    using s(4,5) Cons.prems(6) by (auto simp: rc_def i32_add_def)
  define v_s' where "v_s' = v_s\<lparr>s_quantity := new_quantity (s_quantity v_s) q,
      s_ytd := add_float (s_ytd v_s) (float_of_int q), s_remote_cnt := rc\<rparr>"
  define v_ol where "v_ol = \<lparr>ol_i_id = i, ol_delivery_d = 0, ol_amount = mult_float (float_of_int q) (i_price v_i),
      ol_supply_w_id = sw, ol_quantity = to_i8 q\<rparr>"
  define D' where "D' = D\<lparr>stock := tbl_put (sw, i) v_s' (stock D), order_line := tbl_put (w, d, o', num) v_ol (order_line D)\<rparr>"
  have gL: "tbl_get (order_line D') = (tbl_get (order_line D))((w, d, o', num) \<mapsto> v_ol)"
    by (simp add: D'_def tbl.get_put [OF Cons.prems(3)])
  have gS: "tbl_get (stock D') = (tbl_get (stock D))((sw, i) \<mapsto> v_s')"
    by (simp add: D'_def tbl.get_put [OF Cons.prems(2)])
  have "stock_ok cfg (b + 1) (stock D')"
    unfolding stock_ok_def
  proof (intro allI impI)
    fix w' i'
    assume "1 \<le> w'" "w' \<le> NumWarehouses cfg" "1 \<le> i'" "i' \<le> NumItems"
    then obtain v where "tbl_get (stock D) (w', i') = Some v" "10 \<le> s_quantity v" "s_quantity v \<le> 100"
        "0 \<le> s_remote_cnt v" "s_remote_cnt v \<le> b"
      using Cons.prems(5) unfolding stock_ok_def by blast
    then show "\<exists>v. tbl_get (stock D') (w', i') = Some v \<and> 10 \<le> s_quantity v \<and> s_quantity v \<le> 100 \<and>
        0 \<le> s_remote_cnt v \<and> s_remote_cnt v \<le> b + 1"
      using new_quantity_range [OF s(2,3) r(5,6)] rc by (auto simp: gS v_s'_def)
  qed
  moreover have "tbl_ok (stock D')" "tbl_ok (order_line D')" "items_ok (item D')"
    using Cons.prems by (simp_all add: D'_def tbl.put_ok)
  moreover have "tbl_get (order_line D') (w, d, o', l) = None" if "num + 1 \<le> l" for l
    using Cons.prems(7) [of l] that by (simp add: gL)
  ultimately obtain ret' S L where
    ih: "order_lines cfg w d o' (num + 1) its (ret + order_line_size v_ol) D' = Inr (ret', D'\<lparr>stock := S, order_line := L\<rparr>)"
      "tbl_ok S" "tbl_ok L" "stock_ok cfg (b + 1 + int (length its)) S"
      "\<forall>k v. tbl_get L k = Some v \<longrightarrow> tbl_get (order_line D') k = Some v \<or> 1 \<le> ol_i_id v \<and> ol_i_id v \<le> NumItems"
      "\<forall>k. tbl_get L k \<noteq> None \<longleftrightarrow>
        tbl_get (order_line D') k \<noteq> None \<or> (\<exists>l. k = (w, d, o', l) \<and> num + 1 \<le> l \<and> l < num + 1 + int (length its))"
    using Cons.IH [of D' "b + 1" "num + 1" "ret + order_line_size v_ol"] Cons.prems(1,6) by auto
  have "order_lines cfg w d o' num (it # its) ret D = order_lines cfg w d o' (num + 1) its (ret + order_line_size v_ol) D'"
    using i s(1) rc(3) r Cons.prems(7) [of num]
    by (simp add: it must_getI SanityCheckStock_def tbl_insert_fresh Let_def v_ol_def [symmetric] v_s'_def [symmetric] D'_def [symmetric])
  moreover have "D'\<lparr>stock := S, order_line := L\<rparr> = D\<lparr>stock := S, order_line := L\<rparr>" by (simp add: D'_def)
  moreover have "\<forall>k v. tbl_get L k = Some v \<longrightarrow> tbl_get (order_line D) k = Some v \<or> 1 \<le> ol_i_id v \<and> ol_i_id v \<le> NumItems"
  proof (intro allI impI)
    fix k v
    assume "tbl_get L k = Some v"
    then have "tbl_get (order_line D') k = Some v \<or> 1 \<le> ol_i_id v \<and> ol_i_id v \<le> NumItems" using ih(5) by blast
    moreover have "1 \<le> ol_i_id v_ol \<and> ol_i_id v_ol \<le> NumItems" using r by (simp add: v_ol_def)
    ultimately show "tbl_get (order_line D) k = Some v \<or> 1 \<le> ol_i_id v \<and> ol_i_id v \<le> NumItems"
      unfolding gL fun_upd_apply by (metis option.inject)
  qed
  moreover have "\<forall>k. tbl_get L k \<noteq> None \<longleftrightarrow>
      tbl_get (order_line D) k \<noteq> None \<or> (\<exists>l. k = (w, d, o', l) \<and> num \<le> l \<and> l < num + int (length (it # its)))"
  proof
    fix k
    have "(\<exists>l. k = (w, d, o', l) \<and> num \<le> l \<and> l < num + int (length (it # its))) \<longleftrightarrow>
        k = (w, d, o', num) \<or> (\<exists>l. k = (w, d, o', l) \<and> num + 1 \<le> l \<and> l < num + 1 + int (length its))" by force
    then show "tbl_get L k \<noteq> None \<longleftrightarrow>
        tbl_get (order_line D) k \<noteq> None \<or> (\<exists>l. k = (w, d, o', l) \<and> num \<le> l \<and> l < num + int (length (it # its)))"
      using spec [OF ih(6), of k] by (cases "k = (w, d, o', num)") (simp_all add: gL)
  qed
  ultimately show ?case using ih(1-4)
    by (intro exI [of _ ret'] exI [of _ S] exI [of _ L]) (simp add: algebra_simps)
qed


section \<open>New order\<close>

definition new_order_ok :: "tpcc_cfg \<Rightarrow> new_order_in \<Rightarrow> bool" where
  "new_order_ok cfg inp \<longleftrightarrow> wd_ok cfg (no_w inp) (no_d inp) \<and> 1 \<le> no_c inp \<and> no_c inp \<le> NumCustomersPerDistrict \<and>
     5 \<le> length (no_items inp) \<and> length (no_items inp) \<le> 15 \<and> list_all (order_item_ok cfg) (no_items inp)"

lemma index_ok_new:
  assumes "index_ok cfg t os" "tbl_ok t" "tbl_ok os" "tbl_get os (w, d, o') = None"
  shows "index_ok cfg (tbl_put (w, d, o_c_id v, o') x t) (tbl_put (w, d, o') v os)"
proof -
  have "tbl_get (tbl_put (w, d, o_c_id v, o') x t) (w', d', c, p) \<noteq> None \<longleftrightarrow>
      (\<exists>u. tbl_get (tbl_put (w, d, o') v os) (w', d', p) = Some u \<and> o_c_id u = c)" for w' d' c p
    using assms(1,4) by (auto simp: index_ok_def tbl.get_put [OF assms(2)] tbl.get_put [OF assms(3)])
  moreover have "\<exists>p. tbl_get (tbl_put (w, d, o_c_id v, o') x t) (w', d', c, p) \<noteq> None"
    if c: "wd_ok cfg w' d'" "1 \<le> c" "c \<le> NumCustomersPerDistrict" for w' d' c
  proof -
    obtain p where "tbl_get t (w', d', c, p) \<noteq> None" using assms(1) c unfolding index_ok_def by blast
    then show ?thesis by (intro exI [of _ p]) (simp add: tbl.get_put [OF assms(2)])
  qed
  ultimately show ?thesis unfolding index_ok_def by blast
qed

lemma orders_ok_new:
  assumes "orders_ok cfg nxt os ns" "tbl_ok os" "tbl_ok ns" "wd_ok cfg w d" "o' = nxt w d" "1 \<le> o'"
    and "\<And>w' d'. wd_ok cfg w' d' \<Longrightarrow> nxt' w' d' = (if w' = w \<and> d' = d then o' + 1 else nxt w' d')"
    and "SanityCheckOOrder (NumWarehouses cfg) (w, d, o') v" "o_carrier_id v = 0"
  shows "orders_ok cfg nxt' (tbl_put (w, d, o') v os) (tbl_put (w, d, o') x ns)"
proof -
  have wd: "wd_ok cfg w' d'" if "SanityCheckOOrder (NumWarehouses cfg) (w', d', p) u" for w' d' p u
    using that by (simp add: SanityCheckOOrder_def wd_ok_def)
  have "SanityCheckOOrder (NumWarehouses cfg) (w', d', p) u \<and> 1 \<le> p \<and> p < nxt' w' d'"
    if "tbl_get (tbl_put (w, d, o') v os) (w', d', p) = Some u" for w' d' p u
  proof (cases "(w', d', p) = (w, d, o')")
    case True
    then show ?thesis using that assms(4-8) by (simp add: tbl.get_put [OF assms(2)])
  next
    case False
    then have "SanityCheckOOrder (NumWarehouses cfg) (w', d', p) u \<and> 1 \<le> p \<and> p < nxt w' d'"
      using that assms(1) by (auto simp: tbl.get_put [OF assms(2)] orders_ok_def split: if_splits)
    then show ?thesis using assms(5) assms(7) [OF wd] by (auto simp: False)
  qed
  moreover have "tbl_get (tbl_put (w, d, o') x ns) (w', d', p) \<noteq> None \<longleftrightarrow>
      (\<exists>u. tbl_get (tbl_put (w, d, o') v os) (w', d', p) = Some u \<and> o_carrier_id u = 0)" for w' d' p
    using assms(1,9) by (simp add: orders_ok_def tbl.get_put [OF assms(2)] tbl.get_put [OF assms(3)])
  moreover have "tbl_get (tbl_put (w, d, o') v os) (w', d', p) \<noteq> None"
    if "\<not> new_order_fast_id_gen cfg" "wd_ok cfg w' d'" "1 \<le> p" "p < nxt' w' d'" for w' d' p
  proof (cases "(w', d', p) = (w, d, o')")
    case False
    then have "p < nxt w' d'" using that assms(5) assms(7) [OF that(2)] by (auto split: if_splits)
    then show ?thesis using that False assms(1) by (simp add: orders_ok_def tbl.get_put [OF assms(2)])
  qed (simp add: tbl.get_put [OF assms(2)])
  ultimately show ?thesis unfolding orders_ok_def by blast
qed

lemma lines_ok_new:
  assumes "lines_ok cfg ls os" "tbl_ok os" "tbl_get os (w, d, o') = None" "o_ol_cnt v = n"
    and "\<forall>k v. tbl_get L k = Some v \<longrightarrow> tbl_get ls k = Some v \<or> 1 \<le> ol_i_id v \<and> ol_i_id v \<le> NumItems"
    and "\<forall>k. tbl_get L k \<noteq> None \<longleftrightarrow> tbl_get ls k \<noteq> None \<or> (\<exists>l. k = (w, d, o', l) \<and> 1 \<le> l \<and> l < 1 + n)"
  shows "lines_ok cfg L (tbl_put (w, d, o') v os)"
proof -
  have "tbl_get L (w', d', p, l) \<noteq> None \<longleftrightarrow>
      (\<exists>u. tbl_get (tbl_put (w, d, o') v os) (w', d', p) = Some u \<and> 1 \<le> l \<and> l \<le> o_ol_cnt u)" for w' d' p l
    using assms(1,3,4) spec [OF assms(6), of "(w', d', p, l)"] by (auto simp: lines_ok_def tbl.get_put [OF assms(2)])
  moreover have "1 \<le> ol_i_id u \<and> ol_i_id u \<le> NumItems" if "tbl_get L (w', d', p, l) = Some u" for w' d' p l u
    using assms(1,5) that unfolding lines_ok_def by blast
  ultimately show ?thesis unfolding lines_ok_def by blast
qed

text \<open>The counter of a district moves by one, in the array or in the district.\<close>

lemma holder_inj:
  assumes "wd_ok cfg w d" "wd_ok cfg w' d'" "NewOrderIdHolder cfg w d = NewOrderIdHolder cfg w' d'"
  shows "w = w' \<and> d = d'"
proof -
  have "0 \<le> (w - 1) * 10" "0 \<le> (w' - 1) * 10" using assms by (auto simp: wd_ok_def)
  then have "(w - 1) * 10 + (d - 1) = (w' - 1) * 10 + (d' - 1)"
    using assms unfolding NewOrderIdHolder_def wd_ok_def NumDistrictsPerWarehouse_def by linarith
  then show ?thesis using assms(1,2) by (simp add: wd_ok_def NumDistrictsPerWarehouse_def) presburger
qed

lemma holder_bound:
  assumes "wd_ok cfg w d"
  shows "NewOrderIdHolder cfg w d < nat (NumWarehouses cfg * NumDistrictsPerWarehouse)"
proof -
  have "(w - 1) * 10 \<le> (NumWarehouses cfg - 1) * 10" using assms by (simp add: wd_ok_def)
  then show ?thesis using assms by (simp add: NewOrderIdHolder_def wd_ok_def NumDistrictsPerWarehouse_def)
qed

lemma next_o_id_ids:
  assumes "wd_ok cfg w d" "wd_ok cfg w' d'" "length ids = nat (NumWarehouses cfg * NumDistrictsPerWarehouse)"
    and "new_order_fast_id_gen cfg" "next_o_id cfg ids t w d < 2 ^ 32"
  shows "next_o_id cfg (ids[NewOrderIdHolder cfg w d := ids ! NewOrderIdHolder cfg w d + 1]) t w' d' =
    (if w' = w \<and> d' = d then next_o_id cfg ids t w d + 1 else next_o_id cfg ids t w' d')"
proof -
  have "uint (ids ! NewOrderIdHolder cfg w d + 1) = uint (ids ! NewOrderIdHolder cfg w d) + 1"
    using assms(4,5) uint_ge_0 [of "ids ! NewOrderIdHolder cfg w d"] by (simp add: next_o_id_def uint_word_ariths)
  then show ?thesis using assms holder_bound [OF assms(1)] holder_inj [OF assms(1,2)]
    by (auto simp: next_o_id_def nth_list_update)
qed

lemma next_o_id_district:
  assumes "tbl_ok t" "\<not> new_order_fast_id_gen cfg" "d_next_o_id v = next_o_id cfg ids t w d + 1"
  shows "next_o_id cfg ids (tbl_put (w, d) v t) w' d' =
    (if w' = w \<and> d' = d then next_o_id cfg ids t w d + 1 else next_o_id cfg ids t w' d')"
  using assms by (auto simp: next_o_id_def tbl.get_put)


lemma new_order_id:
  assumes "districts_ok cfg N ids t" "wd_ok cfg w d" "tbl_get t (w, d) = Some v_d" "N \<le> 100000000"
  shows "(if new_order_fast_id_gen cfg then bind_res (FastNewOrderIdGen cfg w d ids) (\<lambda>(n, ids'). Inr (to_i32 (uint n), ids'))
      else Inr (d_next_o_id v_d, ids)) =
    Inr (next_o_id cfg ids t w d,
      if new_order_fast_id_gen cfg then ids[NewOrderIdHolder cfg w d := ids ! NewOrderIdHolder cfg w d + 1] else ids)"
proof (cases "new_order_fast_id_gen cfg")
  case True
  have "next_o_id cfg ids t w d \<le> 3001 + N" "3001 \<le> next_o_id cfg ids t w d"
    "length ids = nat (NumWarehouses cfg * NumDistrictsPerWarehouse)"
    using assms(1,2) by (auto simp: districts_ok_def)
  then show ?thesis using True assms(4) holder_bound [OF assms(2)]
    by (simp add: FastNewOrderIdGen_def next_o_id_def Let_def to_i32_def)
qed (use assms(3) in \<open>simp add: next_o_id_def\<close>)

lemma districts_ok_new:
  assumes "districts_ok cfg N ids t" "length ids' = length ids"
    and "\<And>w d. wd_ok cfg w d \<Longrightarrow> \<exists>v. tbl_get t' (w, d) = Some v \<and> SanityCheckDistrict (NumWarehouses cfg) (w, d) v"
    and "\<And>w d. wd_ok cfg w d \<Longrightarrow> next_o_id cfg ids' t' w d = next_o_id cfg ids t w d + (if b w d then 1 else 0)"
  shows "districts_ok cfg (N + 1) ids' t'"
  using assms(1,2) unfolding districts_ok_def
  by (force simp: assms(3,4))

lemma stock_ok_mono: "stock_ok cfg b t \<Longrightarrow> b \<le> b' \<Longrightarrow> stock_ok cfg b' t"
  unfolding stock_ok_def by (meson order_trans)

lemma customers_ok_mono: "customers_ok cfg N t \<Longrightarrow> N \<le> M \<Longrightarrow> customers_ok cfg M t"
  unfolding customers_ok_def by (meson order_trans add_left_mono)

lemma inv_mono:
  assumes "tpcc_inv cfg N s" "N \<le> M"
  shows "tpcc_inv cfg M s"
proof -
  have "districts_ok cfg M ids t" if "districts_ok cfg N ids t" for ids t
    using that assms(2) unfolding districts_ok_def by force
  then show ?thesis using assms by (auto simp: tpcc_inv_defs intro: stock_ok_mono customers_ok_mono)
qed

lemma orders_okD:
  assumes "orders_ok cfg nxt os ns" "tbl_get os (w, d, o') = Some v"
  shows "SanityCheckOOrder (NumWarehouses cfg) (w, d, o') v" "1 \<le> o'" "o' < nxt w d"
  using assms unfolding orders_ok_def by blast+

lemma orders_ok_new_order:
  "orders_ok cfg nxt os ns \<Longrightarrow> tbl_get ns (w, d, o') \<noteq> None \<longleftrightarrow> (\<exists>v. tbl_get os (w, d, o') = Some v \<and> o_carrier_id v = 0)"
  unfolding orders_ok_def by blast

lemma lines_ok_line:
  "lines_ok cfg ls os \<Longrightarrow> tbl_get ls (w, d, o', l) \<noteq> None \<longleftrightarrow> (\<exists>v. tbl_get os (w, d, o') = Some v \<and> 1 \<le> l \<and> l \<le> o_ol_cnt v)"
  unfolding lines_ok_def by blast

lemma index_ok_entry:
  "index_ok cfg t os \<Longrightarrow> tbl_get t (w, d, c, o') \<noteq> None \<longleftrightarrow> (\<exists>v. tbl_get os (w, d, o') = Some v \<and> o_c_id v = c)"
  unfolding index_ok_def by blast

lemma orders_ok_dense:
  "orders_ok cfg nxt os ns \<Longrightarrow> \<not> new_order_fast_id_gen cfg \<Longrightarrow> wd_ok cfg w d \<Longrightarrow> 1 \<le> o' \<Longrightarrow> o' < nxt w d \<Longrightarrow>
    tbl_get os (w, d, o') \<noteq> None"
  unfolding orders_ok_def by blast

lemma orders_ok_nxt:
  assumes "orders_ok cfg nxt os ns" "\<And>w d. wd_ok cfg w d \<Longrightarrow> nxt w d \<le> nxt' w d"
    "\<not> new_order_fast_id_gen cfg \<Longrightarrow> nxt' = nxt"
  shows "orders_ok cfg nxt' os ns"
proof -
  have "wd_ok cfg w' d'" if "SanityCheckOOrder (NumWarehouses cfg) (w', d', p) u" for w' d' p u
    using that by (simp add: SanityCheckOOrder_def wd_ok_def)
  then have "\<And>w d o' v. SanityCheckOOrder (NumWarehouses cfg) (w, d, o') v \<Longrightarrow> o' < nxt w d \<Longrightarrow> o' < nxt' w d"
    using assms(2) by (meson order_less_le_trans)
  then show ?thesis using assms(1,3) unfolding orders_ok_def by (cases "new_order_fast_id_gen cfg") (blast | simp)+
qed

text \<open>The counters, the district and the database with the new order but without its lines.\<close>

definition taken_id :: "tpcc_cfg \<Rightarrow> int \<Rightarrow> int \<Rightarrow> u64 list \<Rightarrow> u64 list" where
  "taken_id cfg w d ids = (if new_order_fast_id_gen cfg
     then ids[NewOrderIdHolder cfg w d := ids ! NewOrderIdHolder cfg w d + 1] else ids)"

definition moved_district :: "tpcc_cfg \<Rightarrow> int \<Rightarrow> int \<Rightarrow> district_v \<Rightarrow> int \<Rightarrow> (int \<times> int, district_v) table \<Rightarrow> (int \<times> int, district_v) table" where
  "moved_district cfg w d v_d n t = (if new_order_fast_id_gen cfg then t else tbl_put (w, d) (v_d\<lparr>d_next_o_id := n + 1\<rparr>) t)"

definition order_row :: "new_order_in \<Rightarrow> u32 \<Rightarrow> oorder_v" where
  "order_row inp ts = \<lparr>o_c_id = no_c inp, o_carrier_id = 0, o_ol_cnt = to_i8 (int (length (no_items inp))),
     o_all_local = no_local inp, o_entry_d = ts\<rparr>"

definition with_order :: "tpcc_cfg \<Rightarrow> new_order_in \<Rightarrow> u32 \<Rightarrow> int \<Rightarrow> district_v \<Rightarrow> tpcc_db \<Rightarrow> tpcc_db" where
  "with_order cfg inp ts n v_d D =
     D\<lparr>new_order := tbl_put (no_w inp, no_d inp, n) new_order_value (new_order D),
       district := moved_district cfg (no_w inp) (no_d inp) v_d n (district D),
       oorder := tbl_put (no_w inp, no_d inp, n) (order_row inp ts) (oorder D),
       oorder_c_id_idx := tbl_put (no_w inp, no_d inp, no_c inp, n) 0 (oorder_c_id_idx D)\<rparr>"

lemma order_row_ok:
  assumes "new_order_ok cfg inp"
  shows "o_ol_cnt (order_row inp ts) = int (length (no_items inp))" "o_carrier_id (order_row inp ts) = 0"
    "o_c_id (order_row inp ts) = no_c inp" "SanityCheckOOrder (NumWarehouses cfg) (no_w inp, no_d inp, n) (order_row inp ts)"
  using assms by (auto simp: order_row_def new_order_ok_def SanityCheckOOrder_def wd_ok_def to_i8_def)

lemma new_order_rows_run:
  assumes "tbl_get (new_order D) (no_w inp, no_d inp, n) = None" "tbl_get (oorder D) (no_w inp, no_d inp, n) = None"
    and "tbl_get (oorder_c_id_idx D) (no_w inp, no_d inp, no_c inp, n) = None"
    and "\<not> new_order_fast_id_gen cfg \<Longrightarrow> d_next_o_id v_d = n" "1 \<le> n" "n < 2 ^ 31 - 1"
  shows "new_order_rows cfg inp ts v_d n D = Inr (new_order_size + oorder_size (order_row inp ts), with_order cfg inp ts n v_d D)"
proof -
  have "(if new_order_fast_id_gen cfg then Inr (district D) else bind_res (i32_add (d_next_o_id v_d) 1) (\<lambda>nxt.
      Inr (tbl_put (no_w inp, no_d inp) (v_d\<lparr>d_next_o_id := nxt\<rparr>) (district D)))) =
    Inr (moved_district cfg (no_w inp) (no_d inp) v_d n (district D))"
    using assms(4-6) by (simp add: i32_addI moved_district_def)
  then show ?thesis unfolding new_order_rows_def using assms(1-3)
    by (simp add: tbl_insert_fresh order_row_def with_order_def Let_def)
qed

text \<open>The id of the next order of a district is new in every table.\<close>

lemma next_id_fresh:
  assumes "tpcc_inv cfg N s" "n = next_o_id cfg (t_ids s) (district (t_db s)) w d"
  shows "tbl_get (oorder (t_db s)) (w, d, n) = None" "tbl_get (new_order (t_db s)) (w, d, n) = None"
    "tbl_get (oorder_c_id_idx (t_db s)) (w, d, c, n) = None" "tbl_get (order_line (t_db s)) (w, d, n, l) = None"
proof -
  note D = tpcc_invD [OF assms(1)]
  show fresh: "tbl_get (oorder (t_db s)) (w, d, n) = None" using orders_okD(3) [OF D(9)] assms(2) by force
  show "tbl_get (new_order (t_db s)) (w, d, n) = None" using orders_ok_new_order [OF D(9), of w d n] fresh by simp
  show "tbl_get (oorder_c_id_idx (t_db s)) (w, d, c, n) = None" using index_ok_entry [OF D(8), of w d _ n] fresh by simp
  show "tbl_get (order_line (t_db s)) (w, d, n, l) = None" using lines_ok_line [OF D(10), of w d n] fresh by simp
qed

lemma next_id_range:
  assumes "tpcc_inv cfg N s" "wd_ok cfg w d"
  shows "3001 \<le> next_o_id cfg (t_ids s) (district (t_db s)) w d" "next_o_id cfg (t_ids s) (district (t_db s)) w d \<le> 3001 + N"
  using tpcc_invD(5) [OF assms(1)] assms(2) by (auto simp: districts_ok_def)

lemma new_order_body_run:
  assumes inv: "tpcc_inv cfg N s" and inp: "new_order_ok cfg inp" and N: "0 \<le> N" "N < 100000000"
    and n: "n = next_o_id cfg (t_ids s) (district (t_db s)) (no_w inp) (no_d inp)"
  shows "\<exists>ret v_d S L. new_order_body cfg inp ts (t_ids s) (t_db s) =
      Inr (ret, taken_id cfg (no_w inp) (no_d inp) (t_ids s), (with_order cfg inp ts n v_d (t_db s))\<lparr>stock := S, order_line := L\<rparr>) \<and>
    tbl_get (district (t_db s)) (no_w inp, no_d inp) = Some v_d \<and> tbl_ok S \<and> tbl_ok L \<and> stock_ok cfg (15 * (N + 1)) S \<and>
    (\<forall>k v. tbl_get L k = Some v \<longrightarrow> tbl_get (order_line (t_db s)) k = Some v \<or> 1 \<le> ol_i_id v \<and> ol_i_id v \<le> NumItems) \<and>
    (\<forall>k. tbl_get L k \<noteq> None \<longleftrightarrow> tbl_get (order_line (t_db s)) k \<noteq> None \<or>
      (\<exists>l. k = (no_w inp, no_d inp, n, l) \<and> 1 \<le> l \<and> l < 1 + int (length (no_items inp))))"
proof -
  let ?w = "no_w inp" and ?d = "no_d inp" and ?D = "t_db s" and ?r = "new_order_size + oorder_size (order_row inp ts)"
  note D = tpcc_invD [OF inv]
  have wd: "wd_ok cfg ?w ?d" using inp by (simp add: new_order_ok_def)
  obtain v_c where c: "tbl_get (customer ?D) (?w, ?d, no_c inp) = Some v_c"
      "SanityCheckCustomer (NumWarehouses cfg) (?w, ?d, no_c inp) v_c"
    using D(6) inp unfolding customers_ok_def new_order_ok_def by blast
  obtain v_w where v_w: "tbl_get (warehouse ?D) ?w = Some v_w" "SanityCheckWarehouse (NumWarehouses cfg) ?w v_w"
    using D(2) wd unfolding warehouses_ok_def wd_ok_def by blast
  obtain v_d where v_d: "tbl_get (district ?D) (?w, ?d) = Some v_d" "SanityCheckDistrict (NumWarehouses cfg) (?w, ?d) v_d"
    using D(5) wd unfolding districts_ok_def by blast
  define D1 where "D1 = with_order cfg inp ts n v_d ?D"
  have rows: "new_order_rows cfg inp ts v_d n ?D = Inr (?r, D1)"
    unfolding D1_def using next_id_fresh [OF inv n] next_id_range [OF inv wd] n N v_d(1)
    by (intro new_order_rows_run) (simp_all add: next_o_id_def)
  have "tbl_ok (stock D1)" "tbl_ok (order_line D1)" "items_ok (item D1)" "stock_ok cfg (15 * N) (stock D1)"
    using D(1,3,4) by (simp_all add: D1_def with_order_def tables_ok_def)
  then obtain ret S L where lines: "order_lines cfg ?w ?d n 1 (no_items inp) ?r D1 = Inr (ret, D1\<lparr>stock := S, order_line := L\<rparr>)"
      "tbl_ok S" "tbl_ok L" "stock_ok cfg (15 * N + int (length (no_items inp))) S"
      "\<forall>k v. tbl_get L k = Some v \<longrightarrow> tbl_get (order_line ?D) k = Some v \<or> 1 \<le> ol_i_id v \<and> ol_i_id v \<le> NumItems"
      "\<forall>k. tbl_get L k \<noteq> None \<longleftrightarrow> tbl_get (order_line ?D) k \<noteq> None \<or>
        (\<exists>l. k = (?w, ?d, n, l) \<and> 1 \<le> l \<and> l < 1 + int (length (no_items inp)))"
    using order_lines_spec [of cfg "no_items inp" D1 "15 * N" 1 ?w ?d n ?r] inp next_id_fresh(4) [OF inv n] N
    by (auto simp: D1_def with_order_def new_order_ok_def)
  have "new_order_body cfg inp ts (t_ids s) ?D = Inr (ret, taken_id cfg ?w ?d (t_ids s), D1\<lparr>stock := S, order_line := L\<rparr>)"
    using c v_w v_d rows lines(1) new_order_id [OF D(5) wd v_d(1)] N
    unfolding new_order_body_def by (simp add: must_getI n [symmetric] taken_id_def)
  moreover have "stock_ok cfg (15 * (N + 1)) S" using inp by (intro stock_ok_mono [OF lines(4)]) (simp add: new_order_ok_def)
  ultimately show ?thesis using v_d(1) lines(2,3,5,6) unfolding D1_def by blast
qed

lemma taken_next:
  assumes inv: "tpcc_inv cfg N s" and wd: "wd_ok cfg w d" "wd_ok cfg w' d'" and N: "N < 100000000" and fast: "new_order_fast_id_gen cfg"
  shows "next_o_id cfg (taken_id cfg w d (t_ids s)) (district (t_db s)) w' d' =
    next_o_id cfg (t_ids s) (district (t_db s)) w' d' + (if w' = w \<and> d' = d then 1 else 0)"
proof -
  have "length (t_ids s) = nat (NumWarehouses cfg * NumDistrictsPerWarehouse)" using tpcc_invD(5) [OF inv] by (simp add: districts_ok_def)
  then show ?thesis using next_o_id_ids [OF wd _ fast] next_id_range [OF inv wd(1)] N by (simp add: taken_id_def fast)
qed

text \<open>When the transaction aborts, an id taken from the counters is lost.\<close>

lemma new_order_abort:
  assumes inv: "tpcc_inv cfg N s" and wd: "wd_ok cfg w d" and N: "N < 100000000"
  shows "tpcc_inv cfg (N + 1) (s\<lparr>t_ids := taken_id cfg w d (t_ids s), t_db := t_db s\<rparr>)"
proof (cases "new_order_fast_id_gen cfg")
  case True
  note D = tpcc_invD [OF inv] and nxt = taken_next [OF inv wd _ N True]
  have "districts_ok cfg (N + 1) (taken_id cfg w d (t_ids s)) (district (t_db s))"
    by (rule districts_ok_new [OF D(5) _ _ nxt]) (use D(5) in \<open>auto simp: taken_id_def districts_ok_def\<close>)
  moreover have "orders_ok cfg (next_o_id cfg (taken_id cfg w d (t_ids s)) (district (t_db s))) (oorder (t_db s)) (new_order (t_db s))"
    by (rule orders_ok_nxt [OF D(9)]) (use nxt True in auto)
  ultimately show ?thesis using inv_mono [OF inv, of "N + 1"] by (simp add: tpcc_inv_defs)
next
  case False
  then show ?thesis using inv_mono [OF inv, of "N + 1"] by (simp add: taken_id_def)
qed

lemma moved_next:
  assumes inv: "tpcc_inv cfg N s" and wd: "wd_ok cfg w d" "wd_ok cfg w' d'" and N: "N < 100000000"
    and n: "n = next_o_id cfg (t_ids s) (district (t_db s)) w d"
  shows "next_o_id cfg (taken_id cfg w d (t_ids s)) (moved_district cfg w d v_d n (district (t_db s))) w' d' =
    next_o_id cfg (t_ids s) (district (t_db s)) w' d' + (if w' = w \<and> d' = d then 1 else 0)"
proof (cases "new_order_fast_id_gen cfg")
  case True
  then show ?thesis using taken_next [OF inv wd N True] by (simp add: moved_district_def)
next
  case False
  have "tbl_ok (district (t_db s))" using tpcc_invD(1) [OF inv] by (simp add: tables_ok_def)
  from next_o_id_district [OF this False, of "v_d\<lparr>d_next_o_id := n + 1\<rparr>" "t_ids s" w d w' d'] show ?thesis
    using False n by (auto simp: taken_id_def moved_district_def)
qed

lemma moved_districts:
  assumes inv: "tpcc_inv cfg N s" and wd: "wd_ok cfg w d" and N: "N < 100000000"
    and n: "n = next_o_id cfg (t_ids s) (district (t_db s)) w d" and v_d: "tbl_get (district (t_db s)) (w, d) = Some v_d"
  shows "districts_ok cfg (N + 1) (taken_id cfg w d (t_ids s)) (moved_district cfg w d v_d n (district (t_db s)))"
proof (rule districts_ok_new [OF tpcc_invD(5) [OF inv] _ _ moved_next [OF inv wd _ N n]])
  have ok: "tbl_ok (district (t_db s))" using tpcc_invD(1) [OF inv] by (simp add: tables_ok_def)
  fix w' d'
  assume wd': "wd_ok cfg w' d'"
  have *: "\<exists>v. tbl_get (district (t_db s)) (w', d') = Some v \<and> SanityCheckDistrict (NumWarehouses cfg) (w', d') v"
    "\<exists>v. tbl_get (district (t_db s)) (w, d) = Some v \<and> SanityCheckDistrict (NumWarehouses cfg) (w, d) v"
    using tpcc_invD(5) [OF inv] wd wd' by (simp_all add: districts_ok_def)
  show "\<exists>v. tbl_get (moved_district cfg w d v_d n (district (t_db s))) (w', d') = Some v \<and> SanityCheckDistrict (NumWarehouses cfg) (w', d') v"
    using * v_d next_id_range(1) [OF inv wd] n by (auto simp: moved_district_def tbl.get_put [OF ok] SanityCheckDistrict_def)
qed (simp_all add: taken_id_def)

lemma new_order_keeps:
  assumes inv: "tpcc_inv cfg N s" and inp: "new_order_ok cfg inp" and N: "0 \<le> N" "N < 100000000"
  shows "\<exists>ret ids' D'. new_order_body cfg inp ts (t_ids s) (t_db s) = Inr (ret, ids', D') \<and>
    tpcc_inv cfg (N + 1) (s\<lparr>t_ids := ids', t_db := D'\<rparr>) \<and> tpcc_inv cfg (N + 1) (s\<lparr>t_ids := ids', t_db := t_db s\<rparr>)"
proof -
  let ?w = "no_w inp" and ?d = "no_d inp" and ?D = "t_db s" and ?ids = "taken_id cfg (no_w inp) (no_d inp) (t_ids s)"
  define n where "n = next_o_id cfg (t_ids s) (district ?D) ?w ?d"
  note D = tpcc_invD [OF inv] and v = order_row_ok [OF inp, where ts = ts] and fresh = next_id_fresh [OF inv n_def]
  have wd: "wd_ok cfg ?w ?d" using inp by (simp add: new_order_ok_def)
  have tbls: "tbl_ok (oorder ?D)" "tbl_ok (district ?D)" "tbl_ok (new_order ?D)" "tbl_ok (oorder_c_id_idx ?D)"
    using D(1) by (auto simp: tables_ok_def)
  obtain ret v_d S L where body: "new_order_body cfg inp ts (t_ids s) ?D =
        Inr (ret, ?ids, (with_order cfg inp ts n v_d ?D)\<lparr>stock := S, order_line := L\<rparr>)"
      "tbl_get (district ?D) (?w, ?d) = Some v_d" "tbl_ok S" "tbl_ok L" "stock_ok cfg (15 * (N + 1)) S"
      "\<forall>k v. tbl_get L k = Some v \<longrightarrow> tbl_get (order_line ?D) k = Some v \<or> 1 \<le> ol_i_id v \<and> ol_i_id v \<le> NumItems"
      "\<forall>k. tbl_get L k \<noteq> None \<longleftrightarrow> tbl_get (order_line ?D) k \<noteq> None \<or>
        (\<exists>l. k = (?w, ?d, n, l) \<and> 1 \<le> l \<and> l < 1 + int (length (no_items inp)))"
    using new_order_body_run [OF inv inp N n_def, of ts] by (elim exE conjE) (rule that; assumption)
  define D2 where "D2 = (with_order cfg inp ts n v_d ?D)\<lparr>stock := S, order_line := L\<rparr>"
  have nxt: "next_o_id cfg ?ids (district D2) w' d' = (if w' = ?w \<and> d' = ?d then n + 1 else next_o_id cfg (t_ids s) (district ?D) w' d')"
    if "wd_ok cfg w' d'" for w' d'
    using moved_next [OF inv wd that N(2) n_def, of v_d] n_def by (auto simp: D2_def with_order_def)
  have "1 \<le> n" using next_id_range(1) [OF inv wd] by (simp add: n_def)
  then have "orders_ok cfg (next_o_id cfg ?ids (district D2)) (oorder D2) (new_order D2)"
    using orders_ok_new [OF D(9) tbls(1,3) wd n_def _ nxt v(4,2), of new_order_value] by (simp add: D2_def with_order_def)
  moreover have "index_ok cfg (oorder_c_id_idx D2) (oorder D2)"
    using index_ok_new [OF D(8) tbls(4,1) fresh(1), of "order_row inp ts" 0] v(3) by (simp add: D2_def with_order_def)
  moreover have "lines_ok cfg L (oorder D2)"
    using lines_ok_new [OF D(10) tbls(1) fresh(1) v(1) body(6,7)] by (simp add: D2_def with_order_def)
  moreover have "tables_ok D2"
    using D(1) body(3,4) tbls by (simp add: tables_ok_def D2_def with_order_def moved_district_def tbl.put_ok)
  moreover note customers_ok_mono [OF D(6), of "N + 1"] moved_districts [OF inv wd N(2) n_def body(2)]
  ultimately have "tpcc_inv cfg (N + 1) (s\<lparr>t_ids := ?ids, t_db := D2\<rparr>)"
    using D(2,3,7) body(5) by (simp add: tpcc_inv_defs D2_def with_order_def)
  then show ?thesis using body(1) new_order_abort [OF inv wd N(2)] unfolding D2_def by blast
qed

section \<open>Payment\<close>

definition customer_sel_ok :: "string + int \<Rightarrow> bool" where
  "customer_sel_ok cu \<longleftrightarrow> (case cu of Inl s \<Rightarrow> is_last_name s | Inr c \<Rightarrow> 1 \<le> c \<and> c \<le> NumCustomersPerDistrict)"

definition payment_ok :: "tpcc_cfg \<Rightarrow> payment_in \<Rightarrow> bool" where
  "payment_ok cfg inp \<longleftrightarrow> wd_ok cfg (p_w inp) (p_d inp) \<and> wd_ok cfg (p_cw inp) (p_cd inp) \<and> customer_sel_ok (p_cust inp)"

lemma customer_by_name_ok:
  assumes "names_ok cfg (customer_name_idx D)" "tbl_ok (customer_name_idx D)" "wd_ok cfg w d" "is_last_name s"
  shows "\<exists>c. customer_by_name w d s D = Inr c \<and> 1 \<le> c \<and> c \<le> NumCustomersPerDistrict"
proof -
  define es where "es = tbl_scan (w, d, pad0 16 s, zeros) (w, d, pad0 16 s, ones) (customer_name_idx D)"
  have es: "es \<noteq> []" "length es < NMaxCustomerIdxScanElems" using assms unfolding names_ok_def es_def by blast+
  then have vals: "scan_loop (static_limit_callback NMaxCustomerIdxScanElems) es [] = es"
    using static_limit_take [of "[]" NMaxCustomerIdxScanElems es] by simp
  define i where "i = (if length es mod 2 = 0 then length es div 2 - 1 else length es div 2)"
  have "i < length es" using es(1) unfolding i_def by (cases es) auto
  then have "es ! i \<in> set es" by simp
  then have "tbl_get (customer_name_idx D) (fst (es ! i)) = Some (snd (es ! i))"
    unfolding es_def tbl.scan_set [OF assms(2)] by (simp add: case_prod_beta)
  then have "1 \<le> snd (es ! i) \<and> snd (es ! i) \<le> NumCustomersPerDistrict"
    using assms(1) unfolding names_ok_def by (metis prod_cases4)
  then show ?thesis using es unfolding customer_by_name_def es_def [symmetric] vals Let_def i_def [symmetric] by simp
qed

lemma find_customer_ok:
  assumes "names_ok cfg (customer_name_idx D)" "tbl_ok (customer_name_idx D)" "customers_ok cfg N (customer D)"
    and wd: "wd_ok cfg w d" and "customer_sel_ok cu"
  shows "\<exists>c v. find_customer cfg w d cu D = Inr (c, v) \<and> 1 \<le> c \<and> c \<le> NumCustomersPerDistrict \<and>
    tbl_get (customer D) (w, d, c) = Some v \<and> SanityCheckCustomer (NumWarehouses cfg) (w, d, c) v \<and>
    0 \<le> c_payment_cnt v \<and> c_payment_cnt v \<le> 1 + N"
proof -
  obtain c where c: "(case cu of Inl s \<Rightarrow> customer_by_name w d s D | Inr c \<Rightarrow> Inr c) = Inr c" "1 \<le> c" "c \<le> NumCustomersPerDistrict"
    using assms(5) customer_by_name_ok [OF assms(1,2) wd] by (cases cu) (auto simp: customer_sel_ok_def)
  obtain v where "tbl_get (customer D) (w, d, c) = Some v" "SanityCheckCustomer (NumWarehouses cfg) (w, d, c) v"
      "0 \<le> c_payment_cnt v" "c_payment_cnt v \<le> 1 + N"
    using assms(3) wd c(2,3) unfolding customers_ok_def by blast
  then show ?thesis using c by (simp add: find_customer_def must_getI)
qed

lemma next_o_id_put:
  assumes "tbl_ok t" "tbl_get t (w, d) = Some v" "d_next_o_id v' = d_next_o_id v"
  shows "next_o_id cfg ids (tbl_put (w, d) v' t) = next_o_id cfg ids t"
  using assms by (auto simp: next_o_id_def tbl.get_put fun_eq_iff)

lemma customers_ok_put:
  assumes "customers_ok cfg N t" "tbl_ok t" "SanityCheckCustomer (NumWarehouses cfg) (w, d, c) v"
    "0 \<le> c_payment_cnt v" "c_payment_cnt v \<le> 1 + N"
  shows "customers_ok cfg N (tbl_put (w, d, c) v t)"
  using assms(1,3-5) by (simp add: customers_ok_def tbl.get_put [OF assms(2)])

lemma payment_keeps:
  assumes inv: "tpcc_inv cfg N s" and inp: "payment_ok cfg inp" and N: "0 \<le> N" "N < 100000000"
  shows "\<exists>ret D'. payment_body cfg inp ts (t_db s) = Inr (ret, D') \<and> tpcc_inv cfg (N + 1) (s\<lparr>t_db := D'\<rparr>)"
proof -
  define D where "D = t_db s"
  have D: "tables_ok D" "warehouses_ok cfg (warehouse D)" "districts_ok cfg N (t_ids s) (district D)"
      "customers_ok cfg N (customer D)" "names_ok cfg (customer_name_idx D)" "tpcc_inv cfg (N + 1) s"
    using inv inv_mono [OF inv, of "N + 1"] by (simp_all add: tpcc_inv_defs D_def)
  have wd: "wd_ok cfg (p_w inp) (p_d inp)" "wd_ok cfg (p_cw inp) (p_cd inp)" "customer_sel_ok (p_cust inp)"
    using inp by (auto simp: payment_ok_def)
  have tbls: "tbl_ok (warehouse D)" "tbl_ok (district D)" "tbl_ok (customer D)" "tbl_ok (customer_name_idx D)" "tbl_ok (history D)"
    using D(1) by (auto simp: tables_ok_def)
  obtain v_w where v_w: "tbl_get (warehouse D) (p_w inp) = Some v_w" "SanityCheckWarehouse (NumWarehouses cfg) (p_w inp) v_w"
    using D(2) wd(1) unfolding warehouses_ok_def wd_ok_def by blast
  obtain v_d where v_d: "tbl_get (district D) (p_w inp, p_d inp) = Some v_d"
      "SanityCheckDistrict (NumWarehouses cfg) (p_w inp, p_d inp) v_d"
    using D(3) wd(1) unfolding districts_ok_def by blast
  obtain c v_c where c: "find_customer cfg (p_cw inp) (p_cd inp) (p_cust inp) D = Inr (c, v_c)"
      "1 \<le> c" "c \<le> NumCustomersPerDistrict"
      "SanityCheckCustomer (NumWarehouses cfg) (p_cw inp, p_cd inp, c) v_c" "0 \<le> c_payment_cnt v_c" "c_payment_cnt v_c \<le> 1 + N"
    using find_customer_ok [OF D(5) tbls(4) D(4) wd(2,3)] by blast
  define ws where "ws = tbl_put (p_w inp) (v_w\<lparr>w_ytd := add_float (w_ytd v_w) (p_amount inp)\<rparr>) (warehouse D)"
  define ds where "ds = tbl_put (p_w inp, p_d inp) (v_d\<lparr>d_ytd := add_float (d_ytd v_d) (p_amount inp)\<rparr>) (district D)"
  define cs where "cs = tbl_put (p_cw inp, p_cd inp, c) (pay_customer inp c (c_payment_cnt v_c + 1) v_c) (customer D)"
  define hs where "hs = tbl_put (p_cd inp, p_cw inp, c, p_d inp, p_w inp, ts)
      \<lparr>h_amount = p_amount inp, h_data = history_data v_w v_d\<rparr> (history D)"
  have body: "payment_body cfg inp ts D = Inr (history_size, D\<lparr>warehouse := ws, district := ds, customer := cs, history := hs\<rparr>)"
    using v_w v_d c N by (simp add: payment_body_def must_getI i32_addI ws_def ds_def cs_def hs_def)
  have nxt: "next_o_id cfg (t_ids s) ds = next_o_id cfg (t_ids s) (district D)"
    unfolding ds_def by (rule next_o_id_put [OF tbls(2) v_d(1)]) simp
  have "warehouses_ok cfg ws"
    using D(2) v_w(2) by (auto simp: warehouses_ok_def ws_def tbl.get_put [OF tbls(1)] SanityCheckWarehouse_def)
  moreover have "districts_ok cfg (N + 1) (t_ids s) ds"
  proof (rule districts_ok_new [OF D(3), where b = "\<lambda>_ _. False"])
    fix w d
    assume "wd_ok cfg w d"
    then show "\<exists>v. tbl_get ds (w, d) = Some v \<and> SanityCheckDistrict (NumWarehouses cfg) (w, d) v"
      using D(3) v_d(2) by (auto simp: districts_ok_def ds_def tbl.get_put [OF tbls(2)] SanityCheckDistrict_def)
  qed (simp_all add: nxt)
  moreover have "customers_ok cfg (N + 1) cs"
    unfolding cs_def using c(4-6)
    by (intro customers_ok_put [OF customers_ok_mono [OF D(4)] tbls(3)]) (auto simp: pay_customer_def SanityCheckCustomer_def)
  moreover have "tables_ok (D\<lparr>warehouse := ws, district := ds, customer := cs, history := hs\<rparr>)"
    using D(1) tbls by (simp add: tables_ok_def ws_def ds_def cs_def hs_def tbl.put_ok)
  ultimately have "tpcc_inv cfg (N + 1) (s\<lparr>t_db := D\<lparr>warehouse := ws, district := ds, customer := cs, history := hs\<rparr>\<rparr>)"
    using D(6) by (simp add: tpcc_inv_defs nxt D_def [symmetric])
  then show ?thesis using body unfolding D_def by blast
qed


section \<open>Delivery\<close>

lemma line_keys:
  fixes w d o' l m :: int
  assumes "(w, d, o', l) \<le> k" "k < (w, d, o', m)"
  shows "\<exists>i. k = (w, d, o', i) \<and> l \<le> i \<and> i < m"
  using assms by (cases k) auto

lemma put_lines:
  assumes "\<And>k v. (k, v) \<in> set es \<Longrightarrow> \<exists>u. tbl_get t k = Some u \<and> ol_i_id (f v) = ol_i_id u" "tbl_ok t"
  shows "tbl_ok (fold (\<lambda>(k, v). tbl_put k (f v)) es t) \<and>
    map_option ol_i_id (tbl_get (fold (\<lambda>(k, v). tbl_put k (f v)) es t) x) = map_option ol_i_id (tbl_get t x)"
  using assms
proof (induction es arbitrary: t)
  case (Cons e es)
  obtain k v where e: "e = (k, v)" by (cases e)
  obtain u where u: "tbl_get t k = Some u" "ol_i_id (f v) = ol_i_id u" using Cons.prems(1) [of k v] by (auto simp: e)
  have ok: "tbl_ok (tbl_put k (f v) t)" by (rule tbl.put_ok [OF Cons.prems(2)])
  have get: "\<exists>u. tbl_get (tbl_put k (f v) t) k' = Some u \<and> ol_i_id (f v') = ol_i_id u" if "(k', v') \<in> set es" for k' v'
    using Cons.prems(1) [of k' v'] that u by (auto simp: tbl.get_put [OF Cons.prems(2)])
  have "map_option ol_i_id (tbl_get (tbl_put k (f v) t) x) = map_option ol_i_id (tbl_get t x)"
    using u by (simp add: tbl.get_put [OF Cons.prems(2)])
  then show ?case using Cons.IH [OF get ok] by (simp add: e)
qed simp

lemma lines_ok_same:
  assumes "lines_ok cfg ls os" "\<And>x. map_option ol_i_id (tbl_get ls' x) = map_option ol_i_id (tbl_get ls x)"
  shows "lines_ok cfg ls' os"
proof -
  have "tbl_get ls' x \<noteq> None \<longleftrightarrow> tbl_get ls x \<noteq> None" for x using assms(2) [of x] by (metis map_option_is_None)
  then have "tbl_get ls' (w, d, o', l) \<noteq> None \<longleftrightarrow> (\<exists>v. tbl_get os (w, d, o') = Some v \<and> 1 \<le> l \<and> l \<le> o_ol_cnt v)"
    for w d o' l using lines_ok_line [OF assms(1)] by simp
  moreover have "1 \<le> ol_i_id v \<and> ol_i_id v \<le> NumItems" if "tbl_get ls' (w, d, o', l) = Some v" for w d o' l v
  proof -
    obtain u where "tbl_get ls (w, d, o', l) = Some u" "ol_i_id u = ol_i_id v"
      using assms(2) [of "(w, d, o', l)"] \<open>tbl_get ls' (w, d, o', l) = Some v\<close> by (cases "tbl_get ls (w, d, o', l)") auto
    then show ?thesis using assms(1) unfolding lines_ok_def by metis
  qed
  ultimately show ?thesis unfolding lines_ok_def by blast
qed

lemma lines_ok_order:
  assumes "lines_ok cfg ls os" "tbl_ok os" "tbl_get os (w, d, o') = Some v" "o_ol_cnt v' = o_ol_cnt v"
  shows "lines_ok cfg ls (tbl_put (w, d, o') v' os)"
  using assms by (auto simp: lines_ok_def tbl.get_put [OF assms(2)])

lemma index_ok_order:
  assumes "index_ok cfg t os" "tbl_ok os" "tbl_get os (w, d, o') = Some v" "o_c_id v' = o_c_id v"
  shows "index_ok cfg t (tbl_put (w, d, o') v' os)"
proof -
  have eq: "(\<exists>u. tbl_get (tbl_put (w, d, o') v' os) (w', d', p) = Some u \<and> o_c_id u = c) \<longleftrightarrow>
      (\<exists>u. tbl_get os (w', d', p) = Some u \<and> o_c_id u = c)" for w' d' p c
    using assms(3,4) by (auto simp: tbl.get_put [OF assms(2)])
  show ?thesis using assms(1) unfolding index_ok_def eq .
qed

lemma orders_ok_carrier:
  assumes "orders_ok cfg nxt os ns" "tbl_ok os" "tbl_ok ns" "tbl_get os (w, d, o') = Some v"
    "1 \<le> carrier" "carrier \<le> NumDistrictsPerWarehouse"
  shows "orders_ok cfg nxt (tbl_put (w, d, o') (v\<lparr>o_carrier_id := carrier\<rparr>) os) (tbl_remove (w, d, o') ns)"
proof -
  define os' where "os' = tbl_put (w, d, o') (v\<lparr>o_carrier_id := carrier\<rparr>) os"
  have get: "tbl_get os' = (tbl_get os)((w, d, o') \<mapsto> v\<lparr>o_carrier_id := carrier\<rparr>)"
    by (simp add: os'_def tbl.get_put [OF assms(2)])
  have "SanityCheckOOrder (NumWarehouses cfg) (w', d', p) u \<and> 1 \<le> p \<and> p < nxt w' d'"
    if "tbl_get os' (w', d', p) = Some u" for w' d' p u
  proof (cases "(w', d', p) = (w, d, o')")
    case True
    then show ?thesis using that orders_okD [OF assms(1,4)] assms(5,6) by (auto simp: get SanityCheckOOrder_def)
  next
    case False
    then show ?thesis using that orders_okD [OF assms(1)] by (auto simp: get)
  qed
  moreover have "tbl_get (tbl_remove (w, d, o') ns) (w', d', p) \<noteq> None \<longleftrightarrow>
      (\<exists>u. tbl_get os' (w', d', p) = Some u \<and> o_carrier_id u = 0)" for w' d' p
    using orders_ok_new_order [OF assms(1)] assms(5) by (auto simp: get tbl.get_remove [OF assms(3)])
  moreover have "tbl_get os' (w', d', p) \<noteq> None"
    if "\<not> new_order_fast_id_gen cfg" "wd_ok cfg w' d'" "1 \<le> p" "p < nxt w' d'" for w' d' p
    using orders_ok_dense [OF assms(1) that] by (simp add: get)
  ultimately show ?thesis unfolding orders_ok_def os'_def [symmetric] by blast
qed


lemma line_sane:
  assumes "lines_ok cfg ls os" "orders_ok cfg nxt os ns" "tbl_get ls k = Some u"
  shows "SanityCheckOrderLine (NumWarehouses cfg) k u"
proof -
  obtain w d o' l where k: "k = (w, d, o', l)" by (cases k)
  obtain v where v: "tbl_get os (w, d, o') = Some v" "1 \<le> l" "l \<le> o_ol_cnt v"
    using lines_ok_line [OF assms(1), of w d o' l] assms(3) k by auto
  moreover have "1 \<le> ol_i_id u" "ol_i_id u \<le> NumItems" using assms(1,3) unfolding lines_ok_def k by blast+
  ultimately show ?thesis using orders_okD(1) [OF assms(2) v(1)] by (simp add: k SanityCheckOrderLine_def SanityCheckOOrder_def)
qed

lemma check_lines_ok:
  assumes "lines_ok cfg ls os" "orders_ok cfg nxt os ns" "\<And>k u. (k, u) \<in> set es \<Longrightarrow> tbl_get ls k = Some u"
  shows "check_lines cfg es = Inr ()"
  using line_sane [OF assms(1,2)] assms(3) by (auto simp: check_lines_def list_all_iff check_def)

lemma deliver_order_keeps:
  assumes inv: "tpcc_inv cfg N s" and v_oo: "tbl_get (oorder (t_db s)) (w, d, o') = Some v_oo"
    and carrier: "1 \<le> carrier" "carrier \<le> NumDistrictsPerWarehouse"
  shows "\<exists>D'. deliver_order cfg w d o' v_oo carrier ts (t_db s) = Inr D' \<and> tpcc_inv cfg N (s\<lparr>t_db := D'\<rparr>) \<and>
    tbl_get (oorder D') = (tbl_get (oorder (t_db s)))((w, d, o') \<mapsto> v_oo\<lparr>o_carrier_id := carrier\<rparr>) \<and>
    tbl_get (new_order D') = (tbl_get (new_order (t_db s)))((w, d, o') := None)"
proof -
  define D where "D = t_db s"
  have D: "tables_ok D" "customers_ok cfg N (customer D)" "index_ok cfg (oorder_c_id_idx D) (oorder D)"
      "orders_ok cfg (next_o_id cfg (t_ids s) (district D)) (oorder D) (new_order D)" "lines_ok cfg (order_line D) (oorder D)"
    using inv by (simp_all add: tpcc_inv_defs D_def)
  note v_oo = v_oo [folded D_def]
  note oo = orders_okD(1) [OF D(4) v_oo]
  have tbls: "tbl_ok (customer D)" "tbl_ok (new_order D)" "tbl_ok (oorder D)" "tbl_ok (order_line D)"
    using D(1) by (auto simp: tables_ok_def)
  define es where "es = scan_loop (static_limit_callback 15) (tbl_scan (w, d, o', 0) (w, d, o', int32_max) (order_line D)) []"
  have "es = take 15 (tbl_scan (w, d, o', 0) (w, d, o', int32_max) (order_line D))"
    unfolding es_def by (subst static_limit_take) simp_all
  then have es: "tbl_get (order_line D) k = Some u" if "(k, u) \<in> set es" for k u
    using that tbl.scan_set [OF tbls(4)] by (auto dest!: in_set_takeD)
  obtain v_c where v_c: "tbl_get (customer D) (w, d, o_c_id v_oo) = Some v_c"
      "SanityCheckCustomer (NumWarehouses cfg) (w, d, o_c_id v_oo) v_c" "0 \<le> c_payment_cnt v_c" "c_payment_cnt v_c \<le> 1 + N"
    using D(2) oo unfolding customers_ok_def wd_ok_def SanityCheckOOrder_def by fastforce
  define ls where "ls = fold (\<lambda>(k, v_ol). tbl_put k (v_ol\<lparr>ol_delivery_d := ts\<rparr>)) es (order_line D)"
  define cs where "cs = tbl_put (w, d, o_c_id v_oo) (v_c\<lparr>c_balance := add_float (c_balance v_c)
      (foldl (\<lambda>s (k, v_ol). add_float s (ol_amount v_ol)) (Fin 0) es)\<rparr>) (customer D)"
  define os where "os = tbl_put (w, d, o') (v_oo\<lparr>o_carrier_id := carrier\<rparr>) (oorder D)"
  define ns where "ns = tbl_remove (w, d, o') (new_order D)"
  have body: "deliver_order cfg w d o' v_oo carrier ts D = Inr (D\<lparr>order_line := ls, new_order := ns, oorder := os, customer := cs\<rparr>)"
    using v_c check_lines_ok [OF D(5,4) es] unfolding deliver_order_def es_def [symmetric] Let_def
    by (simp add: must_getI ls_def ns_def os_def cs_def)
  have ls: "tbl_ok ls \<and> map_option ol_i_id (tbl_get ls x) = map_option ol_i_id (tbl_get (order_line D) x)" for x
    unfolding ls_def by (rule put_lines [OF _ tbls(4)]) (use es in force)
  have "lines_ok cfg ls os" unfolding os_def
    by (rule lines_ok_order [OF lines_ok_same [OF D(5)] tbls(3) v_oo]) (use ls in auto)
  moreover have "index_ok cfg (oorder_c_id_idx D) os" unfolding os_def by (rule index_ok_order [OF D(3) tbls(3) v_oo]) simp
  moreover have "orders_ok cfg (next_o_id cfg (t_ids s) (district D)) os ns"
    unfolding os_def ns_def by (rule orders_ok_carrier [OF D(4) tbls(3,2) v_oo carrier])
  moreover have "customers_ok cfg N cs" 
    unfolding cs_def by (rule customers_ok_put [OF D(2) tbls(1)]) (use v_c in \<open>simp_all add: SanityCheckCustomer_def\<close>)
  moreover have "tables_ok (D\<lparr>order_line := ls, new_order := ns, oorder := os, customer := cs\<rparr>)"
    using D(1) tbls ls by (simp add: tables_ok_def os_def ns_def cs_def tbl.put_ok tbl.remove_ok)
  ultimately have "tpcc_inv cfg N (s\<lparr>t_db := D\<lparr>order_line := ls, new_order := ns, oorder := os, customer := cs\<rparr>\<rparr>)"
    using inv by (simp add: tpcc_inv_defs D_def [symmetric])
  then show ?thesis using body unfolding D_def [symmetric]
    by (auto simp: os_def ns_def tbl.get_put [OF tbls(3)] tbl.get_remove [OF tbls(2)])
qed

text \<open>The first order that waits in a district, at or after \<open>last_no_o_ids\<close>.\<close>

definition next_delivery :: "int \<Rightarrow> int \<Rightarrow> int \<Rightarrow> (int \<times> int \<times> int, string) table \<Rightarrow> int option" where
  "next_delivery w d start ns = 
     (case tbl_scan (w, d, start) (w, d, int32_max) ns of [] \<Rightarrow> None | ((_, _, o'), _) # _ \<Rightarrow> Some o')"

lemma new_order_scan:
  fixes w d start :: int
  assumes "tbl_ok ns"
  shows "scan_loop new_order_scan_callback (tbl_scan (w, d, start) (w, d, int32_max) ns) None =
    map_option (\<lambda>o'. (w, d, o')) (next_delivery w d start ns)"
proof (cases "tbl_scan (w, d, start) (w, d, int32_max) ns")
  case (Cons e es)
  obtain k v where e: "e = (k, v)" by (cases e)
  have "(w, d, start) \<le> k" "k < (w, d, int32_max)" using tbl.scan_first(2,3) [OF assms Cons [unfolded e]] by auto
  then obtain o' where "k = (w, d, o')" by (cases k) auto
  then show ?thesis by (simp add: new_order_scan_callback_def next_delivery_def Cons e)
qed (simp add: next_delivery_def)

lemma delivery_loop_keeps:
  assumes "tpcc_inv cfg N s" "1 \<le> w" "w \<le> NumWarehouses cfg" "\<And>d. d \<in> set ds \<Longrightarrow> 1 \<le> d \<and> d \<le> NumDistrictsPerWarehouse"
    and "1 \<le> carrier" "carrier \<le> NumDistrictsPerWarehouse" "N < 100000000"
  shows "\<exists>lasts' D'. delivery_loop cfg w carrier ts ds lasts (t_db s) = Inr (True, lasts', D') \<and> length lasts' = length lasts \<and>
    tpcc_inv cfg N (s\<lparr>t_db := D'\<rparr>)"
  using assms(1,4)
proof (induction ds arbitrary: lasts s)
  case (Cons d ds)
  define D where "D = t_db s"
  have D: "tbl_ok (new_order D)" "orders_ok cfg (next_o_id cfg (t_ids s) (district D)) (oorder D) (new_order D)"
      "districts_ok cfg N (t_ids s) (district D)"
    using Cons.prems(1) by (simp_all add: tpcc_inv_defs tables_ok_def D_def)
  note scan = new_order_scan [OF D(1), of w d "lasts ! nat (d - 1)"]
  show ?case
  proof (cases "next_delivery w d (lasts ! nat (d - 1)) (new_order D)")
    case None
    then show ?thesis using Cons.IH [OF Cons.prems(1), of lasts] Cons.prems(2) scan by (simp add: D_def)
  next
    case (Some o')
    then obtain v es where "tbl_scan (w, d, lasts ! nat (d - 1)) (w, d, int32_max) (new_order D) = ((w, d, o'), v) # es"
      using scan by (cases "tbl_scan (w, d, lasts ! nat (d - 1)) (w, d, int32_max) (new_order D)") (auto simp: new_order_first)
    then have "tbl_get (new_order D) (w, d, o') \<noteq> None" using tbl.scan_first(1) [OF D(1)] by (metis option.distinct(1))
    then obtain v_oo where v_oo: "tbl_get (oorder D) (w, d, o') = Some v_oo" using orders_ok_new_order [OF D(2)] by blast
    note oo = orders_okD [OF D(2) v_oo]
    have wd: "wd_ok cfg w d" using Cons.prems(2) [of d] assms(2,3) by (simp add: wd_ok_def)
    then have "o' < 3001 + N" using oo(3) D(3) by (force simp: districts_ok_def)
    then have add: "i32_add o' 1 = Inr (o' + 1)" using oo(2) assms(7) by (simp add: i32_addI)
    obtain D' where D': "deliver_order cfg w d o' v_oo carrier ts D = Inr D'" "tpcc_inv cfg N (s\<lparr>t_db := D'\<rparr>)"
      using deliver_order_keeps [OF Cons.prems(1) v_oo [unfolded D_def] assms(5,6)] unfolding D_def by blast
    have "SanityCheckNewOrder (NumWarehouses cfg) (w, d, o')" using wd by (simp add: SanityCheckNewOrder_def wd_ok_def)
    then have "delivery_loop cfg w carrier ts (d # ds) lasts (t_db s) =
        delivery_loop cfg w carrier ts ds (lasts[nat (d - 1) := o' + 1]) D'"
      using scan Some v_oo oo(1) add D'(1) by (simp add: D_def)
    then show ?thesis using Cons.IH [OF D'(2), of "lasts[nat (d - 1) := o' + 1]"] Cons.prems(2) by simp
  qed
qed simp

end
