(* ===== verification/Silo_TpccRun.thy ===== *)
theory Silo_TpccRun
  imports Silo_TpccInv
begin

text \<open>
  The two read-only transactions of TPC-C, what the five transactions draw, and the theorem on every sequence of requests:
  each returns, none faults, and the database stays consistent.
\<close>

section \<open>Order status\<close>

text \<open>The newest order of a customer.\<close>

definition newest_order :: "int \<Rightarrow> int \<Rightarrow> int \<Rightarrow> tpcc_db \<Rightarrow> int \<Rightarrow> bool" where
  "newest_order w d c D o' \<longleftrightarrow> (\<exists>v. tbl_get (oorder D) (w, d, o') = Some v \<and> o_c_id v = c) \<and>
     (\<forall>p v. tbl_get (oorder D) (w, d, p) = Some v \<longrightarrow> o_c_id v = c \<longrightarrow> p \<le> o')"

lemma count_lines:
  assumes "lines_ok cfg ls os" "tbl_ok ls" "tbl_get os (w, d, o') = Some v" "o_ol_cnt v < int32_max"
  shows "scan_loop order_line_nop_callback (tbl_scan (w, d, o', 0) (w, d, o', int32_max) ls) 0 = nat (o_ol_cnt v)"
proof -
  have "{k. tbl_get ls k \<noteq> None \<and> (w, d, o', 0) \<le> k \<and> k < (w, d, o', int32_max)} = (\<lambda>l. (w, d, o', l)) ` {1..o_ol_cnt v}"
  proof (rule set_eqI)
    fix k
    show "k \<in> {k. tbl_get ls k \<noteq> None \<and> (w, d, o', 0) \<le> k \<and> k < (w, d, o', int32_max)} \<longleftrightarrow>
        k \<in> (\<lambda>l. (w, d, o', l)) ` {1..o_ol_cnt v}"
    proof
      assume "k \<in> {k. tbl_get ls k \<noteq> None \<and> (w, d, o', 0) \<le> k \<and> k < (w, d, o', int32_max)}"
      then have k: "tbl_get ls k \<noteq> None" "(w, d, o', 0) \<le> k" "k < (w, d, o', int32_max)" by auto
      then obtain l where l: "k = (w, d, o', l)" using line_keys by blast
      then show "k \<in> (\<lambda>l. (w, d, o', l)) ` {1..o_ol_cnt v}"
        using k(1) lines_ok_line [OF assms(1), of w d o' l] assms(3) by auto
    next
      assume "k \<in> (\<lambda>l. (w, d, o', l)) ` {1..o_ol_cnt v}"
      then show "k \<in> {k. tbl_get ls k \<noteq> None \<and> (w, d, o', 0) \<le> k \<and> k < (w, d, o', int32_max)}"
        using lines_ok_line [OF assms(1), of w d o'] assms(3,4) by auto
    qed
  qed
  moreover have "card ((\<lambda>l. (w, d, o', l)) ` {1..o_ol_cnt v}) = nat (o_ol_cnt v)"
    by (subst card_image) (auto simp: inj_on_def)
  ultimately show ?thesis by (simp add: order_line_nop_count tbl.scan_length [OF assms(2)])
qed

text \<open>The scans of the index of orders by customer find an order, backwards from the end the newest one.\<close>

lemma rscan_newest:
  assumes "index_ok cfg t os" "tbl_ok t" "tbl_get t (w, d, c, p) \<noteq> None" "p \<le> int32_max"
    and "\<And>w d p v. tbl_get os (w, d, p) = Some v \<Longrightarrow> p \<le> int32_max"
  shows "\<exists>o' x es. tbl_rscan (w, d, c, int32_max) t = ((w, d, c, o'), x) # es \<and>
    (\<forall>q. tbl_get t (w, d, c, q) \<noteq> None \<longrightarrow> q \<le> o')"
proof -
  have le: "(w, d, c, p) \<le> (w, d, c, int32_max)" using assms(4) by simp
  then have "tbl_rscan (w, d, c, int32_max) t \<noteq> []" by (rule tbl.rscan_nonempty [OF assms(2,3)])
  then obtain k x es where e: "tbl_rscan (w, d, c, int32_max) t = (k, x) # es" by (metis list.exhaust prod.exhaust)
  note first = tbl.rscan_first [OF assms(2) e]
  have "(w, d, c, p) \<le> k" by (rule first(3) [OF assms(3) le])
  then obtain o' where k: "k = (w, d, c, o')" using first(2) by (cases k) auto
  have "q \<le> o'" if "tbl_get t (w, d, c, q) \<noteq> None" for q
  proof -
    have "q \<le> int32_max" using index_ok_entry [OF assms(1)] assms(5) that by blast
    then show ?thesis using first(3) [OF that] by (simp add: k)
  qed
  then show ?thesis using e k by blast
qed

lemma scan_some:
  fixes w d c :: int
  assumes "tbl_ok t" "tbl_get t (w, d, c, p) \<noteq> None" "0 \<le> p" "p < int32_max" "0 < limit"
  shows "\<exists>o' n. scan_loop (latest_key_callback limit) (tbl_scan (w, d, c, 0) (w, d, c, int32_max) t) (None, 0) =
      (Some (w, d, c, o'), n) \<and> 0 < n \<and> tbl_get t (w, d, c, o') \<noteq> None"
proof -
  define es where "es = tbl_scan (w, d, c, 0) (w, d, c, int32_max) t"
  have "(w, d, c, 0) \<le> (w, d, c, p)" "(w, d, c, p) < (w, d, c, int32_max)" using assms(3,4) by simp_all
  then have "es \<noteq> []" unfolding es_def by (rule tbl.scan_nonempty [OF assms(1,2)])
  define e where "e = last (take limit es)"
  have "e \<in> set es" using \<open>es \<noteq> []\<close> assms(5) unfolding e_def by (metis in_set_takeD last_in_set take_eq_Nil less_numeral_extra(3))
  then have "tbl_get t (fst e) = Some (snd e)" "(w, d, c, 0) \<le> fst e" "fst e < (w, d, c, int32_max)"
    unfolding es_def tbl.scan_set [OF assms(1)] by auto
  moreover from this obtain o' where "fst e = (w, d, c, o')" using line_keys by blast
  ultimately show ?thesis using latest_key_last [OF assms(5), of es None] \<open>es \<noteq> []\<close> assms(5)
    by (auto simp: es_def [symmetric] e_def [symmetric])
qed


definition order_status_ok :: "tpcc_cfg \<Rightarrow> int \<times> int \<times> (string + int) \<times> nat \<Rightarrow> bool" where
  "order_status_ok cfg inp \<longleftrightarrow> (case inp of (w, d, cu, limit) \<Rightarrow>
     wd_ok cfg w d \<and> customer_sel_ok cu \<and> (if order_status_scan_hack cfg then 0 < limit else limit = 1))"

lemma order_status_scan:
  assumes idx: "index_ok cfg t os" "tbl_ok t" and p: "tbl_get t (w, d, c, p) \<noteq> None"
    and os: "\<And>w d p v. tbl_get os (w, d, p) = Some v \<Longrightarrow> 1 \<le> p \<and> p < int32_max"
    and limit: "if order_status_scan_hack cfg then 0 < limit else limit = 1"
  shows "\<exists>o' n. scan_loop (latest_key_callback limit)
      (if order_status_scan_hack cfg then tbl_scan (w, d, c, 0) (w, d, c, int32_max) t else tbl_rscan (w, d, c, int32_max) t) (None, 0)
      = (Some (w, d, c, o'), n) \<and> (if order_status_scan_hack cfg then 0 < n else n = 1) \<and> tbl_get t (w, d, c, o') \<noteq> None \<and>
      (\<not> order_status_scan_hack cfg \<longrightarrow> (\<forall>q. tbl_get t (w, d, c, q) \<noteq> None \<longrightarrow> q \<le> o'))"
proof -
  have range: "1 \<le> q \<and> q < int32_max" if "tbl_get t (w, d, c, q) \<noteq> None" for q using index_ok_entry [OF idx(1)] os that by blast
  show ?thesis
  proof (cases "order_status_scan_hack cfg")
    case True
    then show ?thesis using scan_some [OF idx(2) p] range [OF p] limit by fastforce
  next
    case False
    obtain o' x es where e: "tbl_rscan (w, d, c, int32_max) t = ((w, d, c, o'), x) # es"
        "\<forall>q. tbl_get t (w, d, c, q) \<noteq> None \<longrightarrow> q \<le> o'"
      using rscan_newest [OF idx p] range [OF p] os by fastforce
    then show ?thesis using tbl.rscan_first(1) [OF idx(2) e(1)] False limit by (simp add: latest_key_callback_def)
  qed
qed

lemma order_status_runs:
  assumes inv: "tpcc_inv cfg N s" and inp: "order_status_ok cfg inp" and N: "N < 100000000"
  shows "\<exists>o' n. order_status_body cfg inp (t_db s) = Inr (o', n) \<and> 5 \<le> n \<and> n \<le> 15 \<and>
    (\<not> order_status_scan_hack cfg \<longrightarrow> (\<exists>w d cu limit c v. inp = (w, d, cu, limit) \<and>
       find_customer cfg w d cu (t_db s) = Inr (c, v) \<and> newest_order w d c (t_db s) o'))"
proof -
  define D where "D = t_db s"
  obtain w d cu limit where i: "inp = (w, d, cu, limit)" by (cases inp)
  have wd: "wd_ok cfg w d" "customer_sel_ok cu" "if order_status_scan_hack cfg then 0 < limit else limit = 1"
    using inp by (auto simp: i order_status_ok_def)
  have D: "tables_ok D" "customers_ok cfg N (customer D)" "names_ok cfg (customer_name_idx D)"
      "index_ok cfg (oorder_c_id_idx D) (oorder D)" "lines_ok cfg (order_line D) (oorder D)"
      "orders_ok cfg (next_o_id cfg (t_ids s) (district D)) (oorder D) (new_order D)" "districts_ok cfg N (t_ids s) (district D)"
    using inv by (simp_all add: tpcc_inv_defs D_def)
  have tbls: "tbl_ok (customer_name_idx D)" "tbl_ok (oorder_c_id_idx D)" "tbl_ok (order_line D)"
    using D(1) by (auto simp: tables_ok_def)
  obtain c v where c: "find_customer cfg w d cu D = Inr (c, v)" "1 \<le> c" "c \<le> NumCustomersPerDistrict"
    using find_customer_ok [OF D(3) tbls(1) D(2) wd(1,2)] by blast
  obtain p where p: "tbl_get (oorder_c_id_idx D) (w, d, c, p) \<noteq> None" using D(4) wd(1) c(2,3) unfolding index_ok_def by blast
  have ids: "1 \<le> p \<and> p < int32_max" if "tbl_get (oorder D) (w, d, p) = Some v" for w d p v
  proof -
    have "wd_ok cfg w d" using orders_okD(1) [OF D(6) that] by (simp add: SanityCheckOOrder_def wd_ok_def)
    then have "next_o_id cfg (t_ids s) (district D) w d \<le> 3001 + N" using D(7) by (auto simp: districts_ok_def)
    then show ?thesis using orders_okD(2,3) [OF D(6) that] N by (simp add: int32_max_def)
  qed
  obtain o' n where o': "scan_loop (latest_key_callback limit) (if order_status_scan_hack cfg
        then tbl_scan (w, d, c, 0) (w, d, c, int32_max) (oorder_c_id_idx D) else tbl_rscan (w, d, c, int32_max) (oorder_c_id_idx D)) (None, 0)
      = (Some (w, d, c, o'), n)" "if order_status_scan_hack cfg then 0 < n else n = 1" "tbl_get (oorder_c_id_idx D) (w, d, c, o') \<noteq> None"
      "\<not> order_status_scan_hack cfg \<longrightarrow> (\<forall>q. tbl_get (oorder_c_id_idx D) (w, d, c, q) \<noteq> None \<longrightarrow> q \<le> o')"
    using order_status_scan [OF D(4) tbls(2) p _ wd(3)] ids by blast
  obtain v_oo where v_oo: "tbl_get (oorder D) (w, d, o') = Some v_oo" "o_c_id v_oo = c" using index_ok_entry [OF D(4)] o'(3) by blast
  have cnt: "5 \<le> o_ol_cnt v_oo" "o_ol_cnt v_oo \<le> 15" using orders_okD(1) [OF D(6) v_oo(1)] by (auto simp: SanityCheckOOrder_def)
  then have "scan_loop order_line_nop_callback (tbl_scan (w, d, o', 0) (w, d, o', int32_max) (order_line D)) 0 = nat (o_ol_cnt v_oo)"
    by (intro count_lines [OF D(5) tbls(3) v_oo(1)]) (simp add: int32_max_def)
  moreover have "check_lines cfg (tbl_scan (w, d, o', 0) (w, d, o', int32_max) (order_line D)) = Inr ()"
    by (rule check_lines_ok [OF D(5,6)]) (use tbl.scan_set [OF tbls(3)] in auto)
  moreover have nat: "5 \<le> nat (o_ol_cnt v_oo)" "nat (o_ol_cnt v_oo) \<le> 15" using cnt by linarith+
  ultimately have "order_status_body cfg inp D = Inr (o', nat (o_ol_cnt v_oo))"
    using c(1) o'(1,2) unfolding order_status_body_def i by (simp add: Let_def)
  moreover have "newest_order w d c D o'" if "\<not> order_status_scan_hack cfg"
    using that o'(4) v_oo index_ok_entry [OF D(4)] unfolding newest_order_def by blast
  ultimately show ?thesis using c(1) i nat unfolding D_def [symmetric] by auto
qed

section \<open>Stock level\<close>

lemma low_stock_runs:
  assumes "stock_ok cfg b (stock D)" "1 \<le> w" "w \<le> NumWarehouses cfg" "\<forall>i \<in> set is. 1 \<le> i \<and> i \<le> NumItems"
  shows "\<exists>low. low_stock w threshold is D acc = Inr low \<and> (distinct acc \<longrightarrow> distinct low) \<and>
    set low = set acc \<union> {i \<in> set is. \<exists>v. tbl_get (stock D) (w, i) = Some v \<and> s_quantity v < threshold}"
  using assms(4)
proof (induction "is" arbitrary: acc)
  case (Cons i "is")
  obtain v where v: "tbl_get (stock D) (w, i) = Some v" using assms(1-3) Cons.prems by (fastforce simp: stock_ok_def)
  show ?case using Cons.IH [of "if s_quantity v < threshold then List.insert i acc else acc"] Cons.prems v
    by (force simp: must_getI)
qed simp


definition stock_level_ok :: "tpcc_cfg \<Rightarrow> int \<times> int \<times> int \<Rightarrow> bool" where
  "stock_level_ok cfg inp \<longleftrightarrow> (case inp of (w, threshold, d) \<Rightarrow> wd_ok cfg w d)"

text \<open>The items of the last twenty orders of a district with less than a threshold in stock.\<close>

definition low_items :: "tpcc_db \<Rightarrow> int \<Rightarrow> int \<Rightarrow> int \<Rightarrow> int \<Rightarrow> int set" where
  "low_items D w d nxt threshold = {i. \<exists>o' l v u. tbl_get (order_line D) (w, d, o', l) = Some v \<and> nxt - 20 \<le> o' \<and> o' < nxt \<and>
     ol_i_id v = i \<and> tbl_get (stock D) (w, i) = Some u \<and> s_quantity u < threshold}"

lemma recent_lines:
  fixes w d :: int
  assumes "lines_ok cfg ls os" "tbl_ok ls"
  shows "(ol_i_id \<circ> snd) ` set (tbl_scan (w, d, a, 0) (w, d, b, 0) ls) =
    {i. \<exists>o' l v. tbl_get ls (w, d, o', l) = Some v \<and> a \<le> o' \<and> o' < b \<and> ol_i_id v = i}" (is "?A = ?B")
proof
  show "?A \<subseteq> ?B"
  proof
    fix i
    assume "i \<in> ?A"
    then obtain k v where k: "tbl_get ls k = Some v" "(w, d, a, 0) \<le> k" "k < (w, d, b, 0)" "ol_i_id v = i"
      unfolding tbl.scan_set [OF assms(2)] by auto
    then obtain o' l where e: "k = (w, d, o', l)" by (cases k) auto
    then have "1 \<le> l" using lines_ok_line [OF assms(1), of w d o' l] k(1) by auto
    then have "a \<le> o'" "o' < b" using k(2,3) unfolding e by auto
    then show "i \<in> ?B" using k(1,4) unfolding e by blast
  qed
  show "?B \<subseteq> ?A"
  proof
    fix i
    assume "i \<in> ?B"
    then obtain o' l v where e: "tbl_get ls (w, d, o', l) = Some v" "a \<le> o'" "o' < b" "ol_i_id v = i" by blast
    then have "1 \<le> l" using lines_ok_line [OF assms(1), of w d o' l] by auto
    then have "(w, d, a, 0) \<le> (w, d, o', l)" "(w, d, o', l) < (w, d, b, 0)" using e(2,3) by auto
    then have "((w, d, o', l), v) \<in> set (tbl_scan (w, d, a, 0) (w, d, b, 0) ls)"
      unfolding tbl.scan_set [OF assms(2)] using e(1) by simp
    then show "i \<in> ?A" using e(4) by force
  qed
qed

lemma stock_level_runs:
  assumes inv: "tpcc_inv cfg N s" and wd: "wd_ok cfg w d" and N: "N < 100000000"
  shows "stock_level_body cfg (w, threshold, d) (t_ids s) (t_db s) =
    Inr (card (low_items (t_db s) w d (next_o_id cfg (t_ids s) (district (t_db s)) w d) threshold))"
proof -
  define D where "D = t_db s"
  define n where "n = next_o_id cfg (t_ids s) (district D) w d"
  have D: "tables_ok D" "lines_ok cfg (order_line D) (oorder D)" "stock_ok cfg (15 * N) (stock D)"
      "districts_ok cfg N (t_ids s) (district D)" "orders_ok cfg (next_o_id cfg (t_ids s) (district D)) (oorder D) (new_order D)"
    using inv by (simp_all add: tpcc_inv_defs D_def)
  have ol: "tbl_ok (order_line D)" using D(1) by (simp add: tables_ok_def)
  obtain v_d where v_d: "tbl_get (district D) (w, d) = Some v_d" "SanityCheckDistrict (NumWarehouses cfg) (w, d) v_d"
    using D(4) wd unfolding districts_ok_def by blast
  have n: "3001 \<le> n" "n \<le> 3001 + N" "length (t_ids s) = nat (NumWarehouses cfg * NumDistrictsPerWarehouse)"
    using D(4) wd by (auto simp: districts_ok_def n_def)
  have nxt: "(if new_order_fast_id_gen cfg then bind_res (FastNewOrderIdGen cfg w d (t_ids s)) (\<lambda>(n, _). Inr (uint n))
      else Inr (d_next_o_id v_d)) = Inr n"
    using holder_bound [OF wd] n(3) v_d(1) by (simp add: n_def next_o_id_def FastNewOrderIdGen_def Let_def)
  define its where "its = snd (scan_loop order_line_scan_callback (tbl_scan (w, d, n - 20, 0) (w, d, n, 0) (order_line D)) (0, []))"
  have "set its = (ol_i_id \<circ> snd) ` set (tbl_scan (w, d, n - 20, 0) (w, d, n, 0) (order_line D))"
    unfolding its_def order_line_scan_items(2) by simp
  then have its: "set its = {i. \<exists>o' l v. tbl_get (order_line D) (w, d, o', l) = Some v \<and> n - 20 \<le> o' \<and> o' < n \<and> ol_i_id v = i}"
    unfolding recent_lines [OF D(2) ol] .
  have "\<forall>i \<in> set its. 1 \<le> i \<and> i \<le> NumItems" using D(2) unfolding its lines_ok_def by blast
  then obtain low where low: "low_stock w threshold its D [] = Inr low" "distinct low"
      "set low = {i \<in> set its. \<exists>v. tbl_get (stock D) (w, i) = Some v \<and> s_quantity v < threshold}"
    using low_stock_runs [OF D(3), of w its threshold "[]"] wd by (auto simp: wd_ok_def)
  have "set low = low_items D w d n threshold" unfolding low(3) its low_items_def by blast
  then have "length low = card (low_items D w d n threshold)" using distinct_card [OF low(2)] by simp
  moreover have "check_lines cfg (tbl_scan (w, d, n - 20, 0) (w, d, n, 0) (order_line D)) = Inr ()"
    by (rule check_lines_ok [OF D(2,5)]) (use tbl.scan_set [OF ol] in auto)
  moreover have "to_i32 (n - 20) = n - 20" "to_i32 n = n" using n(1,2) N by (simp_all add: to_i32_def)
  ultimately show ?thesis using v_d nxt low(1) n(1) its_def
    unfolding stock_level_body_def D_def [symmetric] n_def [symmetric] by (simp add: must_getI Let_def)
qed


section \<open>What the transactions draw\<close>

definition range_ok :: "tpcc_cfg \<Rightarrow> int \<times> int \<Rightarrow> bool" where
  "range_ok cfg wr \<longleftrightarrow> 1 \<le> fst wr \<and> fst wr < snd wr \<and> snd wr \<le> NumWarehouses cfg + 1"

lemma gives_warehouse: "range_ok cfg wr \<Longrightarrow> gives (PickWarehouseId (fst wr) (snd wr)) (\<lambda>w. 1 \<le> w \<and> w \<le> NumWarehouses cfg)"
  by (rule gives_mono [OF gives_PickWarehouseId]) (auto simp: range_ok_def)

lemma gives_district: "gives (draw 1 NumDistrictsPerWarehouse) (\<lambda>d. 1 \<le> d \<and> d \<le> NumDistrictsPerWarehouse)"
  by (rule gives_draw [of _ 3]) (simp_all add: NumDistrictsPerWarehouse_def)

lemma gives_10: "gives (draw 1 10) (\<lambda>d. 1 \<le> d \<and> d \<le> 10)"
  by (rule gives_draw [of _ 3]) simp_all

lemma gives_percent: "gives (draw 1 100) (\<lambda>p. 1 \<le> p \<and> p \<le> 100)"
  by (rule gives_draw [of _ 6]) simp_all

lemma gives_supplier:
  assumes "cfg_ok cfg" "1 \<le> w" "w \<le> NumWarehouses cfg"
  shows "gives (draw_supplier cfg w) (\<lambda>(sw, local). 1 \<le> sw \<and> sw \<le> NumWarehouses cfg \<and> (local \<longleftrightarrow> sw = w))"
  unfolding draw_supplier_def
proof (intro gives_if gives_bind [OF gives_percent])
  assume "\<not> (disable_xpartition_txn cfg \<or> NumWarehouses cfg = 1)"
  then have "gives (other_warehouse (NumWarehouses cfg) w) (\<lambda>x. 1 \<le> x \<and> x \<le> NumWarehouses cfg \<and> x \<noteq> w)"
    using assms by (intro gives_other_warehouse) (auto simp: cfg_ok_def)
  then show "gives (gbind (other_warehouse (NumWarehouses cfg) w) (\<lambda>s. gret (s, False)))
      (\<lambda>(sw, local). 1 \<le> sw \<and> sw \<le> NumWarehouses cfg \<and> (local \<longleftrightarrow> sw = w))"
    by (rule gives_bind) (rule gives_ret, simp)
qed (use assms in \<open>auto intro: gives_ret\<close>)

lemma gives_order_item:
  assumes "cfg_ok cfg" "1 \<le> w" "w \<le> NumWarehouses cfg"
  shows "gives (draw_order_item cfg w) (\<lambda>(it, local). order_item_ok cfg it \<and> (local \<longleftrightarrow> fst (snd it) = w))"
  unfolding draw_order_item_def
proof (intro gives_bind [OF gives_GetItemId] gives_bind [OF gives_supplier [OF assms]])
  fix i and p :: "int \<times> bool"
  assume i: "1 \<le> i \<and> i \<le> NumItems" and p: "case p of (sw, local) \<Rightarrow> 1 \<le> sw \<and> sw \<le> NumWarehouses cfg \<and> (local \<longleftrightarrow> sw = w)"
  obtain sw local where e: "p = (sw, local)" by (cases p)
  have "gives (gbind (draw 1 10) (\<lambda>q. gret ((i, sw, q), local))) (\<lambda>(it, local). order_item_ok cfg it \<and> (local \<longleftrightarrow> fst (snd it) = w))"
    by (rule gives_bind [OF gives_10]) (rule gives_ret, use i p in \<open>simp add: e order_item_ok_def\<close>)
  then show "gives (case p of (s, local) \<Rightarrow> gbind (draw 1 10) (\<lambda>q. gret ((i, s, q), local)))
      (\<lambda>(it, local). order_item_ok cfg it \<and> (local \<longleftrightarrow> fst (snd it) = w))" by (simp add: e)
qed

text \<open>The flag \<open>o_all_local\<close> of the new order tells whether all items come from its own warehouse.\<close>

lemma gives_new_order:
  assumes "cfg_ok cfg" "range_ok cfg wr"
  shows "gives (draw_new_order cfg wr) (\<lambda>inp. new_order_ok cfg inp \<and> (no_local inp \<longleftrightarrow> (\<forall>it \<in> set (no_items inp). fst (snd it) = no_w inp)))"
  unfolding draw_new_order_def
proof (intro gives_bind [OF gives_warehouse [OF assms(2)]] gives_bind [OF gives_10] gives_bind [OF gives_GetCustomerId]
    gives_bind [OF gives_draw [of 5 3 15]])
  fix w d c n :: int
  assume w: "1 \<le> w \<and> w \<le> NumWarehouses cfg" and d: "1 \<le> d \<and> d \<le> 10" and c: "1 \<le> c \<and> c \<le> NumCustomersPerDistrict"
    and n: "5 \<le> n \<and> n \<le> 15"
  have "gives (draw_order_item cfg w) (\<lambda>(it, local). order_item_ok cfg it \<and> (local \<longleftrightarrow> fst (snd it) = w))"
    using w by (intro gives_order_item [OF assms(1)]) auto
  then show "gives (gbind (grepeat (nat n) (draw_order_item cfg w)) (\<lambda>its.
      gret \<lparr>no_w = w, no_d = d, no_c = c, no_items = map fst its, no_local = list_all snd its\<rparr>))
    (\<lambda>inp. new_order_ok cfg inp \<and> (no_local inp \<longleftrightarrow> (\<forall>it \<in> set (no_items inp). fst (snd it) = no_w inp)))"
    by (rule gives_bind [OF gives_repeat], intro gives_ret)
      (use w d c n in \<open>fastforce simp: new_order_ok_def wd_ok_def NumDistrictsPerWarehouse_def list_all_iff\<close>)
qed simp_all

lemma gives_customer: "gives draw_customer customer_sel_ok"
  unfolding draw_customer_def
  by (intro gives_bind [OF gives_percent] gives_if gives_bind [OF gives_LastNameRun] gives_bind [OF gives_GetCustomerId] gives_ret)
    (simp_all add: customer_sel_ok_def)


lemma gives_payment:
  assumes "cfg_ok cfg" "range_ok cfg wr"
  shows "gives (draw_payment cfg wr) (payment_ok cfg)"
  unfolding draw_payment_def
proof (rule gives_bind [OF gives_warehouse [OF assms(2)]], rule gives_bind [OF gives_district])
  fix w d :: int
  assume w: "1 \<le> w \<and> w \<le> NumWarehouses cfg" and d: "1 \<le> d \<and> d \<le> NumDistrictsPerWarehouse"
  have "gives (gbind (draw 1 NumDistrictsPerWarehouse) (\<lambda>cd. gbind (other_warehouse (NumWarehouses cfg) w) (\<lambda>cw. gret (cd, cw))))
      (\<lambda>(cd, cw). wd_ok cfg cw cd)" if "NumWarehouses cfg \<noteq> 1"
    by (rule gives_bind [OF gives_district], rule gives_bind [OF gives_other_warehouse], use that w assms(1) in \<open>simp add: cfg_ok_def\<close>)
      (use assms(1) in \<open>auto simp: cfg_ok_def wd_ok_def intro: gives_ret\<close>)
  then have "gives (if disable_xpartition_txn cfg \<or> NumWarehouses cfg = 1 then gret (d, w)
      else gbind (draw 1 100) (\<lambda>p. if p \<le> 85 then gret (d, w)
        else gbind (draw 1 NumDistrictsPerWarehouse) (\<lambda>cd. gbind (other_warehouse (NumWarehouses cfg) w) (\<lambda>cw. gret (cd, cw)))))
      (\<lambda>(cd, cw). wd_ok cfg cw cd)"
    using w d by (intro gives_if gives_bind [OF gives_percent] gives_ret) (auto simp: wd_ok_def)
  then show "gives (gbind (if disable_xpartition_txn cfg \<or> NumWarehouses cfg = 1 then gret (d, w)
      else gbind (draw 1 100) (\<lambda>p. if p \<le> 85 then gret (d, w)
        else gbind (draw 1 NumDistrictsPerWarehouse) (\<lambda>cd. gbind (other_warehouse (NumWarehouses cfg) w) (\<lambda>cw. gret (cd, cw)))))
      (\<lambda>(cd, cw). gbind (draw 100 500000) (\<lambda>a. gbind draw_customer (\<lambda>cu.
        gret \<lparr>p_w = w, p_d = d, p_cw = cw, p_cd = cd, p_amount = float_of_double (div_double (double_of_int a) (Fin 100)), p_cust = cu\<rparr>))))
    (payment_ok cfg)"
  proof (rule gives_bind)
    fix p :: "int \<times> int"
    assume p: "case p of (cd, cw) \<Rightarrow> wd_ok cfg cw cd"
    show "gives (case p of (cd, cw) \<Rightarrow> gbind (draw 100 500000) (\<lambda>a. gbind draw_customer (\<lambda>cu.
        gret \<lparr>p_w = w, p_d = d, p_cw = cw, p_cd = cd, p_amount = float_of_double (div_double (double_of_int a) (Fin 100)), p_cust = cu\<rparr>)))
      (payment_ok cfg)"
      unfolding case_prod_beta
      by (intro gives_bind [OF gives_draw [of 100 18 500000]] gives_bind [OF gives_customer] gives_ret)
        (use p w d in \<open>auto simp: payment_ok_def wd_ok_def\<close>)
  qed
qed

lemma gives_delivery:
  assumes "range_ok cfg wr"
  shows "gives (draw_delivery wr) (\<lambda>(w, carrier). 1 \<le> w \<and> w \<le> NumWarehouses cfg \<and> 1 \<le> carrier \<and> carrier \<le> NumDistrictsPerWarehouse)"
  unfolding draw_delivery_def
  by (intro gives_bind [OF gives_warehouse [OF assms]] gives_bind [OF gives_district] gives_ret) simp

lemma gives_order_status:
  assumes "range_ok cfg wr"
  shows "gives (draw_order_status cfg wr) (order_status_ok cfg)"
proof -
  have "gives (if order_status_scan_hack cfg then (\<lambda>r. let (x, r') = next_ulong r in Some (Inr (unat x mod 15 + 1, r'))) else gret 1)
      (\<lambda>limit. if order_status_scan_hack cfg then 0 < limit else limit = 1)"
    by (auto simp: gives_def gret_def case_prod_beta Let_def)
  then show ?thesis unfolding draw_order_status_def
    by (intro gives_bind [OF gives_warehouse [OF assms]] gives_bind [OF gives_district] gives_bind [OF gives_customer])
      (erule gives_bind, simp add: gives_ret order_status_ok_def wd_ok_def)
qed

lemma gives_stock_level:
  assumes "range_ok cfg wr"
  shows "gives (draw_stock_level wr) (\<lambda>(w, threshold, d). wd_ok cfg w d)"
  unfolding draw_stock_level_def
  by (intro gives_bind [OF gives_warehouse [OF assms]] gives_bind [OF gives_draw [of 10 3 20]] gives_bind [OF gives_district] gives_ret)
    (auto simp: wd_ok_def)

section \<open>Every request\<close>

definition worker_ok :: "tpcc_cfg \<Rightarrow> tpcc_worker \<Rightarrow> bool" where
  "worker_ok cfg wk \<longleftrightarrow> range_ok cfg (wk_range wk) \<and> length (last_no_o_ids wk) = nat NumDistrictsPerWarehouse"

lemma delivery_keeps:
  assumes "tpcc_inv cfg N s" "case inp of (w, carrier) \<Rightarrow> 1 \<le> w \<and> w \<le> NumWarehouses cfg \<and> 1 \<le> carrier \<and> carrier \<le> NumDistrictsPerWarehouse"
    "N < 100000000"
  shows "\<exists>lasts' D'. delivery_body cfg inp ts lasts (t_db s) = Inr (True, lasts', D') \<and> length lasts' = length lasts \<and>
    tpcc_inv cfg (N + 1) (s\<lparr>t_db := D'\<rparr>)"
proof -
  obtain w carrier where inp: "inp = (w, carrier)" by (cases inp)
  have w: "1 \<le> w" "w \<le> NumWarehouses cfg" "1 \<le> carrier" "carrier \<le> NumDistrictsPerWarehouse" using assms(2) by (simp_all add: inp)
  have ds: "1 \<le> d \<and> d \<le> NumDistrictsPerWarehouse" if "d \<in> set [1..NumDistrictsPerWarehouse]" for d using that by simp
  obtain lasts' D' where "delivery_loop cfg w carrier ts [1..NumDistrictsPerWarehouse] lasts (t_db s) = Inr (True, lasts', D')"
      "length lasts' = length lasts" "tpcc_inv cfg N (s\<lparr>t_db := D'\<rparr>)"
    using delivery_loop_keeps [OF assms(1) w(1,2) ds w(3,4) assms(3)] by blast
  then show ?thesis using inv_mono [of cfg N "s\<lparr>t_db := D'\<rparr>" "N + 1"] by (simp add: delivery_body_def inp)
qed

lemma draw_then_gives:
  assumes "gives g P" "\<And>x r'. P x \<Longrightarrow> \<exists>y. f x (wk\<lparr>wk_rng := r'\<rparr>) = Inr y \<and> Q y"
  shows "\<exists>y. draw_then g wk f = Some (Inr y) \<and> Q y"
  using gives_run [OF assms(1), of "wk_rng wk"] assms(2) unfolding draw_then_def by fastforce

text \<open>What a transaction does when its draws are valid, one lemma for each type.\<close>

definition txn_keeps :: "tpcc_cfg \<Rightarrow> int \<Rightarrow> bool \<Rightarrow> (bool \<times> int) \<times> tpcc_worker \<times> tpcc_state \<Rightarrow> bool" where
  "txn_keeps cfg N commits y \<longleftrightarrow> (case y of (res, wk, s) \<Rightarrow> worker_ok cfg wk \<and> tpcc_inv cfg N s \<and> fst res = commits)"

lemma run_txn_keeps:
  assumes cfg: "cfg_ok cfg" and wk: "worker_ok cfg wk" and inv: "tpcc_inv cfg N s" and N: "0 \<le> N" "N < 100000000"
  shows "\<exists>y. run_txn cfg ty commits wk s = Some (Inr y) \<and> txn_keeps cfg (N + 1) commits y"
proof -
  have range: "range_ok cfg (wk_range wk)" using wk by (simp add: worker_ok_def)
  have inv': "tpcc_inv cfg (N + 1) s" "tpcc_inv cfg (N + 1) (s\<lparr>t_db := t_db s\<rparr>)" using inv_mono [OF inv, of "N + 1"] by simp_all
  show ?thesis
  proof (cases ty)
    case NEW_ORDER
    show ?thesis unfolding run_txn_def NEW_ORDER silo_type.case
    proof (rule draw_then_gives [OF gives_new_order [OF cfg range]])
      fix inp r'
      assume "new_order_ok cfg inp \<and> (no_local inp \<longleftrightarrow> (\<forall>it \<in> set (no_items inp). fst (snd it) = no_w inp))"
      then obtain ret ids' D' where "new_order_body cfg inp (wk_millis wk) (t_ids s) (t_db s) = Inr (ret, ids', D')"
          "tpcc_inv cfg (N + 1) (s\<lparr>t_ids := ids', t_db := D'\<rparr>)" "tpcc_inv cfg (N + 1) (s\<lparr>t_ids := ids', t_db := t_db s\<rparr>)"
        using new_order_keeps [OF inv _ N] by blast
      then show "\<exists>y. bind_res (new_order_body cfg inp (wk_millis (wk\<lparr>wk_rng := r'\<rparr>)) (t_ids s) (t_db s)) (\<lambda>(ret, ids', D').
          Inr (if commits then (True, ret) else (False, 0), wk\<lparr>wk_rng := r', wk_millis := wk_millis (wk\<lparr>wk_rng := r'\<rparr>) + 1\<rparr>,
            s\<lparr>t_ids := ids', t_db := if commits then D' else t_db s\<rparr>)) = Inr y \<and> txn_keeps cfg (N + 1) commits y"
        using wk by (cases commits) (simp_all add: txn_keeps_def worker_ok_def)
    qed
  next
    case PAYMENT
    show ?thesis unfolding run_txn_def PAYMENT silo_type.case
    proof (rule draw_then_gives [OF gives_payment [OF cfg range]])
      fix inp r'
      assume "payment_ok cfg inp"
      then obtain ret D' where "payment_body cfg inp (wk_millis wk) (t_db s) = Inr (ret, D')" "tpcc_inv cfg (N + 1) (s\<lparr>t_db := D'\<rparr>)"
        using payment_keeps [OF inv _ N] by blast
      then show "\<exists>y. bind_res (payment_body cfg inp (wk_millis (wk\<lparr>wk_rng := r'\<rparr>)) (t_db s)) (\<lambda>(ret, D').
          Inr (if commits then (True, ret) else (False, 0), wk\<lparr>wk_rng := r', wk_millis := wk_millis (wk\<lparr>wk_rng := r'\<rparr>) + 1\<rparr>,
            s\<lparr>t_db := if commits then D' else t_db s\<rparr>)) = Inr y \<and> txn_keeps cfg (N + 1) commits y"
        using wk inv' by (cases commits) (simp_all add: txn_keeps_def worker_ok_def)
    qed
  next
    case DELIVERY
    show ?thesis unfolding run_txn_def DELIVERY silo_type.case
    proof (rule draw_then_gives [OF gives_delivery [OF range]])
      fix inp r'
      assume "case inp of (w, carrier) \<Rightarrow> 1 \<le> w \<and> w \<le> NumWarehouses cfg \<and> 1 \<le> carrier \<and> carrier \<le> NumDistrictsPerWarehouse"
      then obtain lasts D' where "delivery_body cfg inp (wk_millis wk) (last_no_o_ids wk) (t_db s) = Inr (True, lasts, D')"
          "length lasts = length (last_no_o_ids wk)" "tpcc_inv cfg (N + 1) (s\<lparr>t_db := D'\<rparr>)"
        using delivery_keeps [OF inv _ N(2)] by blast
      then show "\<exists>y. bind_res (delivery_body cfg inp (wk_millis (wk\<lparr>wk_rng := r'\<rparr>)) (last_no_o_ids (wk\<lparr>wk_rng := r'\<rparr>)) (t_db s))
          (\<lambda>(done, lasts, D'). Inr ((done \<and> commits, 0),
            wk\<lparr>wk_rng := r', wk_millis := wk_millis (wk\<lparr>wk_rng := r'\<rparr>) + 1, last_no_o_ids := lasts\<rparr>,
            s\<lparr>t_db := if done \<and> commits then D' else t_db s\<rparr>)) = Inr y \<and> txn_keeps cfg (N + 1) commits y"
        using wk inv' by (cases commits) (simp_all add: txn_keeps_def worker_ok_def)
    qed
  next
    case ORDER_STATUS
    show ?thesis unfolding run_txn_def ORDER_STATUS silo_type.case
      by (rule draw_then_gives [OF gives_order_status [OF range]], drule order_status_runs [OF inv _ N(2)])
        (use wk inv' in \<open>auto simp: txn_keeps_def worker_ok_def\<close>)
  next
    case STOCK_LEVEL
    show ?thesis unfolding run_txn_def STOCK_LEVEL silo_type.case
      by (rule draw_then_gives [OF gives_stock_level [OF range]])
        (use wk inv' stock_level_runs [OF inv _ N(2)] in \<open>auto simp: txn_keeps_def worker_ok_def\<close>)
  qed
qed


lemma run_requests_keeps:
  assumes "cfg_ok cfg" "list_all (worker_ok cfg) wks" "tpcc_inv cfg N s" "0 \<le> N" "N + int (length rs) \<le> 100000000"
    and "list_all (\<lambda>(i, _). i < length wks) rs"
  shows "\<exists>wks' s'. run_requests cfg rs wks s = Some (Inr (wks', s')) \<and> list_all (worker_ok cfg) wks' \<and> length wks' = length wks \<and>
    tpcc_inv cfg (N + int (length rs)) s'"
  using assms(2-6)
proof (induction rs arbitrary: wks s N)
  case (Cons r rs)
  obtain i ty commits where r: "r = (i, ty, commits)" by (cases r)
  have i: "i < length wks" using Cons.prems(5) by (simp add: r)
  then have "worker_ok cfg (wks ! i)" using Cons.prems(1) by (simp add: list_all_length)
  then obtain y where y: "run_txn cfg ty commits (wks ! i) s = Some (Inr y)" "txn_keeps cfg (N + 1) commits y"
    using run_txn_keeps [OF assms(1) _ Cons.prems(2,3)] Cons.prems(4) by fastforce
  obtain res wk s' where e: "y = (res, wk, s')" by (cases y)
  have "list_all (worker_ok cfg) (wks[i := wk])"
    using Cons.prems(1) y(2) i by (auto simp: e txn_keeps_def list_all_length nth_list_update)
  then show ?case using Cons.IH [of "wks[i := wk]" "N + 1" s'] y Cons.prems(3-5)
    by (simp add: r e txn_keeps_def algebra_simps)
qed simp

section \<open>Warehouses, workers and partitions\<close>

lemma per_partition:
  assumes "cfg_ok cfg" "nthreads cfg < NumWarehouses cfg"
  shows "1 \<le> NumWarehouses cfg div nthreads cfg" "nthreads cfg * (NumWarehouses cfg div nthreads cfg) \<le> NumWarehouses cfg"
proof -
  have "0 < nthreads cfg" using assms(1) by (simp add: cfg_ok_def)
  then show "1 \<le> NumWarehouses cfg div nthreads cfg" "nthreads cfg * (NumWarehouses cfg div nthreads cfg) \<le> NumWarehouses cfg"
    using assms(2) by (simp_all add: int_one_le_iff_zero_less pos_imp_zdiv_pos_iff minus_mod_eq_mult_div [symmetric])
qed

text \<open>Partition \<open>p\<close> has the warehouses of worker \<open>p\<close>.\<close>

lemma partition_range:
  assumes cfg: "cfg_ok cfg" and lt: "nthreads cfg < NumWarehouses cfg" and w: "1 \<le> w" "w \<le> NumWarehouses cfg"
    and p: "0 \<le> p" "p < nthreads cfg"
  shows "fst (worker_range cfg p) \<le> w \<and> w < snd (worker_range cfg p) \<longleftrightarrow> PartitionId cfg w = p"
proof -
  define per where "per = NumWarehouses cfg div nthreads cfg"
  have per: "0 < per" using per_partition(1) [OF cfg lt] by (simp add: per_def)
  define q where "q = (w - 1) div per"
  have q: "x \<le> q \<longleftrightarrow> x * per \<le> w - 1" for x
  proof
    assume "x \<le> q"
    then have "x * per \<le> q * per" using per by simp
    also have "\<dots> \<le> w - 1" using pos_mod_sign [OF per, of "w - 1"] unfolding q_def minus_mod_eq_div_mult [symmetric] by linarith
    finally show "x * per \<le> w - 1" .
  next
    assume "x * per \<le> w - 1"
    then show "x \<le> q" using zdiv_mono1 [OF _ per] per unfolding q_def by fastforce
  qed
  have "q < x \<longleftrightarrow> w - 1 < x * per" for x using q [of x] by linarith
  moreover have "fst (worker_range cfg p) = p * per + 1"
    "snd (worker_range cfg p) = (if p + 1 = nthreads cfg then NumWarehouses cfg else (p + 1) * per) + 1"
    using lt by (simp_all add: worker_range_def Let_def per_def)
  moreover have "PartitionId cfg w = (if nthreads cfg \<le> q then nthreads cfg - 1 else q)"
    using lt by (simp add: PartitionId_def Let_def per_def q_def)
  ultimately show ?thesis using q [of p] w p by (smt (verit))
qed

lemma worker_range_ok:
  assumes cfg: "cfg_ok cfg" and i: "0 \<le> i" "i < nthreads cfg"
  shows "range_ok cfg (worker_range cfg i)"
proof (cases "NumWarehouses cfg \<le> nthreads cfg")
  case True
  have "0 < NumWarehouses cfg" using cfg by (simp add: cfg_ok_def)
  then have "0 \<le> i mod NumWarehouses cfg" "i mod NumWarehouses cfg < NumWarehouses cfg" by simp_all
  then show ?thesis using True unfolding worker_range_def range_ok_def by simp
next
  case False
  define per where "per = NumWarehouses cfg div nthreads cfg"
  have per: "1 \<le> per" "nthreads cfg * per \<le> NumWarehouses cfg" using per_partition [OF cfg] False by (simp_all add: per_def)
  have "(i + 1) * per \<le> nthreads cfg * per" using i(2) per(1) by (intro mult_right_mono) auto
  moreover have "0 \<le> i * per" using i(1) per(1) by simp
  ultimately show ?thesis using False per(1,2) unfolding worker_range_def range_ok_def per_def [symmetric] by (auto simp: Let_def algebra_simps)
qed

lemma new_tpcc_worker_ok: "cfg_ok cfg \<Longrightarrow> int i < nthreads cfg \<Longrightarrow> worker_ok cfg (new_tpcc_worker cfg i sd)"
  using worker_range_ok [of cfg "int i"] by (simp add: worker_ok_def new_tpcc_worker_def NumDistrictsPerWarehouse_def)

lemma fold_set_length: "length (fold (\<lambda>i ret. ret[nat i := f i]) is ret) = length ret"
  by (induction "is" arbitrary: ret) auto

lemma fold_set_nth:
  fixes a b :: int
  assumes "0 \<le> a" "k < length ret"
  shows "fold (\<lambda>i ret. ret[nat i := f i]) [a..b] ret ! k = (if a \<le> int k \<and> int k \<le> b then f (int k) else ret ! k)"
  using assms
proof (induction a b arbitrary: ret rule: upto.induct)
  case (1 a b)
  show ?case
  proof (cases "a \<le> b")
    case True
    then show ?thesis using "1.IH" [OF True, of "ret[nat a := f a]"] "1.prems" by (subst upto.simps) (auto simp: nth_list_update)
  qed (auto simp: upto.simps)
qed

lemma fill_partition_nth:
  assumes cfg: "cfg_ok cfg" and lt: "nthreads cfg < NumWarehouses cfg" and p: "0 \<le> p" "p < nthreads cfg"
    and k: "k < length ret" "int k < NumWarehouses cfg"
  shows "fill_partition cfg p ret ! k = (if PartitionId cfg (int k + 1) = p then p else ret ! k)"
    "length (fill_partition cfg p ret) = length ret"
proof -
  define a where "a = p * (NumWarehouses cfg div nthreads cfg)"
  define b where "b = (if p + 1 = nthreads cfg then NumWarehouses cfg else (p + 1) * (NumWarehouses cfg div nthreads cfg))"
  have f: "fill_partition cfg p ret = fold (\<lambda>i ret. ret[nat i := p]) [a..b - 1] ret" by (simp add: fill_partition_def Let_def a_def b_def)
  have "worker_range cfg p = (a + 1, b + 1)" using lt by (simp add: worker_range_def Let_def a_def b_def)
  then have "a \<le> int k \<and> int k \<le> b - 1 \<longleftrightarrow> PartitionId cfg (int k + 1) = p"
    using partition_range [OF cfg lt _ _ p, of "int k + 1"] k(2) by auto
  moreover have "0 \<le> a" using p per_partition(1) [OF cfg lt] by (simp add: a_def)
  ultimately show "fill_partition cfg p ret ! k = (if PartitionId cfg (int k + 1) = p then p else ret ! k)"
      "length (fill_partition cfg p ret) = length ret"
    using fold_set_nth [of a k ret "\<lambda>_. p" "b - 1"] k(1) unfolding f by (auto simp: fold_set_length)
qed

lemma fill_partitions_nth:
  assumes cfg: "cfg_ok cfg" and lt: "nthreads cfg < NumWarehouses cfg" and k: "int k < NumWarehouses cfg"
    and "\<forall>p \<in> set ps. 0 \<le> p \<and> p < nthreads cfg" "k < length ret"
  shows "fold (fill_partition cfg) ps ret ! k = (if PartitionId cfg (int k + 1) \<in> set ps then PartitionId cfg (int k + 1) else ret ! k)"
  using assms(4,5)
proof (induction ps arbitrary: ret)
  case (Cons p ps)
  then show ?case using Cons.IH [of "fill_partition cfg p ret"] fill_partition_nth [OF cfg lt _ _ Cons.prems(2) k, of p] by auto
qed simp

lemma PartitionId_range:
  assumes cfg: "cfg_ok cfg" and w: "1 \<le> w" "w \<le> NumWarehouses cfg"
  shows "0 \<le> PartitionId cfg w" "PartitionId cfg w < nthreads cfg"
proof -
  have n: "0 < nthreads cfg" using cfg by (simp add: cfg_ok_def)
  have "0 \<le> (w - 1) div (NumWarehouses cfg div nthreads cfg)" if "nthreads cfg < NumWarehouses cfg"
    using w per_partition(1) [OF cfg that] by (simp add: pos_imp_zdiv_nonneg_iff)
  then show "0 \<le> PartitionId cfg w" "PartitionId cfg w < nthreads cfg" using w n by (auto simp: PartitionId_def Let_def)
qed

lemma OpenTables_nth:
  assumes cfg: "cfg_ok cfg" and w: "1 \<le> w" "w \<le> NumWarehouses cfg"
  shows "OpenTablesForTablespace cfg name ! nat (w - 1) =
    (if enable_separate_tree_per_partition cfg \<and> \<not> IsTableReadOnly name then PartitionId cfg w else 0)"
proof -
  define k where "k = nat (w - 1)"
  have k: "int k = w - 1" "k < length (replicate (nat (NumWarehouses cfg)) (0::int))" using w by (auto simp: k_def)
  note set_nth = fold_set_nth [OF order.refl k(2), where b = "NumWarehouses cfg - 1"]
  have "PartitionId cfg w = w - 1" if "NumWarehouses cfg \<le> nthreads cfg" using that by (simp add: PartitionId_def)
  moreover have "fold (fill_partition cfg) [0..nthreads cfg - 1] (replicate (nat (NumWarehouses cfg)) 0) ! k = PartitionId cfg w"
    if "nthreads cfg < NumWarehouses cfg"
    using fill_partitions_nth [OF cfg that _ _ k(2), of "[0..nthreads cfg - 1]"] PartitionId_range [OF cfg w] k(1) w by auto
  ultimately show ?thesis using set_nth [of "\<lambda>i. i"] set_nth [of "\<lambda>_. 0"] w k(1)
    unfolding k_def [symmetric] by (auto simp: OpenTablesForTablespace_def Let_def)
qed

section \<open>A consistent database\<close>

text \<open>A database of one warehouse, with an order for each customer, all of them delivered.\<close>

definition tbl_of :: "'k::linorder set \<Rightarrow> ('k \<Rightarrow> 'v) \<Rightarrow> ('k, 'v) table" where
  "tbl_of A f = map (\<lambda>k. (k, f k)) (sorted_list_of_set A)"

lemma tbl_of_ok: "tbl_ok (tbl_of A f)"
  unfolding tbl_ok_def tbl_of_def by (simp add: comp_def)

lemma tbl_of_get: "finite A \<Longrightarrow> tbl_get (tbl_of A f) k = (if k \<in> A then Some (f k) else None)"
  unfolding tbl_get_def tbl_of_def by (simp add: map_of_map_restrict restrict_map_def)

definition one_cfg :: tpcc_cfg where
  "one_cfg = \<lparr>NumWarehouses = 1, nthreads = 1, disable_xpartition_txn = False, enable_separate_tree_per_partition = False,
     new_order_remote_item_pct = 1, new_order_fast_id_gen = False, uniform_item_dist = False, order_status_scan_hack = False\<rparr>"

definition one_district :: district_v where
  "one_district = \<lparr>d_ytd = Fin 30000, d_tax = Fin 0, d_next_o_id = 3001, d_name = ''d'', d_street_1 = '''', d_street_2 = '''',
     d_city = '''', d_state = ''CA'', d_zip = ''123456789''\<rparr>"

definition one_customer :: customer_v where
  "one_customer = \<lparr>c_discount = Fin 0, c_credit = ''GC'', c_last = ''BARBARBAR'', c_first = '''', c_credit_lim = Fin 50000,
     c_balance = Fin (- 10), c_ytd_payment = Fin 10, c_payment_cnt = 1, c_delivery_cnt = 0, c_street_1 = '''', c_street_2 = '''',
     c_city = '''', c_state = ''CA'', c_zip = '''', c_phone = '''', c_since = 0, c_middle = ''OE'', c_data = ''''\<rparr>"

definition one_db :: tpcc_db where
  "one_db = \<lparr>customer = tbl_of ({1} \<times> {1..10} \<times> {1..3000}) (\<lambda>_. one_customer),
     customer_name_idx = tbl_of ({1} \<times> {1..10} \<times> pad0 16 ` {s. is_last_name s} \<times> {zeros}) (\<lambda>_. 1),
     district = tbl_of ({1} \<times> {1..10}) (\<lambda>_. one_district), history = [],
     item = tbl_of {1..100000} (\<lambda>_. \<lparr>i_name = '''', i_price = Fin 1, i_data = '''', i_im_id = 1\<rparr>), new_order = [],
     oorder = tbl_of ({1} \<times> {1..10} \<times> {1..3000})
       (\<lambda>(_, _, c). \<lparr>o_c_id = c, o_carrier_id = 1, o_ol_cnt = 5, o_all_local = True, o_entry_d = 0\<rparr>),
     oorder_c_id_idx = tbl_of {k \<in> {1} \<times> {1..10} \<times> {1..3000} \<times> {1..3000}. fst (snd (snd k)) = snd (snd (snd k))} (\<lambda>_. 0),
     order_line = tbl_of ({1} \<times> {1..10} \<times> {1..3000} \<times> {1..5})
       (\<lambda>_. \<lparr>ol_i_id = 1, ol_delivery_d = 0, ol_amount = Fin 0, ol_supply_w_id = 1, ol_quantity = 5\<rparr>),
     stock = tbl_of ({1} \<times> {1..100000}) (\<lambda>_. \<lparr>s_quantity = 50, s_ytd = Fin 0, s_order_cnt = 0, s_remote_cnt = 0\<rparr>),
     stock_data = [],
     warehouse = tbl_of {1} (\<lambda>_. \<lparr>w_ytd = Fin 300000, w_tax = Fin 0, w_name = ''w'', w_street_1 = '''', w_street_2 = '''',
       w_city = '''', w_state = ''CA'', w_zip = ''123456789''\<rparr>)\<rparr>"

definition one_state :: tpcc_state where
  "one_state = \<lparr>t_db = one_db, t_ids = new_district_ids one_cfg\<rparr>"

lemma finite_names: "finite {s. is_last_name s}"
proof -
  have "{s. is_last_name s} \<subseteq> (\<lambda>n. projr (GetCustomerLastName n)) ` {0..999}"
    unfolding is_last_name_def by force
  then show ?thesis by (rule finite_subset) simp
qed

lemmas one_get = one_state_def one_db_def tbl_of_get finite_names

lemma one_names: "names_ok one_cfg (customer_name_idx one_db)"
proof -
  define A where "A = {1 :: int} \<times> {1 :: int..10} \<times> pad0 16 ` {s. is_last_name s} \<times> {zeros}"
  have t: "customer_name_idx one_db = tbl_of A (\<lambda>_. 1)" by (simp add: one_db_def A_def)
  have fin: "finite A" by (simp add: A_def finite_names)
  have get: "tbl_get (tbl_of A (\<lambda>_. 1 :: int)) k \<noteq> None \<longleftrightarrow> k \<in> A" for k by (simp add: tbl_of_get [OF fin])
  have lt: "zeros < ones" by (simp add: zeros_def ones_def numeral_eq_Suc)
  have "tbl_scan (w, d, pad0 16 s, zeros) (w, d, pad0 16 s, ones) (tbl_of A (\<lambda>_. 1 :: int)) \<noteq> [] \<and>
      length (tbl_scan (w, d, pad0 16 s, zeros) (w, d, pad0 16 s, ones) (tbl_of A (\<lambda>_. 1 :: int))) < NMaxCustomerIdxScanElems"
    if "wd_ok one_cfg w d" "is_last_name s" for w d s
  proof -
    have "{k. tbl_get (tbl_of A (\<lambda>_. 1 :: int)) k \<noteq> None \<and> (w, d, pad0 16 s, zeros) \<le> k \<and> k < (w, d, pad0 16 s, ones)} =
        {(w, d, pad0 16 s, zeros)}"
      unfolding get using that lt by (auto simp: A_def wd_ok_def one_cfg_def NumDistrictsPerWarehouse_def)
    then have "length (tbl_scan (w, d, pad0 16 s, zeros) (w, d, pad0 16 s, ones) (tbl_of A (\<lambda>_. 1 :: int))) = 1"
      unfolding tbl.scan_length [OF tbl_of_ok] by (simp only: card.empty card_insert_disjoint finite.emptyI empty_iff not_False_eq_True One_nat_def)
    then show ?thesis by (auto simp: NMaxCustomerIdxScanElems_def)
  qed
  then show ?thesis by (auto simp: names_ok_def t tbl_of_get [OF fin] NumCustomersPerDistrict_def split: if_splits)
qed

lemma one_inv: "tpcc_inv one_cfg 0 one_state"
proof -
  have "tables_ok one_db" by (simp add: tables_ok_def one_db_def tbl_of_ok)
  moreover have "warehouses_ok one_cfg (warehouse one_db)"
    by (simp add: warehouses_ok_def one_get one_cfg_def SanityCheckWarehouse_def)
  moreover have "items_ok (item one_db)" by (simp add: items_ok_def one_get SanityCheckItem_def le_double_def NumItems_def)
  moreover have "stock_ok one_cfg (15 * 0) (stock one_db)" by (simp add: stock_ok_def one_get one_cfg_def NumItems_def)
  moreover have "districts_ok one_cfg 0 (t_ids one_state) (district one_db)"
    by (simp add: districts_ok_def one_get one_cfg_def wd_ok_def NumDistrictsPerWarehouse_def one_district_def
      SanityCheckDistrict_def next_o_id_def new_district_ids_def)
  moreover have "customers_ok one_cfg 0 (customer one_db)"
    by (simp add: customers_ok_def one_get one_cfg_def wd_ok_def NumDistrictsPerWarehouse_def NumCustomersPerDistrict_def
      one_customer_def SanityCheckCustomer_def)
  moreover have "index_ok one_cfg (oorder_c_id_idx one_db) (oorder one_db)"
    by (auto simp: index_ok_def one_get one_cfg_def wd_ok_def NumDistrictsPerWarehouse_def NumCustomersPerDistrict_def)
  moreover have "orders_ok one_cfg (next_o_id one_cfg (t_ids one_state) (district one_db)) (oorder one_db) (new_order one_db)"
    by (auto simp: orders_ok_def one_get one_cfg_def wd_ok_def NumDistrictsPerWarehouse_def NumCustomersPerDistrict_def
      SanityCheckOOrder_def next_o_id_def one_district_def)
  moreover have "lines_ok one_cfg (order_line one_db) (oorder one_db)"
    by (auto simp: lines_ok_def one_get NumItems_def)
  ultimately show ?thesis using one_names by (simp add: tpcc_inv_defs one_state_def)
qed

section \<open>The properties\<close>



text \<open>
  C8. The numbers a new order draws are in range for every state of the generator and the loops that draw them end, also the one
  that draws a warehouse until it is another one; the flag for local orders is set exactly when all items come from the
  order's own warehouse.
\<close>

theorem new_order_draws:
  assumes "cfg_ok cfg" "range_ok cfg wr"
  shows "\<exists>inp r'. draw_new_order cfg wr r = Some (Inr (inp, r')) \<and> new_order_ok cfg inp \<and>
    (no_local inp \<longleftrightarrow> (\<forall>it \<in> set (no_items inp). fst (snd it) = no_w inp))"
  by (rule gives_run [OF gives_new_order [OF assms]])

theorem new_order_draws_witness:
  "\<exists>inp r'. draw_new_order (one_cfg\<lparr>NumWarehouses := 4\<rparr>) (1, 5) 23984543 = Some (Inr (inp, r')) \<and>
    new_order_ok (one_cfg\<lparr>NumWarehouses := 4\<rparr>) inp"
  using new_order_draws [of "one_cfg\<lparr>NumWarehouses := 4\<rparr>" "(1, 5)" 23984543] by (auto simp: cfg_ok_def one_cfg_def range_ok_def)



end
