(* ===== verification/Silo_TpccLocks.thy ===== *)
theory Silo_TpccLocks
  imports Silo_TpccRun Silo_Containers
begin

text \<open>
  The partition locks of \<^verbatim>\<open>src/silo/benchmarks/tpcc.cc\<close>: \<open>scoped_multilock\<close>, \<open>scoped_lock_guard\<close>, the locks each transaction
  takes, and the threads that take them as a step relation over the words of the spin locks. The locks are elements of one
  array, so the order of their addresses, by which \<open>multilock\<close> sorts, is the order of the partitions. The theorem: locks are never
  taken twice, exclude each other, and no set of transactions can block itself.
\<close>

section \<open>scoped_multilock\<close>

record scoped_multilock =
  did_lock :: bool
  ml_locks :: "int list"

definition ml_new :: scoped_multilock where
  "ml_new = \<lparr>did_lock = False, ml_locks = []\<rparr>"

definition ml_enq :: "int \<Rightarrow> scoped_multilock \<Rightarrow> scoped_multilock res" where
  "ml_enq l m = (if did_lock m then Inl (Abort ''!did_lock'') else Inr (m\<lparr>ml_locks := ml_locks m @ [l]\<rparr>))"

text \<open>The vector after \<open>multilock\<close>: the locks in the order in which they are taken, and later released.\<close>

definition ml_multilock :: "scoped_multilock \<Rightarrow> scoped_multilock res" where
  "ml_multilock m =
     (if did_lock m then Inl (Abort ''!did_lock'')
      else let ls = (if 1 < length (ml_locks m) then sort (ml_locks m) else ml_locks m)
           in if card (set ls) \<noteq> length ls then Inl (Abort ''duplicate locks found'')
              else Inr \<lparr>did_lock = True, ml_locks = ls\<rparr>)"

definition LockForPartition :: "tpcc_cfg \<Rightarrow> int \<Rightarrow> int res" where
  "LockForPartition cfg wid =
     (if 1 \<le> wid \<and> wid \<le> NumWarehouses cfg then Inr (PartitionId cfg wid) else Inl (Abort ''wid >= 1 && wid <= NumWarehouses()''))"

section \<open>The locks of the transactions\<close>

fun lockset_loop :: "tpcc_cfg \<Rightarrow> (int \<times> int \<times> int) list \<Rightarrow> int set \<Rightarrow> scoped_multilock \<Rightarrow> scoped_multilock res" where
  "lockset_loop cfg [] lockset m = Inr m"
| "lockset_loop cfg ((i, sw, q) # its) lockset m =
     (if PartitionId cfg sw \<in> lockset then lockset_loop cfg its lockset m
      else bind_res (LockForPartition cfg sw) (\<lambda>l. bind_res (ml_enq l m) (\<lambda>m'.
        lockset_loop cfg its (insert (PartitionId cfg sw) lockset) m')))"

definition new_order_mlock :: "tpcc_cfg \<Rightarrow> new_order_in \<Rightarrow> scoped_multilock res" where
  "new_order_mlock cfg inp =
     bind_res (LockForPartition cfg (no_w inp)) (\<lambda>l. bind_res (ml_enq l ml_new) (\<lambda>m.
     bind_res (if no_local inp then Inr m else lockset_loop cfg (no_items inp) {PartitionId cfg (no_w inp)} m) ml_multilock))"

definition payment_mlock :: "tpcc_cfg \<Rightarrow> payment_in \<Rightarrow> scoped_multilock res" where
  "payment_mlock cfg inp =
     bind_res (LockForPartition cfg (p_w inp)) (\<lambda>l. bind_res (ml_enq l ml_new) (\<lambda>m.
     bind_res (if PartitionId cfg (p_cw inp) \<noteq> PartitionId cfg (p_w inp)
               then bind_res (LockForPartition cfg (p_cw inp)) (\<lambda>l. ml_enq l m) else Inr m) ml_multilock))"

text \<open>A transaction that begins: the read-only ones take no locks, and none does unless partition locks are enabled.\<close>

datatype begun = Begun_new_order new_order_in | Begun_payment payment_in | Begun_delivery int | Begun_read_only

fun txn_locks :: "bool \<Rightarrow> tpcc_cfg \<Rightarrow> begun \<Rightarrow> int list res" where
  "txn_locks enabled cfg (Begun_new_order inp) = (if enabled then bind_res (new_order_mlock cfg inp) (\<lambda>m. Inr (ml_locks m)) else Inr [])"
| "txn_locks enabled cfg (Begun_payment inp) = (if enabled then bind_res (payment_mlock cfg inp) (\<lambda>m. Inr (ml_locks m)) else Inr [])"
| "txn_locks enabled cfg (Begun_delivery w) = (if enabled then bind_res (LockForPartition cfg w) (\<lambda>l. Inr [l]) else Inr [])"
| "txn_locks enabled cfg Begun_read_only = Inr []"

section \<open>Threads\<close>

text \<open>
  A thread between transactions, one that took the first locks of its vector and still has to take the others (none left: it runs the
  transaction), and one whose destructor still has to release some.
\<close>

datatype lthread = Between | Locking "int list" "int list" | Unlocking "int list"

type_synonym lsys = "(int \<Rightarrow> u32) \<times> lthread list"

inductive lrun :: "lsys \<Rightarrow> lsys \<Rightarrow> bool" where
  take: "t < length ts \<Longrightarrow> ts ! t = Locking d (l # r) \<Longrightarrow> spin_try_lock (mem l) = (True, v) \<Longrightarrow>
    lrun (mem, ts) (mem(l := v), ts[t := Locking (d @ [l]) r])"
| finish: "t < length ts \<Longrightarrow> ts ! t = Locking d [] \<Longrightarrow> lrun (mem, ts) (mem, ts[t := Unlocking d])"
| release: "t < length ts \<Longrightarrow> ts ! t = Unlocking (l # r) \<Longrightarrow> spin_unlock (mem l) = Inr v \<Longrightarrow>
    lrun (mem, ts) (mem(l := v), ts[t := Unlocking r])"
| leave: "t < length ts \<Longrightarrow> ts ! t = Unlocking [] \<Longrightarrow> lrun (mem, ts) (mem, ts[t := Between])"

inductive lreach :: "bool \<Rightarrow> tpcc_cfg \<Rightarrow> nat \<Rightarrow> lsys \<Rightarrow> bool" for enabled cfg n where
  init: "lreach enabled cfg n (\<lambda>_. 0, replicate n Between)"
| start: "lreach enabled cfg n (mem, ts) \<Longrightarrow> t < length ts \<Longrightarrow> ts ! t = Between \<Longrightarrow> txn_locks enabled cfg req = Inr ls \<Longrightarrow>
    lreach enabled cfg n (mem, ts[t := Locking [] ls])"
| run: "lreach enabled cfg n s \<Longrightarrow> lrun s s' \<Longrightarrow> lreach enabled cfg n s'"

inductive_simps lrun_simps: "lrun (mem, ts) s'"

section \<open>The vectors are sorted and have no lock twice\<close>

lemma multilock_sorted: "ml_multilock m = Inr m' \<Longrightarrow> sorted_wrt (<) (ml_locks m') \<and> set (ml_locks m') = set (ml_locks m)"
  by (auto simp: ml_multilock_def Let_def strict_sorted_iff card_distinct sorted01 split: if_splits)

lemma bind_res_Inr: "bind_res m f = Inr y \<longleftrightarrow> (\<exists>x. m = Inr x \<and> f x = Inr y)"
  by (cases m) auto

lemma txn_locks_sorted: "txn_locks enabled cfg req = Inr ls \<Longrightarrow> sorted_wrt (<) ls"
  by (cases req) (auto simp: new_order_mlock_def payment_mlock_def bind_res_Inr dest: multilock_sorted split: if_splits)

text \<open>The loop over the suppliers enqueues each partition once.\<close>

lemma lockset_loop_ok:
  assumes "\<forall>(i, sw, q) \<in> set its. 1 \<le> sw \<and> sw \<le> NumWarehouses cfg" "\<not> did_lock m" "distinct (ml_locks m)" "lockset = set (ml_locks m)"
  shows "\<exists>m'. lockset_loop cfg its lockset m = Inr m' \<and> \<not> did_lock m' \<and> distinct (ml_locks m') \<and>
    set (ml_locks m') = set (ml_locks m) \<union> (\<lambda>(i, sw, q). PartitionId cfg sw) ` set its"
  using assms
proof (induction its arbitrary: lockset m)
  case (Cons it its)
  obtain i sw q where it: "it = (i, sw, q)" by (cases it)
  show ?case
  proof (cases "PartitionId cfg sw \<in> lockset")
    case True
    then show ?thesis using Cons.IH [of m lockset] Cons.prems by (auto simp: it)
  next
    case False
    then show ?thesis using Cons.IH [of "m\<lparr>ml_locks := ml_locks m @ [PartitionId cfg sw]\<rparr>" "insert (PartitionId cfg sw) lockset"] Cons.prems
      by (auto simp: it LockForPartition_def ml_enq_def)
  qed
qed simp

lemma multilock_ok:
  assumes "\<not> did_lock m" "distinct (ml_locks m)"
  shows "\<exists>m'. ml_multilock m = Inr m' \<and> set (ml_locks m') = set (ml_locks m)"
  using assms by (auto simp: ml_multilock_def Let_def distinct_card)

text \<open>The partitions of the warehouses a transaction touches.\<close>

fun txn_warehouses :: "begun \<Rightarrow> int set" where
  "txn_warehouses (Begun_new_order inp) = insert (no_w inp) ((fst \<circ> snd) ` set (no_items inp))"
| "txn_warehouses (Begun_payment inp) = {p_w inp, p_cw inp}"
| "txn_warehouses (Begun_delivery w) = {w}"
| "txn_warehouses Begun_read_only = {}"

definition begun_ok :: "tpcc_cfg \<Rightarrow> begun \<Rightarrow> bool" where
  "begun_ok cfg req \<longleftrightarrow> (\<forall>w \<in> txn_warehouses req. 1 \<le> w \<and> w \<le> NumWarehouses cfg) \<and>
     (case req of Begun_new_order inp \<Rightarrow> no_local inp \<longleftrightarrow> (\<forall>it \<in> set (no_items inp). fst (snd it) = no_w inp) | _ \<Rightarrow> True)"

lemma new_order_mlock_ok:
  assumes "begun_ok cfg (Begun_new_order inp)"
  shows "\<exists>m. new_order_mlock cfg inp = Inr m \<and> set (ml_locks m) = PartitionId cfg ` txn_warehouses (Begun_new_order inp)"
proof -
  define l where "l = PartitionId cfg (no_w inp)"
  have w: "\<forall>(i, sw, q) \<in> set (no_items inp). 1 \<le> sw \<and> sw \<le> NumWarehouses cfg" "LockForPartition cfg (no_w inp) = Inr l"
    using assms by (auto simp: begun_ok_def LockForPartition_def l_def)
  define m where "m = ml_new\<lparr>ml_locks := [l]\<rparr>"
  have m: "ml_enq l ml_new = Inr m" "\<not> did_lock m" "ml_locks m = [l]" by (simp_all add: m_def ml_enq_def ml_new_def)
  have loc: "(\<lambda>(i, sw, q). PartitionId cfg sw) ` set (no_items inp) \<subseteq> {l}" if "no_local inp"
    using assms that by (auto simp: begun_ok_def l_def)
  obtain m' where m': "(if no_local inp then Inr m else lockset_loop cfg (no_items inp) {l} m) = Inr m'" "\<not> did_lock m'"
      "distinct (ml_locks m')" "set (ml_locks m') = {l} \<union> (\<lambda>(i, sw, q). PartitionId cfg sw) ` set (no_items inp)"
    using lockset_loop_ok [OF w(1) m(2)] m(2,3) loc by (cases "no_local inp") auto
  then obtain m'' where "ml_multilock m' = Inr m''" "set (ml_locks m'') = set (ml_locks m')" using multilock_ok by blast
  moreover have "(\<lambda>(i, sw, q). PartitionId cfg sw) ` set (no_items inp) = PartitionId cfg ` (fst \<circ> snd) ` set (no_items inp)"
    by (simp add: image_image case_prod_beta)
  ultimately show ?thesis using w(2) m(1) m'(1,4)
    by (cases "no_local inp") (simp_all add: new_order_mlock_def l_def [symmetric])
qed

lemma payment_mlock_ok:
  assumes "begun_ok cfg (Begun_payment inp)"
  shows "\<exists>m. payment_mlock cfg inp = Inr m \<and> set (ml_locks m) = PartitionId cfg ` txn_warehouses (Begun_payment inp)"
  using assms by (auto simp: begun_ok_def payment_mlock_def LockForPartition_def ml_enq_def ml_new_def ml_multilock_def Let_def card_insert_if)

lemma txn_locks_ok:
  assumes "begun_ok cfg req"
  shows "\<exists>ls. txn_locks enabled cfg req = Inr ls \<and> set ls = (if enabled then PartitionId cfg ` txn_warehouses req else {})"
proof (cases req)
  case (Begun_new_order inp)
  then show ?thesis using new_order_mlock_ok [of cfg inp] assms by auto
next
  case (Begun_payment inp)
  then show ?thesis using payment_mlock_ok [of cfg inp] assms by auto
qed (use assms in \<open>auto simp: begun_ok_def LockForPartition_def\<close>)

section \<open>The locks exclude each other\<close>

fun held :: "lthread \<Rightarrow> int set" where
  "held Between = {}"
| "held (Locking d r) = set d"
| "held (Unlocking r) = set r"

fun thread_ok :: "lthread \<Rightarrow> bool" where
  "thread_ok Between = True"
| "thread_ok (Locking d r) = sorted_wrt (<) (d @ r)"
| "thread_ok (Unlocking r) = distinct r"

definition holders :: "lthread list \<Rightarrow> int \<Rightarrow> nat set" where
  "holders ts l = {t. t < length ts \<and> l \<in> held (ts ! t)}"

definition linv :: "lsys \<Rightarrow> bool" where
  "linv s \<longleftrightarrow> list_all thread_ok (snd s) \<and>
     (\<forall>l. fst s l = 0 \<and> holders (snd s) l = {} \<or> fst s l = 1 \<and> (\<exists>t. holders (snd s) l = {t}))"

lemma holders_update: "t < length ts \<Longrightarrow> holders (ts[t := x]) l = (if l \<in> held x then insert t (holders ts l) else holders ts l - {t})"
  by (auto simp: holders_def nth_list_update)

lemma holders_same: "t < length ts \<Longrightarrow> held x = held (ts ! t) \<Longrightarrow> holders (ts[t := x]) l = holders ts l"
  by (auto simp: holders_def nth_list_update)

lemma threads_update: "list_all thread_ok ts \<Longrightarrow> thread_ok x \<Longrightarrow> list_all thread_ok (ts[t := x])"
  by (cases "t < length ts") (auto simp: list_all_length nth_list_update)

lemma holder_in: "t < length ts \<Longrightarrow> l \<in> held (ts ! t) \<longleftrightarrow> t \<in> holders ts l"
  by (simp add: holders_def)

lemma lrun_linv:
  assumes "lrun s s'" "linv s"
  shows "linv s'"
  using assms
proof (induction rule: lrun.induct)
  case (take t ts d l r mem v)
  have ok: "list_all thread_ok ts" "sorted_wrt (<) (d @ l # r)" using take by (auto simp: linv_def list_all_length)
  have "mem l = 0" "v = 1" using take(3) by (auto simp: spin_try_lock_def split: if_splits)
  then have "holders ts l = {}" using take(4) by (auto simp: linv_def)
  then show ?case using take ok holder_in [OF take(1)] threads_update [OF ok(1), of "Locking (d @ [l]) r" t] \<open>v = 1\<close>
    by (auto simp: linv_def holders_update)
next
  case (finish t ts d mem)
  have ok: "list_all thread_ok ts" "sorted_wrt (<) d" using finish by (auto simp: linv_def list_all_length)
  then have "holders (ts[t := Unlocking d]) l = holders ts l" for l using finish(1,2) by (intro holders_same) auto
  then show ?case using finish ok threads_update [OF ok(1), of "Unlocking d" t] by (auto simp: linv_def strict_sorted_iff)
next
  case (release t ts l r mem v)
  have ok: "list_all thread_ok ts" "distinct (l # r)" using release by (auto simp: linv_def list_all_length)
  have "v = 0" using release(3) by (auto simp: spin_unlock_def split: if_splits)
  moreover have "t \<in> holders ts l" "mem l \<noteq> 0" using release by (auto simp: holders_def spin_unlock_def split: if_splits)
  moreover have "l' \<noteq> l \<Longrightarrow> holders (ts[t := Unlocking r]) l' = holders ts l'" for l'
    using release(1,2) holder_in [OF release(1), of l'] by (auto simp: holders_update)
  ultimately show ?case using release ok threads_update [OF ok(1), of "Unlocking r" t] by (auto simp: linv_def holders_update)
next
  case (leave t ts mem)
  have ok: "list_all thread_ok ts" using leave by (auto simp: linv_def)
  have "holders (ts[t := Between]) l = holders ts l" for l using leave(1,2) by (intro holders_same) auto
  then show ?case using leave threads_update [OF ok, of Between t] by (auto simp: linv_def)
qed

lemma lreach_linv: "lreach enabled cfg n s \<Longrightarrow> linv s \<and> length (snd s) = n"
proof (induction rule: lreach.induct)
  case init
  then show ?case by (auto simp: linv_def holders_def list_all_length)
next
  case (start mem ts t req ls)
  have "holders (ts[t := Locking [] ls]) l = holders ts l" for l using start(2,3) by (intro holders_same) auto
  then show ?case using start txn_locks_sorted [OF start(4)] threads_update [of ts "Locking [] ls" t] by (auto simp: linv_def)
next
  case (run s s')
  have "length (snd s') = length (snd s)" using run(2) by (induction rule: lrun.induct) simp_all
  then show ?case using run lrun_linv by auto
qed

section \<open>No deadlock\<close>

fun next_lock :: "lthread \<Rightarrow> int option" where
  "next_lock (Locking d (l # r)) = Some l"
| "next_lock _ = None"

lemma next_lock_Some: "next_lock th = Some l \<longleftrightarrow> (\<exists>d r. th = Locking d (l # r))"
  by (cases th rule: next_lock.cases) auto

text \<open>A thread that does not wait for a lock can go on; one that waits for a lock that is held waits for a thread that waits for a greater one.\<close>

lemma not_waiting_runs:
  assumes "linv (mem, ts)" "t < length ts" "ts ! t \<noteq> Between" "next_lock (ts ! t) = None"
  shows "\<exists>s'. lrun (mem, ts) s'"
proof (cases "ts ! t")
  case (Locking d r)
  then have "r = []" using assms(4) by (cases r) auto
  then show ?thesis using Locking assms(2) lrun.finish by blast
next
  case (Unlocking r)
  show ?thesis
  proof (cases r)
    case Nil
    then show ?thesis using Unlocking assms(2) lrun.leave by blast
  next
    case (Cons l r')
    then have "t \<in> holders ts l" using Unlocking assms(2) by (simp add: holders_def)
    then have "mem l = 1" using assms(1) by (auto simp: linv_def)
    then show ?thesis using lrun.release [OF assms(2), of l r' mem 0] Unlocking Cons by (auto simp: spin_unlock_def)
  qed
qed (use assms in auto)

lemma waiting_chain:
  assumes "linv (mem, ts)" "t < length ts" "next_lock (ts ! t) = Some l" "\<nexists>s'. lrun (mem, ts) s'"
  shows "\<exists>u l'. u < length ts \<and> next_lock (ts ! u) = Some l' \<and> l < l'"
proof -
  obtain d r where t: "ts ! t = Locking d (l # r)" using assms(3) by (auto simp: next_lock_Some)
  have "mem l \<noteq> 0" using lrun.take [OF assms(2) t, of mem 1] assms(4) by (auto simp: spin_try_lock_def)
  then obtain u where "holders ts l = {u}" using assms(1) by (auto simp: linv_def)
  then have u: "u < length ts" "l \<in> held (ts ! u)" by (auto simp: holders_def)
  then have "next_lock (ts ! u) \<noteq> None" using not_waiting_runs [OF assms(1) u(1)] assms(4) by force
  then obtain l' d' r' where l': "ts ! u = Locking d' (l' # r')" "next_lock (ts ! u) = Some l'" by (auto simp: next_lock_Some)
  have "sorted_wrt (<) (d' @ l' # r')" using assms(1) u(1) l'(1) by (auto simp: linv_def list_all_length)
  then have "l < l'" using u(2) l'(1) by (auto simp: sorted_wrt_append)
  then show ?thesis using u(1) l'(2) by blast
qed

lemma linv_progress:
  assumes "linv (mem, ts)" "t < length ts" "ts ! t \<noteq> Between"
  shows "\<exists>s'. lrun (mem, ts) s'"
proof (rule ccontr)
  assume stuck: "\<nexists>s'. lrun (mem, ts) s'"
  define W where "W = {l. \<exists>t < length ts. next_lock (ts ! t) = Some l}"
  have "W \<subseteq> (\<lambda>t. the (next_lock (ts ! t))) ` {..<length ts}" by (auto simp: W_def image_iff) (metis lessThan_iff option.sel)
  then have "finite W" by (rule finite_subset) simp
  moreover have "W \<noteq> {}" using not_waiting_runs [OF assms] stuck assms(2) by (auto simp: W_def)
  ultimately have "Max W \<in> W" by simp
  then obtain u where "u < length ts" "next_lock (ts ! u) = Some (Max W)" by (auto simp: W_def)
  from waiting_chain [OF assms(1) this stuck] obtain l where "l \<in> W" "Max W < l" by (auto simp: W_def)
  then show False using Max_ge [OF \<open>finite W\<close>, of l] by simp
qed

fun thread_steps :: "lthread \<Rightarrow> nat" where
  "thread_steps Between = 0"
| "thread_steps (Locking d r) = length d + 2 * length r + 2"
| "thread_steps (Unlocking r) = length r + 1"

definition lsteps :: "lsys \<Rightarrow> nat" where
  "lsteps s = sum_list (map thread_steps (snd s))"

lemma lsteps_update: "t < length ts \<Longrightarrow> thread_steps x < thread_steps (ts ! t) \<Longrightarrow> lsteps (mem', ts[t := x]) < lsteps (mem, ts)"
proof -
  assume t: "t < length ts" "thread_steps x < thread_steps (ts ! t)"
  have "thread_steps (ts ! t) \<le> sum_list (map thread_steps ts)" using t(1) by (intro elem_le_sum_list [of t "map thread_steps ts", simplified])
  then show ?thesis using t by (simp add: lsteps_def map_update sum_list_update)
qed

lemma lrun_decreases: "lrun s s' \<Longrightarrow> lsteps s' < lsteps s"
  by (induction rule: lrun.induct) (auto intro!: lsteps_update)

section \<open>The property\<close>

text \<open>
  C31. Partition locks: a transaction with warehouses in range gets the locks of their partitions, each once; two threads never hold the same
  lock, so that two transactions that run share no partition; whenever some transaction has begun, a thread can go on; and
  the transactions that have begun end after at most \<open>lsteps\<close> steps, however the threads are scheduled.
\<close>

theorem partition_locks:
  assumes "lreach enabled cfg n (mem, ts)" "begun_ok cfg req"
  shows "(\<exists>ls. txn_locks enabled cfg req = Inr ls \<and> sorted_wrt (<) ls \<and> set ls = (if enabled then PartitionId cfg ` txn_warehouses req else {})) \<and>
    (\<forall>t u. t < n \<longrightarrow> u < n \<longrightarrow> t \<noteq> u \<longrightarrow> held (ts ! t) \<inter> held (ts ! u) = {}) \<and>
    ((\<exists>t < n. ts ! t \<noteq> Between) \<longrightarrow> (\<exists>s'. lrun (mem, ts) s')) \<and>
    (\<forall>s'. lrun (mem, ts) s' \<longrightarrow> lsteps s' < lsteps (mem, ts))"
proof -
  have inv: "linv (mem, ts)" "length ts = n" using lreach_linv [OF assms(1)] by auto
  have "held (ts ! t) \<inter> held (ts ! u) = {}" if tu: "t < n" "u < n" "t \<noteq> u" for t u
  proof (rule ccontr)
    assume "held (ts ! t) \<inter> held (ts ! u) \<noteq> {}"
    then obtain l where "t \<in> holders ts l" "u \<in> holders ts l" using tu inv(2) by (auto simp: holders_def)
    then show False using inv(1) tu(3) by (auto simp: linv_def dest!: spec [of _ l])
  qed
  moreover obtain ls where ls: "txn_locks enabled cfg req = Inr ls" "set ls = (if enabled then PartitionId cfg ` txn_warehouses req else {})"
    using txn_locks_ok [OF assms(2), of enabled] by auto
  moreover have "\<exists>s'. lrun (mem, ts) s'" if "\<exists>t < n. ts ! t \<noteq> Between" using that linv_progress [OF inv(1)] inv(2) by auto
  ultimately show ?thesis using txn_locks_sorted [OF ls(1)] lrun_decreases by simp
qed

theorem partition_locks_witness:
  "(\<exists>s'. lrun ((\<lambda>_. 0)(1 := 1), [Locking [1] [], Locking [] [1]]) s') \<and> held (Locking [1] []) \<inter> held (Locking [] [1]) = {}"
proof -
  let ?cfg = "one_cfg\<lparr>NumWarehouses := 4, nthreads := 4\<rparr>"
  have l: "txn_locks True ?cfg (Begun_delivery 2) = Inr [1]" by (simp add: LockForPartition_def PartitionId_def one_cfg_def)
  note a = lreach.start [OF lreach.init [of True ?cfg 2], of 0, OF _ _ l]
  note b = lreach.start [OF a, of 1, OF _ _ _ _ l]
  have "lreach True ?cfg 2 (\<lambda>_. 0, [Locking [] [1], Locking [] [1]])" using b by (simp add: numeral_2_eq_2)
  moreover have "lrun (\<lambda>_. 0, [Locking [] [1], Locking [] [1]]) ((\<lambda>_. 0)(1 := 1), [Locking [1] [], Locking [] [1]])"
    using lrun.take [of 0 "[Locking [] [1], Locking [] [1]]" "[]" 1 "[]" "\<lambda>_. 0" 1] by (simp add: spin_try_lock_def)
  ultimately have "lreach True ?cfg 2 ((\<lambda>_. 0)(1 := 1), [Locking [1] [], Locking [] [1]])" by (rule lreach.run)
  moreover have "begun_ok ?cfg (Begun_delivery 2)" by (simp add: begun_ok_def one_cfg_def)
  ultimately have "(\<exists>t < 2. [Locking [1] [], Locking [] [1]] ! t \<noteq> Between) \<longrightarrow>
      (\<exists>s'. lrun ((\<lambda>_. 0)(1 := 1), [Locking [1] [], Locking [] [1]]) s')" using partition_locks by blast
  moreover have "\<exists>t < 2. [Locking [1] [], Locking [] [1]] ! t \<noteq> Between" by (rule exI [of _ 0]) simp
  ultimately show ?thesis by simp
qed

end
