(* ===== verification/Spec2Isabelle.thy ===== *)
theory Spec2Isabelle
  imports Harness_Theorems Harness_Integrated App_Source App_Xapian App_ImgDnn App_Masstree App_Sphinx App_Silo
    Masstree_Search Masstree_Circular Masstree_Leaf Silo_Varint Silo_Util Silo_Containers Silo_Commit Silo_Serial Silo_Epoch
    Silo_TpccLocks
begin

text \<open>
  TailBench++ measures the tail latency of server applications. A harness, linked into a client
  process and into the server application, generates requests at an open-loop rate, carries them over
  TCP, and records for every request when it was due, when its service started and when its response
  came. The applications are a search engine (Xapian), handwritten-digit recognition (img-dnn), a
  key-value store (Masstree), speech recognition (Sphinx), an in-memory database (Silo), machine
  translation (Moses), an on-disk database (Shore) and SPECjbb. Each supplies a client that makes
  requests (\<open>tBenchClientInit\<close>, \<open>tBenchClientGenReq\<close>) and a server loop over \<open>tBenchRecvReq\<close> and
  \<open>tBenchSendResp\<close>.

  \<^bold>\<open>The harness\<close> (\<^verbatim>\<open>src/harness\<close>).
  \<^item> \<open>Prelude\<close>: results with errors (\<open>Abort\<close> a failed assertion, \<open>Exit\<close>, \<open>Throw\<close> an exception, \<open>Undefined\<close> undefined
    behaviour), little-endian layouts, machine integers, shared lemmas.
  \<^item> \<open>Harness_Msgs\<close>: \<^verbatim>\<open>msgs.h\<close>; the structures \<open>Request\<close> and \<open>Response\<close> and their bytes.
  \<^item> \<open>Cpp_Double\<close>, \<open>Harness_Dist\<close>: IEEE doubles as far as the code uses them, and \<^verbatim>\<open>dist.h\<close>, the arrival
    process, with the C++ random engine as a parameter.
  \<^item> \<open>Harness_Opt\<close>, \<open>Harness_Helpers\<close>: \<^verbatim>\<open>helpers.h\<close>; options from the environment, clock, \<open>sendfull\<close> and
    \<open>recvfull\<close> over scripts of what the socket takes and gives.
  \<^item> \<open>Harness_Client\<close>, \<open>Harness_NetClient\<close>: \<^verbatim>\<open>client.h\<close> and \<^verbatim>\<open>client.cpp\<close>; the record \<open>Client\<close>, \<open>startReq\<close>,
    \<open>finiReq\<close>, \<open>dumpStats\<close>, and the networked \<open>send\<close> and \<open>recv\<close> with their mutexes.
  \<^item> \<open>Harness_Concurrent\<close>: \<^verbatim>\<open>tbench_client_networked.cpp\<close>; sender and receiver threads as the step
    relation \<open>cstep\<close> over the shared client, with the invariant \<open>csys_inv\<close> kept by every step.
  \<^item> \<open>Harness_ServerApi\<close>, \<open>Harness_NetServer\<close>, \<open>Harness_Integrated\<close>: the contract of a server (a locale),
    \<^verbatim>\<open>tbench_server_networked.cpp\<close>, \<^verbatim>\<open>tbench_server_integrated.cpp\<close> and \<^verbatim>\<open>tbench_jni.cpp\<close>, with
    both servers as interpretations of the contract.
  \<^item> \<open>Harness_Theorems\<close>: thread safety and progress of the client (C1, C2), its operations (C3 to C5) and the
    arrival times (C7), the socket loop (C9), \<open>send\<close> (C11), the server (C13 to C15), the integrated server
    (C17), and lemmas on rates, \<open>recv\<close> and options. This theory adds the two journeys across the
    network (C22, C23).

  \<^bold>\<open>The applications.\<close>
  \<^item> \<open>App_Source\<close>: what the harness relies on in a request generator, as the locale \<open>request_source\<close>
    (a valid state always yields a request that fits a message and stays valid), proved once for the
    clients of Moses, SPECjbb and Shore here and for each other application in its theory.
  \<^item> \<open>App_Xapian\<close>: \<^verbatim>\<open>src/xapian\<close>; term loader, server, thread loop, term selection (C32, and lemmas for the others).
  \<^item> \<open>App_ImgDnn\<close>: \<^verbatim>\<open>src/img-dnn\<close>; image files, serialisation, prediction, worker loop (C38). The
    matrix operations of OpenCV are parameters, gathered in the record \<open>cv_ops\<close>.
  \<^item> \<open>App_Masstree\<close>: \<^verbatim>\<open>kvclient.cc\<close>, \<^verbatim>\<open>mttest.hh\<close>, the benchmark part of \<^verbatim>\<open>kvtest.hh\<close> (C18, C39); the tree's
    operations are parameters.
  \<^item> \<open>App_Sphinx\<close>: \<^verbatim>\<open>src/sphinx\<close>; the decoder library is a parameter.
  \<^item> \<open>App_Silo\<close>: \<^verbatim>\<open>benchmarks/client.cc\<close> and \<open>bench_worker::run\<close>; when a request is answered and when not.

  \<^bold>\<open>Data structures of the storage applications.\<close>
  \<^item> \<open>Masstree_Permuter\<close>: \<^verbatim>\<open>kpermuter.hh\<close>; the order of a node's keys packed in a word refines a list of
    slots, through the locale \<open>slot_store\<close> (C24).
  \<^item> \<open>Masstree_Version\<close>: \<^verbatim>\<open>nodeversion.hh\<close>; the lock and version word, its protocol as the step relation
    \<open>nvstep\<close>, what an optimistic reader may conclude and up to which number of changes (C27 to C29).
  \<^item> \<open>Masstree_Search\<close>, \<open>Masstree_Circular\<close>: \<^verbatim>\<open>ksearch.hh\<close>, binary against linear search (C25), and
    \<^verbatim>\<open>circular_int.hh\<close>, the order of wrapping epochs.
  \<^item> \<open>Masstree_Key\<close>: \<^verbatim>\<open>string_slice.hh\<close> and \<^verbatim>\<open>masstree_key.hh\<close> over a byte-addressed memory; the comparison of
    the tree is the lexicographic order (C26).
  \<^item> \<open>Masstree_Internode\<close>, \<open>Masstree_Leaf\<close>: the nodes of \<^verbatim>\<open>masstree_struct.hh\<close> and the splits of
    \<^verbatim>\<open>masstree_split.hh\<close>, over the permuter and the version; splitting while inserting is list insertion
    followed by a cut (C36 for leaves, C40 for internal nodes).
  \<^bold>\<open>Silo\<close> (\<^verbatim>\<open>src/silo\<close>), from the bytes of a record up to the TPC-C workload that the benchmark serves.
  \<^item> \<open>Silo_Varint\<close>, \<open>Silo_Util\<close>, \<open>Silo_Containers\<close>: \<^verbatim>\<open>varint.h\<close> (C20), \<^verbatim>\<open>util.h\<close>, \<^verbatim>\<open>static_vector.h\<close>,
    \<^verbatim>\<open>spinlock.h\<close> and \<^verbatim>\<open>spinbarrier.h\<close>.
  \<^item> \<open>Silo_Tuple\<close>, \<open>Silo_Tid\<close>: \<^verbatim>\<open>tuple.h\<close>, the header word of a record with its lock and change counter, optimistic
    reads (C12), chains of versions and the writer, and the commit ids and snapshots of
    \<^verbatim>\<open>txn_proto2_impl.h\<close> (C30, C35).
  \<^item> \<open>Silo_Txn\<close>, \<open>Silo_Commit\<close>: \<^verbatim>\<open>txn.h\<close>, \<^verbatim>\<open>txn_impl.h\<close>, \<^verbatim>\<open>base_txn_btree.h\<close>; the sets of a transaction, reads, puts and
    inserts, commit and abort over a heap of records (C16, C19). The B-tree is a parameter.
  \<^item> \<open>Silo_Serial\<close>: concurrent transactions as the step relation \<open>sstep\<close>; commits are serializable (C10).
  \<^item> \<open>Silo_PxQueue\<close>, \<open>Silo_Epoch\<close>: \<^verbatim>\<open>pxqueue.h\<close>, \<^verbatim>\<open>ticker.h\<close>, \<^verbatim>\<open>rcu.h\<close> and \<^verbatim>\<open>rcu.cc\<close>, and the collector of versions, as
    the step relation \<open>estep\<close>; what is freed can no longer be reached (C37).
  \<^item> \<open>Silo_Record\<close>: \<^verbatim>\<open>record/serializer.h\<close> and \<^verbatim>\<open>record/encoder.h\<close>; records to bytes and back (C21), and the order of
    keys is the order of their bytes (C33), on which every scan rests.
  \<^item> \<open>Silo_Random\<close>: the generators of \<^verbatim>\<open>benchmarks/tpcc.cc\<close> over the random numbers of \<open>Silo_Util\<close>, with draws as
    computations that return, fault or run for ever; the generator has full period, so that the loops that
    draw until a test succeeds end.
  \<^item> \<open>Silo_TpccDb\<close>: \<^verbatim>\<open>benchmarks/tpcc.h\<close>, the tables as ordered indexes, through the locale \<open>ordered_index\<close>, with the
    callbacks of the scans.
  \<^item> \<open>Silo_Tpcc\<close>, \<open>Silo_TpccInv\<close>, \<open>Silo_TpccRun\<close>: the five transactions, the consistency of the database and that each
    transaction keeps it, and the requests of the workers (C6, C8, C34).
  \<^item> \<open>Silo_TpccLocks\<close>: the partition locks of the transactions as the step relation \<open>lrun\<close> (C31).

  \<^bold>\<open>How loops end.\<close> Loops over data are structural or have a measure; loops that
  wait for the outside (the clock, the socket, \<open>select\<close>, another thread) read a finite script of what the
  outside does and are \<open>None\<close> when it is used up, and termination is then claimed for scripts that
  contain the awaited event. The loader of Xapian's terms is a \<open>partial_function\<close> into \<open>option\<close>, because
  it can run for ever, and both that and its termination on good files are theorems; the walk along the
  versions of a record and the draw of another warehouse are such functions too, and are shown to return. The
  one loop with fuel is the retry of a put into Silo's tree, with fuel 2, which is shown to be enough. Thread
  interleavings are step relations; for the bounded loops of the Xapian and img-dnn servers and for the
  partition locks of Silo the number of steps of every run is bounded.

  \<^bold>\<open>Bounds.\<close> The theorem on TPC-C requests (C6) allows a hundred million of them, because the counters of the tables
  have 32 bits; the one on optimistic reads allows fewer than \<open>2 ^ 27\<close> releases, the width of the change counter.

  \<^bold>\<open>Not modelled.\<close> The engines behind the applications: the descent,
  removal and scan of Masstree's tree, its suffix bags and its log, the decoders of Moses and Sphinx, Shore, Xapian and OpenCV,
  which are third-party systems that the
  benchmark code calls; Silo's B-tree, which is a submodule whose files are not there, its scans inside a transaction, its
  logger and its allocator; the loaders that fill the TPC-C tables, whose result is the hypothesis of C6 that the
  database is consistent; the training tool of img-dnn; printing of statistics and usage; CPU pinning; the
  shell and Python scripts. Memory is modelled where the code's result depends on it (uninitialised
  buffers, reuse of request buffers, the records of Silo), and threads interleave sequentially consistently at
  the granularity of the code's locks and atomic operations. In C6 transactions run one after the other, which is what C10
  gives for those that commit.
\<close>

section \<open>From one process to the other\<close>

text \<open>
  C22. A request crosses the network unchanged: when the bytes a client's \<open>send\<close> produced are next on a
  ready connection, in whatever segments they arrive, the server's \<open>recvReq\<close> returns the request's
  length, its payload and its id, and leaves the bytes that follow.
\<close>

theorem request_end_to_end:
  assumes snd: "send rid t1 t2 err s nc = Some (Inr (True, out, s', nc'))"
      "inFlightReqs (base nc) rid = Some r" "0 < unat (rq_len r)" "unat (rq_len r) \<le> 2 ^ 20"
      "numReqsSent (base nc) \<noteq> warmupreqs (base nc) + maxreqs (base nc)"
    and srv: "i < length (reqbuf sv)" "i < length (reqInfo sv)" "i < length (activeFds sv)"
    and sel: "selects e = Some ready # sels" "list_all fd_ok (listenFd sv # clientFds sv)"
      "listenFd sv \<notin> set ready" "clientFds sv \<noteq> []"
      "fd = pick_fd (filter (\<lambda>f. f \<in> set ready) (listenFd sv # clientFds sv)) (clientFds sv) (recvClientHead sv)"
      "fd \<noteq> - 1"
    and net: "rx_bytes (conns e fd) = out @ rest"
  shows "\<exists>dat cr sv' e'. recvReq i t sv e = Some (Inr (rq_len r, dat, cr, sv', e')) \<and>
    take (unat (rq_len r)) dat = buf_take (unat (rq_len r)) (rq_data r) \<and>
    rq_id (reqbuf sv' ! i) = rq_id r \<and> rq_genNs (reqbuf sv' ! i) = rq_genNs r \<and>
    activeFds sv' ! i = fd \<and> reqInfo sv' ! i = \<lparr>ri_id = rq_id r, ri_startNs = t\<rparr> \<and>
    rx_bytes (conns e' fd) = rest"
proof -
  define data where "data = buf_take (unat (rq_len r)) (rq_data r)"
  let ?r = "stamped t1 t2 r"
  have "out = request_header ?r @ data"
    unfolding data_def by (rule send_bytes [OF snd(1,2,4,5)])
  then have bytes: "rx_bytes (conns e fd) = request_header ?r @ data @ rest" using net by simp
  have len: "rq_len ?r = of_nat (length data)" "0 < length data" "length data \<le> 2 ^ 20"
    using snd(3,4) by (simp_all add: data_def stamped_def)
  obtain cr sv' e' where d: "recvReq i t sv e = Some (Inr (rq_len ?r, store_data data (rq_data (reqbuf sv ! i)), cr, sv', e'))"
    "reqbuf sv' ! i = ?r\<lparr>rq_data := store_data data (rq_data (reqbuf sv ! i))\<rparr>" "activeFds sv' ! i = fd"
    "reqInfo sv' ! i = \<lparr>ri_id = rq_id ?r, ri_startNs = t\<rparr>" "rx_bytes (conns e' fd) = rest"
    using recvReq_delivers [OF srv sel bytes len] by blast
  have "take (length data) (store_data data (rq_data (reqbuf sv ! i))) = data" by simp
  then have "take (unat (rq_len r)) (store_data data (rq_data (reqbuf sv ! i))) = data"
    by (simp only: data_def length_buf_take)
  then show ?thesis using d
    by (intro exI [of _ "store_data data (rq_data (reqbuf sv ! i))"] exI [of _ cr] exI [of _ sv'] exI [of _ e'])
       (simp add: stamped_def data_def)
qed

theorem request_end_to_end_witness:
  "\<exists>out s' nc' dat cr sv' e'. send 0 11 12 [] [TxOk 200] ex_warm_nc = Some (Inr (True, out, s', nc')) \<and>
     recvReq 0 100 ex_server (ex_netenv\<lparr>conns := \<lambda>_. [RxData (take 50 out), RxData (drop 50 out)]\<rparr>) =
       Some (Inr (2, dat, cr, sv', e')) \<and> take 2 dat = [7, 9]"
proof -
  obtain out s' nc' where e: "send 0 11 12 [] [TxOk 200] ex_warm_nc = Some (Inr (True, out, s', nc'))"
    using ex_send by blast
  have f: "inFlightReqs (base ex_warm_nc) 0 = Some ex_request" "0 < unat (rq_len ex_request)"
    "unat (rq_len ex_request) \<le> 2 ^ 20"
    "numReqsSent (base ex_warm_nc) \<noteq> warmupreqs (base ex_warm_nc) + maxreqs (base ex_warm_nc)"
    by (simp_all add: example_defs ex_fields)
  have o: "length out = 82" using send_bytes [OF e f(1,3,4)] by (simp add: ex_request_def)
  let ?e = "ex_netenv\<lparr>conns := \<lambda>_. [RxData (take 50 out), RxData (drop 50 out)]\<rparr>"
  have ne: "take 50 out \<noteq> []" "drop 50 out \<noteq> []" using o by auto
  have b: "rx_bytes (conns ?e 5) = out @ []" using ne by simp
  have "\<exists>dat cr sv' e'. recvReq 0 100 ex_server ?e = Some (Inr (rq_len ex_request, dat, cr, sv', e')) \<and>
    take (unat (rq_len ex_request)) dat = buf_take (unat (rq_len ex_request)) (rq_data ex_request) \<and>
    rq_id (reqbuf sv' ! 0) = rq_id ex_request \<and> rq_genNs (reqbuf sv' ! 0) = rq_genNs ex_request \<and>
    activeFds sv' ! 0 = 5 \<and> reqInfo sv' ! 0 = \<lparr>ri_id = rq_id ex_request, ri_startNs = 100\<rparr> \<and>
    rx_bytes (conns e' 5) = []"
    by (rule request_end_to_end [OF e f, where ready = "[5]" and sels = "[]", OF _ _ _ _ _ _ _ ex_pick [symmetric] _ b])
       (simp_all add: example_defs fd_ok_def FD_SETSIZE_def)
  then show ?thesis using e by (fastforce simp: ex_request_def buf_take_def)
qed

text \<open>
  C23. A response crosses the network unchanged: when the bytes a server's \<open>sendResp\<close> sent are next on
  the client's connection and the socket took all of them, the client's \<open>recv\<close> succeeds, releases its lock
  and yields the id, the service time and the payload.
\<close>

theorem response_end_to_end:
  assumes srv: "i < length (reqInfo sv)" "i < length (activeFds sv)" "unat len \<le> 2 ^ 20"
      "unat len \<le> length data" "ri_startNs (reqInfo sv ! i) < t"
      "40 + unat len \<le> tx_room (outs (activeFds sv ! i))"
    and snd: "sendResp i data len t outs sv = Some (Inr (fd, out, outs', sv'))"
    and cli: "\<not> recvLock_held nc" "rx_bytes s = out @ rest"
  shows "\<exists>s' resp'. recv s1 endNs err resp s nc = Some (Inr (True, resp', s', nc\<lparr>recvLock_held := False\<rparr>)) \<and>
    rs_type resp' = RESPONSE \<and> rs_id resp' = ri_id (reqInfo sv ! i) \<and>
    rs_svcNs resp' = t - ri_startNs (reqInfo sv ! i) \<and> rs_len resp' = len \<and>
    take (unat len) (rs_data resp') = take (unat len) data \<and> rx_bytes s' = rest"
proof -
  define r where "r = make_resp (reqInfo sv ! i) data len t"
  have out: "out = response_header r @ take (unat len) data"
    using sendResp_complete [where outs = outs, OF srv] snd by (auto simp: r_def)
  then have bytes: "rx_bytes s = response_header r @ take (unat len) data @ rest" using cli(2) by simp
  have n: "length (take (unat len) data) = unat len" using srv(4) by simp
  have r: "rs_type r = RESPONSE" "rs_len r = of_nat (length (take (unat len) data))"
    "length (take (unat len) data) \<le> 2 ^ 20" using srv(3) by (simp_all add: r_def make_resp_def n del: length_take)
  obtain s' resp' where "recv s1 endNs err resp s nc = Some (Inr (True, resp', s', nc\<lparr>recvLock_held := False\<rparr>))"
    "rx_bytes s' = rest" "rs_type resp' = RESPONSE" "rs_id resp' = rs_id r" "rs_svcNs resp' = rs_svcNs r"
    "rs_len resp' = rs_len r" "take (unat len) (rs_data resp') = take (unat len) data"
    using recv_roundtrip [OF cli(1) bytes r] unfolding n by blast
  then show ?thesis by (simp add: r_def make_resp_def)
qed

definition ex_serving :: NetworkedServer where [example_defs]:
  "ex_serving = ex_server\<lparr>reqInfo := [\<lparr>ri_id = 3, ri_startNs = 100\<rparr>], activeFds := [5]\<rparr>"

theorem response_end_to_end_witness:
  "\<exists>out outs' sv' s' resp' nc'. sendResp 0 [1, 2] 2 130 (\<lambda>_. [TxOk 99]) ex_serving = Some (Inr (5, out, outs', sv')) \<and>
     recv 1 2 [] new_Response [RxData out] ex_nclient = Some (Inr (True, resp', s', nc')) \<and>
     rs_id resp' = 3 \<and> rs_svcNs resp' = 30 \<and> take 2 (rs_data resp') = [1, 2]"
proof -
  have room: "40 + unat (2 :: u64) \<le> tx_room ((\<lambda>_. [TxOk 99]) (activeFds ex_serving ! 0))" by simp
  have g: "0 < length (reqInfo ex_serving)" "0 < length (activeFds ex_serving)" "unat (2 :: u64) \<le> 2 ^ 20"
    "unat (2 :: u64) \<le> length [1, 2 :: byte]" "ri_startNs (reqInfo ex_serving ! 0) < 130"
    by (simp_all add: ex_serving_def)
  obtain out outs' sv' where s: "sendResp 0 [1, 2] 2 130 (\<lambda>_. [TxOk 99]) ex_serving = Some (Inr (5, out, outs', sv'))"
    and o: "out = response_header (make_resp (reqInfo ex_serving ! 0) [1, 2] 2 130) @ [1, 2]"
    using sendResp_complete [where outs = "\<lambda>_. [TxOk 99]", OF g room] by (auto simp: ex_serving_def)
  have u: "\<not> recvLock_held ex_nclient"
    using ex_client_new by (simp add: example_defs new_NetworkedClient_def)
  have b: "rx_bytes [RxData out] = out @ []" using o by simp
  from response_end_to_end [where outs = "\<lambda>_. [TxOk 99]", OF g room s u b, of 1 2 "[]" new_Response] s show ?thesis
    by (fastforce simp: ex_serving_def)
qed

end
